(* ===== verification/Rust_Base.thy ===== *)
theory Rust_Base
  imports Main "HOL-Library.Word"
begin

unbundle bit_operations_syntax

text \<open>
  The vocabulary all theories share: machine integers at their width, the error types of
  \<^verbatim>\<open>src/src/error.rs\<close>, the outcome of a fallible Rust function, and little-endian bytes.

  The model is of a 64-bit target (\<open>usize\<close> has 64 bits and is a \<open>nat\<close> below \<open>2 ^ 64\<close>)
  built with the release profile: additions of machine integers wrap around. A slice or
  vector access out of range, an \<open>unwrap\<close> of nothing and a failed \<open>assert!\<close> are the
  outcome \<open>Panic\<close>; a loop that may not end takes fuel, and running out of it is
  \<open>OutOfFuel\<close>. Memory allocation succeeds.
\<close>

section \<open>Machine integers and collections of facts\<close>

type_synonym u8 = "8 word"
type_synonym u16 = "16 word"
type_synonym u32 = "32 word"
type_synonym u64 = "64 word"
type_synonym bytes = "u8 list"
type_synonym usize = nat

abbreviation usize_max :: nat where
  "usize_max \<equiv> 2 ^ 64 - 1"

definition usize_add :: "usize \<Rightarrow> usize \<Rightarrow> usize" where
  "usize_add a b = (a + b) mod 2 ^ 64"

lemma usize_add_exact [simp]: "a + b < 2 ^ 64 \<Longrightarrow> usize_add a b = a + b"
  by (simp add: usize_add_def)

named_theorems outcome_simps \<open>equations that run the outcome monad\<close>
named_theorems parse_intros \<open>rules that a parser recovers what a printer wrote\<close>

section \<open>Errors (error.rs)\<close>

datatype io_kind =
  UnexpectedEof | InvalidInput | InvalidData | WriteZero | BrokenPipe | UnsupportedKind
  | NotFound | OtherKind

datatype io_error = Io_simple io_kind string | Io_wrapped error
  and error =
    BadSignature bytes
  | UnsupportedVersion u8 u8
  | ChecksumVerificationFailed
  | NextHeaderCrcMismatch
  | Io io_error string
  | FileOpen io_error string
  | Other string
  | BadTerminatedStreamsInfo u8
  | BadTerminatedUnpackInfo
  | BadTerminatedPackInfo u8
  | BadTerminatedSubStreamsInfo
  | BadTerminatedHeader u8
  | ExternalUnsupported
  | UnsupportedCompressionMethod bytes
  | MaxMemLimited nat nat
  | PasswordRequired
  | Unsupported string
  | MaybeBadPassword io_error
  | FileNotFound

text \<open>\<open>Error::bad_password\<close> and \<open>Error::maybe_bad_password\<close>: an I/O error without a
  message is blamed on the password when the archive is encrypted.\<close>

definition bad_password :: "io_error \<Rightarrow> bool \<Rightarrow> error" where
  "bad_password e encrypted = (if encrypted then MaybeBadPassword e else Io e '''')"

definition maybe_bad_password :: "error \<Rightarrow> bool \<Rightarrow> error" where
  "maybe_bad_password err encrypted =
     (if \<not> encrypted then err
      else (case err of Io e s \<Rightarrow> if s = '''' then MaybeBadPassword e else err | _ \<Rightarrow> err))"

section \<open>Outcomes\<close>

datatype ('e, 'a) outcome = Ok 'a | Err 'e | Panic | OutOfFuel

type_synonym 'a result = "(error, 'a) outcome"
type_synonym 'a io_result = "(io_error, 'a) outcome"

fun and_then :: "('e, 'a) outcome \<Rightarrow> ('a \<Rightarrow> ('e, 'b) outcome) \<Rightarrow> ('e, 'b) outcome" where
  "and_then (Ok x) f = f x"
| "and_then (Err e) f = Err e"
| "and_then Panic f = Panic"
| "and_then OutOfFuel f = OutOfFuel"

fun map_err :: "('e \<Rightarrow> 'f) \<Rightarrow> ('e, 'a) outcome \<Rightarrow> ('f, 'a) outcome" where
  "map_err g (Ok x) = Ok x"
| "map_err g (Err e) = Err (g e)"
| "map_err g Panic = Panic"
| "map_err g OutOfFuel = OutOfFuel"

text \<open>The \<open>From<std::io::Error>\<close> conversion that \<open>?\<close> applies.\<close>

definition from_io :: "'a io_result \<Rightarrow> 'a result" where
  "from_io r = map_err (\<lambda>e. Io e '''') r"

lemma from_io_simps [simp, outcome_simps]:
  "from_io (Ok x) = Ok x" "from_io (Err e) = Err (Io e '''')"
  "from_io Panic = Panic" "from_io OutOfFuel = OutOfFuel"
  by (simp_all add: from_io_def)

definition is_ok :: "('e, 'a) outcome \<Rightarrow> bool" where
  "is_ok r = (case r of Ok _ \<Rightarrow> True | _ \<Rightarrow> False)"

lemma and_then_Ok_iff: "and_then m f = Ok y \<longleftrightarrow> (\<exists>x. m = Ok x \<and> f x = Ok y)"
  by (cases m) auto

lemma and_then_assoc: "and_then (and_then m f) g = and_then m (\<lambda>x. and_then (f x) g)"
  by (cases m) auto

lemma and_then_cong [cong]:
  "m = m' \<Longrightarrow> (\<And>x. m' = Ok x \<Longrightarrow> f x = f' x) \<Longrightarrow> and_then m f = and_then m' f'"
  by (cases m') auto

lemma from_io_Ok_iff: "from_io r = Ok x \<longleftrightarrow> r = Ok x"
  by (cases r) auto

lemma is_ok_simps [simp]:
  "is_ok (Ok x)" "\<not> is_ok (Err e)" "\<not> is_ok Panic" "\<not> is_ok OutOfFuel"
  by (simp_all add: is_ok_def)

lemma is_ok_iff: "is_ok r \<longleftrightarrow> (\<exists>x. r = Ok x)"
  by (cases r) auto

text \<open>Vector and slice access: out of range is a panic.\<close>

definition index :: "'a list \<Rightarrow> usize \<Rightarrow> ('e, 'a) outcome" where
  "index xs i = (if i < length xs then Ok (xs ! i) else Panic)"

definition store :: "'a list \<Rightarrow> usize \<Rightarrow> 'a \<Rightarrow> ('e, 'a list) outcome" where
  "store xs i x = (if i < length xs then Ok (xs[i := x]) else Panic)"

lemma index_in [simp]: "i < length xs \<Longrightarrow> index xs i = Ok (xs ! i)"
  by (simp add: index_def)

lemma store_in [simp]: "i < length xs \<Longrightarrow> store xs i x = Ok (xs[i := x])"
  by (simp add: store_def)

lemma index_Ok_iff: "index xs i = Ok x \<longleftrightarrow> i < length xs \<and> x = xs ! i"
  by (auto simp: index_def)

lemma store_Ok_iff: "store xs i x = Ok ys \<longleftrightarrow> i < length xs \<and> ys = xs[i := x]"
  by (auto simp: store_def)

text \<open>A loop over a list that carries a state and may stop with an error.\<close>

fun for_each :: "('a \<Rightarrow> 's \<Rightarrow> ('e, 's) outcome) \<Rightarrow> 'a list \<Rightarrow> 's \<Rightarrow> ('e, 's) outcome" where
  "for_each f [] s = Ok s"
| "for_each f (x # xs) s = and_then (f x s) (\<lambda>s'. for_each f xs s')"

lemma for_each_append:
  "for_each f (xs @ ys) s = and_then (for_each f xs s) (for_each f ys)"
  by (induction xs arbitrary: s) (simp_all add: and_then_assoc)

lemma for_each_map: "for_each f (map g xs) s = for_each (\<lambda>x. f (g x)) xs s"
  by (induction xs arbitrary: s) simp_all

lemma for_each_invariant:
  assumes "for_each f xs s = Ok s'" and "P s"
    and "\<And>x s s'. x \<in> set xs \<Longrightarrow> P s \<Longrightarrow> f x s = Ok s' \<Longrightarrow> P s'"
  shows "P s'"
  using assms by (induction xs arbitrary: s) (auto simp: and_then_Ok_iff)

text \<open>\<open>Display\<close> of an unsigned integer.\<close>

fun decimal :: "nat \<Rightarrow> string" where
  "decimal n = (if n < 10 then [char_of (48 + n)] else decimal (n div 10) @ [char_of (48 + n mod 10)])"

declare decimal.simps [simp del]

section \<open>Little-endian bytes\<close>

fun to_le_bytes :: "nat \<Rightarrow> 'a::len word \<Rightarrow> bytes" where
  "to_le_bytes 0 w = []"
| "to_le_bytes (Suc n) w = ucast w # to_le_bytes n (drop_bit 8 w)"

fun from_le_bytes :: "bytes \<Rightarrow> 'a::len word" where
  "from_le_bytes [] = 0"
| "from_le_bytes (b # bs) = ucast b OR push_bit 8 (from_le_bytes bs)"

lemma length_to_le_bytes [simp]: "length (to_le_bytes n w) = n"
  by (induction n arbitrary: w) auto

lemma low_byte_or_rest:
  fixes w :: "'a::len word"
  shows "ucast (ucast w :: u8) OR push_bit 8 (drop_bit 8 w) = w"
proof (rule bit_word_eqI)
  fix k assume "k < LENGTH('a)"
  then show "bit (ucast (ucast w :: u8) OR push_bit 8 (drop_bit 8 w)) k = bit w k"
    by (cases "k < 8") (auto simp: bit_or_iff bit_ucast_iff bit_push_bit_iff bit_drop_bit_eq)
qed

lemma from_to_le_bytes_bits:
  fixes w :: "'a::len word"
  assumes "\<And>k. bit w k \<Longrightarrow> k < 8 * n"
  shows "from_le_bytes (to_le_bytes n w) = w"
  using assms
proof (induction n arbitrary: w)
  case 0
  then have "\<not> bit w k" for k by auto
  then show ?case by (simp add: bit_eq_iff)
next
  case (Suc n)
  have "bit (drop_bit 8 w) k \<Longrightarrow> k < 8 * n" for k
    using Suc.prems [of "8 + k"] by (simp add: bit_drop_bit_eq)
  then have "from_le_bytes (to_le_bytes n (drop_bit 8 w)) = drop_bit 8 w"
    by (rule Suc.IH)
  then show ?case by (simp add: low_byte_or_rest)
qed

lemma from_to_le_bytes:
  fixes w :: "'a::len word"
  assumes "LENGTH('a) \<le> 8 * n"
  shows "from_le_bytes (to_le_bytes n w) = w"
proof (rule from_to_le_bytes_bits)
  fix k assume "bit w k"
  then have "k < LENGTH('a)" by (rule bit_imp_le_length)
  with assms show "k < 8 * n" by simp
qed

lemma from_to_le_16 [simp]: "from_le_bytes (to_le_bytes 2 w) = (w :: u16)"
  by (rule from_to_le_bytes) simp

lemma from_to_le_32 [simp]: "from_le_bytes (to_le_bytes 4 w) = (w :: u32)"
  by (rule from_to_le_bytes) simp

lemma from_to_le_64 [simp]: "from_le_bytes (to_le_bytes 8 w) = (w :: u64)"
  by (rule from_to_le_bytes) simp

lemma to_le_from_le:
  "length bs = n \<Longrightarrow> 8 * n \<le> LENGTH('a) \<Longrightarrow>
   to_le_bytes n (from_le_bytes bs :: 'a::len word) = bs"
proof (induction bs arbitrary: n)
  case Nil
  then show ?case by simp
next
  case (Cons b bs)
  from Cons.prems obtain m where n: "n = Suc m" and m: "length bs = m" by auto
  have lo: "ucast (ucast b OR push_bit 8 (from_le_bytes bs) :: 'a word) = b"
    using Cons.prems(2) n
    by (intro bit_word_eqI) (auto simp: bit_or_iff bit_ucast_iff bit_push_bit_iff)
  have "bit (from_le_bytes bs :: 'a word) k \<Longrightarrow> k < 8 * m" for k
    using m
  proof (induction bs arbitrary: k m)
    case Nil
    then show ?case by simp
  next
    case (Cons c cs)
    show ?case
    proof (cases "k < 8")
      case False
      with Cons.prems have "bit (from_le_bytes cs :: 'a word) (k - 8)"
        by (auto simp: bit_or_iff bit_ucast_iff bit_push_bit_iff dest: bit_imp_le_length)
      with Cons.IH [of "k - 8" "length cs"] Cons.prems False show ?thesis by auto
    qed (use Cons.prems in auto)
  qed
  then have hi: "drop_bit 8 (ucast b OR push_bit 8 (from_le_bytes bs) :: 'a word) = from_le_bytes bs"
    using Cons.prems(2) n
    by (intro bit_word_eqI)
      (fastforce simp: bit_or_iff bit_ucast_iff bit_push_bit_iff bit_drop_bit_eq
        dest: bit_imp_le_length)
  show ?case using n lo hi Cons.IH [OF m] Cons.prems(2) by simp
qed

end
