(* ===== verification/Byte_Cursor.thy ===== *)
theory Byte_Cursor
  imports Rust_Base
begin

text \<open>
  Reading and writing the bytes of a header (\<^verbatim>\<open>ByteReader\<close> and \<^verbatim>\<open>ByteWriter\<close> of
  \<^verbatim>\<open>src/src/lib.rs\<close> over \<^verbatim>\<open>std::io::Cursor\<close>). A cursor is the buffer and the position in
  it; a \<open>&[u8]\<close> read from the front is a cursor that nobody seeks. A writer of a header
  appends to a \<open>Vec<u8>\<close>, so it is modelled by the bytes it appends.
  \<open>parses p bs v\<close> says that the parser \<open>p\<close>, standing before the bytes \<open>bs\<close>, consumes
  exactly these and returns \<open>v\<close>; the rules in the collection \<open>parse_intros\<close> compose it.
\<close>

section \<open>Cursors and parsers\<close>

record cursor =
  cur_data :: bytes
  cur_pos :: nat

type_synonym ('e, 'a) parser = "cursor \<Rightarrow> ('e, 'a \<times> cursor) outcome"

definition cursor_at :: "bytes \<Rightarrow> bytes \<Rightarrow> cursor" where
  "cursor_at pre post = \<lparr>cur_data = pre @ post, cur_pos = length pre\<rparr>"

definition eof_error :: io_error where
  "eof_error = Io_simple UnexpectedEof ''failed to fill whole buffer''"

definition read_exact :: "nat \<Rightarrow> (io_error, bytes) parser" where
  "read_exact n c =
     (let rest = drop (cur_pos c) (cur_data c) in
      if n \<le> length rest then Ok (take n rest, c\<lparr>cur_pos := cur_pos c + n\<rparr>)
      else Err eof_error)"

text \<open>\<open>SeekFrom::Current\<close> with the \<open>i64\<close> offset given by its bits.\<close>

definition seek_current :: "u64 \<Rightarrow> (io_error, unit) parser" where
  "seek_current offset c =
     (let p = int (cur_pos c) + sint offset in
      if p < 0 \<or> 2 ^ 64 \<le> p then Err (Io_simple InvalidInput ''invalid seek to a negative or overflowing position'')
      else Ok ((), c\<lparr>cur_pos := nat p\<rparr>))"

definition ret :: "'a \<Rightarrow> ('e, 'a) parser" where
  "ret x c = Ok (x, c)"

definition fail :: "'e \<Rightarrow> ('e, 'a) parser" where
  "fail e c = Err e"

definition panic :: "('e, 'a) parser" where
  "panic c = Panic"

definition and_read :: "('e, 'a) parser \<Rightarrow> ('a \<Rightarrow> ('e, 'b) parser) \<Rightarrow> ('e, 'b) parser" where
  "and_read p f c = and_then (p c) (\<lambda>(x, c'). f x c')"

definition lift_io :: "(io_error, 'a) parser \<Rightarrow> (error, 'a) parser" where
  "lift_io p c = from_io (p c)"

definition lift_outcome :: "('e, 'a) outcome \<Rightarrow> ('e, 'a) parser" where
  "lift_outcome r c = and_then r (\<lambda>x. Ok (x, c))"

text \<open>A \<open>for\<close> loop that reads: over a list, with a state.\<close>

fun read_each :: "('a \<Rightarrow> 's \<Rightarrow> ('e, 's) parser) \<Rightarrow> 'a list \<Rightarrow> 's \<Rightarrow> ('e, 's) parser" where
  "read_each f [] s = ret s"
| "read_each f (x # xs) s = and_read (f x s) (\<lambda>s'. read_each f xs s')"

text \<open>Reading \<open>n\<close> values one after the other.\<close>

fun read_times :: "('e, 'a) parser \<Rightarrow> nat \<Rightarrow> ('e, 'a list) parser" where
  "read_times p 0 = ret []"
| "read_times p (Suc n) = and_read p (\<lambda>x. and_read (read_times p n) (\<lambda>xs. ret (x # xs)))"

section \<open>ByteReader and ByteWriter (lib.rs)\<close>

definition read_u8 :: "(io_error, u8) parser" where
  "read_u8 = and_read (read_exact 1) (\<lambda>buf. ret (buf ! 0))"

definition read_u16 :: "(io_error, u16) parser" where
  "read_u16 = and_read (read_exact 2) (\<lambda>buf. ret (from_le_bytes buf))"

definition read_u32 :: "(io_error, u32) parser" where
  "read_u32 = and_read (read_exact 4) (\<lambda>buf. ret (from_le_bytes buf))"

definition read_u64 :: "(io_error, u64) parser" where
  "read_u64 = and_read (read_exact 8) (\<lambda>buf. ret (from_le_bytes buf))"

definition write_u8 :: "u8 \<Rightarrow> bytes" where
  "write_u8 v = [v]"

definition write_u16_le :: "u16 \<Rightarrow> bytes" where
  "write_u16_le v = to_le_bytes 2 v"

definition write_u32_le :: "u32 \<Rightarrow> bytes" where
  "write_u32_le v = to_le_bytes 4 v"

definition write_u64_le :: "u64 \<Rightarrow> bytes" where
  "write_u64_le v = to_le_bytes 8 v"

section \<open>Recovering what was written\<close>

definition parses :: "('e, 'a) parser \<Rightarrow> bytes \<Rightarrow> 'a \<Rightarrow> bool" where
  "parses p bs v \<longleftrightarrow>
     (\<forall>pre post. p (cursor_at pre (bs @ post)) = Ok (v, cursor_at (pre @ bs) post))"

lemma parsesI:
  "(\<And>pre post. p (cursor_at pre (bs @ post)) = Ok (v, cursor_at (pre @ bs) post)) \<Longrightarrow> parses p bs v"
  by (simp add: parses_def)

lemma parsesD:
  "parses p bs v \<Longrightarrow> p (cursor_at pre (bs @ post)) = Ok (v, cursor_at (pre @ bs) post)"
  by (simp add: parses_def)

lemma parses_ret [parse_intros]: "parses (ret x) [] x"
  by (simp add: parses_def ret_def)

lemma parses_and_read:
  "parses p bs1 x \<Longrightarrow> parses (f x) bs2 y \<Longrightarrow> parses (and_read p f) (bs1 @ bs2) y"
  by (auto simp: parses_def and_read_def)

lemma parses_and_read_eq [parse_intros]:
  "parses p bs1 x \<Longrightarrow> parses (f x) bs2 y \<Longrightarrow> bs = bs1 @ bs2 \<Longrightarrow> parses (and_read p f) bs y"
  by (simp add: parses_and_read)

lemma parses_and_read_nil:
  "parses p [] x \<Longrightarrow> parses (f x) bs y \<Longrightarrow> parses (and_read p f) bs y"
  using parses_and_read [of p "[]" x f bs y] by simp

lemma parses_lift_io [parse_intros]: "parses p bs v \<Longrightarrow> parses (lift_io p) bs v"
  by (simp add: parses_def lift_io_def)

lemma parses_lift_outcome [parse_intros]: "r = Ok v \<Longrightarrow> parses (lift_outcome r) [] v"
  by (simp add: parses_def lift_outcome_def)

lemma parses_read_exact [parse_intros]: "length bs = n \<Longrightarrow> parses (read_exact n) bs bs"
  by (simp add: parses_def read_exact_def cursor_at_def)

lemma parses_read_exact_ret:
  "length bs = n \<Longrightarrow> g bs = v \<Longrightarrow> parses (and_read (read_exact n) (\<lambda>buf. ret (g buf))) bs v"
  by (simp add: parses_def and_read_def read_exact_def ret_def cursor_at_def)

lemma parses_read_u8 [parse_intros]: "parses read_u8 (write_u8 b) b"
  unfolding read_u8_def write_u8_def by (rule parses_read_exact_ret) simp_all

lemma parses_read_u8_single: "parses read_u8 [b] b"
  using parses_read_u8 [of b] by (simp add: write_u8_def)

lemma parses_read_u8_then: "parses (f b) bs v \<Longrightarrow> parses (and_read read_u8 f) (b # bs) v"
  using parses_and_read_eq [OF parses_read_u8_single, of f b bs v] by simp

lemma parses_read_u16 [parse_intros]: "parses read_u16 (write_u16_le w) w"
  unfolding read_u16_def write_u16_le_def by (rule parses_read_exact_ret) simp_all

lemma parses_read_u32 [parse_intros]: "parses read_u32 (write_u32_le w) w"
  unfolding read_u32_def write_u32_le_def by (rule parses_read_exact_ret) simp_all

lemma parses_read_u64 [parse_intros]: "parses read_u64 (write_u64_le w) w"
  unfolding read_u64_def write_u64_le_def by (rule parses_read_exact_ret) simp_all

lemma parses_read_times:
  assumes "list_all2 (parses p) bss xs"
  shows "parses (read_times p (length xs)) (concat bss) xs"
  using assms
proof (induction rule: list_all2_induct)
  case Nil
  show ?case by (simp add: parses_ret)
next
  case (Cons b bss x xs)
  have "parses (and_read (read_times p (length xs)) (\<lambda>xs. ret (x # xs))) (concat bss) (x # xs)"
    by (rule parses_and_read_eq [OF Cons.IH parses_ret]) simp
  with Cons.hyps(1) show ?case by (auto intro: parses_and_read)
qed

lemma parses_read_times_map:
  "(\<And>x. x \<in> set xs \<Longrightarrow> parses p (g x) x) \<Longrightarrow> n = length xs \<Longrightarrow>
   parses (read_times p n) (concat (map g xs)) xs"
  using parses_read_times [of p "map g xs" xs] by (simp add: list_all2_conv_all_nth)

lemma parses_deterministic: "parses p bs v \<Longrightarrow> parses p bs w \<Longrightarrow> v = w"
  by (simp add: parses_def)

section \<open>Facts about cursors\<close>

lemma cursor_at_fields [simp]:
  "cur_data (cursor_at pre post) = pre @ post" "cur_pos (cursor_at pre post) = length pre"
  by (simp_all add: cursor_at_def)

lemma and_read_ret [simp]: "and_read (ret x) f = f x"
  by (simp add: and_read_def ret_def fun_eq_iff)

lemma and_read_fail [simp]: "and_read (fail e) f = fail e"
  by (simp add: and_read_def fail_def fun_eq_iff)

lemma and_read_assoc: "and_read (and_read p f) g = and_read p (\<lambda>x. and_read (f x) g)"
  by (auto simp: and_read_def fun_eq_iff and_then_assoc intro!: arg_cong [where f = "and_then _"]
      split: prod.splits)

lemma read_u8_cursor_at [simp]:
  "read_u8 (cursor_at pre (b # post)) = Ok (b, cursor_at (pre @ [b]) post)"
  using parsesD [OF parses_read_u8_single, of pre b post] by simp

lemma read_u8_end [simp]: "read_u8 (cursor_at pre []) = Err eof_error"
  by (simp add: read_u8_def and_read_def read_exact_def)

end
