(* ===== verification/Bit_Set.thy ===== *)
theory Bit_Set
  imports Byte_Cursor
begin

text \<open>
  The bit vector of \<^verbatim>\<open>src/src/bitset.rs\<close>, its serialisation \<open>write_bit_set\<close>, and the
  readers \<open>read_bits\<close> and \<open>read_all_or_bits\<close> of \<^verbatim>\<open>src/src/reader.rs\<close>. The locale
  \<open>index_set\<close> is the interface its clients rely on: a finite set of indices with a capacity.
\<close>

section \<open>The data and its operations\<close>

record bit_set =
  blocks :: "u64 list"
  bit_count :: usize

definition bs_new :: bit_set where
  "bs_new = \<lparr>blocks = [], bit_count = 0\<rparr>"

definition blocks_for_bits :: "usize \<Rightarrow> usize" where
  "blocks_for_bits n = (if n = 0 then 0 else (n - 1) div 64 + 1)"

definition bit_indices_static :: "usize \<Rightarrow> usize \<times> usize" where
  "bit_indices_static bit_pos = (bit_pos div 64, bit_pos mod 64)"

definition bs_with_capacity :: "usize \<Rightarrow> bit_set" where
  "bs_with_capacity n = \<lparr>blocks = replicate (blocks_for_bits n) 0, bit_count = n\<rparr>"

fun count_ones :: "nat \<Rightarrow> u64 \<Rightarrow> nat" where
  "count_ones 0 w = 0"
| "count_ones (Suc n) w = (if bit w n then 1 else 0) + count_ones n w"

definition bs_len :: "bit_set \<Rightarrow> usize" where
  "bs_len bs = sum_list (map (count_ones 64) (blocks bs))"

definition bs_contains :: "bit_set \<Rightarrow> usize \<Rightarrow> bool" where
  "bs_contains bs v =
     (if bit_count bs \<le> v then False
      else let (block_idx, bit_idx) = bit_indices_static v in
        if length (blocks bs) \<le> block_idx then False
        else blocks bs ! block_idx AND push_bit bit_idx 1 \<noteq> 0)"

definition resize :: "nat \<Rightarrow> 'a \<Rightarrow> 'a list \<Rightarrow> 'a list" where
  "resize n x xs = take n xs @ replicate (n - length xs) x"

definition bs_grow :: "bit_set \<Rightarrow> usize \<Rightarrow> bit_set" where
  "bs_grow bs new_len =
     (if new_len \<le> bit_count bs then bs
      else let new_num_blocks = blocks_for_bits new_len in
        bs\<lparr>blocks := (if length (blocks bs) < new_num_blocks then resize new_num_blocks 0 (blocks bs)
                       else blocks bs),
           bit_count := new_len\<rparr>)"

text \<open>Indices count files or streams and are below \<open>usize::MAX\<close>. (For \<open>usize::MAX\<close> itself the
  program's \<open>value + 1\<close> wraps to 0, the set does not grow, and the access to its block panics.)\<close>

definition bs_insert :: "bit_set \<Rightarrow> usize \<Rightarrow> bool \<times> bit_set" where
  "bs_insert bs v =
     (let bs = (if bit_count bs \<le> v then bs_grow bs (v + 1) else bs);
          (block_idx, bit_idx) = bit_indices_static v;
          msk = push_bit bit_idx 1;
          was_set = (blocks bs ! block_idx AND msk \<noteq> 0)
      in (\<not> was_set, bs\<lparr>blocks := (blocks bs)[block_idx := blocks bs ! block_idx OR msk]\<rparr>))"

definition bs_remove :: "bit_set \<Rightarrow> usize \<Rightarrow> bool \<times> bit_set" where
  "bs_remove bs v =
     (if bit_count bs \<le> v then (False, bs)
      else let (block_idx, bit_idx) = bit_indices_static v in
        if length (blocks bs) \<le> block_idx then (False, bs)
        else let msk = push_bit bit_idx 1;
                 was_set = (blocks bs ! block_idx AND msk \<noteq> 0)
          in (was_set, bs\<lparr>blocks := (blocks bs)[block_idx := blocks bs ! block_idx AND NOT msk]\<rparr>))"

definition bs_reserve_len_exact :: "bit_set \<Rightarrow> usize \<Rightarrow> bit_set" where
  "bs_reserve_len_exact bs count =
     (if bit_count bs < count then
        let new_num_blocks = blocks_for_bits count in
        bs\<lparr>blocks := (if length (blocks bs) < new_num_blocks then resize new_num_blocks 0 (blocks bs)
                       else blocks bs),
           bit_count := count\<rparr>
      else bs)"

definition bs_set_all :: "bit_set \<Rightarrow> usize \<Rightarrow> bit_set" where
  "bs_set_all bs count =
     (if count = 0 then bs
      else let bs = (if bit_count bs < count then bs_grow bs count else bs);
               full_blocks = count div 64;
               remaining_bits = count mod 64;
               filled = map (\<lambda>b. -1) (take full_blocks (blocks bs)) @ drop full_blocks (blocks bs)
        in bs\<lparr>blocks :=
             (if 0 < remaining_bits \<and> full_blocks < length filled
              then filled[full_blocks := filled ! full_blocks OR (push_bit remaining_bits 1 - 1)]
              else filled)\<rparr>)"

text \<open>The loop of \<open>write_bit_set\<close>: the bits of a byte are filled from the most significant
  one down, and the last, partial byte is written at the end.\<close>

fun write_bit_set_loop :: "bit_set \<Rightarrow> nat list \<Rightarrow> u8 \<Rightarrow> int \<Rightarrow> bytes" where
  "write_bit_set_loop bs [] byte byte_bit_pos = (if byte_bit_pos \<noteq> 7 then write_u8 byte else [])"
| "write_bit_set_loop bs (i # is) byte byte_bit_pos =
     (let block_idx = i div 64;
          bit_in_block = i mod 64;
          is_set = (if block_idx < length (blocks bs)
                    then drop_bit bit_in_block (blocks bs ! block_idx) AND 1 else 0);
          byte' = byte OR push_bit (nat byte_bit_pos) (ucast is_set);
          byte_bit_pos' = byte_bit_pos - 1
      in if byte_bit_pos' < 0 then write_u8 byte' @ write_bit_set_loop bs is 0 7
         else write_bit_set_loop bs is byte' byte_bit_pos')"

definition write_bit_set :: "bit_set \<Rightarrow> bytes" where
  "write_bit_set bs = write_bit_set_loop bs [0..<bit_count bs] 0 7"

fun read_bits_loop :: "nat list \<Rightarrow> u32 \<Rightarrow> u32 \<Rightarrow> bit_set \<Rightarrow> (io_error, bit_set) parser" where
  "read_bits_loop [] msk cache bits = ret bits"
| "read_bits_loop (i # is) msk cache bits =
     and_read (if msk = 0 then and_read read_u8 (\<lambda>b. ret (0x80, ucast b)) else ret (msk, cache))
       (\<lambda>(msk, cache).
          read_bits_loop is (drop_bit 1 msk) cache
            (if cache AND msk \<noteq> 0 then snd (bs_insert bits i) else bits))"

definition read_bits :: "usize \<Rightarrow> (io_error, bit_set) parser" where
  "read_bits n = read_bits_loop [0..<n] 0 0 (bs_with_capacity n)"

definition read_all_or_bits :: "usize \<Rightarrow> (io_error, bit_set) parser" where
  "read_all_or_bits n =
     and_read read_u8 (\<lambda>all_defined.
       if all_defined \<noteq> 0 then ret (bs_set_all (bs_with_capacity n) n)
       else read_bits n)"

section \<open>The interface: a finite set of indices\<close>

locale index_set =
  fixes empty :: "nat \<Rightarrow> 's"
    and member :: "'s \<Rightarrow> nat \<Rightarrow> bool"
    and add :: "'s \<Rightarrow> nat \<Rightarrow> 's"
    and capacity :: "'s \<Rightarrow> nat"
    and ok :: "'s \<Rightarrow> bool"
  assumes ok_empty: "ok (empty n)"
    and ok_add: "ok s \<Longrightarrow> ok (add s i)"
    and member_empty: "\<not> member (empty n) i"
    and member_add: "ok s \<Longrightarrow> member (add s i) j \<longleftrightarrow> j = i \<or> member s j"
    and capacity_empty: "capacity (empty n) = n"
    and capacity_add: "ok s \<Longrightarrow> capacity (add s i) = max (capacity s) (Suc i)"
    and extensional: "ok s \<Longrightarrow> ok t \<Longrightarrow> capacity s = capacity t \<Longrightarrow>
          (\<And>i. i < capacity s \<Longrightarrow> member s i = member t i) \<Longrightarrow> s = t"
begin

fun add_where :: "nat \<Rightarrow> bool list \<Rightarrow> 's \<Rightarrow> 's" where
  "add_where i [] s = s"
| "add_where i (b # bl) s = add_where (Suc i) bl (if b then add s i else s)"

lemma ok_add_where: "ok s \<Longrightarrow> ok (add_where i bl s)"
  by (induction bl arbitrary: i s) (auto simp: ok_add)

lemma member_add_where:
  "ok s \<Longrightarrow> member (add_where i bl s) j \<longleftrightarrow>
     member s j \<or> i \<le> j \<and> j < i + length bl \<and> bl ! (j - i)"
proof (induction bl arbitrary: i s)
  case Nil
  then show ?case by auto
next
  case (Cons b bl)
  have "ok (if b then add s i else s)" using Cons.prems by (simp add: ok_add)
  note * = Cons.IH [OF this, of "Suc i"]
  show ?case
  proof (cases "j \<le> i")
    case True
    then show ?thesis using Cons.prems by (auto simp: * member_add)
  next
    case False
    then have "(b # bl) ! (j - i) = bl ! (j - Suc i)" by (simp add: nth_Cons')
    then show ?thesis using False Cons.prems by (auto simp: * member_add)
  qed
qed

lemma capacity_add_where:
  "ok s \<Longrightarrow> i + length bl \<le> capacity s \<Longrightarrow> capacity (add_where i bl s) = capacity s"
  by (induction bl arbitrary: i s) (auto simp: ok_add capacity_add)

lemma capacity_bounds:
  "ok s \<Longrightarrow> capacity s \<le> capacity (add_where i bl s)
     \<and> capacity (add_where i bl s) \<le> max (capacity s) (i + length bl)"
proof (induction bl arbitrary: i s)
  case (Cons b bl)
  have "ok (if b then add s i else s)" using Cons.prems by (simp add: ok_add)
  from Cons.IH [OF this, of "Suc i"] Cons.prems show ?case
    by (auto simp: capacity_add split: if_splits)
qed simp

lemma capacity_member:
  assumes "ok s" and "j < length bl" and "bl ! j"
  shows "i + j < capacity (add_where i bl s)"
  using assms
proof (induction bl arbitrary: i j s)
  case (Cons b bl)
  have ok: "ok (if b then add s i else s)" using Cons.prems by (simp add: ok_add)
  show ?case
  proof (cases j)
    case 0
    with Cons.prems capacity_bounds [OF ok, of "Suc i" bl] show ?thesis
      by (simp add: capacity_add)
  next
    case (Suc k)
    with Cons.prems Cons.IH [OF ok, of k "Suc i"] show ?thesis by simp
  qed
qed simp

text \<open>Filling an empty set from a list of flags gives the set of the flagged positions, and a
  set is determined by its capacity and its flags.\<close>

lemma member_of_flags:
  "member (add_where 0 bl (empty n)) j \<longleftrightarrow> j < length bl \<and> bl ! j"
  by (simp add: member_add_where ok_empty member_empty)

lemma flags_determine:
  assumes "ok s" and "bl = map (member s) [0..<capacity s]"
  shows "add_where 0 bl (empty (capacity s)) = s"
  using assms
  by (intro extensional)
    (auto simp: ok_add_where ok_empty capacity_add_where capacity_empty member_of_flags)

end

section \<open>BitSet implements it\<close>

definition raw_bit :: "bit_set \<Rightarrow> nat \<Rightarrow> bool" where
  "raw_bit bs i \<longleftrightarrow> i div 64 < length (blocks bs) \<and> bit (blocks bs ! (i div 64)) (i mod 64)"

definition bs_ok :: "bit_set \<Rightarrow> bool" where
  "bs_ok bs \<longleftrightarrow> length (blocks bs) = blocks_for_bits (bit_count bs)
     \<and> (\<forall>i. raw_bit bs i \<longrightarrow> i < bit_count bs)"

definition bs_add :: "bit_set \<Rightarrow> usize \<Rightarrow> bit_set" where
  "bs_add bs i = snd (bs_insert bs i)"

lemma and_power_u64: "n < 64 \<Longrightarrow> x AND 2 ^ n \<noteq> 0 \<longleftrightarrow> bit (x :: u64) n"
  using bit_iff_and_push_bit_not_eq_0 [of x n] by simp

lemma bit_power_word64: "bit (2 ^ n :: u64) k \<longleftrightarrow> k = n \<and> k < 64"
  by (auto simp: bit_exp_iff)

lemma blocks_for_bits_less: "i < n \<Longrightarrow> i div 64 < blocks_for_bits n"
  by (auto simp: blocks_for_bits_def less_Suc_eq_le intro!: div_le_mono)

lemma blocks_for_bits_mono: "m \<le> n \<Longrightarrow> blocks_for_bits m \<le> blocks_for_bits n"
  by (auto simp: blocks_for_bits_def div_le_mono)

lemma block_below_count: "i < blocks_for_bits n \<longleftrightarrow> 64 * i < n"
proof (cases n)
  case (Suc m)
  have "i < Suc (m div 64) \<longleftrightarrow> i * 64 \<le> m"
    by (simp add: less_eq_div_iff_mult_less_eq less_Suc_eq_le)
  with Suc show ?thesis by (simp add: blocks_for_bits_def mult.commute less_Suc_eq_le)
qed (simp add: blocks_for_bits_def)

lemma length_resize [simp]: "length (resize n x xs) = n"
  by (simp add: resize_def)

lemma nth_resize: "length xs \<le> n \<Longrightarrow> i < n \<Longrightarrow> resize n x xs ! i = (if i < length xs then xs ! i else x)"
  by (simp add: resize_def nth_append)

lemma bs_contains_raw: "bs_contains bs i \<longleftrightarrow> i < bit_count bs \<and> raw_bit bs i"
  by (auto simp: bs_contains_def raw_bit_def bit_indices_static_def and_power_u64)

lemma bs_contains_ok: "bs_ok bs \<Longrightarrow> bs_contains bs i \<longleftrightarrow> raw_bit bs i"
  by (auto simp: bs_contains_raw bs_ok_def)

lemma bs_grow_count: "bit_count (bs_grow bs n) = max (bit_count bs) n"
  by (simp add: bs_grow_def Let_def)

lemma bs_grow_raw: "bs_ok bs \<Longrightarrow> raw_bit (bs_grow bs n) i = raw_bit bs i"
  using blocks_for_bits_mono [of "bit_count bs" n]
  by (auto simp: bs_grow_def Let_def raw_bit_def bs_ok_def nth_resize split: if_splits)

lemma bs_grow_ok: "bs_ok bs \<Longrightarrow> bs_ok (bs_grow bs n)"
proof -
  assume ok: "bs_ok bs"
  have "length (blocks (bs_grow bs n)) = blocks_for_bits (bit_count (bs_grow bs n))"
    using ok blocks_for_bits_mono [of "bit_count bs" n]
    by (auto simp: bs_grow_def Let_def bs_ok_def)
  moreover have "raw_bit (bs_grow bs n) i \<longrightarrow> i < bit_count (bs_grow bs n)" for i
    using ok bs_grow_raw [OF ok, of n i] by (auto simp: bs_ok_def bs_grow_count)
  ultimately show ?thesis by (simp add: bs_ok_def)
qed

lemma same_position: "i div 64 = j div 64 \<and> i mod 64 = j mod (64 :: nat) \<longleftrightarrow> i = j"
  by (metis mult_div_mod_eq)

lemma raw_bit_set:
  "i < bit_count bs \<Longrightarrow> bs_ok bs \<Longrightarrow>
   raw_bit (bs\<lparr>blocks := (blocks bs)[i div 64 := blocks bs ! (i div 64) OR 2 ^ (i mod 64)]\<rparr>) j
     \<longleftrightarrow> j = i \<or> raw_bit bs j"
  using same_position [of i j] blocks_for_bits_less [of i "bit_count bs"]
  by (auto simp: raw_bit_def bs_ok_def nth_list_update bit_or_iff bit_power_word64)

lemma bs_insert_eq:
  "bs_insert bs i =
     (let bs' = (if bit_count bs \<le> i then bs_grow bs (i + 1) else bs)
      in (\<not> bit (blocks bs' ! (i div 64)) (i mod 64),
          bs'\<lparr>blocks := (blocks bs')[i div 64 := blocks bs' ! (i div 64) OR 2 ^ (i mod 64)]\<rparr>))"
  using and_power_u64 [of "i mod 64"]
  by (auto simp: bs_insert_def bit_indices_static_def Let_def)

lemma bs_add_raw: "bs_ok bs \<Longrightarrow> raw_bit (bs_add bs i) j \<longleftrightarrow> j = i \<or> raw_bit bs j"
  using raw_bit_set [of i "if bit_count bs \<le> i then bs_grow bs (i + 1) else bs" j]
  by (auto simp: bs_add_def bs_insert_eq Let_def bs_grow_count bs_grow_ok bs_grow_raw split: if_splits)

lemma bs_add_count: "bit_count (bs_add bs i) = max (bit_count bs) (Suc i)"
  by (simp add: bs_add_def bs_insert_eq Let_def bs_grow_count)

lemma bs_add_ok: "bs_ok bs \<Longrightarrow> bs_ok (bs_add bs i)"
proof -
  assume ok: "bs_ok bs"
  have "length (blocks (bs_add bs i)) = blocks_for_bits (bit_count (bs_add bs i))"
    using bs_grow_ok [OF ok, of "Suc i"] ok
    by (auto simp: bs_add_def bs_insert_eq Let_def bs_ok_def bs_grow_count)
  with ok show ?thesis by (auto simp: bs_ok_def [of "bs_add bs i"] bs_add_raw bs_add_count) (auto simp: bs_ok_def)
qed

lemma raw_bit_with_capacity: "\<not> raw_bit (bs_with_capacity n) i"
  by (simp add: raw_bit_def bs_with_capacity_def)

lemma bs_ok_with_capacity: "bs_ok (bs_with_capacity n)"
  by (simp add: bs_ok_def raw_bit_with_capacity) (simp add: bs_with_capacity_def)

lemma bs_extensional:
  assumes "bs_ok s" "bs_ok t" "bit_count s = bit_count t"
    and same: "\<And>i. i < bit_count s \<Longrightarrow> bs_contains s i = bs_contains t i"
  shows "s = t"
proof -
  have raw: "raw_bit s i = raw_bit t i" for i
    using assms(1-3) same [of i] by (auto simp: bs_contains_raw bs_ok_def)
  have "blocks s = blocks t"
  proof (rule nth_equalityI)
    show len: "length (blocks s) = length (blocks t)" using assms(1-3) by (simp add: bs_ok_def)
    fix b assume b: "b < length (blocks s)"
    show "blocks s ! b = blocks t ! b"
    proof (rule bit_word_eqI)
      fix k assume "k < LENGTH(64)"
      then have "(64 * b + k) div 64 = b" "(64 * b + k) mod 64 = k" by simp_all
      with raw [of "64 * b + k"] b len show "bit (blocks s ! b) k = bit (blocks t ! b) k"
        by (simp add: raw_bit_def)
    qed
  qed
  with assms(3) show ?thesis by simp
qed

interpretation bits: index_set bs_with_capacity bs_contains bs_add bit_count bs_ok
  by unfold_locales
    (auto simp: bs_ok_with_capacity bs_add_ok raw_bit_with_capacity bs_contains_ok bs_add_raw
      bs_add_count bs_with_capacity_def [of _, THEN arg_cong [where f = bit_count]] intro: bs_extensional)

section \<open>Serialisation\<close>

text \<open>The specification: flags are packed eight to a byte, the first in the most significant bit.\<close>

fun byte_of :: "bool list \<Rightarrow> u8" where
  "byte_of [] = 0"
| "byte_of (b # bl) = (if b then 0x80 else 0) OR drop_bit 1 (byte_of bl)"

function pack_bits :: "bool list \<Rightarrow> bytes" where
  "pack_bits bl = (if bl = [] then [] else byte_of (take 8 bl) # pack_bits (drop 8 bl))"
  by pat_completeness auto
termination by (relation "measure length") auto

declare pack_bits.simps [simp del]

lemma bit_80: "bit (0x80 :: u8) k \<longleftrightarrow> k = 7"
proof -
  have "(0x80 :: u8) = 2 ^ 7" by simp
  then show ?thesis by (simp only: bit_exp_iff) auto
qed

lemma bit_byte_of: "bit (byte_of bl) k \<longleftrightarrow> k < 8 \<and> 7 - k < length bl \<and> bl ! (7 - k)"
proof (induction bl arbitrary: k)
  case (Cons b bl)
  have "bit (byte_of (b # bl)) k \<longleftrightarrow> b \<and> k = 7 \<or> k < 7 \<and> bit (byte_of bl) (Suc k)"
    using bit_imp_le_length [of "byte_of bl" "Suc k"] bit_80 [of k]
    by (auto simp add: bit_or_iff bit_drop_bit_eq simp del: bit_numeral_rec bit_numeral_iff)
  also have "\<dots> \<longleftrightarrow> k < 8 \<and> 7 - k < length (b # bl) \<and> (b # bl) ! (7 - k)"
    using Cons.IH [of "Suc k"] by (cases "k < 7") (auto simp: nth_Cons' less_Suc_eq_le)
  finally show ?case .
qed simp

lemma byte_of_snoc:
  "length p < 8 \<Longrightarrow> byte_of p OR push_bit (7 - length p) (if b then 1 else 0) = byte_of (p @ [b])"
  by (rule bit_word_eqI)
    (auto simp: bit_or_iff bit_byte_of bit_push_bit_iff nth_append bit_1_iff bit_exp_iff)

lemma pack_bits_Nil [simp]: "pack_bits [] = []"
  by (simp add: pack_bits.simps)

lemma pack_bits_short: "bl \<noteq> [] \<Longrightarrow> length bl \<le> 8 \<Longrightarrow> pack_bits bl = [byte_of bl]"
  by (simp add: pack_bits.simps)

lemma pack_bits_byte: "length p = 8 \<Longrightarrow> pack_bits (p @ bl) = byte_of p # pack_bits bl"
  by (subst pack_bits.simps) auto

lemma length_pack_bits: "length (pack_bits bl) = (length bl + 7) div 8"
proof (induction bl rule: pack_bits.induct)
  case (1 bl)
  show ?case
  proof (cases "bl = []")
    case False
    with 1 have "length (pack_bits bl) = Suc ((length bl - 8 + 7) div 8)"
      by (subst pack_bits.simps) simp
    also have "\<dots> = (length bl + 7) div 8"
      using False by (cases "length bl < 8") (auto simp: Suc_le_eq div_eq_dividend_iff le_div_geq)
    finally show ?thesis .
  qed simp
qed

definition flags :: "bit_set \<Rightarrow> bool list" where
  "flags bs = map (bs_contains bs) [0..<bit_count bs]"

lemma is_set_bit:
  "(ucast (if i div 64 < length (blocks bs) then drop_bit (i mod 64) (blocks bs ! (i div 64)) AND 1 else 0) :: u8)
     = (if raw_bit bs i then 1 else 0)"
  by (auto simp: raw_bit_def and_one_eq mod_2_eq_odd bit_iff_odd_drop_bit)

lemma write_bit_set_loop_eq:
  assumes "length p < 8"
  shows "write_bit_set_loop bs is (byte_of p) (7 - int (length p)) = pack_bits (p @ map (raw_bit bs) is)"
  using assms
proof (induction "is" arbitrary: p)
  case Nil
  then show ?case by (cases "p = []") (auto simp: pack_bits_short write_u8_def)
next
  case (Cons i "is")
  define q where "q = p @ [raw_bit bs i]"
  have byte: "byte_of p OR push_bit (nat (7 - int (length p))) (ucast (if i div 64 < length (blocks bs)
      then drop_bit (i mod 64) (blocks bs ! (i div 64)) AND 1 else 0)) = byte_of q"
    using byte_of_snoc [OF Cons.prems, of "raw_bit bs i"] Cons.prems
    by (simp add: is_set_bit q_def nat_diff_distrib)
  have "write_bit_set_loop bs (i # is) (byte_of p) (7 - int (length p))
    = (if length q = 8 then write_u8 (byte_of q) @ write_bit_set_loop bs is 0 7
       else write_bit_set_loop bs is (byte_of q) (7 - int (length q)))"
    unfolding write_bit_set_loop.simps Let_def byte using Cons.prems by (auto simp: q_def algebra_simps)
  also have "\<dots> = pack_bits (q @ map (raw_bit bs) is)"
    using Cons.IH [of q] Cons.IH [of "[]"] Cons.prems pack_bits_byte [of q]
    by (auto simp: write_u8_def q_def)
  finally show ?case by (simp add: q_def)
qed

lemma write_bit_set_eq: "write_bit_set bs = pack_bits (flags bs)"
proof -
  have "map (raw_bit bs) [0..<bit_count bs] = flags bs"
    by (auto simp: flags_def bs_contains_raw)
  then show ?thesis
    using write_bit_set_loop_eq [of "[]" bs "[0..<bit_count bs]"] by (simp add: write_bit_set_def)
qed

text \<open>
  The reader's loop with the flags \<open>p\<close> of the current byte consumed: its mask has moved
  \<open>length p\<close> places, and after eight of them it is zero and the next byte is read.
\<close>

lemma bit_ucast_byte: "bit (ucast (b :: u8) :: u32) k \<longleftrightarrow> bit b k"
  by (auto simp: bit_ucast_iff dest: bit_imp_le_length)

lemma and_power_u32: "n < 32 \<Longrightarrow> x AND 2 ^ n \<noteq> 0 \<longleftrightarrow> bit (x :: u32) n"
  using bit_iff_and_push_bit_not_eq_0 [of x n] by simp

lemma drop_bit_power_u32: "drop_bit (Suc 0) (2 ^ n :: u32) = (if n = 0 then 0 else 2 ^ (n - 1))" if "n < 32"
  using that by (intro bit_word_eqI) (auto simp: bit_exp_iff bit_drop_bit_eq)

lemma parses_read_bits_loop:
  assumes "length p \<le> 8" and "length p < 8 \<Longrightarrow> cache = ucast (byte_of (take 8 (p @ bl)))"
    and "msk = (if length p = 8 then 0 else 2 ^ (7 - length p))"
  shows "parses (read_bits_loop [i..<i + length bl] msk cache bits)
           (pack_bits (drop (8 - length p) bl)) (bits.add_where i bl bits)"
  using assms
proof (induction bl arbitrary: i p cache msk bits)
  case Nil
  then show ?case by (simp add: parses_ret)
next
  case (Cons b bl)
  have upt: "[i..<i + length (b # bl)] = i # [Suc i..<Suc i + length bl]"
    using upt_conv_Cons [of i "i + length (b # bl)"] by simp
  define step where "step = (\<lambda>(msk, cache). read_bits_loop [Suc i..<Suc i + length bl] (drop_bit 1 msk) cache
      (if cache AND msk \<noteq> 0 then snd (bs_insert bits i) else bits))"
  have main: "parses (step (2 ^ (7 - length p), ucast (byte_of (take 8 (p @ b # bl)))))
      (pack_bits (drop (8 - length (p @ [b])) bl)) (bits.add_where i (b # bl) bits)"
    if p: "length p < 8" for p
  proof -
    have "bit (byte_of (take 8 (p @ b # bl))) (7 - length p) \<longleftrightarrow> b"
      using p by (auto simp: bit_byte_of nth_append)
    then have cond: "(ucast (byte_of (take 8 (p @ b # bl))) AND (2 ^ (7 - length p) :: u32) \<noteq> 0) = b"
      by (simp add: and_power_u32 bit_ucast_byte)
    have "parses (read_bits_loop [Suc i..<Suc i + length bl] (drop_bit 1 (2 ^ (7 - length p)))
        (ucast (byte_of (take 8 (p @ b # bl)))) (if b then bs_add bits i else bits))
      (pack_bits (drop (8 - length (p @ [b])) bl)) (bits.add_where (Suc i) bl (if b then bs_add bits i else bits))"
      using p by (intro Cons.IH) (auto simp: drop_bit_power_u32)
    then show ?thesis
      by (simp only: step_def case_prod_conv cond bits.add_where.simps bs_add_def [symmetric])
  qed
  have loop: "read_bits_loop [i..<i + length (b # bl)] msk cache bits =
      and_read (if msk = 0 then and_read read_u8 (\<lambda>b. ret (0x80, ucast b)) else ret (msk, cache)) step"
    unfolding upt step_def by (simp only: read_bits_loop.simps)
  show ?case
  proof (cases "length p = 8")
    case True
    have "pack_bits (b # bl) = byte_of (take 8 (b # bl)) # pack_bits (drop 7 bl)"
      by (subst pack_bits.simps) simp
    with main [of "[]"] True Cons.prems(3) show ?thesis
      unfolding loop by (simp add: and_read_assoc parses_read_u8_then)
  next
    case False
    with Cons.prems have p: "length p < 8" by simp
    then have "msk = 2 ^ (7 - length p)" "msk \<noteq> 0"
      using Cons.prems(3) False by simp_all
    then have "and_read (if msk = 0 then and_read read_u8 (\<lambda>b. ret (0x80, ucast b)) else ret (msk, cache)) step
        = step (2 ^ (7 - length p), ucast (byte_of (take 8 (p @ b # bl))))"
      using Cons.prems(2) p by simp
    moreover have "drop (8 - length p) (b # bl) = drop (8 - length (p @ [b])) bl"
      using p by (simp add: drop_Cons')
    ultimately show ?thesis using main [OF p] unfolding loop by (simp only:)
  qed
qed

lemma parses_read_bits:
  "parses (read_bits (length bl)) (pack_bits bl) (bits.add_where 0 bl (bs_with_capacity (length bl)))"
  using parses_read_bits_loop [of "replicate 8 False" 0 bl 0 0 "bs_with_capacity (length bl)"]
  by (simp add: read_bits_def)

lemma parses_read_bits_write [parse_intros]:
  "bs_ok bs \<Longrightarrow> n = bit_count bs \<Longrightarrow> parses (read_bits n) (write_bit_set bs) bs"
  using parses_read_bits [of "flags bs"] bits.flags_determine [of bs "flags bs"]
  by (simp add: write_bit_set_eq flags_def)

section \<open>Setting and removing\<close>

lemma blocks_for_bits_eq: "blocks_for_bits n = n div 64 + (if n mod 64 = 0 then 0 else 1)"
proof (cases n)
  case (Suc m)
  then show ?thesis by (auto simp: blocks_for_bits_def div_Suc mod_Suc)
qed (simp add: blocks_for_bits_def)

lemma bit_ones_below: "bit (2 ^ r - 1 :: u64) k \<longleftrightarrow> k < r \<and> k < 64"
  using bit_mask_iff [of r k, where 'a = u64] by (auto simp: mask_eq_exp_minus_1)

lemma set_all_blocks:
  assumes "0 < n"
  shows "blocks (bs_set_all (bs_with_capacity n) n) =
    replicate (n div 64) (-1) @ (if n mod 64 = 0 then [] else [2 ^ (n mod 64) - 1])"
proof -
  have "replicate (blocks_for_bits n) (0 :: u64)
      = replicate (n div 64) 0 @ (if n mod 64 = 0 then [] else [0])"
    by (simp add: blocks_for_bits_eq replicate_append_same)
  with assms show ?thesis
    by (auto simp: bs_set_all_def bs_with_capacity_def Let_def map_replicate_const nth_append
        list_update_append)
qed

lemma bit_count_set_all [simp]: "bit_count (bs_set_all (bs_with_capacity n) n) = n"
  by (simp add: bs_set_all_def bs_with_capacity_def Let_def)

lemma raw_bit_set_all: "raw_bit (bs_set_all (bs_with_capacity n) n) i \<longleftrightarrow> i < n"
proof (cases "n = 0")
  case True
  then show ?thesis using raw_bit_with_capacity [of 0 i] by (simp add: bs_set_all_def)
next
  case False
  have less: "i < n \<longleftrightarrow> i div 64 < n div 64 \<or> i div 64 = n div 64 \<and> i mod 64 < n mod 64"
    using div_mult_mod_eq [of i 64] div_mult_mod_eq [of n 64] mod_less_divisor [of 64 i] mod_less_divisor [of 64 n]
    by linarith
  with False show ?thesis
    by (auto simp: raw_bit_def set_all_blocks nth_append bit_ones_below)
qed

lemma bs_ok_set_all [simp]: "bs_ok (bs_set_all (bs_with_capacity n) n)"
proof (cases "n = 0")
  case True
  then show ?thesis using bs_ok_with_capacity [of 0] by (simp add: bs_set_all_def)
next
  case False
  then show ?thesis by (simp add: bs_ok_def raw_bit_set_all) (simp add: set_all_blocks blocks_for_bits_eq)
qed

lemma contains_set_all [simp]: "bs_contains (bs_set_all (bs_with_capacity n) n) i \<longleftrightarrow> i < n"
  by (simp add: bs_contains_ok raw_bit_set_all)

lemma bs_remove_eq:
  "bs_remove bs i =
    (if bs_contains bs i \<or> i < bit_count bs \<and> i div 64 < length (blocks bs)
     then (bit (blocks bs ! (i div 64)) (i mod 64),
           bs\<lparr>blocks := (blocks bs)[i div 64 := blocks bs ! (i div 64) AND NOT (2 ^ (i mod 64))]\<rparr>)
     else (False, bs))"
  using and_power_u64 [of "i mod 64"]
  by (auto simp: bs_remove_def bit_indices_static_def Let_def bs_contains_def)

lemma raw_bit_remove: "bs_ok bs \<Longrightarrow> raw_bit (snd (bs_remove bs i)) j \<longleftrightarrow> j \<noteq> i \<and> raw_bit bs j"
  using same_position [of i j] blocks_for_bits_less [of i "bit_count bs"]
  by (auto simp: bs_remove_eq raw_bit_def bs_ok_def bs_contains_raw nth_list_update bit_and_iff bit_not_iff
      bit_power_word64)

lemma bit_count_remove [simp]: "bit_count (snd (bs_remove bs i)) = bit_count bs"
  by (simp add: bs_remove_eq)

lemma bs_ok_remove: "bs_ok bs \<Longrightarrow> bs_ok (snd (bs_remove bs i))"
proof -
  assume ok: "bs_ok bs"
  have "length (blocks (snd (bs_remove bs i))) = blocks_for_bits (bit_count bs)"
    using ok by (simp add: bs_remove_eq bs_ok_def)
  with ok show ?thesis
    by (simp add: bs_ok_def [of "snd (bs_remove bs i)"] raw_bit_remove) (simp add: bs_ok_def)
qed

lemma contains_remove: "bs_ok bs \<Longrightarrow> bs_contains (snd (bs_remove bs i)) j \<longleftrightarrow> j \<noteq> i \<and> bs_contains bs j"
  by (simp add: bs_contains_ok bs_ok_remove raw_bit_remove)

lemma reserve_new: "bs_reserve_len_exact bs_new n = bs_with_capacity n"
  by (auto simp: bs_reserve_len_exact_def bs_new_def bs_with_capacity_def resize_def blocks_for_bits_def)

text \<open>\<open>len\<close> counts the members.\<close>

lemma count_ones_card: "count_ones n w = card {k. k < n \<and> bit w k}"
proof (induction n)
  case (Suc n)
  have "{k. k < Suc n \<and> bit w k} = (if bit w n then insert n {k. k < n \<and> bit w k} else {k. k < n \<and> bit w k})"
    by (auto simp: less_Suc_eq)
  with Suc show ?case by simp
qed simp

lemma sum_count_ones:
  "sum_list (map (count_ones 64) bl) = card {i. i div 64 < length bl \<and> bit (bl ! (i div 64)) (i mod 64)}"
proof (induction bl rule: rev_induct)
  case (snoc b bl)
  let ?A = "{i. i div 64 < length bl \<and> bit (bl ! (i div 64)) (i mod 64)}"
  let ?B = "(\<lambda>k. 64 * length bl + k) ` {k. k < 64 \<and> bit b k}"
  have "{i. i div 64 < length (bl @ [b]) \<and> bit ((bl @ [b]) ! (i div 64)) (i mod 64)} = ?A \<union> ?B"
  proof (intro set_eqI iffI)
    fix i assume "i \<in> {i. i div 64 < length (bl @ [b]) \<and> bit ((bl @ [b]) ! (i div 64)) (i mod 64)}"
    moreover have "i div 64 = length bl \<Longrightarrow> i = 64 * length bl + i mod 64"
      by (metis mult_div_mod_eq)
    ultimately show "i \<in> ?A \<union> ?B"
      by (cases "i div 64 = length bl")
        (auto simp: nth_append less_Suc_eq intro!: image_eqI [of _ _ "i mod 64"])
  qed (auto simp: nth_append)
  moreover have "finite ?A"
    by (rule finite_subset [of _ "{..<64 * length bl}"]) auto
  moreover have "?A \<inter> ?B = {}" by auto
  moreover have "card ?B = count_ones 64 b"
    by (subst card_image) (auto simp: count_ones_card inj_on_def)
  ultimately show ?case using snoc by (simp add: card_Un_disjoint)
qed simp

lemma bs_len_card: "bs_ok bs \<Longrightarrow> bs_len bs = card {i. bs_contains bs i}"
  by (simp add: bs_len_def sum_count_ones bs_contains_ok raw_bit_def)

lemma bs_len_flags: "bs_ok bs \<Longrightarrow> bs_len bs = length (filter (bs_contains bs) [0..<bit_count bs])"
proof -
  assume "bs_ok bs"
  moreover have "set (filter (bs_contains bs) [0..<bit_count bs]) = {i. bs_contains bs i}"
    by (auto simp: bs_contains_raw)
  ultimately show ?thesis
    by (metis bs_len_card distinct_card distinct_filter distinct_upt)
qed

lemma parses_read_all: "parses (read_all_or_bits n) [1] (bs_set_all (bs_with_capacity n) n)"
  unfolding read_all_or_bits_def by (rule parses_read_u8_then) (simp add: parses_ret)

lemma parses_read_some:
  "parses (read_bits n) bs s \<Longrightarrow> parses (read_all_or_bits n) (0 # bs) s"
  unfolding read_all_or_bits_def by (rule parses_read_u8_then) simp

end
