(* ===== verification/Utf16.thy ===== *)
theory Utf16
  imports Byte_Cursor
begin

text \<open>
  Names, comments and passwords. A Rust \<open>String\<close> is the list of its Unicode scalar values;
  \<open>encode_utf16\<close> and \<open>String::from_utf16\<close> are the standard library's conversions, which
  \<^verbatim>\<open>src/src/writer.rs\<close>, \<^verbatim>\<open>src/src/reader.rs\<close> and
  \<^verbatim>\<open>src/src/encryption/password.rs\<close> use. \<open>names_next\<close> is \<open>NamesReader::next\<close> of the
  reader: zero-terminated names in a region of known length.
\<close>

section \<open>UTF-16\<close>

type_synonym rstring = "nat list"

definition is_scalar :: "nat \<Rightarrow> bool" where
  "is_scalar c \<longleftrightarrow> c < 0xD800 \<or> 0xE000 \<le> c \<and> c < 0x110000"

definition valid_string :: "rstring \<Rightarrow> bool" where
  "valid_string s = list_all is_scalar s"

definition encode_char :: "nat \<Rightarrow> u16 list" where
  "encode_char c =
     (if c < 0x10000 then [of_nat c]
      else [of_nat (0xD800 + (c - 0x10000) div 1024), of_nat (0xDC00 + (c - 0x10000) mod 1024)])"

definition encode_utf16 :: "rstring \<Rightarrow> u16 list" where
  "encode_utf16 s = concat (map encode_char s)"

fun from_utf16 :: "u16 list \<Rightarrow> rstring option" where
  "from_utf16 [] = Some []"
| "from_utf16 (u # us) =
     (if unat u < 0xD800 \<or> 0xE000 \<le> unat u then map_option (Cons (unat u)) (from_utf16 us)
      else if 0xDC00 \<le> unat u then None
      else case us of
          [] \<Rightarrow> None
        | v # vs \<Rightarrow>
            if unat v < 0xDC00 \<or> 0xE000 \<le> unat v then None
            else map_option (Cons ((unat u - 0xD800) * 1024 + (unat v - 0xDC00) + 0x10000))
                   (from_utf16 vs))"

lemma unat_u16: "n < 0x10000 \<Longrightarrow> unat (of_nat n :: u16) = n"
  by (simp add: unat_of_nat)

lemma encode_char_pair:
  assumes "is_scalar c" and "\<not> c < 0x10000"
  obtains hi lo where "encode_char c = [hi, lo]"
    and "unat hi = 0xD800 + (c - 0x10000) div 1024" and "unat lo = 0xDC00 + (c - 0x10000) mod 1024"
    and "(c - 0x10000) div 1024 < 1024"
proof (rule that)
  have less: "(c - 0x10000) div 1024 < 1024" "(c - 0x10000) mod 1024 < 1024"
    using assms by (auto simp: is_scalar_def less_mult_imp_div_less)
  show "encode_char c = [of_nat (0xD800 + (c - 0x10000) div 1024), of_nat (0xDC00 + (c - 0x10000) mod 1024)]"
    using assms by (simp add: encode_char_def)
  show "(c - 0x10000) div 1024 < 1024" by (rule less)
  show "unat (of_nat (0xD800 + (c - 0x10000) div 1024) :: u16) = 0xD800 + (c - 0x10000) div 1024"
    using less by (intro unat_u16) simp
  show "unat (of_nat (0xDC00 + (c - 0x10000) mod 1024) :: u16) = 0xDC00 + (c - 0x10000) mod 1024"
    using less by (intro unat_u16) simp
qed

lemma from_utf16_encode_char:
  assumes "is_scalar c"
  shows "from_utf16 (encode_char c @ us) = map_option (Cons c) (from_utf16 us)"
proof (cases "c < 0x10000")
  case True
  with assms show ?thesis by (auto simp: encode_char_def is_scalar_def unat_u16)
next
  case False
  define d where "d = c - 0x10000"
  obtain hi lo where pair: "encode_char c = [hi, lo]" "unat hi = 0xD800 + d div 1024"
    "unat lo = 0xDC00 + d mod 1024" "d div 1024 < 1024"
    using encode_char_pair [OF assms False] unfolding d_def by metis
  have c: "(d div 1024) * 1024 + d mod 1024 + 0x10000 = c" using False by (simp add: d_def)
  obtain q r where "d div 1024 = q" "d mod 1024 = r" "r < 1024" by simp
  with pair c show ?thesis by simp
qed

theorem from_utf16_encode: "valid_string s \<Longrightarrow> from_utf16 (encode_utf16 s) = Some s"
  by (induction s) (simp_all add: valid_string_def encode_utf16_def from_utf16_encode_char)

lemma zero_in_encode_char: "is_scalar c \<Longrightarrow> 0 \<in> set (encode_char c) \<longleftrightarrow> c = 0"
proof (cases "c < 0x10000")
  case True
  then show ?thesis using unat_u16 [of c] by (auto simp: encode_char_def)
next
  case False
  assume "is_scalar c"
  then obtain hi lo where "encode_char c = [hi, lo]" "0 < unat hi" "0 < unat lo"
    using encode_char_pair [OF _ False] by (metis add_gr_0 zero_less_numeral)
  with False show ?thesis by (auto simp: unat_gt_0)
qed

lemma zero_in_encode: "valid_string s \<Longrightarrow> 0 \<in> set (encode_utf16 s) \<longleftrightarrow> 0 \<in> set s"
  by (induction s) (auto simp: valid_string_def encode_utf16_def zero_in_encode_char)

section \<open>Passwords (password.rs)\<close>

type_synonym password = bytes

definition password_from :: "rstring \<Rightarrow> password" where
  "password_from s = concat (map write_u16_le (encode_utf16 s))"

definition password_is_empty :: "password \<Rightarrow> bool" where
  "password_is_empty p = (p = [])"

section \<open>Names\<close>

definition encode_name :: "rstring \<Rightarrow> bytes" where
  "encode_name s = concat (map write_u16_le (encode_utf16 s)) @ [0, 0]"

function names_chars :: "usize \<Rightarrow> usize \<Rightarrow> u16 list \<Rightarrow> (error, u16 list \<times> usize) parser" where
  "names_chars max_bytes read_bytes cache c =
     (if read_bytes < max_bytes then
        and_then (from_io (read_exact 2 c)) (\<lambda>(buf, c').
          let u = from_le_bytes buf; read_bytes' = read_bytes + 2 in
          if u = 0 then Ok ((cache, read_bytes'), c')
          else names_chars max_bytes read_bytes' (cache @ [u]) c')
      else Ok ((cache, read_bytes), c))"
  by pat_completeness auto
termination
  by (relation "measure (\<lambda>(max_bytes, read_bytes, cache, c). max_bytes - read_bytes)") auto

declare names_chars.simps [simp del]

definition names_next :: "usize \<Rightarrow> usize \<Rightarrow> (error, (rstring \<times> usize) option) parser" where
  "names_next max_bytes read_bytes =
     (if max_bytes \<le> read_bytes then ret None
      else and_read (names_chars max_bytes read_bytes []) (\<lambda>(cache, read_bytes').
        case from_utf16 cache of
          None \<Rightarrow> fail (Other ''invalid utf-16: lone surrogate found'')
        | Some s \<Rightarrow> ret (Some (s, read_bytes'))))"

lemma parses_names_chars:
  assumes "0 \<notin> set us" and "read_bytes + 2 * length us < max_bytes"
  shows "parses (names_chars max_bytes read_bytes cache)
          (concat (map write_u16_le us) @ [0, 0]) (cache @ us, read_bytes + 2 * length us + 2)"
  using assms
proof (induction us arbitrary: read_bytes cache)
  case Nil
  have "parses (read_exact 2) [0, 0 :: u8] [0, 0]" by (rule parses_read_exact) simp
  then have "read_exact 2 (cursor_at pre (0 # 0 # post)) = Ok ([0, 0], cursor_at (pre @ [0, 0]) post)" for pre post
    using parsesD [of "read_exact 2" "[0, 0]" "[0, 0]" pre post] by simp
  with Nil show ?case
    by (intro parsesI) (subst names_chars.simps, simp)
next
  case (Cons u us)
  have read: "read_exact 2 (cursor_at pre (write_u16_le u @ post))
      = Ok (write_u16_le u, cursor_at (pre @ write_u16_le u) post)" for pre post
    by (rule parsesD [OF parses_read_exact]) (simp add: write_u16_le_def)
  have le: "from_le_bytes (write_u16_le u) = u" by (simp add: write_u16_le_def)
  have IH: "parses (names_chars max_bytes (read_bytes + 2) (cache @ [u]))
      (concat (map write_u16_le us) @ [0, 0]) (cache @ u # us, read_bytes + 2 * length (u # us) + 2)"
    using Cons.IH [of "read_bytes + 2" "cache @ [u]"] Cons.prems by simp
  show ?case
  proof (rule parsesI)
    fix pre post
    show "names_chars max_bytes read_bytes cache
        (cursor_at pre ((concat (map write_u16_le (u # us)) @ [0, 0]) @ post)) =
      Ok ((cache @ u # us, read_bytes + 2 * length (u # us) + 2),
          cursor_at (pre @ concat (map write_u16_le (u # us)) @ [0, 0]) post)"
      using Cons.prems parsesD [OF IH, of "pre @ write_u16_le u" post]
      by (subst names_chars.simps) (simp add: read le)
  qed
qed

lemma length_encode_name: "length (encode_name s) = 2 * length (encode_utf16 s) + 2"
  by (simp add: encode_name_def length_concat write_u16_le_def comp_def sum_list_triv)

lemma parses_names_next [parse_intros]:
  assumes "valid_string s" and "0 \<notin> set s" and "read_bytes + length (encode_name s) \<le> max_bytes"
  shows "parses (names_next max_bytes read_bytes) (encode_name s)
           (Some (s, read_bytes + length (encode_name s)))"
proof -
  have chars: "parses (names_chars max_bytes read_bytes []) (encode_name s)
      (encode_utf16 s, read_bytes + length (encode_name s))"
    using parses_names_chars [of "encode_utf16 s" read_bytes max_bytes "[]"] assms
    by (simp add: zero_in_encode length_encode_name) (simp add: encode_name_def)
  show ?thesis
    unfolding names_next_def using assms
    by (auto simp: length_encode_name intro!: parses_and_read_eq [OF chars])
       (auto simp: from_utf16_encode length_encode_name intro: parses_ret)
qed

end
