(* ===== verification/Archive_Model.thy ===== *)
theory Archive_Model
  imports Bit_Set Utf16
begin

text \<open>
  The data model of \<^verbatim>\<open>src/src/archive.rs\<close> and \<^verbatim>\<open>src/src/block.rs\<close>: property
  identifiers, encoder methods, archive entries, blocks with their coders and bind pairs, and
  the iterator over the coders of a block in processing order.
\<close>

section \<open>Property identifiers\<close>

definition signature_header_size :: nat where "signature_header_size = 32"

definition seven_z_signature :: bytes where
  "seven_z_signature = [0x37, 0x7A, 0xBC, 0xAF, 0x27, 0x1C]"

abbreviation "k_end \<equiv> 0x00 :: u8"
abbreviation "k_header \<equiv> 0x01 :: u8"
abbreviation "k_archive_properties \<equiv> 0x02 :: u8"
abbreviation "k_additional_streams_info \<equiv> 0x03 :: u8"
abbreviation "k_main_streams_info \<equiv> 0x04 :: u8"
abbreviation "k_files_info \<equiv> 0x05 :: u8"
abbreviation "k_pack_info \<equiv> 0x06 :: u8"
abbreviation "k_unpack_info \<equiv> 0x07 :: u8"
abbreviation "k_sub_streams_info \<equiv> 0x08 :: u8"
abbreviation "k_size \<equiv> 0x09 :: u8"
abbreviation "k_crc \<equiv> 0x0A :: u8"
abbreviation "k_folder \<equiv> 0x0B :: u8"
abbreviation "k_coders_unpack_size \<equiv> 0x0C :: u8"
abbreviation "k_num_unpack_stream \<equiv> 0x0D :: u8"
abbreviation "k_empty_stream \<equiv> 0x0E :: u8"
abbreviation "k_empty_file \<equiv> 0x0F :: u8"
abbreviation "k_anti \<equiv> 0x10 :: u8"
abbreviation "k_name \<equiv> 0x11 :: u8"
abbreviation "k_c_time \<equiv> 0x12 :: u8"
abbreviation "k_a_time \<equiv> 0x13 :: u8"
abbreviation "k_m_time \<equiv> 0x14 :: u8"
abbreviation "k_win_attributes \<equiv> 0x15 :: u8"
abbreviation "k_comment \<equiv> 0x16 :: u8"
abbreviation "k_encoded_header \<equiv> 0x17 :: u8"
abbreviation "k_start_pos \<equiv> 0x18 :: u8"
abbreviation "k_dummy \<equiv> 0x19 :: u8"

section \<open>Encoder methods\<close>

datatype encoder_method = EncoderMethod (method_name: string) (method_id: bytes)

definition encoding_methods :: "encoder_method list" where
  "encoding_methods =
    [EncoderMethod ''COPY'' [0x00],
     EncoderMethod ''LZMA'' [0x03, 0x01, 0x01],
     EncoderMethod ''LZMA2'' [0x21],
     EncoderMethod ''PPMD'' [0x03, 0x04, 0x01],
     EncoderMethod ''BZIP2'' [0x04, 0x02, 0x02],
     EncoderMethod ''ZSTD'' [0x04, 0xF7, 0x11, 0x01],
     EncoderMethod ''BROTLI'' [0x04, 0xF7, 0x11, 0x02],
     EncoderMethod ''LZ4'' [0x04, 0xF7, 0x11, 0x04],
     EncoderMethod ''LZS'' [0x04, 0xF7, 0x11, 0x05],
     EncoderMethod ''LIZARD'' [0x04, 0xF7, 0x11, 0x06],
     EncoderMethod ''DEFLATE'' [0x04, 0x01, 0x08],
     EncoderMethod ''DEFLATE64'' [0x04, 0x01, 0x09],
     EncoderMethod ''AES256_SHA256'' [0x06, 0xF1, 0x07, 0x01],
     EncoderMethod ''BCJ_X86'' [0x03, 0x03, 0x01, 0x03],
     EncoderMethod ''BCJ_PPC'' [0x03, 0x03, 0x02, 0x05],
     EncoderMethod ''BCJ_IA64'' [0x03, 0x03, 0x04, 0x01],
     EncoderMethod ''BCJ_ARM'' [0x03, 0x03, 0x05, 0x01],
     EncoderMethod ''BCJ_ARM64'' [0x0A],
     EncoderMethod ''BCJ_ARM_THUMB'' [0x03, 0x03, 0x07, 0x01],
     EncoderMethod ''BCJ_SPARC'' [0x03, 0x03, 0x08, 0x05],
     EncoderMethod ''BCJ_RISCV'' [0x0B],
     EncoderMethod ''DELTA'' [0x03],
     EncoderMethod ''BCJ2'' [0x03, 0x03, 0x01, 0x1B],
     EncoderMethod ''SWAP2'' [0x03, 0x02],
     EncoderMethod ''SWAP4'' [0x03, 0x04]]"

definition id_copy :: bytes where "id_copy = [0x00]"
definition id_lzma :: bytes where "id_lzma = [0x03, 0x01, 0x01]"
definition id_lzma2 :: bytes where "id_lzma2 = [0x21]"
definition id_ppmd :: bytes where "id_ppmd = [0x03, 0x04, 0x01]"
definition id_bzip2 :: bytes where "id_bzip2 = [0x04, 0x02, 0x02]"
definition id_zstd :: bytes where "id_zstd = [0x04, 0xF7, 0x11, 0x01]"
definition id_brotli :: bytes where "id_brotli = [0x04, 0xF7, 0x11, 0x02]"
definition id_lz4 :: bytes where "id_lz4 = [0x04, 0xF7, 0x11, 0x04]"
definition id_deflate :: bytes where "id_deflate = [0x04, 0x01, 0x08]"
definition id_deflate64 :: bytes where "id_deflate64 = [0x04, 0x01, 0x09]"
definition id_aes256_sha256 :: bytes where "id_aes256_sha256 = [0x06, 0xF1, 0x07, 0x01]"
definition id_delta :: bytes where "id_delta = [0x03]"
definition id_swap2 :: bytes where "id_swap2 = [0x03, 0x02]"
definition id_swap4 :: bytes where "id_swap4 = [0x03, 0x04]"
definition id_bcj2 :: bytes where "id_bcj2 = [0x03, 0x03, 0x01, 0x1B]"
definition ids_bcj :: "bytes list" where
  "ids_bcj = [[0x03, 0x03, 0x01, 0x03], [0x03, 0x03, 0x05, 0x01], [0x0A], [0x03, 0x03, 0x07, 0x01],
     [0x03, 0x03, 0x02, 0x05], [0x03, 0x03, 0x04, 0x01], [0x03, 0x03, 0x08, 0x05], [0x0B]]"

definition by_id :: "bytes \<Rightarrow> encoder_method option" where
  "by_id i = find (\<lambda>item. method_id item = i) encoding_methods"

lemma distinct_method_ids: "distinct (map method_id encoding_methods)"
  by (simp add: encoding_methods_def)

lemma by_id_Some: "by_id i = Some m \<Longrightarrow> m \<in> set encoding_methods \<and> method_id m = i"
  by (auto simp: by_id_def find_Some_iff)

lemma by_id_complete: "m \<in> set encoding_methods \<Longrightarrow> by_id (method_id m) = Some m"
proof -
  assume m: "m \<in> set encoding_methods"
  then obtain n where "by_id (method_id m) = Some n"
    by (cases "by_id (method_id m)") (auto simp: by_id_def find_None_iff)
  with by_id_Some m distinct_method_ids show ?thesis
    by (metis distinct_map inj_on_contraD)
qed

section \<open>Blocks and coders (block.rs)\<close>

record bind_pair =
  in_index :: u64
  out_index :: u64

record coder =
  id_buffer :: bytes
  id_size :: usize
  num_in_streams :: u64
  num_out_streams :: u64
  properties :: bytes

definition coder_default :: coder where
  "coder_default = \<lparr>id_buffer = replicate 15 0, id_size = 0, num_in_streams = 0,
     num_out_streams = 0, properties = []\<rparr>"

definition encoder_method_id :: "coder \<Rightarrow> bytes" where
  "encoder_method_id c = take (id_size c) (id_buffer c)"

record block =
  coders :: "coder list"
  block_has_crc :: bool
  block_crc :: u64
  total_input_streams :: usize
  total_output_streams :: usize
  bind_pairs :: "bind_pair list"
  packed_streams :: "u64 list"
  unpack_sizes :: "u64 list"
  num_unpack_sub_streams :: usize

definition block_default :: block where
  "block_default = \<lparr>coders = [], block_has_crc = False, block_crc = 0, total_input_streams = 0,
     total_output_streams = 0, bind_pairs = [], packed_streams = [], unpack_sizes = [],
     num_unpack_sub_streams = 0\<rparr>"

definition find_bind_pair_for_in_stream :: "block \<Rightarrow> u64 \<Rightarrow> bind_pair option" where
  "find_bind_pair_for_in_stream b i = find (\<lambda>bp. in_index bp = i) (bind_pairs b)"

definition find_bind_pair_for_out_stream :: "block \<Rightarrow> u64 \<Rightarrow> bind_pair option" where
  "find_bind_pair_for_out_stream b i = find (\<lambda>bp. out_index bp = i) (bind_pairs b)"

fun unpack_size_loop :: "block \<Rightarrow> nat list \<Rightarrow> ('e, u64) outcome" where
  "unpack_size_loop b [] = Ok 0"
| "unpack_size_loop b (i # is) =
     (if find_bind_pair_for_out_stream b (of_nat i) = None then index (unpack_sizes b) i
      else unpack_size_loop b is)"

definition get_unpack_size :: "block \<Rightarrow> ('e, u64) outcome" where
  "get_unpack_size b =
     (if total_output_streams b = 0 then Ok 0
      else unpack_size_loop b (rev [0..<total_output_streams b]))"

definition get_unpack_size_at_index :: "block \<Rightarrow> usize \<Rightarrow> u64" where
  "get_unpack_size_at_index b i = (if i < length (unpack_sizes b) then unpack_sizes b ! i else 0)"

text \<open>The iterator \<open>OrderedCoderIter\<close>: its state is the current stream, and a step gives the
  coder there and the stream that the coder's output is bound to. The iteration follows bind
  pairs that come from the file and may cycle, so running it takes fuel.\<close>

definition coder_iter_new :: "block \<Rightarrow> u64 option" where
  "coder_iter_new b = (case packed_streams b of [] \<Rightarrow> None | i # _ \<Rightarrow> Some i)"

definition coder_iter_next :: "block \<Rightarrow> u64 option \<Rightarrow> (usize \<times> coder) option \<times> u64 option" where
  "coder_iter_next b current =
     (case current of
        None \<Rightarrow> (None, None)
      | Some i \<Rightarrow>
          (if unat i < length (coders b) then Some (unat i, coders b ! unat i) else None,
           map_option in_index (find_bind_pair_for_out_stream b i)))"

fun coder_iter_run :: "nat \<Rightarrow> block \<Rightarrow> u64 option \<Rightarrow> ('e, (usize \<times> coder) list) outcome" where
  "coder_iter_run 0 b current = OutOfFuel"
| "coder_iter_run (Suc fuel) b current =
     (case coder_iter_next b current of
        (None, _) \<Rightarrow> Ok []
      | (Some item, next) \<Rightarrow>
          and_then (coder_iter_run fuel b next) (\<lambda>items. Ok (item # items)))"

definition ordered_coders :: "nat \<Rightarrow> block \<Rightarrow> ('e, (usize \<times> coder) list) outcome" where
  "ordered_coders fuel b = coder_iter_run fuel b (coder_iter_new b)"

section \<open>Entries and archives\<close>

type_synonym nt_time = u64

record archive_entry =
  name :: rstring
  has_stream :: bool
  is_directory :: bool
  is_anti_item :: bool
  has_creation_date :: bool
  has_last_modified_date :: bool
  has_access_date :: bool
  creation_date :: nt_time
  last_modified_date :: nt_time
  access_date :: nt_time
  has_windows_attributes :: bool
  windows_attributes :: u32
  has_crc :: bool
  crc :: u64
  compressed_crc :: u64
  entry_size :: u64
  compressed_size :: u64
  has_start_pos :: bool
  start_pos :: u64

definition entry_default :: archive_entry where
  "entry_default = \<lparr>name = [], has_stream = False, is_directory = False, is_anti_item = False,
     has_creation_date = False, has_last_modified_date = False, has_access_date = False,
     creation_date = 0, last_modified_date = 0, access_date = 0,
     has_windows_attributes = False, windows_attributes = 0, has_crc = False, crc = 0,
     compressed_crc = 0, entry_size = 0, compressed_size = 0, has_start_pos = False, start_pos = 0\<rparr>"

definition new_file :: "rstring \<Rightarrow> archive_entry" where
  "new_file n = entry_default\<lparr>name := n, has_stream := True, is_directory := False\<rparr>"

definition new_directory :: "rstring \<Rightarrow> archive_entry" where
  "new_directory n = entry_default\<lparr>name := n, has_stream := False, is_directory := True\<rparr>"

record sub_streams_info =
  ss_unpack_sizes :: "u64 list"
  ss_has_crc :: bit_set
  ss_crcs :: "u64 list"

record stream_map =
  block_first_pack_stream_index :: "usize list"
  pack_stream_offsets :: "u64 list"
  block_first_file_index :: "usize list"
  file_block_index :: "usize option list"

definition stream_map_default :: stream_map where
  "stream_map_default = \<lparr>block_first_pack_stream_index = [], pack_stream_offsets = [],
     block_first_file_index = [], file_block_index = []\<rparr>"

record start_header =
  next_header_offset :: u64
  next_header_size :: u64
  next_header_crc :: u64

record archive =
  pack_pos :: u64
  pack_sizes :: "u64 list"
  pack_crcs_defined :: bit_set
  pack_crcs :: "u64 list"
  sub_streams :: "sub_streams_info option"
  ar_blocks :: "block list"
  ar_files :: "archive_entry list"
  ar_stream_map :: stream_map
  is_solid :: bool
  comment :: "rstring option"

definition archive_default :: archive where
  "archive_default = \<lparr>pack_pos = 0, pack_sizes = [], pack_crcs_defined = bs_new, pack_crcs = [],
     sub_streams = None, ar_blocks = [], ar_files = [], ar_stream_map = stream_map_default,
     is_solid = False, comment = None\<rparr>"

section \<open>Facts about the coder iterator\<close>

text \<open>A chain of coders, as the writer makes it: the input stream \<open>i + 1\<close> is bound to the
  output stream \<open>i\<close>, and the packed stream feeds coder 0.\<close>

definition chain_pairs :: "nat \<Rightarrow> bind_pair list" where
  "chain_pairs n = map (\<lambda>i. \<lparr>in_index = of_nat (i + 1), out_index = of_nat i\<rparr>) [0..<n - 1]"

definition is_chain :: "block \<Rightarrow> bool" where
  "is_chain b \<longleftrightarrow> coders b \<noteq> [] \<and> length (coders b) < 2 ^ 64
     \<and> packed_streams b = [0] \<and> bind_pairs b = chain_pairs (length (coders b))"

lemma unat_of_nat_u64: "n < 2 ^ 64 \<Longrightarrow> unat (of_nat n :: u64) = n"
  by (simp add: unat_of_nat)

lemma of_nat_u64_eq_iff: "m < 2 ^ 64 \<Longrightarrow> n < 2 ^ 64 \<Longrightarrow> (of_nat m :: u64) = of_nat n \<longleftrightarrow> m = n"
  by (metis unat_of_nat_u64)

lemma find_unique:
  assumes "x \<in> set xs" and "P x" and "\<And>y. y \<in> set xs \<Longrightarrow> P y \<Longrightarrow> y = x"
  shows "find P xs = Some x"
proof (cases "find P xs")
  case None
  with assms(1,2) show ?thesis by (auto simp: find_None_iff)
next
  case (Some y)
  then have "y \<in> set xs" "P y" by (auto simp: find_Some_iff)
  with assms(3) Some show ?thesis by blast
qed

lemma find_chain_pair_out:
  assumes "n < 2 ^ 64" and "i < 2 ^ 64"
  shows "find (\<lambda>bp. out_index bp = of_nat i) (chain_pairs n) =
    (if i < n - 1 then Some \<lparr>in_index = of_nat (i + 1), out_index = of_nat i\<rparr> else None)"
proof -
  have "j < n - 1 \<Longrightarrow> (of_nat j :: u64) = of_nat i \<longleftrightarrow> j = i" for j
    using assms by (intro of_nat_u64_eq_iff) auto
  then have same: "bp \<in> set (chain_pairs n) \<Longrightarrow> out_index bp = of_nat i \<Longrightarrow>
      i < n - 1 \<and> bp = \<lparr>in_index = of_nat (i + 1), out_index = of_nat i\<rparr>" for bp
    unfolding chain_pairs_def by auto
  show ?thesis
  proof (cases "i < n - 1")
    case True
    then have "\<lparr>in_index = of_nat (i + 1), out_index = of_nat i\<rparr> \<in> set (chain_pairs n)"
      unfolding chain_pairs_def by auto
    then have "find (\<lambda>bp. out_index bp = of_nat i) (chain_pairs n)
        = Some \<lparr>in_index = of_nat (i + 1), out_index = of_nat i\<rparr>"
      by (rule find_unique) (use same in auto)
    with True show ?thesis by simp
  next
    case False
    with same show ?thesis by (auto simp: find_None_iff)
  qed
qed

lemma coder_iter_next_chain:
  assumes chain: "is_chain b" and i: "i < length (coders b)"
  shows "coder_iter_next b (Some (of_nat i)) =
      (Some (i, coders b ! i), if i + 1 < length (coders b) then Some (of_nat (i + 1)) else None)"
proof -
  let ?n = "length (coders b)"
  have "unat (of_nat i :: u64) = i"
    using chain i by (intro unat_of_nat_u64) (simp add: is_chain_def)
  moreover have "find_bind_pair_for_out_stream b (of_nat i) =
      (if i < ?n - 1 then Some \<lparr>in_index = of_nat (i + 1), out_index = of_nat i\<rparr> else None)"
    using chain i find_chain_pair_out [of ?n i]
    by (simp add: find_bind_pair_for_out_stream_def is_chain_def)
  ultimately show ?thesis using i by (auto simp: coder_iter_next_def)
qed

lemma coder_iter_run_chain:
  assumes chain: "is_chain b" and "i < length (coders b)" and "length (coders b) - i < fuel"
  shows "(coder_iter_run fuel b (Some (of_nat i)) :: ('e, (usize \<times> coder) list) outcome) =
    Ok (map (\<lambda>k. (k, coders b ! k)) [i..<length (coders b)])"
  using assms(2,3)
proof (induction "length (coders b) - i" arbitrary: i fuel)
  case 0
  then show ?case by simp
next
  case (Suc d)
  let ?n = "length (coders b)"
  obtain f where f: "fuel = Suc f" using Suc.prems by (cases fuel) auto
  note nxt = coder_iter_next_chain [OF chain Suc.prems(1)]
  have up: "[i..<?n] = i # [Suc i..<?n]" using Suc.prems by (simp add: upt_conv_Cons)
  show ?case
  proof (cases "i + 1 < ?n")
    case True
    have "(coder_iter_run f b (Some (of_nat (i + 1))) :: ('e, (usize \<times> coder) list) outcome) = Ok (map (\<lambda>k. (k, coders b ! k)) [i + 1..<?n])"
      using Suc.hyps(2) Suc.prems True f by (intro Suc.hyps(1)) auto
    with True nxt up show ?thesis by (simp add: f)
  next
    case False
    then have end_iter: "i = ?n - 1" "f \<noteq> 0" using Suc.prems f by auto
    then have "(coder_iter_run f b None :: ('e, (usize \<times> coder) list) outcome) = Ok []"
      by (cases f) (simp_all add: coder_iter_next_def)
    with False nxt up end_iter show ?thesis by (simp add: f)
  qed
qed

lemma ordered_coders_chain:
  assumes "is_chain b" and "length (coders b) < fuel"
  shows "ordered_coders fuel b = Ok (enumerate 0 (coders b))"
proof -
  have "enumerate 0 (coders b) = map (\<lambda>k. (k, coders b ! k)) [0..<length (coders b)]"
    by (rule nth_equalityI) (auto simp: nth_enumerate_eq)
  with assms coder_iter_run_chain [of b 0 fuel] show ?thesis
    by (simp add: ordered_coders_def coder_iter_new_def is_chain_def)
qed

end
