(* ===== verification/Encoder_Options.thy ===== *)
theory Encoder_Options
  imports Archive_Model
begin

text \<open>
  The method options of \<^verbatim>\<open>src/src/encoder_options.rs\<close>, the property bytes that
  \<^verbatim>\<open>src/src/encoder.rs\<close> writes for them (\<open>get_options_as_properties\<close>) and the property
  bytes as \<^verbatim>\<open>src/src/decoder.rs\<close> reads them. All optional cargo features are on. What the
  crates lzma-rust2, ppmd-rust, brotli and zstd provide (presets, limits, version numbers) is
  the record \<open>libs\<close>, a parameter of the definitions that use it.
\<close>

section \<open>What other crates provide\<close>

record lzma_options =
  dict_size :: u32
  lzma_props :: u8

record libs =
  lzma_preset :: "u32 \<Rightarrow> lzma_options"
  dict_size_min :: u32
  dict_size_max :: u32
  ppmd7_min_order :: u32
  ppmd7_max_order :: u32
  ppmd7_min_mem_size :: u32
  ppmd7_max_mem_size :: u32
  brotli_version :: u8
  zstd_version_major :: u32
  zstd_version_minor :: u32

section \<open>Options (encoder_options.rs)\<close>

record lzma2_options =
  l2_lzma :: lzma_options
  l2_chunk_size :: "u64 option"
  l2_threads :: u32

definition clamp :: "'a::linorder \<Rightarrow> 'a \<Rightarrow> 'a \<Rightarrow> 'a" where
  "clamp x lo hi = (if x < lo then lo else if hi < x then hi else x)"

definition lzma_from_level :: "libs \<Rightarrow> u32 \<Rightarrow> lzma_options" where
  "lzma_from_level L level = lzma_preset L level"

definition lzma2_from_level :: "libs \<Rightarrow> u32 \<Rightarrow> lzma2_options" where
  "lzma2_from_level L level =
     \<lparr>l2_lzma = lzma_preset L level, l2_chunk_size = None, l2_threads = 1\<rparr>"

definition lzma2_from_level_mt :: "libs \<Rightarrow> u32 \<Rightarrow> u32 \<Rightarrow> u64 \<Rightarrow> lzma2_options" where
  "lzma2_from_level_mt L level threads chunk_size =
     (let options = lzma_preset L level;
          chunk = max chunk_size (ucast (dict_size options))
      in \<lparr>l2_lzma = options, l2_chunk_size = (if chunk = 0 then None else Some chunk),
          l2_threads = threads\<rparr>)"

definition set_dictionary_size :: "libs \<Rightarrow> lzma2_options \<Rightarrow> u32 \<Rightarrow> lzma2_options" where
  "set_dictionary_size L o2 d =
     o2\<lparr>l2_lzma := (l2_lzma o2)\<lparr>dict_size := clamp d (dict_size_min L) (dict_size_max L)\<rparr>\<rparr>"

definition lzma_default :: "libs \<Rightarrow> lzma_options" where
  "lzma_default L = lzma_preset L 6"

definition lzma2_default :: "libs \<Rightarrow> lzma2_options" where
  "lzma2_default L = \<lparr>l2_lzma = lzma_preset L 6, l2_chunk_size = None, l2_threads = 1\<rparr>"

definition bzip2_from_level :: "u32 \<Rightarrow> u32" where
  "bzip2_from_level level = level"

definition minimal_skippable_frame_size :: u32 where "minimal_skippable_frame_size = 65536"
definition default_skippable_frame_size :: u32 where "default_skippable_frame_size = 131072"

record brotli_options =
  br_quality :: u32
  br_window :: u32
  br_skippable_frame_size :: u32

definition brotli_from_quality_window :: "u32 \<Rightarrow> u32 \<Rightarrow> brotli_options" where
  "brotli_from_quality_window quality window =
     \<lparr>br_quality = (if 11 < quality then 11 else quality),
      br_window = (if 24 < window then 24 else window),
      br_skippable_frame_size = default_skippable_frame_size\<rparr>"

definition with_skippable_frame_size :: "u32 \<Rightarrow> u32" where
  "with_skippable_frame_size n = (if n = 0 then 0 else max n minimal_skippable_frame_size)"

definition brotli_with_skippable_frame_size :: "brotli_options \<Rightarrow> u32 \<Rightarrow> brotli_options" where
  "brotli_with_skippable_frame_size opts n =
     opts\<lparr>br_skippable_frame_size := with_skippable_frame_size n\<rparr>"

definition brotli_default :: brotli_options where
  "brotli_default = \<lparr>br_quality = 11, br_window = 22,
     br_skippable_frame_size = default_skippable_frame_size\<rparr>"

definition delta_from_distance :: "u32 \<Rightarrow> u32" where
  "delta_from_distance distance =
     (if distance = 0 then 1 else if 256 < distance then 256 else distance)"

definition deflate_from_level :: "u32 \<Rightarrow> u32" where
  "deflate_from_level level = (if 9 < level then 9 else level)"

definition lz4_with_skippable_frame_size :: "u32 \<Rightarrow> u32" where
  "lz4_with_skippable_frame_size n = with_skippable_frame_size n"

record ppmd_options =
  ppmd_order :: u32
  ppmd_memory_size :: u32

definition ppmd_from_level :: "u32 \<Rightarrow> ppmd_options" where
  "ppmd_from_level level =
     (let orders = [3, 4, 4, 5, 5, 6, 8, 16, 24, 32];
          level = (if 9 < level then 9 else level)
      in \<lparr>ppmd_order = orders ! unat level, ppmd_memory_size = push_bit (unat level + 19) 1\<rparr>)"

definition ppmd_from_order_memory_size :: "libs \<Rightarrow> u32 \<Rightarrow> u32 \<Rightarrow> ppmd_options" where
  "ppmd_from_order_memory_size L order memory_size =
     \<lparr>ppmd_order = (if ppmd7_max_order L < order then ppmd7_max_order L
        else if order < ppmd7_min_order L then ppmd7_min_order L else order),
      ppmd_memory_size = (if ppmd7_max_mem_size L < memory_size then ppmd7_max_mem_size L
        else if memory_size < ppmd7_min_mem_size L then ppmd7_min_mem_size L else memory_size)\<rparr>"

definition zstd_from_level :: "u32 \<Rightarrow> u32" where
  "zstd_from_level level = (if 22 < level then 22 else level)"

record aes_options =
  aes_password :: password
  aes_iv :: bytes
  aes_salt :: bytes
  aes_num_cycles_power :: u8

definition aes_properties :: "aes_options \<Rightarrow> bytes" where
  "aes_properties opts =
     [(aes_num_cycles_power opts AND 0x3F) OR 0xC0, 0xFF] @ aes_salt opts @ aes_iv opts"

text \<open>A fresh set of options: the random bytes of \<open>getrandom::fill\<close> are arguments.\<close>

definition aes_options_new :: "password \<Rightarrow> bytes \<Rightarrow> bytes \<Rightarrow> aes_options" where
  "aes_options_new pw random_iv random_salt =
     \<lparr>aes_password = pw, aes_iv = random_iv, aes_salt = random_salt, aes_num_cycles_power = 8\<rparr>"

datatype encoder_options =
  Delta u32 | Lzma lzma_options | Lzma2 lzma2_options | Brotli brotli_options | Bzip2 u32
  | Deflate u32 | Lz4 u32 | Ppmd ppmd_options | Zstd u32 | Aes aes_options

definition get_lzma_dict_size :: "encoder_options \<Rightarrow> u32" where
  "get_lzma_dict_size opts =
     (case opts of Lzma lo \<Rightarrow> dict_size lo | Lzma2 lo \<Rightarrow> dict_size (l2_lzma lo) | _ \<Rightarrow> 0)"

record encoder_configuration =
  config_method :: encoder_method
  config_options :: "encoder_options option"

definition config_new :: "encoder_method \<Rightarrow> encoder_configuration" where
  "config_new m = \<lparr>config_method = m, config_options = None\<rparr>"

section \<open>Property bytes as the encoder writes them (encoder.rs)\<close>

fun leading_zeros_from :: "nat \<Rightarrow> u32 \<Rightarrow> nat" where
  "leading_zeros_from 0 w = 0"
| "leading_zeros_from (Suc n) w = (if bit w n then 0 else Suc (leading_zeros_from n w))"

definition leading_zeros :: "u32 \<Rightarrow> nat" where
  "leading_zeros w = leading_zeros_from 32 w"

definition lzma2_prop :: "u32 \<Rightarrow> u8" where
  "lzma2_prop d =
     (let lead = of_nat (leading_zeros d) :: u32;
          second_bit = drop_bit (unat (30 - lead) mod 32) d - 2
      in ucast ((19 - lead) * 2 + second_bit))"

definition get_options_as_properties ::
    "libs \<Rightarrow> encoder_method \<Rightarrow> encoder_options option \<Rightarrow> bytes" where
  "get_options_as_properties L method opts =
    (let i = method_id method in
     if i = id_delta then
       (let d = (case opts of Some (Delta d) \<Rightarrow> d | _ \<Rightarrow> 1)
        in [ucast (if d = 0 then 0 else d - 1)])
     else if i = id_lzma2 then
       (let lo = (case opts of Some (Lzma2 lo) \<Rightarrow> lo | _ \<Rightarrow> lzma2_default L)
        in [lzma2_prop (dict_size (l2_lzma lo))])
     else if i = id_lzma then
       (let lo = (case opts of Some (Lzma lo) \<Rightarrow> lo | _ \<Rightarrow> lzma_default L)
        in lzma_props lo # to_le_bytes 4 (dict_size lo))
     else if i = id_ppmd then
       (let po = (case opts of Some (Ppmd po) \<Rightarrow> po | _ \<Rightarrow> ppmd_from_level 6)
        in ucast (ppmd_order po) # to_le_bytes 4 (ppmd_memory_size po))
     else if i = id_brotli then
       (let bo = (case opts of Some (Brotli bo) \<Rightarrow> bo | _ \<Rightarrow> brotli_default)
        in [brotli_version L, 0, ucast (br_quality bo)])
     else if i = id_lz4 then [1, 0, 3]
     else if i = id_zstd then
       (let zo = (case opts of Some (Zstd zo) \<Rightarrow> zo | _ \<Rightarrow> 3)
        in [ucast (zstd_version_major L), ucast (zstd_version_minor L), ucast zo])
     else if i = id_aes256_sha256 then
       (case opts of Some (Aes ao) \<Rightarrow> aes_properties ao | _ \<Rightarrow> [])
     else [])"

section \<open>Property bytes as the decoder reads them (decoder.rs)\<close>

definition get_ppmd_order_memory_size :: "libs \<Rightarrow> coder \<Rightarrow> nat \<Rightarrow> (u32 \<times> u32) result" where
  "get_ppmd_order_memory_size L c max_mem_limit_kb =
    (if length (properties c) < 5 then Err (Other ''PPMD properties too short'')
     else let order = ucast (properties c ! 0);
              memory_size = from_le_bytes (take 4 (drop 1 (properties c)))
       in if order < ppmd7_min_order L then Err (Other ''PPMD order smaller than PPMD7_MIN_ORDER'')
          else if ppmd7_max_order L < order then Err (Other ''PPMD order larger than PPMD7_MAX_ORDER'')
          else if memory_size < ppmd7_min_mem_size L
            then Err (Other ''PPMD memory size smaller than PPMD7_MIN_MEM_SIZE'')
          else if ppmd7_max_mem_size L < memory_size
            then Err (Other ''PPMD memory size larger than PPMD7_MAX_MEM_SIZE'')
          else if max_mem_limit_kb < unat memory_size
            then Err (MaxMemLimited max_mem_limit_kb (unat memory_size))
          else Ok (order, memory_size))"

definition get_lzma2_dic_size :: "coder \<Rightarrow> u32 result" where
  "get_lzma2_dic_size c =
    (if properties c = [] then Err (Other ''LZMA2 properties too short'')
     else let dict_size_bits = 0xFF AND ucast (properties c ! 0) :: u32
       in if dict_size_bits AND NOT 0x3F \<noteq> 0 then Err (Other ''Unsupported LZMA2 property bits'')
          else if 40 < dict_size_bits then Err (Other ''Dictionary larger than 4GiB maximum size'')
          else if dict_size_bits = 40 then Ok 0xFFFFFFFF
          else Ok (push_bit (unat (dict_size_bits div 2 + 11)) (2 OR (dict_size_bits AND 1))))"

text \<open>The slice \<open>properties[1..5]\<close> panics when there are fewer than five bytes.\<close>

definition get_lzma_dic_size :: "coder \<Rightarrow> u32 io_result" where
  "get_lzma_dic_size c =
    (if length (properties c) < 5 then Panic
     else Ok (from_le_bytes (take 4 (drop 1 (properties c)))))"

definition delta_decoder_distance :: "coder \<Rightarrow> usize" where
  "delta_decoder_distance c =
    unat (if properties c = [] then 1 else properties c ! 0 + 1 :: u8)"

end
