(* ===== verification/Readers.thy ===== *)
theory Readers
  imports Byte_Cursor
begin

text \<open>
  The readers that the archive reader and writer stack: \<open>BoundedReader\<close>,
  \<open>SharedBoundedReader\<close> and \<open>Crc32VerifyingReader\<close> of \<^verbatim>\<open>src/src/reader.rs\<close>,
  \<open>SeqReader\<close>, \<open>SourceReader\<close> and \<open>LazyFileReader\<close> of \<^verbatim>\<open>src/src/writer/\<close>. A reader is a
  state and a function that fills a buffer of the given length and returns the bytes it put
  there. Each definition takes the \<open>read\<close> of the reader it wraps as an argument. The locale
  \<open>byte_source\<close> is the contract of \<open>std::io::Read\<close>: the bytes returned are the next ones of
  the contents, and none are returned only at the end.

  \<open>crc32 :: bytes \<Rightarrow> u32\<close> stands for the crate crc32fast: the value that \<open>finalize\<close> gives
  after \<open>update\<close> was called with pieces whose concatenation is the argument.
\<close>

section \<open>Readers\<close>

type_synonym 's reading = "'s \<Rightarrow> nat \<Rightarrow> (bytes \<times> 's) io_result"

text \<open>\<open>impl Read for &[u8]\<close>\<close>

definition slice_read :: "bytes reading" where
  "slice_read s n = Ok (take n s, drop n s)"

record 's bounded_reader =
  br_inner :: 's
  br_remain :: usize

definition bounded_new :: "'s \<Rightarrow> usize \<Rightarrow> 's bounded_reader" where
  "bounded_new s n = \<lparr>br_inner = s, br_remain = n\<rparr>"

definition bounded_read :: "'s reading \<Rightarrow> 's bounded_reader reading" where
  "bounded_read read r n =
     (if br_remain r = 0 then Ok ([], r)
      else
        let bound = min n (br_remain r) in
        and_then (read (br_inner r) bound) (\<lambda>(bs, s).
          Ok (bs, \<lparr>br_inner = s, br_remain = br_remain r - length bs\<rparr>)))"

record 's crc_reader =
  cr_inner :: 's
  cr_digest :: bytes
  cr_expected :: u64
  cr_remaining :: int

definition crc_reader_new :: "'s \<Rightarrow> usize \<Rightarrow> u64 \<Rightarrow> 's crc_reader" where
  "crc_reader_new s remaining expected =
     \<lparr>cr_inner = s, cr_digest = [], cr_expected = expected,
      cr_remaining = sint (of_nat remaining :: u64)\<rparr>"

definition crc_read :: "(bytes \<Rightarrow> u32) \<Rightarrow> 's reading \<Rightarrow> 's crc_reader reading" where
  "crc_read crc32 read r n =
     (if cr_remaining r \<le> 0 then Ok ([], r)
      else
        and_then (read (cr_inner r) n) (\<lambda>(bs, s).
        let r = r\<lparr>cr_inner := s\<rparr>;
            r = (if 0 < length bs
                 then r\<lparr>cr_remaining := cr_remaining r - int (length bs), cr_digest := cr_digest r @ bs\<rparr>
                 else r) in
        if cr_remaining r \<le> 0 then
          let d = crc32 (cr_digest r); r = r\<lparr>cr_digest := []\<rparr> in
          if ucast d \<noteq> cr_expected r then Err (Io_wrapped ChecksumVerificationFailed)
          else Ok (bs, r)
        else Ok (bs, r)))"

text \<open>\<open>SeqReader::read\<close>: skip the readers that are at their end.\<close>

record 's seq_reader =
  sq_readers :: "'s list"
  sq_current :: usize

definition seq_new :: "'s list \<Rightarrow> 's seq_reader" where
  "seq_new rs = \<lparr>sq_readers = rs, sq_current = 0\<rparr>"

function seq_read :: "'s reading \<Rightarrow> 's seq_reader \<Rightarrow> nat \<Rightarrow> (bytes \<times> 's seq_reader) io_result" where
  "seq_read read r n =
     (if sq_current r < length (sq_readers r) then
        and_then (read (sq_readers r ! sq_current r) n) (\<lambda>(bs, s).
        let r' = r\<lparr>sq_readers := (sq_readers r)[sq_current r := s]\<rparr> in
        if length bs = 0 then seq_read read (r'\<lparr>sq_current := sq_current r + 1\<rparr>) n
        else Ok (bs, r'))
      else Ok ([], r))"
  by pat_completeness auto
termination
  by (relation "measure (\<lambda>(read, r, n). length (sq_readers r) - sq_current r)") auto

declare seq_read.simps [simp del]

text \<open>\<open>SourceReader\<close> counts and digests what it reads until the end is seen.\<close>

record 's source_reader =
  sr_reader :: 's
  sr_size :: usize
  sr_crc :: bytes
  sr_crc_value :: u32

definition source_new :: "'s \<Rightarrow> 's source_reader" where
  "source_new s = \<lparr>sr_reader = s, sr_size = 0, sr_crc = [], sr_crc_value = 0\<rparr>"

definition source_read :: "(bytes \<Rightarrow> u32) \<Rightarrow> 's reading \<Rightarrow> 's source_reader reading" where
  "source_read crc32 read r n =
     and_then (read (sr_reader r) n) (\<lambda>(bs, s).
     let r = r\<lparr>sr_reader := s\<rparr> in
     if sr_crc_value r = 0 then
       if 0 < length bs
       then Ok (bs, r\<lparr>sr_size := usize_add (sr_size r) (length bs), sr_crc := sr_crc r @ bs\<rparr>)
       else Ok (bs, r\<lparr>sr_crc := [], sr_crc_value := crc32 (sr_crc r)\<rparr>)
     else Ok (bs, r))"

text \<open>\<open>LazyFileReader\<close> opens its file at the first read and closes it at the end; \<open>open\<close>
  stands for \<open>File::open\<close> of its path.\<close>

record 's lazy_reader =
  lz_reader :: "'s option"
  lz_end :: bool

definition lazy_read :: "'s io_result \<Rightarrow> 's reading \<Rightarrow> 's lazy_reader reading" where
  "lazy_read open_file read r n =
     (if lz_end r then Ok ([], r)
      else
        and_then (case lz_reader r of None \<Rightarrow> open_file | Some s \<Rightarrow> Ok s) (\<lambda>s.
        and_then (read s n) (\<lambda>(bs, s).
        if length bs = 0 then Ok (bs, \<lparr>lz_reader = None, lz_end = True\<rparr>)
        else Ok (bs, \<lparr>lz_reader = Some s, lz_end = False\<rparr>))))"

section \<open>The shared reader of a file\<close>

text \<open>\<open>SharedBoundedReader\<close>: several readers own parts of one seekable reader, so each
  operation seeks first. The shared reader is passed in and out.\<close>

datatype seek_from = SeekStart u64 | SeekEnd u64 | SeekCurrent u64

record shared_reader =
  sh_cur :: u64
  sh_lower :: u64
  sh_upper :: u64

definition shared_new :: "u64 \<times> u64 \<Rightarrow> shared_reader" where
  "shared_new bounds = \<lparr>sh_cur = fst bounds, sh_lower = fst bounds, sh_upper = snd bounds\<rparr>"

definition shared_seek ::
    "('f \<Rightarrow> u64 \<Rightarrow> (u64 \<times> 'f) io_result) \<Rightarrow> 'f \<times> shared_reader \<Rightarrow> seek_from \<Rightarrow>
     (u64 \<times> 'f \<times> shared_reader) io_result" where
  "shared_seek seek_start fr p =
    (case fr of (f, r) \<Rightarrow>
      let new_pos = (case p of
             SeekStart p \<Rightarrow> sh_lower r + p
           | SeekEnd p \<Rightarrow> sh_upper r + p
           | SeekCurrent p \<Rightarrow> sh_cur r + p) in
      if sint new_pos < 0 then Err (Io_simple OtherKind ''SeekBeforeStart'')
      else
        let r = r\<lparr>sh_cur := new_pos\<rparr> in
        and_then (seek_start f (sh_cur r)) (\<lambda>(p, f). Ok (p, f, r)))"

definition shared_read ::
    "('f \<Rightarrow> u64 \<Rightarrow> (u64 \<times> 'f) io_result) \<Rightarrow> 'f reading \<Rightarrow> ('f \<times> shared_reader) reading" where
  "shared_read seek_start read fr n =
    (case fr of (f, r) \<Rightarrow>
      if sh_upper r \<le> sh_cur r then Ok ([], f, r)
      else
        and_then (seek_start f (sh_cur r)) (\<lambda>(_, f).
        let bound = min n (unat (sh_upper r - sh_cur r)) in
        and_then (read f bound) (\<lambda>(bs, f).
        Ok (bs, f, r\<lparr>sh_cur := sh_cur r + of_nat (length bs)\<rparr>))))"

text \<open>A file in memory, as \<open>std::io::Cursor\<close> reads and seeks it.\<close>

definition file_seek_start :: "cursor \<Rightarrow> u64 \<Rightarrow> (u64 \<times> cursor) io_result" where
  "file_seek_start f p = Ok (p, f\<lparr>cur_pos := unat p\<rparr>)"

definition file_read :: "cursor reading" where
  "file_read f n =
     (let bs = take n (drop (cur_pos f) (cur_data f))
      in Ok (bs, f\<lparr>cur_pos := cur_pos f + length bs\<rparr>))"

section \<open>The contract of a reader\<close>

text \<open>Reading with a buffer of \<open>n\<close> bytes until nothing comes; the fuel bounds the reads.\<close>

fun read_all :: "'s reading \<Rightarrow> nat \<Rightarrow> nat \<Rightarrow> 's \<Rightarrow> (bytes \<times> 's) io_result" where
  "read_all read n 0 s = OutOfFuel"
| "read_all read n (Suc fuel) s =
     and_then (read s n) (\<lambda>(bs, s').
       if bs = [] then Ok ([], s')
       else and_then (read_all read n fuel s') (\<lambda>(rest, s''). Ok (bs @ rest, s'')))"

locale byte_source =
  fixes read :: "'s reading"
    and contents :: "'s \<Rightarrow> bytes"
    and ready :: "'s \<Rightarrow> bool"
  assumes total: "ready s \<Longrightarrow> \<exists>bs s'. read s n = Ok (bs, s')"
    and next_bytes: "ready s \<Longrightarrow> read s n = Ok (bs, s') \<Longrightarrow>
          contents s = bs @ contents s' \<and> length bs \<le> n \<and> ready s'"
    and end_only: "ready s \<Longrightarrow> read s n = Ok ([], s') \<Longrightarrow> 0 < n \<Longrightarrow> contents s = []"
begin

lemma read_all_contents:
  "ready s \<Longrightarrow> 0 < n \<Longrightarrow> length (contents s) < fuel \<Longrightarrow>
   \<exists>s'. read_all read n fuel s = Ok (contents s, s') \<and> contents s' = [] \<and> ready s'"
proof (induction fuel arbitrary: s)
  case (Suc fuel)
  obtain bs s' where r: "read s n = Ok (bs, s')" using total Suc.prems(1) by blast
  note nb = next_bytes [OF Suc.prems(1) r]
  show ?case
  proof (cases "bs = []")
    case True
    with end_only Suc.prems r have "contents s = []" by blast
    with True nb r show ?thesis by simp
  next
    case False
    then have "length (contents s') < fuel" using nb Suc.prems(3) by (cases bs) auto
    with Suc.IH [of s'] nb Suc.prems(2) obtain s'' where
      "read_all read n fuel s' = Ok (contents s', s'')" "contents s'' = []" "ready s''" by blast
    with False nb r show ?thesis by simp
  qed
qed simp

end

text \<open>The three laws follow from what one read does.\<close>

lemma byte_sourceI:
  assumes step: "\<And>s n. ready s \<Longrightarrow> \<exists>bs s'. read s n = Ok (bs, s') \<and> ready s'
     \<and> contents s = bs @ contents s' \<and> length bs \<le> n \<and> (bs = [] \<longrightarrow> 0 < n \<longrightarrow> contents s = [])"
  shows "byte_source read contents ready"
proof
  fix s n assume "ready s"
  with step show "\<exists>bs s'. read s n = Ok (bs, s')" by blast
next
  fix s n bs s' assume "ready s" "read s n = Ok (bs, s')"
  with step [of s n] show "contents s = bs @ contents s' \<and> length bs \<le> n \<and> ready s'" by auto
next
  fix s n s' assume "ready s" "read s n = Ok ([], s')" "0 < n"
  with step [of s n] show "contents s = []" by auto
qed

section \<open>Slices and bounded readers\<close>

interpretation slice: byte_source slice_read "\<lambda>s. s" "\<lambda>s. True"
  by unfold_locales (auto simp: slice_read_def)

text \<open>The bound may exceed what the inner reader has: then the reader ends where it does.\<close>

definition bounded_contents :: "('s \<Rightarrow> bytes) \<Rightarrow> 's bounded_reader \<Rightarrow> bytes" where
  "bounded_contents contents r = take (br_remain r) (contents (br_inner r))"

context byte_source
begin

lemma bounded_source:
  "byte_source (bounded_read read) (bounded_contents contents) (\<lambda>r. ready (br_inner r))"
proof
  fix r :: "'s bounded_reader" and n
  assume ready: "ready (br_inner r)"
  then show "\<exists>bs s'. bounded_read read r n = Ok (bs, s')"
    using total [OF ready, of "min n (br_remain r)"] by (auto simp: bounded_read_def)
next
  fix r :: "'s bounded_reader" and n bs r'
  assume ready: "ready (br_inner r)" and ok: "bounded_read read r n = Ok (bs, r')"
  show "bounded_contents contents r = bs @ bounded_contents contents r' \<and> length bs \<le> n \<and> ready (br_inner r')"
  proof (cases "br_remain r = 0")
    case False
    then obtain s where s: "read (br_inner r) (min n (br_remain r)) = Ok (bs, s)"
      and r': "r' = \<lparr>br_inner = s, br_remain = br_remain r - length bs\<rparr>"
      using ok by (auto simp: bounded_read_def and_then_Ok_iff)
    from next_bytes [OF ready s] r' show ?thesis by (auto simp: bounded_contents_def)
  qed (use ok ready in \<open>auto simp: bounded_read_def bounded_contents_def\<close>)
next
  fix r :: "'s bounded_reader" and n r'
  assume ready: "ready (br_inner r)" and ok: "bounded_read read r n = Ok ([], r')" and "0 < n"
  then show "bounded_contents contents r = []"
    using end_only [OF ready, of "min n (br_remain r)"]
    by (cases "br_remain r = 0") (auto simp: bounded_read_def bounded_contents_def and_then_Ok_iff)
qed

end

section \<open>Checked readers\<close>

context byte_source
begin

text \<open>While less than the expected number of bytes was read, the digest holds what was read.\<close>

lemma crc_read_all_go:
  assumes "ready (cr_inner r)" and "0 < n" and "length (contents (cr_inner r)) < fuel"
    and "cr_remaining r = int (length (contents (cr_inner r)))" and "contents (cr_inner r) \<noteq> []"
  shows "case read_all (crc_read crc32 read) n fuel r of
      Ok (bs, r') \<Rightarrow> bs = contents (cr_inner r)
        \<and> ucast (crc32 (cr_digest r @ contents (cr_inner r))) = cr_expected r
    | Err e \<Rightarrow> e = Io_wrapped ChecksumVerificationFailed
        \<and> ucast (crc32 (cr_digest r @ contents (cr_inner r))) \<noteq> cr_expected r
    | _ \<Rightarrow> False"
  using assms
proof (induction fuel arbitrary: r)
  case (Suc fuel)
  obtain bs s where rd: "read (cr_inner r) n = Ok (bs, s)" using total Suc.prems(1) by blast
  note nb = next_bytes [OF Suc.prems(1) rd]
  have bs: "bs \<noteq> []" using end_only [OF Suc.prems(1)] rd Suc.prems(2,5) by blast
  define r' where "r' = \<lparr>cr_inner = s, cr_digest = cr_digest r @ bs, cr_expected = cr_expected r,
     cr_remaining = cr_remaining r - int (length bs)\<rparr>"
  have rem: "cr_remaining r' = int (length (contents s))" using nb Suc.prems(4) by (simp add: r'_def)
  have "0 < cr_remaining r" using Suc.prems(4,5) by simp
  note rem = rem this
  show ?case
  proof (cases "contents s = []")
    case True
    then have done_now: "cr_remaining r' \<le> 0" "contents (cr_inner r) = bs" using rem nb by simp_all
    have "fuel \<noteq> 0" using Suc.prems(3) nb bs by (cases fuel) (auto simp: Suc_le_eq)
    then obtain k where fuel: "fuel = Suc k" by (cases fuel) auto
    have "cr_remaining r - int (length bs) \<le> 0" using done_now(1) by (simp add: r'_def)
    then have step: "crc_read crc32 read r n =
        (if ucast (crc32 (cr_digest r @ bs)) = cr_expected r then Ok (bs, r'\<lparr>cr_digest := []\<rparr>)
         else Err (Io_wrapped ChecksumVerificationFailed))"
      using rem(2) rd bs by (simp add: crc_read_def Let_def r'_def)
    have "crc_read crc32 read (r'\<lparr>cr_digest := []\<rparr>) n = Ok ([], r'\<lparr>cr_digest := []\<rparr>)"
      using done_now(1) by (simp add: crc_read_def)
    then show ?thesis using done_now(2) bs by (simp add: fuel step)
  next
    case False
    then have more: "0 < cr_remaining r'" using rem by simp
    then have step: "crc_read crc32 read r n = Ok (bs, r')"
      using False rem rd bs by (simp add: crc_read_def Let_def r'_def)
    have inner: "cr_inner r' = s" by (simp add: r'_def)
    have "length (contents s) < fuel" using nb bs Suc.prems(3) by (cases bs) auto
    then have "case read_all (crc_read crc32 read) n fuel r' of
        Ok (cs, r'') \<Rightarrow> cs = contents s \<and> ucast (crc32 (cr_digest r' @ contents s)) = cr_expected r'
      | Err e \<Rightarrow> e = Io_wrapped ChecksumVerificationFailed
          \<and> ucast (crc32 (cr_digest r' @ contents s)) \<noteq> cr_expected r'
      | _ \<Rightarrow> False"
      using Suc.IH [of r', unfolded inner] nb Suc.prems(2) False rem by simp
    then show ?thesis
      using nb bs by (cases "read_all (crc_read crc32 read) n fuel r'") (auto simp: step r'_def)
  qed
qed simp

text \<open>The end of the inner reader before the expected size is reached goes unnoticed.\<close>

lemma crc_read_all_short:
  assumes "ready (cr_inner r)" and "0 < n" and "length (contents (cr_inner r)) < fuel"
    and "int (length (contents (cr_inner r))) < cr_remaining r"
  shows "\<exists>r'. read_all (crc_read crc32 read) n fuel r = Ok (contents (cr_inner r), r')"
  using assms
proof (induction fuel arbitrary: r)
  case (Suc fuel)
  obtain bs s where rd: "read (cr_inner r) n = Ok (bs, s)" using total Suc.prems(1) by blast
  note nb = next_bytes [OF Suc.prems(1) rd]
  define r' where "r' = \<lparr>cr_inner = s, cr_digest = cr_digest r @ bs, cr_expected = cr_expected r,
     cr_remaining = cr_remaining r - int (length bs)\<rparr>"
  have rem: "int (length (contents s)) < cr_remaining r'" "0 < cr_remaining r"
    using nb Suc.prems(4) by (simp_all add: r'_def)
  then have step: "\<exists>r''. crc_read crc32 read r n = Ok (bs, r'') \<and> (bs \<noteq> [] \<longrightarrow> r'' = r')"
    using rd by (cases "bs = []") (simp_all add: crc_read_def Let_def r'_def)
  show ?case
  proof (cases "bs = []")
    case True
    then show ?thesis using step end_only [OF Suc.prems(1)] rd Suc.prems(2) by fastforce
  next
    case False
    then have "length (contents s) < fuel" using nb Suc.prems(3) by (cases bs) auto
    with Suc.IH [of r'] nb Suc.prems(2) rem
    obtain r'' where "read_all (crc_read crc32 read) n fuel r' = Ok (contents s, r'')"
      by (auto simp: r'_def)
    with step False nb show ?thesis by auto
  qed
qed simp

lemma source_read_all_go:
  assumes "ready (sr_reader r)" and "0 < n" and "length (contents (sr_reader r)) < fuel"
    and "sr_crc_value r = 0" and "sr_size r + length (contents (sr_reader r)) < 2 ^ 64"
  shows "\<exists>r'. read_all (source_read crc32 read) n fuel r = Ok (contents (sr_reader r), r')
     \<and> sr_size r' = sr_size r + length (contents (sr_reader r))
     \<and> sr_crc_value r' = crc32 (sr_crc r @ contents (sr_reader r))"
  using assms
proof (induction fuel arbitrary: r)
  case (Suc fuel)
  obtain bs s where rd: "read (sr_reader r) n = Ok (bs, s)" using total Suc.prems(1) by blast
  note nb = next_bytes [OF Suc.prems(1) rd]
  show ?case
  proof (cases "bs = []")
    case True
    then have "contents (sr_reader r) = []" using end_only [OF Suc.prems(1)] rd Suc.prems(2) by blast
    with True rd Suc.prems(4) show ?thesis by (simp add: source_read_def)
  next
    case False
    define r' where "r' = \<lparr>sr_reader = s, sr_size = sr_size r + length bs, sr_crc = sr_crc r @ bs,
       sr_crc_value = sr_crc_value r\<rparr>"
    have step: "source_read crc32 read r n = Ok (bs, r')"
      using False rd nb Suc.prems(4,5) by (simp add: source_read_def r'_def)
    have "length (contents s) < fuel" using False nb Suc.prems(3) by (cases bs) auto
    with Suc.IH [of r'] nb Suc.prems step False show ?thesis by (auto simp: r'_def add.assoc)
  qed
qed simp

end

section \<open>Sequences\<close>

definition seq_contents :: "('s \<Rightarrow> bytes) \<Rightarrow> 's seq_reader \<Rightarrow> bytes" where
  "seq_contents contents r = concat (map contents (drop (sq_current r) (sq_readers r)))"

context byte_source
begin

lemma seq_read_step:
  assumes "list_all ready (drop (sq_current r) (sq_readers r))" and "0 < n"
  shows "\<exists>bs r'. seq_read read r n = Ok (bs, r') \<and> seq_contents contents r = bs @ seq_contents contents r'
     \<and> length bs \<le> n \<and> list_all ready (drop (sq_current r') (sq_readers r'))
     \<and> (bs = [] \<longrightarrow> seq_contents contents r = [])"
  using assms
proof (induction "length (sq_readers r) - sq_current r" arbitrary: r)
  case 0
  then show ?case by (subst seq_read.simps) (simp add: seq_contents_def)
next
  case (Suc d)
  let ?i = "sq_current r" and ?rs = "sq_readers r"
  have i: "?i < length ?rs" using Suc.hyps(2) by simp
  then have split: "drop ?i ?rs = ?rs ! ?i # drop (Suc ?i) ?rs" by (rule Cons_nth_drop_Suc [symmetric])
  have ready: "ready (?rs ! ?i)" "list_all ready (drop (Suc ?i) ?rs)" using Suc.prems(1) split by simp_all
  obtain bs s where rd: "read (?rs ! ?i) n = Ok (bs, s)" using total ready(1) by blast
  note nb = next_bytes [OF ready(1) rd]
  show ?case
  proof (cases "bs = []")
    case True
    let ?r = "r\<lparr>sq_readers := ?rs[?i := s], sq_current := ?i + 1\<rparr>"
    have "contents (?rs ! ?i) = []" using end_only [OF ready(1)] rd True Suc.prems(2) by blast
    then have same: "seq_contents contents r = seq_contents contents ?r"
      by (simp add: seq_contents_def split)
    have "seq_read read r n = seq_read read ?r n"
      using i rd True by (subst seq_read.simps) simp
    with Suc.hyps(1) [of ?r] Suc.hyps(2) Suc.prems(2) ready(2) same show ?thesis by simp
  next
    case False
    let ?r = "r\<lparr>sq_readers := ?rs[?i := s]\<rparr>"
    have "seq_read read r n = Ok (bs, ?r)" using i rd False by (subst seq_read.simps) simp
    moreover have "drop ?i (?rs[?i := s]) = s # drop (Suc ?i) ?rs"
      using i by (metis Cons_nth_drop_Suc drop_update_cancel length_list_update lessI nth_list_update_eq)
    ultimately show ?thesis
      using nb False ready(2) by (simp add: seq_contents_def split)
  qed
qed

lemma seq_read_all:
  assumes "list_all ready (drop (sq_current r) (sq_readers r))" and "0 < n"
    and "length (seq_contents contents r) < fuel"
  shows "\<exists>r'. read_all (seq_read read) n fuel r = Ok (seq_contents contents r, r')"
  using assms
proof (induction fuel arbitrary: r)
  case (Suc fuel)
  obtain bs r' where step: "seq_read read r n = Ok (bs, r')" "seq_contents contents r = bs @ seq_contents contents r'"
    "list_all ready (drop (sq_current r') (sq_readers r'))" "bs = [] \<longrightarrow> seq_contents contents r = []"
    using seq_read_step [OF Suc.prems(1,2)] by blast
  show ?case
  proof (cases "bs = []")
    case False
    then have "length (seq_contents contents r') < fuel" using step(2) Suc.prems(3) by (cases bs) auto
    with Suc.IH [of r'] Suc.prems(2) step False show ?thesis by auto
  qed (use step in auto)
qed simp

end

section \<open>Files\<close>

locale byte_file =
  fixes seek_start :: "'f \<Rightarrow> u64 \<Rightarrow> (u64 \<times> 'f) io_result"
    and read :: "'f reading"
    and data :: "'f \<Rightarrow> bytes"
    and pos :: "'f \<Rightarrow> nat"
  assumes seek: "\<exists>f'. seek_start f p = Ok (p, f') \<and> data f' = data f \<and> pos f' = unat p"
    and read: "\<exists>bs f'. read f n = Ok (bs, f') \<and> data f' = data f \<and> length bs \<le> n
          \<and> (\<exists>rest. drop (pos f) (data f) = bs @ rest \<and> (bs = [] \<longrightarrow> 0 < n \<longrightarrow> rest = []))"
begin

definition shared_contents :: "'f \<times> shared_reader \<Rightarrow> bytes" where
  "shared_contents fr = take (unat (sh_upper (snd fr)) - unat (sh_cur (snd fr)))
     (drop (unat (sh_cur (snd fr))) (data (fst fr)))"

lemma shared_read_step:
  obtains bs f' where "shared_read seek_start read (f, r) n = Ok (bs, f', r\<lparr>sh_cur := sh_cur r + of_nat (length bs)\<rparr>)"
    and "data f' = data f" and "length bs \<le> n" and "length bs \<le> unat (sh_upper r) - unat (sh_cur r)"
    and "\<exists>rest. drop (unat (sh_cur r)) (data f) = bs @ rest \<and>
           (bs = [] \<longrightarrow> 0 < n \<longrightarrow> sh_cur r < sh_upper r \<longrightarrow> rest = [])"
proof (cases "sh_cur r < sh_upper r")
  case True
  then have less: "unat (sh_upper r - sh_cur r) = unat (sh_upper r) - unat (sh_cur r)"
    "0 < unat (sh_upper r) - unat (sh_cur r)" "\<not> sh_upper r \<le> sh_cur r"
    by (simp_all add: unat_sub word_less_nat_alt word_le_nat_alt)
  let ?b = "min n (unat (sh_upper r) - unat (sh_cur r))"
  obtain f1 where f1: "seek_start f (sh_cur r) = Ok (sh_cur r, f1)" "data f1 = data f" "pos f1 = unat (sh_cur r)"
    using seek by blast
  obtain bs f2 rest where f2: "read f1 ?b = Ok (bs, f2)" "data f2 = data f1" "length bs \<le> ?b"
    "drop (pos f1) (data f1) = bs @ rest" "bs = [] \<longrightarrow> 0 < ?b \<longrightarrow> rest = []"
    using read by blast
  show thesis
  proof (rule that [of bs f2])
    show "shared_read seek_start read (f, r) n = Ok (bs, f2, r\<lparr>sh_cur := sh_cur r + of_nat (length bs)\<rparr>)"
      using less f1 f2 by (simp add: shared_read_def)
  qed (use f1 f2 less in auto)
next
  case False
  show thesis
  proof (rule that [of "[]" f])
    show "shared_read seek_start read (f, r) n = Ok ([], f, r\<lparr>sh_cur := sh_cur r + of_nat (length [])\<rparr>)"
      using False by (simp add: shared_read_def not_less)
  qed (use False in auto)
qed

text \<open>Whatever the position of the shared file is, a reader of a part delivers that part.\<close>

lemma shared_source: "byte_source (shared_read seek_start read) shared_contents (\<lambda>_. True)"
proof
  fix fr :: "'f \<times> shared_reader" and n
  obtain f r where fr: "fr = (f, r)" by (cases fr)
  show "\<exists>bs s'. shared_read seek_start read fr n = Ok (bs, s')"
    unfolding fr by (rule shared_read_step [of f r n]) blast
next
  fix fr :: "'f \<times> shared_reader" and n bs s'
  assume ok: "shared_read seek_start read fr n = Ok (bs, s')"
  obtain f r where fr: "fr = (f, r)" by (cases fr)
  obtain bs' f' where step: "shared_read seek_start read (f, r) n = Ok (bs', f', r\<lparr>sh_cur := sh_cur r + of_nat (length bs')\<rparr>)"
    "data f' = data f" "length bs' \<le> n" "length bs' \<le> unat (sh_upper r) - unat (sh_cur r)"
    "\<exists>rest. drop (unat (sh_cur r)) (data f) = bs' @ rest"
    by (rule shared_read_step [of f r n]) blast
  have bs: "bs = bs'" and s': "s' = (f', r\<lparr>sh_cur := sh_cur r + of_nat (length bs)\<rparr>)"
    using ok step(1) unfolding fr by auto
  have "unat (sh_upper r) < 2 ^ 64" using unsigned_less [of "sh_upper r", where 'a = nat] by simp
  then have sum_bound: "length bs = 0 \<or> unat (sh_cur r) + length bs < 2 ^ 64"
    using step(4) unfolding bs by linarith
  have cur: "unat (sh_cur r + of_nat (length bs)) = unat (sh_cur r) + length bs"
  proof (cases "bs = []")
    case False
    then show ?thesis using sum_bound by (auto simp: unat_word_ariths unat_of_nat)
  qed simp
  obtain rest where rest: "drop (unat (sh_cur r)) (data f) = bs @ rest" using step(5) bs by blast
  then have "drop (unat (sh_cur r) + length bs) (data f) = rest"
    by (metis add.commute append_eq_conv_conj drop_drop)
  then show "shared_contents fr = bs @ shared_contents s' \<and> length bs \<le> n \<and> True"
    using rest step(2-4) cur unfolding fr s' bs by (simp add: shared_contents_def)
next
  fix fr :: "'f \<times> shared_reader" and n s'
  assume ok: "shared_read seek_start read fr n = Ok ([], s')" and n: "0 < n"
  obtain f r where fr: "fr = (f, r)" by (cases fr)
  obtain bs f' where step: "shared_read seek_start read (f, r) n = Ok (bs, f', r\<lparr>sh_cur := sh_cur r + of_nat (length bs)\<rparr>)"
    "\<exists>rest. drop (unat (sh_cur r)) (data f) = bs @ rest \<and>
           (bs = [] \<longrightarrow> 0 < n \<longrightarrow> sh_cur r < sh_upper r \<longrightarrow> rest = [])"
    by (rule shared_read_step [of f r n]) blast
  with ok n have "sh_cur r < sh_upper r \<longrightarrow> drop (unat (sh_cur r)) (data f) = []" unfolding fr by auto
  then show "shared_contents fr = []"
    unfolding fr by (cases "sh_cur r < sh_upper r") (auto simp: shared_contents_def word_less_nat_alt not_less)
qed

end

interpretation mem_file: byte_file file_seek_start file_read cur_data cur_pos
proof
  fix f :: cursor and n
  show "\<exists>bs f'. file_read f n = Ok (bs, f') \<and> cur_data f' = cur_data f \<and> length bs \<le> n
      \<and> (\<exists>rest. drop (cur_pos f) (cur_data f) = bs @ rest \<and> (bs = [] \<longrightarrow> 0 < n \<longrightarrow> rest = []))"
    using append_take_drop_id [of n "drop (cur_pos f) (cur_data f)", symmetric]
    by (simp add: file_read_def Let_def) (intro exI [of _ "drop n (drop (cur_pos f) (cur_data f))"], simp)
qed (simp add: file_seek_start_def)

interpretation shared_file: byte_source "shared_read file_seek_start file_read" mem_file.shared_contents "\<lambda>_. True"
  by (rule mem_file.shared_source)

end
