(* ===== verification/Sinks.thy ===== *)
theory Sinks
  imports Byte_Cursor
begin

text \<open>
  Writers: the contract of \<open>std::io::Write\<close> as the locale \<open>byte_sink\<close>, the vector that a
  header is written to, and \<open>CountingWriter\<close> of \<^verbatim>\<open>src/src/writer/counting_writer.rs\<close>, which
  counts the bytes that pass. A writer is its state with the functions \<open>write\<close>, which takes
  some of a buffer and says how much, \<open>write_all\<close> and \<open>flush\<close>.
\<close>

type_synonym 'w writing = "'w \<Rightarrow> bytes \<Rightarrow> (usize \<times> 'w) io_result"
type_synonym 'w write_all = "'w \<Rightarrow> bytes \<Rightarrow> 'w io_result"
type_synonym 'w flushing = "'w \<Rightarrow> 'w io_result"

text \<open>The default \<open>write_all\<close> of the trait: call \<open>write\<close> until the buffer is taken.\<close>

function write_all_default :: "'w writing \<Rightarrow> 'w write_all" where
  "write_all_default write w buf =
     (if buf = [] then Ok w
      else
        and_then (write w buf) (\<lambda>(n, w).
        if n = 0 then Err (Io_simple WriteZero ''failed to write whole buffer'')
        else write_all_default write w (drop n buf)))"
  by pat_completeness auto
termination
  by (relation "measure (\<lambda>(write, w, buf). length buf)") auto

declare write_all_default.simps [simp del]

section \<open>Vectors\<close>

definition vec_write :: "bytes writing" where
  "vec_write w buf = Ok (length buf, w @ buf)"

definition vec_write_all :: "bytes write_all" where
  "vec_write_all w buf = Ok (w @ buf)"

definition vec_flush :: "bytes flushing" where
  "vec_flush w = Ok w"

section \<open>CountingWriter\<close>

record 'w counting_writer =
  cw_inner :: 'w
  cw_counting :: usize
  cw_written_bytes :: usize

definition counting_new :: "'w \<Rightarrow> 'w counting_writer" where
  "counting_new w = \<lparr>cw_inner = w, cw_counting = 0, cw_written_bytes = 0\<rparr>"

definition counting_write :: "'w writing \<Rightarrow> 'w counting_writer writing" where
  "counting_write write c buf =
     and_then (write (cw_inner c) buf) (\<lambda>(len, w).
       let n = usize_add (cw_written_bytes c) len
       in Ok (len, \<lparr>cw_inner = w, cw_counting = n, cw_written_bytes = n\<rparr>))"

definition counting_write_all :: "'w write_all \<Rightarrow> 'w counting_writer write_all" where
  "counting_write_all write_all c buf =
     and_then (write_all (cw_inner c) buf) (\<lambda>w.
       let n = usize_add (cw_written_bytes c) (length buf)
       in Ok \<lparr>cw_inner = w, cw_counting = n, cw_written_bytes = n\<rparr>)"

definition counting_flush :: "'w flushing \<Rightarrow> 'w counting_writer flushing" where
  "counting_flush flush c = and_then (flush (cw_inner c)) (\<lambda>w. Ok (c\<lparr>cw_inner := w\<rparr>))"

section \<open>The contract of a writer\<close>

text \<open>What \<open>write\<close> does to some of a buffer, \<open>write_all_default\<close> does to all of it.\<close>

lemma write_all_default_law:
  assumes step: "\<And>w d buf. took w d \<Longrightarrow> buf \<noteq> [] \<Longrightarrow>
      \<exists>n w'. put w buf = Ok (n, w') \<and> 0 < n \<and> n \<le> length buf \<and> took w' (d @ take n buf)"
  shows "took w d \<Longrightarrow> \<exists>w'. write_all_default put w buf = Ok w' \<and> took w' (d @ buf)"
proof (induction "length buf" arbitrary: w d buf rule: less_induct)
  case less
  show ?case
  proof (cases "buf = []")
    case False
    obtain n w' where w': "put w buf = Ok (n, w')" "0 < n" "n \<le> length buf" "took w' (d @ take n buf)"
      using step [OF less.prems False] by blast
    have "length (drop n buf) < length buf" using w' False by simp
    from less.hyps [OF this w'(4)] w' False show ?thesis
      by (subst write_all_default.simps) auto
  qed (use less.prems in \<open>simp add: write_all_default.simps\<close>)
qed

text \<open>\<open>took w d\<close> says that the writer \<open>w\<close> was given the bytes \<open>d\<close>. Neither the archive's
  output nor an encoder keeps them in its state, so it is a relation. Nothing is said of an
  empty buffer: the encoders take it as the order to finish.\<close>

locale byte_sink =
  fixes put :: "'w writing"
    and write_all :: "'w write_all"
    and flush :: "'w flushing"
    and took :: "'w \<Rightarrow> bytes \<Rightarrow> bool"
  assumes write_some: "took w d \<Longrightarrow> buf \<noteq> [] \<Longrightarrow>
          \<exists>n w'. put w buf = Ok (n, w') \<and> 0 < n \<and> n \<le> length buf \<and> took w' (d @ take n buf)"
    and write_every: "took w d \<Longrightarrow> \<exists>w'. write_all w buf = Ok w' \<and> took w' (d @ buf)"
    and flush_keeps: "took w d \<Longrightarrow> \<exists>w'. flush w = Ok w' \<and> took w' d"
begin

lemma write_all_default_writes:
  "took w d \<Longrightarrow> \<exists>w'. write_all_default put w buf = Ok w' \<and> took w' (d @ buf)"
  by (rule write_all_default_law [where took = took]) (auto intro: write_some)

text \<open>Writing pieces one after the other gives the writer their concatenation.\<close>

lemma write_pieces:
  "took w d \<Longrightarrow> \<exists>w'. for_each (\<lambda>p w. write_all w p) ps w = Ok w' \<and> took w' (d @ concat ps)"
proof (induction ps arbitrary: w d)
  case (Cons p ps)
  obtain w1 where "write_all w p = Ok w1" "took w1 (d @ p)" using write_every [OF Cons.prems] by blast
  with Cons.IH [of w1 "d @ p"] show ?case by auto
qed auto

end

text \<open>A counting writer is a writer, and its count is the number of bytes it was given.\<close>

definition counted :: "('w \<Rightarrow> bytes \<Rightarrow> bool) \<Rightarrow> 'w counting_writer \<Rightarrow> bytes \<Rightarrow> bool" where
  "counted took c d \<longleftrightarrow> took (cw_inner c) d \<and> cw_written_bytes c = length d mod 2 ^ 64
     \<and> cw_counting c = cw_written_bytes c"

lemma counted_new: "took w [] \<Longrightarrow> counted took (counting_new w) []"
  by (simp add: counted_def counting_new_def)

lemma usize_add_mod: "usize_add (m mod 18446744073709551616) n = (m + n) mod 18446744073709551616"
  by (simp add: usize_add_def mod_simps)

context byte_sink
begin

lemma counting_sink:
  "byte_sink (counting_write put) (counting_write_all write_all) (counting_flush flush) (counted took)"
proof
  fix c :: "'w counting_writer" and d buf :: bytes
  assume took: "counted took c d" and more: "buf \<noteq> []"
  then obtain n w where "put (cw_inner c) buf = Ok (n, w)" "0 < n" "n \<le> length buf" "took w (d @ take n buf)"
    using write_some [of "cw_inner c" d buf] by (auto simp: counted_def)
  with took show "\<exists>n w'. counting_write put c buf = Ok (n, w') \<and> 0 < n \<and> n \<le> length buf
      \<and> counted took w' (d @ take n buf)"
    by (simp add: counting_write_def counted_def usize_add_mod Let_def)
next
  fix c :: "'w counting_writer" and d buf :: bytes
  assume took: "counted took c d"
  then obtain w where "write_all (cw_inner c) buf = Ok w" "took w (d @ buf)"
    using write_every [of "cw_inner c" d buf] by (auto simp: counted_def)
  with took show "\<exists>w'. counting_write_all write_all c buf = Ok w' \<and> counted took w' (d @ buf)"
    by (simp add: counting_write_all_def counted_def usize_add_mod Let_def)
next
  fix c :: "'w counting_writer" and d
  assume took: "counted took c d"
  then obtain w where "flush (cw_inner c) = Ok w" "took w d"
    using flush_keeps [of "cw_inner c" d] by (auto simp: counted_def)
  with took show "\<exists>w'. counting_flush flush c = Ok w' \<and> counted took w' d"
    by (simp add: counting_flush_def counted_def)
qed

end

section \<open>Writers that can be finished\<close>

text \<open>The encoders finish their stream when they are given an empty buffer, and pass it on to
  the writer below. \<open>finished w d\<close>: the whole stream was \<open>d\<close>, and all below have finished.\<close>

locale finishing_sink = byte_sink +
  fixes finished :: "'a \<Rightarrow> bytes \<Rightarrow> bool"
  assumes finish: "took w d \<Longrightarrow> \<exists>w'. put w [] = Ok (0, w') \<and> finished w' d"
begin

lemma counting_finishing:
  "finishing_sink (counting_write put) (counting_write_all write_all) (counting_flush flush)
     (counted took) (counted finished)"
proof (rule finishing_sink.intro [OF counting_sink], unfold_locales)
  fix c :: "'a counting_writer" and d
  assume took: "counted took c d"
  then obtain w where "put (cw_inner c) [] = Ok (0, w)" "finished w d"
    using finish [of "cw_inner c" d] by (auto simp: counted_def)
  with took show "\<exists>w'. counting_write put c [] = Ok (0, w') \<and> counted finished w' d"
    using usize_add_mod [of "length d" 0] by (simp add: counting_write_def counted_def Let_def)
qed

end

text \<open>A writer that has \<open>write_all\<close> from the trait.\<close>

lemma finishing_sinkI:
  assumes "\<And>w d buf. took w d \<Longrightarrow> buf \<noteq> [] \<Longrightarrow>
      \<exists>n w'. put w buf = Ok (n, w') \<and> 0 < n \<and> n \<le> length buf \<and> took w' (d @ take n buf)"
    and "\<And>w d. took w d \<Longrightarrow> \<exists>w'. flush w = Ok w' \<and> took w' d"
    and "\<And>w d. took w d \<Longrightarrow> \<exists>w'. put w [] = Ok (0, w') \<and> finished w' d"
  shows "finishing_sink put (write_all_default put) flush took finished"
  using write_all_default_law [of took put, OF assms(1)] assms by unfold_locales blast+

interpretation vec: finishing_sink vec_write vec_write_all vec_flush "(=)" "(=)"
  by unfold_locales (auto simp: vec_write_def vec_write_all_def vec_flush_def)

interpretation counted_vec: finishing_sink "counting_write vec_write" "counting_write_all vec_write_all"
  "counting_flush vec_flush" "counted (=)" "counted (=)"
  by (rule vec.counting_finishing)

end
