(* ===== verification/Perf.thy ===== *)
theory Perf
  imports Encoder_Options Readers Sinks
begin

text \<open>
  \<^verbatim>\<open>src/src/perf.rs\<close>: buffer sizes, the configurations for parallel and batched compression, the
  size thresholds, the pool of buffers, the copy loops, the prefetch queue and the statistics.
  \<open>available\<close> stands for \<open>std::thread::available_parallelism\<close>, which may be unknown.
  The ratios that the statistics give as \<open>f64\<close> are not modelled.
\<close>

section \<open>Sizes\<close>

definition small_buffer_size :: usize where "small_buffer_size = 4 * 1024"
definition default_buffer_size :: usize where "default_buffer_size = 64 * 1024"
definition large_buffer_size :: usize where "large_buffer_size = 256 * 1024"
definition xlarge_buffer_size :: usize where "xlarge_buffer_size = 1024 * 1024"
definition hyper_buffer_size :: usize where "hyper_buffer_size = 4 * 1024 * 1024"
definition max_buffer_size :: usize where "max_buffer_size = 16 * 1024 * 1024"
definition default_parallel_chunk_size :: u64 where "default_parallel_chunk_size = 4 * 1024 * 1024"
definition large_parallel_chunk_size :: u64 where "large_parallel_chunk_size = 16 * 1024 * 1024"
definition small_parallel_chunk_size :: u64 where "small_parallel_chunk_size = 1024 * 1024"

lemmas buffer_sizes = small_buffer_size_def default_buffer_size_def large_buffer_size_def
  xlarge_buffer_size_def hyper_buffer_size_def max_buffer_size_def

section \<open>Configurations\<close>

record parallel_config =
  pc_threads :: u32
  pc_chunk_size :: u64
  pc_buffer_size :: usize
  pc_parallel_input_streams :: u32

definition threads_of :: "usize option \<Rightarrow> u32" where
  "threads_of available = of_nat (case available of Some n \<Rightarrow> n | None \<Rightarrow> 1)"

definition parallel_default :: "usize option \<Rightarrow> parallel_config" where
  "parallel_default available =
     (let threads = threads_of available in
      \<lparr>pc_threads = threads, pc_chunk_size = default_parallel_chunk_size,
       pc_buffer_size = large_buffer_size, pc_parallel_input_streams = min threads 8\<rparr>)"

definition max_throughput :: "usize option \<Rightarrow> parallel_config" where
  "max_throughput available =
     (let threads = threads_of available in
      \<lparr>pc_threads = threads, pc_chunk_size = large_parallel_chunk_size,
       pc_buffer_size = hyper_buffer_size, pc_parallel_input_streams = threads\<rparr>)"

definition low_latency :: "usize option \<Rightarrow> parallel_config" where
  "low_latency available =
     (let threads = threads_of available in
      \<lparr>pc_threads = threads, pc_chunk_size = small_parallel_chunk_size,
       pc_buffer_size = default_buffer_size, pc_parallel_input_streams = min threads 4\<rparr>)"

definition with_threads :: "parallel_config \<Rightarrow> u32 \<Rightarrow> parallel_config" where
  "with_threads c n = c\<lparr>pc_threads := clamp n 1 256\<rparr>"

definition with_chunk_size :: "parallel_config \<Rightarrow> u64 \<Rightarrow> parallel_config" where
  "with_chunk_size c n = c\<lparr>pc_chunk_size := clamp n (64 * 1024) (1024 * 1024 * 1024)\<rparr>"

definition with_buffer_size :: "parallel_config \<Rightarrow> usize \<Rightarrow> parallel_config" where
  "with_buffer_size c n = c\<lparr>pc_buffer_size := clamp n 4096 (16 * 1024 * 1024)\<rparr>"

definition with_parallel_input_streams :: "parallel_config \<Rightarrow> u32 \<Rightarrow> parallel_config" where
  "with_parallel_input_streams c n = c\<lparr>pc_parallel_input_streams := clamp n 1 64\<rparr>"

definition to_lzma2_options :: "libs \<Rightarrow> parallel_config \<Rightarrow> u32 \<Rightarrow> lzma2_options" where
  "to_lzma2_options L c level = lzma2_from_level_mt L level (pc_threads c) (pc_chunk_size c)"

record buffer_config =
  bc_buffer_size :: usize

definition buffer_config_default :: buffer_config where
  "buffer_config_default = \<lparr>bc_buffer_size = default_buffer_size\<rparr>"

definition buffer_config_new :: "usize \<Rightarrow> buffer_config" where
  "buffer_config_new n = \<lparr>bc_buffer_size = clamp n 4096 (16 * 1024 * 1024)\<rparr>"

definition high_bandwidth :: buffer_config where
  "high_bandwidth = buffer_config_new large_buffer_size"

definition low_memory :: buffer_config where
  "low_memory = buffer_config_new small_buffer_size"

section \<open>Thresholds\<close>

text \<open>\<open>clamp\<close> asserts that its bounds are in order.\<close>

definition asserting_clamp :: "'a::linorder \<Rightarrow> 'a \<Rightarrow> 'a \<Rightarrow> ('e, 'a) outcome" where
  "asserting_clamp x lo hi = (if lo \<le> hi then Ok (clamp x lo hi) else Panic)"

record file_size_thresholds =
  tiny_threshold :: u64
  small_threshold :: u64
  medium_threshold :: u64

definition thresholds_default :: file_size_thresholds where
  "thresholds_default =
     \<lparr>tiny_threshold = of_nat small_buffer_size, small_threshold = of_nat default_buffer_size,
      medium_threshold = of_nat hyper_buffer_size\<rparr>"

definition thresholds_for_tiny_files :: file_size_thresholds where
  "thresholds_for_tiny_files =
     \<lparr>tiny_threshold = 16 * 1024, small_threshold = 128 * 1024,
      medium_threshold = of_nat hyper_buffer_size\<rparr>"

definition thresholds_for_mixed_workload :: file_size_thresholds where
  "thresholds_for_mixed_workload = thresholds_default"

definition thresholds_for_large_files :: file_size_thresholds where
  "thresholds_for_large_files =
     \<lparr>tiny_threshold = 1024, small_threshold = 32 * 1024, medium_threshold = 16 * 1024 * 1024\<rparr>"

definition with_tiny_threshold :: "file_size_thresholds \<Rightarrow> u64 \<Rightarrow> file_size_thresholds" where
  "with_tiny_threshold t n = t\<lparr>tiny_threshold := clamp n 512 (64 * 1024)\<rparr>"

definition with_small_threshold :: "file_size_thresholds \<Rightarrow> u64 \<Rightarrow> ('e, file_size_thresholds) outcome" where
  "with_small_threshold t n =
     and_then (asserting_clamp n (tiny_threshold t) (1024 * 1024)) (\<lambda>n. Ok (t\<lparr>small_threshold := n\<rparr>))"

definition with_medium_threshold :: "file_size_thresholds \<Rightarrow> u64 \<Rightarrow> ('e, file_size_thresholds) outcome" where
  "with_medium_threshold t n =
     and_then (asserting_clamp n (small_threshold t) (64 * 1024 * 1024)) (\<lambda>n. Ok (t\<lparr>medium_threshold := n\<rparr>))"

datatype file_category = Tiny | Small | Medium | Large

definition buffer_size_for :: "file_size_thresholds \<Rightarrow> u64 \<Rightarrow> usize" where
  "buffer_size_for t n =
     (if n \<le> tiny_threshold t then small_buffer_size
      else if n \<le> small_threshold t then default_buffer_size
      else if n \<le> medium_threshold t then large_buffer_size
      else hyper_buffer_size)"

definition categorize :: "file_size_thresholds \<Rightarrow> u64 \<Rightarrow> file_category" where
  "categorize t n =
     (if n \<le> tiny_threshold t then Tiny
      else if n \<le> small_threshold t then Small
      else if n \<le> medium_threshold t then Medium
      else Large)"

primrec category_buffer_size :: "file_category \<Rightarrow> usize" where
  "category_buffer_size Tiny = small_buffer_size"
| "category_buffer_size Small = default_buffer_size"
| "category_buffer_size Medium = large_buffer_size"
| "category_buffer_size Large = hyper_buffer_size"

record batch_config =
  bt_batch_size :: usize
  bt_parallelism :: usize
  bt_memory_budget_mb :: usize
  bt_use_solid_compression :: bool
  bt_thresholds :: file_size_thresholds

definition batch_for_tiny_files :: "usize option \<Rightarrow> usize \<Rightarrow> batch_config" where
  "batch_for_tiny_files available n =
     \<lparr>bt_batch_size = clamp (n div 100) 100 10000,
      bt_parallelism = (case available of Some k \<Rightarrow> k | None \<Rightarrow> 4),
      bt_memory_budget_mb = 512, bt_use_solid_compression = True,
      bt_thresholds = thresholds_for_tiny_files\<rparr>"

definition batch_for_mixed_workload :: "usize option \<Rightarrow> usize \<Rightarrow> batch_config" where
  "batch_for_mixed_workload available n =
     \<lparr>bt_batch_size = clamp (n div 50) 50 5000,
      bt_parallelism = (case available of Some k \<Rightarrow> k | None \<Rightarrow> 4),
      bt_memory_budget_mb = 1024, bt_use_solid_compression = False,
      bt_thresholds = thresholds_for_mixed_workload\<rparr>"

definition batch_for_large_files :: "usize option \<Rightarrow> usize \<Rightarrow> batch_config" where
  "batch_for_large_files available n =
     \<lparr>bt_batch_size = 10, bt_parallelism = (case available of Some k \<Rightarrow> k | None \<Rightarrow> 4),
      bt_memory_budget_mb = 2048, bt_use_solid_compression = False,
      bt_thresholds = thresholds_for_large_files\<rparr>"

definition with_batch_size :: "batch_config \<Rightarrow> usize \<Rightarrow> batch_config" where
  "with_batch_size c n = c\<lparr>bt_batch_size := clamp n 1 100000\<rparr>"

definition with_parallelism :: "batch_config \<Rightarrow> usize \<Rightarrow> batch_config" where
  "with_parallelism c n = c\<lparr>bt_parallelism := clamp n 1 256\<rparr>"

definition with_memory_budget_mb :: "batch_config \<Rightarrow> usize \<Rightarrow> batch_config" where
  "with_memory_budget_mb c n = c\<lparr>bt_memory_budget_mb := clamp n 64 16384\<rparr>"

definition with_solid_compression :: "batch_config \<Rightarrow> bool \<Rightarrow> batch_config" where
  "with_solid_compression c b = c\<lparr>bt_use_solid_compression := b\<rparr>"

definition recommended_pool_size :: "batch_config \<Rightarrow> usize" where
  "recommended_pool_size c = min (bt_parallelism c * 2 mod 2 ^ 64) 64"

definition recommended_buffer_size :: "batch_config \<Rightarrow> u64 \<Rightarrow> usize" where
  "recommended_buffer_size c n = buffer_size_for (bt_thresholds c) n"

definition batch_config_default :: "usize option \<Rightarrow> batch_config" where
  "batch_config_default available = batch_for_mixed_workload available 10000"

section \<open>Copying\<close>

text \<open>\<open>buffered_copy\<close> and \<open>buffered_copy_with_crc\<close>: the loop with the total and the bytes
  digested so far. The fuel bounds the calls of \<open>read\<close>.\<close>

fun buffered_copy_loop ::
    "'s reading \<Rightarrow> 'w write_all \<Rightarrow> usize \<Rightarrow> nat \<Rightarrow> u64 \<Rightarrow> 's \<Rightarrow> 'w \<Rightarrow> (u64 \<times> 's \<times> 'w) io_result" where
  "buffered_copy_loop read write_all buffer_size 0 total_bytes r w = OutOfFuel"
| "buffered_copy_loop read write_all buffer_size (Suc fuel) total_bytes r w =
     and_then (read r buffer_size) (\<lambda>(buf, r).
     if length buf = 0 then Ok (total_bytes, r, w)
     else
       and_then (write_all w buf) (\<lambda>w.
       buffered_copy_loop read write_all buffer_size fuel (total_bytes + of_nat (length buf)) r w))"

definition buffered_copy ::
    "'s reading \<Rightarrow> 'w write_all \<Rightarrow> nat \<Rightarrow> 's \<Rightarrow> 'w \<Rightarrow> usize \<Rightarrow> (u64 \<times> 's \<times> 'w) io_result" where
  "buffered_copy read write_all fuel r w buffer_size =
     buffered_copy_loop read write_all buffer_size fuel 0 r w"

fun buffered_copy_crc_loop ::
    "'s reading \<Rightarrow> 'w write_all \<Rightarrow> usize \<Rightarrow> nat \<Rightarrow> u64 \<Rightarrow> bytes \<Rightarrow> 's \<Rightarrow> 'w \<Rightarrow> (u64 \<times> bytes \<times> 's \<times> 'w) io_result" where
  "buffered_copy_crc_loop read write_all buffer_size 0 total_bytes digest r w = OutOfFuel"
| "buffered_copy_crc_loop read write_all buffer_size (Suc fuel) total_bytes digest r w =
     and_then (read r buffer_size) (\<lambda>(buf, r).
     if length buf = 0 then Ok (total_bytes, digest, r, w)
     else
       let digest = digest @ buf in
       and_then (write_all w buf) (\<lambda>w.
       buffered_copy_crc_loop read write_all buffer_size fuel (total_bytes + of_nat (length buf)) digest r w))"

definition buffered_copy_with_crc ::
    "(bytes \<Rightarrow> u32) \<Rightarrow> 's reading \<Rightarrow> 'w write_all \<Rightarrow> nat \<Rightarrow> 's \<Rightarrow> 'w \<Rightarrow> usize \<Rightarrow> (u64 \<times> u32 \<times> 's \<times> 'w) io_result" where
  "buffered_copy_with_crc crc32 read write_all fuel r w buffer_size =
     and_then (buffered_copy_crc_loop read write_all buffer_size fuel 0 [] r w) (\<lambda>(n, digest, r, w).
       Ok (n, crc32 digest, r, w))"

section \<open>Buffer pools\<close>

text \<open>\<open>BufferPool\<close> and \<open>SyncBufferPool\<close>: their operations run one at a time, under a
  \<open>RefCell\<close> or a \<open>Mutex\<close>. A handle holds its buffer until it is taken out or dropped.\<close>

record buffer_pool =
  bp_buffers :: "bytes list"
  bp_buffer_size :: usize
  bp_max_buffers :: usize

definition pool_new :: "usize \<Rightarrow> usize \<Rightarrow> buffer_pool" where
  "pool_new max_buffers buffer_size =
     \<lparr>bp_buffers = [], bp_buffer_size = clamp buffer_size small_buffer_size max_buffer_size,
      bp_max_buffers = clamp max_buffers 1 256\<rparr>"

definition pool_get :: "buffer_pool \<Rightarrow> bytes option \<times> buffer_pool" where
  "pool_get p =
     (if bp_buffers p = [] then (Some (replicate (bp_buffer_size p) 0), p)
      else (Some (last (bp_buffers p)), p\<lparr>bp_buffers := butlast (bp_buffers p)\<rparr>))"

definition available_count :: "buffer_pool \<Rightarrow> usize" where
  "available_count p = length (bp_buffers p)"

definition pool_default :: buffer_pool where
  "pool_default = pool_new 8 default_buffer_size"

definition return_buffer :: "buffer_pool \<Rightarrow> bytes \<Rightarrow> buffer_pool" where
  "return_buffer p buffer =
     (if length (bp_buffers p) < bp_max_buffers p then p\<lparr>bp_buffers := bp_buffers p @ [buffer]\<rparr> else p)"

definition pooled_into_vec :: "bytes option \<Rightarrow> bytes io_result" where
  "pooled_into_vec handle = (case handle of Some b \<Rightarrow> Ok b | None \<Rightarrow> Panic)"

definition pooled_drop :: "buffer_pool \<Rightarrow> bytes option \<Rightarrow> buffer_pool" where
  "pooled_drop p handle = (case handle of Some b \<Rightarrow> return_buffer p b | None \<Rightarrow> p)"

section \<open>The prefetch queue\<close>

definition default_lookahead_count :: usize where "default_lookahead_count = 4"
definition max_lookahead_count :: usize where "max_lookahead_count = 10000"

record 'a prefetch_hint =
  hint_id :: 'a
  hint_lookahead_index :: usize
  hint_estimated_size :: "u64 option"

definition hint_new :: "'a \<Rightarrow> usize \<Rightarrow> 'a prefetch_hint" where
  "hint_new i n = \<lparr>hint_id = i, hint_lookahead_index = n, hint_estimated_size = None\<rparr>"

definition hint_with_size :: "'a \<Rightarrow> usize \<Rightarrow> u64 \<Rightarrow> 'a prefetch_hint" where
  "hint_with_size i n sz = \<lparr>hint_id = i, hint_lookahead_index = n, hint_estimated_size = Some sz\<rparr>"

text \<open>The callback is its state with the function \<open>on_prefetch_hint\<close>.\<close>

record ('a, 'c) prefetch_queue =
  pq_items :: "'a list"
  pq_current_index :: usize
  pq_lookahead_count :: usize
  pq_callback :: 'c

definition send_hints :: "('c \<Rightarrow> 'a prefetch_hint list \<Rightarrow> 'c) \<Rightarrow> ('a, 'c) prefetch_queue \<Rightarrow> ('a, 'c) prefetch_queue" where
  "send_hints on_prefetch_hint q =
     (let start = pq_current_index q;
          stop = min (usize_add start (pq_lookahead_count q)) (length (pq_items q)) in
      if stop \<le> start then q
      else q\<lparr>pq_callback := on_prefetch_hint (pq_callback q)
               (map (\<lambda>i. hint_new (pq_items q ! (start + i)) i) [0..<stop - start])\<rparr>)"

definition queue_new ::
    "('c \<Rightarrow> 'a prefetch_hint list \<Rightarrow> 'c) \<Rightarrow> 'a list \<Rightarrow> usize \<Rightarrow> 'c \<Rightarrow> ('a, 'c) prefetch_queue" where
  "queue_new on_prefetch_hint items lookahead_count callback =
     send_hints on_prefetch_hint
       \<lparr>pq_items = items, pq_current_index = 0, pq_lookahead_count = clamp lookahead_count 1 max_lookahead_count,
        pq_callback = callback\<rparr>"

definition queue_remaining :: "('a, 'c) prefetch_queue \<Rightarrow> usize" where
  "queue_remaining q = length (pq_items q) - pq_current_index q"

definition set_lookahead_count ::
    "('c \<Rightarrow> 'a prefetch_hint list \<Rightarrow> 'c) \<Rightarrow> ('a, 'c) prefetch_queue \<Rightarrow> usize \<Rightarrow> ('a, 'c) prefetch_queue" where
  "set_lookahead_count on_prefetch_hint q n =
     send_hints on_prefetch_hint (q\<lparr>pq_lookahead_count := clamp n 1 max_lookahead_count\<rparr>)"

definition extend_items ::
    "('c \<Rightarrow> 'a prefetch_hint list \<Rightarrow> 'c) \<Rightarrow> ('a, 'c) prefetch_queue \<Rightarrow> 'a list \<Rightarrow> ('a, 'c) prefetch_queue" where
  "extend_items on_prefetch_hint q items =
     send_hints on_prefetch_hint (q\<lparr>pq_items := pq_items q @ items\<rparr>)"

definition advance ::
    "('c \<Rightarrow> 'a prefetch_hint list \<Rightarrow> 'c) \<Rightarrow> ('a, 'c) prefetch_queue \<Rightarrow> 'a option \<times> ('a, 'c) prefetch_queue" where
  "advance on_prefetch_hint q =
     (if length (pq_items q) \<le> pq_current_index q then (None, q)
      else (Some (pq_items q ! pq_current_index q),
            send_hints on_prefetch_hint (q\<lparr>pq_current_index := pq_current_index q + 1\<rparr>)))"

definition advance_index ::
    "('c \<Rightarrow> 'a prefetch_hint list \<Rightarrow> 'c) \<Rightarrow> ('a, 'c) prefetch_queue \<Rightarrow> usize option \<times> ('a, 'c) prefetch_queue" where
  "advance_index on_prefetch_hint q =
     (if length (pq_items q) \<le> pq_current_index q then (None, q)
      else (Some (pq_current_index q),
            send_hints on_prefetch_hint (q\<lparr>pq_current_index := pq_current_index q + 1\<rparr>)))"

definition queue_get :: "('a, 'c) prefetch_queue \<Rightarrow> usize \<Rightarrow> 'a option" where
  "queue_get q i = (if i < length (pq_items q) then Some (pq_items q ! i) else None)"

text \<open>The slice \<open>items[start..end]\<close> panics when \<open>end\<close> is below \<open>start\<close>.\<close>

definition peek_upcoming :: "('a, 'c) prefetch_queue \<Rightarrow> usize \<Rightarrow> ('e, 'a list) outcome" where
  "peek_upcoming q count =
     (let start = pq_current_index q;
          stop = min (usize_add start count) (length (pq_items q)) in
      if stop < start then Panic
      else Ok (take (stop - start) (drop start (pq_items q))))"

section \<open>Statistics\<close>

record compression_stats =
  st_file_count :: u64
  st_total_uncompressed_bytes :: u64
  st_total_compressed_bytes :: u64
  st_total_duration_nanos :: u64
  st_small_file_count :: u64
  st_medium_file_count :: u64
  st_large_file_count :: u64

definition stats_new :: compression_stats where
  "stats_new = \<lparr>st_file_count = 0, st_total_uncompressed_bytes = 0, st_total_compressed_bytes = 0,
     st_total_duration_nanos = 0, st_small_file_count = 0, st_medium_file_count = 0, st_large_file_count = 0\<rparr>"

text \<open>A \<open>Duration\<close> is its number of nanoseconds.\<close>

definition record_file :: "compression_stats \<Rightarrow> u64 \<Rightarrow> u64 \<Rightarrow> nat \<Rightarrow> compression_stats" where
  "record_file s uncompressed compressed duration =
     (let s = s\<lparr>st_file_count := st_file_count s + 1,
          st_total_uncompressed_bytes := st_total_uncompressed_bytes s + uncompressed,
          st_total_compressed_bytes := st_total_compressed_bytes s + compressed,
          st_total_duration_nanos := st_total_duration_nanos s + of_nat duration\<rparr> in
      if uncompressed < of_nat small_buffer_size then s\<lparr>st_small_file_count := st_small_file_count s + 1\<rparr>
      else if uncompressed < of_nat xlarge_buffer_size then s\<lparr>st_medium_file_count := st_medium_file_count s + 1\<rparr>
      else s\<lparr>st_large_file_count := st_large_file_count s + 1\<rparr>)"

definition average_file_size :: "compression_stats \<Rightarrow> u64" where
  "average_file_size s = (if st_file_count s = 0 then 0 else st_total_uncompressed_bytes s div st_file_count s)"

definition average_duration_per_file :: "compression_stats \<Rightarrow> nat" where
  "average_duration_per_file s =
     (if st_file_count s = 0 then 0 else unat (st_total_duration_nanos s div st_file_count s))"

definition stats_reset :: "compression_stats \<Rightarrow> compression_stats" where
  "stats_reset s = stats_new"

definition stats_merge :: "compression_stats \<Rightarrow> compression_stats \<Rightarrow> compression_stats" where
  "stats_merge s t =
     \<lparr>st_file_count = st_file_count s + st_file_count t,
      st_total_uncompressed_bytes = st_total_uncompressed_bytes s + st_total_uncompressed_bytes t,
      st_total_compressed_bytes = st_total_compressed_bytes s + st_total_compressed_bytes t,
      st_total_duration_nanos = st_total_duration_nanos s + st_total_duration_nanos t,
      st_small_file_count = st_small_file_count s + st_small_file_count t,
      st_medium_file_count = st_medium_file_count s + st_medium_file_count t,
      st_large_file_count = st_large_file_count s + st_large_file_count t\<rparr>"

section \<open>Thresholds stay in order\<close>

lemma category_buffer: "category_buffer_size (categorize t n) = buffer_size_for t n"
  by (simp add: categorize_def buffer_size_for_def)

text \<open>All presets satisfy \<open>thresholds_ok\<close>, and the builder keeps it, so that no bound it
  passes to \<open>clamp\<close> is out of order.\<close>

definition thresholds_ok :: "file_size_thresholds \<Rightarrow> bool" where
  "thresholds_ok t \<longleftrightarrow> tiny_threshold t \<le> 64 * 1024 \<and> small_threshold t \<le> 1024 * 1024"

lemma presets_ok:
  "thresholds_ok thresholds_default" "thresholds_ok thresholds_for_tiny_files"
  "thresholds_ok thresholds_for_mixed_workload" "thresholds_ok thresholds_for_large_files"
  by (simp_all add: thresholds_ok_def thresholds_default_def thresholds_for_tiny_files_def
      thresholds_for_mixed_workload_def thresholds_for_large_files_def buffer_sizes)

lemma with_tiny_ok: "thresholds_ok t \<Longrightarrow> thresholds_ok (with_tiny_threshold t n)"
  by (auto simp: thresholds_ok_def with_tiny_threshold_def clamp_def not_less)

lemma below_mega: "a \<le> 65536 \<Longrightarrow> a \<le> (1048576 :: u64)" "b \<le> 1048576 \<Longrightarrow> b \<le> (67108864 :: u64)"
  by (erule order_trans, simp)+

lemma with_small_ok:
  "thresholds_ok t \<Longrightarrow> \<exists>t'. with_small_threshold t n = Ok t' \<and> thresholds_ok t'
     \<and> tiny_threshold t' = tiny_threshold t \<and> tiny_threshold t' \<le> small_threshold t'"
  by (auto simp: thresholds_ok_def with_small_threshold_def asserting_clamp_def clamp_def not_less below_mega)

lemma with_medium_ok:
  "thresholds_ok t \<Longrightarrow> \<exists>t'. with_medium_threshold t n = Ok t' \<and> thresholds_ok t'
     \<and> tiny_threshold t' = tiny_threshold t \<and> small_threshold t' = small_threshold t
     \<and> small_threshold t' \<le> medium_threshold t'"
  by (auto simp: thresholds_ok_def with_medium_threshold_def asserting_clamp_def clamp_def not_less below_mega)

text \<open>In order of their names, the three setters give thresholds in order.\<close>

lemma thresholds_built:
  assumes "thresholds_ok t"
  shows "\<exists>t'. (and_then (with_small_threshold (with_tiny_threshold t a) b) (\<lambda>t. with_medium_threshold t c)
         :: ('e, file_size_thresholds) outcome) = Ok t'
     \<and> thresholds_ok t' \<and> tiny_threshold t' \<le> small_threshold t' \<and> small_threshold t' \<le> medium_threshold t'"
proof -
  obtain t1 where t1: "(with_small_threshold (with_tiny_threshold t a) b :: ('e, _) outcome) = Ok t1" "thresholds_ok t1"
      "tiny_threshold t1 \<le> small_threshold t1"
    using with_small_ok [OF with_tiny_ok [OF assms]] by blast
  obtain t2 where "(with_medium_threshold t1 c :: ('e, _) outcome) = Ok t2" "thresholds_ok t2"
      "tiny_threshold t2 = tiny_threshold t1" "small_threshold t2 = small_threshold t1"
      "small_threshold t2 \<le> medium_threshold t2"
    using with_medium_ok [OF t1(2), of c] by blast
  with t1 show ?thesis by simp
qed

section \<open>Copying gives the writer what the reader has\<close>

locale copying =
  src: byte_source read contents ready + snk: byte_sink put write_all flush took
  for read :: "'s reading" and contents and ready
    and put :: "'w writing" and write_all :: "'w write_all" and flush and took
begin

lemma buffered_copy_loop_copies:
  assumes "ready r" and "took w d" and "0 < n" and "length (contents r) < fuel"
  shows "\<exists>r' w'. buffered_copy_loop read write_all n fuel t r w
       = Ok (t + of_nat (length (contents r)), r', w') \<and> took w' (d @ contents r)"
  using assms
proof (induction fuel arbitrary: t r w d)
  case (Suc fuel)
  obtain bs r' where rd: "read r n = Ok (bs, r')" using src.total [OF Suc.prems(1)] by blast
  note nb = src.next_bytes [OF Suc.prems(1) rd]
  show ?case
  proof (cases "bs = []")
    case True
    with src.end_only [OF Suc.prems(1)] rd Suc.prems(2,3) show ?thesis by simp
  next
    case False
    obtain w' where w': "write_all w bs = Ok w'" "took w' (d @ bs)"
      using snk.write_every [OF Suc.prems(2)] by blast
    have "length (contents r') < fuel" using nb False Suc.prems(4) by (cases bs) auto
    with Suc.IH [of r' w' "d @ bs" "t + of_nat (length bs)"] nb w' Suc.prems(3) False rd show ?thesis
      by (auto simp: algebra_simps)
  qed
qed simp

lemma buffered_copy_crc_loop_copies:
  assumes "ready r" and "took w d" and "0 < n" and "length (contents r) < fuel"
  shows "\<exists>r' w'. buffered_copy_crc_loop read write_all n fuel t g r w
       = Ok (t + of_nat (length (contents r)), g @ contents r, r', w') \<and> took w' (d @ contents r)"
  using assms
proof (induction fuel arbitrary: t g r w d)
  case (Suc fuel)
  obtain bs r' where rd: "read r n = Ok (bs, r')" using src.total [OF Suc.prems(1)] by blast
  note nb = src.next_bytes [OF Suc.prems(1) rd]
  show ?case
  proof (cases "bs = []")
    case True
    with src.end_only [OF Suc.prems(1)] rd Suc.prems(2,3) show ?thesis by simp
  next
    case False
    obtain w' where w': "write_all w bs = Ok w'" "took w' (d @ bs)"
      using snk.write_every [OF Suc.prems(2)] by blast
    have "length (contents r') < fuel" using nb False Suc.prems(4) by (cases bs) auto
    with Suc.IH [of r' w' "d @ bs" "t + of_nat (length bs)" "g @ bs"] nb w' Suc.prems(3) False rd show ?thesis
      by (auto simp: algebra_simps Let_def)
  qed
qed simp

end

interpretation slice_to_vec: copying slice_read "\<lambda>s. s" "\<lambda>s. True" vec_write vec_write_all vec_flush "(=)"
  by unfold_locales

section \<open>Pools stay bounded\<close>

text \<open>The clients of a pool: they get handles, drop them and take vectors out of them. A handle is
  used like a vector: a client may change its bytes and its length as it likes. The state is the
  pool with the handles in use; the lengths that clients gave to their buffers are noted.\<close>

inductive pool_step :: "buffer_pool \<times> bytes option list \<Rightarrow> usize list \<Rightarrow> buffer_pool \<times> bytes option list \<Rightarrow> bool" where
  pool_take: "pool_get p = (h, p') \<Longrightarrow> pool_step (p, hs) [] (p', h # hs)"
| pool_fill: "i < length hs \<Longrightarrow> hs ! i = Some b \<Longrightarrow> pool_step (p, hs) [length b'] (p, hs[i := Some b'])"
| pool_into_vec: "i < length hs \<Longrightarrow> pooled_into_vec (hs ! i) = Ok b \<Longrightarrow>
     pool_step (p, hs) [] (p, take i hs @ drop (Suc i) hs)"
| pool_drop: "i < length hs \<Longrightarrow> pool_step (p, hs) [] (pooled_drop p (hs ! i), take i hs @ drop (Suc i) hs)"

inductive pool_reachable :: "buffer_pool \<Rightarrow> usize list \<Rightarrow> buffer_pool \<times> bytes option list \<Rightarrow> bool" for p0 where
  pool_start: "pool_reachable p0 [] (p0, [])"
| pool_next: "pool_reachable p0 ls s \<Longrightarrow> pool_step s ls' s' \<Longrightarrow> pool_reachable p0 (ls @ ls') s'"

inductive_cases pool_stepE: "pool_step (p, hs) ls s'"

definition pool_ok :: "usize \<Rightarrow> usize \<Rightarrow> usize set \<Rightarrow> buffer_pool \<times> bytes option list \<Rightarrow> bool" where
  "pool_ok m n N s \<longleftrightarrow> bp_max_buffers (fst s) = m \<and> bp_buffer_size (fst s) = n \<and> n \<in> N
     \<and> length (bp_buffers (fst s)) \<le> m \<and> (\<forall>b\<in>set (bp_buffers (fst s)). length b \<in> N)
     \<and> (\<forall>h\<in>set (snd s). \<exists>b. h = Some b \<and> length b \<in> N)"

lemma set_without: "set (take i xs @ drop (Suc i) xs) \<subseteq> set xs"
  by (auto dest: in_set_takeD in_set_dropD)

lemma pool_ok_more: "pool_ok m n N s \<Longrightarrow> N \<subseteq> N' \<Longrightarrow> pool_ok m n N' s"
  by (fastforce simp: pool_ok_def)

lemma pool_ok_get: "pool_ok m n N (p, hs) \<Longrightarrow> pool_get p = (h, p') \<Longrightarrow> pool_ok m n N (p', h # hs)"
  by (auto simp: pool_ok_def pool_get_def split: if_splits dest!: in_set_butlastD)

lemma pool_ok_return:
  "pool_ok m n N (p, hs) \<Longrightarrow> length b \<in> N \<Longrightarrow> set hs' \<subseteq> set hs \<Longrightarrow> pool_ok m n N (return_buffer p b, hs')"
  by (auto simp: pool_ok_def return_buffer_def)

lemma pool_ok_step: "pool_step s ls s' \<Longrightarrow> pool_ok m n N s \<Longrightarrow> pool_ok m n (N \<union> set ls) s'"
proof (induction rule: pool_step.induct)
  case (pool_take p h p' hs)
  then show ?case using pool_ok_get by simp
next
  case (pool_fill i hs b p b')
  have "pool_ok m n (N \<union> {length b'}) (p, hs)" by (rule pool_ok_more [OF pool_fill(3)]) blast
  then show ?case by (auto simp: pool_ok_def dest!: set_update_subset_insert [THEN subsetD])
next
  case (pool_into_vec i hs b p)
  then show ?case using set_without [of i hs] by (auto simp: pool_ok_def simp del: set_append)
next
  case (pool_drop i hs p)
  have "hs ! i \<in> set hs" using pool_drop(1) by (rule nth_mem)
  with pool_drop(2) obtain b where "hs ! i = Some b" "length b \<in> N" by (fastforce simp: pool_ok_def)
  with pool_drop pool_ok_return [of m n N p hs b] set_without [of i hs] show ?case
    by (simp add: pooled_drop_def del: set_append)
qed

lemma pool_ok_reachable:
  "pool_reachable (pool_new m n) ls s \<Longrightarrow> pool_ok (clamp m 1 256) (clamp n small_buffer_size max_buffer_size)
     (insert (clamp n small_buffer_size max_buffer_size) (set ls)) s"
proof (induction rule: pool_reachable.induct)
  case pool_start
  show ?case unfolding pool_ok_def pool_new_def by simp
next
  case (pool_next ls s ls' s')
  from pool_ok_step [OF pool_next(2,3)] show ?case by simp
qed

section \<open>The queue gives the items in order\<close>

lemma send_hints_keeps [simp]:
  "pq_items (send_hints f q) = pq_items q" "pq_current_index (send_hints f q) = pq_current_index q"
  "pq_lookahead_count (send_hints f q) = pq_lookahead_count q"
  by (simp_all add: send_hints_def Let_def)

text \<open>The hints are the items of the window from the current index on.\<close>

lemma send_hints_window:
  assumes "pq_current_index q < length (pq_items q)" and "0 < pq_lookahead_count q"
    and "pq_current_index q + pq_lookahead_count q < 2 ^ 64"
  shows "\<exists>hints. pq_callback (send_hints f q) = f (pq_callback q) hints
     \<and> map hint_id hints = take (pq_lookahead_count q) (drop (pq_current_index q) (pq_items q))
     \<and> map hint_lookahead_index hints = [0..<min (pq_lookahead_count q) (queue_remaining q)]"
proof -
  let ?n = "min (pq_lookahead_count q) (queue_remaining q)"
  have stop: "min (usize_add (pq_current_index q) (pq_lookahead_count q)) (length (pq_items q)) - pq_current_index q = ?n"
    using assms by (auto simp: queue_remaining_def)
  have "map (\<lambda>i. pq_items q ! (pq_current_index q + i)) [0..<?n]
      = take (pq_lookahead_count q) (drop (pq_current_index q) (pq_items q))"
    by (rule nth_equalityI) (auto simp: queue_remaining_def)
  with stop assms show ?thesis
    by (auto simp: send_hints_def Let_def hint_new_def o_def)
qed

fun drain :: "('c \<Rightarrow> 'a prefetch_hint list \<Rightarrow> 'c) \<Rightarrow> nat \<Rightarrow> ('a, 'c) prefetch_queue \<Rightarrow> 'a list" where
  "drain f 0 q = []"
| "drain f (Suc n) q = (case advance f q of (None, _) \<Rightarrow> [] | (Some x, q) \<Rightarrow> x # drain f n q)"

lemma drain_drop: "drain f n q = take n (drop (pq_current_index q) (pq_items q))"
proof (induction n arbitrary: q)
  case (Suc n)
  then show ?case
    by (cases "pq_current_index q < length (pq_items q)") (simp_all add: advance_def Cons_nth_drop_Suc [symmetric])
qed simp

section \<open>Statistics are sums\<close>

lemma stats_merge_assoc: "stats_merge (stats_merge a b) c = stats_merge a (stats_merge b c)"
  by (simp add: stats_merge_def add.assoc)

lemma stats_merge_commute: "stats_merge a b = stats_merge b a"
  by (simp add: stats_merge_def add.commute)

lemma stats_merge_new [simp]: "stats_merge stats_new s = s" "stats_merge s stats_new = s"
  by (simp_all add: stats_merge_def stats_new_def)

lemma record_file_merge: "record_file s u c d = stats_merge s (record_file stats_new u c d)"
  by (simp add: record_file_def stats_merge_def stats_new_def Let_def)

definition record_files :: "compression_stats \<Rightarrow> (u64 \<times> u64 \<times> nat) list \<Rightarrow> compression_stats" where
  "record_files = foldl (\<lambda>s (u, c, d). record_file s u c d)"

lemma record_files_merge: "record_files s fs = stats_merge s (record_files stats_new fs)"
proof (induction fs rule: rev_induct)
  case (snoc f fs)
  obtain u c d where "f = (u, c, d)" by (cases f)
  with snoc show ?case
    by (simp add: record_files_def) (metis record_file_merge stats_merge_assoc)
qed (simp add: record_files_def)

lemma record_files_append:
  "record_files stats_new (fs @ gs) = stats_merge (record_files stats_new fs) (record_files stats_new gs)"
  using record_files_merge [of "record_files stats_new fs" gs] by (simp add: record_files_def)

end
