(* ===== verification/Providers.thy ===== *)
theory Providers
  imports Perf
begin

text \<open>
  What the archive writer is given beside its readers: progress callbacks
  (\<^verbatim>\<open>src/src/writer/progress.rs\<close>) and the providers of streams for solid blocks with their
  configuration (\<^verbatim>\<open>src/src/writer/parallel_provider.rs\<close>). A callback is its state with the
  function \<open>on_progress\<close>; a provider is its state with the functions of \<open>provider_ops\<close>.
\<close>

section \<open>Progress (progress.rs)\<close>

record progress_info =
  pg_bytes_read :: u64
  pg_bytes_written :: u64
  pg_current_entry :: "rstring option"
  pg_entry_index :: usize
  pg_total_entries :: "usize option"

definition progress_new :: "u64 \<Rightarrow> u64 \<Rightarrow> progress_info" where
  "progress_new r w = \<lparr>pg_bytes_read = r, pg_bytes_written = w, pg_current_entry = None,
     pg_entry_index = 0, pg_total_entries = None\<rparr>"

definition progress_with_entry :: "progress_info \<Rightarrow> rstring \<Rightarrow> progress_info" where
  "progress_with_entry p n = p\<lparr>pg_current_entry := Some n\<rparr>"

definition progress_with_index :: "progress_info \<Rightarrow> usize \<Rightarrow> progress_info" where
  "progress_with_index p i = p\<lparr>pg_entry_index := i\<rparr>"

definition progress_with_total :: "progress_info \<Rightarrow> usize \<Rightarrow> progress_info" where
  "progress_with_total p n = p\<lparr>pg_total_entries := Some n\<rparr>"

datatype progress_result = Continue | Cancel

type_synonym 'p on_progress = "'p \<Rightarrow> progress_info \<Rightarrow> progress_result \<times> 'p"

definition noop_progress :: "'p on_progress" where
  "noop_progress p info = (Continue, p)"

section \<open>Stream providers (parallel_provider.rs)\<close>

record ('p, 's) provider_ops =
  pv_prepare_streams :: "'p \<Rightarrow> u32 list \<Rightarrow> 'p"
  pv_try_get_stream :: "'p \<Rightarrow> u32 \<Rightarrow> 's option \<times> 'p"
  pv_get_stream_blocking :: "'p \<Rightarrow> u32 \<Rightarrow> 's option \<times> 'p"
  pv_parallelism :: "'p \<Rightarrow> usize"
  pv_stream_count :: "'p \<Rightarrow> usize option"
  pv_cancel :: "'p \<Rightarrow> 'p"

definition default_parallel_batch_size :: usize where "default_parallel_batch_size = 64"
definition min_parallel_batch_size :: usize where "min_parallel_batch_size = 1"
definition max_parallel_batch_size :: usize where "max_parallel_batch_size = 1024"

record vec_provider =
  vp_data :: "bytes option list"
  vp_max_parallelism :: usize

definition vec_provider_new :: "bytes list \<Rightarrow> vec_provider" where
  "vec_provider_new xs =
     \<lparr>vp_data = map Some xs, vp_max_parallelism = min (length xs) default_parallel_batch_size\<rparr>"

definition vec_provider_with_parallelism :: "bytes list \<Rightarrow> usize \<Rightarrow> vec_provider" where
  "vec_provider_with_parallelism xs parallelism =
     \<lparr>vp_data = map Some xs,
      vp_max_parallelism = min (clamp parallelism min_parallel_batch_size max_parallel_batch_size) (length xs)\<rparr>"

text \<open>A \<open>Cursor\<close> on a vector reads as the slice of the vector.\<close>

definition vec_try_get_stream :: "vec_provider \<Rightarrow> u32 \<Rightarrow> bytes option \<times> vec_provider" where
  "vec_try_get_stream p i =
     (let idx = unat i in
      if idx < length (vp_data p) then (vp_data p ! idx, p\<lparr>vp_data := (vp_data p)[idx := None]\<rparr>)
      else (None, p))"

definition vec_provider_ops :: "(vec_provider, bytes) provider_ops" where
  "vec_provider_ops =
     \<lparr>pv_prepare_streams = (\<lambda>p indices. p), pv_try_get_stream = vec_try_get_stream,
      pv_get_stream_blocking = vec_try_get_stream, pv_parallelism = vp_max_parallelism,
      pv_stream_count = (\<lambda>p. Some (length (vp_data p))), pv_cancel = (\<lambda>p. p)\<rparr>"

record solid_config =
  so_batch_size :: usize
  so_buffer_size :: usize

definition solid_default :: solid_config where
  "solid_default = \<lparr>so_batch_size = default_parallel_batch_size, so_buffer_size = default_buffer_size\<rparr>"

definition solid_with_batch_size :: "solid_config \<Rightarrow> usize \<Rightarrow> solid_config" where
  "solid_with_batch_size c n = c\<lparr>so_batch_size := clamp n min_parallel_batch_size max_parallel_batch_size\<rparr>"

definition solid_with_buffer_size :: "solid_config \<Rightarrow> usize \<Rightarrow> solid_config" where
  "solid_with_buffer_size c n = c\<lparr>so_buffer_size := clamp n small_buffer_size max_buffer_size\<rparr>"

definition solid_high_latency :: solid_config where
  "solid_high_latency = \<lparr>so_batch_size = 128, so_buffer_size = large_buffer_size\<rparr>"

definition solid_low_latency :: solid_config where
  "solid_low_latency = \<lparr>so_batch_size = 16, so_buffer_size = default_buffer_size\<rparr>"

section \<open>The contract of a provider\<close>

text \<open>\<open>offers p i = Some s\<close>: the provider still has the stream \<open>s\<close> at index \<open>i\<close>.\<close>

locale stream_provider =
  fixes P :: "('p, 's) provider_ops"
    and offers :: "'p \<Rightarrow> nat \<Rightarrow> 's option"
  assumes get: "offers p (unat i) = Some s \<Longrightarrow> \<exists>p'. pv_get_stream_blocking P p i = (Some s, p')
         \<and> (\<forall>j. j \<noteq> unat i \<longrightarrow> offers p' j = offers p j)"
    and prepare: "offers (pv_prepare_streams P p is) j = offers p j"
    and enough: "pv_stream_count P p = Some n \<Longrightarrow> offers p j = Some s \<Longrightarrow> j < n"
begin

lemma enough_streams:
  assumes "pv_stream_count P p = Some n" and "\<forall>j<k. offers p j \<noteq> None"
  shows "k \<le> n"
proof (rule ccontr)
  assume "\<not> k \<le> n"
  then have "n < k" by simp
  with assms(2) obtain s where "offers p n = Some s" by blast
  with enough [OF assms(1) this] show False by simp
qed

end

definition vec_offers :: "vec_provider \<Rightarrow> nat \<Rightarrow> bytes option" where
  "vec_offers p j = (if j < length (vp_data p) then vp_data p ! j else None)"

interpretation vec_streams: stream_provider vec_provider_ops vec_offers
  by unfold_locales (auto simp: vec_provider_ops_def vec_offers_def vec_try_get_stream_def Let_def split: if_splits)

end
