(* ===== verification/Aes_Codec.thy ===== *)
theory Aes_Codec
  imports Readers Sinks Encoder_Options
begin

text \<open>
  The encryption of \<^verbatim>\<open>src/src/encryption/aes.rs\<close>: the key derivation, the decoder and the
  encoder. The crates sha2, aes and cbc are parameters. \<open>sha256\<close> is the digest of the
  concatenated updates. A CBC cipher in use is its key, its initialization vector and the
  blocks it has processed, in order; \<open>cbc key iv blocks b\<close> is what it makes of the next block
  \<open>b\<close>. What the code relies on is the predicate \<open>cbc_inverse\<close>.
\<close>

section \<open>Key derivation\<close>

text \<open>The counter \<open>extra\<close>: eight bytes, the first counts fastest.\<close>

fun increment :: "bytes \<Rightarrow> bytes" where
  "increment [] = []"
| "increment (b # bs) = (if b + 1 = 0 then 0 # increment bs else (b + 1) # bs)"

fun kdf_input :: "bytes \<Rightarrow> bytes \<Rightarrow> bytes \<Rightarrow> nat \<Rightarrow> bytes" where
  "kdf_input salt pw extra 0 = []"
| "kdf_input salt pw extra (Suc n) = salt @ pw @ extra @ kdf_input salt pw (increment extra) n"

text \<open>\<open>1u32 << num_cycles_power\<close> takes the shift modulo 32; the code panics where the salt does
  not have the length of the key.\<close>

definition get_aes_key :: "(bytes \<Rightarrow> bytes) \<Rightarrow> bytes \<Rightarrow> password \<Rightarrow> (bytes \<times> bytes) result" where
  "get_aes_key sha256 props pw =
     (if length props = 0 then Err (Other ''AES256 properties too short'')
      else
        let props = (if length props = 1 then [props ! 0, 0] else props);
            b0 = props ! 0;
            num_cycles_power = b0 AND 63;
            b1 = props ! 1;
            iv_size = unat ((drop_bit 6 b0 AND 1) + (b1 AND 15));
            salt_size = unat ((drop_bit 7 b0 AND 1) + drop_bit 4 b1) in
        if length props < 2 + salt_size + iv_size then Err (Other ''Salt size + IV size too long'')
        else
          let salt = take salt_size (drop 2 props);
              iv_bytes = take iv_size (drop (2 + salt_size) props);
              iv = iv_bytes @ replicate (16 - iv_size) 0 in
          if pw = [] then Err PasswordRequired
          else if num_cycles_power = 0x3F then
            if salt_size \<noteq> 32 then Panic else Ok (salt, iv)
          else
            Ok (sha256 (kdf_input salt pw (replicate 8 0) (2 ^ (unat num_cycles_power mod 32))), iv))"

section \<open>Ciphers\<close>

type_synonym cbc = "bytes \<Rightarrow> bytes \<Rightarrow> bytes list \<Rightarrow> bytes \<Rightarrow> bytes"

record cipher =
  ci_key :: bytes
  ci_iv :: bytes
  ci_blocks :: "bytes list"

definition cipher_new :: "bytes \<times> bytes \<Rightarrow> cipher" where
  "cipher_new k = \<lparr>ci_key = fst k, ci_iv = snd k, ci_blocks = []\<rparr>"

definition next_block :: "cbc \<Rightarrow> cipher \<Rightarrow> bytes \<Rightarrow> bytes \<times> cipher" where
  "next_block cbc c b =
     (cbc (ci_key c) (ci_iv c) (ci_blocks c) b, c\<lparr>ci_blocks := ci_blocks c @ [b]\<rparr>)"

section \<open>The decoder\<close>

record 's aes_decoder =
  ad_cipher :: cipher
  ad_buf :: bytes
  ad_input :: 's
  ad_done :: bool
  ad_obuffer :: bytes
  ad_ostart :: usize
  ad_ofinish :: usize
  ad_pos :: usize

definition aes_decoder_new ::
    "(bytes \<Rightarrow> bytes) \<Rightarrow> 's \<Rightarrow> bytes \<Rightarrow> password \<Rightarrow> 's aes_decoder result" where
  "aes_decoder_new sha256 s props pw =
     and_then (get_aes_key sha256 props pw) (\<lambda>k.
     Ok \<lparr>ad_cipher = cipher_new k, ad_buf = [], ad_input = s, ad_done = False, ad_obuffer = [],
         ad_ostart = 0, ad_ofinish = 0, ad_pos = 0\<rparr>)"

text \<open>The loop of \<open>Cipher::update\<close> over \<open>chunks_mut(16)\<close>: the output, the incomplete last
  chunk and the cipher.\<close>

function update_chunks :: "cbc \<Rightarrow> cipher \<Rightarrow> bytes \<Rightarrow> bytes \<times> bytes \<times> cipher" where
  "update_chunks cbc c bs =
     (if length bs < 16 then ([], bs, c)
      else
        case next_block cbc c (take 16 bs) of (out, c') \<Rightarrow>
        case update_chunks cbc c' (drop 16 bs) of (outs, rest, c'') \<Rightarrow> (out @ outs, rest, c''))"
  by pat_completeness auto
termination
  by (relation "measure (\<lambda>(cbc, c, bs). length bs)") auto

declare update_chunks.simps [simp del]

text \<open>A pending part block is completed first; slicing fails when the data cannot do it.\<close>

definition cipher_update :: "cbc \<Rightarrow> cipher \<Rightarrow> bytes \<Rightarrow> bytes \<Rightarrow> (bytes \<times> bytes \<times> cipher) io_result" where
  "cipher_update cbc c buf bs =
     (if buf \<noteq> [] then
        if 16 \<le> length buf then Panic
        else if length bs < 16 - length buf then Panic
        else
          case next_block cbc c (buf @ take (16 - length buf) bs) of (out, c) \<Rightarrow>
          case update_chunks cbc c (drop (16 - length buf) bs) of (outs, rest, c) \<Rightarrow>
            Ok (out @ outs, rest, c)
      else Ok (update_chunks cbc c bs))"

definition do_final :: "bytes \<Rightarrow> usize io_result" where
  "do_final buf = (if buf = [] then Ok 0 else Err (Io_simple InvalidData ''IllegalBlockSize''))"

definition get_more_data :: "cbc \<Rightarrow> 's reading \<Rightarrow> 's aes_decoder \<Rightarrow> (usize \<times> 's aes_decoder) io_result" where
  "get_more_data cbc read d =
     (if ad_done d then Ok (0, d)
      else
        let d = d\<lparr>ad_ofinish := 0, ad_ostart := 0, ad_obuffer := []\<rparr> in
        and_then (read (ad_input d) 512) (\<lambda>(bs, s).
        let d = d\<lparr>ad_input := s\<rparr> in
        if length bs = 0 then
          let d = d\<lparr>ad_done := True\<rparr> in
          and_then (do_final (ad_buf d)) (\<lambda>n. Ok (n, d\<lparr>ad_ofinish := n\<rparr>))
        else
          and_then (cipher_update cbc (ad_cipher d) (ad_buf d) bs) (\<lambda>(out, rest, c).
          Ok (length out, d\<lparr>ad_cipher := c, ad_buf := rest, ad_obuffer := out, ad_ofinish := length out\<rparr>))))"

text \<open>\<open>while n == 0 && !self.done\<close>: fetch until there is something or the input ends. A chunk
  that yields nothing is kept, and the next one completes its block, so two rounds are enough
  unless the input ends; the fuel counts the rounds.\<close>

fun more_data_loop :: "cbc \<Rightarrow> 's reading \<Rightarrow> nat \<Rightarrow> 's aes_decoder \<Rightarrow> (usize \<times> 's aes_decoder) io_result" where
  "more_data_loop cbc read 0 d = OutOfFuel"
| "more_data_loop cbc read (Suc fuel) d =
     and_then (get_more_data cbc read d) (\<lambda>(n, d).
       if n = 0 \<and> \<not> ad_done d then more_data_loop cbc read fuel d else Ok (n, d))"

definition aes_read :: "cbc \<Rightarrow> 's reading \<Rightarrow> 's aes_decoder reading" where
  "aes_read cbc read d n =
     (let serve = (\<lambda>d.
            if n = 0 then Ok ([], d)
            else
              let sz = min (ad_ofinish d - ad_ostart d) n in
              Ok (take sz (drop (ad_ostart d) (ad_obuffer d)),
                  d\<lparr>ad_ostart := ad_ostart d + sz, ad_pos := usize_add (ad_pos d) sz\<rparr>)) in
      if ad_ofinish d \<le> ad_ostart d then
        and_then (more_data_loop cbc read 3 d) (\<lambda>(k, d). if k = 0 then Ok ([], d) else serve d)
      else serve d)"

section \<open>The encoder\<close>

text \<open>\<open>Aes256Sha256Encoder\<close> without its output, which is passed beside it.\<close>

record aes_encoder =
  ae_cipher :: cipher
  ae_buffer :: bytes
  ae_finished :: bool
  ae_write_size :: u32

definition aes_encoder_new :: "(bytes \<Rightarrow> bytes) \<Rightarrow> aes_options \<Rightarrow> aes_encoder result" where
  "aes_encoder_new sha256 opts =
     and_then (get_aes_key sha256 (aes_properties opts) (aes_password opts)) (\<lambda>k.
     Ok \<lparr>ae_cipher = cipher_new k, ae_buffer = [], ae_finished = False, ae_write_size = 0\<rparr>)"

definition aes_write_block ::
    "cbc \<Rightarrow> 'w write_all \<Rightarrow> aes_encoder \<times> 'w \<Rightarrow> bytes \<Rightarrow> (aes_encoder \<times> 'w) io_result" where
  "aes_write_block cbc write_all x b =
     (case next_block cbc (ae_cipher (fst x)) b of (out, c) \<Rightarrow>
        and_then (write_all (snd x) out) (\<lambda>w.
        Ok ((fst x)\<lparr>ae_cipher := c, ae_write_size := ae_write_size (fst x) + of_nat (length b)\<rparr>, w)))"

text \<open>The loop of \<open>write\<close> over \<open>chunks(16)\<close>.\<close>

function aes_write_chunks ::
    "cbc \<Rightarrow> 'w write_all \<Rightarrow> aes_encoder \<times> 'w \<Rightarrow> bytes \<Rightarrow> (aes_encoder \<times> 'w) io_result" where
  "aes_write_chunks cbc write_all x bs =
     (if length bs < 16 then Ok ((fst x)\<lparr>ae_buffer := ae_buffer (fst x) @ bs\<rparr>, snd x)
      else
        and_then (aes_write_block cbc write_all x (take 16 bs)) (\<lambda>x.
        aes_write_chunks cbc write_all x (drop 16 bs)))"
  by pat_completeness auto
termination
  by (relation "measure (\<lambda>(cbc, write_all, x, bs). length bs)") auto

declare aes_write_chunks.simps [simp del]

text \<open>\<open>flush\<close> pads the last block, but only once the encoder is finished.\<close>

definition aes_flush :: "cbc \<Rightarrow> 'w write_all \<Rightarrow> (aes_encoder \<times> 'w) flushing" where
  "aes_flush cbc write_all x =
     (if ae_buffer (fst x) \<noteq> [] \<and> ae_finished (fst x) then
        if 16 \<le> length (ae_buffer (fst x)) then Panic
        else
          and_then (aes_write_block cbc write_all x
              (ae_buffer (fst x) @ replicate (16 - length (ae_buffer (fst x))) 0)) (\<lambda>(e, w).
          Ok (e\<lparr>ae_buffer := []\<rparr>, w))
      else Ok x)"

definition aes_write ::
    "cbc \<Rightarrow> 'w writing \<Rightarrow> 'w write_all \<Rightarrow> (aes_encoder \<times> 'w) writing" where
  "aes_write cbc put write_all x buf =
     (let e = fst x in
      if ae_finished e \<and> buf \<noteq> [] then Ok (0, x)
      else if buf = [] then
        and_then (aes_flush cbc write_all (e\<lparr>ae_finished := True\<rparr>, snd x)) (\<lambda>(e, w).
        and_then (put w buf) (\<lambda>(n, w). Ok (n, e, w)))
      else if ae_buffer e \<noteq> [] then
        if 16 \<le> length (ae_buffer e) then Panic
        else if 16 \<le> length buf + length (ae_buffer e) then
          let k = 16 - length (ae_buffer e) in
          and_then (aes_write_block cbc write_all x (ae_buffer e @ take k buf)) (\<lambda>(e, w).
          and_then (aes_write_chunks cbc write_all (e\<lparr>ae_buffer := []\<rparr>, w) (drop k buf)) (\<lambda>x.
          Ok (length buf, x)))
        else Ok (length buf, e\<lparr>ae_buffer := ae_buffer e @ buf\<rparr>, snd x)
      else
        and_then (aes_write_chunks cbc write_all x buf) (\<lambda>x. Ok (length buf, x)))"

section \<open>What the cipher makes of a stream\<close>

function chunks16 :: "bytes \<Rightarrow> bytes list" where
  "chunks16 bs = (if bs = [] then [] else take 16 bs # chunks16 (drop 16 bs))"
  by pat_completeness auto
termination
  by (relation "measure length") auto

declare chunks16.simps [simp del]

fun run_cbc :: "cbc \<Rightarrow> bytes \<Rightarrow> bytes \<Rightarrow> bytes list \<Rightarrow> bytes list \<Rightarrow> bytes list" where
  "run_cbc cbc key iv prev [] = []"
| "run_cbc cbc key iv prev (b # bs) = cbc key iv prev b # run_cbc cbc key iv (prev @ [b]) bs"

definition cbc_stream :: "cbc \<Rightarrow> bytes \<Rightarrow> bytes \<Rightarrow> bytes \<Rightarrow> bytes" where
  "cbc_stream cbc key iv bs = concat (run_cbc cbc key iv [] (chunks16 bs))"

definition padded :: "bytes \<Rightarrow> bytes" where
  "padded bs = bs @ replicate ((16 - length bs mod 16) mod 16) 0"

text \<open>What is relied on of the crates aes and cbc: a block has 16 bytes, and decrypting with the
  encrypted blocks before it undoes encrypting with the plain blocks before it.\<close>

definition cbc_inverse :: "cbc \<Rightarrow> cbc \<Rightarrow> bool" where
  "cbc_inverse enc dec \<longleftrightarrow>
     (\<forall>key iv prev b. length (dec key iv prev b) = 16 \<and> length (enc key iv prev b) = 16 \<and>
        (length b = 16 \<longrightarrow> dec key iv (run_cbc enc key iv [] prev) (enc key iv prev b) = b))"

lemma chunks16_Nil [simp]: "chunks16 [] = []"
  by (simp add: chunks16.simps)

lemma chunks16_single: "0 < length bs \<Longrightarrow> length bs \<le> 16 \<Longrightarrow> chunks16 bs = [bs]"
  by (subst chunks16.simps) auto

lemma chunks16_append: "16 dvd length q \<Longrightarrow> chunks16 (q @ r) = chunks16 q @ chunks16 r"
proof (induction q rule: chunks16.induct)
  case (1 q)
  show ?case
  proof (cases "q = []")
    case False
    with "1.prems" have "16 \<le> length q" by (auto dest: dvd_imp_le)
    with "1.prems" have "16 dvd length (drop 16 q)" by (simp add: dvd_diff_nat)
    from "1.IH" [OF False this] False \<open>16 \<le> length q\<close> show ?thesis
      by (subst chunks16.simps, subst (2) chunks16.simps) simp
  qed simp
qed

lemma chunks16_take: "16 \<le> length bs \<Longrightarrow> chunks16 bs = take 16 bs # chunks16 (drop 16 bs)"
  by (subst chunks16.simps) auto

lemma concat_chunks16 [simp]: "concat (chunks16 bs) = bs"
  by (induction bs rule: chunks16.induct) (subst chunks16.simps, auto)

lemma chunks16_concat:
  "list_all (\<lambda>b. length b = 16) bs \<Longrightarrow> chunks16 (concat bs) = bs"
  by (induction bs) (auto simp: chunks16_append chunks16_single)

lemma length_chunks16: "16 dvd length bs \<Longrightarrow> list_all (\<lambda>b. length b = 16) (chunks16 bs)"
proof (induction bs rule: chunks16.induct)
  case (1 bs)
  show ?case
  proof (cases "bs = []")
    case False
    with "1.prems" have "16 \<le> length bs" by (auto dest: dvd_imp_le)
    with "1.prems" have "16 dvd length (drop 16 bs)" by (simp add: dvd_diff_nat)
    from "1.IH" [OF False this] \<open>16 \<le> length bs\<close> show ?thesis by (simp add: chunks16_take)
  qed simp
qed

lemma run_cbc_append:
  "run_cbc cbc key iv prev (xs @ ys) = run_cbc cbc key iv prev xs @ run_cbc cbc key iv (prev @ xs) ys"
  by (induction xs arbitrary: prev) simp_all

lemma length_run_cbc [simp]: "length (run_cbc cbc key iv prev xs) = length xs"
  by (induction xs arbitrary: prev) simp_all

lemma cbc_stream_append:
  "16 dvd length q \<Longrightarrow>
   cbc_stream cbc key iv (q @ r) = cbc_stream cbc key iv q @ concat (run_cbc cbc key iv (chunks16 q) (chunks16 r))"
  by (simp add: cbc_stream_def chunks16_append run_cbc_append)

lemma length_padded: "16 dvd length (padded bs)"
proof -
  have below: "length bs mod 16 < 16" by simp
  have "(length bs + (16 - length bs mod 16) mod 16) mod 16 = (length bs + (16 - length bs mod 16)) mod 16"
    by (rule mod_add_right_eq)
  also have "length bs + (16 - length bs mod 16) = 16 * (length bs div 16 + 1)"
    using div_mult_mod_eq [of "length bs" 16] below by arith
  also have "\<dots> mod 16 = 0" by simp
  finally show ?thesis by (simp add: padded_def mod_eq_0_iff_dvd)
qed

lemma take_padded: "take (length bs) (padded bs) = bs"
  by (simp add: padded_def)

lemma padded_append: "16 dvd length q \<Longrightarrow> padded (q @ r) = q @ padded r"
proof -
  assume "16 dvd length q"
  then obtain k where "length q = 16 * k" by blast
  then show ?thesis by (simp add: padded_def)
qed

text \<open>Decrypting what was encrypted.\<close>

lemma run_cbc_inverse:
  assumes inv: "cbc_inverse enc dec"
  shows "list_all (\<lambda>b. length b = 16) bs \<Longrightarrow>
    run_cbc dec key iv (run_cbc enc key iv [] prev) (run_cbc enc key iv prev bs) = bs"
proof (induction bs arbitrary: prev)
  case (Cons b bs)
  have "run_cbc enc key iv [] prev @ [enc key iv prev b] = run_cbc enc key iv [] (prev @ [b])"
    by (simp add: run_cbc_append)
  with Cons.IH [of "prev @ [b]"] Cons.prems inv show ?case by (simp add: cbc_inverse_def)
qed simp

lemma run_cbc_lengths:
  "cbc_inverse enc dec \<Longrightarrow> list_all (\<lambda>b. length b = 16) (run_cbc enc key iv prev bs)"
  by (induction bs arbitrary: prev) (auto simp: cbc_inverse_def)

lemma cbc_stream_inverse:
  assumes inv: "cbc_inverse enc dec" and "16 dvd length bs"
  shows "cbc_stream dec key iv (cbc_stream enc key iv bs) = bs"
  using run_cbc_inverse [OF inv length_chunks16 [OF assms(2)], of key iv "[]"] run_cbc_lengths [OF inv]
  by (simp add: cbc_stream_def chunks16_concat)

section \<open>The key derivation counts\<close>

text \<open>The counter in the digested input is the number of the round, in little-endian order.\<close>

fun nat_bytes :: "nat \<Rightarrow> nat \<Rightarrow> bytes" where
  "nat_bytes 0 k = []"
| "nat_bytes (Suc n) k = of_nat k # nat_bytes n (k div 256)"

lemma of_nat_wraps: "(of_nat k + 1 :: u8) = 0 \<longleftrightarrow> k mod 256 = 255"
proof -
  have "(of_nat k + 1 :: u8) = 0 \<longleftrightarrow> (of_nat (k + 1) :: u8) = 0" by (simp add: add.commute)
  also have "\<dots> \<longleftrightarrow> 256 dvd k + 1" by (simp only: word_of_nat_eq_0_iff) simp
  also have "\<dots> \<longleftrightarrow> k mod 256 = 255" by (simp add: mod_eq_0_iff_dvd [symmetric] mod_Suc)
  finally show ?thesis .
qed

lemma increment_nat_bytes: "increment (nat_bytes n k) = nat_bytes n (k + 1)"
proof (induction n arbitrary: k)
  case (Suc n)
  have "k mod 256 = 255 \<Longrightarrow> (k + 1) div 256 = k div 256 + 1" "k mod 256 \<noteq> 255 \<Longrightarrow> (k + 1) div 256 = k div 256"
    by (simp_all add: div_Suc mod_Suc)
  moreover have "(of_nat (k + 1) :: u8) = of_nat k + 1" by (simp add: add.commute)
  ultimately show ?case using Suc [of "k div 256"] of_nat_wraps [of k] by (auto simp: add.commute)
qed simp

lemma to_le_nat_bytes: "to_le_bytes n w = nat_bytes n (unat w)"
proof (induction n arbitrary: w)
  case (Suc n)
  have "unat (drop_bit 8 w) = unat w div 256" by (simp only: unat_drop_bit_eq) (simp only: drop_bit_eq_div, simp)
  with Suc [of "drop_bit 8 w"] show ?case by simp
qed simp

lemma kdf_input_rounds:
  "kdf_input salt pw (nat_bytes 8 k) n = concat (map (\<lambda>i. salt @ pw @ nat_bytes 8 i) [k..<k + n])"
proof (induction n arbitrary: k)
  case (Suc n)
  have "[k..<k + Suc n] = k # [Suc k..<Suc k + n]" by (simp add: upt_conv_Cons)
  with Suc [of "k + 1"] show ?case by (simp add: increment_nat_bytes)
qed simp

lemma kdf_input_counts:
  assumes "n \<le> 2 ^ 64"
  shows "kdf_input salt pw (replicate 8 0) n
    = concat (map (\<lambda>i. salt @ pw @ to_le_bytes 8 (of_nat i :: u64)) [0..<n])"
proof -
  have zeros: "replicate m 0 = nat_bytes m 0" for m by (induction m) simp_all
  note zero = zeros [of 8]
  have "nat_bytes 8 i = to_le_bytes 8 (of_nat i :: u64)" if "i < n" for i
    using that assms by (simp add: to_le_nat_bytes unat_of_nat)
  then show ?thesis unfolding zero kdf_input_rounds by (auto intro!: arg_cong [where f = concat])
qed

section \<open>The encoder writes the encrypted stream\<close>

definition aes_given :: "cbc \<Rightarrow> ('w \<Rightarrow> bytes \<Rightarrow> bool) \<Rightarrow> bytes \<times> bytes \<Rightarrow> aes_encoder \<times> 'w \<Rightarrow> bytes \<Rightarrow> bool" where
  "aes_given cbc took k x given \<longleftrightarrow>
     (\<exists>q. 16 dvd length q \<and> given = q @ ae_buffer (fst x) \<and> length (ae_buffer (fst x)) < 16
        \<and> \<not> ae_finished (fst x) \<and> ae_cipher (fst x) = (cipher_new k)\<lparr>ci_blocks := chunks16 q\<rparr>
        \<and> took (snd x) (cbc_stream cbc (fst k) (snd k) q))"

context byte_sink
begin

lemma aes_block:
  assumes "16 dvd length q" and "length b = 16"
    and "ae_cipher e = (cipher_new k)\<lparr>ci_blocks := chunks16 q\<rparr>" and "took w (cbc_stream cbc (fst k) (snd k) q)"
  shows "\<exists>e' w'. aes_write_block cbc write_all (e, w) b = Ok (e', w')
     \<and> took w' (cbc_stream cbc (fst k) (snd k) (q @ b))
     \<and> ae_cipher e' = (cipher_new k)\<lparr>ci_blocks := chunks16 (q @ b)\<rparr>
     \<and> ae_buffer e' = ae_buffer e \<and> ae_finished e' = ae_finished e"
proof -
  have b: "chunks16 b = [b]" using assms(2) by (simp add: chunks16_single)
  obtain w' where "write_all w (cbc (fst k) (snd k) (chunks16 q) b) = Ok w'"
    "took w' (cbc_stream cbc (fst k) (snd k) q @ cbc (fst k) (snd k) (chunks16 q) b)"
    using write_every [OF assms(4)] by blast
  then show ?thesis
    using assms b by (simp add: aes_write_block_def next_block_def cipher_new_def cbc_stream_append chunks16_append)
qed

lemma aes_chunks:
  assumes "16 dvd length q" and "ae_buffer e = []" and "\<not> ae_finished e"
    and "ae_cipher e = (cipher_new k)\<lparr>ci_blocks := chunks16 q\<rparr>" and "took w (cbc_stream cbc (fst k) (snd k) q)"
  shows "\<exists>x. aes_write_chunks cbc write_all (e, w) bs = Ok x \<and> aes_given cbc took k x (q @ bs)"
  using assms
proof (induction bs arbitrary: q e w rule: measure_induct_rule [of length])
  case (less bs)
  show ?case
  proof (cases "length bs < 16")
    case True
    with less.prems show ?thesis by (subst aes_write_chunks.simps) (auto simp: aes_given_def)
  next
    case False
    then have b: "length (take 16 bs) = 16" "length (drop 16 bs) < length bs" by simp_all
    obtain e' w' where w': "aes_write_block cbc write_all (e, w) (take 16 bs) = Ok (e', w')"
      "took w' (cbc_stream cbc (fst k) (snd k) (q @ take 16 bs))"
      "ae_cipher e' = (cipher_new k)\<lparr>ci_blocks := chunks16 (q @ take 16 bs)\<rparr>"
      "ae_buffer e' = ae_buffer e" "ae_finished e' = ae_finished e"
      using aes_block [OF less.prems(1) b(1) less.prems(4,5)] by blast
    have "16 dvd length (q @ take 16 bs)" using less.prems(1) b(1) by simp
    from less.IH [OF b(2) this _ _ w'(3,2)] w'(4,5) less.prems(2,3) obtain x where
      "aes_write_chunks cbc write_all (e', w') (drop 16 bs) = Ok x"
      "aes_given cbc took k x ((q @ take 16 bs) @ drop 16 bs)" by auto
    moreover have "(q @ take 16 bs) @ drop 16 bs = q @ bs" by simp
    ultimately show ?thesis using w'(1) False by (subst aes_write_chunks.simps) simp
  qed
qed

lemma aes_write_spec:
  assumes given: "aes_given cbc took k x given" and "buf \<noteq> []"
  shows "\<exists>x'. aes_write cbc put write_all x buf = Ok (length buf, x') \<and> aes_given cbc took k x' (given @ buf)"
proof -
  obtain e w where x: "x = (e, w)" by (cases x)
  obtain q where q: "16 dvd length q" "given = q @ ae_buffer e" "length (ae_buffer e) < 16" "\<not> ae_finished e"
    "ae_cipher e = (cipher_new k)\<lparr>ci_blocks := chunks16 q\<rparr>" "took w (cbc_stream cbc (fst k) (snd k) q)"
    using given by (auto simp: aes_given_def x)
  let ?k = "16 - length (ae_buffer e)" and ?b = "ae_buffer e @ take (16 - length (ae_buffer e)) buf"
  consider "ae_buffer e = []" | "ae_buffer e \<noteq> []" "length buf + length (ae_buffer e) < 16"
    | "ae_buffer e \<noteq> []" "16 \<le> length buf + length (ae_buffer e)" by linarith
  then show ?thesis
  proof cases
    case 1
    from aes_chunks [OF q(1) 1 q(4-6), of buf] q 1 assms(2) show ?thesis
      by (auto simp: aes_write_def Let_def x)
  next
    case 2
    then have "aes_write cbc put write_all x buf = Ok (length buf, e\<lparr>ae_buffer := ae_buffer e @ buf\<rparr>, w)"
      using q assms(2) by (simp add: aes_write_def Let_def x)
    moreover have "aes_given cbc took k (e\<lparr>ae_buffer := ae_buffer e @ buf\<rparr>, w) (given @ buf)"
      using q 2 by (auto simp: aes_given_def)
    ultimately show ?thesis by blast
  next
    case 3
    then have b: "length ?b = 16" using q(3) by simp
    obtain e' w' where w': "aes_write_block cbc write_all (e, w) ?b = Ok (e', w')"
      "took w' (cbc_stream cbc (fst k) (snd k) (q @ ?b))"
      "ae_cipher e' = (cipher_new k)\<lparr>ci_blocks := chunks16 (q @ ?b)\<rparr>"
      "ae_buffer e' = ae_buffer e" "ae_finished e' = ae_finished e"
      using aes_block [OF q(1) b q(5,6)] by blast
    have "16 dvd length (q @ ?b)" using q(1) b by simp
    then obtain x' where x': "aes_write_chunks cbc write_all (e'\<lparr>ae_buffer := []\<rparr>, w') (drop ?k buf) = Ok x'"
      "aes_given cbc took k x' ((q @ ?b) @ drop ?k buf)"
      using aes_chunks [of "q @ ?b" "e'\<lparr>ae_buffer := []\<rparr>" k w' cbc "drop ?k buf"] w' q(4) by auto
    have "(q @ ?b) @ drop ?k buf = given @ buf" using q(2) by simp
    then show ?thesis
      using x' w'(1) q 3 assms(2) by (auto simp: aes_write_def Let_def x)
  qed
qed

lemma aes_flush_spec: "aes_given cbc took k x given \<Longrightarrow> aes_flush cbc write_all x = Ok x"
  by (auto simp: aes_flush_def aes_given_def)

end

context finishing_sink
begin

lemma aes_finish_spec:
  assumes given: "aes_given cbc took k x given"
  shows "\<exists>x'. aes_write cbc put write_all x [] = Ok (0, x')
     \<and> finished (snd x') (cbc_stream cbc (fst k) (snd k) (padded given))"
proof -
  obtain e w where x: "x = (e, w)" by (cases x)
  obtain q where q: "16 dvd length q" "given = q @ ae_buffer e" "length (ae_buffer e) < 16" "\<not> ae_finished e"
    "ae_cipher e = (cipher_new k)\<lparr>ci_blocks := chunks16 q\<rparr>" "took w (cbc_stream cbc (fst k) (snd k) q)"
    using given by (auto simp: aes_given_def x)
  show ?thesis
  proof (cases "ae_buffer e = []")
    case True
    then have "padded given = q" using q by (simp add: padded_append) (simp add: padded_def)
    with finish [OF q(6)] True q show ?thesis by (auto simp: aes_write_def aes_flush_def x)
  next
    case False
    let ?b = "ae_buffer e @ replicate (16 - length (ae_buffer e)) 0"
    have b: "length ?b = 16" using q(3) by simp
    obtain e' w' where w': "aes_write_block cbc write_all (e\<lparr>ae_finished := True\<rparr>, w) ?b = Ok (e', w')"
      "took w' (cbc_stream cbc (fst k) (snd k) (q @ ?b))"
      using aes_block [OF q(1) b _ q(6), of "e\<lparr>ae_finished := True\<rparr>"] q(5) by auto
    have "padded given = q @ ?b"
      using q False by (simp add: padded_append) (simp add: padded_def)
    with finish [OF w'(2)] w'(1) False q(3) show ?thesis
      by (auto simp: aes_write_def aes_flush_def x)
  qed
qed

end

section \<open>The decoder reads the decrypted stream\<close>

text \<open>A source that the decoder's fetches of 512 bytes find in whole blocks. (A reader may return
  fewer bytes than there are; two short ones in a row make \<open>cipher_update\<close> panic.)\<close>

locale block_source = byte_source +
  fixes aligned :: "'a \<Rightarrow> bool"
  assumes aligned_ready: "aligned s \<Longrightarrow> ready s"
    and whole_blocks: "aligned s \<Longrightarrow> read s 512 = Ok (bs, s') \<Longrightarrow> 16 dvd length bs \<and> aligned s'"

interpretation aligned_slice: block_source slice_read "\<lambda>s. s" "\<lambda>s. True" "\<lambda>s. 16 dvd length s"
proof
  fix s bs s' assume "16 dvd length s" "slice_read s 512 = Ok (bs, s')"
  then show "16 dvd length bs \<and> 16 dvd length s'"
    by (cases "length s \<le> 512") (auto simp: slice_read_def min_def dvd_diff_nat)
qed simp

definition aes_contents :: "cbc \<Rightarrow> ('s \<Rightarrow> bytes) \<Rightarrow> 's aes_decoder \<Rightarrow> bytes" where
  "aes_contents cbc contents d =
     drop (ad_ostart d) (ad_obuffer d)
     @ concat (run_cbc cbc (ci_key (ad_cipher d)) (ci_iv (ad_cipher d)) (ci_blocks (ad_cipher d))
         (chunks16 (contents (ad_input d))))"

definition aes_ready :: "('s \<Rightarrow> bytes) \<Rightarrow> ('s \<Rightarrow> bool) \<Rightarrow> 's aes_decoder \<Rightarrow> bool" where
  "aes_ready contents aligned d \<longleftrightarrow>
     aligned (ad_input d) \<and> ad_buf d = [] \<and> ad_ofinish d = length (ad_obuffer d)
     \<and> ad_ostart d \<le> ad_ofinish d \<and> (ad_done d \<longrightarrow> contents (ad_input d) = [])"

lemma update_chunks_aligned:
  "16 dvd length bs \<Longrightarrow> update_chunks cbc c bs
     = (concat (run_cbc cbc (ci_key c) (ci_iv c) (ci_blocks c) (chunks16 bs)), [],
        c\<lparr>ci_blocks := ci_blocks c @ chunks16 bs\<rparr>)"
proof (induction bs arbitrary: c rule: measure_induct_rule [of length])
  case (less bs)
  show ?case
  proof (cases "bs = []")
    case True
    then show ?thesis by (simp add: update_chunks.simps)
  next
    case False
    with less.prems have "16 \<le> length bs" by (auto dest: dvd_imp_le)
    with less.prems have rest: "length (drop 16 bs) < length bs" "16 dvd length (drop 16 bs)"
      by (simp_all add: dvd_diff_nat)
    with less.IH [OF rest] \<open>16 \<le> length bs\<close> show ?thesis
      by (subst update_chunks.simps) (simp add: next_block_def chunks16_take)
  qed
qed

context block_source
begin

lemma more_data_spec:
  assumes d: "aes_ready contents aligned d" and empty: "ad_ofinish d \<le> ad_ostart d"
    and blocks: "\<And>key iv prev b. cbc key iv prev b \<noteq> []"
  shows "\<exists>n d'. more_data_loop cbc read 3 d = Ok (n, d') \<and> aes_ready contents aligned d'
     \<and> aes_contents cbc contents d' = aes_contents cbc contents d
     \<and> (n = 0 \<longrightarrow> aes_contents cbc contents d = []) \<and> (0 < n \<longrightarrow> ad_ostart d' < ad_ofinish d')"
proof (cases "ad_done d")
  case True
  with d empty have "more_data_loop cbc read 3 d = Ok (0, d)" "aes_contents cbc contents d = []"
    by (simp_all add: numeral_3_eq_3 get_more_data_def aes_contents_def aes_ready_def)
  with d show ?thesis by simp
next
  case False
  have input: "aligned (ad_input d)" "ad_buf d = []" using d by (simp_all add: aes_ready_def)
  obtain bs s where rd: "read (ad_input d) 512 = Ok (bs, s)"
    using total [OF aligned_ready [OF input(1)]] by blast
  note nb = next_bytes [OF aligned_ready [OF input(1)] rd] whole_blocks [OF input(1) rd]
  have consumed: "drop (ad_ostart d) (ad_obuffer d) = []" using d empty by (simp add: aes_ready_def)
  show ?thesis
  proof (cases "bs = []")
    case True
    let ?d = "d\<lparr>ad_ofinish := 0, ad_ostart := 0, ad_obuffer := [], ad_input := s, ad_done := True\<rparr>"
    have "contents (ad_input d) = []" using end_only [OF aligned_ready [OF input(1)]] rd True by simp
    moreover have "more_data_loop cbc read 3 d = Ok (0, ?d)"
      using False True rd input by (simp add: numeral_3_eq_3 get_more_data_def do_final_def)
    ultimately show ?thesis
      using nb input consumed True by (intro exI [of _ 0] exI [of _ ?d]) (simp add: aes_contents_def aes_ready_def)
  next
    case more: False
    let ?c = "ad_cipher d"
    define out where "out = concat (run_cbc cbc (ci_key ?c) (ci_iv ?c) (ci_blocks ?c) (chunks16 bs))"
    let ?d = "d\<lparr>ad_input := s, ad_cipher := ?c\<lparr>ci_blocks := ci_blocks ?c @ chunks16 bs\<rparr>, ad_ostart := 0,
       ad_obuffer := out, ad_ofinish := length out\<rparr>"
    have some: "out \<noteq> []" using more blocks unfolding out_def by (subst chunks16.simps) simp
    have "get_more_data cbc read d = Ok (length out, ?d)"
      using False more rd input nb(2)
      by (simp add: get_more_data_def cipher_update_def update_chunks_aligned out_def)
    with some have "more_data_loop cbc read 3 d = Ok (length out, ?d)"
      by (simp add: numeral_3_eq_3)
    moreover have "aes_contents cbc contents ?d = aes_contents cbc contents d"
      using nb consumed by (simp add: aes_contents_def chunks16_append run_cbc_append out_def)
    moreover have "aes_ready contents aligned ?d" using nb input False by (simp add: aes_ready_def)
    ultimately show ?thesis using some by (intro exI [of _ "length out"] exI [of _ ?d]) simp
  qed
qed

lemma aes_source:
  assumes blocks: "\<And>key iv prev b. cbc key iv prev b \<noteq> []"
  shows "byte_source (aes_read cbc read) (aes_contents cbc contents) (aes_ready contents aligned)"
proof -
  have serve: "\<exists>bs d'. aes_read cbc read d n = Ok (bs, d') \<and> aes_ready contents aligned d'
      \<and> aes_contents cbc contents d = bs @ aes_contents cbc contents d' \<and> length bs \<le> n
      \<and> (bs = [] \<longrightarrow> 0 < n \<longrightarrow> aes_contents cbc contents d = [])"
    if d: "aes_ready contents aligned d" for d :: "'a aes_decoder" and n
  proof -
    let ?serve = "\<lambda>d. (let sz = min (ad_ofinish d - ad_ostart d) n in
       (take sz (drop (ad_ostart d) (ad_obuffer d)), d\<lparr>ad_ostart := ad_ostart d + sz, ad_pos := usize_add (ad_pos d) sz\<rparr>))"
    have deliver: "\<exists>bs d''. (if n = 0 then Ok ([], e) else Ok (?serve e) :: (bytes \<times> _) io_result) = Ok (bs, d'')
      \<and> aes_ready contents aligned d'' \<and> aes_contents cbc contents e = bs @ aes_contents cbc contents d''
      \<and> length bs \<le> n \<and> (bs = [] \<longrightarrow> n = 0)"
      if e: "aes_ready contents aligned e" "ad_ostart e < ad_ofinish e" for e :: "'a aes_decoder"
    proof (cases "n = 0")
      case False
      let ?sz = "min (ad_ofinish e - ad_ostart e) n"
      have "drop (ad_ostart e) (ad_obuffer e)
          = take ?sz (drop (ad_ostart e) (ad_obuffer e)) @ drop (ad_ostart e + ?sz) (ad_obuffer e)"
        by (metis append_take_drop_id drop_drop add.commute)
      with e False show ?thesis
        by (auto simp: Let_def aes_ready_def aes_contents_def simp del: append_take_drop_id)
    qed (use e in simp)
    show ?thesis
    proof (cases "ad_ofinish d \<le> ad_ostart d")
      case False
      with deliver [OF d] show ?thesis by (auto simp: aes_read_def Let_def)
    next
      case True
      obtain k e where
        e: "more_data_loop cbc read 3 d = Ok (k, e)" "aes_ready contents aligned e"
          "aes_contents cbc contents e = aes_contents cbc contents d"
          "k = 0 \<longrightarrow> aes_contents cbc contents d = []" "0 < k \<longrightarrow> ad_ostart e < ad_ofinish e"
        using more_data_spec [OF d True, of cbc] blocks by blast
      show ?thesis
      proof (cases "k = 0")
        case False
        with deliver [OF e(2)] e True show ?thesis by (auto simp: aes_read_def Let_def)
      qed (use e True in \<open>auto simp: aes_read_def Let_def\<close>)
    qed
  qed
  show ?thesis by (rule byte_sourceI) (rule serve)
qed

end

end
