(* ===== verification/Frame_Encoders.thy ===== *)
theory Frame_Encoders
  imports Aes_Codec Encoder_Options Sinks
begin

text \<open>
  The encoders of \<^verbatim>\<open>src/src/codec/lz4.rs\<close> and \<^verbatim>\<open>src/src/codec/brotli.rs\<close>: with a frame size
  they cut the stream into skippable frames as zstdmt writes them. Their output is passed
  beside them. The compressors themselves are other crates' code: the record \<open>codecs\<close> holds
  what all encoders of the development use of them, with \<open>'e\<close> the state of one encoder. An
  encoder of another crate is an adapter: each call takes some of the input, and the bytes it
  then has for the writer below are the second result.
\<close>

section \<open>What other crates provide\<close>

record 'e codecs =
  cd_new :: "encoder_method \<Rightarrow> encoder_options option \<Rightarrow> 'e result"
  cd_write :: "'e \<Rightarrow> bytes \<Rightarrow> (usize \<times> bytes \<times> 'e) io_result"
  cd_flush :: "'e \<Rightarrow> (bytes \<times> 'e) io_result"
  cd_finish :: "'e \<Rightarrow> bytes io_result"
  cd_brotli_new :: "u32 \<Rightarrow> u32 \<Rightarrow> 'e"
  cd_brotli_into_inner :: "'e \<Rightarrow> bytes"
  cd_lz4_frame :: "bytes \<Rightarrow> bytes io_result"
  cd_sha256 :: "bytes \<Rightarrow> bytes"
  cd_cbc :: cbc

text \<open>An encoder of another crate and the writer below it.\<close>

definition crate_write :: "'e codecs \<Rightarrow> 'w write_all \<Rightarrow> ('e \<times> 'w) writing" where
  "crate_write X write_all x buf =
     and_then (cd_write X (fst x) buf) (\<lambda>(n, out, e).
     and_then (write_all (snd x) out) (\<lambda>w. Ok (n, e, w)))"

definition crate_flush :: "'e codecs \<Rightarrow> 'w write_all \<Rightarrow> 'w flushing \<Rightarrow> ('e \<times> 'w) flushing" where
  "crate_flush X write_all flush x =
     and_then (cd_flush X (fst x)) (\<lambda>(out, e).
     and_then (write_all (snd x) out) (\<lambda>w.
     and_then (flush w) (\<lambda>w. Ok (e, w))))"

definition crate_finish :: "'e codecs \<Rightarrow> 'w write_all \<Rightarrow> 'e \<times> 'w \<Rightarrow> 'w io_result" where
  "crate_finish X write_all x = and_then (cd_finish X (fst x)) (\<lambda>out. write_all (snd x) out)"

section \<open>LZ4 (lz4.rs)\<close>

definition skippable_frame_magic :: u32 where
  "skippable_frame_magic = 0x184D2A50"

text \<open>The buffer \<open>uncompressed_data\<close> is kept as its filled part.\<close>

datatype 'e lz4_encoder = Lz4_standard 'e | Lz4_framed usize bytes

definition lz4_encoder_new :: "'e codecs \<Rightarrow> usize \<Rightarrow> 'e lz4_encoder result" where
  "lz4_encoder_new X frame_size =
     (if frame_size = 0
      then and_then (cd_new X (EncoderMethod ''LZ4'' id_lz4) None) (\<lambda>e. Ok (Lz4_standard e))
      else Ok (Lz4_framed frame_size []))"

definition lz4_write_frame :: "'e codecs \<Rightarrow> 'w write_all \<Rightarrow> 'w \<Rightarrow> bytes \<Rightarrow> 'w io_result" where
  "lz4_write_frame X write_all w uncompressed =
     (if uncompressed = [] then Ok w
      else
        and_then (cd_lz4_frame X uncompressed) (\<lambda>compressed.
        if compressed = [] then Ok w
        else for_each (\<lambda>p w. write_all w p)
               [write_u32_le skippable_frame_magic, write_u32_le 4,
                write_u32_le (of_nat (length compressed)), compressed] w))"

text \<open>The loop of \<open>write\<close>; with a frame size of zero it would not end.\<close>

function lz4_fill ::
    "'e codecs \<Rightarrow> 'w write_all \<Rightarrow> usize \<Rightarrow> bytes \<Rightarrow> 'w \<Rightarrow> bytes \<Rightarrow> (bytes \<times> 'w) io_result" where
  "lz4_fill X write_all frame_size uncompressed w buf =
     (if buf = [] then Ok (uncompressed, w)
      else if frame_size = 0 then OutOfFuel
      else
        let k = min (length buf) (frame_size - length uncompressed);
            uncompressed = uncompressed @ take k buf in
        if frame_size \<le> length uncompressed then
          and_then (lz4_write_frame X write_all w uncompressed) (\<lambda>w.
          lz4_fill X write_all frame_size [] w (drop k buf))
        else lz4_fill X write_all frame_size uncompressed w (drop k buf))"
  by pat_completeness auto
termination
  by (relation "measure (\<lambda>(X, write_all, frame_size, uncompressed, w, buf).
        2 * length buf + (if frame_size \<le> length uncompressed then 1 else 0))")
    (auto simp: min_def not_le split: if_splits)

declare lz4_fill.simps [simp del]

definition lz4_write :: "'e codecs \<Rightarrow> 'w write_all \<Rightarrow> ('e lz4_encoder \<times> 'w) writing" where
  "lz4_write X write_all x buf =
     (case fst x of
        Lz4_standard e \<Rightarrow>
          and_then (crate_write X write_all (e, snd x) buf) (\<lambda>(n, e, w). Ok (n, Lz4_standard e, w))
      | Lz4_framed frame_size uncompressed \<Rightarrow>
          and_then (lz4_fill X write_all frame_size uncompressed (snd x) buf) (\<lambda>(uncompressed, w).
          Ok (length buf, Lz4_framed frame_size uncompressed, w)))"

definition lz4_flush :: "'e codecs \<Rightarrow> 'w write_all \<Rightarrow> 'w flushing \<Rightarrow> ('e lz4_encoder \<times> 'w) flushing" where
  "lz4_flush X write_all flush x =
     (case fst x of
        Lz4_standard e \<Rightarrow>
          and_then (crate_flush X write_all flush (e, snd x)) (\<lambda>(e, w). Ok (Lz4_standard e, w))
      | Lz4_framed frame_size uncompressed \<Rightarrow>
          and_then (lz4_write_frame X write_all (snd x) uncompressed) (\<lambda>w.
          and_then (flush w) (\<lambda>w. Ok (Lz4_framed frame_size [], w))))"

definition lz4_finish :: "'e codecs \<Rightarrow> 'w write_all \<Rightarrow> 'e lz4_encoder \<times> 'w \<Rightarrow> 'w io_result" where
  "lz4_finish X write_all x =
     (case fst x of
        Lz4_standard e \<Rightarrow> crate_finish X write_all (e, snd x)
      | Lz4_framed frame_size uncompressed \<Rightarrow> lz4_write_frame X write_all (snd x) uncompressed)"

section \<open>Brotli (brotli.rs)\<close>

definition brotli_magic :: u16 where
  "brotli_magic = 0x5242"

text \<open>A framed encoder compresses into a vector, the second argument of \<open>Brotli_framed\<close>.\<close>

datatype 'e brotli_inner = Brotli_standard 'e | Brotli_framed 'e bytes usize usize

record 'e brotli_encoder =
  be_inner :: "'e brotli_inner"
  be_quality :: u32
  be_window :: u32

definition brotli_encoder_new :: "'e codecs \<Rightarrow> u32 \<Rightarrow> u32 \<Rightarrow> usize \<Rightarrow> 'e brotli_encoder" where
  "brotli_encoder_new X quality window frame_size =
     \<lparr>be_inner = (if frame_size = 0 then Brotli_standard (cd_brotli_new X quality window)
                  else Brotli_framed (cd_brotli_new X quality window) [] frame_size 0),
      be_quality = quality, be_window = window\<rparr>"

definition brotli_write_frame :: "'w write_all \<Rightarrow> 'w \<Rightarrow> bytes \<Rightarrow> usize \<Rightarrow> 'w io_result" where
  "brotli_write_frame write_all w compressed uncompressed_bytes =
     (if compressed = [] then Ok w
      else
        let hint = (uncompressed_bytes + 65535) div 65536;
            hint = (if 65535 < hint then 65535 else of_nat hint) :: u16 in
        for_each (\<lambda>p w. write_all w p)
          [write_u32_le skippable_frame_magic, write_u32_le 8, write_u32_le (of_nat (length compressed)),
           write_u16_le brotli_magic, write_u16_le hint, compressed] w)"

text \<open>The loop of \<open>write\<close>: the compressor, its vector, the bytes in the frame, the output.\<close>

function brotli_fill ::
    "'e codecs \<Rightarrow> 'w write_all \<Rightarrow> 'e \<Rightarrow> usize \<Rightarrow> 'e \<times> bytes \<times> usize \<times> 'w \<Rightarrow> bytes \<Rightarrow>
     ('e \<times> bytes \<times> usize \<times> 'w) io_result" where
  "brotli_fill X write_all fresh frame_size x buf =
     (if buf = [] then Ok x
      else if frame_size = 0 then OutOfFuel
      else
        case x of (cm, data, in_frame, w) \<Rightarrow>
        let chunk = take (frame_size - in_frame) buf in
        and_then (cd_write X cm chunk) (\<lambda>(n, out, cm).
        if n = 0 \<and> chunk \<noteq> [] then Err (Io_simple WriteZero ''failed to write any bytes'')
        else
          let data = data @ out; in_frame = in_frame + n in
          if frame_size \<le> in_frame then
            and_then (cd_flush X cm) (\<lambda>(out, cm).
            and_then (brotli_write_frame write_all w (data @ out @ cd_brotli_into_inner X cm) in_frame) (\<lambda>w.
            brotli_fill X write_all fresh frame_size (fresh, [], 0, w) (drop n buf)))
          else brotli_fill X write_all fresh frame_size (cm, data, in_frame, w) (drop n buf)))"
  by pat_completeness auto
termination
  by (relation "measure (\<lambda>(X, write_all, fresh, frame_size, x, buf).
        2 * length buf + (if frame_size \<le> fst (snd (snd x)) then 1 else 0))")
    (auto simp: not_le length_greater_0_conv [symmetric] simp del: length_greater_0_conv)

declare brotli_fill.simps [simp del]

definition brotli_write :: "'e codecs \<Rightarrow> 'w write_all \<Rightarrow> ('e brotli_encoder \<times> 'w) writing" where
  "brotli_write X write_all x buf =
     (let b = fst x in
      case be_inner b of
        Brotli_standard e \<Rightarrow>
          and_then (crate_write X write_all (e, snd x) buf) (\<lambda>(n, e, w).
          Ok (n, b\<lparr>be_inner := Brotli_standard e\<rparr>, w))
      | Brotli_framed cm data frame_size in_frame \<Rightarrow>
          and_then
            (brotli_fill X write_all (cd_brotli_new X (be_quality b) (be_window b)) frame_size
              (cm, data, in_frame, snd x) buf) (\<lambda>(cm, data, in_frame, w).
          Ok (length buf, b\<lparr>be_inner := Brotli_framed cm data frame_size in_frame\<rparr>, w)))"

definition brotli_flush ::
    "'e codecs \<Rightarrow> 'w write_all \<Rightarrow> 'w flushing \<Rightarrow> ('e brotli_encoder \<times> 'w) flushing" where
  "brotli_flush X write_all flush x =
     (let b = fst x in
      case be_inner b of
        Brotli_standard e \<Rightarrow>
          and_then (crate_flush X write_all flush (e, snd x)) (\<lambda>(e, w). Ok (b\<lparr>be_inner := Brotli_standard e\<rparr>, w))
      | Brotli_framed cm data frame_size in_frame \<Rightarrow>
          and_then (cd_flush X cm) (\<lambda>(out, cm).
          let data = data @ out @ cd_brotli_into_inner X cm;
              in_frame' = (if data = [] then in_frame else 0) in
          and_then (if data = [] then Ok (snd x) else brotli_write_frame write_all (snd x) data in_frame) (\<lambda>w.
          and_then (flush w) (\<lambda>w.
          Ok (b\<lparr>be_inner := Brotli_framed (cd_brotli_new X (be_quality b) (be_window b)) [] frame_size in_frame'\<rparr>,
              w)))))"

end
