(* ===== verification/Swap_Filter.thy ===== *)
theory Swap_Filter
  imports Readers Sinks
begin

text \<open>
  The Swap2 and Swap4 filters of \<^verbatim>\<open>src/src/codec/swap.rs\<close>. A reader wraps a reader and is
  modelled by a function from the wrapped \<open>read\<close>; a writer wraps a writer, whose
  \<open>write_all\<close> and \<open>flush\<close> are arguments. The specifications \<open>swap_pairs\<close> and
  \<open>swap_quads\<close> say what a filter does to a whole stream.
\<close>

section \<open>Specifications\<close>

fun swap_pairs :: "bytes \<Rightarrow> bytes" where
  "swap_pairs (a # b # bs) = b # a # swap_pairs bs"
| "swap_pairs bs = bs"

fun swap_quads :: "bytes \<Rightarrow> bytes" where
  "swap_quads (a # b # c # d # bs) = d # c # b # a # swap_quads bs"
| "swap_quads bs = rev bs"

section \<open>Swap2Reader\<close>

record 's swap2_reader =
  s2r_inner :: 's
  s2r_pending :: "u8 option"

definition swap2_reader_new :: "'s \<Rightarrow> 's swap2_reader" where
  "swap2_reader_new s = \<lparr>s2r_inner = s, s2r_pending = None\<rparr>"

text \<open>The loop of \<open>Swap2Reader::read\<close>; \<open>out\<close> is the filled part of the buffer.\<close>

function swap2_loop :: "'s reading \<Rightarrow> nat \<Rightarrow> 's \<Rightarrow> bytes \<Rightarrow> (bytes \<times> 's swap2_reader) io_result" where
  "swap2_loop read n s out =
     (if length out < n then
        and_then (read s 2) (\<lambda>(pair, s).
        if length pair = 0 then Ok (out, \<lparr>s2r_inner = s, s2r_pending = None\<rparr>)
        else if length pair = 1 then
          and_then (read s 1) (\<lambda>(snd_byte, s).
          if length snd_byte = 0
          then Ok (out @ [pair ! 0], \<lparr>s2r_inner = s, s2r_pending = None\<rparr>)
          else if length out + 1 < n then swap2_loop read n s (out @ [snd_byte ! 0] @ [pair ! 0])
          else Ok (out @ [snd_byte ! 0], \<lparr>s2r_inner = s, s2r_pending = Some (pair ! 0)\<rparr>))
        else if length pair = 2 then
          if length out + 1 < n then swap2_loop read n s (out @ [pair ! 1] @ [pair ! 0])
          else Ok (out @ [pair ! 1], \<lparr>s2r_inner = s, s2r_pending = Some (pair ! 0)\<rparr>)
        else Panic)
      else Ok (out, \<lparr>s2r_inner = s, s2r_pending = None\<rparr>))"
  by pat_completeness auto
termination
  by (relation "measure (\<lambda>(read, n, s, out). n - length out)") auto

declare swap2_loop.simps [simp del]

definition swap2_read :: "'s reading \<Rightarrow> 's swap2_reader reading" where
  "swap2_read read r n =
     (if n = 0 then Ok ([], r)
      else swap2_loop read n (s2r_inner r) (case s2r_pending r of None \<Rightarrow> [] | Some b \<Rightarrow> [b]))"

section \<open>Swap2Writer\<close>

record 'w swap2_writer =
  s2w_inner :: 'w
  s2w_pending :: "u8 option"

definition swap2_writer_new :: "'w \<Rightarrow> 'w swap2_writer" where
  "swap2_writer_new w = \<lparr>s2w_inner = w, s2w_pending = None\<rparr>"

fun swap2_write_pairs :: "'w write_all \<Rightarrow> 'w \<Rightarrow> bytes \<Rightarrow> 'w swap2_writer io_result" where
  "swap2_write_pairs write_all w (a # b # bs) =
     and_then (write_all w [b, a]) (\<lambda>w. swap2_write_pairs write_all w bs)"
| "swap2_write_pairs write_all w [a] = Ok \<lparr>s2w_inner = w, s2w_pending = Some a\<rparr>"
| "swap2_write_pairs write_all w [] = Ok \<lparr>s2w_inner = w, s2w_pending = None\<rparr>"

definition swap2_write ::
    "'w write_all \<Rightarrow> 'w swap2_writer \<Rightarrow> bytes \<Rightarrow> (nat \<times> 'w swap2_writer) io_result" where
  "swap2_write write_all x buf =
     (if buf = [] then Ok (0, x)
      else
        and_then
          (case s2w_pending x of
             None \<Rightarrow> swap2_write_pairs write_all (s2w_inner x) buf
           | Some prev \<Rightarrow>
               and_then (write_all (s2w_inner x) [buf ! 0, prev]) (\<lambda>w.
                 swap2_write_pairs write_all w (drop 1 buf)))
          (\<lambda>x. Ok (length buf, x)))"

definition swap2_finish :: "'w write_all \<Rightarrow> ('w \<Rightarrow> 'w io_result) \<Rightarrow> 'w swap2_writer \<Rightarrow> 'w io_result" where
  "swap2_finish write_all flush x =
     and_then (case s2w_pending x of None \<Rightarrow> Ok (s2w_inner x) | Some b \<Rightarrow> write_all (s2w_inner x) [b]) flush"

section \<open>Swap4Reader\<close>

record 's swap4_reader =
  s4r_inner :: 's
  s4r_pending :: bytes
  s4r_pending_len :: usize

definition swap4_reader_new :: "'s \<Rightarrow> 's swap4_reader" where
  "swap4_reader_new s = \<lparr>s4r_inner = s, s4r_pending = [0, 0, 0], s4r_pending_len = 0\<rparr>"

fun emit_pending :: "nat \<Rightarrow> bytes \<Rightarrow> bytes \<Rightarrow> nat \<Rightarrow> bytes \<times> nat" where
  "emit_pending n pending out 0 = (out, 0)"
| "emit_pending n pending out (Suc k) =
     (if length out < n then emit_pending n pending (out @ [pending ! (3 - Suc k)]) k else (out, Suc k))"

text \<open>Read up to four bytes.\<close>

function read_quad :: "'s reading \<Rightarrow> 's \<Rightarrow> bytes \<Rightarrow> (bytes \<times> 's) io_result" where
  "read_quad read s quad =
     (if length quad < 4 then
        and_then (read s (4 - length quad)) (\<lambda>(bs, s).
        if length bs = 0 then Ok (quad, s) else read_quad read s (quad @ bs))
      else Ok (quad, s))"
  by pat_completeness auto
termination
  by (relation "measure (\<lambda>(read, s, quad). 4 - length quad)")
    (auto intro!: diff_less_mono2 simp: length_greater_0_conv [symmetric] simp del: length_greater_0_conv)

declare read_quad.simps [simp del]

text \<open>The last, partial group: reversed into the buffer, the rest kept for the next read.\<close>

fun emit_partial :: "nat \<Rightarrow> bytes \<Rightarrow> bytes \<Rightarrow> bytes \<Rightarrow> nat \<Rightarrow> bytes \<times> bytes \<times> nat" where
  "emit_partial n [] out pending k = (out, pending, k)"
| "emit_partial n (b # bs) out pending k =
     (if length out < n then emit_partial n bs (out @ [b]) pending k
      else emit_partial n bs out (pending[k := b]) (k + 1))"

function swap4_loop ::
    "'s reading \<Rightarrow> nat \<Rightarrow> 's \<Rightarrow> bytes \<Rightarrow> nat \<Rightarrow> bytes \<Rightarrow> (bytes \<times> 's swap4_reader) io_result" where
  "swap4_loop read n s pending pending_len out =
     (if length out < n then
        and_then (read_quad read s []) (\<lambda>(quad, s).
        if length quad = 0
        then Ok (out, \<lparr>s4r_inner = s, s4r_pending = pending, s4r_pending_len = pending_len\<rparr>)
        else if length quad = 4 then
          let reversed = rev quad;
              to_copy = min (n - length out) 4;
              remaining = 4 - to_copy in
          if 0 < remaining
          then swap4_loop read n s (drop to_copy reversed @ drop remaining pending) remaining
                 (out @ take to_copy reversed)
          else swap4_loop read n s pending pending_len (out @ take to_copy reversed)
        else
          (case emit_partial n (rev quad) out pending pending_len of
             (out, pending, pending_len) \<Rightarrow>
               Ok (out, \<lparr>s4r_inner = s, s4r_pending = pending, s4r_pending_len = pending_len\<rparr>)))
      else Ok (out, \<lparr>s4r_inner = s, s4r_pending = pending, s4r_pending_len = pending_len\<rparr>))"
  by pat_completeness auto
termination
  by (relation "measure (\<lambda>(read, n, s, pending, pending_len, out). n - length out)") auto

declare swap4_loop.simps [simp del]

definition swap4_read :: "'s reading \<Rightarrow> 's swap4_reader reading" where
  "swap4_read read r n =
     (if n = 0 then Ok ([], r)
      else
        (case emit_pending n (s4r_pending r) [] (s4r_pending_len r) of
           (out, pending_len) \<Rightarrow> swap4_loop read n (s4r_inner r) (s4r_pending r) pending_len out))"

section \<open>Swap4Writer\<close>

record 'w swap4_writer =
  s4w_inner :: 'w
  s4w_pending :: bytes
  s4w_pending_len :: usize

definition swap4_writer_new :: "'w \<Rightarrow> 'w swap4_writer" where
  "swap4_writer_new w = \<lparr>s4w_inner = w, s4w_pending = [0, 0, 0, 0], s4w_pending_len = 0\<rparr>"

text \<open>Complete a pending group from the front of the buffer; the rest of the buffer remains.\<close>

fun swap4_complete ::
    "'w write_all \<Rightarrow> 'w swap4_writer \<Rightarrow> bytes \<Rightarrow> ('w swap4_writer \<times> bytes) io_result" where
  "swap4_complete write_all x [] = Ok (x, [])"
| "swap4_complete write_all x (b # bs) =
     (let k = s4w_pending_len x in
      if 0 < k \<and> k < 4 then
        let pending = (s4w_pending x)[k := b]; x = x\<lparr>s4w_pending := pending, s4w_pending_len := k + 1\<rparr> in
        if k + 1 = 4 then
          and_then (write_all (s4w_inner x) [pending ! 3, pending ! 2, pending ! 1, pending ! 0]) (\<lambda>w.
            swap4_complete write_all (x\<lparr>s4w_inner := w, s4w_pending_len := 0\<rparr>) bs)
        else swap4_complete write_all x bs
      else Ok (x, b # bs))"

fun swap4_quads :: "'w write_all \<Rightarrow> 'w \<Rightarrow> bytes \<Rightarrow> ('w \<times> bytes) io_result" where
  "swap4_quads write_all w (a # b # c # d # bs) =
     and_then (write_all w [d, c, b, a]) (\<lambda>w. swap4_quads write_all w bs)"
| "swap4_quads write_all w bs = Ok (w, bs)"

fun swap4_save :: "bytes \<Rightarrow> bytes \<Rightarrow> nat \<Rightarrow> bytes \<times> nat" where
  "swap4_save [] pending k = (pending, k)"
| "swap4_save (b # bs) pending k = swap4_save bs (pending[k := b]) (k + 1)"

definition swap4_write ::
    "'w write_all \<Rightarrow> 'w swap4_writer \<Rightarrow> bytes \<Rightarrow> (nat \<times> 'w swap4_writer) io_result" where
  "swap4_write write_all x buf =
     (if buf = [] then Ok (0, x)
      else
        and_then (swap4_complete write_all x buf) (\<lambda>(x, rest).
        and_then (swap4_quads write_all (s4w_inner x) rest) (\<lambda>(w, rest).
        case swap4_save rest (s4w_pending x) (s4w_pending_len x) of
          (pending, k) \<Rightarrow> Ok (length buf, \<lparr>s4w_inner = w, s4w_pending = pending, s4w_pending_len = k\<rparr>))))"

definition swap4_finish :: "'w write_all \<Rightarrow> ('w \<Rightarrow> 'w io_result) \<Rightarrow> 'w swap4_writer \<Rightarrow> 'w io_result" where
  "swap4_finish write_all flush x =
     and_then (for_each (\<lambda>i w. write_all w [s4w_pending x ! i]) (rev [0..<s4w_pending_len x]) (s4w_inner x)) flush"

section \<open>Facts about the specifications\<close>

lemma swap_pairs_append: "even (length q) \<Longrightarrow> swap_pairs (q @ r) = swap_pairs q @ swap_pairs r"
  by (induction q rule: swap_pairs.induct) auto

lemma length_swap_pairs [simp]: "length (swap_pairs bs) = length bs"
  by (induction bs rule: swap_pairs.induct) auto

lemma swap_pairs_involutive: "swap_pairs (swap_pairs bs) = bs"
  by (induction bs rule: swap_pairs.induct) auto

lemma swap_pairs_Nil [simp]: "swap_pairs bs = [] \<longleftrightarrow> bs = []"
  by (induction bs rule: swap_pairs.induct) auto

lemma swap_quads_short: "length bs < 4 \<Longrightarrow> swap_quads bs = rev bs"
  by (induction bs rule: swap_quads.induct) auto

lemma dvd_four:
  "(4 :: nat) dvd Suc (Suc (Suc (Suc n))) \<longleftrightarrow> 4 dvd n" "\<not> (4 :: nat) dvd Suc (Suc (Suc 0))"
  "\<not> (4 :: nat) dvd Suc (Suc 0)" "\<not> (4 :: nat) dvd Suc 0"
  by presburger+

lemma swap_quads_append: "4 dvd length q \<Longrightarrow> swap_quads (q @ r) = swap_quads q @ swap_quads r"
  by (induction q rule: swap_quads.induct) (simp_all add: dvd_four)

lemma length_swap_quads [simp]: "length (swap_quads bs) = length bs"
  by (induction bs rule: swap_quads.induct) auto

lemma swap_quads_involutive: "swap_quads (swap_quads bs) = bs"
  by (induction bs rule: swap_quads.induct) (auto simp: swap_quads_short)

section \<open>Swap2Reader delivers the swapped stream\<close>

definition swap2_contents :: "('s \<Rightarrow> bytes) \<Rightarrow> 's swap2_reader \<Rightarrow> bytes" where
  "swap2_contents contents r =
     (case s2r_pending r of None \<Rightarrow> [] | Some b \<Rightarrow> [b]) @ swap_pairs (contents (s2r_inner r))"

context byte_source
begin

lemma swap2_loop_spec:
  assumes "ready s" and "length out \<le> n"
  shows "\<exists>res r. swap2_loop read n s out = Ok (res, r) \<and> ready (s2r_inner r)
     \<and> out @ swap_pairs (contents s) = res @ swap2_contents contents r
     \<and> length res \<le> n \<and> (length res < n \<longrightarrow> swap2_contents contents r = [])"
  using assms
proof (induction "n - length out" arbitrary: s out rule: less_induct)
  case less
  show ?case
  proof (cases "length out < n")
    case False
    with less.prems show ?thesis by (subst swap2_loop.simps) (simp add: swap2_contents_def)
  next
    case True
    obtain pair s1 where r1: "read s 2 = Ok (pair, s1)" using total less.prems(1) by blast
    note nb1 = next_bytes [OF less.prems(1) r1]
    have pair: "\<exists>res r. (if length out + 1 < n then swap2_loop read n t (out @ [b] @ [a])
          else Ok (out @ [b], \<lparr>s2r_inner = t, s2r_pending = Some a\<rparr>)) = Ok (res, r) \<and> ready (s2r_inner r)
       \<and> out @ swap_pairs (a # b # contents t) = res @ swap2_contents contents r
       \<and> length res \<le> n \<and> (length res < n \<longrightarrow> swap2_contents contents r = [])" if "ready t" for a b t
    proof (cases "length out + 1 < n")
      case more: True
      from less.hyps [of "out @ [b, a]" t] more that show ?thesis by simp
    next
      case False
      with True that show ?thesis by (simp add: swap2_contents_def)
    qed
    consider "pair = []" | a where "pair = [a]" | a b where "pair = [a, b]"
      using nb1 by (cases pair; cases "tl pair") (auto simp: Suc_le_eq)
    then show ?thesis
    proof cases
      case 1
      then have "contents s = []" using end_only [OF less.prems(1)] r1 by simp
      with 1 nb1 r1 True show ?thesis by (subst swap2_loop.simps) (simp add: swap2_contents_def)
    next
      case 2
      obtain snd_byte s2 where r2: "read s1 1 = Ok (snd_byte, s2)" using total nb1 by blast
      have ready1: "ready s1" using nb1 by simp
      note nb2 = next_bytes [OF ready1 r2]
      show ?thesis
      proof (cases "snd_byte = []")
        case end_now: True
        then have "contents s1 = []" using end_only [OF ready1] r2 by simp
        with end_now 2 nb1 nb2 r1 r2 True show ?thesis
          by (subst swap2_loop.simps) (simp add: swap2_contents_def)
      next
        case False
        then obtain b where b: "snd_byte = [b]" using nb2 by (cases snd_byte) auto
        with 2 nb1 nb2 r1 r2 True pair [of s2 b a] show ?thesis
          by (cases "Suc (length out) < n"; subst swap2_loop.simps; simp)
      qed
    next
      case 3
      with nb1 r1 True pair [of s1 b a] show ?thesis
        by (cases "Suc (length out) < n"; subst swap2_loop.simps; simp)
    qed
  qed
qed

lemma swap2_source:
  "byte_source (swap2_read read) (swap2_contents contents) (\<lambda>r. ready (s2r_inner r))"
proof -
  have step: "\<exists>bs r'. swap2_read read r n = Ok (bs, r') \<and> ready (s2r_inner r')
     \<and> swap2_contents contents r = bs @ swap2_contents contents r' \<and> length bs \<le> n
     \<and> (length bs < n \<longrightarrow> swap2_contents contents r' = [])" if "ready (s2r_inner r)" for r :: "'s swap2_reader" and n
  proof (cases "n = 0")
    case True
    with that show ?thesis by (simp add: swap2_read_def)
  next
    case False
    let ?p = "case s2r_pending r of None \<Rightarrow> [] | Some b \<Rightarrow> [b]"
    have "length ?p \<le> n" using False by (auto split: option.splits)
    from swap2_loop_spec [OF that this] False show ?thesis
      by (auto simp: swap2_read_def swap2_contents_def [of contents r])
  qed
  show ?thesis
  proof (rule byte_sourceI)
    fix r :: "'s swap2_reader" and n assume "ready (s2r_inner r)"
    from step [OF this, of n] show "\<exists>bs r'. swap2_read read r n = Ok (bs, r') \<and> ready (s2r_inner r')
        \<and> swap2_contents contents r = bs @ swap2_contents contents r' \<and> length bs \<le> n
        \<and> (bs = [] \<longrightarrow> 0 < n \<longrightarrow> swap2_contents contents r = [])"
      by fastforce
  qed
qed

end

interpretation swap2_slice: byte_source "swap2_read slice_read" "swap2_contents (\<lambda>s. s)" "\<lambda>r. True"
  using slice.swap2_source by simp

section \<open>The writers write the swapped stream\<close>

text \<open>What a writer was given so far: the whole groups, swapped below, and what is pending.\<close>

definition swap2_given :: "('w \<Rightarrow> bytes \<Rightarrow> bool) \<Rightarrow> 'w swap2_writer \<Rightarrow> bytes \<Rightarrow> bool" where
  "swap2_given took x given \<longleftrightarrow>
     (\<exists>q. even (length q) \<and> took (s2w_inner x) (swap_pairs q)
        \<and> given = q @ (case s2w_pending x of None \<Rightarrow> [] | Some b \<Rightarrow> [b]))"

definition swap4_given :: "('w \<Rightarrow> bytes \<Rightarrow> bool) \<Rightarrow> 'w swap4_writer \<Rightarrow> bytes \<Rightarrow> bool" where
  "swap4_given took x given \<longleftrightarrow>
     (\<exists>q. 4 dvd length q \<and> took (s4w_inner x) (swap_quads q)
        \<and> given = q @ take (s4w_pending_len x) (s4w_pending x)
        \<and> s4w_pending_len x < 4 \<and> length (s4w_pending x) = 4)"

context byte_sink
begin

lemma swap2_write_pairs_spec:
  assumes "even (length q)" and "took w (swap_pairs q)"
  shows "\<exists>x. swap2_write_pairs write_all w bs = Ok x \<and> swap2_given took x (q @ bs)"
  using assms
proof (induction bs arbitrary: q w rule: swap_pairs.induct)
  case (1 a b bs)
  obtain w' where w': "write_all w [b, a] = Ok w'" "took w' (swap_pairs q @ [b, a])"
    using write_every [OF "1.prems"(2)] by blast
  with "1.prems" have "even (length (q @ [a, b]))" "took w' (swap_pairs (q @ [a, b]))"
    by (simp_all add: swap_pairs_append)
  from "1.IH" [OF this] w'(1) show ?case by simp
qed (auto simp: swap2_given_def)

lemma swap2_write_spec:
  assumes "swap2_given took x given"
  shows "\<exists>x'. swap2_write write_all x buf = Ok (length buf, x') \<and> swap2_given took x' (given @ buf)"
proof (cases buf)
  case Nil
  with assms show ?thesis by (simp add: swap2_write_def)
next
  case (Cons b bs)
  obtain q where q: "even (length q)" "took (s2w_inner x) (swap_pairs q)"
    "given = q @ (case s2w_pending x of None \<Rightarrow> [] | Some b \<Rightarrow> [b])"
    using assms by (auto simp: swap2_given_def)
  show ?thesis
  proof (cases "s2w_pending x")
    case None
    with swap2_write_pairs_spec [OF q(1,2), of buf] q Cons show ?thesis
      by (auto simp: swap2_write_def)
  next
    case (Some a)
    obtain w where w: "write_all (s2w_inner x) [b, a] = Ok w" "took w (swap_pairs q @ [b, a])"
      using write_every [OF q(2)] by blast
    with q have "even (length (q @ [a, b]))" "took w (swap_pairs (q @ [a, b]))"
      by (simp_all add: swap_pairs_append)
    from swap2_write_pairs_spec [OF this, of bs] q Some Cons w(1) show ?thesis
      by (auto simp: swap2_write_def)
  qed
qed

lemma swap2_pieces_go:
  "swap2_given took x given \<Longrightarrow>
   \<exists>x'. for_each (\<lambda>p x. and_then (swap2_write write_all x p) (\<lambda>(_, x). Ok x)) ps x = Ok x'
     \<and> swap2_given took x' (given @ concat ps)"
proof (induction ps arbitrary: x given)
  case (Cons p ps)
  obtain x1 where "swap2_write write_all x p = Ok (length p, x1)" "swap2_given took x1 (given @ p)"
    using swap2_write_spec [OF Cons.prems] by blast
  with Cons.IH [of x1 "given @ p"] show ?case by auto
qed auto

lemma swap2_finish_spec:
  assumes "swap2_given took x given"
  shows "\<exists>w. swap2_finish write_all flush x = Ok w \<and> took w (swap_pairs given)"
proof -
  obtain q where q: "even (length q)" "took (s2w_inner x) (swap_pairs q)"
    "given = q @ (case s2w_pending x of None \<Rightarrow> [] | Some b \<Rightarrow> [b])"
    using assms by (auto simp: swap2_given_def)
  obtain w where "(case s2w_pending x of None \<Rightarrow> Ok (s2w_inner x) | Some b \<Rightarrow> write_all (s2w_inner x) [b]) = Ok w"
    "took w (swap_pairs given)"
    using q write_every [OF q(2)] by (cases "s2w_pending x") (auto simp: swap_pairs_append)
  with flush_keeps [of w] show ?thesis by (auto simp: swap2_finish_def)
qed

lemma swap2_stream:
  assumes "took w []"
  shows "\<exists>w'. and_then (for_each (\<lambda>p x. and_then (swap2_write write_all x p) (\<lambda>(_, x). Ok x)) ps (swap2_writer_new w))
     (swap2_finish write_all flush) = Ok w' \<and> took w' (swap_pairs (concat ps))"
proof -
  have "swap2_given took (swap2_writer_new w) []"
    using assms by (auto simp: swap2_given_def swap2_writer_new_def)
  from swap2_pieces_go [OF this, of ps] swap2_finish_spec show ?thesis by fastforce
qed

subsection \<open>Swap4Writer\<close>

lemma swap4_quads_spec:
  assumes "4 dvd length q" and "took w (swap_quads q)"
  shows "\<exists>w' p rest. swap4_quads write_all w bs = Ok (w', rest) \<and> bs = p @ rest \<and> length rest < 4
     \<and> 4 dvd length (q @ p) \<and> took w' (swap_quads (q @ p))"
  using assms
proof (induction bs arbitrary: q w rule: swap_quads.induct)
  case (1 a b c d bs)
  obtain w' where w': "write_all w [d, c, b, a] = Ok w'" "took w' (swap_quads q @ [d, c, b, a])"
    using write_every [OF "1.prems"(2)] by blast
  with "1.prems" have prem: "4 dvd length (q @ [a, b, c, d])" "took w' (swap_quads (q @ [a, b, c, d]))"
    by (simp_all add: swap_quads_append dvd_four)
  from "1.IH" [OF this] obtain w'' p rest where
    "swap4_quads write_all w' bs = Ok (w'', rest)" "bs = p @ rest" "length rest < 4"
    "4 dvd length ((q @ [a, b, c, d]) @ p)" "took w'' (swap_quads ((q @ [a, b, c, d]) @ p))" by blast
  with w'(1) show ?case by (intro exI [of _ w''] exI [of _ "[a, b, c, d] @ p"] exI [of _ rest]) simp
qed auto

lemma swap4_save_spec:
  "k + length bs < 4 \<Longrightarrow> length pending = 4 \<Longrightarrow>
   \<exists>pending'. swap4_save bs pending k = (pending', k + length bs) \<and> length pending' = 4
     \<and> take (k + length bs) pending' = take k pending @ bs"
proof (induction bs arbitrary: k pending)
  case (Cons b bs)
  obtain pending' where p: "swap4_save bs (pending[k := b]) (Suc k) = (pending', Suc k + length bs)"
    "length pending' = 4" "take (Suc k + length bs) pending' = take (Suc k) (pending[k := b]) @ bs"
    using Cons.IH [of "Suc k" "pending[k := b]"] Cons.prems by auto
  moreover have "take (Suc k) (pending[k := b]) = take k pending @ [b]"
    using Cons.prems by (simp add: take_Suc_conv_app_nth)
  ultimately show ?case by simp
qed simp

lemma rev_four: "length xs = 4 \<Longrightarrow> rev xs = [xs ! 3, xs ! 2, xs ! 1, xs ! 0]"
  by (auto simp: length_Suc_conv numeral_eq_Suc)

lemma swap_quads_four: "length xs = 4 \<Longrightarrow> swap_quads xs = [xs ! 3, xs ! 2, xs ! 1, xs ! 0]"
  by (auto simp: length_Suc_conv numeral_eq_Suc)

lemma swap4_complete_spec:
  assumes "swap4_given took x given"
  shows "\<exists>x' rest. swap4_complete write_all x buf = Ok (x', rest)
     \<and> (\<exists>p. buf = p @ rest \<and> swap4_given took x' (given @ p)) \<and> (rest \<noteq> [] \<longrightarrow> s4w_pending_len x' = 0)"
  using assms
proof (induction buf arbitrary: x given)
  case Nil
  then show ?case by simp
next
  case (Cons b bs)
  obtain q where q: "4 dvd length q" "took (s4w_inner x) (swap_quads q)"
    "given = q @ take (s4w_pending_len x) (s4w_pending x)" "s4w_pending_len x < 4" "length (s4w_pending x) = 4"
    using Cons.prems by (auto simp: swap4_given_def)
  let ?k = "s4w_pending_len x" and ?pending = "(s4w_pending x)[s4w_pending_len x := b]"
  have upd: "take (Suc ?k) ?pending = take ?k (s4w_pending x) @ [b]"
    using q by (simp add: take_Suc_conv_app_nth)
  consider "?k = 0" | "0 < ?k" "?k + 1 < 4" | "?k + 1 = 4" using q by linarith
  then show ?case
  proof cases
    case 1
    with Cons.prems show ?thesis by (intro exI [of _ x] exI [of _ "b # bs"]) simp
  next
    case 2
    let ?x = "x\<lparr>s4w_pending := ?pending, s4w_pending_len := ?k + 1\<rparr>"
    have "swap4_given took ?x (given @ [b])"
      using q 2 upd by (auto simp: swap4_given_def)
    from Cons.IH [OF this] 2 show ?thesis by (auto simp: Let_def)
  next
    case 3
    obtain w where w: "write_all (s4w_inner x) [?pending ! 3, ?pending ! 2, ?pending ! 1, ?pending ! 0] = Ok w"
      "took w (swap_quads q @ [?pending ! 3, ?pending ! 2, ?pending ! 1, ?pending ! 0])"
      using write_every [OF q(2)] by blast
    let ?x = "x\<lparr>s4w_pending := ?pending, s4w_inner := w, s4w_pending_len := 0\<rparr>"
    have "take (Suc ?k) ?pending = ?pending" using 3 q by simp
    then have given: "given @ [b] = q @ ?pending" using q upd by simp
    have "took w (swap_quads (q @ ?pending))"
      using w q swap_quads_four [of ?pending] by (simp add: swap_quads_append)
    moreover have "4 dvd length (q @ ?pending)" using q by simp
    ultimately have "swap4_given took ?x (q @ ?pending)"
      using q(5) by (auto simp: swap4_given_def)
    then have "swap4_given took ?x (given @ [b])" unfolding given .
    from Cons.IH [OF this] 3 w(1) show ?thesis by (auto simp: Let_def)
  qed
qed

lemma swap4_write_spec:
  assumes "swap4_given took x given"
  shows "\<exists>x'. swap4_write write_all x buf = Ok (length buf, x') \<and> swap4_given took x' (given @ buf)"
proof (cases "buf = []")
  case True
  with assms show ?thesis by (simp add: swap4_write_def)
next
  case False
  obtain x1 rest p where x1: "swap4_complete write_all x buf = Ok (x1, rest)" "buf = p @ rest"
    "swap4_given took x1 (given @ p)" "rest \<noteq> [] \<longrightarrow> s4w_pending_len x1 = 0"
    using swap4_complete_spec [OF assms] by blast
  obtain q where q: "4 dvd length q" "took (s4w_inner x1) (swap_quads q)"
    "given @ p = q @ take (s4w_pending_len x1) (s4w_pending x1)" "s4w_pending_len x1 < 4"
    "length (s4w_pending x1) = 4"
    using x1(3) by (auto simp: swap4_given_def)
  show ?thesis
  proof (cases "rest = []")
    case True
    with x1 False show ?thesis by (cases x1) (auto simp: swap4_write_def)
  next
    case more: False
    with x1(4) have k: "s4w_pending_len x1 = 0" by simp
    obtain w' p' rest' where w': "swap4_quads write_all (s4w_inner x1) rest = Ok (w', rest')"
      "rest = p' @ rest'" "length rest' < 4" "4 dvd length (q @ p')" "took w' (swap_quads (q @ p'))"
      using swap4_quads_spec [OF q(1,2), of rest] by blast
    obtain pending' where save: "swap4_save rest' (s4w_pending x1) 0 = (pending', length rest')"
      "length pending' = 4" "take (length rest') pending' = rest'"
      using swap4_save_spec [of 0 rest' "s4w_pending x1"] w'(3) q(5) by auto
    have "given @ p = q" using q(3) k by simp
    then have given: "given @ buf = (q @ p') @ rest'" using x1(2) w'(2) by (metis append.assoc)
    have "swap4_given took \<lparr>s4w_inner = w', s4w_pending = pending', s4w_pending_len = length rest'\<rparr> (given @ buf)"
      unfolding swap4_given_def given
      by (rule exI [of _ "q @ p'"]) (use w'(3-5) save in simp)
    moreover have "swap4_write write_all x buf =
        Ok (length buf, \<lparr>s4w_inner = w', s4w_pending = pending', s4w_pending_len = length rest'\<rparr>)"
      using False x1(1) w'(1) save(1) k by (simp add: swap4_write_def)
    ultimately show ?thesis by blast
  qed
qed

lemma swap4_pieces_go:
  "swap4_given took x given \<Longrightarrow>
   \<exists>x'. for_each (\<lambda>p x. and_then (swap4_write write_all x p) (\<lambda>(_, x). Ok x)) ps x = Ok x'
     \<and> swap4_given took x' (given @ concat ps)"
proof (induction ps arbitrary: x given)
  case (Cons p ps)
  obtain x1 where "swap4_write write_all x p = Ok (length p, x1)" "swap4_given took x1 (given @ p)"
    using swap4_write_spec [OF Cons.prems] by blast
  with Cons.IH [of x1 "given @ p"] show ?case by auto
qed auto

lemma write_single_bytes:
  "took w d \<Longrightarrow> \<exists>w'. for_each (\<lambda>i w. write_all w [f i]) is w = Ok w' \<and> took w' (d @ map f is)"
proof (induction "is" arbitrary: w d)
  case (Cons i "is")
  obtain w1 where "write_all w [f i] = Ok w1" "took w1 (d @ [f i])" using write_every [OF Cons.prems] by blast
  with Cons.IH [of w1 "d @ [f i]"] show ?case by auto
qed auto

lemma swap4_finish_spec:
  assumes "swap4_given took x given"
  shows "\<exists>w. swap4_finish write_all flush x = Ok w \<and> took w (swap_quads given)"
proof -
  obtain q where q: "4 dvd length q" "took (s4w_inner x) (swap_quads q)"
    "given = q @ take (s4w_pending_len x) (s4w_pending x)" "s4w_pending_len x < 4" "length (s4w_pending x) = 4"
    using assms by (auto simp: swap4_given_def)
  have "map ((!) (s4w_pending x)) [0..<s4w_pending_len x] = take (s4w_pending_len x) (s4w_pending x)"
    by (rule nth_equalityI) (use q in simp_all)
  then have "map ((!) (s4w_pending x)) (rev [0..<s4w_pending_len x]) = rev (take (s4w_pending_len x) (s4w_pending x))"
    by (metis rev_map)
  moreover obtain w where
    "for_each (\<lambda>i w. write_all w [s4w_pending x ! i]) (rev [0..<s4w_pending_len x]) (s4w_inner x) = Ok w"
    "took w (swap_quads q @ map ((!) (s4w_pending x)) (rev [0..<s4w_pending_len x]))"
    using write_single_bytes [OF q(2)] by blast
  ultimately show ?thesis
    using q flush_keeps [of w] by (auto simp: swap4_finish_def swap_quads_append swap_quads_short)
qed

lemma swap4_stream:
  assumes "took w []"
  shows "\<exists>w'. and_then (for_each (\<lambda>p x. and_then (swap4_write write_all x p) (\<lambda>(_, x). Ok x)) ps (swap4_writer_new w))
     (swap4_finish write_all flush) = Ok w' \<and> took w' (swap_quads (concat ps))"
proof -
  have "swap4_given took (swap4_writer_new w) []"
    using assms by (auto simp: swap4_given_def swap4_writer_new_def)
  from swap4_pieces_go [OF this, of ps] swap4_finish_spec show ?thesis by fastforce
qed

end

end
