(* ===== verification/Encoder_Chain.thy ===== *)
theory Encoder_Chain
  imports Frame_Encoders Swap_Filter
begin

text \<open>
  \<^verbatim>\<open>src/src/encoder.rs\<close> and the stack of encoders that \<open>create_writer\<close> of
  \<^verbatim>\<open>src/src/writer.rs\<close> builds over the archive's output: an \<open>Encoder\<close> per method, each on a
  \<open>CountingWriter\<close> on the next writer. The state of an \<open>Encoder<W>\<close> is the pair of its variant
  and of the writer \<open>W\<close> below; a variant that \<open>take\<close> has emptied is \<open>None\<close>. The stack is the
  list of its layers, the outermost first, with the output: a layer is its variant and the
  shared and the own count of its \<open>CountingWriter\<close>. The functions on it recurse on the depth, which is the length
  of that list.
\<close>

section \<open>One encoder (encoder.rs)\<close>

datatype 'e encoder =
  Copy_encoder
| Bcj_encoder "'e option"
| Delta_encoder 'e
| Swap2_encoder "u8 option option"
| Swap4_encoder "(bytes \<times> usize) option"
| Lzma_encoder "'e option"
| Lzma2_encoder "'e option"
| Lzma2_mt_encoder "'e option"
| Ppmd_encoder "'e option"
| Brotli_encoder "'e brotli_encoder"
| Bzip2_encoder "'e option"
| Deflate_encoder "'e option"
| Lz4_encoder "'e lz4_encoder option"
| Zstd_encoder "'e option"
| Aes_encoder aes_encoder

text \<open>The arms of \<open>write\<close> for an \<open>Option\<close>: an empty buffer finishes the encoder and is passed
  on to the writer below, with \<open>?\<close> or with its result ignored.\<close>

definition write_or_finish ::
    "('x option \<Rightarrow> 'e encoder) \<Rightarrow> ('x \<times> 'w) writing \<Rightarrow> ('x \<times> 'w \<Rightarrow> 'w io_result) \<Rightarrow> ('w \<Rightarrow> 'w io_result) \<Rightarrow>
     'x option \<Rightarrow> 'w \<Rightarrow> bytes \<Rightarrow> (usize \<times> 'e encoder \<times> 'w) io_result" where
  "write_or_finish variant write finish pass_on x w buf =
     (case x of
        None \<Rightarrow> Panic
      | Some x \<Rightarrow>
          if buf = [] then
            and_then (finish (x, w)) (\<lambda>w.
            and_then (pass_on w) (\<lambda>w. Ok (0, variant None, w)))
          else and_then (write (x, w) buf) (\<lambda>(n, x, w). Ok (n, variant (Some x), w)))"

definition pass_on :: "'w writing \<Rightarrow> 'w \<Rightarrow> 'w io_result" where
  "pass_on put w = and_then (put w []) (\<lambda>(_, w). Ok w)"

definition pass_on_ignoring :: "'w writing \<Rightarrow> 'w \<Rightarrow> 'w io_result" where
  "pass_on_ignoring put w =
     (case put w [] of Ok (_, w) \<Rightarrow> Ok w | Err _ \<Rightarrow> Ok w | Panic \<Rightarrow> Panic | OutOfFuel \<Rightarrow> OutOfFuel)"

text \<open>The swap writers with their output beside them.\<close>

definition swap2_pair_write :: "'w write_all \<Rightarrow> (u8 option \<times> 'w) writing" where
  "swap2_pair_write write_all x buf =
     and_then (swap2_write write_all \<lparr>s2w_inner = snd x, s2w_pending = fst x\<rparr> buf) (\<lambda>(n, y).
     Ok (n, s2w_pending y, s2w_inner y))"

definition swap4_pair_write :: "'w write_all \<Rightarrow> ((bytes \<times> usize) \<times> 'w) writing" where
  "swap4_pair_write write_all x buf =
     and_then (swap4_write write_all
       \<lparr>s4w_inner = snd x, s4w_pending = fst (fst x), s4w_pending_len = snd (fst x)\<rparr> buf) (\<lambda>(n, y).
     Ok (n, (s4w_pending y, s4w_pending_len y), s4w_inner y))"

definition swap2_pair_finish :: "'w write_all \<Rightarrow> 'w flushing \<Rightarrow> u8 option \<times> 'w \<Rightarrow> 'w io_result" where
  "swap2_pair_finish write_all flush x =
     swap2_finish write_all flush \<lparr>s2w_inner = snd x, s2w_pending = fst x\<rparr>"

definition swap4_pair_finish :: "'w write_all \<Rightarrow> 'w flushing \<Rightarrow> (bytes \<times> usize) \<times> 'w \<Rightarrow> 'w io_result" where
  "swap4_pair_finish write_all flush x =
     swap4_finish write_all flush \<lparr>s4w_inner = snd x, s4w_pending = fst (fst x), s4w_pending_len = snd (fst x)\<rparr>"

text \<open>The delta writer of lzma-rust2 has nothing to finish: \<open>write\<close> hands it the empty buffer
  as any other, and it reaches the writer below.\<close>

definition encoder_write ::
    "'e codecs \<Rightarrow> 'w writing \<Rightarrow> 'w write_all \<Rightarrow> 'w flushing \<Rightarrow> ('e encoder \<times> 'w) writing" where
  "encoder_write X put write_all flush ew buf =
    (case ew of (enc, w) \<Rightarrow>
      let crate = (\<lambda>variant pass x.
            write_or_finish variant (crate_write X write_all) (crate_finish X write_all) pass x w buf) in
      case enc of
        Copy_encoder \<Rightarrow> and_then (put w buf) (\<lambda>(n, w). Ok (n, Copy_encoder, w))
      | Delta_encoder e \<Rightarrow>
          if buf = [] then and_then (put w []) (\<lambda>(n, w). Ok (n, Delta_encoder e, w))
          else and_then (crate_write X write_all (e, w) buf) (\<lambda>(n, e, w). Ok (n, Delta_encoder e, w))
      | Bcj_encoder x \<Rightarrow> crate Bcj_encoder (pass_on put) x
      | Swap2_encoder x \<Rightarrow>
          write_or_finish Swap2_encoder (swap2_pair_write write_all) (swap2_pair_finish write_all flush)
            (pass_on put) x w buf
      | Swap4_encoder x \<Rightarrow>
          write_or_finish Swap4_encoder (swap4_pair_write write_all) (swap4_pair_finish write_all flush)
            (pass_on put) x w buf
      | Lzma_encoder x \<Rightarrow> crate Lzma_encoder (pass_on_ignoring put) x
      | Lzma2_encoder x \<Rightarrow> crate Lzma2_encoder (pass_on_ignoring put) x
      | Lzma2_mt_encoder x \<Rightarrow> crate Lzma2_mt_encoder (pass_on_ignoring put) x
      | Ppmd_encoder x \<Rightarrow> crate Ppmd_encoder (pass_on_ignoring put) x
      | Brotli_encoder b \<Rightarrow>
          and_then (brotli_write X write_all (b, w) buf) (\<lambda>(n, b, w). Ok (n, Brotli_encoder b, w))
      | Bzip2_encoder x \<Rightarrow> crate Bzip2_encoder (pass_on_ignoring put) x
      | Deflate_encoder x \<Rightarrow> crate Deflate_encoder (pass_on_ignoring put) x
      | Lz4_encoder x \<Rightarrow>
          write_or_finish Lz4_encoder (lz4_write X write_all) (lz4_finish X write_all)
            (pass_on_ignoring put) x w buf
      | Zstd_encoder x \<Rightarrow> crate Zstd_encoder (pass_on_ignoring put) x
      | Aes_encoder a \<Rightarrow>
          and_then (aes_write (cd_cbc X) put write_all (a, w) buf) (\<lambda>(n, a, w). Ok (n, Aes_encoder a, w)))"

definition encoder_flush ::
    "'e codecs \<Rightarrow> 'w write_all \<Rightarrow> 'w flushing \<Rightarrow> ('e encoder \<times> 'w) flushing" where
  "encoder_flush X write_all flush ew =
    (case ew of (enc, w) \<Rightarrow>
      let below = and_then (flush w) (\<lambda>w. Ok (enc, w));
          crate = (\<lambda>variant x. case x of
              None \<Rightarrow> Panic
            | Some e \<Rightarrow> and_then (crate_flush X write_all flush (e, w)) (\<lambda>(e, w). Ok (variant (Some e), w))) in
      case enc of
        Copy_encoder \<Rightarrow> below
      | Delta_encoder e \<Rightarrow>
          and_then (crate_flush X write_all flush (e, w)) (\<lambda>(e, w). Ok (Delta_encoder e, w))
      | Bcj_encoder x \<Rightarrow> crate Bcj_encoder x
      | Swap2_encoder x \<Rightarrow> (if x = None then Panic else below)
      | Swap4_encoder x \<Rightarrow> (if x = None then Panic else below)
      | Lzma_encoder x \<Rightarrow> crate Lzma_encoder x
      | Lzma2_encoder x \<Rightarrow> crate Lzma2_encoder x
      | Lzma2_mt_encoder x \<Rightarrow> crate Lzma2_mt_encoder x
      | Ppmd_encoder x \<Rightarrow> crate Ppmd_encoder x
      | Brotli_encoder b \<Rightarrow>
          and_then (brotli_flush X write_all flush (b, w)) (\<lambda>(b, w). Ok (Brotli_encoder b, w))
      | Bzip2_encoder x \<Rightarrow> crate Bzip2_encoder x
      | Deflate_encoder x \<Rightarrow> crate Deflate_encoder x
      | Lz4_encoder x \<Rightarrow>
          (case x of
             None \<Rightarrow> Panic
           | Some l \<Rightarrow> and_then (lz4_flush X write_all flush (l, w)) (\<lambda>(l, w). Ok (Lz4_encoder (Some l), w)))
      | Zstd_encoder x \<Rightarrow> crate Zstd_encoder x
      | Aes_encoder a \<Rightarrow>
          and_then (aes_flush (cd_cbc X) write_all (a, w)) (\<lambda>(a, w). Ok (Aes_encoder a, w)))"

definition add_encoder :: "libs \<Rightarrow> 'e codecs \<Rightarrow> encoder_configuration \<Rightarrow> 'e encoder result" where
  "add_encoder L X conf =
    (let m = config_method conf; i = method_id m;
         crate = (\<lambda>variant opts. and_then (cd_new X m opts) (\<lambda>e. Ok (variant (Some e)))) in
     if i = id_copy then Ok Copy_encoder
     else if i = id_delta then
       and_then (cd_new X m (Some (case config_options conf of Some (Delta d) \<Rightarrow> Delta d | _ \<Rightarrow> Delta 1)))
         (\<lambda>e. Ok (Delta_encoder e))
     else if i \<in> set ids_bcj then crate Bcj_encoder None
     else if i = id_swap2 then Ok (Swap2_encoder (Some None))
     else if i = id_swap4 then Ok (Swap4_encoder (Some ([0, 0, 0, 0], 0)))
     else if i = id_lzma then
       crate Lzma_encoder (Some (case config_options conf of Some (Lzma lo) \<Rightarrow> Lzma lo | _ \<Rightarrow> Lzma (lzma_default L)))
     else if i = id_lzma2 then
       (let lo = (case config_options conf of Some (Lzma2 lo) \<Rightarrow> lo | _ \<Rightarrow> lzma2_default L) in
        if l2_threads lo = 0 \<or> l2_threads lo = 1 then crate Lzma2_encoder (Some (Lzma2 lo))
        else crate Lzma2_mt_encoder (Some (Lzma2 lo)))
     else if i = id_ppmd then
       crate Ppmd_encoder (Some (case config_options conf of Some (Ppmd po) \<Rightarrow> Ppmd po | _ \<Rightarrow> Ppmd (ppmd_from_level 6)))
     else if i = id_brotli then
       (let bo = (case config_options conf of Some (Brotli bo) \<Rightarrow> bo | _ \<Rightarrow> brotli_default) in
        Ok (Brotli_encoder (brotli_encoder_new X (br_quality bo) (br_window bo) (unat (br_skippable_frame_size bo)))))
     else if i = id_bzip2 then
       crate Bzip2_encoder (Some (case config_options conf of Some (Bzip2 bo) \<Rightarrow> Bzip2 bo | _ \<Rightarrow> Bzip2 6))
     else if i = id_deflate then
       crate Deflate_encoder (Some (case config_options conf of Some (Deflate d) \<Rightarrow> Deflate d | _ \<Rightarrow> Deflate 6))
     else if i = id_lz4 then
       and_then (lz4_encoder_new X (unat (case config_options conf of Some (Lz4 n) \<Rightarrow> n | _ \<Rightarrow> 0)))
         (\<lambda>l. Ok (Lz4_encoder (Some l)))
     else if i = id_zstd then
       crate Zstd_encoder (Some (case config_options conf of Some (Zstd z) \<Rightarrow> Zstd z | _ \<Rightarrow> Zstd 3))
     else if i = id_aes256_sha256 then
       (case config_options conf of
          Some (Aes ao) \<Rightarrow> and_then (aes_encoder_new (cd_sha256 X) ao) (\<lambda>a. Ok (Aes_encoder a))
        | _ \<Rightarrow> Err PasswordRequired)
     else Err (UnsupportedCompressionMethod (map of_char (method_name m))))"

section \<open>The stack of encoders (writer.rs)\<close>

type_synonym ('e, 'o) encoders = "('e encoder \<times> usize \<times> usize) list \<times> 'o"

record 'w io_ops =
  io_write :: "'w writing"
  io_flush :: "'w flushing"

text \<open>An encoder on a counting writer on the writer \<open>B\<close>.\<close>

definition layer_write :: "'e codecs \<Rightarrow> 'w io_ops \<Rightarrow> ('e encoder \<times> 'w counting_writer) writing" where
  "layer_write X B =
     encoder_write X (counting_write (io_write B)) (counting_write_all (write_all_default (io_write B)))
       (counting_flush (io_flush B))"

definition layer_flush :: "'e codecs \<Rightarrow> 'w io_ops \<Rightarrow> ('e encoder \<times> 'w counting_writer) flushing" where
  "layer_flush X B =
     encoder_flush X (counting_write_all (write_all_default (io_write B))) (counting_flush (io_flush B))"

definition counting_at :: "usize \<times> usize \<Rightarrow> 'w \<Rightarrow> 'w counting_writer" where
  "counting_at n w = \<lparr>cw_inner = w, cw_counting = fst n, cw_written_bytes = snd n\<rparr>"

primrec stack_ops :: "'e codecs \<Rightarrow> 'o io_ops \<Rightarrow> nat \<Rightarrow> ('e, 'o) encoders io_ops" where
  "stack_ops X base 0 =
     \<lparr>io_write = (\<lambda>(ls, x) buf. and_then (io_write base x buf) (\<lambda>(n, x). Ok (n, ls, x))),
      io_flush = (\<lambda>(ls, x). and_then (io_flush base x) (\<lambda>x. Ok (ls, x)))\<rparr>"
| "stack_ops X base (Suc d) =
     \<lparr>io_write = (\<lambda>(ls, x) buf.
        case ls of
          [] \<Rightarrow> Panic
        | (enc, count) # ls \<Rightarrow>
            and_then (layer_write X (stack_ops X base d) (enc, counting_at count (ls, x)) buf) (\<lambda>(n, enc, c).
            case cw_inner c of (ls, x) \<Rightarrow> Ok (n, (enc, cw_counting c, cw_written_bytes c) # ls, x))),
      io_flush = (\<lambda>(ls, x).
        case ls of
          [] \<Rightarrow> Panic
        | (enc, count) # ls \<Rightarrow>
            and_then (layer_flush X (stack_ops X base d) (enc, counting_at count (ls, x))) (\<lambda>(enc, c).
            case cw_inner c of (ls, x) \<Rightarrow> Ok ((enc, cw_counting c, cw_written_bytes c) # ls, x)))\<rparr>"

definition create_writer ::
    "libs \<Rightarrow> 'e codecs \<Rightarrow> encoder_configuration list \<Rightarrow> 'o \<Rightarrow> ('e, 'o) encoders result" where
  "create_writer L X methods out =
     and_then (for_each (\<lambda>m ls. and_then (add_encoder L X m) (\<lambda>e. Ok ((e, 0, 0) # ls))) methods [])
       (\<lambda>ls. Ok (ls, out))"

text \<open>The shared counters, in the order in which \<open>create_writer\<close> pushes them: all but that of
  the innermost encoder.\<close>

definition more_sizes :: "('e, 'o) encoders \<Rightarrow> usize list" where
  "more_sizes w = rev (map (\<lambda>(_, counting, _). counting) (butlast (fst w)))"

end
