(* ===== verification/Encoder_Stack.thy ===== *)
theory Encoder_Stack
  imports Encoder_Chain
begin

text \<open>
  What the encoders promise: a layer of the stack is a writer that can be finished, and what it
  has given the writer below is then an encoding of what it was given (\<open>encoder_code\<close>). So
  the whole stack, whatever its depth, leaves at the output the encoding of the data by all
  methods (\<open>stack_code\<close>), and its counters hold the sizes of the streams between the encoders.

  Of the encoders of other crates this relies on \<open>valid_encoder\<close>: while it is written to and
  flushed it takes some of every buffer, and what it gave out until it is finished stands in the
  relation \<open>R\<close> to what it took. Brotli is left out: see \<open>brotli_keeps_finish\<close>.
\<close>

section \<open>Encoders of other crates\<close>

inductive crate_run :: "'e codecs \<Rightarrow> 'e \<Rightarrow> 'e \<Rightarrow> bytes \<Rightarrow> bytes \<Rightarrow> bool" for X e0 where
  run_start: "crate_run X e0 e0 [] []"
| run_write: "crate_run X e0 e d out \<Longrightarrow> buf \<noteq> [] \<Longrightarrow> cd_write X e buf = Ok (n, bs, e') \<Longrightarrow>
     crate_run X e0 e' (d @ take n buf) (out @ bs)"
| run_flush: "crate_run X e0 e d out \<Longrightarrow> cd_flush X e = Ok (bs, e') \<Longrightarrow> crate_run X e0 e' d (out @ bs)"

definition valid_encoder :: "'e codecs \<Rightarrow> (bytes \<Rightarrow> bytes \<Rightarrow> bool) \<Rightarrow> 'e \<Rightarrow> bool" where
  "valid_encoder X R e0 \<longleftrightarrow>
     (\<forall>e d out. crate_run X e0 e d out \<longrightarrow>
        (\<forall>buf. buf \<noteq> [] \<longrightarrow> (\<exists>n bs e'. cd_write X e buf = Ok (n, bs, e') \<and> 0 < n \<and> n \<le> length buf))
        \<and> (\<exists>bs e'. cd_flush X e = Ok (bs, e'))
        \<and> (\<exists>bs. cd_finish X e = Ok bs \<and> R d (out @ bs)))"

lemma valid_encoderD:
  assumes "valid_encoder X R e0" and "crate_run X e0 e d out"
  shows "buf \<noteq> [] \<Longrightarrow> \<exists>n bs e'. cd_write X e buf = Ok (n, bs, e') \<and> 0 < n \<and> n \<le> length buf"
    and "\<exists>bs e'. cd_flush X e = Ok (bs, e')"
    and "\<exists>bs. cd_finish X e = Ok bs \<and> R d (out @ bs)"
  using assms(1) [unfolded valid_encoder_def, rule_format, OF assms(2)] by blast+

text \<open>The delta filter gives out everything at once.\<close>

definition valid_filter :: "'e codecs \<Rightarrow> (bytes \<Rightarrow> bytes \<Rightarrow> bool) \<Rightarrow> 'e \<Rightarrow> bool" where
  "valid_filter X R e0 \<longleftrightarrow> valid_encoder X R e0 \<and> (\<forall>e d out. crate_run X e0 e d out \<longrightarrow> R d out)"

text \<open>LZ4 frames: every piece is compressed to a frame of its own.\<close>

definition lz4_frame_bytes :: "'e codecs \<Rightarrow> bytes \<Rightarrow> bytes" where
  "lz4_frame_bytes X d =
     (case cd_lz4_frame X d of
        Ok c \<Rightarrow> if c = [] then []
                else write_u32_le skippable_frame_magic @ write_u32_le 4 @ write_u32_le (of_nat (length c)) @ c
      | _ \<Rightarrow> [])"

definition lz4_frames_of :: "'e codecs \<Rightarrow> usize \<Rightarrow> bytes \<Rightarrow> bytes \<Rightarrow> bool" where
  "lz4_frames_of X frame_size d c \<longleftrightarrow>
     (\<exists>ds. d = concat ds \<and> c = concat (map (lz4_frame_bytes X) ds)
        \<and> (\<forall>p\<in>set ds. p \<noteq> [] \<and> length p \<le> frame_size))"

section \<open>The code of an encoder\<close>

fun fresh_encoder :: "'e codecs \<Rightarrow> (bytes \<Rightarrow> bytes \<Rightarrow> bool) \<Rightarrow> 'e encoder \<Rightarrow> bool" where
  "fresh_encoder X R Copy_encoder = True"
| "fresh_encoder X R (Swap2_encoder p) = (p = Some None)"
| "fresh_encoder X R (Swap4_encoder p) = (p = Some ([0, 0, 0, 0], 0))"
| "fresh_encoder X R (Aes_encoder a) =
     (\<exists>k. a = \<lparr>ae_cipher = cipher_new k, ae_buffer = [], ae_finished = False, ae_write_size = 0\<rparr>)"
| "fresh_encoder X R (Lz4_encoder l) =
     (case l of
        Some (Lz4_standard e) \<Rightarrow> valid_encoder X R e
      | Some (Lz4_framed frame_size un) \<Rightarrow>
          0 < frame_size \<and> un = [] \<and> (\<forall>d. d \<noteq> [] \<longrightarrow> (\<exists>c. cd_lz4_frame X d = Ok c))
      | None \<Rightarrow> False)"
| "fresh_encoder X R (Delta_encoder e) = valid_filter X R e"
| "fresh_encoder X R (Brotli_encoder b) = False"
| "fresh_encoder X R (Bcj_encoder x) = (case x of Some e \<Rightarrow> valid_encoder X R e | None \<Rightarrow> False)"
| "fresh_encoder X R (Lzma_encoder x) = (case x of Some e \<Rightarrow> valid_encoder X R e | None \<Rightarrow> False)"
| "fresh_encoder X R (Lzma2_encoder x) = (case x of Some e \<Rightarrow> valid_encoder X R e | None \<Rightarrow> False)"
| "fresh_encoder X R (Lzma2_mt_encoder x) = (case x of Some e \<Rightarrow> valid_encoder X R e | None \<Rightarrow> False)"
| "fresh_encoder X R (Ppmd_encoder x) = (case x of Some e \<Rightarrow> valid_encoder X R e | None \<Rightarrow> False)"
| "fresh_encoder X R (Bzip2_encoder x) = (case x of Some e \<Rightarrow> valid_encoder X R e | None \<Rightarrow> False)"
| "fresh_encoder X R (Deflate_encoder x) = (case x of Some e \<Rightarrow> valid_encoder X R e | None \<Rightarrow> False)"
| "fresh_encoder X R (Zstd_encoder x) = (case x of Some e \<Rightarrow> valid_encoder X R e | None \<Rightarrow> False)"

definition encoder_code :: "'e codecs \<Rightarrow> (bytes \<Rightarrow> bytes \<Rightarrow> bool) \<Rightarrow> 'e encoder \<Rightarrow> bytes \<Rightarrow> bytes \<Rightarrow> bool" where
  "encoder_code X R enc d c \<longleftrightarrow>
     (case enc of
        Copy_encoder \<Rightarrow> c = d
      | Swap2_encoder _ \<Rightarrow> c = swap_pairs d
      | Swap4_encoder _ \<Rightarrow> c = swap_quads d
      | Aes_encoder a \<Rightarrow> c = cbc_stream (cd_cbc X) (ci_key (ae_cipher a)) (ci_iv (ae_cipher a)) (padded d)
      | Lz4_encoder (Some (Lz4_framed frame_size _)) \<Rightarrow> lz4_frames_of X frame_size d c
      | _ \<Rightarrow> R d c)"

text \<open>The streams between the layers, from the data to what reaches the output.\<close>

fun stack_code ::
    "'e codecs \<Rightarrow> ((bytes \<Rightarrow> bytes \<Rightarrow> bool) \<times> 'e encoder) list \<Rightarrow> bytes \<Rightarrow> bytes \<Rightarrow> usize list \<Rightarrow> bool" where
  "stack_code X [] d c ns \<longleftrightarrow> c = d \<and> ns = []"
| "stack_code X ((R, enc) # es) d c ns \<longleftrightarrow>
     (\<exists>m ns'. encoder_code X R enc d m \<and> ns = length m mod 2 ^ 64 # ns' \<and> stack_code X es m c ns')"

section \<open>Each encoder is a writer that can be finished\<close>

context finishing_sink
begin

lemma variant_finishing:
  assumes "\<And>x d buf. G x d \<Longrightarrow> buf \<noteq> [] \<Longrightarrow>
      \<exists>n x'. wr x buf = Ok (n, x') \<and> 0 < n \<and> n \<le> length buf \<and> G x' (d @ take n buf)"
    and "\<And>x d. G x d \<Longrightarrow> \<exists>x'. fls x = Ok x' \<and> G x' d"
    and "\<And>x d. G x d \<Longrightarrow> \<exists>w' c. fin x = Ok w' \<and> K d c \<and> took w' c"
    and "\<And>w c. took w c \<Longrightarrow> \<exists>w'. pass w = Ok w' \<and> finished w' c"
    and "\<And>x w buf. EW (variant x, w) buf = write_or_finish variant wr fin pass x w buf"
    and "\<And>x w. EF (variant (Some x), w) = and_then (fls (x, w)) (\<lambda>(x, w). Ok (variant (Some x), w))"
  shows "finishing_sink EW (write_all_default EW) EF
     (\<lambda>y d. \<exists>x w. y = (variant (Some x), w) \<and> G (x, w) d)
     (\<lambda>y d. \<exists>w c. y = (variant None, w) \<and> K d c \<and> finished w c)"
proof (rule finishing_sinkI)
  fix y d and buf :: bytes
  assume "\<exists>x w. y = (variant (Some x), w) \<and> G (x, w) d" and more: "buf \<noteq> []"
  then obtain x w where y: "y = (variant (Some x), w)" "G (x, w) d" by blast
  obtain n x' w' where "wr (x, w) buf = Ok (n, x', w')" "0 < n" "n \<le> length buf" "G (x', w') (d @ take n buf)"
    using assms(1) [OF y(2) more] by auto
  with y more show "\<exists>n w'. EW y buf = Ok (n, w') \<and> 0 < n \<and> n \<le> length buf
      \<and> (\<exists>x w. w' = (variant (Some x), w) \<and> G (x, w) (d @ take n buf))"
    by (auto simp: assms(5) write_or_finish_def)
next
  fix y d
  assume "\<exists>x w. y = (variant (Some x), w) \<and> G (x, w) d"
  then obtain x w where y: "y = (variant (Some x), w)" "G (x, w) d" by blast
  obtain x' w' where "fls (x, w) = Ok (x', w')" "G (x', w') d" using assms(2) [OF y(2)] by auto
  with y show "\<exists>w'. EF y = Ok w' \<and> (\<exists>x w. w' = (variant (Some x), w) \<and> G (x, w) d)"
    by (auto simp: assms(6))
next
  fix y d
  assume "\<exists>x w. y = (variant (Some x), w) \<and> G (x, w) d"
  then obtain x w where y: "y = (variant (Some x), w)" "G (x, w) d" by blast
  obtain w' c where w': "fin (x, w) = Ok w'" "K d c" "took w' c" using assms(3) [OF y(2)] by blast
  obtain w'' where "pass w' = Ok w''" "finished w'' c" using assms(4) [OF w'(3)] by blast
  with y w' show "\<exists>w'. EW y [] = Ok (0, w') \<and> (\<exists>w c. w' = (variant None, w) \<and> K d c \<and> finished w c)"
    by (auto simp: assms(5) write_or_finish_def)
qed

lemma pass_on_finishes:
  "took w c \<Longrightarrow> \<exists>w'. pass_on put w = Ok w' \<and> finished w' c"
  "took w c \<Longrightarrow> \<exists>w'. pass_on_ignoring put w = Ok w' \<and> finished w' c"
  using finish [of w c] by (auto simp: pass_on_def pass_on_ignoring_def)

subsection \<open>Crate encoders\<close>

definition crate_took :: "'e codecs \<Rightarrow> 'e \<Rightarrow> 'e \<times> 'a \<Rightarrow> bytes \<Rightarrow> bool" where
  "crate_took X e0 x d \<longleftrightarrow> (\<exists>out. crate_run X e0 (fst x) d out \<and> took (snd x) out)"

lemma crate_write_law:
  assumes "valid_encoder X R e0" and "crate_took X e0 x d" and "buf \<noteq> []"
  shows "\<exists>n x'. crate_write X write_all x buf = Ok (n, x') \<and> 0 < n \<and> n \<le> length buf
    \<and> crate_took X e0 x' (d @ take n buf)"
proof -
  obtain out where out: "crate_run X e0 (fst x) d out" "took (snd x) out"
    using assms(2) by (auto simp: crate_took_def)
  then obtain n bs e' where e': "cd_write X (fst x) buf = Ok (n, bs, e')" "0 < n" "n \<le> length buf"
    using valid_encoderD(1) [OF assms(1) _ assms(3)] by blast
  obtain w where "write_all (snd x) bs = Ok w" "took w (out @ bs)" using write_every [OF out(2)] by blast
  with run_write [OF out(1) assms(3) e'(1)] e' show ?thesis
    by (auto simp: crate_write_def crate_took_def)
qed

lemma crate_flush_law:
  assumes "valid_encoder X R e0" and "crate_took X e0 x d"
  shows "\<exists>x'. crate_flush X write_all flush x = Ok x' \<and> crate_took X e0 x' d"
proof -
  obtain out where out: "crate_run X e0 (fst x) d out" "took (snd x) out"
    using assms(2) by (auto simp: crate_took_def)
  then obtain bs e' where e': "cd_flush X (fst x) = Ok (bs, e')"
    using valid_encoderD(2) [OF assms(1)] by blast
  obtain w where w: "write_all (snd x) bs = Ok w" "took w (out @ bs)" using write_every [OF out(2)] by blast
  obtain w' where "flush w = Ok w'" "took w' (out @ bs)" using flush_keeps [OF w(2)] by blast
  with run_flush [OF out(1) e'] e' w show ?thesis
    by (auto simp: crate_flush_def crate_took_def)
qed

lemma crate_finish_law:
  assumes "valid_encoder X R e0" and "crate_took X e0 x d"
  shows "\<exists>w c. crate_finish X write_all x = Ok w \<and> R d c \<and> took w c"
proof -
  obtain out where out: "crate_run X e0 (fst x) d out" "took (snd x) out"
    using assms(2) by (auto simp: crate_took_def)
  then obtain bs where "cd_finish X (fst x) = Ok bs" "R d (out @ bs)"
    using valid_encoderD(3) [OF assms(1)] by blast
  moreover obtain w where "write_all (snd x) bs = Ok w" "took w (out @ bs)" using write_every [OF out(2)] by blast
  ultimately show ?thesis by (auto simp: crate_finish_def)
qed

lemma crate_took_start: "took w [] \<Longrightarrow> crate_took X e0 (e0, w) []"
  using run_start by (fastforce simp: crate_took_def)

lemma crate_finishing:
  assumes valid: "valid_encoder X R e0"
    and pass: "pass = pass_on put \<or> pass = pass_on_ignoring put"
    and EW: "\<And>x w buf. EW (variant x, w) buf
        = write_or_finish variant (crate_write X write_all) (crate_finish X write_all) pass x w buf"
    and EF: "\<And>x w. EF (variant (Some x), w)
        = and_then (crate_flush X write_all flush (x, w)) (\<lambda>(x, w). Ok (variant (Some x), w))"
  shows "finishing_sink EW (write_all_default EW) EF
     (\<lambda>y d. \<exists>x w. y = (variant (Some x), w) \<and> crate_took X e0 (x, w) d)
     (\<lambda>y d. \<exists>w c. y = (variant None, w) \<and> R d c \<and> finished w c)"
proof (rule variant_finishing [where wr = "crate_write X write_all" and fls = "crate_flush X write_all flush"
      and fin = "crate_finish X write_all" and pass = pass])
  fix x d and buf :: bytes assume "crate_took X e0 x d" "buf \<noteq> []"
  then show "\<exists>n x'. crate_write X write_all x buf = Ok (n, x') \<and> 0 < n \<and> n \<le> length buf
      \<and> crate_took X e0 x' (d @ take n buf)" by (rule crate_write_law [OF valid])
next
  fix x d assume x: "crate_took X e0 x d"
  show "\<exists>x'. crate_flush X write_all flush x = Ok x' \<and> crate_took X e0 x' d"
    by (rule crate_flush_law [OF valid x])
  show "\<exists>w c. crate_finish X write_all x = Ok w \<and> R d c \<and> took w c"
    by (rule crate_finish_law [OF valid x])
next
  fix w c assume "took w c"
  with pass pass_on_finishes show "\<exists>w'. pass w = Ok w' \<and> finished w' c" by blast
qed (rule EW EF)+

subsection \<open>The encoders of this crate\<close>

text \<open>What the swap writers hold beside what they were given does not depend on the flush.\<close>

lemma swap2_pair_laws:
  assumes G: "swap2_given took \<lparr>s2w_inner = snd x, s2w_pending = fst x\<rparr> d"
  shows "buf \<noteq> [] \<Longrightarrow> \<exists>n x'. swap2_pair_write write_all x buf = Ok (n, x') \<and> 0 < n \<and> n \<le> length buf
      \<and> swap2_given took \<lparr>s2w_inner = snd x', s2w_pending = fst x'\<rparr> (d @ take n buf)"
    and "\<exists>w. flush (snd x) = Ok w \<and> swap2_given took \<lparr>s2w_inner = w, s2w_pending = fst x\<rparr> d"
    and "\<exists>w c. swap2_pair_finish write_all flush x = Ok w \<and> c = swap_pairs d \<and> took w c"
proof -
  obtain y where y: "swap2_write write_all \<lparr>s2w_inner = snd x, s2w_pending = fst x\<rparr> buf = Ok (length buf, y)"
    "swap2_given took y (d @ buf)"
    using swap2_write_spec [OF G] by blast
  then show "buf \<noteq> [] \<Longrightarrow> \<exists>n x'. swap2_pair_write write_all x buf = Ok (n, x') \<and> 0 < n \<and> n \<le> length buf
      \<and> swap2_given took \<lparr>s2w_inner = snd x', s2w_pending = fst x'\<rparr> (d @ take n buf)"
    by (cases y) (simp add: swap2_pair_write_def)
  obtain q where q: "even (length q)" "took (snd x) (swap_pairs q)"
    "d = q @ (case fst x of None \<Rightarrow> [] | Some b \<Rightarrow> [b])"
    using G by (auto simp: swap2_given_def)
  obtain w where "flush (snd x) = Ok w" "took w (swap_pairs q)" using flush_keeps [OF q(2)] by blast
  with q show "\<exists>w. flush (snd x) = Ok w \<and> swap2_given took \<lparr>s2w_inner = w, s2w_pending = fst x\<rparr> d"
    by (auto simp: swap2_given_def)
  show "\<exists>w c. swap2_pair_finish write_all flush x = Ok w \<and> c = swap_pairs d \<and> took w c"
    using swap2_finish_spec [OF G] by (simp add: swap2_pair_finish_def)
qed

abbreviation swap4_pair :: "(bytes \<times> usize) \<times> 'a \<Rightarrow> 'a swap4_writer" where
  "swap4_pair x \<equiv> \<lparr>s4w_inner = snd x, s4w_pending = fst (fst x), s4w_pending_len = snd (fst x)\<rparr>"

lemma swap4_pair_laws:
  assumes G: "swap4_given took (swap4_pair x) d"
  shows "buf \<noteq> [] \<Longrightarrow> \<exists>n x'. swap4_pair_write write_all x buf = Ok (n, x') \<and> 0 < n \<and> n \<le> length buf
      \<and> swap4_given took (swap4_pair x') (d @ take n buf)"
    and "\<exists>w. flush (snd x) = Ok w \<and> swap4_given took (swap4_pair (fst x, w)) d"
    and "\<exists>w c. swap4_pair_finish write_all flush x = Ok w \<and> c = swap_quads d \<and> took w c"
proof -
  obtain y where y: "swap4_write write_all (swap4_pair x) buf = Ok (length buf, y)" "swap4_given took y (d @ buf)"
    using swap4_write_spec [OF G] by blast
  then show "buf \<noteq> [] \<Longrightarrow> \<exists>n x'. swap4_pair_write write_all x buf = Ok (n, x') \<and> 0 < n \<and> n \<le> length buf
      \<and> swap4_given took (swap4_pair x') (d @ take n buf)"
    by (cases y) (simp add: swap4_pair_write_def)
  obtain q where q: "4 dvd length q" "took (snd x) (swap_quads q)" "d = q @ take (snd (fst x)) (fst (fst x))"
    "snd (fst x) < 4" "length (fst (fst x)) = 4"
    using G by (auto simp: swap4_given_def)
  obtain w where "flush (snd x) = Ok w" "took w (swap_quads q)" using flush_keeps [OF q(2)] by blast
  with q show "\<exists>w. flush (snd x) = Ok w \<and> swap4_given took (swap4_pair (fst x, w)) d"
    by (auto simp: swap4_given_def)
  show "\<exists>w c. swap4_pair_finish write_all flush x = Ok w \<and> c = swap_quads d \<and> took w c"
    using swap4_finish_spec [OF G] by (simp add: swap4_pair_finish_def)
qed

subsection \<open>LZ4\<close>

lemma lz4_write_frame_law:
  assumes total: "\<And>d. d \<noteq> [] \<Longrightarrow> \<exists>c. cd_lz4_frame X d = Ok c" and "took w out" and "un \<noteq> []"
  shows "\<exists>w'. lz4_write_frame X write_all w un = Ok w' \<and> took w' (out @ lz4_frame_bytes X un)"
proof -
  obtain c where c: "cd_lz4_frame X un = Ok c" using total [OF assms(3)] by blast
  show ?thesis
  proof (cases "c = []")
    case False
    obtain w' where "for_each (\<lambda>p w. write_all w p) [write_u32_le skippable_frame_magic, write_u32_le 4,
        write_u32_le (of_nat (length c)), c] w = Ok w'"
      "took w' (out @ concat [write_u32_le skippable_frame_magic, write_u32_le 4, write_u32_le (of_nat (length c)), c])"
      using write_pieces [OF assms(2)] by blast
    with c False assms(3) show ?thesis by (simp add: lz4_write_frame_def lz4_frame_bytes_def)
  qed (use c assms in \<open>simp add: lz4_write_frame_def lz4_frame_bytes_def\<close>)
qed

definition lz4_took :: "'e codecs \<Rightarrow> usize \<Rightarrow> bytes \<times> 'a \<Rightarrow> bytes \<Rightarrow> bool" where
  "lz4_took X frame_size x d \<longleftrightarrow>
     length (fst x) < frame_size
     \<and> (\<exists>ds. d = concat ds @ fst x \<and> took (snd x) (concat (map (lz4_frame_bytes X) ds))
           \<and> (\<forall>p\<in>set ds. p \<noteq> [] \<and> length p \<le> frame_size))"

lemma lz4_fill_law:
  assumes total: "\<And>d. d \<noteq> [] \<Longrightarrow> \<exists>c. cd_lz4_frame X d = Ok c"
  shows "lz4_took X frame_size (un, w) d \<Longrightarrow>
    \<exists>x. lz4_fill X write_all frame_size un w buf = Ok x \<and> lz4_took X frame_size x (d @ buf)"
proof (induction buf arbitrary: un w d rule: measure_induct_rule [of length])
  case (less buf)
  obtain ds where ds: "d = concat ds @ un" "took w (concat (map (lz4_frame_bytes X) ds))" "length un < frame_size"
    "\<forall>p\<in>set ds. p \<noteq> [] \<and> length p \<le> frame_size"
    using less.prems by (auto simp: lz4_took_def)
  show ?case
  proof (cases "buf = []")
    case False
    let ?k = "min (length buf) (frame_size - length un)"
    have shorter: "length (drop ?k buf) < length buf" using False ds(3) by simp
    show ?thesis
    proof (cases "frame_size \<le> length (un @ take ?k buf)")
      case True
      have some: "un @ take ?k buf \<noteq> []" using False ds(3) by (cases buf) auto
      obtain w' where w': "lz4_write_frame X write_all w (un @ take ?k buf) = Ok w'"
        "took w' (concat (map (lz4_frame_bytes X) ds) @ lz4_frame_bytes X (un @ take ?k buf))"
        using lz4_write_frame_law [OF total ds(2) some] by blast
      have fits: "length (un @ take ?k buf) \<le> frame_size" using ds(3) by simp
      have "lz4_took X frame_size ([], w') (d @ take ?k buf)"
        unfolding lz4_took_def fst_conv snd_conv
        by (intro conjI exI [of _ "ds @ [un @ take ?k buf]"]) (use ds some fits w'(2) in auto)
      from less.IH [OF shorter this] show ?thesis
        using False True ds(3) w'(1) by (subst lz4_fill.simps) (simp add: Let_def)
    next
      case more: False
      then have "length un + length buf < frame_size" using ds(3) by (simp add: min_def split: if_splits)
      note more = more this
      have "lz4_took X frame_size (un @ take ?k buf, w) (d @ take ?k buf)"
        unfolding lz4_took_def using ds more by auto
      from less.IH [OF shorter this] show ?thesis
        using False more ds(3) by (subst lz4_fill.simps) (simp add: Let_def)
    qed
  qed (use less.prems in \<open>auto simp: lz4_fill.simps\<close>)
qed

lemma lz4_finish_law:
  assumes total: "\<And>d. d \<noteq> [] \<Longrightarrow> \<exists>c. cd_lz4_frame X d = Ok c" and "lz4_took X frame_size (un, w) d"
  shows "\<exists>w' ds. lz4_write_frame X write_all w un = Ok w' \<and> d = concat ds
     \<and> took w' (concat (map (lz4_frame_bytes X) ds)) \<and> (\<forall>p\<in>set ds. p \<noteq> [] \<and> length p \<le> frame_size)"
proof -
  obtain ds where ds: "d = concat ds @ un" "took w (concat (map (lz4_frame_bytes X) ds))" "length un < frame_size"
    "\<forall>p\<in>set ds. p \<noteq> [] \<and> length p \<le> frame_size"
    using assms(2) by (auto simp: lz4_took_def)
  show ?thesis
  proof (cases "un = []")
    case True
    with ds show ?thesis by (auto simp: lz4_write_frame_def)
  next
    case False
    obtain w' where "lz4_write_frame X write_all w un = Ok w'"
      "took w' (concat (map (lz4_frame_bytes X) ds) @ lz4_frame_bytes X un)"
      using lz4_write_frame_law [OF total ds(2) False] by blast
    with ds False show ?thesis by (auto intro!: exI [of _ "ds @ [un]"])
  qed
qed

subsection \<open>All encoders\<close>

text \<open>\<open>promises EW EF fresh code\<close>: from the state \<open>fresh\<close> on, the encoder is a writer that can
  be finished, and then the writer below has finished too, with a code of what was given.\<close>

definition promises ::
    "('e encoder \<times> 'a) writing \<Rightarrow> ('e encoder \<times> 'a) flushing \<Rightarrow> 'e encoder \<Rightarrow> (bytes \<Rightarrow> bytes \<Rightarrow> bool) \<Rightarrow> bool" where
  "promises EW EF fresh code \<longleftrightarrow>
     (\<exists>T F. finishing_sink EW (write_all_default EW) EF T F \<and> (\<forall>w. took w [] \<longrightarrow> T (fresh, w) [])
        \<and> (\<forall>x d. F x d \<longrightarrow> (\<exists>c. code d c \<and> finished (snd x) c)))"

lemma promisesI:
  "finishing_sink EW (write_all_default EW) EF T F \<Longrightarrow> (\<And>w. took w [] \<Longrightarrow> T (fresh, w) []) \<Longrightarrow>
   (\<And>x d. F x d \<Longrightarrow> \<exists>c. code d c \<and> finished (snd x) c) \<Longrightarrow> promises EW EF fresh code"
  unfolding promises_def by blast

lemma crate_promises:
  assumes "valid_encoder X R e0"
    and "pass = pass_on put \<or> pass = pass_on_ignoring put"
    and "\<And>x w buf. EW (variant x, w) buf
        = write_or_finish variant (crate_write X write_all) (crate_finish X write_all) pass x w buf"
    and "\<And>x w. EF (variant (Some x), w)
        = and_then (crate_flush X write_all flush (x, w)) (\<lambda>(x, w). Ok (variant (Some x), w))"
  shows "promises EW EF (variant (Some e0)) R"
  by (rule promisesI [OF crate_finishing [OF assms]]) (auto intro: crate_took_start)

lemma swap2_promises:
  assumes EW: "\<And>x w buf. EW (variant x, w) buf
        = write_or_finish variant (swap2_pair_write write_all) (swap2_pair_finish write_all flush) (pass_on put) x w buf"
    and EF: "\<And>x w. EF (variant (Some x), w) = and_then (flush w) (\<lambda>w. Ok (variant (Some x), w))"
  shows "promises EW EF (variant (Some None)) (\<lambda>d c. c = swap_pairs d)"
proof (rule promisesI)
  let ?G = "\<lambda>x d. swap2_given took \<lparr>s2w_inner = snd x, s2w_pending = fst x\<rparr> d"
  show "finishing_sink EW (write_all_default EW) EF
     (\<lambda>y d. \<exists>x w. y = (variant (Some x), w) \<and> ?G (x, w) d)
     (\<lambda>y d. \<exists>w c. y = (variant None, w) \<and> c = swap_pairs d \<and> finished w c)"
  proof (rule variant_finishing [where wr = "swap2_pair_write write_all" and pass = "pass_on put"
        and fls = "\<lambda>x. and_then (flush (snd x)) (\<lambda>w. Ok (fst x, w))" and fin = "swap2_pair_finish write_all flush"])
    fix x d assume "?G x d"
    from swap2_pair_laws(2) [OF this]
    show "\<exists>x'. and_then (flush (snd x)) (\<lambda>w. Ok (fst x, w)) = Ok x' \<and> ?G x' d" by auto
  qed (use swap2_pair_laws(1,3) pass_on_finishes(1) EW EF in \<open>simp_all add: and_then_assoc\<close>)
qed (auto simp: swap2_given_def)

lemma swap4_promises:
  assumes EW: "\<And>x w buf. EW (variant x, w) buf
        = write_or_finish variant (swap4_pair_write write_all) (swap4_pair_finish write_all flush) (pass_on put) x w buf"
    and EF: "\<And>x w. EF (variant (Some x), w) = and_then (flush w) (\<lambda>w. Ok (variant (Some x), w))"
  shows "promises EW EF (variant (Some ([0, 0, 0, 0], 0))) (\<lambda>d c. c = swap_quads d)"
proof (rule promisesI)
  let ?G = "\<lambda>x d. swap4_given took (swap4_pair x) d"
  show "finishing_sink EW (write_all_default EW) EF
     (\<lambda>y d. \<exists>x w. y = (variant (Some x), w) \<and> ?G (x, w) d)
     (\<lambda>y d. \<exists>w c. y = (variant None, w) \<and> c = swap_quads d \<and> finished w c)"
  proof (rule variant_finishing [where wr = "swap4_pair_write write_all" and pass = "pass_on put"
        and fls = "\<lambda>x. and_then (flush (snd x)) (\<lambda>w. Ok (fst x, w))" and fin = "swap4_pair_finish write_all flush"])
    fix x d assume "?G x d"
    from swap4_pair_laws(2) [OF this]
    show "\<exists>x'. and_then (flush (snd x)) (\<lambda>w. Ok (fst x, w)) = Ok x' \<and> ?G x' d"
      by (cases "fst x") auto
  qed (use swap4_pair_laws(1,3) pass_on_finishes(1) EW EF in \<open>simp_all add: and_then_assoc\<close>)
next
  fix w assume "took w []"
  then show "\<exists>x v. (variant (Some ([0, 0, 0, 0], 0)), w) = (variant (Some x), v)
      \<and> swap4_given took (swap4_pair (x, v)) []"
    by (intro exI [of _ "([0, 0, 0, 0], 0)"] exI [of _ w]) (auto simp: swap4_given_def)
qed auto

lemma lz4_framed_promises:
  fixes X :: "'e codecs"
  assumes EW: "\<And>x w buf. EW (variant x, w) buf
        = write_or_finish variant (lz4_write X write_all) (lz4_finish X write_all) (pass_on_ignoring put) x w buf"
    and EF: "\<And>x w. EF (variant (Some x), w)
        = and_then (lz4_flush X write_all flush (x, w)) (\<lambda>(x, w). Ok (variant (Some x), w))"
    and total: "\<And>d. d \<noteq> [] \<Longrightarrow> \<exists>c. cd_lz4_frame X d = Ok c" and "0 < frame_size"
  shows "promises EW EF (variant (Some (Lz4_framed frame_size []))) (lz4_frames_of X frame_size)"
proof (rule promisesI)
  let ?G = "\<lambda>(x :: 'e lz4_encoder \<times> 'a) d. \<exists>un. fst x = Lz4_framed frame_size un \<and> lz4_took X frame_size (un, snd x) d"
  show "finishing_sink EW (write_all_default EW) EF
     (\<lambda>y d. \<exists>x w. y = (variant (Some x), w) \<and> ?G (x, w) d)
     (\<lambda>y d. \<exists>w c. y = (variant None, w) \<and> lz4_frames_of X frame_size d c \<and> finished w c)"
  proof (rule variant_finishing [where wr = "lz4_write X write_all" and pass = "pass_on_ignoring put"
        and fls = "lz4_flush X write_all flush" and fin = "lz4_finish X write_all"])
    fix x d and buf :: bytes assume "?G x d" and more: "buf \<noteq> []"
    then obtain un where x: "fst x = Lz4_framed frame_size un" "lz4_took X frame_size (un, snd x) d" by blast
    from lz4_fill_law [OF total x(2), of buf] x(1) more
    show "\<exists>n x'. lz4_write X write_all x buf = Ok (n, x') \<and> 0 < n \<and> n \<le> length buf \<and> ?G x' (d @ take n buf)"
      by (auto simp: lz4_write_def)
  next
    fix x d assume "?G x d"
    then obtain un where x: "fst x = Lz4_framed frame_size un" "lz4_took X frame_size (un, snd x) d" by blast
    obtain w ds where w: "lz4_write_frame X write_all (snd x) un = Ok w" "d = concat ds"
      "took w (concat (map (lz4_frame_bytes X) ds))" "\<forall>p\<in>set ds. p \<noteq> [] \<and> length p \<le> frame_size"
      using lz4_finish_law [OF total x(2)] by blast
    obtain w' where w': "flush w = Ok w'" "took w' (concat (map (lz4_frame_bytes X) ds))"
      using flush_keeps [OF w(3)] by blast
    have "lz4_took X frame_size ([], w') d"
      using w w' assms(4) by (auto simp: lz4_took_def)
    with x(1) w(1) w'(1) show "\<exists>x'. lz4_flush X write_all flush x = Ok x' \<and> ?G x' d"
      by (simp add: lz4_flush_def)
    have "lz4_frames_of X frame_size d (concat (map (lz4_frame_bytes X) ds))"
      using w by (auto simp: lz4_frames_of_def)
    with x(1) w(1,3) show "\<exists>w' c. lz4_finish X write_all x = Ok w' \<and> lz4_frames_of X frame_size d c \<and> took w' c"
      by (auto simp: lz4_finish_def)
  qed (use pass_on_finishes(2) EW EF in simp_all)
next
  fix w assume "took w []"
  with assms(4) have "lz4_took X frame_size ([], w) []" by (auto simp: lz4_took_def intro: exI [of _ "[]"])
  then show "\<exists>x wa. (variant (Some (Lz4_framed frame_size [])), w) = (variant (Some x), wa)
      \<and> (\<exists>un. fst (x, wa) = Lz4_framed frame_size un \<and> lz4_took X frame_size (un, snd (x, wa)) [])"
    by auto
qed auto

lemma lz4_standard_promises:
  fixes X :: "'e codecs"
  assumes valid: "valid_encoder X R e0"
    and EW: "\<And>x w buf. EW (variant x, w) buf
        = write_or_finish variant (lz4_write X write_all) (lz4_finish X write_all) (pass_on_ignoring put) x w buf"
    and EF: "\<And>x w. EF (variant (Some x), w)
        = and_then (lz4_flush X write_all flush (x, w)) (\<lambda>(x, w). Ok (variant (Some x), w))"
  shows "promises EW EF (variant (Some (Lz4_standard e0))) R"
proof (rule promisesI)
  let ?G = "\<lambda>(x :: 'e lz4_encoder \<times> 'a) d. \<exists>e. fst x = Lz4_standard e \<and> crate_took X e0 (e, snd x) d"
  show "finishing_sink EW (write_all_default EW) EF
     (\<lambda>y d. \<exists>x w. y = (variant (Some x), w) \<and> ?G (x, w) d)
     (\<lambda>y d. \<exists>w c. y = (variant None, w) \<and> R d c \<and> finished w c)"
  proof (rule variant_finishing [where wr = "lz4_write X write_all" and pass = "pass_on_ignoring put"
        and fls = "lz4_flush X write_all flush" and fin = "lz4_finish X write_all"])
    fix x d and buf :: bytes assume "?G x d" and more: "buf \<noteq> []"
    then obtain e where x: "fst x = Lz4_standard e" "crate_took X e0 (e, snd x) d" by blast
    from crate_write_law [OF valid x(2) more] x(1)
    show "\<exists>n x'. lz4_write X write_all x buf = Ok (n, x') \<and> 0 < n \<and> n \<le> length buf \<and> ?G x' (d @ take n buf)"
      by (auto simp: lz4_write_def)
  next
    fix x d assume "?G x d"
    then obtain e where x: "fst x = Lz4_standard e" "crate_took X e0 (e, snd x) d" by blast
    from crate_flush_law [OF valid x(2)] x(1)
    show "\<exists>x'. lz4_flush X write_all flush x = Ok x' \<and> ?G x' d" by (auto simp: lz4_flush_def)
    from crate_finish_law [OF valid x(2)] x(1)
    show "\<exists>w' c. lz4_finish X write_all x = Ok w' \<and> R d c \<and> took w' c" by (auto simp: lz4_finish_def)
  qed (use pass_on_finishes(2) EW EF in simp_all)
qed (auto intro: crate_took_start)

lemma aes_promises:
  fixes a :: aes_encoder and EW :: "('e encoder \<times> 'a) writing"
  assumes EW: "\<And>a w buf. EW (Aes_encoder a, w) buf
        = and_then (aes_write cbc put write_all (a, w) buf) (\<lambda>(n, a, w). Ok (n, Aes_encoder a, w))"
    and EF: "\<And>a w. EF (Aes_encoder a, w)
        = and_then (aes_flush cbc write_all (a, w)) (\<lambda>(a, w). Ok (Aes_encoder a, w))"
    and a: "a = \<lparr>ae_cipher = cipher_new k, ae_buffer = [], ae_finished = False, ae_write_size = 0\<rparr>"
  shows "promises EW EF (Aes_encoder a)
     (\<lambda>d c. c = cbc_stream cbc (ci_key (ae_cipher a)) (ci_iv (ae_cipher a)) (padded d))"
proof (rule promisesI)
  let ?T = "\<lambda>(y :: 'e encoder \<times> 'a) d. \<exists>a w. y = (Aes_encoder a, w) \<and> aes_given cbc took k (a, w) d"
  let ?F = "\<lambda>(y :: 'e encoder \<times> 'a) d. finished (snd y) (cbc_stream cbc (fst k) (snd k) (padded d))"
  show "finishing_sink EW (write_all_default EW) EF ?T ?F"
  proof (rule finishing_sinkI)
    fix y d and buf :: bytes assume "?T y d" and more: "buf \<noteq> []"
    then obtain a w where y: "y = (Aes_encoder a, w)" "aes_given cbc took k (a, w) d" by blast
    from aes_write_spec [OF y(2) more] more
    show "\<exists>n w'. EW y buf = Ok (n, w') \<and> 0 < n \<and> n \<le> length buf \<and> ?T w' (d @ take n buf)"
      by (auto simp: y(1) EW)
  next
    fix y d assume "?T y d"
    then obtain a w where y: "y = (Aes_encoder a, w)" "aes_given cbc took k (a, w) d" by blast
    from aes_flush_spec [OF y(2)] y(2) show "\<exists>w'. EF y = Ok w' \<and> ?T w' d" by (auto simp: y(1) EF)
    from aes_finish_spec [OF y(2)] show "\<exists>w'. EW y [] = Ok (0, w') \<and> ?F w' d" by (auto simp: y(1) EW)
  qed
next
  fix w assume "took w []"
  then have "aes_given cbc took k (a, w) []"
    by (auto simp: aes_given_def a cipher_new_def cbc_stream_def intro: exI [of _ "[]"])
  then show "\<exists>b v. (Aes_encoder a, w) = (Aes_encoder b, v) \<and> aes_given cbc took k (b, v) []" by blast
qed (simp add: a cipher_new_def)

lemma encoder_promises:
  assumes "fresh_encoder X R enc"
  shows "promises (encoder_write X put write_all flush) (encoder_flush X write_all flush) enc (encoder_code X R enc)"
proof (cases enc)
  case Copy_encoder
  show ?thesis
  proof (rule promisesI [where T = "\<lambda>y d. fst y = Copy_encoder \<and> took (snd y) d" and F = "\<lambda>y d. finished (snd y) d"])
    show "finishing_sink (encoder_write X put write_all flush) (write_all_default (encoder_write X put write_all flush))
       (encoder_flush X write_all flush) (\<lambda>y d. fst y = Copy_encoder \<and> took (snd y) d) (\<lambda>y d. finished (snd y) d)"
      by (rule finishing_sinkI; clarsimp simp: encoder_write_def encoder_flush_def;
          use write_some flush_keeps finish in fastforce)
  qed (simp_all add: Copy_encoder encoder_code_def)
next
  case (Delta_encoder e0)
  have R: "\<And>e d out. crate_run X e0 e d out \<Longrightarrow> R d out" and valid: "valid_encoder X R e0"
    using assms Delta_encoder by (auto simp: valid_filter_def)
  let ?T = "\<lambda>y d. \<exists>e w. y = (Delta_encoder e, w) \<and> crate_took X e0 (e, w) d"
  let ?F = "\<lambda>y d. \<exists>c. R d c \<and> finished (snd y) c"
  show ?thesis
  proof (rule promisesI [where T = ?T and F = ?F])
    show "finishing_sink (encoder_write X put write_all flush) (write_all_default (encoder_write X put write_all flush))
       (encoder_flush X write_all flush) ?T ?F"
    proof (rule finishing_sinkI)
      fix y d and buf :: bytes assume "?T y d" and more: "buf \<noteq> []"
      then obtain e w where y: "y = (Delta_encoder e, w)" "crate_took X e0 (e, w) d" by blast
      from crate_write_law [OF valid y(2) more] more
      show "\<exists>n w'. encoder_write X put write_all flush y buf = Ok (n, w') \<and> 0 < n \<and> n \<le> length buf
          \<and> ?T w' (d @ take n buf)"
        by (auto simp: y(1) encoder_write_def)
    next
      fix y d assume "?T y d"
      then obtain e w where y: "y = (Delta_encoder e, w)" "crate_took X e0 (e, w) d" by blast
      from crate_flush_law [OF valid y(2)] show "\<exists>w'. encoder_flush X write_all flush y = Ok w' \<and> ?T w' d"
        by (auto simp: y(1) encoder_flush_def)
      obtain out where "R d out" "took w out" using y(2) R by (auto simp: crate_took_def)
      with finish [of w out] show "\<exists>w'. encoder_write X put write_all flush y [] = Ok (0, w') \<and> ?F w' d"
        by (auto simp: y(1) encoder_write_def)
    qed
  qed (auto simp: Delta_encoder encoder_code_def intro: crate_took_start)
next
  case (Swap2_encoder p)
  with assms have "enc = Swap2_encoder (Some None)" by simp
  moreover have "encoder_code X R enc = (\<lambda>d c. c = swap_pairs d)"
    by (simp add: Swap2_encoder encoder_code_def fun_eq_iff)
  ultimately show ?thesis
    by (simp only:) (rule swap2_promises [where variant = Swap2_encoder];
        simp add: encoder_write_def encoder_flush_def)
next
  case (Swap4_encoder p)
  with assms have "enc = Swap4_encoder (Some ([0, 0, 0, 0], 0))" by simp
  moreover have "encoder_code X R enc = (\<lambda>d c. c = swap_quads d)"
    by (simp add: Swap4_encoder encoder_code_def fun_eq_iff)
  ultimately show ?thesis
    by (simp only:) (rule swap4_promises [where variant = Swap4_encoder];
        simp add: encoder_write_def encoder_flush_def)
next
  case (Aes_encoder a)
  then obtain k where a: "a = \<lparr>ae_cipher = cipher_new k, ae_buffer = [], ae_finished = False, ae_write_size = 0\<rparr>"
    using assms by auto
  have code: "encoder_code X R enc
      = (\<lambda>d c. c = cbc_stream (cd_cbc X) (ci_key (ae_cipher a)) (ci_iv (ae_cipher a)) (padded d))"
    by (simp add: Aes_encoder encoder_code_def fun_eq_iff)
  show ?thesis
    unfolding code unfolding Aes_encoder
    by (rule aes_promises [OF _ _ a]) (simp_all add: encoder_write_def encoder_flush_def)
next
  case (Lz4_encoder l)
  show ?thesis
  proof (cases l)
    case (Some l')
    show ?thesis
    proof (cases l')
      case (Lz4_standard e)
      with assms Some Lz4_encoder have "valid_encoder X R e" by simp
      moreover have "encoder_code X R enc = R"
        by (simp add: Some Lz4_encoder Lz4_standard encoder_code_def fun_eq_iff)
      ultimately show ?thesis
        unfolding Some Lz4_encoder Lz4_standard
        by (simp only:) (rule lz4_standard_promises [where variant = Lz4_encoder];
            simp add: encoder_write_def encoder_flush_def)
    next
      case (Lz4_framed frame_size un)
      with assms Some Lz4_encoder have "un = []" "0 < frame_size" "\<And>d. d \<noteq> [] \<Longrightarrow> \<exists>c. cd_lz4_frame X d = Ok c"
        by auto
      moreover have "encoder_code X R enc = lz4_frames_of X frame_size"
        by (simp add: Some Lz4_encoder Lz4_framed encoder_code_def fun_eq_iff)
      ultimately show ?thesis
        unfolding Some Lz4_encoder Lz4_framed
        by (simp only:) (rule lz4_framed_promises [where variant = Lz4_encoder];
            simp add: encoder_write_def encoder_flush_def)
    qed
  qed (use assms Lz4_encoder in simp)
next
  case (Brotli_encoder b)
  with assms show ?thesis by simp
next
  case (Bcj_encoder x)
  then show ?thesis
    using assms by (auto split: option.splits simp: encoder_code_def [abs_def] encoder_write_def encoder_flush_def
        intro!: crate_promises [OF _ disjI1 [OF refl]])
qed (use assms in \<open>auto split: option.splits simp: encoder_code_def [abs_def] encoder_write_def encoder_flush_def
    intro!: crate_promises [OF _ disjI2 [OF refl]]\<close>)

end

section \<open>The stack\<close>

text \<open>One more layer on a stack whose layers keep their promise.\<close>

lemma stack_layer:
  assumes below: "finishing_sink (io_write S) (write_all_default (io_write S)) (io_flush S) T F"
    and S: "S = stack_ops X base n" and fresh: "fresh_encoder X R enc"
  shows "\<exists>T' F'. finishing_sink (io_write (stack_ops X base (Suc n)))
        (write_all_default (io_write (stack_ops X base (Suc n)))) (io_flush (stack_ops X base (Suc n))) T' F'
     \<and> (\<forall>ls x. T (ls, x) [] \<longrightarrow> T' ((enc, 0, 0) # ls, x) [])
     \<and> (\<forall>w d. F' w d \<longrightarrow> (\<exists>e k m ls x c. w = ((e, k, m) # ls, x) \<and> encoder_code X R enc d c
           \<and> F (ls, x) c \<and> k = length c mod 2 ^ 64))"
proof -
  note counting = finishing_sink.counting_finishing [OF below]
  note promise = finishing_sink.encoder_promises [OF counting fresh]
  obtain T1 F1 where layer: "finishing_sink (layer_write X S) (write_all_default (layer_write X S)) (layer_flush X S) T1 F1"
    and start: "\<And>c. counted T c [] \<Longrightarrow> T1 (enc, c) []"
    and code: "\<And>y d. F1 y d \<Longrightarrow> \<exists>c. encoder_code X R enc d c \<and> counted F (snd y) c"
    using promise unfolding finishing_sink.promises_def [OF counting] layer_write_def layer_flush_def by blast
  let ?O = "stack_ops X base (Suc n)"
  let ?T = "\<lambda>w d. \<exists>e k ls x. w = ((e, k) # ls, x) \<and> T1 (e, counting_at k (ls, x)) d"
  let ?F = "\<lambda>w d. \<exists>e k ls x. w = ((e, k) # ls, x) \<and> F1 (e, counting_at k (ls, x)) d"
  have again: "cw_inner c = v \<Longrightarrow> counting_at (cw_counting c, cw_written_bytes c) v = c" for c :: "'w counting_writer" and v
    by (auto simp: counting_at_def)
  have "finishing_sink (io_write ?O) (write_all_default (io_write ?O)) (io_flush ?O) ?T ?F"
  proof (rule finishing_sinkI)
    fix w d and buf :: bytes assume "?T w d" and more: "buf \<noteq> []"
    then obtain e k ls x where w: "w = ((e, k) # ls, x)" "T1 (e, counting_at k (ls, x)) d" by blast
    obtain m e' c where "layer_write X S (e, counting_at k (ls, x)) buf = Ok (m, e', c)" "0 < m" "m \<le> length buf"
      "T1 (e', c) (d @ take m buf)"
      using byte_sink.write_some [OF finishing_sink.axioms(1) [OF layer] w(2) more] by auto
    then show "\<exists>n w'. io_write ?O w buf = Ok (n, w') \<and> 0 < n \<and> n \<le> length buf \<and> ?T w' (d @ take n buf)"
      by (cases "cw_inner c") (simp add: w(1) S [symmetric] again)
  next
    fix w d assume "?T w d"
    then obtain e k ls x where w: "w = ((e, k) # ls, x)" "T1 (e, counting_at k (ls, x)) d" by blast
    obtain e' c where "layer_flush X S (e, counting_at k (ls, x)) = Ok (e', c)" "T1 (e', c) d"
      using byte_sink.flush_keeps [OF finishing_sink.axioms(1) [OF layer] w(2)] by auto
    then show "\<exists>w'. io_flush ?O w = Ok w' \<and> ?T w' d"
      by (cases "cw_inner c") (simp add: w(1) S [symmetric] again)
    obtain e' c where "layer_write X S (e, counting_at k (ls, x)) [] = Ok (0, e', c)" "F1 (e', c) d"
      using finishing_sink.finish [OF layer w(2)] by auto
    then show "\<exists>w'. io_write ?O w [] = Ok (0, w') \<and> ?F w' d"
      by (cases "cw_inner c") (simp add: w(1) S [symmetric] again)
  qed
  moreover have "?T ((enc, 0, 0) # ls, x) []" if "T (ls, x) []" for ls x
    using start [of "counting_at (0, 0) (ls, x)"] that by (auto simp: counted_def counting_at_def)
  moreover have "\<exists>e k m ls x c. w = ((e, k, m) # ls, x) \<and> encoder_code X R enc d c \<and> F (ls, x) c
      \<and> k = length c mod 2 ^ 64" if "?F w d" for w d
    using that code by (fastforce simp: counted_def counting_at_def)
  ultimately show ?thesis by blast
qed

abbreviation layers_counts :: "('e encoder \<times> usize \<times> usize) list \<Rightarrow> usize list" where
  "layers_counts ls \<equiv> map (\<lambda>(_, counting, _). counting) ls"

lemma stack_finishing:
  assumes base: "finishing_sink (io_write B) wa (io_flush B) took finished"
    and fresh: "list_all (\<lambda>(R, e). fresh_encoder X R e) es"
  shows "\<exists>T F. finishing_sink (io_write (stack_ops X B (length es))) (write_all_default (io_write (stack_ops X B (length es))))
        (io_flush (stack_ops X B (length es))) T F
     \<and> (\<forall>x. took x [] \<longrightarrow> T (map (\<lambda>(R, e). (e, 0, 0)) es, x) [])
     \<and> (\<forall>w d. F w d \<longrightarrow> (\<exists>c. finished (snd w) c \<and> stack_code X es d c (layers_counts (fst w))))"
  using fresh
proof (induction es)
  case Nil
  note laws = byte_sink.write_some [OF finishing_sink.axioms(1) [OF base]]
    byte_sink.flush_keeps [OF finishing_sink.axioms(1) [OF base]] finishing_sink.finish [OF base]
  have "finishing_sink (io_write (stack_ops X B 0)) (write_all_default (io_write (stack_ops X B 0)))
      (io_flush (stack_ops X B 0)) (\<lambda>w d. fst w = [] \<and> took (snd w) d) (\<lambda>w d. fst w = [] \<and> finished (snd w) d)"
    by (rule finishing_sinkI; clarsimp; use laws in fastforce)
  then show ?case by (intro exI conjI) auto
next
  case (Cons p es)
  obtain R e where p: "p = (R, e)" by (cases p)
  obtain T F where below: "finishing_sink (io_write (stack_ops X B (length es)))
      (write_all_default (io_write (stack_ops X B (length es)))) (io_flush (stack_ops X B (length es))) T F"
    and start: "\<And>x. took x [] \<Longrightarrow> T (map (\<lambda>(R, e). (e, 0, 0)) es, x) []"
    and code: "\<And>w d. F w d \<Longrightarrow> \<exists>c. finished (snd w) c \<and> stack_code X es d c (layers_counts (fst w))"
    using Cons by auto
  from Cons.prems have "fresh_encoder X R e" by (simp add: p)
  from stack_layer [OF below refl this] obtain T' F' where
    layer: "finishing_sink (io_write (stack_ops X B (Suc (length es))))
        (write_all_default (io_write (stack_ops X B (Suc (length es))))) (io_flush (stack_ops X B (Suc (length es)))) T' F'"
    and start': "\<And>ls x. T (ls, x) [] \<Longrightarrow> T' ((e, 0, 0) # ls, x) []"
    and code': "\<And>w d. F' w d \<Longrightarrow> \<exists>e' k m ls x c. w = ((e', k, m) # ls, x) \<and> encoder_code X R e d c
        \<and> F (ls, x) c \<and> k = length c mod 2 ^ 64"
    by blast
  have "\<exists>c. finished (snd w) c \<and> stack_code X (p # es) d c (layers_counts (fst w))" if fin: "F' w d" for w d
  proof -
    obtain e' m ls x c where w: "w = ((e', length c mod 2 ^ 64, m) # ls, x)" "encoder_code X R e d c" "F (ls, x) c"
      using code' [OF fin] by blast
    with code [OF w(3)] show ?thesis by (auto simp: p)
  qed
  with layer start start' show ?case by (intro exI [of _ T'] exI [of _ F']) (simp add: p)
qed

text \<open>A stack that was written to in pieces, flushed and finished.\<close>

definition run_stack :: "'e codecs \<Rightarrow> 'o io_ops \<Rightarrow> ('e, 'o) encoders \<Rightarrow> bytes list \<Rightarrow> ('e, 'o) encoders io_result" where
  "run_stack X B w ps =
     (let ops = stack_ops X B (length (fst w)) in
      and_then (for_each (\<lambda>p w. write_all_default (io_write ops) w p) ps w) (\<lambda>w.
      and_then (io_flush ops w) (\<lambda>w.
      and_then (io_write ops w []) (\<lambda>(_, w). Ok w))))"

lemma run_stack_codes:
  assumes base: "finishing_sink (io_write B) wa (io_flush B) took finished"
    and fresh: "list_all (\<lambda>(R, e). fresh_encoder X R e) es" and "took x []"
  shows "\<exists>w c. run_stack X B (map (\<lambda>(R, e). (e, 0, 0)) es, x) ps = Ok w \<and> finished (snd w) c
     \<and> stack_code X es (concat ps) c (layers_counts (fst w))"
proof -
  let ?O = "stack_ops X B (length es)"
  obtain T F where stack: "finishing_sink (io_write ?O) (write_all_default (io_write ?O)) (io_flush ?O) T F"
    and start: "T (map (\<lambda>(R, e). (e, 0, 0)) es, x) []"
    and code: "\<And>w d. F w d \<Longrightarrow> \<exists>c. finished (snd w) c \<and> stack_code X es d c (layers_counts (fst w))"
    using stack_finishing [OF base fresh] assms(3) by blast
  note sink = finishing_sink.axioms(1) [OF stack]
  obtain w1 where w1: "for_each (\<lambda>p w. write_all_default (io_write ?O) w p) ps (map (\<lambda>(R, e). (e, 0, 0)) es, x) = Ok w1"
    "T w1 (concat ps)"
    using byte_sink.write_pieces [OF sink start, of ps] by auto
  obtain w2 where w2: "io_flush ?O w1 = Ok w2" "T w2 (concat ps)"
    using byte_sink.flush_keeps [OF sink w1(2)] by blast
  obtain w3 where w3: "io_write ?O w2 [] = Ok (0, w3)" "F w3 (concat ps)"
    using finishing_sink.finish [OF stack w2(2)] by blast
  with code [OF w3(2)] w1(1) w2(1) show ?thesis by (simp add: run_stack_def)
qed

text \<open>The encoders that \<open>create_writer\<close> makes.\<close>

lemma create_writer_layers:
  "create_writer L X methods x = Ok w \<longleftrightarrow>
   (\<exists>es. list_all2 (\<lambda>m e. add_encoder L X m = Ok e) methods es \<and> w = (map (\<lambda>e. (e, 0, 0)) (rev es), x))"
proof -
  have "for_each (\<lambda>m ls. and_then (add_encoder L X m) (\<lambda>e. Ok ((e, 0, 0) # ls))) methods ls = Ok ls' \<longleftrightarrow>
     (\<exists>es. list_all2 (\<lambda>m e. add_encoder L X m = Ok e) methods es \<and> ls' = map (\<lambda>e. (e, 0, 0)) (rev es) @ ls)" for ls ls'
  proof (induction methods arbitrary: ls)
    case (Cons m methods)
    have "(\<exists>es. list_all2 (\<lambda>m e. add_encoder L X m = Ok e) (m # methods) es \<and> Q es) \<longleftrightarrow>
       (\<exists>e es. add_encoder L X m = Ok e \<and> list_all2 (\<lambda>m e. add_encoder L X m = Ok e) methods es \<and> Q (e # es))" for Q
      unfolding list_all2_Cons1 by blast
    then show ?case by (auto simp: and_then_Ok_iff Cons)
  qed auto
  then show ?thesis by (auto simp: create_writer_def and_then_Ok_iff)
qed

end
