(* ===== verification/Var_Int.thy ===== *)
theory Var_Int
  imports Byte_Cursor
begin

text \<open>
  The variable-length integers of the 7z header: \<open>write_u64\<close> of \<^verbatim>\<open>src/src/writer.rs\<close> and
  \<open>read_variable_u64\<close>, \<open>read_variable_usize\<close>, \<open>assert_usize\<close> of \<^verbatim>\<open>src/src/reader.rs\<close>.
  The number of leading one bits of the first byte is the number of little-endian bytes that
  follow; its remaining bits are the most significant ones of the value.
\<close>

section \<open>The writer\<close>

function write_u64_first :: "u64 \<Rightarrow> nat \<Rightarrow> u64 \<Rightarrow> u64 \<Rightarrow> u64 \<times> nat" where
  "write_u64_first val i first msk =
     (if i < 8 then
        if val < push_bit (7 * (i + 1)) 1 then (first OR drop_bit (8 * i) val, i)
        else write_u64_first val (i + 1) (first OR msk) (drop_bit 1 msk)
      else (first, i))"
  by pat_completeness auto
termination
  by (relation "measure (\<lambda>(val, i, first, msk). 8 - i)") auto

declare write_u64_first.simps [simp del]

fun write_u64_rest :: "nat \<Rightarrow> u64 \<Rightarrow> bytes" where
  "write_u64_rest 0 val = []"
| "write_u64_rest (Suc i) val = ucast (val AND 0xFF) # write_u64_rest i (drop_bit 8 val)"

definition write_u64 :: "u64 \<Rightarrow> bytes" where
  "write_u64 val =
     (let (first, i) = write_u64_first val 0 0 0x80
      in write_u8 (ucast (first AND 0xFF)) @ write_u64_rest i val)"

section \<open>The reader\<close>

fun read_variable_loop :: "u64 \<Rightarrow> nat list \<Rightarrow> u64 \<Rightarrow> u64 \<Rightarrow> (io_error, u64) parser" where
  "read_variable_loop first [] msk val = ret val"
| "read_variable_loop first (i # is) msk val =
     (if first AND msk = 0 then ret (val OR push_bit (8 * i) (first AND (msk - 1)))
      else and_read read_u8 (\<lambda>b.
        read_variable_loop first is (drop_bit 1 msk) (val OR push_bit (8 * i) (ucast b))))"

definition read_variable_u64 :: "(io_error, u64) parser" where
  "read_variable_u64 =
     and_read read_u8 (\<lambda>first. read_variable_loop (ucast first) [0..<8] 0x80 0)"

definition assert_usize :: "u64 \<Rightarrow> string \<Rightarrow> usize result" where
  "assert_usize val field =
     (if unat val > usize_max then Err (Other (''Cannot handle '' @ field @ '' '' @ decimal (unat val)))
      else Ok (unat val))"

definition read_variable_usize :: "string \<Rightarrow> (error, usize) parser" where
  "read_variable_usize field =
     and_read (lift_io read_variable_u64) (\<lambda>val. lift_outcome (assert_usize val field))"

section \<open>The round trip\<close>

text \<open>
  After \<open>n\<close> one bits the first byte has a zero bit and the bits of the value above the
  \<open>n\<close> low bytes.
\<close>

definition first_byte_bits :: "u64 \<Rightarrow> nat \<Rightarrow> u64 \<Rightarrow> bool" where
  "first_byte_bits val n first \<longleftrightarrow>
     (\<forall>k. bit first k \<longleftrightarrow> 8 - n \<le> k \<and> k < 8 \<or> n < 8 \<and> bit val (8 * n + k))"

lemma bit_power_u64: "bit (2 ^ n :: u64) k \<longleftrightarrow> k = n \<and> k < 64"
  by (auto simp: bit_exp_iff)

lemma drop_bit_power_u64:
  "0 < n \<Longrightarrow> n < 64 \<Longrightarrow> drop_bit (Suc 0) (2 ^ n :: u64) = 2 ^ (n - Suc 0)"
  by (intro bit_word_eqI) (auto simp: bit_power_u64 bit_drop_bit_eq)

lemma and_FF: "x AND 0xFF = take_bit 8 (x :: u64)"
  by (simp add: take_bit_eq_mask mask_eq_exp_minus_1)

lemma less_power_u64_iff:
  assumes "n < 64"
  shows "v < (2 ^ n :: u64) \<longleftrightarrow> (\<forall>k. bit v k \<longrightarrow> k < n)"
proof -
  have "v < 2 ^ n \<longleftrightarrow> take_bit n (unat v) = unat v"
    using unat_of_nat [of "2 ^ n", where 'a = 64] power_strict_increasing [OF assms, of "2 :: nat"]
    by (simp add: word_less_nat_alt take_bit_nat_eq_self_iff)
  also have "\<dots> \<longleftrightarrow> take_bit n v = v"
    by (metis unsigned_take_bit_eq word_unat_eq_iff)
  also have "\<dots> \<longleftrightarrow> (\<forall>k. bit v k \<longrightarrow> k < n)"
  proof
    show "\<forall>k. bit v k \<longrightarrow> k < n" if "take_bit n v = v"
      using that by (metis bit_take_bit_iff)
    show "take_bit n v = v" if "\<forall>k. bit v k \<longrightarrow> k < n"
      using that by (intro bit_word_eqI) (auto simp: bit_take_bit_iff)
  qed
  finally show ?thesis .
qed

lemma take_bit_next_byte:
  "take_bit n v OR push_bit n (ucast (ucast (drop_bit n v) :: u8)) = take_bit (n + 8) (v :: u64)"
    (is "?l = ?r")
proof (rule bit_word_eqI)
  fix k assume k: "k < LENGTH(64)"
  show "bit ?l k = bit ?r k"
  proof (cases "k < n")
    case True
    then show ?thesis by (simp add: bit_or_iff bit_take_bit_iff bit_push_bit_iff)
  next
    case False
    then have "n + (k - n) = k" by simp
    with False k show ?thesis
      by (auto simp: bit_or_iff bit_take_bit_iff bit_push_bit_iff bit_ucast_iff bit_drop_bit_eq)
  qed
qed

lemma write_u64_first_spec:
  assumes "i \<le> 8" and "msk = (if i < 8 then 2 ^ (7 - i) else 0)"
    and "\<And>k. bit first k \<longleftrightarrow> 8 - i \<le> k \<and> k < 8"
    and "write_u64_first val i first msk = (f, n)"
  shows "n \<le> 8 \<and> first_byte_bits val n f \<and> (n < 8 \<longrightarrow> (\<forall>k. bit val k \<longrightarrow> k < 7 * n + 7))"
  using assms
proof (induction val i first msk rule: write_u64_first.induct)
  case (1 val i first msk)
  show ?case
  proof (cases "i < 8")
    case True
    have less: "val < 2 ^ (7 * (i + 1)) \<longleftrightarrow> (\<forall>k. bit val k \<longrightarrow> k < 7 * i + 7)"
      using True less_power_u64_iff [of "7 * (i + 1)" val] by (simp add: algebra_simps)
    show ?thesis
    proof (cases "val < 2 ^ (7 * (i + 1))")
      case small: True
      with "1.prems"(4) True have "f = first OR drop_bit (8 * i) val" and "n = i"
        by (simp_all add: write_u64_first.simps, auto)
      with "1.prems"(3) True less small show ?thesis
        by (auto simp: first_byte_bits_def bit_or_iff bit_drop_bit_eq)
    next
      case large: False
      show ?thesis
      proof (rule "1.IH" [OF True])
        show "\<not> val < push_bit (7 * (i + 1)) 1" using large by simp
        show "i + 1 \<le> 8" using True by simp
        show "drop_bit 1 msk = (if i + 1 < 8 then 2 ^ (7 - (i + 1)) else 0)"
          using True "1.prems"(2) by (cases "i = 7") (simp_all add: drop_bit_power_u64)
        show "bit (first OR msk) k = (8 - (i + 1) \<le> k \<and> k < 8)" for k
        proof -
          have "bit msk k \<longleftrightarrow> k = 7 - i"
            using True "1.prems"(2) by (auto simp: bit_power_u64)
          with "1.prems"(3) [of k] True show ?thesis by (simp add: bit_or_iff) arith
        qed
        show "write_u64_first val (i + 1) (first OR msk) (drop_bit 1 msk) = (f, n)"
          using "1.prems"(4) True large by (simp add: write_u64_first.simps)
      qed
    qed
  next
    case False
    with "1.prems" have "i = 8" "f = first" "n = i" by (simp_all add: write_u64_first.simps)
    with "1.prems"(3) show ?thesis by (auto simp: first_byte_bits_def)
  qed
qed

lemma write_u64_rest_le: "write_u64_rest i val = to_le_bytes i val"
proof (induction i arbitrary: val)
  case 0
  show ?case by simp
next
  case (Suc i)
  have "(ucast (val AND 0xFF) :: u8) = ucast val"
    by (intro bit_word_eqI) (auto simp: bit_ucast_iff and_FF bit_take_bit_iff)
  with Suc.IH show ?case by simp
qed

text \<open>The reader's loop from its \<open>i\<close>-th turn on, when \<open>n\<close> one bits were written.\<close>

lemma parses_read_variable_loop:
  assumes bits: "first_byte_bits val n first" and n: "n \<le> 8" and "i \<le> n"
    and small: "n < 8 \<longrightarrow> (\<forall>k. bit val k \<longrightarrow> k < 7 * n + 7)"
  shows "parses (read_variable_loop first [i..<8] (if i < 8 then 2 ^ (7 - i) else 0)
            (take_bit (8 * i) val))
          (to_le_bytes (n - i) (drop_bit (8 * i) val)) val"
  using \<open>i \<le> n\<close>
proof (induction "n - i" arbitrary: i)
  case 0
  then have "i = n" by simp
  show ?case
  proof (cases "n < 8")
    case False
    with n have "n = 8" by simp
    moreover have "take_bit 64 val = val" by (rule take_bit_word_eq_self) simp
    ultimately show ?thesis using \<open>i = n\<close> by (simp add: parses_ret)
  next
    case True
    have zero: "first AND 2 ^ (7 - n) = 0"
      using bits True small
      by (intro bit_word_eqI) (auto simp: bit_and_iff bit_power_u64 first_byte_bits_def)
    have low: "first AND (2 ^ (7 - n) - 1) = take_bit (7 - n) first"
      by (simp add: take_bit_eq_mask mask_eq_exp_minus_1)
    have "take_bit (8 * n) val OR push_bit (8 * n) (take_bit (7 - n) first) = val"
    proof (rule bit_word_eqI)
      fix k assume k: "k < LENGTH(64)"
      show "bit (take_bit (8 * n) val OR push_bit (8 * n) (take_bit (7 - n) first)) k
              = bit val k"
      proof (cases "k < 8 * n")
        case False
        then obtain m where m: "k = 8 * n + m" using le_Suc_ex by (metis not_less)
        have "bit val (8 * n + m) \<Longrightarrow> m < 7 - n" using small True by fastforce
        moreover have "bit first m \<longleftrightarrow> 8 - n \<le> m \<and> m < 8 \<or> bit val (8 * n + m)"
          using bits True by (simp add: first_byte_bits_def)
        ultimately have "m < 7 - n \<and> bit first m \<longleftrightarrow> bit val (8 * n + m)"
          using True by auto
        then show ?thesis using k m
          by (simp add: bit_or_iff bit_take_bit_iff bit_push_bit_iff)
      qed (auto simp: bit_or_iff bit_take_bit_iff bit_push_bit_iff)
    qed
    moreover have "[n..<8] = n # [Suc n..<8]" using True by (simp add: upt_conv_Cons)
    ultimately show ?thesis using \<open>i = n\<close> True zero low by (simp add: parses_ret)
  qed
next
  case (Suc d)
  then have i: "i < n" "i < 8" and d: "d = n - Suc i" using n by auto
  have set: "first AND 2 ^ (7 - i) \<noteq> 0"
  proof -
    have "bit (first AND 2 ^ (7 - i)) (7 - i)"
      using bits i by (simp add: bit_and_iff bit_power_u64 first_byte_bits_def) arith
    then show ?thesis by (metis bit_0_eq bot_apply bot_bool_def)
  qed
  have msk: "drop_bit 1 (2 ^ (7 - i) :: u64) = (if Suc i < 8 then 2 ^ (7 - Suc i) else 0)"
    using i by (cases "i = 7") (simp_all add: drop_bit_power_u64)
  have val: "take_bit (8 * i) val OR push_bit (8 * i) (ucast (ucast (drop_bit (8 * i) val) :: u8))
      = take_bit (8 * Suc i) val"
    using take_bit_next_byte [of "8 * i" val] by (simp add: add.commute)
  have IH: "parses (read_variable_loop first [Suc i..<8] (drop_bit 1 (2 ^ (7 - i)))
      (take_bit (8 * i) val OR push_bit (8 * i) (ucast (ucast (drop_bit (8 * i) val) :: u8))))
      (to_le_bytes d (drop_bit (8 * Suc i) val)) val"
    using Suc.hyps(1) [OF d] i d unfolding msk val by simp
  have "[i..<8] = i # [Suc i..<8]" using i by (simp add: upt_conv_Cons)
  moreover have "n - i = Suc d" using d i by simp
  ultimately show ?case
    using parses_read_u8_then [of "\<lambda>b. read_variable_loop first [Suc i..<8]
        (drop_bit 1 (2 ^ (7 - i))) (take_bit (8 * i) val OR push_bit (8 * i) (ucast b))", OF IH] set i
    by (simp add: drop_bit_drop_bit add.commute)
qed

lemma parses_read_variable_u64 [parse_intros]: "parses read_variable_u64 (write_u64 v) v"
proof -
  obtain f n where w: "write_u64_first v 0 0 0x80 = (f, n)" by fastforce
  have spec: "n \<le> 8 \<and> first_byte_bits v n f \<and> (n < 8 \<longrightarrow> (\<forall>k. bit v k \<longrightarrow> k < 7 * n + 7))"
    by (rule write_u64_first_spec [OF _ _ _ w]) simp_all
  have f: "ucast (ucast (f AND 0xFF) :: u8) = f"
  proof (rule bit_word_eqI)
    fix k assume "k < LENGTH(64)"
    have "bit f k \<Longrightarrow> k < 8"
      using spec by (auto simp: first_byte_bits_def)
    then show "bit (ucast (ucast (f AND 0xFF) :: u8) :: u64) k = bit f k"
      by (auto simp: bit_ucast_iff and_FF bit_take_bit_iff)
  qed
  have "parses (read_variable_loop f [0..<8] 0x80 0) (write_u64_rest n v) v"
    using parses_read_variable_loop [of v n f 0] spec by (simp add: write_u64_rest_le)
  with f show ?thesis
    unfolding read_variable_u64_def write_u64_def w write_u8_def
    by (simp del: upt_rec_numeral read_variable_loop.simps add: parses_read_u8_then)
qed

lemma assert_usize_Ok [simp]: "assert_usize w field = Ok (unat w)"
  using unsigned_less [of w, where 'a = nat] by (simp add: assert_usize_def)

lemma parses_read_variable_usize [parse_intros]:
  "n < 2 ^ 64 \<Longrightarrow> parses (read_variable_usize field) (write_u64 (of_nat n)) n"
  unfolding read_variable_usize_def
  by (rule parses_and_read_eq [OF parses_lift_io [OF parses_read_variable_u64] parses_lift_outcome])
    (simp_all add: unat_of_nat take_bit_nat_eq_self)

lemma length_write_u64: "1 \<le> length (write_u64 v) \<and> length (write_u64 v) \<le> 9"
proof -
  obtain f n where w: "write_u64_first v 0 0 0x80 = (f, n)" by fastforce
  have "n \<le> 8" using write_u64_first_spec [OF _ _ _ w] by simp
  then show ?thesis by (simp add: write_u64_def w write_u8_def write_u64_rest_le)
qed

end
