(* ===== verification/Header_Writer.thy ===== *)
theory Header_Writer
  imports Var_Int Encoder_Options
begin

text \<open>
  How \<^verbatim>\<open>src/src/writer.rs\<close>, \<^verbatim>\<open>src/src/writer/pack_info.rs\<close> and
  \<^verbatim>\<open>src/src/writer/unpack_info.rs\<close> write a header. A function that writes to the header,
  a \<open>Vec<u8>\<close>, is modelled by the bytes it appends; such writes do not fail.
  \<open>archive_header\<close> holds the fields of \<open>ArchiveWriter\<close> that the header is made from.
\<close>

section \<open>Pack info (pack_info.rs)\<close>

record pack_info =
  pi_crcs :: "u32 list"
  pi_sizes :: "u64 list"
  pi_pos :: u64

definition pack_info_default :: pack_info where
  "pack_info_default = \<lparr>pi_crcs = [], pi_sizes = [], pi_pos = 0\<rparr>"

definition add_stream :: "pack_info \<Rightarrow> u64 \<Rightarrow> u32 \<Rightarrow> pack_info" where
  "add_stream p sz c = p\<lparr>pi_sizes := pi_sizes p @ [sz], pi_crcs := pi_crcs p @ [c]\<rparr>"

text \<open>The loop \<open>for (i, x) in xs.enumerate() { if P(x) { set.insert(i) } }\<close>.\<close>

fun insert_where :: "('a \<Rightarrow> bool) \<Rightarrow> usize \<Rightarrow> 'a list \<Rightarrow> bit_set \<Rightarrow> bit_set" where
  "insert_where P i [] s = s"
| "insert_where P i (x # xs) s = insert_where P (i + 1) xs (if P x then snd (bs_insert s i) else s)"

definition write_pack_info :: "pack_info \<Rightarrow> bytes" where
  "write_pack_info p =
     write_u8 k_pack_info @ write_u64 (pi_pos p) @ write_u64 (of_nat (length (pi_sizes p)))
     @ write_u8 k_size @ concat (map write_u64 (pi_sizes p))
     @ write_u8 k_crc
     @ (if list_all (\<lambda>c. c \<noteq> 0) (pi_crcs p)
        then write_u8 1 @ concat (map write_u32_le (pi_crcs p))
        else write_u8 0 @ write_bit_set
               (insert_where (\<lambda>c. c \<noteq> 0) 0 (pi_crcs p) (bs_with_capacity (length (pi_crcs p)))))
     @ write_u8 k_end"

section \<open>Unpack info (unpack_info.rs)\<close>

record block_info =
  bi_methods :: "encoder_configuration list"
  bi_sizes :: "u64 list"
  bi_crc :: u32
  bi_num_sub_unpack_streams :: u64
  bi_sub_stream_sizes :: "u64 list"
  bi_sub_stream_crcs :: "u32 list"

type_synonym unpack_info = "block_info list"

definition unpack_add :: "unpack_info \<Rightarrow> encoder_configuration list \<Rightarrow> u64 list \<Rightarrow> u32 \<Rightarrow> unpack_info" where
  "unpack_add us ms sizes c = us @
     [\<lparr>bi_methods = ms, bi_sizes = sizes, bi_crc = c, bi_num_sub_unpack_streams = 1,
       bi_sub_stream_sizes = [], bi_sub_stream_crcs = []\<rparr>]"

definition unpack_add_multiple ::
    "unpack_info \<Rightarrow> encoder_configuration list \<Rightarrow> u64 list \<Rightarrow> u32 \<Rightarrow> u64 \<Rightarrow> u64 list \<Rightarrow> u32 list \<Rightarrow> unpack_info" where
  "unpack_add_multiple us ms sizes c n sub_sizes sub_crcs = us @
     [\<lparr>bi_methods = ms, bi_sizes = sizes, bi_crc = c, bi_num_sub_unpack_streams = n,
       bi_sub_stream_sizes = sub_sizes, bi_sub_stream_crcs = sub_crcs\<rparr>]"

definition write_single_codec :: "libs \<Rightarrow> encoder_configuration \<Rightarrow> bytes" where
  "write_single_codec L mc =
     (let i = method_id (config_method mc);
          props = get_options_as_properties L (config_method mc) (config_options mc);
          codec_flags = of_nat (length i) OR (if props \<noteq> [] then 0x20 else 0) :: u8
      in write_u8 codec_flags @ i
         @ (if props \<noteq> [] then write_u8 (of_nat (length props)) @ props else []))"

definition write_block :: "libs \<Rightarrow> block_info \<Rightarrow> bytes" where
  "write_block L b =
     (let num_coders = length (bi_methods b)
      in write_u64 (of_nat num_coders)
         @ concat (map (write_single_codec L) (bi_methods b))
         @ concat (map (\<lambda>i. write_u64 (of_nat i + 1) @ write_u64 (of_nat i)) [0..<num_coders - 1]))"

definition write_unpack_info :: "libs \<Rightarrow> unpack_info \<Rightarrow> bytes" where
  "write_unpack_info L us =
     write_u8 k_unpack_info @ write_u8 k_folder @ write_u64 (of_nat (length us)) @ write_u8 0
     @ concat (map (write_block L) us)
     @ write_u8 k_coders_unpack_size
     @ concat (map (\<lambda>b. concat (map write_u64 (bi_sizes b))) us)
     @ write_u8 k_end"

definition crcs_of_block :: "block_info \<Rightarrow> u32 list" where
  "crcs_of_block f =
     (if 1 < bi_num_sub_unpack_streams f then bi_sub_stream_crcs f
      else if bi_num_sub_unpack_streams f = 1
        then (case bi_sub_stream_crcs f of [] \<Rightarrow> [bi_crc f] | c # _ \<Rightarrow> [c])
      else [])"

definition write_substreams :: "unpack_info \<Rightarrow> bytes" where
  "write_substreams us =
     write_u8 k_sub_streams_info
     @ (if list_ex (\<lambda>f. bi_num_sub_unpack_streams f \<noteq> 1) us
        then write_u8 k_num_unpack_stream
             @ concat (map (\<lambda>f. write_u64 (bi_num_sub_unpack_streams f)) us)
        else [])
     @ (if list_ex (\<lambda>f. 1 < length (bi_sub_stream_sizes f)) us
        then write_u8 k_size
             @ concat (map (\<lambda>f. if 1 < length (bi_sub_stream_sizes f)
                 then concat (map write_u64 (butlast (bi_sub_stream_sizes f))) else []) us)
        else [])
     @ (let crcs_to_write = concat (map crcs_of_block us)
        in if crcs_to_write \<noteq> []
           then write_u8 k_crc @ write_u8 1 @ concat (map write_u32_le crcs_to_write)
           else [])
     @ write_u8 k_end"

section \<open>Files info (writer.rs)\<close>

record archive_header =
  w_files :: "archive_entry list"
  w_content_methods :: "encoder_configuration list"
  w_pack_info :: pack_info
  w_unpack_info :: unpack_info
  w_encrypt_header :: bool
  w_comment :: "rstring option"

definition write_sized :: "bytes \<Rightarrow> bytes" where
  "write_sized temp = write_u64 (of_nat (length temp)) @ temp"

definition write_file_empty_streams :: "archive_entry list \<Rightarrow> bytes" where
  "write_file_empty_streams files =
     (if list_ex (\<lambda>e. \<not> has_stream e) files then
        write_u8 k_empty_stream
        @ write_sized (write_bit_set
            (insert_where (\<lambda>e. \<not> has_stream e) 0 files (bs_with_capacity (length files))))
      else [])"

text \<open>The loop of \<open>write_file_empty_files\<close> and \<open>write_file_anti_items\<close>: entries without a
  stream are counted, and the counts of those with the flag are inserted.\<close>

fun empty_entries_loop ::
    "(archive_entry \<Rightarrow> bool) \<Rightarrow> archive_entry list \<Rightarrow> usize \<Rightarrow> bool \<Rightarrow> bit_set \<Rightarrow> bool \<times> bit_set" where
  "empty_entries_loop flag [] counter has_any s = (has_any, s)"
| "empty_entries_loop flag (e # es) counter has_any s =
     (if \<not> has_stream e then
        empty_entries_loop flag es (counter + 1) (has_any \<or> flag e)
          (if flag e then snd (bs_insert s counter) else s)
      else empty_entries_loop flag es counter has_any s)"

definition write_file_empty_files :: "archive_entry list \<Rightarrow> bytes" where
  "write_file_empty_files files =
     (let (has_empty, s) = empty_entries_loop (\<lambda>e. \<not> is_directory e) files 0 False bs_new
      in if has_empty then write_u8 k_empty_file @ write_sized (write_bit_set s) else [])"

definition write_file_anti_items :: "archive_entry list \<Rightarrow> bytes" where
  "write_file_anti_items files =
     (let (has_anti, s) = empty_entries_loop (\<lambda>e. \<not> is_anti_item e) files 0 False bs_new
      in if has_anti then write_u8 k_anti @ write_sized (write_bit_set s) else [])"

definition write_file_names :: "archive_entry list \<Rightarrow> bytes" where
  "write_file_names files =
     write_u8 k_name
     @ write_sized (write_u8 0
         @ concat (map (\<lambda>f. concat (map write_u16_le (encode_utf16 (name f))) @ [0, 0]) files))"

text \<open>The macro \<open>write_times!\<close>: the property id, the flag, and the bytes of a value.\<close>

definition write_times ::
    "u8 \<Rightarrow> (archive_entry \<Rightarrow> bool) \<Rightarrow> (archive_entry \<Rightarrow> bytes) \<Rightarrow> archive_entry list \<Rightarrow> bytes" where
  "write_times nid has_time time files =
     (let num = length (filter has_time files) in
      if 0 < num then
        write_u8 nid
        @ write_sized
            ((if num \<noteq> length files
              then write_u8 0 @ write_bit_set (insert_where has_time 0 files (bs_with_capacity (length files)))
              else write_u8 1)
             @ write_u8 0
             @ concat (map (\<lambda>f. if has_time f then time f else []) files))
      else [])"

definition write_file_ctimes :: "archive_entry list \<Rightarrow> bytes" where
  "write_file_ctimes = write_times k_c_time has_creation_date (\<lambda>f. write_u64_le (creation_date f))"

definition write_file_atimes :: "archive_entry list \<Rightarrow> bytes" where
  "write_file_atimes = write_times k_a_time has_access_date (\<lambda>f. write_u64_le (access_date f))"

definition write_file_mtimes :: "archive_entry list \<Rightarrow> bytes" where
  "write_file_mtimes =
     write_times k_m_time has_last_modified_date (\<lambda>f. write_u64_le (last_modified_date f))"

definition write_file_windows_attrs :: "archive_entry list \<Rightarrow> bytes" where
  "write_file_windows_attrs =
     write_times k_win_attributes has_windows_attributes (\<lambda>f. write_u32_le (windows_attributes f))"

definition write_files_info :: "archive_entry list \<Rightarrow> bytes" where
  "write_files_info files =
     write_u8 k_files_info @ write_u64 (of_nat (length files))
     @ write_file_empty_streams files @ write_file_empty_files files
     @ write_file_anti_items files @ write_file_names files
     @ write_file_ctimes files @ write_file_atimes files @ write_file_mtimes files
     @ write_file_windows_attrs files @ write_u8 k_end"

section \<open>The header (writer.rs)\<close>

definition write_streams_info :: "libs \<Rightarrow> 'x archive_header_scheme \<Rightarrow> bytes" where
  "write_streams_info L w =
     (if 0 < length (pi_sizes (w_pack_info w))
      then write_pack_info (w_pack_info w) @ write_unpack_info L (w_unpack_info w) else [])
     @ write_substreams (w_unpack_info w) @ write_u8 k_end"

definition write_archive_properties :: "'x archive_header_scheme \<Rightarrow> bytes" where
  "write_archive_properties w =
     write_u8 k_archive_properties
     @ (case w_comment w of None \<Rightarrow> []
        | Some s \<Rightarrow> write_u8 k_comment
            @ write_sized (concat (map write_u16_le (encode_utf16 s @ [0]))))
     @ write_u8 k_end"

definition write_header :: "libs \<Rightarrow> 'x archive_header_scheme \<Rightarrow> bytes" where
  "write_header L w =
     write_u8 k_header
     @ (if w_comment w \<noteq> None then write_archive_properties w else [])
     @ write_u8 k_main_streams_info @ write_streams_info L w
     @ write_files_info (w_files w) @ write_u8 k_end"

section \<open>The sets the loops build\<close>

lemma insert_where_eq: "insert_where P i xs s = bits.add_where i (map P xs) s"
  by (induction xs arbitrary: i s) (simp_all add: bs_add_def)

lemma empty_entries_loop_eq:
  "empty_entries_loop flag es counter any s =
     (any \<or> list_ex flag (filter (\<lambda>e. \<not> has_stream e) es),
      insert_where flag counter (filter (\<lambda>e. \<not> has_stream e) es) s)"
  by (induction es arbitrary: counter any s) auto

lemma ok_insert_where: "bs_ok s \<Longrightarrow> bs_ok (insert_where P i xs s)"
  by (simp add: insert_where_eq bits.ok_add_where)

lemma count_insert_where:
  "bit_count (insert_where P 0 xs (bs_with_capacity (length xs))) = length xs"
  by (simp add: insert_where_eq bits.capacity_add_where bs_ok_with_capacity bits.capacity_empty)

lemma contains_insert_where:
  "bs_contains (insert_where P 0 xs (bs_with_capacity n)) i \<longleftrightarrow> i < length xs \<and> P (xs ! i)"
  by (auto simp: insert_where_eq bits.member_of_flags)

lemma parses_insert_where:
  "n = length xs \<Longrightarrow> parses (read_bits n)
     (write_bit_set (insert_where P 0 xs (bs_with_capacity n))) (insert_where P 0 xs (bs_with_capacity n))"
  by (rule parses_read_bits_write) (simp_all add: ok_insert_where bs_ok_with_capacity count_insert_where)

end
