(* ===== verification/Archive_Writer.thy ===== *)
theory Archive_Writer
  imports Providers Encoder_Stack Header_Writer
begin

text \<open>
  \<^verbatim>\<open>src/src/writer.rs\<close>: the writer of an archive. Its state is \<open>archive_header\<close> of
  \<open>Header_Writer\<close> with the output. The functions that add entries run the data through the
  stack of encoders (\<open>encode\<close>) and record what came out; \<open>finish\<close> writes the header behind the
  packed streams and then the start header at the beginning.

  What is not in the archive writer's code is gathered in \<open>writer_env\<close>: the constants and codecs
  of other crates, \<open>crc32fast::hash\<close>, and the operations of the output. The reader of the data
  is its state with \<open>read\<close>; the fuel bounds the calls of \<open>read\<close>. A function that fails does not
  return the writer: what is left of the archive after an error is not modelled. Where the code
  returns a reference to the new entry, it is the last of \<open>w_files\<close>.
\<close>

section \<open>Names in messages\<close>

text \<open>A Rust string holds its scalar values in UTF-8.\<close>

fun utf8_char :: "nat \<Rightarrow> nat list" where
  "utf8_char c =
     (if c < 0x80 then [c]
      else if c < 0x800 then [0xC0 + c div 64, 0x80 + c mod 64]
      else if c < 0x10000 then [0xE0 + c div 4096, 0x80 + c div 64 mod 64, 0x80 + c mod 64]
      else [0xF0 + c div 262144, 0x80 + c div 4096 mod 64, 0x80 + c div 64 mod 64, 0x80 + c mod 64])"

definition display_name :: "rstring \<Rightarrow> string" where
  "display_name n = map char_of (concat (map utf8_char n))"

definition encode_entry_message :: "archive_entry \<Rightarrow> string" where
  "encode_entry_message e = ''Encode entry:'' @ display_name (name e)"

fun entries_names_loop :: "archive_entry list \<Rightarrow> string \<Rightarrow> string" where
  "entries_names_loop [] names = names"
| "entries_names_loop (e # es) names =
     (let names = names @ display_name (name e) @ '';'' in
      if 512 < length names then names else entries_names_loop es names)"

definition entries_names :: "archive_entry list \<Rightarrow> string" where
  "entries_names es = entries_names_loop es []"

section \<open>CompressWrapWriter\<close>

record 'w compress_wrap =
  wr_writer :: 'w
  wr_crc :: bytes
  wr_bytes_written :: usize

definition wrap_new :: "'w \<Rightarrow> 'w compress_wrap" where
  "wrap_new w = \<lparr>wr_writer = w, wr_crc = [], wr_bytes_written = 0\<rparr>"

definition wrap_crc_value :: "(bytes \<Rightarrow> u32) \<Rightarrow> 'w compress_wrap \<Rightarrow> u32" where
  "wrap_crc_value crc32 w = crc32 (wr_crc w)"

definition wrap_write :: "'w writing \<Rightarrow> 'w compress_wrap writing" where
  "wrap_write write w buf =
     and_then (write (wr_writer w) buf) (\<lambda>(len, x).
       if len \<le> length buf then
         Ok (len, \<lparr>wr_writer = x, wr_crc = wr_crc w @ take len buf,
                   wr_bytes_written = usize_add (wr_bytes_written w) len\<rparr>)
       else Panic)"

definition wrap_flush :: "'w flushing \<Rightarrow> 'w compress_wrap flushing" where
  "wrap_flush flush w = and_then (flush (wr_writer w)) (\<lambda>x. Ok (w\<lparr>wr_writer := x\<rparr>))"

definition wrap_ops :: "('w, 'z) io_ops_scheme \<Rightarrow> 'w compress_wrap io_ops" where
  "wrap_ops ops = \<lparr>io_write = wrap_write (io_write ops), io_flush = wrap_flush (io_flush ops)\<rparr>"

section \<open>The writer and its settings\<close>

record 'w out_ops = "'w io_ops" +
  out_write_all :: "'w write_all"
  out_seek :: "'w \<Rightarrow> u64 \<Rightarrow> 'w io_result"
  out_position :: "'w \<Rightarrow> (u64 \<times> 'w) io_result"

record ('e, 'o) writer_env =
  we_libs :: libs
  we_codecs :: "'e codecs"
  we_crc32 :: "bytes \<Rightarrow> u32"
  we_output :: "'o out_ops"

record 'o archive_writer = archive_header +
  w_output :: 'o

definition archive_writer_new :: "('e, 'o) writer_env \<Rightarrow> 'o \<Rightarrow> 'o archive_writer result" where
  "archive_writer_new E out =
     and_then (from_io (out_seek (we_output E) out (of_nat signature_header_size))) (\<lambda>out.
     Ok \<lparr>w_files = [], w_content_methods = [config_new (EncoderMethod ''LZMA2'' id_lzma2)],
         w_pack_info = pack_info_default, w_unpack_info = [], w_encrypt_header = True, w_comment = None,
         w_output = out\<rparr>)"

definition set_content_methods ::
    "'x archive_header_scheme \<Rightarrow> encoder_configuration list \<Rightarrow> 'x archive_header_scheme" where
  "set_content_methods aw methods = (if methods = [] then aw else aw\<lparr>w_content_methods := methods\<rparr>)"

definition set_encrypt_header :: "'x archive_header_scheme \<Rightarrow> bool \<Rightarrow> 'x archive_header_scheme" where
  "set_encrypt_header aw enabled = aw\<lparr>w_encrypt_header := enabled\<rparr>"

definition set_comment :: "'x archive_header_scheme \<Rightarrow> rstring \<Rightarrow> 'x archive_header_scheme" where
  "set_comment aw s = aw\<lparr>w_comment := Some s\<rparr>"

definition clear_comment :: "'x archive_header_scheme \<Rightarrow> 'x archive_header_scheme" where
  "clear_comment aw = aw\<lparr>w_comment := None\<rparr>"

definition configure_parallel ::
    "libs \<Rightarrow> 'x archive_header_scheme \<Rightarrow> parallel_config \<Rightarrow> u32 \<Rightarrow> 'x archive_header_scheme" where
  "configure_parallel L aw config level =
     set_content_methods aw
       [\<lparr>config_method = EncoderMethod ''LZMA2'' id_lzma2, config_options = Some (Lzma2 (to_lzma2_options L config level))\<rparr>]"

section \<open>Encoding\<close>

definition max_stack_coders :: usize where "max_stack_coders = 4"

fun fill_sizes :: "usize \<Rightarrow> usize list \<Rightarrow> u64 list \<Rightarrow> u64 list" where
  "fill_sizes i [] sizes = sizes"
| "fill_sizes i (s # ss) sizes = fill_sizes (i + 1) ss (sizes[i := of_nat s])"

definition collect_sizes :: "usize list \<Rightarrow> u64 \<Rightarrow> u64 list" where
  "collect_sizes inner_sizes final_size =
     (let total_count = length inner_sizes + 1 in
      if total_count \<le> max_stack_coders then
        take total_count ((fill_sizes 0 inner_sizes (replicate max_stack_coders 0))[total_count - 1 := final_size])
      else map of_nat inner_sizes @ [final_size])"

type_synonym ('e, 'o) encoding = "('e, 'o compress_wrap) encoders compress_wrap"

text \<open>The writers of an entry, from the outside: a wrapper that counts the data, the encoders, a
  wrapper that counts what they put out, and the output. \<open>Vec::with_capacity(len - 1)\<close> panics
  when there are no methods.\<close>

definition encoding_ops :: "('e, 'o) writer_env \<Rightarrow> nat \<Rightarrow> ('e, 'o) encoding io_ops" where
  "encoding_ops E depth = wrap_ops (stack_ops (we_codecs E) (wrap_ops (we_output E)) depth)"

definition start_encoding ::
    "('e, 'o) writer_env \<Rightarrow> encoder_configuration list \<Rightarrow> 'o \<Rightarrow> ('e, 'o) encoding result" where
  "start_encoding E methods out =
     (if methods = [] then Panic
      else and_then (create_writer (we_libs E) (we_codecs E) methods (wrap_new out)) (\<lambda>w. Ok (wrap_new w)))"

text \<open>Copy, flush, and finish with an empty write; the arguments turn I/O errors into errors.\<close>

definition encode ::
    "('e, 'o) writer_env \<Rightarrow> encoder_configuration list \<Rightarrow> 'o \<Rightarrow>
     (('e, 'o) encoding write_all \<Rightarrow> ('e, 'o) encoding \<Rightarrow> ('r \<times> ('e, 'o) encoding) result) \<Rightarrow>
     (io_error \<Rightarrow> error) \<Rightarrow> (io_error \<Rightarrow> error) \<Rightarrow> ('r \<times> ('e, 'o) encoding) result" where
  "encode E methods out copy flush_err end_err =
     and_then (start_encoding E methods out) (\<lambda>w.
     let ops = encoding_ops E (length methods) in
     and_then (copy (write_all_default (io_write ops)) w) (\<lambda>(r, w).
     and_then (map_err flush_err (io_flush ops w)) (\<lambda>w.
     and_then (map_err end_err (io_write ops w [])) (\<lambda>(_, w).
     Ok (r, w)))))"

text \<open>The loop that copies from the reader, with the total number of bytes.\<close>

fun encode_loop ::
    "'s reading \<Rightarrow> usize \<Rightarrow> (io_error \<Rightarrow> error) \<Rightarrow> (io_error \<Rightarrow> error) \<Rightarrow> nat \<Rightarrow> usize \<Rightarrow> 's \<Rightarrow>
     'w write_all \<Rightarrow> 'w \<Rightarrow> (usize \<times> 'w) result" where
  "encode_loop read buffer_size write_err read_err 0 total_bytes r write_all w = OutOfFuel"
| "encode_loop read buffer_size write_err read_err (Suc fuel) total_bytes r write_all w =
     and_then (map_err read_err (read r buffer_size)) (\<lambda>(buf, r).
     if length buf = 0 then Ok (total_bytes, w)
     else
       and_then (map_err write_err (write_all w buf)) (\<lambda>w.
       encode_loop read buffer_size write_err read_err fuel (usize_add total_bytes (length buf)) r write_all w))"

section \<open>Adding an entry\<close>

text \<open>What is recorded of a stream of \<open>size\<close> bytes that was encoded.\<close>

definition streamed_entry ::
    "('e, 'o) writer_env \<Rightarrow> ('e, 'o) encoding \<Rightarrow> usize \<Rightarrow> archive_entry \<Rightarrow> archive_entry" where
  "streamed_entry E w n entry =
     (let compressed = snd (wr_writer w) in
      entry\<lparr>has_stream := True, entry_size := of_nat n,
        crc := ucast (wrap_crc_value (we_crc32 E) w), has_crc := True,
        compressed_crc := ucast (wrap_crc_value (we_crc32 E) compressed),
        compressed_size := of_nat (wr_bytes_written compressed)\<rparr>)"

definition add_streamed ::
    "('e, 'o) writer_env \<Rightarrow> 'o archive_writer \<Rightarrow> ('e, 'o) encoding \<Rightarrow> usize \<Rightarrow> archive_entry \<Rightarrow> 'o archive_writer" where
  "add_streamed E aw w n entry =
     (let compressed = snd (wr_writer w) in
      aw\<lparr>w_output := wr_writer compressed,
         w_pack_info := add_stream (w_pack_info aw) (of_nat (wr_bytes_written compressed))
           (wrap_crc_value (we_crc32 E) compressed),
         w_unpack_info := unpack_add (w_unpack_info aw) (w_content_methods aw)
           (collect_sizes (more_sizes (wr_writer w)) (of_nat n)) (wrap_crc_value (we_crc32 E) w),
         w_files := w_files aw @ [streamed_entry E w n entry]\<rparr>)"

definition add_empty :: "'o archive_writer \<Rightarrow> archive_entry \<Rightarrow> 'o archive_writer" where
  "add_empty aw entry =
     aw\<lparr>w_files := w_files aw @ [entry\<lparr>has_stream := False, entry_size := 0, compressed_size := 0, has_crc := False\<rparr>]\<rparr>"

definition push_archive_entry ::
    "('e, 'o) writer_env \<Rightarrow> 's reading \<Rightarrow> nat \<Rightarrow> 'o archive_writer \<Rightarrow> archive_entry \<Rightarrow> 's option \<Rightarrow>
     'o archive_writer result" where
  "push_archive_entry E read fuel aw entry reader =
     (case reader of
        Some r \<Rightarrow>
          if is_directory entry then Ok (add_empty aw entry)
          else
            let err = (\<lambda>e. Io e (encode_entry_message entry)) in
            and_then (encode E (w_content_methods aw) (w_output aw)
              (encode_loop read default_buffer_size err err fuel 0 r) err err) (\<lambda>(_, w).
            Ok (add_streamed E aw w (wr_bytes_written w) entry))
      | None \<Rightarrow> Ok (add_empty aw entry))"

definition push_archive_entry_small ::
    "('e, 'o) writer_env \<Rightarrow> 's reading \<Rightarrow> nat \<Rightarrow> 'o archive_writer \<Rightarrow> archive_entry \<Rightarrow> 's option \<Rightarrow>
     'o archive_writer result" where
  "push_archive_entry_small E read fuel aw entry reader =
     (case reader of
        Some r \<Rightarrow>
          if is_directory entry then Ok (add_empty aw entry)
          else
            and_then (encode E (w_content_methods aw) (w_output aw)
              (encode_loop read small_buffer_size (\<lambda>e. Io e ''Encode small entry'') (\<lambda>e. Io e ''Read small entry'') fuel 0 r)
              (\<lambda>e. Io e ''Flush small entry'') (\<lambda>e. Io e ''Finalize small entry'')) (\<lambda>(n, w).
            Ok (add_streamed E aw w n entry))
      | None \<Rightarrow> Ok (add_empty aw entry))"

definition push_archive_entry_fast ::
    "('e, 'o) writer_env \<Rightarrow> 's reading \<Rightarrow> nat \<Rightarrow> 'o archive_writer \<Rightarrow> archive_entry \<Rightarrow> 's option \<Rightarrow> usize \<Rightarrow>
     'o archive_writer result" where
  "push_archive_entry_fast E read fuel aw entry reader buffer_size =
     (case reader of
        Some r \<Rightarrow>
          if is_directory entry then Ok (add_empty aw entry)
          else
            let err = (\<lambda>e. Io e (encode_entry_message entry)) in
            and_then (encode E (w_content_methods aw) (w_output aw)
              (encode_loop read (clamp buffer_size small_buffer_size max_buffer_size) err err fuel 0 r) err err) (\<lambda>(_, w).
            Ok (add_streamed E aw w (wr_bytes_written w) entry))
      | None \<Rightarrow> Ok (add_empty aw entry))"

text \<open>With progress: the callback is asked whenever the interval has been read, and may cancel;
  what it says of the final report is ignored.\<close>

fun progress_loop ::
    "'p on_progress \<Rightarrow> u64 \<Rightarrow> archive_entry \<Rightarrow> usize \<Rightarrow> 's reading \<Rightarrow> nat \<Rightarrow> u64 \<Rightarrow> u64 \<Rightarrow> 'p \<Rightarrow> 's \<Rightarrow>
     'w write_all \<Rightarrow> 'w \<Rightarrow> ('p \<times> 'w) result" where
  "progress_loop on_progress interval entry entry_index read 0 total_read last_progress p r write_all w = OutOfFuel"
| "progress_loop on_progress interval entry entry_index read (Suc fuel) total_read last_progress p r write_all w =
     (let err = (\<lambda>e. Io e (encode_entry_message entry)) in
      and_then (map_err err (read r default_buffer_size)) (\<lambda>(buf, r).
      if length buf = 0 then Ok (p, w)
      else
        and_then (map_err err (write_all w buf)) (\<lambda>w.
        let total_read = total_read + of_nat (length buf) in
        if interval \<le> total_read - last_progress then
          (case on_progress p (progress_with_index (progress_with_entry (progress_new total_read 0) (name entry)) entry_index) of
             (Cancel, p) \<Rightarrow> Err (Other ''Operation cancelled by progress callback'')
           | (Continue, p) \<Rightarrow>
               progress_loop on_progress interval entry entry_index read fuel total_read total_read p r write_all w)
        else progress_loop on_progress interval entry entry_index read fuel total_read last_progress p r write_all w)))"

definition push_archive_entry_with_progress ::
    "('e, 'o) writer_env \<Rightarrow> 's reading \<Rightarrow> nat \<Rightarrow> 'p on_progress \<Rightarrow> 'o archive_writer \<Rightarrow> archive_entry \<Rightarrow> 's option \<Rightarrow>
     'p \<Rightarrow> u64 \<Rightarrow> ('p \<times> 'o archive_writer) result" where
  "push_archive_entry_with_progress E read fuel on_progress aw entry reader p interval =
     (case reader of
        Some r \<Rightarrow>
          if is_directory entry then Ok (p, add_empty aw entry)
          else
            let err = (\<lambda>e. Io e (encode_entry_message entry)); entry_index = length (w_files aw) in
            and_then (encode E (w_content_methods aw) (w_output aw)
              (progress_loop on_progress interval entry entry_index read fuel 0 0 p r) err err) (\<lambda>(p, w).
            let info = progress_with_index (progress_with_entry
                   (progress_new (of_nat (wr_bytes_written w)) (of_nat (wr_bytes_written (snd (wr_writer w)))))
                   (name entry)) entry_index;
                p = snd (on_progress p info) in
            Ok (p, add_streamed E aw w (wr_bytes_written w) entry))
      | None \<Rightarrow> Ok (p, add_empty aw entry))"

text \<open>With a pool: the buffer comes from the pool and goes back to it; its length is that of the
  vector the pool gave.\<close>

definition push_archive_entry_batched ::
    "('e, 'o) writer_env \<Rightarrow> 's reading \<Rightarrow> nat \<Rightarrow> 'o archive_writer \<Rightarrow> archive_entry \<Rightarrow> 's option \<Rightarrow>
     buffer_pool option \<Rightarrow> (buffer_pool option \<times> 'o archive_writer) result" where
  "push_archive_entry_batched E read fuel aw entry reader pool =
     (case reader of
        Some r \<Rightarrow>
          if is_directory entry then Ok (pool, add_empty aw entry)
          else
            let err = (\<lambda>e. Io e (encode_entry_message entry));
                (buf, pool') = (case pool of
                    Some p \<Rightarrow> (case pool_get p of (h, p) \<Rightarrow> (h, Some (pooled_drop p h)))
                  | None \<Rightarrow> (Some (replicate large_buffer_size 0), None)) in
            (case buf of
               Some buf \<Rightarrow>
                 and_then (encode E (w_content_methods aw) (w_output aw)
                   (encode_loop read (length buf) err err fuel 0 r) err err) (\<lambda>(n, w).
                 Ok (pool', add_streamed E aw w n entry))
             | None \<Rightarrow> Panic)
      | None \<Rightarrow> Ok (pool, add_empty aw entry))"

definition push_archive_entry_bytes ::
    "('e, 'o) writer_env \<Rightarrow> 'o archive_writer \<Rightarrow> archive_entry \<Rightarrow> bytes \<Rightarrow> 'o archive_writer result" where
  "push_archive_entry_bytes E aw entry data =
     (if is_directory entry \<or> data = [] then
        Ok (aw\<lparr>w_files := w_files aw @
          [entry\<lparr>has_stream := (\<not> is_directory entry \<and> data = []), entry_size := 0, compressed_size := 0,
             has_crc := False\<rparr>]\<rparr>)
      else
        and_then (encode E (w_content_methods aw) (w_output aw)
          (\<lambda>write_all w. and_then (map_err (\<lambda>e. Io e ''Encode bytes entry'') (write_all w data)) (\<lambda>w. Ok ((), w)))
          (\<lambda>e. Io e ''Flush bytes entry'') (\<lambda>e. Io e ''Finalize bytes entry'')) (\<lambda>(_, w).
        Ok (add_streamed E aw w (length data) entry)))"

definition push_archive_entry_adaptive ::
    "('e, 'o) writer_env \<Rightarrow> nat \<Rightarrow> 'o archive_writer \<Rightarrow> archive_entry \<Rightarrow> bytes \<Rightarrow> file_size_thresholds option \<Rightarrow>
     'o archive_writer result" where
  "push_archive_entry_adaptive E fuel aw entry data thresholds =
     (case categorize (case thresholds of Some t \<Rightarrow> t | None \<Rightarrow> thresholds_default) (of_nat (length data)) of
        Tiny \<Rightarrow> push_archive_entry_small E slice_read fuel aw entry (Some data)
      | _ \<Rightarrow> push_archive_entry_bytes E aw entry data)"

section \<open>Adding a solid block\<close>

text \<open>What is recorded of several streams that were encoded one after the other.\<close>

definition add_solid ::
    "('e, 'o) writer_env \<Rightarrow> 'o archive_writer \<Rightarrow> ('e, 'o) encoding \<Rightarrow> u64 list \<Rightarrow> u32 list \<Rightarrow> archive_entry list \<Rightarrow>
     'o archive_writer" where
  "add_solid E aw w sub_sizes sub_crcs entries =
     (let compressed = snd (wr_writer w) in
      aw\<lparr>w_output := wr_writer compressed,
         w_pack_info := add_stream (w_pack_info aw) (of_nat (wr_bytes_written compressed))
           (wrap_crc_value (we_crc32 E) compressed),
         w_unpack_info := unpack_add_multiple (w_unpack_info aw) (w_content_methods aw)
           (collect_sizes (more_sizes (wr_writer w)) (of_nat (wr_bytes_written w))) (wrap_crc_value (we_crc32 E) w)
           (of_nat (length entries)) sub_sizes sub_crcs,
         w_files := w_files aw @ entries\<rparr>)"

text \<open>\<open>push_archive_entries\<close>: the sources are read one after the other, and each knows its
  size and CRC in the end. (\<open>has_stream\<close> of the entries stays what the caller made it.)\<close>

fun sources_loop ::
    "'s reading \<Rightarrow> (io_error \<Rightarrow> error) \<Rightarrow> nat \<Rightarrow> 's \<Rightarrow> 'w write_all \<Rightarrow> 'w \<Rightarrow> ('s \<times> 'w) result" where
  "sources_loop read err 0 r write_all w = OutOfFuel"
| "sources_loop read err (Suc fuel) r write_all w =
     and_then (map_err err (read r default_buffer_size)) (\<lambda>(buf, r).
     if length buf = 0 then Ok (r, w)
     else and_then (map_err err (write_all w buf)) (\<lambda>w. sources_loop read err fuel r write_all w))"

definition source_entry :: "archive_entry \<times> 's source_reader \<Rightarrow> archive_entry" where
  "source_entry er =
     (case er of (e, r) \<Rightarrow>
        e\<lparr>crc := ucast (sr_crc_value r), entry_size := of_nat (sr_size r), has_crc := True\<rparr>)"

definition push_archive_entries ::
    "('e, 'o) writer_env \<Rightarrow> 's reading \<Rightarrow> nat \<Rightarrow> 'o archive_writer \<Rightarrow> archive_entry list \<Rightarrow> 's source_reader list \<Rightarrow>
     'o archive_writer result" where
  "push_archive_entries E read fuel aw entries readers =
     (if length readers \<noteq> length entries then Panic
      else
        let err = (\<lambda>e. Io e (''Encode entries:'' @ entries_names entries));
            end_err = (\<lambda>e. Io e (''Encode entry:'' @ entries_names entries)) in
        and_then (encode E (w_content_methods aw) (w_output aw)
          (sources_loop (seq_read (source_read (we_crc32 E) read)) err fuel (seq_new readers)) end_err end_err)
          (\<lambda>(r, w).
        let entries = map source_entry (zip entries (sq_readers r)) in
        Ok (add_solid E aw w (map entry_size entries) (map (\<lambda>e. ucast (crc e)) entries) entries)))"

text \<open>\<open>push_solid_entries_parallel\<close>: one stream of the provider, with its size and CRC.\<close>

fun stream_loop ::
    "'s reading \<Rightarrow> usize \<Rightarrow> archive_entry \<Rightarrow> nat \<Rightarrow> u64 \<Rightarrow> bytes \<Rightarrow> 's \<Rightarrow> 'w write_all \<Rightarrow> 'w \<Rightarrow>
     (u64 \<times> bytes \<times> 'w) result" where
  "stream_loop read buffer_size entry 0 entry_total digest r write_all w = OutOfFuel"
| "stream_loop read buffer_size entry (Suc fuel) entry_total digest r write_all w =
     and_then (map_err (\<lambda>e. Io e (''Read error for entry:'' @ display_name (name entry))) (read r buffer_size)) (\<lambda>(buf, r).
     if length buf = 0 then Ok (entry_total, digest, w)
     else
       and_then (map_err (\<lambda>e. Io e (encode_entry_message entry)) (write_all w buf)) (\<lambda>w.
       stream_loop read buffer_size entry fuel (entry_total + of_nat (length buf)) (digest @ buf) r write_all w))"

type_synonym ('p, 'w) solid_state = "'p \<times> (u64 \<times> u32) list \<times> 'w"

definition solid_entry ::
    "('p, 's) provider_ops \<Rightarrow> 's reading \<Rightarrow> (bytes \<Rightarrow> u32) \<Rightarrow> usize \<Rightarrow> nat \<Rightarrow> archive_entry list \<Rightarrow> 'w write_all \<Rightarrow>
     usize \<Rightarrow> ('p, 'w) solid_state \<Rightarrow> ('p, 'w) solid_state result" where
  "solid_entry P read crc32 buffer_size fuel entries write_all idx st =
     (case st of (p, stats, w) \<Rightarrow>
        case pv_get_stream_blocking P p (of_nat idx) of
          (None, p) \<Rightarrow> Err (Other (''Failed to get stream for entry '' @ display_name (name (entries ! idx))
            @ '' (index '' @ decimal idx @ '')''))
        | (Some r, p) \<Rightarrow>
            and_then (stream_loop read buffer_size (entries ! idx) fuel 0 [] r write_all w) (\<lambda>(n, digest, w).
            Ok (p, stats @ [(n, crc32 digest)], w)))"

text \<open>The batches: the provider is told of the entries of a batch before they are read. The sum
  does not overflow, as \<open>current\<close> is a multiple of the batch size below the length of a
  vector.\<close>

function solid_batches ::
    "('p, 's) provider_ops \<Rightarrow> 's reading \<Rightarrow> (bytes \<Rightarrow> u32) \<Rightarrow> usize \<Rightarrow> nat \<Rightarrow> usize \<Rightarrow> archive_entry list \<Rightarrow> 'w write_all \<Rightarrow>
     usize \<Rightarrow> ('p, 'w) solid_state \<Rightarrow> ('p, 'w) solid_state result" where
  "solid_batches P read crc32 buffer_size fuel batch_size entries write_all current st =
     (if current < length entries then
        let stop = min (current + max 1 batch_size) (length entries);
            st = (case st of (p, rest) \<Rightarrow> (pv_prepare_streams P p (map of_nat [current..<stop]), rest)) in
        and_then (for_each (solid_entry P read crc32 buffer_size fuel entries write_all) [current..<stop] st) (\<lambda>st.
        solid_batches P read crc32 buffer_size fuel batch_size entries write_all stop st)
      else Ok st)"
  by pat_completeness auto
termination
  by (relation "measure (\<lambda>(P, read, crc32, n, fuel, b, es, wa, current, st). length es - current)") auto

declare solid_batches.simps [simp del]

definition stats_entry :: "archive_entry \<times> u64 \<times> u32 \<Rightarrow> archive_entry" where
  "stats_entry es =
     (case es of (e, n, c) \<Rightarrow> e\<lparr>crc := ucast c, entry_size := n, has_crc := True, has_stream := True\<rparr>)"

definition push_solid_checked ::
    "('e, 'o) writer_env \<Rightarrow> ('p, 's) provider_ops \<Rightarrow> 's reading \<Rightarrow> nat \<Rightarrow> 'o archive_writer \<Rightarrow> archive_entry list \<Rightarrow>
     'p \<Rightarrow> solid_config \<Rightarrow> ('p \<times> 'o archive_writer) result" where
  "push_solid_checked E P read fuel aw entries p config =
     (let batch_size = max (min (so_batch_size config) (pv_parallelism P p)) 1 in
      and_then (encode E (w_content_methods aw) (w_output aw)
        (\<lambda>write_all w.
          and_then (solid_batches P read (we_crc32 E) (so_buffer_size config) fuel batch_size entries write_all 0 (p, [], w))
            (\<lambda>(p, stats, w). Ok ((p, stats), w)))
        (\<lambda>e. Io e ''Flush solid block'') (\<lambda>e. Io e ''Finalize solid block'')) (\<lambda>((p, stats), w).
      Ok (p, add_solid E aw w (map fst stats) (map snd stats) (map stats_entry (zip entries stats)))))"

definition push_solid_entries_parallel ::
    "('e, 'o) writer_env \<Rightarrow> ('p, 's) provider_ops \<Rightarrow> 's reading \<Rightarrow> nat \<Rightarrow> 'o archive_writer \<Rightarrow> archive_entry list \<Rightarrow>
     'p \<Rightarrow> solid_config \<Rightarrow> ('p \<times> 'o archive_writer) result" where
  "push_solid_entries_parallel E P read fuel aw entries p config =
     (if entries = [] then Ok (p, aw)
      else
        case pv_stream_count P p of
          Some n \<Rightarrow>
            if n < length entries then
              Err (Other (''Provider has '' @ decimal n @ '' streams but '' @ decimal (length entries)
                @ '' entries were provided''))
            else push_solid_checked E P read fuel aw entries p config
        | None \<Rightarrow> push_solid_checked E P read fuel aw entries p config)"

section \<open>Finishing\<close>

definition vec_ops :: "bytes io_ops" where
  "vec_ops = \<lparr>io_write = vec_write, io_flush = vec_flush\<rparr>"

definition header_methods :: "bool \<Rightarrow> encoder_configuration list \<Rightarrow> encoder_configuration list" where
  "header_methods encrypt methods =
     (if encrypt then
        (case find (\<lambda>conf. method_id (config_method conf) = id_aes256_sha256) methods of
           Some conf \<Rightarrow> [conf] | None \<Rightarrow> [])
      else []) @ [config_new (EncoderMethod ''LZMA'' id_lzma)]"

definition write_encoded_header ::
    "('e, 'o) writer_env \<Rightarrow> 'o archive_writer \<Rightarrow> (bytes \<times> 'o archive_writer) io_result" where
  "write_encoded_header E aw =
     (let raw_header = write_header (we_libs E) aw in
      and_then (out_position (we_output E) (w_output aw)) (\<lambda>(position, out).
      let aw = aw\<lparr>w_output := out\<rparr>;
          pack = pack_info_default\<lparr>pi_pos := position - of_nat signature_header_size\<rparr>;
          n = of_nat (length raw_header) :: u64;
          methods = header_methods (w_encrypt_header aw) (w_content_methods aw);
          ops = stack_ops (we_codecs E) (wrap_ops vec_ops) (length methods) in
      and_then (map_err Io_wrapped (create_writer (we_libs E) (we_codecs E) methods (wrap_new []))) (\<lambda>encoder.
      and_then (write_all_default (io_write ops) encoder raw_header) (\<lambda>encoder.
      and_then (io_flush ops encoder) (\<lambda>encoder.
      and_then (io_write ops encoder []) (\<lambda>(_, encoder).
      let compressed = snd encoder;
          encoded_data = wr_writer compressed;
          compress_size = wr_bytes_written compressed in
      if n \<le> of_nat compress_size + 20 then Ok (raw_header, aw)
      else if length encoded_data < compress_size then Panic
      else
        and_then (out_write_all (we_output E) (w_output aw) (take compress_size encoded_data)) (\<lambda>out.
        let pack = add_stream pack (of_nat compress_size) (wrap_crc_value (we_crc32 E) compressed);
            sizes = map of_nat (more_sizes encoder) @ [n];
            unpack = unpack_add [] methods sizes (we_crc32 E raw_header) in
        Ok (write_u8 k_encoded_header @ write_pack_info pack @ write_unpack_info (we_libs E) unpack
              @ write_substreams unpack @ write_u8 k_end, aw\<lparr>w_output := out\<rparr>))))))))"

definition write_start_header :: "(bytes \<Rightarrow> u32) \<Rightarrow> u64 \<Rightarrow> bytes \<Rightarrow> bytes" where
  "write_start_header crc32 header_pos header =
     (let start = write_u64_le (header_pos - of_nat signature_header_size)
            @ write_u64_le (0xFFFFFFFF AND of_nat (length header)) @ write_u32_le (crc32 header) in
      seven_z_signature @ write_u8 0 @ write_u8 4 @ write_u32_le (crc32 start) @ start)"

definition finish_archive :: "('e, 'o) writer_env \<Rightarrow> 'o archive_writer \<Rightarrow> 'o io_result" where
  "finish_archive E aw =
     and_then (write_encoded_header E aw) (\<lambda>(header, aw).
     and_then (out_position (we_output E) (w_output aw)) (\<lambda>(header_pos, out).
     and_then (out_write_all (we_output E) out header) (\<lambda>out.
     and_then (out_seek (we_output E) out 0) (\<lambda>out.
     and_then (out_write_all (we_output E) out (write_start_header (we_crc32 E) header_pos header)) (\<lambda>out.
     io_flush (we_output E) out)))))"

end
