(* ===== verification/Archive_Push.thy ===== *)
theory Archive_Push
  imports Archive_Writer
begin

text \<open>
  What adding an entry does: the data reaches the output encoded by all methods, and the sizes
  and CRCs of the data, of the streams between the encoders and of the packed stream are
  recorded. All the functions that add a single entry satisfy the one relation \<open>entry_added\<close>,
  so they differ only in how they read.
\<close>

section \<open>Wrapped writers\<close>

definition wrapped :: "('w \<Rightarrow> bytes \<Rightarrow> bool) \<Rightarrow> 'w compress_wrap \<Rightarrow> bytes \<Rightarrow> bool" where
  "wrapped took w d \<longleftrightarrow> took (wr_writer w) d \<and> wr_crc w = d \<and> wr_bytes_written w = length d mod 2 ^ 64"

lemma wrapped_new: "took w [] \<Longrightarrow> wrapped took (wrap_new w) []"
  by (simp add: wrapped_def wrap_new_def)

context finishing_sink
begin

lemma wrap_finishing:
  "finishing_sink (wrap_write put) (write_all_default (wrap_write put)) (wrap_flush flush) (wrapped took) (wrapped finished)"
proof (rule finishing_sinkI)
  fix w d and buf :: bytes
  assume took: "wrapped took w d" and more: "buf \<noteq> []"
  then obtain n x where "put (wr_writer w) buf = Ok (n, x)" "0 < n" "n \<le> length buf" "took x (d @ take n buf)"
    using write_some [of "wr_writer w" d buf] by (auto simp: wrapped_def)
  with took show "\<exists>n w'. wrap_write put w buf = Ok (n, w') \<and> 0 < n \<and> n \<le> length buf \<and> wrapped took w' (d @ take n buf)"
    by (simp add: wrap_write_def wrapped_def usize_add_mod)
next
  fix w d
  assume took: "wrapped took w d"
  then obtain x where "flush (wr_writer w) = Ok x" "took x d"
    using flush_keeps [of "wr_writer w" d] by (auto simp: wrapped_def)
  with took show "\<exists>w'. wrap_flush flush w = Ok w' \<and> wrapped took w' d"
    by (simp add: wrap_flush_def wrapped_def)
  obtain x where "put (wr_writer w) [] = Ok (0, x)" "finished x d"
    using finish [of "wr_writer w" d] took by (auto simp: wrapped_def)
  with took show "\<exists>w'. wrap_write put w [] = Ok (0, w') \<and> wrapped finished w' d"
    using usize_add_mod [of "length d" 0] by (simp add: wrap_write_def wrapped_def)
qed

end

section \<open>Copying into the encoders\<close>

text \<open>\<open>copies copy data Q\<close>: a copy loop gives a well-behaved writer the bytes \<open>data\<close>.\<close>

definition copies ::
    "('w write_all \<Rightarrow> 'w \<Rightarrow> ('r \<times> 'w) result) \<Rightarrow> bytes \<Rightarrow> ('r \<Rightarrow> bool) \<Rightarrow> bool" where
  "copies copy data Q \<longleftrightarrow>
     (\<forall>T write_all w d. (\<forall>w d buf. T w d \<longrightarrow> (\<exists>w'. write_all w buf = Ok w' \<and> T w' (d @ buf))) \<longrightarrow> T w d \<longrightarrow>
        (\<exists>r w'. copy write_all w = Ok (r, w') \<and> Q r \<and> T w' (d @ data)))"

lemma copiesI:
  "(\<And>T write_all w d. (\<And>w d buf. T w d \<Longrightarrow> \<exists>w'. write_all w buf = Ok w' \<and> T w' (d @ buf)) \<Longrightarrow> T w d \<Longrightarrow>
      \<exists>r w'. copy write_all w = Ok (r, w') \<and> Q r \<and> T w' (d @ data)) \<Longrightarrow> copies copy data Q"
  unfolding copies_def by blast

lemma copies_bytes:
  "copies (\<lambda>write_all w. and_then (map_err e (write_all w data)) (\<lambda>w. Ok ((), w))) data (\<lambda>r. True)"
proof (rule copiesI)
  fix T and write_all :: "'w write_all" and w :: 'w and d :: bytes
  assume law: "\<And>w d buf. T w d \<Longrightarrow> \<exists>w'. write_all w buf = Ok w' \<and> T w' (d @ buf)" and "T w d"
  from law [OF this(2), of data]
  show "\<exists>r w'. and_then (map_err e (write_all w data)) (\<lambda>w. Ok ((), w)) = Ok (r, w') \<and> True \<and> T w' (d @ data)" by auto
qed

context byte_source
begin

lemma encode_loop_copies:
  assumes "ready r" and "0 < n" and "length (contents r) < fuel"
  shows "copies (encode_loop read n we re fuel t r) (contents r) (\<lambda>m. m = (t + length (contents r)) mod 2 ^ 64 \<or> contents r = [] \<and> m = t)"
proof (rule copiesI)
  fix T and write_all :: "'w write_all" and w :: 'w and d :: bytes
  assume law: "\<And>w d buf. T w d \<Longrightarrow> \<exists>w'. write_all w buf = Ok w' \<and> T w' (d @ buf)" and "T w d"
  from assms this(2) show "\<exists>m w'. encode_loop read n we re fuel t r write_all w = Ok (m, w')
      \<and> (m = (t + length (contents r)) mod 2 ^ 64 \<or> contents r = [] \<and> m = t) \<and> T w' (d @ contents r)"
  proof (induction fuel arbitrary: t r w d)
    case (Suc fuel)
    obtain bs r' where rd: "read r n = Ok (bs, r')" using total [OF Suc.prems(1)] by blast
    note nb = next_bytes [OF Suc.prems(1) rd]
    show ?case
    proof (cases "bs = []")
      case True
      with end_only [OF Suc.prems(1)] rd Suc.prems show ?thesis by simp
    next
      case False
      obtain w' where w': "write_all w bs = Ok w'" "T w' (d @ bs)" using law [OF Suc.prems(4)] by blast
      have "length (contents r') < fuel" using nb False Suc.prems(3) by (cases bs) auto
      with Suc.IH [of r' w' "d @ bs" "usize_add t (length bs)"] nb w' Suc.prems(2) False rd show ?thesis
        by (auto simp: usize_add_def mod_simps add.assoc)
    qed
  qed simp
qed

end

section \<open>Encoding\<close>

definition output_ok :: "('e, 'o) writer_env \<Rightarrow> ('o \<Rightarrow> bytes \<Rightarrow> bool) \<Rightarrow> ('o \<Rightarrow> bytes \<Rightarrow> bool) \<Rightarrow> bool" where
  "output_ok E took finished \<longleftrightarrow>
     finishing_sink (io_write (we_output E)) (write_all_default (io_write (we_output E))) (io_flush (we_output E)) took finished"

text \<open>The methods make fresh encoders; each is given the relation between its input and output.\<close>

definition methods_ok ::
    "('e, 'o) writer_env \<Rightarrow> encoder_configuration list \<Rightarrow> ((bytes \<Rightarrow> bytes \<Rightarrow> bool) \<times> 'e encoder) list \<Rightarrow> bool" where
  "methods_ok E methods ps \<longleftrightarrow> methods \<noteq> [] \<and>
     list_all2 (\<lambda>m (R, e). add_encoder (we_libs E) (we_codecs E) m = Ok e \<and> fresh_encoder (we_codecs E) R e) methods ps"

lemma methods_ok_create:
  assumes "methods_ok E methods ps"
  shows "create_writer (we_libs E) (we_codecs E) methods x = Ok (map (\<lambda>(R, e). (e, 0, 0)) (rev ps), x)"
    and "list_all (\<lambda>(R, e). fresh_encoder (we_codecs E) R e) (rev ps)" and "length (rev ps) = length methods"
proof -
  from assms have all2: "list_all2 (\<lambda>m (R, e). add_encoder (we_libs E) (we_codecs E) m = Ok e
      \<and> fresh_encoder (we_codecs E) R e) methods ps" by (simp add: methods_ok_def)
  then have "list_all2 (\<lambda>m e. add_encoder (we_libs E) (we_codecs E) m = Ok e) methods (map snd ps)"
    by (auto simp: list.rel_map elim!: list_all2_mono)
  then show "create_writer (we_libs E) (we_codecs E) methods x = Ok (map (\<lambda>(R, e). (e, 0, 0)) (rev ps), x)"
    by (auto simp: create_writer_layers rev_map [symmetric] split_def intro!: exI [of _ "map snd ps"])
  from all2 show "list_all (\<lambda>(R, e). fresh_encoder (we_codecs E) R e) (rev ps)"
    by (auto simp: list_all2_conv_all_nth list_all_length split_def rev_nth)
  from all2 show "length (rev ps) = length methods" by (simp add: list_all2_lengthD)
qed

text \<open>What an encoding has done, from the data to the output.\<close>

definition encoded ::
    "('e, 'o) writer_env \<Rightarrow> ((bytes \<Rightarrow> bytes \<Rightarrow> bool) \<times> 'e encoder) list \<Rightarrow> ('o \<Rightarrow> bytes \<Rightarrow> bool) \<Rightarrow>
     ('e, 'o) encoding \<Rightarrow> bytes \<Rightarrow> bytes \<Rightarrow> usize list \<Rightarrow> bool" where
  "encoded E ps finished w data c ns \<longleftrightarrow>
     stack_code (we_codecs E) (rev ps) data c ns \<and> layers_counts (fst (wr_writer w)) = ns
     \<and> wr_crc w = data \<and> wr_bytes_written w = length data mod 2 ^ 64
     \<and> wrapped finished (snd (wr_writer w)) c"

lemma encoding_sink:
  assumes base: "output_ok E took finished" and ok: "methods_ok E methods ps" and out: "took out []"
  obtains T F w where
    "finishing_sink (io_write (encoding_ops E (length methods))) (write_all_default (io_write (encoding_ops E (length methods))))
       (io_flush (encoding_ops E (length methods))) T F"
    and "start_encoding E methods out = Ok w" and "T w []"
    and "\<And>w data. F w data \<Longrightarrow> \<exists>c ns. encoded E ps finished w data c ns"
proof -
  let ?B = "wrap_ops (we_output E)" and ?es = "rev ps"
  let ?S = "stack_ops (we_codecs E) ?B (length methods)"
  note create = methods_ok_create [OF ok]
  have B: "finishing_sink (io_write ?B) (write_all_default (io_write ?B)) (io_flush ?B) (wrapped took) (wrapped finished)"
    using finishing_sink.wrap_finishing [OF base [unfolded output_ok_def]] by (simp add: wrap_ops_def)
  have out': "wrapped took (wrap_new out) []" by (rule wrapped_new) (rule out)
  obtain T F where S: "finishing_sink (io_write ?S) (write_all_default (io_write ?S)) (io_flush ?S) T F"
    and start: "T (map (\<lambda>(R, e). (e, 0, 0)) ?es, wrap_new out) []"
    and code: "\<And>w d. F w d \<Longrightarrow> \<exists>c. wrapped finished (snd w) c \<and> stack_code (we_codecs E) ?es d c (layers_counts (fst w))"
    using stack_finishing [OF B create(2), unfolded create(3)] out' by blast
  show thesis
  proof (rule that)
    show "finishing_sink (io_write (encoding_ops E (length methods))) (write_all_default (io_write (encoding_ops E (length methods))))
       (io_flush (encoding_ops E (length methods))) (wrapped T) (wrapped F)"
      using finishing_sink.wrap_finishing [OF S] by (simp add: encoding_ops_def wrap_ops_def)
    show "start_encoding E methods out = Ok (wrap_new (map (\<lambda>(R, e). (e, 0, 0)) ?es, wrap_new out))"
      using ok by (simp add: start_encoding_def methods_ok_def create(1))
    show "wrapped T (wrap_new (map (\<lambda>(R, e). (e, 0, 0)) ?es, wrap_new out)) []"
      by (rule wrapped_new) (rule start)
    show "\<exists>c ns. encoded E ps finished w data c ns" if "wrapped F w data" for w data
      using that code [of "wr_writer w" data] by (auto simp: wrapped_def encoded_def)
  qed
qed

lemma encode_codes:
  assumes base: "output_ok E took finished" and ok: "methods_ok E methods ps"
    and out: "took out []" and copy: "copies copy data Q"
  shows "\<exists>r w c ns. encode E methods out copy fe ee = Ok (r, w) \<and> Q r \<and> encoded E ps finished w data c ns"
proof -
  let ?O = "encoding_ops E (length methods)"
  obtain T F w0 where O: "finishing_sink (io_write ?O) (write_all_default (io_write ?O)) (io_flush ?O) T F"
    and began: "start_encoding E methods out = Ok w0" and began': "T w0 []"
    and code: "\<And>w data. F w data \<Longrightarrow> \<exists>c ns. encoded E ps finished w data c ns"
    by (rule encoding_sink [OF base ok out]) (rule that; assumption)
  note sink = finishing_sink.axioms(1) [OF O]
  have law: "\<forall>w d buf. T w d \<longrightarrow> (\<exists>w'. write_all_default (io_write ?O) w buf = Ok w' \<and> T w' (d @ buf))"
    using byte_sink.write_every [OF sink] by blast
  have ran: "\<exists>r w'. copy (write_all_default (io_write ?O)) w0 = Ok (r, w') \<and> Q r \<and> T w' ([] @ data)"
    using copy [unfolded copies_def, rule_format, OF law [rule_format] began'] .
  then obtain r w1 where w1: "copy (write_all_default (io_write ?O)) w0 = Ok (r, w1)" "Q r" "T w1 data" by auto
  obtain w2 where w2: "io_flush ?O w1 = Ok w2" "T w2 data"
    using byte_sink.flush_keeps [OF sink w1(3)] by blast
  obtain w3 where w3: "io_write ?O w2 [] = Ok (0, w3)" "F w3 data"
    using finishing_sink.finish [OF O w2(2)] by blast
  have "encode E methods out copy fe ee = Ok (r, w3)"
    by (simp add: encode_def began w1(1) w2(1) w3(1))
  with code [OF w3(2)] w1(2) show ?thesis by blast
qed

text \<open>An error while copying is the error of the encoding.\<close>

lemma encode_stops:
  assumes base: "output_ok E took finished" and ok: "methods_ok E methods ps" and out: "took out []"
    and copy: "\<And>write_all w w'. write_all w buf = Ok w' \<Longrightarrow> copy write_all w = Err e"
  shows "encode E methods out copy fe ee = Err e"
proof -
  let ?O = "encoding_ops E (length methods)"
  obtain T F w0 where O: "finishing_sink (io_write ?O) (write_all_default (io_write ?O)) (io_flush ?O) T F"
    and began: "start_encoding E methods out = Ok w0" "T w0 []"
    by (rule encoding_sink [OF base ok out]) (rule that; assumption)
  obtain w' where "write_all_default (io_write ?O) w0 buf = Ok w'"
    using byte_sink.write_every [OF finishing_sink.axioms(1) [OF O] began(2)] by blast
  then have "copy (write_all_default (io_write ?O)) w0 = Err e"
    by (rule copy [of "write_all_default (io_write ?O)" w0 w'])
  then show ?thesis by (simp add: encode_def began(1) del: write_all_default.simps)
qed

section \<open>What is recorded\<close>

lemma of_nat_u64_mod: "(of_nat (n mod 18446744073709551616) :: u64) = of_nat n"
  by (simp add: word_unat_eq_iff unat_of_nat)

lemma fill_sizes_eq:
  "i + length ss \<le> length xs \<Longrightarrow> fill_sizes i ss xs = take i xs @ map of_nat ss @ drop (i + length ss) xs"
proof (induction ss arbitrary: i xs)
  case (Cons s ss)
  then have "take (Suc i) (xs[i := of_nat s]) = take i xs @ [of_nat s]" by (simp add: take_Suc_conv_app_nth)
  with Cons show ?case by simp
qed simp

text \<open>The array on the stack and the vector hold the same sizes.\<close>

lemma collect_sizes_eq: "collect_sizes inner n = map of_nat inner @ [n]"
proof (cases "length inner + 1 \<le> max_stack_coders")
  case True
  then have "fill_sizes 0 inner (replicate max_stack_coders 0)
      = map of_nat inner @ replicate (max_stack_coders - length inner) 0"
    using fill_sizes_eq [of 0 inner "replicate max_stack_coders 0"] by simp
  moreover obtain k where "max_stack_coders - length inner = Suc k"
    using True by (cases "max_stack_coders - length inner") auto
  ultimately show ?thesis using True by (simp add: collect_sizes_def Let_def list_update_append)
qed (simp add: collect_sizes_def Let_def)

definition entry_added ::
    "('e, 'o) writer_env \<Rightarrow> ((bytes \<Rightarrow> bytes \<Rightarrow> bool) \<times> 'e encoder) list \<Rightarrow> ('o \<Rightarrow> bytes \<Rightarrow> bool) \<Rightarrow>
     'o archive_writer \<Rightarrow> archive_entry \<Rightarrow> bytes \<Rightarrow> 'o archive_writer \<Rightarrow> bool" where
  "entry_added E ps finished aw entry data aw' \<longleftrightarrow>
     (\<exists>c ns. stack_code (we_codecs E) (rev ps) data c ns \<and> finished (w_output aw') c
        \<and> aw' = aw\<lparr>w_output := w_output aw',
            w_files := w_files aw @ [entry\<lparr>has_stream := True, entry_size := of_nat (length data),
              crc := ucast (we_crc32 E data), has_crc := True,
              compressed_crc := ucast (we_crc32 E c), compressed_size := of_nat (length c)\<rparr>],
            w_pack_info := add_stream (w_pack_info aw) (of_nat (length c)) (we_crc32 E c),
            w_unpack_info := unpack_add (w_unpack_info aw) (w_content_methods aw)
              (map of_nat (rev (butlast ns)) @ [of_nat (length data)]) (we_crc32 E data)\<rparr>)"

lemma add_streamed_adds:
  assumes w: "encoded E ps finished w data c ns" and n: "(of_nat n :: u64) = of_nat (length data)"
  shows "entry_added E ps finished aw entry data (add_streamed E aw w n entry)"
proof -
  have more: "more_sizes (wr_writer w) = rev (butlast ns)"
    using w by (auto simp: encoded_def more_sizes_def map_butlast)
  show ?thesis unfolding entry_added_def
  proof (rule exI [of _ c], rule exI [of _ ns], intro conjI)
    show "stack_code (we_codecs E) (rev ps) data c ns" using w by (simp add: encoded_def)
    show "finished (w_output (add_streamed E aw w n entry)) c"
      using w by (simp add: encoded_def wrapped_def add_streamed_def Let_def)
  qed (use w n more in \<open>simp add: encoded_def wrapped_def add_streamed_def streamed_entry_def Let_def
      wrap_crc_value_def collect_sizes_eq of_nat_u64_mod\<close>)
qed

section \<open>The functions that add an entry\<close>

text \<open>Everything they rely on: the output, the methods, and nothing written yet by this entry.\<close>

definition can_push ::
    "('e, 'o) writer_env \<Rightarrow> ((bytes \<Rightarrow> bytes \<Rightarrow> bool) \<times> 'e encoder) list \<Rightarrow> ('o \<Rightarrow> bytes \<Rightarrow> bool) \<Rightarrow>
     ('o \<Rightarrow> bytes \<Rightarrow> bool) \<Rightarrow> 'o archive_writer \<Rightarrow> bool" where
  "can_push E ps took finished aw \<longleftrightarrow>
     output_ok E took finished \<and> methods_ok E (w_content_methods aw) ps \<and> took (w_output aw) []"

lemma encode_entry:
  assumes "can_push E ps took finished aw" and "copies copy data Q"
  obtains r w c ns where "encode E (w_content_methods aw) (w_output aw) copy fe ee = Ok (r, w)" "Q r"
    "encoded E ps finished w data c ns"
  using encode_codes [of E took finished "w_content_methods aw" ps "w_output aw" copy data Q fe ee] assms
  by (auto simp: can_push_def)

lemma push_bytes_adds:
  assumes ok: "can_push E ps took finished aw" and data: "data \<noteq> []" "\<not> is_directory entry"
  shows "\<exists>aw'. push_archive_entry_bytes E aw entry data = Ok aw' \<and> entry_added E ps finished aw entry data aw'"
proof -
  obtain w c ns where "encode E (w_content_methods aw) (w_output aw)
      (\<lambda>write_all w. and_then (map_err (\<lambda>e. Io e ''Encode bytes entry'') (write_all w data)) (\<lambda>w. Ok ((), w)))
      (\<lambda>e. Io e ''Flush bytes entry'') (\<lambda>e. Io e ''Finalize bytes entry'') = Ok ((), w)"
    "encoded E ps finished w data c ns"
    by (rule encode_entry [OF ok copies_bytes]) auto
  with data add_streamed_adds [of E ps finished w data c ns "length data" aw entry] show ?thesis
    by (simp add: push_archive_entry_bytes_def)
qed

lemma streamed_size:
  "encoded E ps finished w data c ns \<Longrightarrow> (of_nat (wr_bytes_written w) :: u64) = of_nat (length data)"
  by (simp add: encoded_def of_nat_u64_mod)

context byte_source
begin

lemma encode_from:
  assumes "can_push E ps took finished aw" and "ready r" and "0 < n" and "length (contents r) < fuel"
  obtains m w c ns where
    "encode E (w_content_methods aw) (w_output aw) (encode_loop read n we re fuel 0 r) fe ee = Ok (m, w)"
    "(of_nat m :: u64) = of_nat (length (contents r))" "encoded E ps finished w (contents r) c ns"
proof -
  obtain m w c ns where "encode E (w_content_methods aw) (w_output aw) (encode_loop read n we re fuel 0 r) fe ee = Ok (m, w)"
    "m = (0 + length (contents r)) mod 2 ^ 64 \<or> contents r = [] \<and> m = 0" "encoded E ps finished w (contents r) c ns"
    by (rule encode_entry [OF assms(1) encode_loop_copies [OF assms(2-4), where t = 0 and we = we and re = re],
          where fe = fe and ee = ee])
  then show thesis by (auto simp: of_nat_u64_mod intro: that)
qed

lemma push_adds:
  assumes ok: "can_push E ps took finished aw" and src: "ready r" "length (contents r) < fuel"
    and no_dir: "\<not> is_directory entry"
  shows "\<exists>aw'. push_archive_entry E read fuel aw entry (Some r) = Ok aw' \<and> entry_added E ps finished aw entry (contents r) aw'"
    and "\<exists>aw'. push_archive_entry_small E read fuel aw entry (Some r) = Ok aw' \<and> entry_added E ps finished aw entry (contents r) aw'"
    and "\<exists>aw'. push_archive_entry_fast E read fuel aw entry (Some r) n = Ok aw' \<and> entry_added E ps finished aw entry (contents r) aw'"
proof -
  let ?err = "\<lambda>e. Io e (encode_entry_message entry)"
  obtain m w c ns where "encode E (w_content_methods aw) (w_output aw)
      (encode_loop read default_buffer_size ?err ?err fuel 0 r) ?err ?err = Ok (m, w)"
    "encoded E ps finished w (contents r) c ns"
    by (rule encode_from [OF ok src(1) _ src(2), of default_buffer_size]) (auto simp: default_buffer_size_def)
  with add_streamed_adds [OF this(2) streamed_size [OF this(2)], of aw entry] no_dir
  show "\<exists>aw'. push_archive_entry E read fuel aw entry (Some r) = Ok aw' \<and> entry_added E ps finished aw entry (contents r) aw'"
    by (simp add: push_archive_entry_def Let_def)
  obtain m w c ns where "encode E (w_content_methods aw) (w_output aw)
      (encode_loop read small_buffer_size (\<lambda>e. Io e ''Encode small entry'') (\<lambda>e. Io e ''Read small entry'') fuel 0 r)
      (\<lambda>e. Io e ''Flush small entry'') (\<lambda>e. Io e ''Finalize small entry'') = Ok (m, w)"
    "(of_nat m :: u64) = of_nat (length (contents r))" "encoded E ps finished w (contents r) c ns"
    by (rule encode_from [OF ok src(1) _ src(2), of small_buffer_size]) (auto simp: small_buffer_size_def)
  with add_streamed_adds [OF this(3,2), of aw entry] no_dir
  show "\<exists>aw'. push_archive_entry_small E read fuel aw entry (Some r) = Ok aw' \<and> entry_added E ps finished aw entry (contents r) aw'"
    by (simp add: push_archive_entry_small_def Let_def)
  let ?n = "clamp n small_buffer_size max_buffer_size"
  obtain m w c ns where "encode E (w_content_methods aw) (w_output aw)
      (encode_loop read ?n ?err ?err fuel 0 r) ?err ?err = Ok (m, w)"
    "encoded E ps finished w (contents r) c ns"
    by (rule encode_from [OF ok src(1) _ src(2), of ?n]) (auto simp: clamp_def buffer_sizes)
  with add_streamed_adds [OF this(2) streamed_size [OF this(2)], of aw entry] no_dir
  show "\<exists>aw'. push_archive_entry_fast E read fuel aw entry (Some r) n = Ok aw' \<and> entry_added E ps finished aw entry (contents r) aw'"
    by (simp add: push_archive_entry_fast_def Let_def)
qed

end

end
