(* ===== verification/Archive_Solid.thy ===== *)
theory Archive_Solid
  imports Archive_Push
begin

text \<open>
  What adding several entries as one solid block does, from sources read one after the other and
  from a provider of streams: \<open>solid_added\<close>. Every entry gets the size and CRC of its own data,
  the block those of all data together.
\<close>

section \<open>Copying a single entry with a callback, or with a pool\<close>

definition never_cancels :: "'p on_progress \<Rightarrow> bool" where
  "never_cancels on_progress \<longleftrightarrow> (\<forall>p info. fst (on_progress p info) = Continue)"

lemma never_cancelsD: "never_cancels f \<Longrightarrow> \<exists>p'. f p info = (Continue, p')"
  unfolding never_cancels_def by (metis prod.collapse)

context byte_source
begin

lemma progress_loop_copies:
  assumes "never_cancels f" and "ready r" and "length (contents r) < fuel"
  shows "copies (progress_loop f interval entry i read fuel t l p r) (contents r) (\<lambda>p. True)"
proof (rule copiesI)
  fix T and write_all :: "'w write_all" and w :: 'w and d :: bytes
  assume law: "\<And>w d buf. T w d \<Longrightarrow> \<exists>w'. write_all w buf = Ok w' \<and> T w' (d @ buf)" and "T w d"
  from assms(2,3) this(2) show "\<exists>p' w'. progress_loop f interval entry i read fuel t l p r write_all w = Ok (p', w')
      \<and> True \<and> T w' (d @ contents r)"
  proof (induction fuel arbitrary: t l p r w d)
    case (Suc fuel)
    obtain bs r' where rd: "read r default_buffer_size = Ok (bs, r')" using total [OF Suc.prems(1)] by blast
    note nb = next_bytes [OF Suc.prems(1) rd]
    show ?case
    proof (cases "bs = []")
      case True
      with end_only [OF Suc.prems(1)] rd Suc.prems show ?thesis
        by (simp add: Let_def) (metis append_Nil2 default_buffer_size_def mult_pos_pos zero_less_numeral)
    next
      case False
      obtain w' where w': "write_all w bs = Ok w'" "T w' (d @ bs)" using law [OF Suc.prems(3)] by blast
      have fuel: "length (contents r') < fuel" using nb False Suc.prems(2) by (cases bs) auto
      have ready': "ready r'" using nb by blast
      note again = Suc.IH [OF ready' fuel w'(2)]
      let ?t = "t + of_nat (length bs)"
      let ?info = "progress_with_index (progress_with_entry (progress_new ?t 0) (name entry)) i"
      obtain p' where p': "f p ?info = (Continue, p')" using never_cancelsD [OF assms(1)] by blast
      show ?thesis
        using nb w'(1) False rd p' again [of ?t ?t p'] again [of ?t l p] by (auto simp: Let_def)
    qed
  qed simp
qed

lemma push_with_progress_adds:
  assumes ok: "can_push E ps took finished aw" and src: "ready r" "length (contents r) < fuel"
    and no_dir: "\<not> is_directory entry" and f: "never_cancels f"
  shows "\<exists>p' aw'. push_archive_entry_with_progress E read fuel f aw entry (Some r) p interval = Ok (p', aw')
     \<and> entry_added E ps finished aw entry (contents r) aw'"
proof -
  let ?err = "\<lambda>e. Io e (encode_entry_message entry)" and ?i = "length (w_files aw)"
  obtain p' w c ns where "encode E (w_content_methods aw) (w_output aw)
      (progress_loop f interval entry ?i read fuel 0 0 p r) ?err ?err = Ok (p', w)"
    "encoded E ps finished w (contents r) c ns"
    by (rule encode_entry [OF ok progress_loop_copies [OF f src]])
  with add_streamed_adds [OF this(2) streamed_size [OF this(2)], of aw entry] no_dir show ?thesis
    by (simp add: push_archive_entry_with_progress_def Let_def)
qed

lemma push_batched_adds:
  assumes ok: "can_push E ps took finished aw" and src: "ready r" "length (contents r) < fuel"
    and no_dir: "\<not> is_directory entry" and pool: "\<forall>p. pool = Some p \<longrightarrow> (\<exists>b p'. pool_get p = (Some b, p') \<and> b \<noteq> [])"
  shows "\<exists>pool' aw'. push_archive_entry_batched E read fuel aw entry (Some r) pool = Ok (pool', aw')
     \<and> entry_added E ps finished aw entry (contents r) aw'"
proof -
  let ?err = "\<lambda>e. Io e (encode_entry_message entry)"
  obtain b pool' where b: "(case pool of Some p \<Rightarrow> (case pool_get p of (h, p) \<Rightarrow> (h, Some (pooled_drop p h)))
      | None \<Rightarrow> (Some (replicate large_buffer_size 0), None)) = (Some b, pool')" "b \<noteq> []"
  proof (cases pool)
    case None
    then show thesis by (intro that) (auto simp: large_buffer_size_def)
  next
    case (Some p)
    with pool obtain b p' where "pool_get p = (Some b, p')" "b \<noteq> []" by blast
    with Some show thesis by (intro that) auto
  qed
  obtain m w c ns where "encode E (w_content_methods aw) (w_output aw)
      (encode_loop read (length b) ?err ?err fuel 0 r) ?err ?err = Ok (m, w)"
    "(of_nat m :: u64) = of_nat (length (contents r))" "encoded E ps finished w (contents r) c ns"
    by (rule encode_from [OF ok src(1) _ src(2), of "length b"]) (use b(2) in auto)
  with add_streamed_adds [OF this(3,2), of aw entry] no_dir b(1) show ?thesis
    by (simp add: push_archive_entry_batched_def Let_def)
qed

end

section \<open>Sources one after the other\<close>

text \<open>A source that was not read to its end, and one that was: \<open>d\<close> is all of its data.\<close>

definition source_open :: "('s \<Rightarrow> bytes) \<Rightarrow> ('s \<Rightarrow> bool) \<Rightarrow> bytes \<Rightarrow> 's source_reader \<Rightarrow> bool" where
  "source_open contents ready d r \<longleftrightarrow> ready (sr_reader r) \<and> sr_crc_value r = 0
     \<and> d = sr_crc r @ contents (sr_reader r) \<and> sr_size r = length (sr_crc r) mod 2 ^ 64"

definition source_done :: "(bytes \<Rightarrow> u32) \<Rightarrow> bytes \<Rightarrow> 's source_reader \<Rightarrow> bool" where
  "source_done crc32 d r \<longleftrightarrow> sr_crc_value r = crc32 d \<and> sr_size r = length d mod 2 ^ 64"

definition sources_at ::
    "(bytes \<Rightarrow> u32) \<Rightarrow> ('s \<Rightarrow> bytes) \<Rightarrow> ('s \<Rightarrow> bool) \<Rightarrow> bytes list \<Rightarrow> 's source_reader seq_reader \<Rightarrow> bool" where
  "sources_at crc32 contents ready ds q \<longleftrightarrow> length (sq_readers q) = length ds \<and> sq_current q \<le> length ds
     \<and> (\<forall>i<length ds. if i < sq_current q then source_done crc32 (ds ! i) (sq_readers q ! i)
          else source_open contents ready (ds ! i) (sq_readers q ! i))"

abbreviation sources_rest :: "('s \<Rightarrow> bytes) \<Rightarrow> 's source_reader seq_reader \<Rightarrow> bytes" where
  "sources_rest contents \<equiv> seq_contents (\<lambda>r. contents (sr_reader r))"

lemma sources_at_new:
  "list_all ready ss \<Longrightarrow> sources_at crc32 contents ready (map contents ss) (seq_new (map source_new ss))"
  "sources_rest contents (seq_new (map source_new ss)) = concat (map contents ss)"
  by (auto simp: sources_at_def seq_new_def source_new_def source_open_def list_all_length seq_contents_def
      intro!: arg_cong [where f = concat])

context byte_source
begin

lemma source_open_step:
  assumes "source_open contents ready d r" and "0 < n"
  obtains bs r' where "source_read crc32 read r n = Ok (bs, r')" "contents (sr_reader r) = bs @ contents (sr_reader r')"
    "bs \<noteq> [] \<Longrightarrow> source_open contents ready d r'" "bs = [] \<Longrightarrow> source_done crc32 d r' \<and> contents (sr_reader r) = []"
proof -
  have r: "ready (sr_reader r)" using assms by (simp add: source_open_def)
  obtain bs s where rd: "read (sr_reader r) n = Ok (bs, s)" using total [OF r] by blast
  note nb = next_bytes [OF r rd]
  show thesis
  proof (cases "bs = []")
    case True
    with end_only [OF r] rd assms(2) have "contents (sr_reader r) = []" by blast
    with True rd nb assms(1) show thesis
      by (intro that [of "[]"]) (auto simp: source_read_def source_open_def source_done_def)
  next
    case False
    with rd nb assms(1) show thesis
      by (intro that [of bs]) (auto simp: source_read_def source_open_def usize_add_mod usize_add_def mod_simps)
  qed
qed

lemma sources_step:
  assumes "sources_at crc32 contents ready ds q" and "0 < n"
  shows "\<exists>bs q'. seq_read (source_read crc32 read) q n = Ok (bs, q') \<and> sources_at crc32 contents ready ds q'
     \<and> sources_rest contents q = bs @ sources_rest contents q' \<and> (bs = [] \<longrightarrow> sq_current q' = length ds)"
  using assms
proof (induction "length ds - sq_current q" arbitrary: q)
  case 0
  then have "sq_current q = length ds" "length (sq_readers q) = length ds" by (auto simp: sources_at_def)
  with 0(2) show ?case by (subst seq_read.simps) auto
next
  case (Suc k)
  let ?i = "sq_current q" and ?rs = "sq_readers q"
  have i: "?i < length ds" "length ?rs = length ds" using Suc(2,3) by (auto simp: sources_at_def)
  then have "source_open contents ready (ds ! ?i) (?rs ! ?i)" using Suc.prems(1) by (auto simp: sources_at_def)
  from source_open_step [OF this Suc.prems(2), of crc32] obtain bs r' where
    rd: "source_read crc32 read (?rs ! ?i) n = Ok (bs, r')" and rest: "contents (sr_reader (?rs ! ?i)) = bs @ contents (sr_reader r')"
    and more: "bs \<noteq> [] \<Longrightarrow> source_open contents ready (ds ! ?i) r'" 
    and last: "bs = [] \<Longrightarrow> source_done crc32 (ds ! ?i) r' \<and> contents (sr_reader (?rs ! ?i)) = []"
    by blast
  have split: "drop ?i ?rs = ?rs ! ?i # drop (Suc ?i) ?rs" using i by (simp add: Cons_nth_drop_Suc)
  show ?case
  proof (cases "bs = []")
    case True
    let ?q = "q\<lparr>sq_readers := ?rs[?i := r'], sq_current := ?i + 1\<rparr>"
    have "sources_at crc32 contents ready ds ?q"
      using Suc.prems(1) i last [OF True] by (auto simp: sources_at_def nth_list_update less_Suc_eq)
    moreover have "k = length ds - sq_current ?q" using Suc(2) by simp
    moreover have "seq_read (source_read crc32 read) q n = seq_read (source_read crc32 read) ?q n"
      using i rd True by (subst seq_read.simps) simp
    moreover have "sources_rest contents q = sources_rest contents ?q"
      using split last True by (simp add: seq_contents_def)
    ultimately show ?thesis using Suc.hyps(1) [of ?q] Suc.prems(2) by simp
  next
    case False
    let ?q = "q\<lparr>sq_readers := ?rs[?i := r']\<rparr>"
    have "seq_read (source_read crc32 read) q n = Ok (bs, ?q)" using i rd False by (subst seq_read.simps) simp
    moreover have "sources_at crc32 contents ready ds ?q"
      using Suc.prems(1) i more [OF False] by (auto simp: sources_at_def nth_list_update)
    moreover have "drop ?i (?rs[?i := r']) = r' # drop (Suc ?i) ?rs"
      using i by (metis Cons_nth_drop_Suc drop_update_cancel length_list_update lessI nth_list_update_eq)
    then have "sources_rest contents q = bs @ sources_rest contents ?q"
      using split rest by (simp add: seq_contents_def)
    ultimately show ?thesis using False by blast
  qed
qed

text \<open>All sources: afterwards each knows the size and the CRC of its data.\<close>

lemma sources_loop_copies:
  assumes "list_all ready ss" and "length (concat (map contents ss)) < fuel"
  shows "copies (sources_loop (seq_read (source_read crc32 read)) err fuel (seq_new (map source_new ss)))
     (concat (map contents ss))
     (\<lambda>q. length (sq_readers q) = length ss \<and> (\<forall>i<length ss. source_done crc32 (contents (ss ! i)) (sq_readers q ! i)))"
proof (rule copiesI)
  fix T and write_all :: "'w write_all" and w :: 'w and d :: bytes
  assume law: "\<And>w d buf. T w d \<Longrightarrow> \<exists>w'. write_all w buf = Ok w' \<and> T w' (d @ buf)" and T: "T w d"
  let ?ds = "map contents ss" and ?read = "seq_read (source_read crc32 read)"
  have loop: "\<exists>q' w'. sources_loop ?read err fuel q write_all w = Ok (q', w') \<and> T w' (d @ sources_rest contents q)
      \<and> sources_at crc32 contents ready ?ds q' \<and> sq_current q' = length ?ds"
    if "sources_at crc32 contents ready ?ds q" "length (sources_rest contents q) < fuel" "T w d" for q d w fuel
    using that
  proof (induction fuel arbitrary: q d w)
    case (Suc fuel)
    have "0 < default_buffer_size" by (simp add: default_buffer_size_def)
    from sources_step [OF Suc.prems(1) this] obtain bs q' where step: "?read q default_buffer_size = Ok (bs, q')"
      "sources_at crc32 contents ready ?ds q'" "sources_rest contents q = bs @ sources_rest contents q'"
      "bs = [] \<longrightarrow> sq_current q' = length ?ds" by blast
    show ?case
    proof (cases "bs = []")
      case True
      with step Suc.prems have "sources_rest contents q = []" by (simp add: seq_contents_def sources_at_def)
      with True step Suc.prems(3) show ?thesis by simp
    next
      case False
      obtain w' where w': "write_all w bs = Ok w'" "T w' (d @ bs)" using law [OF Suc.prems(3)] by blast
      have "length (sources_rest contents q') < fuel" using step(3) False Suc.prems(2) by (cases bs) auto
      from Suc.IH [OF step(2) this w'(2)] step False w'(1) show ?thesis by auto
    qed
  qed simp
  have "length (sources_rest contents (seq_new (map source_new ss))) < fuel"
    using assms(2) sources_at_new(2) [of contents ss] by simp
  from loop [OF sources_at_new(1) [OF assms(1)] this T] sources_at_new(2) [of contents ss]
  show "\<exists>q w'. sources_loop ?read err fuel (seq_new (map source_new ss)) write_all w = Ok (q, w')
      \<and> (length (sq_readers q) = length ss \<and> (\<forall>i<length ss. source_done crc32 (contents (ss ! i)) (sq_readers q ! i)))
      \<and> T w' (d @ concat ?ds)"
    by (auto simp: sources_at_def)
qed

end

section \<open>What is recorded of a solid block\<close>

definition solid_added ::
    "('e, 'o) writer_env \<Rightarrow> ((bytes \<Rightarrow> bytes \<Rightarrow> bool) \<times> 'e encoder) list \<Rightarrow> ('o \<Rightarrow> bytes \<Rightarrow> bool) \<Rightarrow>
     'o archive_writer \<Rightarrow> archive_entry list \<Rightarrow> bytes list \<Rightarrow> 'o archive_writer \<Rightarrow> bool" where
  "solid_added E ps finished aw entries ds aw' \<longleftrightarrow>
     (\<exists>c ns. stack_code (we_codecs E) (rev ps) (concat ds) c ns \<and> finished (w_output aw') c
        \<and> aw' = aw\<lparr>w_output := w_output aw', w_files := w_files aw @ entries,
            w_pack_info := add_stream (w_pack_info aw) (of_nat (length c)) (we_crc32 E c),
            w_unpack_info := unpack_add_multiple (w_unpack_info aw) (w_content_methods aw)
              (map of_nat (rev (butlast ns)) @ [of_nat (length (concat ds))]) (we_crc32 E (concat ds))
              (of_nat (length ds)) (map (\<lambda>d. of_nat (length d)) ds) (map (we_crc32 E) ds)\<rparr>)"

lemma add_solid_adds:
  assumes w: "encoded E ps finished w (concat ds) c ns" and "length entries = length ds"
    and "sizes = map (\<lambda>d. of_nat (length d)) ds" and "crcs = map (we_crc32 E) ds"
  shows "solid_added E ps finished aw entries ds (add_solid E aw w sizes crcs entries)"
proof -
  have more: "more_sizes (wr_writer w) = rev (butlast ns)"
    using w by (auto simp: encoded_def more_sizes_def map_butlast)
  show ?thesis unfolding solid_added_def
  proof (rule exI [of _ c], rule exI [of _ ns], intro conjI)
    show "stack_code (we_codecs E) (rev ps) (concat ds) c ns" using w by (simp add: encoded_def)
    show "finished (w_output (add_solid E aw w sizes crcs entries)) c"
      using w by (simp add: encoded_def wrapped_def add_solid_def Let_def)
  qed (use assms more in \<open>simp add: encoded_def wrapped_def add_solid_def Let_def
      wrap_crc_value_def collect_sizes_eq of_nat_u64_mod\<close>)
qed

text \<open>The entry of a source.\<close>

definition entry_of :: "(bytes \<Rightarrow> u32) \<Rightarrow> archive_entry \<Rightarrow> bytes \<Rightarrow> archive_entry" where
  "entry_of crc32 e d = e\<lparr>crc := ucast (crc32 d), entry_size := of_nat (length d), has_crc := True\<rparr>"

lemma source_entries:
  assumes "length entries = length ds" and "length rs = length ds" and "\<forall>i<length ds. source_done crc32 (ds ! i) (rs ! i)"
  shows "map source_entry (zip entries rs) = map2 (entry_of crc32) entries ds"
  using assms by (intro nth_equalityI) (auto simp: source_entry_def source_done_def entry_of_def of_nat_u64_mod)

lemma ucast_back: "ucast (ucast (c :: u32) :: u64) = c"
  by (rule bit_word_eqI) (auto simp: bit_simps)

lemma entries_of_fields:
  assumes "length entries = length ds"
  shows "map entry_size (map2 (entry_of crc32) entries ds) = map (\<lambda>d. of_nat (length d)) ds"
    and "map (\<lambda>e. ucast (crc e)) (map2 (entry_of crc32) entries ds) = map crc32 ds"
  using assms by (auto intro!: nth_equalityI simp: entry_of_def ucast_back)

context byte_source
begin

lemma push_entries_adds:
  assumes ok: "can_push E ps took finished aw" and src: "list_all ready ss" "length (concat (map contents ss)) < fuel"
    and len: "length entries = length ss"
  shows "\<exists>aw'. push_archive_entries E read fuel aw entries (map source_new ss) = Ok aw'
     \<and> solid_added E ps finished aw (map2 (entry_of (we_crc32 E)) entries (map contents ss)) (map contents ss) aw'"
proof -
  let ?err = "\<lambda>e. Io e (''Encode entries:'' @ entries_names entries)"
  let ?fin = "\<lambda>e. Io e (''Encode entry:'' @ entries_names entries)" and ?ds = "map contents ss"
  obtain q w c ns where run: "encode E (w_content_methods aw) (w_output aw)
      (sources_loop (seq_read (source_read (we_crc32 E) read)) ?err fuel (seq_new (map source_new ss))) ?fin ?fin = Ok (q, w)"
    and q: "length (sq_readers q) = length ss \<and> (\<forall>i<length ss. source_done (we_crc32 E) (contents (ss ! i)) (sq_readers q ! i))"
    and w: "encoded E ps finished w (concat ?ds) c ns"
    by (rule encode_entry [OF ok sources_loop_copies [OF src]])
  let ?es = "map2 (entry_of (we_crc32 E)) entries ?ds"
  have "map source_entry (zip entries (sq_readers q)) = ?es"
    by (rule source_entries) (use q len in auto)
  then have "push_archive_entries E read fuel aw entries (map source_new ss)
      = Ok (add_solid E aw w (map entry_size ?es) (map (\<lambda>e. ucast (crc e)) ?es) ?es)"
    using run len by (simp add: push_archive_entries_def Let_def del: map_map)
  moreover have len': "length entries = length ?ds" using len by simp
  then have "length ?es = length ?ds" by simp
  note add_solid_adds [OF w this entries_of_fields [OF len'], of aw]
  ultimately show ?thesis by blast
qed

end

section \<open>Streams of a provider\<close>

definition takes_all :: "('w \<Rightarrow> bytes \<Rightarrow> bool) \<Rightarrow> 'w write_all \<Rightarrow> bool" where
  "takes_all T write_all \<longleftrightarrow> (\<forall>w d buf. T w d \<longrightarrow> (\<exists>w'. write_all w buf = Ok w' \<and> T w' (d @ buf)))"

lemma takes_allD: "takes_all T write_all \<Longrightarrow> T w d \<Longrightarrow> \<exists>w'. write_all w buf = Ok w' \<and> T w' (d @ buf)"
  unfolding takes_all_def by blast

context byte_source
begin

lemma stream_loop_copies:
  assumes law: "takes_all T write_all"
    and "ready r" and "0 < n" and "length (contents r) < fuel" and "T w d"
  shows "\<exists>w'. stream_loop read n entry fuel t g r write_all w = Ok (t + of_nat (length (contents r)), g @ contents r, w')
     \<and> T w' (d @ contents r)"
  using assms(2-)
proof (induction fuel arbitrary: t g r w d)
  case (Suc fuel)
  obtain bs r' where rd: "read r n = Ok (bs, r')" using total [OF Suc.prems(1)] by blast
  note nb = next_bytes [OF Suc.prems(1) rd]
  show ?case
  proof (cases "bs = []")
    case True
    with end_only [OF Suc.prems(1)] rd Suc.prems show ?thesis by simp
  next
    case False
    obtain w' where w': "write_all w bs = Ok w'" "T w' (d @ bs)" using takes_allD [OF law Suc.prems(4)] by blast
    have "length (contents r') < fuel" using nb False Suc.prems(3) by (cases bs) auto
    with Suc.IH [of r' w' "d @ bs" "t + of_nat (length bs)" "g @ bs"] nb w' Suc.prems(2) False rd show ?thesis
      by (auto simp: add.assoc)
  qed
qed simp

end

locale solid_source =
  src: byte_source read contents ready + prov: stream_provider P offers
  for read :: "'s reading" and contents and ready and P :: "('p, 's) provider_ops" and offers
begin

text \<open>\<open>streams_from p k ss\<close>: the provider still has the streams \<open>ss\<close> from index \<open>k\<close> on.\<close>

definition streams_from :: "'p \<Rightarrow> nat \<Rightarrow> 's list \<Rightarrow> bool" where
  "streams_from p k ss \<longleftrightarrow> (\<forall>i<length ss. offers p (k + i) = Some (ss ! i))"

definition stats_of :: "(bytes \<Rightarrow> u32) \<Rightarrow> 's list \<Rightarrow> (u64 \<times> u32) list" where
  "stats_of crc32 = map (\<lambda>s. (of_nat (length (contents s)), crc32 (contents s)))"

lemma solid_entry_copies:
  assumes law: "takes_all T write_all"
    and s: "ready s" "length (contents s) < fuel" "0 < n" and k: "k < 2 ^ 32"
    and "streams_from p k (s # ss)" and "T w d"
  shows "\<exists>p' w'. solid_entry P read crc32 n fuel entries write_all k (p, stats, w) = Ok (p', stats @ stats_of crc32 [s], w')
     \<and> streams_from p' (Suc k) ss \<and> T w' (d @ contents s)"
proof -
  have idx: "unat (of_nat k :: u32) = k" using k by (simp add: unat_of_nat)
  have "offers p (unat (of_nat k :: u32)) = Some s" using assms(6) by (auto simp: streams_from_def idx)
  from prov.get [OF this] obtain p' where p': "pv_get_stream_blocking P p (of_nat k) = (Some s, p')"
    "\<forall>j. j \<noteq> k \<longrightarrow> offers p' j = offers p j" unfolding idx by blast
  obtain w' where "stream_loop read n (entries ! k) fuel 0 [] s write_all w = Ok (of_nat (length (contents s)), contents s, w')"
    "T w' (d @ contents s)"
    using src.stream_loop_copies [OF law s(1) s(3) s(2) assms(7), where t = 0 and g = "[]"] by auto
  moreover have "streams_from p' (Suc k) ss" using assms(6) p'(2) by (auto simp: streams_from_def)
  ultimately show ?thesis using p'(1) by (auto simp: solid_entry_def stats_of_def)
qed

lemma solid_entries_copy:
  assumes law: "takes_all T write_all"
    and "0 < n" and "\<forall>s\<in>set ss. ready s \<and> length (contents s) < fuel" and "k + length ss \<le> 2 ^ 32"
    and "streams_from p k (ss @ ss')" and "T w d"
  shows "\<exists>p' w'. for_each (solid_entry P read crc32 n fuel entries write_all) [k..<k + length ss] (p, stats, w)
       = Ok (p', stats @ stats_of crc32 ss, w') \<and> streams_from p' (k + length ss) ss' \<and> T w' (d @ concat (map contents ss))"
  using assms(3-)
proof (induction ss arbitrary: k p stats w d)
  case Nil
  then show ?case by (simp add: stats_of_def)
next
  case (Cons s ss)
  have k: "[k..<k + length (s # ss)] = k # [Suc k..<Suc k + length ss]" by (simp add: upt_rec)
  have "ready s" "length (contents s) < fuel" "k < 2 ^ 32" using Cons.prems(1,2) by auto
  moreover have "streams_from p k (s # (ss @ ss'))" using Cons.prems(3) by simp
  ultimately obtain p1 w1 where 1: "solid_entry P read crc32 n fuel entries write_all k (p, stats, w)
      = Ok (p1, stats @ stats_of crc32 [s], w1)" "streams_from p1 (Suc k) (ss @ ss')" "T w1 (d @ contents s)"
    using solid_entry_copies [OF law, of s fuel n k p "ss @ ss'" w d] assms(2) Cons.prems(4) by blast
  have "\<forall>s\<in>set ss. ready s \<and> length (contents s) < fuel" "Suc k + length ss \<le> 2 ^ 32" using Cons.prems(1,2) by auto
  from Cons.IH [OF this 1(2,3), of "stats @ stats_of crc32 [s]"] obtain p2 w2 where
    "for_each (solid_entry P read crc32 n fuel entries write_all) [Suc k..<Suc k + length ss] (p1, stats @ stats_of crc32 [s], w1)
       = Ok (p2, (stats @ stats_of crc32 [s]) @ stats_of crc32 ss, w2)"
    "streams_from p2 (Suc k + length ss) ss'" "T w2 ((d @ contents s) @ concat (map contents ss))" by blast
  with 1(1) show ?case unfolding k by (simp add: stats_of_def del: upt_Suc)
qed

lemma solid_batches_copy:
  assumes law: "takes_all T write_all"
    and "0 < n" and "\<forall>s\<in>set ss. ready s \<and> length (contents s) < fuel" and "length entries \<le> 2 ^ 32"
    and "length entries = k + length ss" and "streams_from p k ss" and "T w d"
  shows "\<exists>p' w'. solid_batches P read crc32 n fuel b entries write_all k (p, stats, w) = Ok (p', stats @ stats_of crc32 ss, w')
     \<and> T w' (d @ concat (map contents ss))"
  using assms(3,5-)
proof (induction "length ss" arbitrary: k ss p stats w d rule: less_induct)
  case less
  show ?case
  proof (cases "ss = []")
    case True
    with less.prems show ?thesis by (subst solid_batches.simps) (auto simp: stats_of_def)
  next
    case False
    let ?m = "min (max 1 b) (length ss)"
    let ?now = "take ?m ss" and ?then = "drop ?m ss"
    let ?p = "pv_prepare_streams P p (map of_nat [k..<k + ?m])"
    have more: "k < length entries" and stop: "min (k + max 1 b) (length entries) = k + ?m"
      using False less.prems(2) by auto
    have "streams_from ?p k (?now @ ?then)" using less.prems(3) by (simp add: streams_from_def prov.prepare)
    moreover have "k + length ?now \<le> 2 ^ 32" using less.prems(2) assms(4) by simp
    moreover have "\<forall>s\<in>set ?now. ready s \<and> length (contents s) < fuel" using less.prems(1) by (auto dest: in_set_takeD)
    ultimately obtain p1 w1 where 1:
      "for_each (solid_entry P read crc32 n fuel entries write_all) [k..<k + length ?now] (?p, stats, w)
         = Ok (p1, stats @ stats_of crc32 ?now, w1)"
      "streams_from p1 (k + length ?now) ?then" "T w1 (d @ concat (map contents ?now))"
      using solid_entries_copy [OF law assms(2), of ?now fuel k ?p ?then w d] less.prems(4) by blast
    have now: "length ?now = ?m" by simp
    have "0 < ?m" using False by simp
    then have "length ?then < length ss" using False by simp
    moreover have "\<forall>s\<in>set ?then. ready s \<and> length (contents s) < fuel" using less.prems(1) by (auto dest: in_set_dropD)
    moreover have "length entries = k + ?m + length ?then" using less.prems(2) by simp
    ultimately obtain p2 w2 where 2: "solid_batches P read crc32 n fuel b entries write_all (k + ?m) (p1, stats @ stats_of crc32 ?now, w1)
        = Ok (p2, (stats @ stats_of crc32 ?now) @ stats_of crc32 ?then, w2)"
      "T w2 ((d @ concat (map contents ?now)) @ concat (map contents ?then))"
      using less.hyps [of ?then "k + ?m" p1 w1 "d @ concat (map contents ?now)" "stats @ stats_of crc32 ?now"] 1(2,3)
      unfolding now by blast
    have "stats_of crc32 ?now @ stats_of crc32 ?then = stats_of crc32 ss"
      "concat (map contents ?now) @ concat (map contents ?then) = concat (map contents ss)"
      unfolding stats_of_def map_append [symmetric] concat_append [symmetric] append_take_drop_id by (rule refl)+
    with 1(1) 2 more stop show ?thesis unfolding now by (subst solid_batches.simps) (simp add: Let_def)
  qed
qed

lemma push_solid_adds:
  assumes ok: "can_push E ps took finished aw" and buf: "0 < so_buffer_size config"
    and src: "\<forall>s\<in>set ss. ready s \<and> length (contents s) < fuel" and entries: "length entries = length ss"
    and some: "entries \<noteq> []" "length entries \<le> 2 ^ 32" and p: "streams_from p 0 ss"
  shows "\<exists>p' aw'. push_solid_entries_parallel E P read fuel aw entries p config = Ok (p', aw')
     \<and> solid_added E ps finished aw
          (map2 (\<lambda>e d. (entry_of (we_crc32 E) e d)\<lparr>has_stream := True\<rparr>) entries (map contents ss)) (map contents ss) aw'"
proof -
  let ?ds = "map contents ss" and ?b = "max (min (so_batch_size config) (pv_parallelism P p)) 1"
  let ?stats = "stats_of (we_crc32 E) ss"
  let ?copy = "\<lambda>write_all w. and_then (solid_batches P read (we_crc32 E) (so_buffer_size config) fuel ?b entries write_all 0 (p, [], w))
      (\<lambda>(p, stats, w). Ok ((p, stats), w))"
  have copy: "copies ?copy (concat ?ds) (\<lambda>(p', stats). stats = ?stats)"
  proof (rule copiesI)
    fix T and write_all :: "'w write_all" and w :: 'w and d :: bytes
    assume "\<And>w d buf. T w d \<Longrightarrow> \<exists>w'. write_all w buf = Ok w' \<and> T w' (d @ buf)" and T: "T w d"
    then have law: "takes_all T write_all" unfolding takes_all_def by blast
    have "\<exists>p' w'. solid_batches P read (we_crc32 E) (so_buffer_size config) fuel ?b entries write_all 0 (p, [], w)
        = Ok (p', [] @ ?stats, w') \<and> T w' (d @ concat ?ds)"
      by (rule solid_batches_copy [OF law buf src some(2) _ p T]) (use entries in simp)
    then show "\<exists>r w'. ?copy write_all w = Ok (r, w') \<and> (case r of (p', stats) \<Rightarrow> stats = ?stats) \<and> T w' (d @ concat ?ds)"
      by auto
  qed
  obtain r w c ns where run: "encode E (w_content_methods aw) (w_output aw) ?copy
      (\<lambda>e. Io e ''Flush solid block'') (\<lambda>e. Io e ''Finalize solid block'') = Ok (r, w)"
    and r: "case r of (p', stats) \<Rightarrow> stats = ?stats" and w: "encoded E ps finished w (concat ?ds) c ns"
    by (rule encode_entry [OF ok copy])
  obtain p' where r': "r = (p', ?stats)" using r by (cases r) auto
  let ?es = "map2 (\<lambda>e d. (entry_of (we_crc32 E) e d)\<lparr>has_stream := True\<rparr>) entries ?ds"
  have es: "map stats_entry (zip entries ?stats) = ?es"
    using entries by (intro nth_equalityI) (auto simp: stats_of_def stats_entry_def entry_of_def)
  have checked: "push_solid_checked E P read fuel aw entries p config
      = Ok (p', add_solid E aw w (map fst ?stats) (map snd ?stats) ?es)"
    using run by (simp add: push_solid_checked_def Let_def r' es)
  have "length entries \<le> n" if "pv_stream_count P p = Some n" for n
    by (rule prov.enough_streams [OF that]) (use p entries in \<open>auto simp: streams_from_def\<close>)
  then have "push_solid_entries_parallel E P read fuel aw entries p config = push_solid_checked E P read fuel aw entries p config"
    using some(1) by (auto simp: push_solid_entries_parallel_def split: option.splits)
  moreover have "solid_added E ps finished aw ?es ?ds (add_solid E aw w (map fst ?stats) (map snd ?stats) ?es)"
    by (rule add_solid_adds [OF w]) (use entries in \<open>simp_all add: stats_of_def o_def\<close>)
  ultimately show ?thesis using checked by simp
qed

end

interpretation slice_solid: solid_source slice_read "\<lambda>s. s" "\<lambda>s. True" vec_provider_ops vec_offers
  by unfold_locales

end
