(* ===== verification/Memory_File.thy ===== *)
theory Memory_File
  imports Archive_Solid
begin

text \<open>
  \<open>std::io::Cursor<Vec<u8>>\<close> as the output of an archive: a write at a position overwrites and
  extends, and fills a gap before the position with zeros. It is the file in memory of the
  round trips, and the buffer of \<open>StreamingArchiveWriter\<close>.
\<close>

definition cursor_write :: "cursor writing" where
  "cursor_write f buf =
     (let p = cur_pos f; data = cur_data f @ replicate (p - length (cur_data f)) 0 in
      if buf = [] then Ok (0, f)
      else Ok (length buf, \<lparr>cur_data = take p data @ buf @ drop (p + length buf) data, cur_pos = p + length buf\<rparr>))"

definition cursor_write_all :: "cursor write_all" where
  "cursor_write_all f buf = and_then (cursor_write f buf) (\<lambda>(_, f). Ok f)"

definition cursor_flush :: "cursor flushing" where
  "cursor_flush f = Ok f"

definition cursor_seek :: "cursor \<Rightarrow> u64 \<Rightarrow> cursor io_result" where
  "cursor_seek f p = Ok (f\<lparr>cur_pos := unat p\<rparr>)"

definition cursor_position :: "cursor \<Rightarrow> (u64 \<times> cursor) io_result" where
  "cursor_position f = Ok (of_nat (cur_pos f), f)"

definition cursor_out_ops :: "cursor out_ops" where
  "cursor_out_ops = \<lparr>io_write = cursor_write, io_flush = cursor_flush, out_write_all = cursor_write_all,
     out_seek = cursor_seek, out_position = cursor_position\<rparr>"

lemmas cursor_defs = cursor_write_def cursor_write_all_def cursor_flush_def cursor_seek_def cursor_position_def

text \<open>The file was \<open>pre\<close> and then given \<open>d\<close>, and stands at its end. Before the first write the
  bytes up to the position may still be missing.\<close>

definition cursor_took :: "bytes \<Rightarrow> cursor \<Rightarrow> bytes \<Rightarrow> bool" where
  "cursor_took pre f d \<longleftrightarrow> cur_pos f = length (pre @ d) \<and> length (cur_data f) \<le> cur_pos f
     \<and> cur_data f @ replicate (cur_pos f - length (cur_data f)) 0 = pre @ d"

lemma cursor_took_write:
  assumes "cursor_took pre f d"
  shows "\<exists>f'. cursor_write f buf = Ok (length buf, f') \<and> cursor_took pre f' (d @ buf)"
proof (cases "buf = []")
  case False
  from assms have data: "cur_data f @ replicate (cur_pos f - length (cur_data f)) 0 = pre @ d"
    and pos: "cur_pos f = length (pre @ d)" unfolding cursor_took_def by blast+
  have "cursor_write f buf = Ok (length buf, \<lparr>cur_data = pre @ d @ buf, cur_pos = length (pre @ d @ buf)\<rparr>)"
    using False unfolding cursor_write_def Let_def data by (simp add: pos)
  then show ?thesis by (simp add: cursor_took_def)
qed (use assms in \<open>simp add: cursor_write_def\<close>)

lemma cursor_finishing:
  "finishing_sink cursor_write (write_all_default cursor_write) cursor_flush (cursor_took pre) (cursor_took pre)"
proof (rule finishing_sinkI)
  fix f d and buf :: bytes
  assume took: "cursor_took pre f d" and more: "buf \<noteq> []"
  from cursor_took_write [OF took, of buf] more
  show "\<exists>n f'. cursor_write f buf = Ok (n, f') \<and> 0 < n \<and> n \<le> length buf \<and> cursor_took pre f' (d @ take n buf)"
    by (intro exI [of _ "length buf"]) auto
next
  fix f d
  assume took: "cursor_took pre f d"
  then show "\<exists>f'. cursor_flush f = Ok f' \<and> cursor_took pre f' d" by (simp add: cursor_flush_def)
  show "\<exists>f'. cursor_write f [] = Ok (0, f') \<and> cursor_took pre f' d"
    using took by (simp add: cursor_write_def)
qed

interpretation memory_file: finishing_sink cursor_write "write_all_default cursor_write" cursor_flush
  "cursor_took pre" "cursor_took pre" for pre
  by (rule cursor_finishing)

section \<open>The layout of a finished archive\<close>

text \<open>An archive in memory: the writer's output is a cursor.\<close>

definition memory_env :: "libs \<Rightarrow> 'e codecs \<Rightarrow> (bytes \<Rightarrow> u32) \<Rightarrow> ('e, cursor) writer_env" where
  "memory_env L X crc32 = \<lparr>we_libs = L, we_codecs = X, we_crc32 = crc32, we_output = cursor_out_ops\<rparr>"

lemma memory_env_simps [simp]:
  "we_libs (memory_env L X crc32) = L" "we_codecs (memory_env L X crc32) = X"
  "we_crc32 (memory_env L X crc32) = crc32" "we_output (memory_env L X crc32) = cursor_out_ops"
  by (simp_all add: memory_env_def)

lemma cursor_out_simps [simp]:
  "io_write cursor_out_ops = cursor_write" "io_flush cursor_out_ops = cursor_flush"
  "out_write_all cursor_out_ops = cursor_write_all" "out_seek cursor_out_ops = cursor_seek"
  "out_position cursor_out_ops = cursor_position"
  by (simp_all add: cursor_out_ops_def)

lemma memory_output_ok: "output_ok (memory_env L X crc32) (cursor_took pre) (cursor_took pre)"
  by (simp add: output_ok_def memory_file.finishing_sink_axioms)

text \<open>The packed streams \<open>cs\<close> stand behind the start header, which is written last.\<close>

definition packed_streams_at :: "bytes list \<Rightarrow> cursor \<Rightarrow> bool" where
  "packed_streams_at cs f \<longleftrightarrow> cursor_took (replicate 32 0) f (concat cs)"

lemma cursor_took_append: "cursor_took pre f (d @ c) \<longleftrightarrow> cursor_took (pre @ d) f c"
  by (simp add: cursor_took_def)

lemma new_archive_at: "archive_writer_new (memory_env L X crc32) \<lparr>cur_data = [], cur_pos = 0\<rparr> = Ok aw \<Longrightarrow>
  packed_streams_at [] (w_output aw)"
  by (auto simp: archive_writer_new_def cursor_seek_def signature_header_size_def packed_streams_at_def cursor_took_def)

end
