(* ===== verification/Decoder_Chain.thy ===== *)
theory Decoder_Chain
  imports Aes_Codec Swap_Filter Frame_Encoders
begin

text \<open>
  \<^verbatim>\<open>src/src/decoder.rs\<close> and the decoders with skippable frames of
  \<^verbatim>\<open>src/src/codec/lz4.rs\<close> and \<^verbatim>\<open>src/src/codec/brotli.rs\<close>. The state of a \<open>Decoder<R>\<close> is
  the pair of its variant and of the reader \<open>R\<close> below, as for the encoders.

  A decoder of another crate pulls its input: a call of it is a tree (\<open>asking\<close>) of the reads it
  makes before it answers. It passes errors of its input on, and it answers after finitely many
  reads.
\<close>

section \<open>Decoders of other crates\<close>

datatype 'a asking = Answer 'a | Ask usize "bytes \<Rightarrow> 'a asking"

primrec run_asking :: "'s reading \<Rightarrow> 'a asking \<Rightarrow> 's \<Rightarrow> ('a \<times> 's) io_result" where
  "run_asking read (Answer a) = (\<lambda>s. Ok (a, s))"
| "run_asking read (Ask n f) = (\<lambda>s. and_then (read s n) (\<lambda>(bs, s). run_asking read (f bs) s))"

record 'd decoder_libs =
  dc_lzma_new :: "u64 \<Rightarrow> u8 \<Rightarrow> u32 \<Rightarrow> 'd io_result asking"
  dc_lzma2_new :: "u32 \<Rightarrow> 'd"
  dc_lzma2_mt_new :: "u32 \<Rightarrow> u32 \<Rightarrow> 'd"
  dc_lzma2_memory_usage :: "u32 \<Rightarrow> u32"
  dc_ppmd_new :: "u32 \<Rightarrow> u32 \<Rightarrow> (string, 'd) outcome asking"
  dc_bcj_new :: "bytes \<Rightarrow> 'd"
  dc_delta_new :: "usize \<Rightarrow> 'd"
  dc_brotli_new :: "usize \<Rightarrow> 'd"
  dc_bzip2_new :: 'd
  dc_deflate_new :: 'd
  dc_deflate64_new :: 'd
  dc_lz4_new :: 'd
  dc_zstd_new :: "'d io_result asking"
  dc_read :: "'d \<Rightarrow> usize \<Rightarrow> (bytes \<times> 'd) io_result asking"
  dc_sha256 :: "bytes \<Rightarrow> bytes"
  dc_cbc :: cbc

definition dc_call :: "'d decoder_libs \<Rightarrow> 's reading \<Rightarrow> ('d \<times> 's) reading" where
  "dc_call D read x n =
     and_then (run_asking read (dc_read D (fst x) n) (snd x)) (\<lambda>(r, s).
     and_then r (\<lambda>(bs, d). Ok (bs, d, s)))"

section \<open>Skippable frames (lz4.rs, brotli.rs)\<close>

text \<open>\<open>InnerReader\<close> without its reader: the part of the header buffer that was not read, or how
  much of the frame remains.\<close>

datatype inner_reader =
  Inner_empty
| Inner_standard bytes bool
| Inner_skippable u32 bool

definition inner_read :: "'s reading \<Rightarrow> (inner_reader \<times> 's) reading" where
  "inner_read read x n =
     (case x of (i, s) \<Rightarrow>
      case i of
        Inner_empty \<Rightarrow> Ok ([], i, s)
      | Inner_standard header finished \<Rightarrow>
          if \<not> finished \<and> take n header \<noteq> [] then Ok (take n header, Inner_standard (drop n header) False, s)
          else and_then (read s n) (\<lambda>(bs, s). Ok (bs, Inner_standard header True, s))
      | Inner_skippable remaining finished \<Rightarrow>
          if finished \<or> remaining = 0 then Ok ([], i, s)
          else
            and_then (read s (min (unat remaining) n)) (\<lambda>(bs, s).
            if bs = [] then Ok ([], Inner_skippable remaining True, s)
            else
              let remaining = remaining - of_nat (length bs) in
              Ok (bs, Inner_skippable remaining (remaining = 0), s)))"

text \<open>\<open>read_exact\<close> of a reader.\<close>

function read_exact_from :: "'s reading \<Rightarrow> nat \<Rightarrow> 's \<Rightarrow> (bytes \<times> 's) io_result" where
  "read_exact_from read n s =
     (if n = 0 then Ok ([], s)
      else
        and_then (read s n) (\<lambda>(bs, s).
        if bs = [] then Err eof_error
        else and_then (read_exact_from read (n - length bs) s) (\<lambda>(rest, s). Ok (bs @ rest, s))))"
  by pat_completeness auto
termination
  by (relation "measure (\<lambda>(read, n, s). n)") auto

declare read_exact_from.simps [simp del]

definition read_u32_from :: "'s reading \<Rightarrow> 's \<Rightarrow> (u32 \<times> 's) io_result" where
  "read_u32_from read s = and_then (read_exact_from read 4 s) (\<lambda>(bs, s). Ok (from_le_bytes bs, s))"

definition read_u16_from :: "'s reading \<Rightarrow> 's \<Rightarrow> (u16 \<times> 's) io_result" where
  "read_u16_from read s = and_then (read_exact_from read 2 s) (\<lambda>(bs, s). Ok (from_le_bytes bs, s))"

fun is_eof :: "io_error \<Rightarrow> bool" where
  "is_eof (Io_simple k _) = (k = UnexpectedEof)"
| "is_eof (Io_wrapped _) = False"

text \<open>\<open>read_next_frame_header\<close> of both formats; \<open>rest\<close> reads what follows the magic number.\<close>

definition next_frame_header ::
    "'s reading \<Rightarrow> ('s \<Rightarrow> ((u32 option) \<times> 's) io_result) \<Rightarrow> inner_reader \<times> 's \<Rightarrow> (bool \<times> inner_reader \<times> 's) io_result" where
  "next_frame_header read rest x =
     (case x of (i, s) \<Rightarrow>
      case i of
        Inner_skippable remaining finished \<Rightarrow>
          if \<not> finished then Ok (False, i, s)
          else
            (case read_u32_from read s of
               Ok (magic, s) \<Rightarrow>
                 if magic \<noteq> skippable_frame_magic then Ok (False, i, s)
                 else
                   and_then (rest s) (\<lambda>(compressed_size, s).
                   case compressed_size of
                     None \<Rightarrow> Ok (False, i, s)
                   | Some k \<Rightarrow> Ok (True, Inner_skippable k False, s))
             | Err e \<Rightarrow> if is_eof e then Ok (False, i, s) else Err e
             | Panic \<Rightarrow> Panic
             | OutOfFuel \<Rightarrow> OutOfFuel)
      | _ \<Rightarrow> Ok (False, i, s))"

definition lz4_next_frame_header :: "'s reading \<Rightarrow> inner_reader \<times> 's \<Rightarrow> (bool \<times> inner_reader \<times> 's) io_result" where
  "lz4_next_frame_header read =
     next_frame_header read (\<lambda>s.
       and_then (read_u32_from read s) (\<lambda>(skippable_size, s).
       if skippable_size \<noteq> 4 then Ok (None, s)
       else and_then (read_u32_from read s) (\<lambda>(compressed_size, s). Ok (Some compressed_size, s))))"

definition brotli_next_frame_header :: "'s reading \<Rightarrow> inner_reader \<times> 's \<Rightarrow> (bool \<times> inner_reader \<times> 's) io_result" where
  "brotli_next_frame_header read =
     next_frame_header read (\<lambda>s.
       and_then (read_u32_from read s) (\<lambda>(skippable_size, s).
       if skippable_size \<noteq> 8 then Ok (None, s)
       else
         and_then (read_u32_from read s) (\<lambda>(compressed_size, s).
         and_then (read_u16_from read s) (\<lambda>(magic, s).
         if magic \<noteq> brotli_magic then Ok (None, s)
         else and_then (read_u16_from read s) (\<lambda>(_, s). Ok (Some compressed_size, s))))))"

text \<open>Both decoders: the crate's decoder on an \<open>InnerReader\<close>, \<open>None\<close> after the last frame.\<close>

type_synonym 'd frame_decoder = "('d \<times> inner_reader) option"

definition frame_call :: "'d decoder_libs \<Rightarrow> 's reading \<Rightarrow> 'd \<Rightarrow> inner_reader \<times> 's \<Rightarrow> nat \<Rightarrow>
    (bytes \<times> ('d \<times> inner_reader) \<times> 's) io_result" where
  "frame_call D read d x n =
     and_then (dc_call D (inner_read read) (d, x) n) (\<lambda>(bs, d, i, s). Ok (bs, (d, i), s))"

definition frame_read ::
    "'d decoder_libs \<Rightarrow> 's reading \<Rightarrow> 'd \<Rightarrow> (inner_reader \<times> 's \<Rightarrow> (bool \<times> inner_reader \<times> 's) io_result) \<Rightarrow>
     ('d frame_decoder \<times> 's) reading" where
  "frame_read D read fresh next_header x n =
     (case x of (f, s) \<Rightarrow>
      case f of
        None \<Rightarrow> Ok ([], None, s)
      | Some (d, i) \<Rightarrow>
          and_then (frame_call D read d (i, s) n) (\<lambda>(bs, (d, i), s).
          if bs \<noteq> [] then Ok (bs, Some (d, i), s)
          else
            and_then (next_header (i, s)) (\<lambda>(more, i, s).
            if more then and_then (frame_call D read fresh (i, s) n) (\<lambda>(bs, di, s). Ok (bs, Some di, s))
            else Ok ([], None, s))))"

definition lz4_read :: "'d decoder_libs \<Rightarrow> 's reading \<Rightarrow> ('d frame_decoder \<times> 's) reading" where
  "lz4_read D read = frame_read D read (dc_lz4_new D) (lz4_next_frame_header read)"

definition brotli_read :: "'d decoder_libs \<Rightarrow> 's reading \<Rightarrow> ('d frame_decoder \<times> usize \<times> 's) reading" where
  "brotli_read D read x n =
     (case x of (f, buffer_size, s) \<Rightarrow>
        and_then (frame_read D read (dc_brotli_new D buffer_size) (brotli_next_frame_header read) (f, s) n) (\<lambda>(bs, f, s).
        Ok (bs, f, buffer_size, s)))"

text \<open>The header is read by a single \<open>read\<close>.\<close>

definition lz4_decoder_new :: "'d decoder_libs \<Rightarrow> 's reading \<Rightarrow> 's \<Rightarrow> ('d frame_decoder \<times> 's) result" where
  "lz4_decoder_new D read s =
     and_then (from_io (read s 12)) (\<lambda>(header, s).
     if length header < 4 then Err (Other ''Input too short'')
     else if from_le_bytes (take 4 header) = skippable_frame_magic \<and> 12 \<le> length header then
       if (from_le_bytes (take 4 (drop 4 header)) :: u32) \<noteq> 4 then Err (Other ''Invalid lz4 skippable frame size'')
       else Ok (Some (dc_lz4_new D, Inner_skippable (from_le_bytes (take 4 (drop 8 header))) False), s)
     else Ok (Some (dc_lz4_new D, Inner_standard header False), s))"

definition brotli_decoder_new ::
    "'d decoder_libs \<Rightarrow> 's reading \<Rightarrow> 's \<Rightarrow> usize \<Rightarrow> ('d frame_decoder \<times> usize \<times> 's) result" where
  "brotli_decoder_new D read s buffer_size =
     and_then (from_io (read s 16)) (\<lambda>(header, s).
     if length header < 4 then Err (Other ''Input too short'')
     else if from_le_bytes (take 4 header) = skippable_frame_magic \<and> 16 \<le> length header then
       if (from_le_bytes (take 4 (drop 4 header)) :: u32) \<noteq> 8 then Err (Other ''Invalid brotli skippable frame size'')
       else if from_le_bytes (take 2 (drop 12 header)) \<noteq> brotli_magic then Err (Other ''Invalid brotli magic value'')
       else Ok (Some (dc_brotli_new D buffer_size, Inner_skippable (from_le_bytes (take 4 (drop 8 header))) False), buffer_size, s)
     else Ok (Some (dc_brotli_new D buffer_size, Inner_standard header False), buffer_size, s))"

section \<open>One decoder (decoder.rs)\<close>

datatype 'd decoder =
  Copy_decoder
| Lzma_decoder 'd
| Lzma2_decoder 'd
| Lzma2_mt_decoder 'd
| Ppmd_decoder 'd
| Bcj_decoder 'd
| Delta_decoder 'd
| Swap2_decoder "u8 option"
| Swap4_decoder "bytes \<times> usize"
| Brotli_decoder "'d frame_decoder \<times> usize"
| Bzip2_decoder 'd
| Deflate_decoder 'd
| Deflate64_decoder 'd
| Lz4_decoder "'d frame_decoder"
| Zstd_decoder 'd
| Aes_decoder "unit aes_decoder"

text \<open>The AES decoder with its input put in.\<close>

definition aes_with_input :: "unit aes_decoder \<Rightarrow> 's \<Rightarrow> 's aes_decoder" where
  "aes_with_input d s = \<lparr>ad_cipher = ad_cipher d, ad_buf = ad_buf d, ad_input = s, ad_done = ad_done d,
     ad_obuffer = ad_obuffer d, ad_ostart = ad_ostart d, ad_ofinish = ad_ofinish d, ad_pos = ad_pos d\<rparr>"

definition aes_without_input :: "'s aes_decoder \<Rightarrow> unit aes_decoder" where
  "aes_without_input d = \<lparr>ad_cipher = ad_cipher d, ad_buf = ad_buf d, ad_input = (), ad_done = ad_done d,
     ad_obuffer = ad_obuffer d, ad_ostart = ad_ostart d, ad_ofinish = ad_ofinish d, ad_pos = ad_pos d\<rparr>"

definition decoder_read :: "'d decoder_libs \<Rightarrow> 's reading \<Rightarrow> ('d decoder \<times> 's) reading" where
  "decoder_read D read x n =
    (case x of (dec, s) \<Rightarrow>
      let crate = (\<lambda>variant d. and_then (dc_call D read (d, s) n) (\<lambda>(bs, d, s). Ok (bs, variant d, s))) in
      case dec of
        Copy_decoder \<Rightarrow> and_then (read s n) (\<lambda>(bs, s). Ok (bs, Copy_decoder, s))
      | Lzma_decoder d \<Rightarrow> crate Lzma_decoder d
      | Lzma2_decoder d \<Rightarrow> crate Lzma2_decoder d
      | Lzma2_mt_decoder d \<Rightarrow> crate Lzma2_mt_decoder d
      | Ppmd_decoder d \<Rightarrow> crate Ppmd_decoder d
      | Bcj_decoder d \<Rightarrow> crate Bcj_decoder d
      | Delta_decoder d \<Rightarrow> crate Delta_decoder d
      | Swap2_decoder p \<Rightarrow>
          and_then (swap2_read read \<lparr>s2r_inner = s, s2r_pending = p\<rparr> n) (\<lambda>(bs, r).
          Ok (bs, Swap2_decoder (s2r_pending r), s2r_inner r))
      | Swap4_decoder pk \<Rightarrow>
          and_then (swap4_read read \<lparr>s4r_inner = s, s4r_pending = fst pk, s4r_pending_len = snd pk\<rparr> n) (\<lambda>(bs, r).
          Ok (bs, Swap4_decoder (s4r_pending r, s4r_pending_len r), s4r_inner r))
      | Brotli_decoder fk \<Rightarrow>
          and_then (brotli_read D read (fst fk, snd fk, s) n) (\<lambda>(bs, f, k, s). Ok (bs, Brotli_decoder (f, k), s))
      | Bzip2_decoder d \<Rightarrow> crate Bzip2_decoder d
      | Deflate_decoder d \<Rightarrow> crate Deflate_decoder d
      | Deflate64_decoder d \<Rightarrow> crate Deflate64_decoder d
      | Lz4_decoder f \<Rightarrow> and_then (lz4_read D read (f, s) n) (\<lambda>(bs, f, s). Ok (bs, Lz4_decoder f, s))
      | Zstd_decoder d \<Rightarrow> crate Zstd_decoder d
      | Aes_decoder a \<Rightarrow>
          and_then (aes_read (dc_cbc D) read (aes_with_input a s) n) (\<lambda>(bs, a).
          Ok (bs, Aes_decoder (aes_without_input a), ad_input a)))"

text \<open>\<open>Debug\<close> of a byte slice.\<close>

fun separated :: "string list \<Rightarrow> string" where
  "separated [] = []"
| "separated [x] = x"
| "separated (x # xs) = x @ '', '' @ separated xs"

definition debug_bytes :: "bytes \<Rightarrow> string" where
  "debug_bytes bs = ''['' @ separated (map (\<lambda>b. decimal (unat b)) bs) @ '']''"

definition add_decoder ::
    "'d decoder_libs \<Rightarrow> libs \<Rightarrow> 's reading \<Rightarrow> 's \<Rightarrow> usize \<Rightarrow> coder \<Rightarrow> password \<Rightarrow> usize \<Rightarrow> u32 \<Rightarrow>
     ('d decoder \<times> 's) result" where
  "add_decoder D L read s uncompressed_len c pw max_mem_limit_kb threads =
    (case by_id (encoder_method_id c) of
       None \<Rightarrow> Err (UnsupportedCompressionMethod (map of_char (debug_bytes (encoder_method_id c))))
     | Some m \<Rightarrow>
        let i = method_id m in
        if i = id_copy then Ok (Copy_decoder, s)
        else if i = id_lzma then
          and_then (from_io (get_lzma_dic_size c)) (\<lambda>dict_size.
          if properties c = [] then Err (Other ''LZMA properties too short'')
          else
            and_then (map_err (\<lambda>e. bad_password e (\<not> password_is_empty pw))
              (and_then (run_asking read (dc_lzma_new D (of_nat uncompressed_len) (properties c ! 0) dict_size) s)
                (\<lambda>(r, s). and_then r (\<lambda>d. Ok (d, s))))) (\<lambda>(d, s).
            Ok (Lzma_decoder d, s)))
        else if i = id_lzma2 then
          and_then (get_lzma2_dic_size c) (\<lambda>dic_size.
          let mem_size = unat (dc_lzma2_memory_usage D dic_size) in
          if max_mem_limit_kb < mem_size then Err (MaxMemLimited max_mem_limit_kb mem_size)
          else if threads < 2 then Ok (Lzma2_decoder (dc_lzma2_new D dic_size), s)
          else Ok (Lzma2_mt_decoder (dc_lzma2_mt_new D dic_size threads), s))
        else if i = id_ppmd then
          and_then (get_ppmd_order_memory_size L c max_mem_limit_kb) (\<lambda>(order, memory_size).
          and_then (from_io (run_asking read (dc_ppmd_new D order memory_size) s)) (\<lambda>(r, s).
          and_then (map_err Other r) (\<lambda>d. Ok (Ppmd_decoder d, s))))
        else if i = id_brotli then
          and_then (brotli_decoder_new D read s 4096) (\<lambda>(f, k, s). Ok (Brotli_decoder (f, k), s))
        else if i = id_bzip2 then Ok (Bzip2_decoder (dc_bzip2_new D), s)
        else if i = id_deflate then Ok (Deflate_decoder (dc_deflate_new D), s)
        else if i = id_deflate64 then Ok (Deflate64_decoder (dc_deflate64_new D), s)
        else if i = id_lz4 then
          and_then (lz4_decoder_new D read s) (\<lambda>(f, s). Ok (Lz4_decoder f, s))
        else if i = id_zstd then
          and_then (from_io (run_asking read (dc_zstd_new D) s)) (\<lambda>(r, s).
          and_then (from_io r) (\<lambda>d. Ok (Zstd_decoder d, s)))
        else if i \<in> set ids_bcj then Ok (Bcj_decoder (dc_bcj_new D i), s)
        else if i = id_delta then Ok (Delta_decoder (dc_delta_new D (delta_decoder_distance c)), s)
        else if i = id_swap2 then Ok (Swap2_decoder None, s)
        else if i = id_swap4 then Ok (Swap4_decoder ([0, 0, 0], 0), s)
        else if i = id_aes256_sha256 then
          (if password_is_empty pw then Err PasswordRequired
           else
             and_then (aes_decoder_new (dc_sha256 D) s (properties c) pw) (\<lambda>a.
             Ok (Aes_decoder (aes_without_input a), ad_input a)))
        else Err (UnsupportedCompressionMethod (map of_char (method_name m))))"

section \<open>Stacks of decoders\<close>

text \<open>The decoders of a block, each boxed as the reader of the next, the outermost first, and the
  reader of the packed stream. The depth is the length of the list.\<close>

type_synonym ('d, 's) decoders = "'d decoder list \<times> 's"

primrec stack_read :: "'d decoder_libs \<Rightarrow> 's reading \<Rightarrow> nat \<Rightarrow> ('d, 's) decoders reading" where
  "stack_read D read 0 = (\<lambda>x n. and_then (read (snd x) n) (\<lambda>(bs, s). Ok (bs, fst x, s)))"
| "stack_read D read (Suc k) = (\<lambda>x n.
     case fst x of
       [] \<Rightarrow> Panic
     | d # ds \<Rightarrow>
         and_then (decoder_read D (stack_read D read k) (d, ds, snd x) n) (\<lambda>(bs, d, ds, s).
         Ok (bs, d # ds, s)))"

definition stack_add_decoder ::
    "'d decoder_libs \<Rightarrow> libs \<Rightarrow> 's reading \<Rightarrow> ('d, 's) decoders \<Rightarrow> usize \<Rightarrow> coder \<Rightarrow> password \<Rightarrow> usize \<Rightarrow> u32 \<Rightarrow>
     ('d, 's) decoders result" where
  "stack_add_decoder D L read x uncompressed_len c pw max_mem_limit_kb threads =
     and_then (add_decoder D L (stack_read D read (length (fst x))) x uncompressed_len c pw max_mem_limit_kb threads)
       (\<lambda>(d, ds, s). Ok (d # ds, s))"

end
