(* ===== verification/Stream_Map.thy ===== *)
theory Stream_Map
  imports Archive_Model
begin

text \<open>
  \<open>calculate_stream_map\<close> of \<^verbatim>\<open>src/src/reader.rs\<close>: which pack streams a block reads,
  where they start, which file is the first of a block and which block holds a file. The
  reference definition is \<open>owners\<close>: the block of every substream, in order.
\<close>

section \<open>The computation\<close>

fun pack_stream_indices :: "block list \<Rightarrow> usize \<Rightarrow> usize list" where
  "pack_stream_indices [] nxt = []"
| "pack_stream_indices (b # bs) nxt = nxt # pack_stream_indices bs (usize_add nxt (length (packed_streams b)))"

fun pack_offsets :: "u64 list \<Rightarrow> u64 \<Rightarrow> u64 list" where
  "pack_offsets [] nxt = []"
| "pack_offsets (sz # szs) nxt = nxt # pack_offsets szs (nxt + sz)"

record map_state =
  ms_first_file :: "usize list"
  ms_file_block :: "usize option list"
  ms_files :: "archive_entry list"
  ms_next_block :: usize
  ms_next_stream :: usize

text \<open>The inner loop: skip the blocks without substreams, marking where they would start.\<close>

function skip_blocks :: "block list \<Rightarrow> usize \<Rightarrow> usize list \<Rightarrow> usize \<Rightarrow> usize list \<times> usize" where
  "skip_blocks bs i first nxt =
     (if nxt < length bs then
        (let first' = first[nxt := i] in
         if 0 < num_unpack_sub_streams (bs ! nxt) then (first', nxt)
         else skip_blocks bs i first' (nxt + 1))
      else (first, nxt))"
  by pat_completeness auto
termination
  by (relation "measure (\<lambda>(bs, i, first, nxt). length bs - nxt)") auto

declare skip_blocks.simps [simp del]

definition place_file :: "archive \<Rightarrow> usize list \<Rightarrow> usize \<Rightarrow> map_state \<Rightarrow> map_state result" where
  "place_file a pack_indices i s =
    (if \<not> has_stream (ms_files s ! i) \<and> ms_next_stream s = 0
     then Ok (s\<lparr>ms_file_block := (ms_file_block s)[i := None]\<rparr>)
     else and_then
      (if ms_next_stream s = 0 then
         (let (first, nxt) = skip_blocks (ar_blocks a) i (ms_first_file s) (ms_next_block s) in
          if length (ar_blocks a) \<le> nxt then Err (Other ''Too few blocks in archive'')
          else Ok (s\<lparr>ms_first_file := first, ms_next_block := nxt\<rparr>))
       else Ok s)
      (\<lambda>s. let nb = ms_next_block s;
               s = s\<lparr>ms_file_block := (ms_file_block s)[i := Some nb]\<rparr> in
        if \<not> has_stream (ms_files s ! i) then Ok s
        else and_then (index (ms_first_file s) nb) (\<lambda>first_file.
          and_then
           (if first_file = i then
              and_then (index pack_indices nb) (\<lambda>first_pack.
              and_then (index (pack_sizes a) first_pack) (\<lambda>pack_size.
                Ok (s\<lparr>ms_files := (ms_files s)[i := (ms_files s ! i)\<lparr>compressed_size := pack_size\<rparr>]\<rparr>)))
            else Ok s)
           (\<lambda>s. and_then (index (ar_blocks a) nb) (\<lambda>b.
              if num_unpack_sub_streams b \<le> ms_next_stream s + 1
              then Ok (s\<lparr>ms_next_block := nb + 1, ms_next_stream := 0\<rparr>)
              else Ok (s\<lparr>ms_next_stream := ms_next_stream s + 1\<rparr>))))))"

definition calculate_stream_map :: "archive \<Rightarrow> archive result" where
  "calculate_stream_map a =
    (let pack_indices = pack_stream_indices (ar_blocks a) 0;
         num_files = length (ar_files a);
         init = \<lparr>ms_first_file = replicate (length (ar_blocks a)) 0,
                 ms_file_block = replicate num_files None,
                 ms_files = ar_files a, ms_next_block = 0, ms_next_stream = 0\<rparr>
     in and_then (for_each (place_file a pack_indices) [0..<num_files] init) (\<lambda>s.
          Ok (a\<lparr>ar_files := ms_files s,
                ar_stream_map :=
                  \<lparr>block_first_pack_stream_index = pack_indices,
                   pack_stream_offsets = pack_offsets (pack_sizes a) 0,
                   block_first_file_index = ms_first_file s,
                   file_block_index = ms_file_block s\<rparr>\<rparr>)))"

section \<open>The reference: who owns a substream\<close>

definition owners :: "block list \<Rightarrow> usize list" where
  "owners bs = concat (map (\<lambda>j. replicate (num_unpack_sub_streams (bs ! j)) j) [0..<length bs])"

definition streams_before :: "archive_entry list \<Rightarrow> nat \<Rightarrow> nat" where
  "streams_before fs i = length (filter has_stream (take i fs))"

definition base :: "block list \<Rightarrow> nat \<Rightarrow> nat" where
  "base bs n = sum_list (map num_unpack_sub_streams (take n bs))"

lemma base_Suc: "n < length bs \<Longrightarrow> base bs (Suc n) = base bs n + num_unpack_sub_streams (bs ! n)"
  by (simp add: base_def take_Suc_conv_app_nth)

lemma base_mono: "m \<le> n \<Longrightarrow> base bs m \<le> base bs n"
proof -
  assume "m \<le> n"
  then have "take n bs = take m bs @ drop m (take n bs)"
    by (metis append_take_drop_id min.absorb1 take_take)
  then show ?thesis
    unfolding base_def by (metis le_add1 map_append sum_list_append)
qed

lemma owners_snoc: "owners (bs @ [b]) = owners bs @ replicate (num_unpack_sub_streams b) (length bs)"
  by (auto simp: owners_def nth_append intro!: arg_cong [where f = concat])

lemma length_owners: "length (owners bs) = base bs (length bs)"
  by (induction bs rule: rev_induct) (simp_all add: owners_snoc base_def, simp add: owners_def)

lemma owners_nth:
  "b < length bs \<Longrightarrow> r < num_unpack_sub_streams (bs ! b) \<Longrightarrow> owners bs ! (base bs b + r) = b"
proof (induction bs rule: rev_induct)
  case (snoc x bs)
  show ?case
  proof (cases "b < length bs")
    case True
    then have nth: "(bs @ [x]) ! b = bs ! b" by (simp add: nth_append)
    have "base bs b + r < base bs (Suc b)" using True snoc.prems nth by (simp add: base_Suc)
    also have "\<dots> \<le> length (owners bs)" using True by (simp add: length_owners base_mono)
    finally have "base bs b + r < length (owners bs)" .
    with True snoc nth show ?thesis by (simp add: owners_snoc nth_append base_def)
  next
    case False
    with snoc.prems have b: "b = length bs" by simp
    with snoc.prems have "base (bs @ [x]) b = length (owners bs)" "r < num_unpack_sub_streams x"
      by (simp_all add: length_owners base_def nth_append)
    with b show ?thesis by (simp add: owners_snoc nth_append)
  qed
qed simp

lemma streams_before_Suc:
  "i < length fs \<Longrightarrow> streams_before fs (Suc i) = streams_before fs i + (if has_stream (fs ! i) then 1 else 0)"
  by (simp add: streams_before_def take_Suc_conv_app_nth)

lemma streams_before_mono: "i \<le> j \<Longrightarrow> streams_before fs i \<le> streams_before fs j"
proof -
  assume "i \<le> j"
  then have "take j fs = take i fs @ drop i (take j fs)"
    by (metis append_take_drop_id min.absorb1 take_take)
  then show ?thesis
    unfolding streams_before_def by (metis filter_append le_add1 length_append)
qed

section \<open>The computation agrees with the reference\<close>

lemma skip_blocks_spec:
  assumes "skip_blocks bs i first nxt = (first', nxt')" and "nxt \<le> length bs" and "length first = length bs"
  shows "nxt \<le> nxt' \<and> nxt' \<le> length bs \<and> base bs nxt' = base bs nxt
    \<and> (nxt' < length bs \<longrightarrow> 0 < num_unpack_sub_streams (bs ! nxt') \<and> first' ! nxt' = i)
    \<and> length first' = length bs \<and> (\<forall>j<nxt. first' ! j = first ! j)"
  using assms
proof (induction bs i first nxt arbitrary: first' nxt' rule: skip_blocks.induct)
  case (1 bs i first nxt)
  show ?case
  proof (cases "nxt < length bs \<and> num_unpack_sub_streams (bs ! nxt) = 0")
    case True
    then have "skip_blocks bs i (first[nxt := i]) (nxt + 1) = (first', nxt')"
      using "1.prems"(1) by (subst (asm) skip_blocks.simps) simp
    moreover have "base bs (nxt + 1) = base bs nxt" using True by (simp add: base_Suc)
    ultimately show ?thesis using "1.IH" [of "first[nxt := i]"] "1.prems" True by fastforce
  next
    case False
    with "1.prems" show ?thesis
      by (subst (asm) skip_blocks.simps) (auto split: if_splits)
  qed
qed

definition same_files :: "archive_entry list \<Rightarrow> archive_entry list \<Rightarrow> bool" where
  "same_files fs gs \<longleftrightarrow>
     map (\<lambda>f. f\<lparr>compressed_size := 0\<rparr>) fs = map (\<lambda>f. f\<lparr>compressed_size := 0\<rparr>) gs"

lemma same_files_stream: "same_files fs gs \<Longrightarrow> i < length fs \<Longrightarrow> has_stream (gs ! i) = has_stream (fs ! i)"
proof -
  assume "same_files fs gs" "i < length fs"
  then have "(fs ! i)\<lparr>compressed_size := 0\<rparr> = (gs ! i)\<lparr>compressed_size := 0\<rparr>"
    unfolding same_files_def by (metis length_map nth_map)
  then have "has_stream ((fs ! i)\<lparr>compressed_size := 0\<rparr>) = has_stream ((gs ! i)\<lparr>compressed_size := 0\<rparr>)"
    by simp
  then show ?thesis by simp
qed

lemma same_files_update:
  "same_files fs gs \<Longrightarrow> same_files fs (gs[i := (gs ! i)\<lparr>compressed_size := p\<rparr>])"
proof -
  assume same: "same_files fs gs"
  have "map (\<lambda>f. f\<lparr>compressed_size := 0\<rparr>) (gs[i := (gs ! i)\<lparr>compressed_size := p\<rparr>])
      = map (\<lambda>f. f\<lparr>compressed_size := 0\<rparr>) gs"
    by (cases "i < length gs") (simp_all add: map_update list_update_same_conv list_update_beyond)
  with same show ?thesis by (simp add: same_files_def)
qed

text \<open>The first \<open>i\<close> files are placed: the block of every streamed one is its owner, which
  is below the bound of the blocks begun, and a block's first file is where it starts.\<close>

definition begun :: "map_state \<Rightarrow> nat" where
  "begun s = ms_next_block s + (if ms_next_stream s = 0 then 0 else 1)"

definition placed :: "block list \<Rightarrow> archive_entry list \<Rightarrow> map_state \<Rightarrow> nat \<Rightarrow> nat \<Rightarrow> bool" where
  "placed bs fs s j b \<longleftrightarrow> b < length bs \<and> b < begun s \<and> ms_file_block s ! j = Some b
     \<and> base bs b \<le> streams_before fs j
     \<and> streams_before fs j < base bs b + num_unpack_sub_streams (bs ! b)
     \<and> (streams_before fs j = base bs b \<longrightarrow> ms_first_file s ! b = j)"

definition all_placed :: "block list \<Rightarrow> archive_entry list \<Rightarrow> nat \<Rightarrow> map_state \<Rightarrow> bool" where
  "all_placed bs fs i s \<longleftrightarrow> (\<forall>j<i. has_stream (fs ! j) \<longrightarrow> (\<exists>b. placed bs fs s j b))"

lemma all_placed_later:
  "all_placed bs fs i s \<Longrightarrow> (\<And>j b. j < i \<Longrightarrow> placed bs fs s j b \<Longrightarrow> placed bs fs t j b) \<Longrightarrow> all_placed bs fs i t"
  unfolding all_placed_def by blast

lemma all_placed_Suc:
  "all_placed bs fs (Suc i) s \<longleftrightarrow> all_placed bs fs i s \<and> (has_stream (fs ! i) \<longrightarrow> (\<exists>b. placed bs fs s i b))"
  by (auto simp: all_placed_def less_Suc_eq)

definition map_inv :: "block list \<Rightarrow> archive_entry list \<Rightarrow> nat \<Rightarrow> map_state \<Rightarrow> bool" where
  "map_inv bs fs i s \<longleftrightarrow>
     base bs (ms_next_block s) + ms_next_stream s = streams_before fs i
     \<and> ms_next_block s \<le> length bs
     \<and> (0 < ms_next_stream s \<longrightarrow>
          ms_next_block s < length bs \<and> ms_next_stream s < num_unpack_sub_streams (bs ! ms_next_block s))
     \<and> length (ms_first_file s) = length bs \<and> length (ms_file_block s) = length fs
     \<and> same_files fs (ms_files s) \<and> all_placed bs fs i s"

lemma placed_later:
  "placed bs fs s j b \<Longrightarrow> begun s \<le> begun t \<Longrightarrow> ms_file_block t ! j = ms_file_block s ! j \<Longrightarrow>
   (\<And>b. b < begun s \<Longrightarrow> ms_first_file t ! b = ms_first_file s ! b) \<Longrightarrow> placed bs fs t j b"
  by (simp add: placed_def)

lemma ex_block_below:
  assumes "m < base bs (length bs)" and "base bs nb \<le> m" and "nb \<le> length bs"
  shows "nb < length bs"
  using assms by (cases "nb = length bs") auto

lemma map_inv_choose:
  assumes inv: "map_inv bs fs i s" and room: "streams_before fs i < base bs (length bs)"
    and zero: "ms_next_stream s = 0"
    and skip: "skip_blocks bs i (ms_first_file s) (ms_next_block s) = (first, nxt)"
  shows "nxt < length bs \<and> 0 < num_unpack_sub_streams (bs ! nxt) \<and> first ! nxt = i
    \<and> map_inv bs fs i (s\<lparr>ms_first_file := first, ms_next_block := nxt\<rparr>)"
proof -
  have spec: "ms_next_block s \<le> nxt" "nxt \<le> length bs" "base bs nxt = base bs (ms_next_block s)"
    "nxt < length bs \<longrightarrow> 0 < num_unpack_sub_streams (bs ! nxt) \<and> first ! nxt = i"
    "length first = length bs" "\<forall>j<ms_next_block s. first ! j = ms_first_file s ! j"
    using skip_blocks_spec [OF skip] inv by (auto simp: map_inv_def)
  have "nxt < length bs"
    using room inv zero spec by (intro ex_block_below [of "streams_before fs i"]) (auto simp: map_inv_def)
  moreover have "map_inv bs fs i (s\<lparr>ms_first_file := first, ms_next_block := nxt\<rparr>)"
  proof -
    have old_placed: "all_placed bs fs i s" using inv by (simp add: map_inv_def)
    have "all_placed bs fs i (s\<lparr>ms_first_file := first, ms_next_block := nxt\<rparr>)"
      by (rule all_placed_later [OF old_placed], erule placed_later)
        (use zero spec in \<open>auto simp: begun_def\<close>)
    with inv zero spec show ?thesis unfolding map_inv_def by simp
  qed
  ultimately show ?thesis using spec by simp
qed

text \<open>A file with a stream takes the next substream of the chosen block.\<close>

lemma map_inv_take:
  assumes inv: "map_inv bs fs i s" and i: "i < length fs" "has_stream (fs ! i)"
    and nb: "ms_next_block s = nb" "nb < length bs" "ms_next_stream s < num_unpack_sub_streams (bs ! nb)"
    and first: "ms_next_stream s = 0 \<longrightarrow> ms_first_file s ! nb = i"
    and files: "same_files fs gs"
  defines "t \<equiv> s\<lparr>ms_file_block := (ms_file_block s)[i := Some nb], ms_files := gs\<rparr>"
  shows "map_inv bs fs (Suc i)
     (if num_unpack_sub_streams (bs ! nb) \<le> ms_next_stream s + 1
      then t\<lparr>ms_next_block := nb + 1, ms_next_stream := 0\<rparr>
      else t\<lparr>ms_next_stream := ms_next_stream s + 1\<rparr>)" (is "map_inv bs fs (Suc i) ?s'")
proof -
  have before: "streams_before fs i = base bs nb + ms_next_stream s" "length (ms_file_block s) = length fs"
    using inv nb by (simp_all add: map_inv_def)
  have old: "all_placed bs fs (Suc i) u"
    if u: "begun u = nb + 1" "ms_file_block u = (ms_file_block s)[i := Some nb]"
      "ms_first_file u = ms_first_file s" for u
  proof -
    have old_placed: "all_placed bs fs i s" using inv by (simp add: map_inv_def)
    have "all_placed bs fs i u"
      by (rule all_placed_later [OF old_placed], erule placed_later) (use u nb in \<open>auto simp: begun_def\<close>)
    moreover have "placed bs fs u i nb" using u nb i before first by (auto simp: placed_def)
    ultimately show ?thesis by (auto simp: all_placed_Suc)
  qed
  show ?thesis
  proof (cases "num_unpack_sub_streams (bs ! nb) \<le> ms_next_stream s + 1")
    case True
    have "base bs (nb + 1) = streams_before fs (Suc i)"
      using True nb i before by (simp add: base_Suc streams_before_Suc)
    with True inv nb files old [of "t\<lparr>ms_next_block := nb + 1, ms_next_stream := 0\<rparr>"]
    show ?thesis by (simp add: map_inv_def t_def begun_def)
  next
    case False
    have "base bs nb + Suc (ms_next_stream s) = streams_before fs (Suc i)"
      using i before by (simp add: streams_before_Suc)
    with False inv nb files old [of "t\<lparr>ms_next_stream := ms_next_stream s + 1\<rparr>"]
    show ?thesis by (simp add: map_inv_def t_def begun_def)
  qed
qed

lemma map_inv_skip:
  assumes "map_inv bs fs i s" and "i < length fs" and "\<not> has_stream (fs ! i)"
  shows "map_inv bs fs (Suc i) (s\<lparr>ms_file_block := (ms_file_block s)[i := x]\<rparr>)"
proof -
  have "streams_before fs (Suc i) = streams_before fs i" using assms by (simp add: streams_before_Suc)
  moreover have old_placed: "all_placed bs fs i s" using assms by (simp add: map_inv_def)
  have "all_placed bs fs i (s\<lparr>ms_file_block := (ms_file_block s)[i := x]\<rparr>)"
    by (rule all_placed_later [OF old_placed], erule placed_later) (auto simp: begun_def)
  ultimately show ?thesis using assms by (simp add: map_inv_def all_placed_Suc)
qed

lemma place_file_ok:
  assumes inv: "map_inv (ar_blocks a) fs i s" and i: "i < length fs"
    and room: "has_stream (fs ! i) \<Longrightarrow> streams_before fs i < base (ar_blocks a) (length (ar_blocks a))"
    and packs: "length packs = length (ar_blocks a)"
      "\<And>b. b < length (ar_blocks a) \<Longrightarrow> packs ! b < length (pack_sizes a)"
  shows "\<exists>s'. place_file a packs i s = Ok s' \<and> map_inv (ar_blocks a) fs (Suc i) s'"
proof -
  let ?bs = "ar_blocks a"
  have "same_files fs (ms_files s)" using inv by (simp add: map_inv_def)
  then have stream: "has_stream (ms_files s ! i) = has_stream (fs ! i)"
    using i by (rule same_files_stream)
  have step: "\<exists>s'. and_then
           (if ms_first_file t ! nb = i then
              and_then (index packs nb) (\<lambda>first_pack.
              and_then (index (pack_sizes a) first_pack) (\<lambda>pack_size.
                Ok (t'\<lparr>ms_files := (ms_files t')[i := (ms_files t' ! i)\<lparr>compressed_size := pack_size\<rparr>]\<rparr>)))
            else Ok t')
           (\<lambda>s. and_then (index ?bs nb) (\<lambda>b.
              if num_unpack_sub_streams b \<le> ms_next_stream s + 1
              then Ok (s\<lparr>ms_next_block := nb + 1, ms_next_stream := 0\<rparr>)
              else Ok (s\<lparr>ms_next_stream := ms_next_stream s + 1\<rparr>))) = Ok s'
        \<and> map_inv ?bs fs (Suc i) s'"
    if t: "map_inv ?bs fs i t" "has_stream (fs ! i)" "ms_next_block t = nb" "nb < length ?bs"
      "ms_next_stream t < num_unpack_sub_streams (?bs ! nb)" "ms_next_stream t = 0 \<longrightarrow> ms_first_file t ! nb = i"
      and t': "t' = t\<lparr>ms_file_block := (ms_file_block t)[i := Some nb]\<rparr>" for t t' nb
  proof -
    have gs: "same_files fs (ms_files t)" using t by (simp add: map_inv_def)
    have "map_inv ?bs fs (Suc i)
     (let u = t\<lparr>ms_file_block := (ms_file_block t)[i := Some nb], ms_files := hs\<rparr> in
      if num_unpack_sub_streams (?bs ! nb) \<le> ms_next_stream t + 1
      then u\<lparr>ms_next_block := nb + 1, ms_next_stream := 0\<rparr>
      else u\<lparr>ms_next_stream := ms_next_stream t + 1\<rparr>)" if "same_files fs hs" for hs
      unfolding Let_def by (rule map_inv_take) (use t i that in simp_all)
    from this [OF gs] this [OF same_files_update [OF gs]]
    show ?thesis using t packs(1) packs(2) [of nb] by (auto simp: t' Let_def)
  qed
  show ?thesis
  proof (cases "ms_next_stream s = 0")
    case zero: True
    show ?thesis
    proof (cases "has_stream (fs ! i)")
      case True
      obtain first nxt where skip: "skip_blocks ?bs i (ms_first_file s) (ms_next_block s) = (first, nxt)"
        by fastforce
      let ?t = "s\<lparr>ms_first_file := first, ms_next_block := nxt\<rparr>"
      have c: "nxt < length ?bs" "0 < num_unpack_sub_streams (?bs ! nxt)" "first ! nxt = i" "map_inv ?bs fs i ?t"
        using map_inv_choose [OF inv room [OF True] zero skip] by auto
      then have "length first = length ?bs" by (simp add: map_inv_def)
      with step [of ?t nxt] c zero True stream skip show ?thesis
        by (simp add: place_file_def Let_def cong: if_cong)
    next
      case False
      with zero stream map_inv_skip [OF inv i] show ?thesis by (simp add: place_file_def)
    qed
  next
    case pos: False
    then have nb: "ms_next_block s < length ?bs" "ms_next_stream s < num_unpack_sub_streams (?bs ! ms_next_block s)"
      "length (ms_first_file s) = length ?bs"
      using inv by (auto simp: map_inv_def)
    show ?thesis
    proof (cases "has_stream (fs ! i)")
      case True
      with step [OF inv, of "ms_next_block s"] pos nb stream show ?thesis
        by (simp add: place_file_def Let_def)
    next
      case False
      with pos stream map_inv_skip [OF inv i] show ?thesis by (simp add: place_file_def Let_def)
    qed
  qed
qed

lemma place_files_ok:
  assumes inv: "map_inv (ar_blocks a) fs 0 s" and n: "n \<le> length fs"
    and room: "streams_before fs (length fs) \<le> base (ar_blocks a) (length (ar_blocks a))"
    and packs: "length packs = length (ar_blocks a)"
      "\<And>b. b < length (ar_blocks a) \<Longrightarrow> packs ! b < length (pack_sizes a)"
  shows "\<exists>s'. for_each (place_file a packs) [0..<n] s = Ok s' \<and> map_inv (ar_blocks a) fs n s'"
  using n
proof (induction n)
  case 0
  with inv show ?case by simp
next
  case (Suc n)
  then obtain t where t: "for_each (place_file a packs) [0..<n] s = Ok t" "map_inv (ar_blocks a) fs n t"
    by auto
  have "has_stream (fs ! n) \<Longrightarrow> streams_before fs n < base (ar_blocks a) (length (ar_blocks a))"
    using streams_before_mono [of "Suc n" "length fs" fs] Suc.prems room by (simp add: streams_before_Suc)
  from place_file_ok [OF t(2) _ this packs] Suc.prems t(1)
  obtain u where "place_file a packs n t = Ok u" "map_inv (ar_blocks a) fs (Suc n) u" by auto
  with t(1) show ?case by (simp add: for_each_append)
qed

lemma length_pack_stream_indices [simp]: "length (pack_stream_indices bs n) = length bs"
  by (induction bs arbitrary: n) simp_all

lemma pack_stream_indices_nth:
  assumes "n + sum_list (map (length \<circ> packed_streams) bs) < 2 ^ 64" and "b < length bs"
  shows "pack_stream_indices bs n ! b = n + sum_list (map (length \<circ> packed_streams) (take b bs))"
  using assms by (induction bs arbitrary: n b) (auto simp: nth_Cons' take_Cons' add.assoc)

text \<open>Every block reads a packed stream, and the archive has them all.\<close>

definition streams_fit :: "archive \<Rightarrow> bool" where
  "streams_fit a \<longleftrightarrow>
     streams_before (ar_files a) (length (ar_files a)) \<le> base (ar_blocks a) (length (ar_blocks a))
     \<and> sum_list (map (length \<circ> packed_streams) (ar_blocks a)) = length (pack_sizes a)
     \<and> (\<forall>b\<in>set (ar_blocks a). packed_streams b \<noteq> [])
     \<and> length (pack_sizes a) < 2 ^ 64"

lemma sum_list_take_less:
  fixes f :: "'a \<Rightarrow> nat"
  assumes "b < length xs" and "0 < f (xs ! b)"
  shows "sum_list (map f (take b xs)) < sum_list (map f xs)"
proof -
  have "xs = take b xs @ xs ! b # drop (Suc b) xs" using assms(1) by (rule id_take_nth_drop)
  then have "sum_list (map f xs) = sum_list (map f (take b xs)) + (f (xs ! b) + sum_list (map f (drop (Suc b) xs)))"
    by (metis list.simps(9) map_append sum_list.Cons sum_list_append)
  with assms(2) show ?thesis by linarith
qed

lemma pack_stream_indices_fit:
  assumes "streams_fit a" and "b < length (ar_blocks a)"
  shows "pack_stream_indices (ar_blocks a) 0 ! b < length (pack_sizes a)"
  using assms pack_stream_indices_nth [of 0 "ar_blocks a" b]
    sum_list_take_less [of b "ar_blocks a" "length \<circ> packed_streams"]
  by (auto simp: streams_fit_def)

lemma stream_map_correct:
  assumes fit: "streams_fit a"
  obtains a' where "calculate_stream_map a = Ok a'"
    and "same_files (ar_files a) (ar_files a')"
    and "ar_blocks a' = ar_blocks a"
    and "\<And>i. i < length (ar_files a) \<Longrightarrow> has_stream (ar_files a ! i) \<Longrightarrow>
       file_block_index (ar_stream_map a') ! i = Some (owners (ar_blocks a) ! streams_before (ar_files a) i)"
    and "\<And>i b. i < length (ar_files a) \<Longrightarrow> has_stream (ar_files a ! i) \<Longrightarrow>
       b < length (ar_blocks a) \<Longrightarrow> 0 < num_unpack_sub_streams (ar_blocks a ! b) \<Longrightarrow>
       streams_before (ar_files a) i = base (ar_blocks a) b \<Longrightarrow>
       block_first_file_index (ar_stream_map a') ! b = i"
proof -
  let ?bs = "ar_blocks a" and ?fs = "ar_files a"
  let ?init = "\<lparr>ms_first_file = replicate (length ?bs) 0, ms_file_block = replicate (length ?fs) None,
     ms_files = ?fs, ms_next_block = 0, ms_next_stream = 0\<rparr>"
  have "map_inv ?bs ?fs 0 ?init"
    by (simp add: map_inv_def base_def streams_before_def same_files_def all_placed_def)
  from place_files_ok [OF this order_refl, of "pack_stream_indices ?bs 0"] fit pack_stream_indices_fit [OF fit]
  obtain s where run: "for_each (place_file a (pack_stream_indices ?bs 0)) [0..<length ?fs] ?init = Ok s"
    and inv: "map_inv ?bs ?fs (length ?fs) s"
    by (auto simp: streams_fit_def)
  define a' where "a' = a\<lparr>ar_files := ms_files s,
                ar_stream_map :=
                  \<lparr>block_first_pack_stream_index = pack_stream_indices ?bs 0,
                   pack_stream_offsets = pack_offsets (pack_sizes a) 0,
                   block_first_file_index = ms_first_file s,
                   file_block_index = ms_file_block s\<rparr>\<rparr>"
  have owner: "\<exists>b<length ?bs. ms_file_block s ! i = Some b
      \<and> owners ?bs ! streams_before ?fs i = b
      \<and> base ?bs b \<le> streams_before ?fs i \<and> streams_before ?fs i < base ?bs b + num_unpack_sub_streams (?bs ! b)
      \<and> (streams_before ?fs i = base ?bs b \<longrightarrow> ms_first_file s ! b = i)"
    if i: "i < length ?fs" "has_stream (?fs ! i)" for i
  proof -
    from inv i obtain b where b: "b < length ?bs" "ms_file_block s ! i = Some b"
      "base ?bs b \<le> streams_before ?fs i" "streams_before ?fs i < base ?bs b + num_unpack_sub_streams (?bs ! b)"
      "streams_before ?fs i = base ?bs b \<longrightarrow> ms_first_file s ! b = i"
      unfolding map_inv_def all_placed_def placed_def by blast
    with owners_nth [of b ?bs "streams_before ?fs i - base ?bs b"] show ?thesis by auto
  qed
  show thesis
  proof (rule that [of a'])
    show "calculate_stream_map a = Ok a'"
      by (simp add: calculate_stream_map_def run a'_def Let_def)
    show "same_files ?fs (ar_files a')" using inv by (simp add: map_inv_def a'_def)
    show "ar_blocks a' = ?bs" by (simp add: a'_def)
    show "file_block_index (ar_stream_map a') ! i = Some (owners ?bs ! streams_before ?fs i)"
      if "i < length ?fs" "has_stream (?fs ! i)" for i
      using owner [OF that] by (auto simp: a'_def)
    show "block_first_file_index (ar_stream_map a') ! b = i"
      if "i < length ?fs" "has_stream (?fs ! i)" "b < length ?bs"
        "0 < num_unpack_sub_streams (?bs ! b)" "streams_before ?fs i = base ?bs b" for i b
      using owner [OF that(1,2)] owners_nth [of b ?bs 0] that by (auto simp: a'_def)
  qed
qed

end
