(* ===== verification/Header_Reader.thy ===== *)
theory Header_Reader
  imports Var_Int Stream_Map
begin

text \<open>
  How \<^verbatim>\<open>src/src/reader.rs\<close> reads a header: \<open>read_header\<close> and the functions it calls,
  as parsers over the header's bytes. The archive under construction is passed from one
  function to the next; an error discards it. The loops over property records
  (\<open>read_archive_properties\<close>, \<open>read_files_info\<close>) take fuel, one unit per record, because a
  record's size moves the cursor as a signed offset and may move it backwards.
\<close>

section \<open>Loops\<close>

abbreviation hdr_u8 :: "(error, u8) parser" where "hdr_u8 \<equiv> lift_io read_u8"
abbreviation hdr_u64 :: "(error, u64) parser" where "hdr_u64 \<equiv> lift_io read_variable_u64"

text \<open>\<open>for (i, x) in xs.iter_mut().enumerate()\<close>\<close>

fun read_enumerate :: "(nat \<Rightarrow> 'a \<Rightarrow> ('e, 'a) parser) \<Rightarrow> nat \<Rightarrow> 'a list \<Rightarrow> ('e, 'a list) parser" where
  "read_enumerate f i [] = ret []"
| "read_enumerate f i (x # xs) =
     and_read (f i x) (\<lambda>y. and_read (read_enumerate f (i + 1) xs) (\<lambda>ys. ret (y # ys)))"

text \<open>Read a CRC for each defined position, 0 for the others.\<close>

definition read_defined_crcs :: "bit_set \<Rightarrow> usize \<Rightarrow> (error, u64 list) parser" where
  "read_defined_crcs defined n =
     read_enumerate
       (\<lambda>i x. if bs_contains defined i then and_read (lift_io read_u32) (\<lambda>c. ret (ucast c)) else ret x)
       0 (replicate n 0)"

section \<open>Pack info\<close>

definition read_pack_info :: "archive \<Rightarrow> (error, archive) parser" where
  "read_pack_info a =
     and_read hdr_u64 (\<lambda>pos.
     let a = a\<lparr>pack_pos := pos\<rparr> in
     and_read (read_variable_usize ''num pack streams'') (\<lambda>num_pack_streams.
     and_read hdr_u8 (\<lambda>nid.
     and_read
       (if nid = k_size then
          and_read (read_times hdr_u64 num_pack_streams) (\<lambda>sizes.
          and_read hdr_u8 (\<lambda>nid. ret (nid, a\<lparr>pack_sizes := sizes\<rparr>)))
        else ret (nid, a)) (\<lambda>(nid, a).
     and_read
       (if nid = k_crc then
          and_read (lift_io (read_all_or_bits num_pack_streams)) (\<lambda>defined.
          and_read (read_defined_crcs defined num_pack_streams) (\<lambda>crcs.
          and_read hdr_u8 (\<lambda>nid. ret (nid, a\<lparr>pack_crcs_defined := defined, pack_crcs := crcs\<rparr>))))
        else ret (nid, a)) (\<lambda>(nid, a).
     if nid \<noteq> k_end then fail (BadTerminatedPackInfo nid) else ret a)))))"

section \<open>Blocks and unpack info\<close>

definition read_coder :: "(error, coder) parser" where
  "read_coder =
     and_read hdr_u8 (\<lambda>bits.
     let id_sz = unat (bits AND 0xF);
         is_simple = (bits AND 0x10 = 0);
         has_attributes = (bits AND 0x20 \<noteq> 0);
         more_alternative_methods = (bits AND 0x80 \<noteq> 0) in
     and_read (lift_io (read_exact id_sz)) (\<lambda>method.
     and_read
       (if is_simple then ret (1, 1)
        else and_read hdr_u64 (\<lambda>ins. and_read hdr_u64 (\<lambda>outs. ret (ins, outs)))) (\<lambda>(ins, outs).
     and_read
       (if has_attributes then
          and_read (read_variable_usize ''properties size'') (\<lambda>n. lift_io (read_exact n))
        else ret []) (\<lambda>props.
     if more_alternative_methods
     then fail (Other ''Alternative methods are unsupported, please report. The reference implementation doesn't support them either.'')
     else ret \<lparr>id_buffer = method @ drop id_sz (id_buffer coder_default), id_size = id_sz,
                num_in_streams = ins, num_out_streams = outs, properties = props\<rparr>))))"

definition read_bind_pair :: "(error, bind_pair) parser" where
  "read_bind_pair =
     and_read hdr_u64 (\<lambda>i. and_read hdr_u64 (\<lambda>j. ret \<lparr>in_index = i, out_index = j\<rparr>))"

definition read_block :: "(error, block) parser" where
  "read_block =
     and_read (read_variable_usize ''num coders'') (\<lambda>num_coders.
     and_read (read_times read_coder num_coders) (\<lambda>cs.
     and_read (lift_outcome (assert_usize (sum_list (map num_in_streams cs)) ''totalInStreams'')) (\<lambda>total_in.
     and_read (lift_outcome (assert_usize (sum_list (map num_out_streams cs)) ''totalOutStreams'')) (\<lambda>total_out.
     if total_out = 0 then fail (Other ''Total output streams can't be 0'')
     else let num_bind_pairs = total_out - 1 in
     and_read (read_times read_bind_pair num_bind_pairs) (\<lambda>bps.
     let b = block_default\<lparr>coders := cs, total_input_streams := total_in,
               total_output_streams := total_out, bind_pairs := bps\<rparr> in
     if total_in < num_bind_pairs
     then fail (Other ''Total input streams can't be less than the number of bind pairs'')
     else let num_packed_streams = total_in - num_bind_pairs in
     if num_packed_streams = 1 then
       (case find (\<lambda>i. find_bind_pair_for_in_stream b (of_nat i) = None) [0..<total_in] of
          None \<Rightarrow> fail (Other ''Couldn't find stream's bind pair index'')
        | Some i \<Rightarrow>
            if (of_nat i :: u64) = -1 then fail (Other ''Couldn't find stream's bind pair index'')
            else ret (b\<lparr>packed_streams := [of_nat i]\<rparr>))
     else
       and_read (read_times hdr_u64 num_packed_streams) (\<lambda>packed.
       ret (b\<lparr>packed_streams := packed\<rparr>)))))))"

definition read_unpack_sizes :: "block \<Rightarrow> (error, block) parser" where
  "read_unpack_sizes b =
     and_read (read_times hdr_u64 (total_output_streams b)) (\<lambda>sizes.
     ret (b\<lparr>unpack_sizes := unpack_sizes b @ sizes\<rparr>))"

definition read_block_crc :: "bit_set \<Rightarrow> nat \<Rightarrow> block list \<Rightarrow> (error, block list) parser" where
  "read_block_crc defined i bs =
     (if bs_contains defined i then
        and_read (lift_outcome (index bs i)) (\<lambda>b.
        and_read (lift_io read_u32) (\<lambda>c.
        ret (bs[i := b\<lparr>block_has_crc := True, block_crc := ucast c\<rparr>])))
      else
        and_read (lift_outcome (index bs i)) (\<lambda>b.
        ret (bs[i := b\<lparr>block_has_crc := False\<rparr>])))"

definition read_unpack_info :: "archive \<Rightarrow> (error, archive) parser" where
  "read_unpack_info a =
     and_read hdr_u8 (\<lambda>nid.
     if nid \<noteq> k_folder then fail (Other (''Expected kFolder, got '' @ decimal (unat nid))) else
     and_read (read_variable_usize ''num blocks'') (\<lambda>num_blocks.
     and_read hdr_u8 (\<lambda>external.
     if external \<noteq> 0 then fail ExternalUnsupported else
     and_read (read_times read_block num_blocks) (\<lambda>new.
     and_read hdr_u8 (\<lambda>nid.
     if nid \<noteq> k_coders_unpack_size
     then fail (Other (''Expected kCodersUnpackSize, got '' @ decimal (unat nid))) else
     and_read (read_enumerate (\<lambda>i b. read_unpack_sizes b) 0 (ar_blocks a @ new)) (\<lambda>bs.
     and_read hdr_u8 (\<lambda>nid.
     and_read
       (if nid = k_crc then
          and_read (lift_io (read_all_or_bits num_blocks)) (\<lambda>defined.
          and_read (read_each (read_block_crc defined) [0..<num_blocks] bs) (\<lambda>bs.
          and_read hdr_u8 (\<lambda>nid. ret (nid, bs))))
        else ret (nid, bs)) (\<lambda>(nid, bs).
     if nid \<noteq> k_end then fail BadTerminatedUnpackInfo else ret (a\<lparr>ar_blocks := bs\<rparr>)))))))))"

section \<open>Substreams\<close>

text \<open>The number of substreams of each block, and the sum in a \<open>usize\<close>.\<close>

definition read_num_sub_streams :: "block list \<Rightarrow> (error, block list) parser" where
  "read_num_sub_streams bs =
     read_enumerate (\<lambda>i b. and_read (read_variable_usize ''numStreams'') (\<lambda>n.
       ret (b\<lparr>num_unpack_sub_streams := n\<rparr>))) 0 bs"

definition usize_sum :: "usize list \<Rightarrow> usize" where
  "usize_sum xs = fold (\<lambda>x s. usize_add s x) xs 0"

text \<open>The sizes of a block's substreams; the last one is what remains of the block.\<close>

definition read_stream_size ::
    "nat \<Rightarrow> u64 list \<times> usize \<times> u64 \<Rightarrow> (error, u64 list \<times> usize \<times> u64) parser" where
  "read_stream_size _ s =
     (case s of (sizes, nxt, acc) \<Rightarrow>
        and_read hdr_u64 (\<lambda>sz.
        and_read (lift_outcome (store sizes nxt sz)) (\<lambda>sizes. ret (sizes, nxt + 1, acc + sz))))"

definition read_block_sizes ::
    "u8 \<Rightarrow> block \<Rightarrow> u64 list \<times> usize \<Rightarrow> (error, u64 list \<times> usize) parser" where
  "read_block_sizes nid b s =
     (case s of (sizes, nxt) \<Rightarrow>
        if num_unpack_sub_streams b = 0 then ret s
        else
          and_read
            (if nid = k_size
             then read_each read_stream_size [0..<num_unpack_sub_streams b - 1] (sizes, nxt, 0)
             else ret (sizes, nxt, 0)) (\<lambda>(sizes, nxt, acc).
          and_read (lift_outcome (get_unpack_size b)) (\<lambda>total.
          if total < acc then fail (Other ''sum of unpack sizes of block exceeds total unpack size'')
          else
            and_read (lift_outcome (store sizes nxt (total - acc))) (\<lambda>sizes. ret (sizes, nxt + 1)))))"

definition count_digests :: "block list \<Rightarrow> usize" where
  "count_digests bs =
     usize_sum (map (\<lambda>b. if num_unpack_sub_streams b \<noteq> 1 \<or> \<not> block_has_crc b
                          then num_unpack_sub_streams b else 0) bs)"

text \<open>The digests of a block: its own CRC, or the next ones of those that were read.\<close>

record digest_state =
  dg_has_crc :: bit_set
  dg_crcs :: "u64 list"
  dg_next :: usize
  dg_next_missing :: usize

definition take_digest :: "bit_set \<Rightarrow> u64 list \<Rightarrow> nat \<Rightarrow> digest_state \<Rightarrow> digest_state result" where
  "take_digest has_missing missing _ s =
     (let has = (if bs_contains has_missing (dg_next_missing s)
                 then snd (bs_insert (dg_has_crc s) (dg_next s))
                 else snd (bs_remove (dg_has_crc s) (dg_next s)))
      in and_then (index missing (dg_next_missing s)) (\<lambda>c.
         and_then (store (dg_crcs s) (dg_next s) c) (\<lambda>crcs.
         Ok \<lparr>dg_has_crc = has, dg_crcs = crcs, dg_next = dg_next s + 1,
              dg_next_missing = dg_next_missing s + 1\<rparr>)))"

definition block_digests :: "bit_set \<Rightarrow> u64 list \<Rightarrow> block \<Rightarrow> digest_state \<Rightarrow> digest_state result" where
  "block_digests has_missing missing b s =
     (if num_unpack_sub_streams b = 1 \<and> block_has_crc b then
        and_then (store (dg_crcs s) (dg_next s) (block_crc b)) (\<lambda>crcs.
        Ok (s\<lparr>dg_has_crc := snd (bs_insert (dg_has_crc s) (dg_next s)),
              dg_crcs := crcs, dg_next := dg_next s + 1\<rparr>))
      else for_each (take_digest has_missing missing) [0..<num_unpack_sub_streams b] s)"

definition read_sub_streams_info :: "archive \<Rightarrow> (error, archive) parser" where
  "read_sub_streams_info a =
     (let bs = map (\<lambda>b. b\<lparr>num_unpack_sub_streams := 1\<rparr>) (ar_blocks a) in
     and_read hdr_u8 (\<lambda>nid.
     and_read
       (if nid = k_num_unpack_stream then
          and_read (read_num_sub_streams bs) (\<lambda>bs.
          and_read hdr_u8 (\<lambda>nid. ret (nid, bs, usize_sum (map num_unpack_sub_streams bs))))
        else ret (nid, bs, length bs)) (\<lambda>(nid, bs, total).
     let has_crc = bs_reserve_len_exact bs_new total in
     and_read (read_each (read_block_sizes nid) bs (replicate total 0, 0)) (\<lambda>(sizes, _).
     and_read (if nid = k_size then hdr_u8 else ret nid) (\<lambda>nid.
     let num_digests = count_digests bs in
     and_read
       (if nid = k_crc then
          and_read (lift_io (read_all_or_bits num_digests)) (\<lambda>has_missing.
          and_read (read_defined_crcs has_missing num_digests) (\<lambda>missing.
          and_read (lift_outcome (for_each (block_digests has_missing missing) bs
              \<lparr>dg_has_crc = has_crc, dg_crcs = replicate total 0, dg_next = 0, dg_next_missing = 0\<rparr>)) (\<lambda>s.
          and_read hdr_u8 (\<lambda>nid. ret (nid, dg_has_crc s, dg_crcs s)))))
        else ret (nid, has_crc, replicate total 0)) (\<lambda>(nid, has_crc, crcs).
     if nid \<noteq> k_end then fail BadTerminatedSubStreamsInfo
     else ret (a\<lparr>ar_blocks := bs,
                 sub_streams := Some \<lparr>ss_unpack_sizes = sizes, ss_has_crc = has_crc, ss_crcs = crcs\<rparr>\<rparr>)))))))"

definition read_streams_info :: "archive \<Rightarrow> (error, archive) parser" where
  "read_streams_info a =
     and_read hdr_u8 (\<lambda>nid.
     and_read
       (if nid = k_pack_info
        then and_read (read_pack_info a) (\<lambda>a. and_read hdr_u8 (\<lambda>nid. ret (nid, a)))
        else ret (nid, a)) (\<lambda>(nid, a).
     and_read
       (if nid = k_unpack_info
        then and_read (read_unpack_info a) (\<lambda>a. and_read hdr_u8 (\<lambda>nid. ret (nid, a)))
        else ret (nid, a\<lparr>ar_blocks := []\<rparr>)) (\<lambda>(nid, a).
     and_read
       (if nid = k_sub_streams_info
        then and_read (read_sub_streams_info a) (\<lambda>a. and_read hdr_u8 (\<lambda>nid. ret (nid, a)))
        else ret (nid, a)) (\<lambda>(nid, a).
     if nid \<noteq> k_end then fail (BadTerminatedStreamsInfo nid) else ret a))))"

section \<open>Files info\<close>

record files_props =
  fp_files :: "archive_entry list"
  fp_empty_stream :: "bit_set option"
  fp_empty_file :: "bit_set option"
  fp_anti :: "bit_set option"

text \<open>The loop over \<open>NamesReader\<close>: the result counts the names. A name beyond the last file
  is a vector access out of range.\<close>

fun read_names :: "usize \<Rightarrow> usize \<Rightarrow> archive_entry list \<Rightarrow> (error, archive_entry list \<times> usize) parser" where
  "read_names max_bytes read_bytes [] =
     and_read (names_next max_bytes read_bytes) (\<lambda>r.
       case r of None \<Rightarrow> ret ([], 0) | Some _ \<Rightarrow> panic)"
| "read_names max_bytes read_bytes (f # fs) =
     and_read (names_next max_bytes read_bytes) (\<lambda>r.
       case r of
         None \<Rightarrow> ret (f # fs, 0)
       | Some (s, read_bytes') \<Rightarrow>
           and_read (read_names max_bytes read_bytes' fs) (\<lambda>(fs', n). ret (f\<lparr>name := s\<rparr> # fs', n + 1)))"

text \<open>The times, attributes and positions: flags, the byte \<open>external\<close>, and a value for each
  flagged file.\<close>

definition read_file_values ::
    "string \<Rightarrow> (bool \<Rightarrow> archive_entry \<Rightarrow> archive_entry) \<Rightarrow> (archive_entry \<Rightarrow> (error, archive_entry) parser) \<Rightarrow>
     archive_entry list \<Rightarrow> (error, archive_entry list) parser" where
  "read_file_values label set_has read_val files =
     and_read (lift_io (read_all_or_bits (length files))) (\<lambda>defined.
     and_read hdr_u8 (\<lambda>external.
     if external \<noteq> 0
     then fail (Other (label @ '' Unimplemented:external='' @ decimal (unat external)))
     else read_enumerate (\<lambda>i file.
            let file = set_has (bs_contains defined i) file in
            if bs_contains defined i then read_val file else ret file) 0 files))"

definition read_file_property :: "u8 \<Rightarrow> u64 \<Rightarrow> files_props \<Rightarrow> (error, files_props) parser" where
  "read_file_property prop_type sz p =
    (let n = length (fp_files p);
         set_files = (\<lambda>fs. ret (p\<lparr>fp_files := fs\<rparr>));
         no_empty_stream = fail (Other ''Header format error: kEmptyStream must appear before kEmptyFile'')
     in
     if prop_type = k_empty_stream then
       and_read (lift_io (read_bits n)) (\<lambda>s. ret (p\<lparr>fp_empty_stream := Some s\<rparr>))
     else if prop_type = k_empty_file then
       (case fp_empty_stream p of
          None \<Rightarrow> no_empty_stream
        | Some s \<Rightarrow> and_read (lift_io (read_bits (bs_len s))) (\<lambda>t. ret (p\<lparr>fp_empty_file := Some t\<rparr>)))
     else if prop_type = k_anti then
       (case fp_empty_stream p of
          None \<Rightarrow> no_empty_stream
        | Some s \<Rightarrow> and_read (lift_io (read_bits (bs_len s))) (\<lambda>t. ret (p\<lparr>fp_anti := Some t\<rparr>)))
     else if prop_type = k_name then
       and_read hdr_u8 (\<lambda>external.
       if external \<noteq> 0 then fail (Other ''Not implemented:external != 0'')
       else if (sz - 1) AND 1 \<noteq> 0 then fail (Other ''file names length invalid'')
       else
         and_read (lift_outcome (assert_usize sz ''file names length'')) (\<lambda>sz.
         and_read (read_names (sz - 1) 0 (fp_files p)) (\<lambda>(fs, next_file).
         if next_file \<noteq> n then fail (Other ''Error parsing file names'') else set_files fs)))
     else if prop_type = k_c_time then
       and_read (read_file_values ''kCTime'' (\<lambda>h f. f\<lparr>has_creation_date := h\<rparr>)
         (\<lambda>f. and_read (lift_io read_u64) (\<lambda>t. ret (f\<lparr>creation_date := t\<rparr>))) (fp_files p)) set_files
     else if prop_type = k_a_time then
       and_read (read_file_values ''kATime'' (\<lambda>h f. f\<lparr>has_access_date := h\<rparr>)
         (\<lambda>f. and_read (lift_io read_u64) (\<lambda>t. ret (f\<lparr>access_date := t\<rparr>))) (fp_files p)) set_files
     else if prop_type = k_m_time then
       and_read (read_file_values ''kMTime'' (\<lambda>h f. f\<lparr>has_last_modified_date := h\<rparr>)
         (\<lambda>f. and_read (lift_io read_u64) (\<lambda>t. ret (f\<lparr>last_modified_date := t\<rparr>))) (fp_files p)) set_files
     else if prop_type = k_win_attributes then
       and_read (read_file_values ''kWinAttributes'' (\<lambda>h f. f\<lparr>has_windows_attributes := h\<rparr>)
         (\<lambda>f. and_read (lift_io read_u32) (\<lambda>t. ret (f\<lparr>windows_attributes := t\<rparr>))) (fp_files p)) set_files
     else if prop_type = k_start_pos then
       and_read (read_file_values ''kStartPos'' (\<lambda>h f. f\<lparr>has_start_pos := h\<rparr>)
         (\<lambda>f. and_read (lift_io read_u64) (\<lambda>t. ret (f\<lparr>start_pos := t\<rparr>))) (fp_files p)) set_files
     else and_read (lift_io (seek_current sz)) (\<lambda>_. ret p))"

fun read_file_properties :: "nat \<Rightarrow> files_props \<Rightarrow> (error, files_props) parser" where
  "read_file_properties 0 p = (\<lambda>c. OutOfFuel)"
| "read_file_properties (Suc fuel) p =
     and_read hdr_u8 (\<lambda>prop_type.
     if prop_type = 0 then ret p
     else
       and_read hdr_u64 (\<lambda>sz.
       and_read (read_file_property prop_type sz p) (\<lambda>p. read_file_properties fuel p)))"

text \<open>The last loop gives every file its stream, or makes it a directory or an empty file.\<close>

fun assign_streams ::
    "files_props \<Rightarrow> sub_streams_info option \<Rightarrow> usize \<Rightarrow> usize \<Rightarrow> usize \<Rightarrow> archive_entry list \<Rightarrow> archive_entry list result" where
  "assign_streams p info i non_empty_counter empty_counter [] = Ok []"
| "assign_streams p info i non_empty_counter empty_counter (file # files) =
     (let has = (case fp_empty_stream p of None \<Rightarrow> True | Some s \<Rightarrow> \<not> bs_contains s i);
          file = file\<lparr>has_stream := has\<rparr> in
      if has then
        (case info of
           None \<Rightarrow> Err (Other ''Archive contains file with streams but no subStreamsInfo'')
         | Some si \<Rightarrow>
             and_then (index (ss_crcs si) non_empty_counter) (\<lambda>c.
             and_then (index (ss_unpack_sizes si) non_empty_counter) (\<lambda>sz.
             and_then (assign_streams p info (i + 1) (non_empty_counter + 1) empty_counter files) (\<lambda>files.
             Ok (file\<lparr>is_directory := False, is_anti_item := False,
                   has_crc := bs_contains (ss_has_crc si) non_empty_counter,
                   crc := c, entry_size := sz\<rparr> # files)))))
      else
        and_then (assign_streams p info (i + 1) non_empty_counter (empty_counter + 1) files) (\<lambda>files.
        Ok (file\<lparr>
              is_directory := (case fp_empty_file p of None \<Rightarrow> True | Some s \<Rightarrow> \<not> bs_contains s empty_counter),
              is_anti_item := (case fp_anti p of None \<Rightarrow> False | Some s \<Rightarrow> bs_contains s empty_counter),
              has_crc := False, entry_size := 0\<rparr> # files)))"

definition read_files_info :: "nat \<Rightarrow> archive \<Rightarrow> (error, archive) parser" where
  "read_files_info fuel a =
     and_read (read_variable_usize ''num files'') (\<lambda>num_files.
     and_read (read_file_properties fuel
        \<lparr>fp_files = replicate num_files entry_default, fp_empty_stream = None,
         fp_empty_file = None, fp_anti = None\<rparr>) (\<lambda>p.
     and_read (lift_outcome (assign_streams p (sub_streams a) 0 0 0 (fp_files p))) (\<lambda>files.
     lift_outcome (calculate_stream_map (a\<lparr>ar_files := files\<rparr>)))))"

section \<open>The header\<close>

text \<open>\<open>chunks_exact(2)\<close>, each read as a little-endian \<open>u16\<close>.\<close>

fun u16_chunks :: "bytes \<Rightarrow> u16 list" where
  "u16_chunks (a # b # bs) = from_le_bytes [a, b] # u16_chunks bs"
| "u16_chunks bs = []"

fun read_archive_properties :: "nat \<Rightarrow> archive \<Rightarrow> (error, archive) parser" where
  "read_archive_properties 0 a = (\<lambda>c. OutOfFuel)"
| "read_archive_properties (Suc fuel) a =
     and_read hdr_u8 (\<lambda>nid.
     if nid = k_end then ret a
     else
       and_read (read_variable_usize ''propertySize'') (\<lambda>property_size.
       if nid = k_comment then
         and_read (lift_io (read_exact property_size)) (\<lambda>bytes.
         read_archive_properties fuel
           (if 2 \<le> length bytes then
              (case from_utf16 (takeWhile (\<lambda>c. c \<noteq> 0) (u16_chunks bytes)) of
                 Some s \<Rightarrow> a\<lparr>comment := Some s\<rparr>
               | None \<Rightarrow> a)
            else a))
       else
         and_read (lift_io (seek_current (of_nat property_size))) (\<lambda>_.
         read_archive_properties fuel a)))"

definition read_header :: "nat \<Rightarrow> archive \<Rightarrow> (error, archive) parser" where
  "read_header fuel a =
     and_read hdr_u8 (\<lambda>nid.
     and_read
       (if nid = k_archive_properties
        then and_read (read_archive_properties fuel a) (\<lambda>a. and_read hdr_u8 (\<lambda>nid. ret (nid, a)))
        else ret (nid, a)) (\<lambda>(nid, a).
     if nid = k_additional_streams_info then fail (Other ''Additional streams unsupported'') else
     and_read
       (if nid = k_main_streams_info
        then and_read (read_streams_info a) (\<lambda>a. and_read hdr_u8 (\<lambda>nid. ret (nid, a)))
        else ret (nid, a)) (\<lambda>(nid, a).
     and_read
       (if nid = k_files_info
        then and_read (read_files_info fuel a) (\<lambda>a. and_read hdr_u8 (\<lambda>nid. ret (nid, a)))
        else ret (nid, a)) (\<lambda>(nid, a).
     if nid \<noteq> k_end then fail (BadTerminatedHeader nid) else ret a))))"

end
