(* ===== verification/Archive_Opener.thy ===== *)
theory Archive_Opener
  imports Decoder_Chain Header_Reader Readers
begin

text \<open>
  Opening an archive: \<open>Archive::read\<close> of \<^verbatim>\<open>src/src/reader.rs\<close> with the start header, the
  encoded header and the search for a header when the start header is empty. The file is in
  memory, a \<open>std::io::Cursor\<close>, and the functions are parsers of it. The fuel bounds the
  properties of a header and the coders of its block.
\<close>

section \<open>The file\<close>

definition seek_start :: "u64 \<Rightarrow> (error, unit) parser" where
  "seek_start p f = Ok ((), f\<lparr>cur_pos := unat p\<rparr>)"

definition stream_position :: "(error, u64) parser" where
  "stream_position f = Ok (of_nat (cur_pos f), f)"

definition max_mem_limit_kb :: usize where
  "max_mem_limit_kb = usize_max div 1024"

section \<open>Decoding a block\<close>

text \<open>The loop over the coders of a block: each decoder reads from the one before.\<close>

fun add_decoders ::
    "'d decoder_libs \<Rightarrow> libs \<Rightarrow> 's reading \<Rightarrow> password \<Rightarrow> u32 \<Rightarrow> nat \<Rightarrow> block \<Rightarrow> u64 option \<Rightarrow> ('d, 's) decoders \<Rightarrow>
     ('d, 's) decoders result" where
  "add_decoders D L read pw threads 0 b current x = OutOfFuel"
| "add_decoders D L read pw threads (Suc fuel) b current x =
     (case coder_iter_next b current of
        (None, _) \<Rightarrow> Ok x
      | (Some (i, c), next) \<Rightarrow>
          if num_in_streams c \<noteq> 1 \<or> num_out_streams c \<noteq> 1 then
            Err (Other ''Multi input/output stream coders are not yet supported'')
          else
            and_then (stack_add_decoder D L read x (unat (get_unpack_size_at_index b i)) c pw max_mem_limit_kb threads)
              (add_decoders D L read pw threads fuel b next))"

text \<open>The decoders of a block, checked when the block has a CRC.\<close>

type_synonym ('d, 's) block_reader = "('d, 's) decoders + ('d, 's) decoders crc_reader"

definition block_reader_read ::
    "(bytes \<Rightarrow> u32) \<Rightarrow> 'd decoder_libs \<Rightarrow> 's reading \<Rightarrow> nat \<Rightarrow> ('d, 's) block_reader reading" where
  "block_reader_read crc32 D read depth r n =
     (case r of
        Inl x \<Rightarrow> and_then (stack_read D read depth x n) (\<lambda>(bs, x). Ok (bs, Inl x))
      | Inr x \<Rightarrow> and_then (crc_read crc32 (stack_read D read depth) x n) (\<lambda>(bs, x). Ok (bs, Inr x)))"

definition block_reader_depth :: "('d, 's) block_reader \<Rightarrow> nat" where
  "block_reader_depth r = (case r of Inl x \<Rightarrow> length (fst x) | Inr x \<Rightarrow> length (fst (cr_inner x)))"

section \<open>The encoded header\<close>

definition block_of_header ::
    "'d decoder_libs \<Rightarrow> libs \<Rightarrow> nat \<Rightarrow> password \<Rightarrow> u32 \<Rightarrow> archive \<Rightarrow> cursor \<Rightarrow>
     (('d, cursor bounded_reader) block_reader \<times> usize) result" where
  "block_of_header D L fuel pw threads a f =
     (case ar_blocks a of
        [] \<Rightarrow> Err (Other ''no blocks, can't read encoded header'')
      | b # _ \<Rightarrow>
          let block_offset = of_nat signature_header_size + pack_pos a in
          if pack_sizes a = [] then Err (Other ''no packed streams, can't read encoded header'')
          else
            and_then (seek_start block_offset f) (\<lambda>(_, f).
            and_then (get_unpack_size b) (\<lambda>unpack_size.
            let unpack_size = unat unpack_size; pack_size = unat (hd (pack_sizes a));
                x = ([], bounded_new f pack_size) in
            and_then
              (if 0 < length (coders b)
               then add_decoders D L (bounded_read file_read) pw threads fuel b (coder_iter_new b) x
               else Ok x) (\<lambda>x.
            Ok (if block_has_crc b then Inr (crc_reader_new x unpack_size (block_crc b)) else Inl x, unpack_size)))))"

definition read_encoded_header ::
    "'d decoder_libs \<Rightarrow> libs \<Rightarrow> nat \<Rightarrow> password \<Rightarrow> u32 \<Rightarrow> cursor \<Rightarrow>
     (error, ('d, cursor bounded_reader) block_reader \<times> usize) parser" where
  "read_encoded_header D L fuel pw threads f =
     and_read (read_streams_info archive_default) (\<lambda>a. lift_outcome (block_of_header D L fuel pw threads a f))"

section \<open>The header behind the start header\<close>

text \<open>The cursor of the header begins behind its first byte.\<close>

definition header_archive :: "nat \<Rightarrow> u8 \<times> cursor \<Rightarrow> archive result" where
  "header_archive fuel nh =
     (case nh of (nid, header) \<Rightarrow>
        if nid = k_header then
          and_then (read_header fuel archive_default (cursor_at [] (drop (cur_pos header) (cur_data header)))) (\<lambda>(a, _).
          Ok (a\<lparr>is_solid := list_ex (\<lambda>b. 1 < num_unpack_sub_streams b) (ar_blocks a)\<rparr>))
        else Err (Other ''Broken or unsupported archive: no Header''))"

text \<open>What \<open>init_archive\<close> does with the bytes behind the start header.\<close>

definition open_header ::
    "(bytes \<Rightarrow> u32) \<Rightarrow> 'd decoder_libs \<Rightarrow> libs \<Rightarrow> nat \<Rightarrow> password \<Rightarrow> u32 \<Rightarrow> bytes \<Rightarrow> (error, archive) parser" where
  "open_header crc32 D L fuel pw threads buf f =
     and_then (hdr_u8 (cursor_at [] buf)) (\<lambda>(nid, header).
     and_then
       (if nid = k_encoded_header then
          and_then (read_encoded_header D L fuel pw threads f header) (\<lambda>((r, buf_size), _).
          if 2 ^ 63 \<le> buf_size then Panic
          else and_then (map_err (\<lambda>e. bad_password e (\<not> password_is_empty pw))
            (read_exact_from (block_reader_read crc32 D (bounded_read file_read) (block_reader_depth r)) buf_size r))
            (\<lambda>(buf, _). hdr_u8 (cursor_at [] buf)))
        else Ok (nid, header)) (\<lambda>nh.
     and_then (header_archive fuel nh) (\<lambda>a. Ok (a, f))))"

definition init_archive ::
    "(bytes \<Rightarrow> u32) \<Rightarrow> 'd decoder_libs \<Rightarrow> libs \<Rightarrow> nat \<Rightarrow> start_header \<Rightarrow> password \<Rightarrow> bool \<Rightarrow> u32 \<Rightarrow> (error, archive) parser" where
  "init_archive crc32 D L fuel sh pw verify_crc threads =
     and_read (seek_start (of_nat signature_header_size + next_header_offset sh)) (\<lambda>_.
     if 2 ^ 63 \<le> unat (next_header_size sh) then panic
     else
       and_read (lift_io (read_exact (unat (next_header_size sh)))) (\<lambda>buf.
       if verify_crc \<and> ucast (crc32 buf) \<noteq> next_header_crc sh then fail NextHeaderCrcMismatch
       else open_header crc32 D L fuel pw threads buf))"

section \<open>The start header\<close>

definition read_start_header :: "(bytes \<Rightarrow> u32) \<Rightarrow> u32 \<Rightarrow> (error, start_header) parser" where
  "read_start_header crc32 start_header_crc =
     and_read (lift_io (read_exact 20)) (\<lambda>buf.
     if crc32 buf \<noteq> start_header_crc then fail ChecksumVerificationFailed
     else ret \<lparr>next_header_offset = from_le_bytes (take 8 buf),
               next_header_size = from_le_bytes (take 8 (drop 8 buf)),
               next_header_crc = ucast (from_le_bytes (take 4 (drop 16 buf)) :: u32)\<rparr>)"

text \<open>Without a start header the file is searched from its end for a byte that may begin a
  header. An error in what follows such a byte ends the search.\<close>

function locate_end_header ::
    "(bytes \<Rightarrow> u32) \<Rightarrow> 'd decoder_libs \<Rightarrow> libs \<Rightarrow> nat \<Rightarrow> password \<Rightarrow> u32 \<Rightarrow> u64 \<Rightarrow> nat \<Rightarrow> nat \<Rightarrow> nat \<Rightarrow> (error, archive) parser" where
  "locate_end_header crc32 D L fuel pw threads prev_data_size reader_len min_pos pos =
     (if pos \<le> min_pos then fail (Other ''Start header corrupt and unable to guess end header'')
      else
        let pos = pos - 1 in
        and_read (seek_start (of_nat pos)) (\<lambda>_.
        and_read (lift_io read_u8) (\<lambda>nid.
        if nid = k_encoded_header \<or> nid = k_header then
          and_read (init_archive crc32 D L fuel
            \<lparr>next_header_offset = of_nat pos - prev_data_size, next_header_size = of_nat (reader_len - pos), next_header_crc = 0\<rparr>
            pw False threads) (\<lambda>a.
          if ar_files a \<noteq> [] then ret a
          else locate_end_header crc32 D L fuel pw threads prev_data_size reader_len min_pos pos)
        else locate_end_header crc32 D L fuel pw threads prev_data_size reader_len min_pos pos)))"
  by pat_completeness auto
termination
  by (relation "measure (\<lambda>(crc32, D, L, fuel, pw, threads, p, n, min_pos, pos). pos)") auto

declare locate_end_header.simps [simp del]

definition try_to_locale_end_header ::
    "(bytes \<Rightarrow> u32) \<Rightarrow> 'd decoder_libs \<Rightarrow> libs \<Rightarrow> nat \<Rightarrow> nat \<Rightarrow> password \<Rightarrow> u32 \<Rightarrow> (error, archive) parser" where
  "try_to_locale_end_header crc32 D L fuel reader_len pw threads =
     and_read stream_position (\<lambda>p.
     let search_limit = 1024 * 1024;
         min_pos = (if reader_len < unat p + search_limit then unat p else reader_len - search_limit) in
     locate_end_header crc32 D L fuel pw threads (p + 20) reader_len min_pos (reader_len - 1))"

definition archive_read_file ::
    "(bytes \<Rightarrow> u32) \<Rightarrow> 'd decoder_libs \<Rightarrow> libs \<Rightarrow> nat \<Rightarrow> password \<Rightarrow> (error, archive) parser" where
  "archive_read_file crc32 D L fuel pw f =
     (let reader_len = length (cur_data f) in
      and_read (seek_start 0) (\<lambda>_.
      and_read (lift_io (read_exact 6)) (\<lambda>signature.
      if signature \<noteq> seven_z_signature then fail (BadSignature signature)
      else
        and_read (lift_io (read_exact 2)) (\<lambda>versions.
        if versions ! 0 \<noteq> 0 then fail (UnsupportedVersion (versions ! 0) (versions ! 1))
        else
          and_read (lift_io read_u32) (\<lambda>start_header_crc.
          and_read
            (if start_header_crc = 0 then
               and_read stream_position (\<lambda>current_position.
               and_read (lift_io (read_exact 20)) (\<lambda>buf.
               and_read (seek_start current_position) (\<lambda>_.
               ret (list_ex (\<lambda>a. a \<noteq> 0) buf))))
             else ret True) (\<lambda>header_valid.
          if header_valid then
            and_read (read_start_header crc32 start_header_crc) (\<lambda>sh. init_archive crc32 D L fuel sh pw True 1)
          else try_to_locale_end_header crc32 D L fuel reader_len pw 1))))) f)"

end
