(* ===== verification/Decoder_Stack.thy ===== *)
theory Decoder_Stack
  imports Archive_Opener
begin

text \<open>
  What the decoders promise: a stack of decoders over a reader is a reader, and its contents are
  the decoding of the contents below (\<open>stack_out\<close>). Of the decoders of other crates this relies
  on \<open>valid_decoder\<close>: whatever portions their input comes in, they give out the bytes that
  \<open>out\<close> says. AES is decoded directly on the packed stream, which comes in whole blocks.
\<close>

section \<open>Decoders of other crates\<close>

text \<open>The answers of a call when its reads deliver the bytes of \<open>c\<close> in some portions; the last
  argument is what remains of them.\<close>

inductive answers :: "'a asking \<Rightarrow> bytes \<Rightarrow> 'a \<Rightarrow> bytes \<Rightarrow> bool" where
  answers_now: "answers (Answer a) c a c"
| answers_ask: "length bs \<le> n \<Longrightarrow> (bs = [] \<Longrightarrow> 0 < n \<Longrightarrow> c = []) \<Longrightarrow> answers (f bs) c a c' \<Longrightarrow>
     answers (Ask n f) (bs @ c) a c'"

inductive_cases answers_AnswerE: "answers (Answer a) c b c'"

context byte_source
begin

lemma run_asking_answers:
  "ready s \<Longrightarrow> \<exists>a s'. run_asking read t s = Ok (a, s') \<and> ready s' \<and> answers t (contents s) a (contents s')"
proof (induction t arbitrary: s)
  case (Answer a)
  then show ?case by (auto intro: answers_now)
next
  case (Ask n f)
  obtain bs s1 where rd: "read s n = Ok (bs, s1)" using total Ask.prems by blast
  note nb = next_bytes [OF Ask.prems rd]
  obtain a s' where run: "run_asking read (f bs) s1 = Ok (a, s')" "ready s'" "answers (f bs) (contents s1) a (contents s')"
    using Ask.IH [of "f bs" s1] nb by blast
  have "answers (Ask n f) (bs @ contents s1) a (contents s')"
    by (rule answers_ask) (use nb run(3) end_only [OF Ask.prems] rd in auto)
  with rd run nb show ?case by auto
qed

end

definition valid_decoder :: "'d decoder_libs \<Rightarrow> ('d \<Rightarrow> bytes \<Rightarrow> bytes) \<Rightarrow> ('d \<Rightarrow> bytes \<Rightarrow> bool) \<Rightarrow> bool" where
  "valid_decoder D out fine \<longleftrightarrow>
     (\<forall>d c n r c'. fine d c \<longrightarrow> answers (dc_read D d n) c r c' \<longrightarrow>
        (\<exists>bs d'. r = Ok (bs, d') \<and> fine d' c' \<and> out d c = bs @ out d' c' \<and> length bs \<le> n
           \<and> (bs = [] \<longrightarrow> 0 < n \<longrightarrow> out d c = [])))"

lemma valid_decoderD:
  assumes "valid_decoder D out fine" and "fine d c" and "answers (dc_read D d n) c r c'"
  shows "\<exists>bs d'. r = Ok (bs, d') \<and> fine d' c' \<and> out d c = bs @ out d' c' \<and> length bs \<le> n
     \<and> (bs = [] \<longrightarrow> 0 < n \<longrightarrow> out d c = [])"
  using assms(1) [unfolded valid_decoder_def, rule_format, OF assms(2,3)] .

context byte_source
begin

lemma dc_call_source:
  assumes "valid_decoder D out fine"
  shows "byte_source (dc_call D read) (\<lambda>x. out (fst x) (contents (snd x))) (\<lambda>x. ready (snd x) \<and> fine (fst x) (contents (snd x)))"
proof (rule byte_sourceI)
  fix x n assume x: "ready (snd x) \<and> fine (fst x) (contents (snd x))"
  from run_asking_answers [OF conjunct1 [OF x], of "dc_read D (fst x) n"] obtain r s' where
    run: "run_asking read (dc_read D (fst x) n) (snd x) = Ok (r, s')" "ready s'"
      "answers (dc_read D (fst x) n) (contents (snd x)) r (contents s')"
    by blast
  from x have "fine (fst x) (contents (snd x))" by blast
  from valid_decoderD [OF assms this run(3)] obtain bs d' where "r = Ok (bs, d')" "fine d' (contents s')"
    "out (fst x) (contents (snd x)) = bs @ out d' (contents s')" "length bs \<le> n"
    "bs = [] \<longrightarrow> 0 < n \<longrightarrow> out (fst x) (contents (snd x)) = []"
    by blast
  with run show "\<exists>bs s'. dc_call D read x n = Ok (bs, s') \<and> (ready (snd s') \<and> fine (fst s') (contents (snd s')))
      \<and> out (fst x) (contents (snd x)) = bs @ out (fst s') (contents (snd s')) \<and> length bs \<le> n
      \<and> (bs = [] \<longrightarrow> 0 < n \<longrightarrow> out (fst x) (contents (snd x)) = [])"
    by (auto simp: dc_call_def)
qed

end

section \<open>One decoder\<close>

definition aes_out :: "cbc \<Rightarrow> unit aes_decoder \<Rightarrow> bytes \<Rightarrow> bytes" where
  "aes_out cbc a c = aes_contents cbc (\<lambda>c. c) (aes_with_input a c)"

lemma aes_out_contents: "aes_contents cbc contents (aes_with_input a s) = aes_out cbc a (contents s)"
  by (simp add: aes_contents_def aes_out_def aes_with_input_def)

fun decoder_out :: "'d decoder_libs \<Rightarrow> ('d \<Rightarrow> bytes \<Rightarrow> bytes) \<Rightarrow> 'd decoder \<Rightarrow> bytes \<Rightarrow> bytes" where
  "decoder_out D out Copy_decoder c = c"
| "decoder_out D out (Swap2_decoder p) c = swap2_contents (\<lambda>c. c) \<lparr>s2r_inner = c, s2r_pending = p\<rparr>"
| "decoder_out D out (Aes_decoder a) c = aes_out (dc_cbc D) a c"
| "decoder_out D out (Lzma_decoder d) c = out d c"
| "decoder_out D out (Lzma2_decoder d) c = out d c"
| "decoder_out D out (Lzma2_mt_decoder d) c = out d c"
| "decoder_out D out (Ppmd_decoder d) c = out d c"
| "decoder_out D out (Bcj_decoder d) c = out d c"
| "decoder_out D out (Delta_decoder d) c = out d c"
| "decoder_out D out (Bzip2_decoder d) c = out d c"
| "decoder_out D out (Deflate_decoder d) c = out d c"
| "decoder_out D out (Deflate64_decoder d) c = out d c"
| "decoder_out D out (Zstd_decoder d) c = out d c"
| "decoder_out D out (Swap4_decoder p) c = []"
| "decoder_out D out (Brotli_decoder f) c = []"
| "decoder_out D out (Lz4_decoder f) c = []"

fun decoder_fine :: "('d \<Rightarrow> bytes \<Rightarrow> bool) \<Rightarrow> 'd decoder \<Rightarrow> bytes \<Rightarrow> bool" where
  "decoder_fine fine Copy_decoder c = True"
| "decoder_fine fine (Swap2_decoder p) c = True"
| "decoder_fine fine (Lzma_decoder d) c = fine d c"
| "decoder_fine fine (Lzma2_decoder d) c = fine d c"
| "decoder_fine fine (Lzma2_mt_decoder d) c = fine d c"
| "decoder_fine fine (Ppmd_decoder d) c = fine d c"
| "decoder_fine fine (Bcj_decoder d) c = fine d c"
| "decoder_fine fine (Delta_decoder d) c = fine d c"
| "decoder_fine fine (Bzip2_decoder d) c = fine d c"
| "decoder_fine fine (Deflate_decoder d) c = fine d c"
| "decoder_fine fine (Deflate64_decoder d) c = fine d c"
| "decoder_fine fine (Zstd_decoder d) c = fine d c"
| "decoder_fine fine (Swap4_decoder p) c = False"
| "decoder_fine fine (Brotli_decoder f) c = False"
| "decoder_fine fine (Lz4_decoder f) c = False"
| "decoder_fine fine (Aes_decoder a) c = False"

text \<open>What one read of a good reader does.\<close>

definition reads_on :: "(bytes \<times> 'x) io_result \<Rightarrow> nat \<Rightarrow> bytes \<Rightarrow> ('x \<Rightarrow> bytes) \<Rightarrow> ('x \<Rightarrow> bool) \<Rightarrow> bool" where
  "reads_on r n c contents ready \<longleftrightarrow>
     (\<exists>bs x. r = Ok (bs, x) \<and> ready x \<and> c = bs @ contents x \<and> length bs \<le> n \<and> (bs = [] \<longrightarrow> 0 < n \<longrightarrow> c = []))"

lemma byte_source_reads_on:
  "byte_source read contents ready \<longleftrightarrow> (\<forall>s n. ready s \<longrightarrow> reads_on (read s n) n (contents s) contents ready)"
proof
  assume src: "byte_source read contents ready"
  show "\<forall>s n. ready s \<longrightarrow> reads_on (read s n) n (contents s) contents ready"
  proof (intro allI impI)
    fix s n assume s: "ready s"
    from byte_source.total [OF src s] obtain bs s' where rd: "read s n = Ok (bs, s')" by blast
    with byte_source.next_bytes [OF src s rd] byte_source.end_only [OF src s, of n s']
    show "reads_on (read s n) n (contents s) contents ready" by (auto simp: reads_on_def)
  qed
next
  assume "\<forall>s n. ready s \<longrightarrow> reads_on (read s n) n (contents s) contents ready"
  then show "byte_source read contents ready" by (intro byte_sourceI) (auto simp: reads_on_def)
qed

lemma reads_on_map:
  assumes "reads_on r n c contents ready" and "\<And>x. ready x \<Longrightarrow> ready' (f x) \<and> contents' (f x) = contents x"
  shows "reads_on (and_then r (\<lambda>(bs, x). Ok (bs, f x))) n c contents' ready'"
  using assms by (auto simp: reads_on_def)

context byte_source
begin

lemma reads: "ready s \<Longrightarrow> reads_on (read s n) n (contents s) contents ready"
  using byte_source_axioms by (simp add: byte_source_reads_on)

lemma crate_decoder_reads:
  assumes "valid_decoder D out fine" and "ready s" and "fine d (contents s)"
    and "\<And>d c. decoder_out D out (variant d) c = out d c" "\<And>d c. decoder_fine fine (variant d) c = fine d c"
  shows "reads_on (and_then (dc_call D read (d, s) n) (\<lambda>(bs, d, s). Ok (bs, variant d, s))) n (out d (contents s))
     (\<lambda>(dec, s). decoder_out D out dec (contents s)) (\<lambda>(dec, s). ready s \<and> decoder_fine fine dec (contents s))"
proof -
  have "reads_on (dc_call D read (d, s) n) n (out d (contents s))
      (\<lambda>x. out (fst x) (contents (snd x))) (\<lambda>x. ready (snd x) \<and> fine (fst x) (contents (snd x)))"
    using dc_call_source [OF assms(1), unfolded byte_source_reads_on, rule_format, of "(d, s)" n] assms(2,3) by simp
  from reads_on_map [OF this, of _ "\<lambda>(d, s). (variant d, s)"] assms(4,5) show ?thesis
    by (simp add: split_def)
qed

lemma decoder_reads:
  fixes D :: "'d decoder_libs"
  assumes D: "valid_decoder D out fine" and s: "ready s" and fine: "decoder_fine fine dec (contents s)"
  shows "reads_on (decoder_read D read (dec, s) n) n (decoder_out D out dec (contents s))
     (\<lambda>(dec, s). decoder_out D out dec (contents s)) (\<lambda>(dec, s). ready s \<and> decoder_fine fine dec (contents s))"
proof (cases dec)
  case Copy_decoder
  have "reads_on (and_then (read s n) (\<lambda>(bs, s). Ok (bs, Copy_decoder :: 'd decoder, s))) n (contents s)
      (\<lambda>(dec, s). decoder_out D out dec (contents s)) (\<lambda>(dec, s). ready s \<and> decoder_fine fine dec (contents s))"
    by (rule reads_on_map [OF reads [OF s]]) simp
  with Copy_decoder show ?thesis by (simp add: decoder_read_def)
next
  case (Swap2_decoder p)
  have "reads_on (swap2_read read \<lparr>s2r_inner = s, s2r_pending = p\<rparr> n) n
      (swap2_contents contents \<lparr>s2r_inner = s, s2r_pending = p\<rparr>) (swap2_contents contents) (\<lambda>r. ready (s2r_inner r))"
    using swap2_source [unfolded byte_source_reads_on] s by simp
  then have "reads_on (and_then (swap2_read read \<lparr>s2r_inner = s, s2r_pending = p\<rparr> n)
        (\<lambda>(bs, r). Ok (bs, Swap2_decoder (s2r_pending r) :: 'd decoder, s2r_inner r))) n
      (swap2_contents contents \<lparr>s2r_inner = s, s2r_pending = p\<rparr>)
      (\<lambda>(dec, s). decoder_out D out dec (contents s)) (\<lambda>(dec, s). ready s \<and> decoder_fine fine dec (contents s))"
    by (rule reads_on_map) (simp add: swap2_contents_def)
  with Swap2_decoder show ?thesis by (simp add: decoder_read_def swap2_contents_def)
qed (use fine crate_decoder_reads [OF D s] in \<open>simp_all add: decoder_read_def Let_def\<close>)

end

section \<open>The stack\<close>

primrec stack_out :: "'d decoder_libs \<Rightarrow> ('d \<Rightarrow> bytes \<Rightarrow> bytes) \<Rightarrow> 'd decoder list \<Rightarrow> bytes \<Rightarrow> bytes" where
  "stack_out D out [] c = c"
| "stack_out D out (d # ds) c = decoder_out D out d (stack_out D out ds c)"

text \<open>AES is decoded directly on the source, and only when it comes in whole blocks.\<close>

primrec stack_ready ::
    "'d decoder_libs \<Rightarrow> ('d \<Rightarrow> bytes \<Rightarrow> bytes) \<Rightarrow> ('d \<Rightarrow> bytes \<Rightarrow> bool) \<Rightarrow> ('s \<Rightarrow> bytes) \<Rightarrow> ('s \<Rightarrow> bool) \<Rightarrow> ('s \<Rightarrow> bool) \<Rightarrow>
     'd decoder list \<Rightarrow> 's \<Rightarrow> bool" where
  "stack_ready D out fine contents ready aligned [] s = ready s"
| "stack_ready D out fine contents ready aligned (d # ds) s =
     (case d of
        Aes_decoder a \<Rightarrow> ds = [] \<and> aes_ready contents aligned (aes_with_input a s)
      | _ \<Rightarrow> decoder_fine fine d (stack_out D out ds (contents s)) \<and> stack_ready D out fine contents ready aligned ds s)"

lemma not_aes_ready:
  "decoder_fine fine d (stack_out D out ds (contents s)) \<Longrightarrow> stack_ready D out fine contents ready aligned ds s \<Longrightarrow>
   stack_ready D out fine contents ready aligned (d # ds) s"
  by (cases d) simp_all

definition block_cipher :: "cbc \<Rightarrow> bool" where
  "block_cipher cbc \<longleftrightarrow> (\<forall>key iv prev b. cbc key iv prev b \<noteq> [])"

context block_source
begin

abbreviation stack_at :: "'d decoder_libs \<Rightarrow> ('d \<Rightarrow> bytes \<Rightarrow> bytes) \<Rightarrow> ('d \<Rightarrow> bytes \<Rightarrow> bool) \<Rightarrow> nat \<Rightarrow> ('d, 'a) decoders \<Rightarrow> bool" where
  "stack_at D out fine k x \<equiv> length (fst x) = k \<and> stack_ready D out fine contents ready aligned (fst x) (snd x)"

abbreviation stack_contents :: "'d decoder_libs \<Rightarrow> ('d \<Rightarrow> bytes \<Rightarrow> bytes) \<Rightarrow> ('d, 'a) decoders \<Rightarrow> bytes" where
  "stack_contents D out x \<equiv> stack_out D out (fst x) (contents (snd x))"

lemma base_blocks:
  "block_source (stack_read D read 0) (\<lambda>x. contents (snd x)) (\<lambda>x. fst x = [] \<and> ready (snd x)) (\<lambda>x. fst x = [] \<and> aligned (snd x))"
proof (rule block_source.intro)
  show "byte_source (stack_read D read 0) (\<lambda>x. contents (snd x)) (\<lambda>x. fst x = [] \<and> ready (snd x))"
    unfolding byte_source_reads_on using reads by (auto simp: intro!: reads_on_map)
  show "block_source_axioms (stack_read D read 0) (\<lambda>x. fst x = [] \<and> ready (snd x)) (\<lambda>x. fst x = [] \<and> aligned (snd x))"
    by unfold_locales (auto simp: aligned_ready and_then_Ok_iff dest: whole_blocks)
qed

lemma aes_layer:
  fixes D :: "'d decoder_libs"
  assumes cipher: "block_cipher (dc_cbc D)" and x: "stack_at D out fine (Suc 0) ([Aes_decoder a], s)"
  shows "reads_on (stack_read D read (Suc 0) ([Aes_decoder a], s) n) n (stack_contents D out ([Aes_decoder a], s))
     (stack_contents D out) (stack_at D out fine (Suc 0))"
proof -
  let ?S = "stack_read D read 0" and ?al = "\<lambda>x :: ('d, 'a) decoders. fst x = [] \<and> aligned (snd x)"
  let ?c = "\<lambda>x :: ('d, 'a) decoders. contents (snd x)"
  have ready: "aes_ready ?c ?al (aes_with_input a ([], s))"
    using x by (simp add: aes_ready_def aes_with_input_def)
  have src: "byte_source (aes_read (dc_cbc D) ?S) (aes_contents (dc_cbc D) ?c) (aes_ready ?c ?al)"
    by (rule block_source.aes_source [OF base_blocks]) (use cipher in \<open>simp add: block_cipher_def\<close>)
  have "reads_on (aes_read (dc_cbc D) ?S (aes_with_input a ([], s)) n) n (aes_contents (dc_cbc D) ?c (aes_with_input a ([], s)))
      (aes_contents (dc_cbc D) ?c) (aes_ready ?c ?al)"
    using src ready unfolding byte_source_reads_on by blast
  then have "reads_on (and_then (aes_read (dc_cbc D) ?S (aes_with_input a ([], s)) n)
        (\<lambda>(bs, a). Ok (bs, Aes_decoder (aes_without_input a) # fst (ad_input a), snd (ad_input a)))) n
      (aes_contents (dc_cbc D) ?c (aes_with_input a ([], s))) (stack_contents D out) (stack_at D out fine (Suc 0))"
    by (rule reads_on_map)
      (auto simp: aes_ready_def aes_out_def aes_contents_def aes_with_input_def aes_without_input_def)
  then show ?thesis
    by (simp add: decoder_read_def and_then_assoc split_def aes_out_def aes_contents_def aes_with_input_def)
qed

lemma stack_source:
  assumes D: "valid_decoder D out fine" and cipher: "block_cipher (dc_cbc D)"
  shows "byte_source (stack_read D read k) (stack_contents D out) (stack_at D out fine k)"
proof (induction k)
  case 0
  show ?case unfolding byte_source_reads_on using reads by (auto intro!: reads_on_map)
next
  case (Suc k)
  show ?case unfolding byte_source_reads_on
  proof (intro allI impI)
    fix x n assume x: "stack_at D out fine (Suc k) x"
    then obtain d ds s where xs: "x = (d # ds, s)" and k: "length ds = k" by (cases x; cases "fst x") auto
    show "reads_on (stack_read D read (Suc k) x n) n (stack_contents D out x) (stack_contents D out) (stack_at D out fine (Suc k))"
    proof (cases "\<exists>a. d = Aes_decoder a")
      case True
      with x xs k have "ds = []" by auto
      with True xs x k aes_layer [OF cipher, where s = s and out = out and fine = fine] show ?thesis by auto
    next
      case False
      then have fine: "decoder_fine fine d (stack_out D out ds (contents s))"
        and below: "stack_ready D out fine contents ready aligned ds s"
        using x xs by (auto split: decoder.splits)
      have "stack_at D out fine k (ds, s)" using below k by simp
      from byte_source.decoder_reads [OF Suc D this, of d n] fine
      have "reads_on (decoder_read D (stack_read D read k) (d, ds, s) n) n (decoder_out D out d (stack_contents D out (ds, s)))
          (\<lambda>(dec, s). decoder_out D out dec (stack_contents D out s))
          (\<lambda>(dec, s). stack_at D out fine k s \<and> decoder_fine fine dec (stack_contents D out s))" by simp
      then have "reads_on (and_then (decoder_read D (stack_read D read k) (d, ds, s) n)
            (\<lambda>(bs, y). Ok (bs, fst y # fst (snd y), snd (snd y)))) n (decoder_out D out d (stack_contents D out (ds, s)))
          (stack_contents D out) (stack_at D out fine (Suc k))"
        by (rule reads_on_map) (auto intro!: not_aes_ready simp del: stack_ready.simps)
      then show ?thesis by (simp add: xs split_def)
    qed
  qed
qed

end

end
