(* ===== verification/Demo_Environment.thy ===== *)
theory Demo_Environment
  imports Archive_Solid Memory_File Decoder_Stack
begin

text \<open>
  Concrete values of the parameters, for the examples that apply the theorems: the defaults of
  the crates, an encoder and a decoder that store their input, a block cipher that flips bits,
  and a checksum that is never 0.
\<close>

definition demo_libs :: libs where
  "demo_libs = \<lparr>lzma_preset = (\<lambda>level. \<lparr>dict_size = 0x800000, lzma_props = 0x5D\<rparr>), dict_size_min = 4096,
     dict_size_max = 0x60000000, ppmd7_min_order = 2, ppmd7_max_order = 64,
     ppmd7_min_mem_size = 2048, ppmd7_max_mem_size = 0xFFFFFFDB, brotli_version = 1,
     zstd_version_major = 1, zstd_version_minor = 5\<rparr>"

definition demo_cbc :: cbc where
  "demo_cbc key iv prev b = take 16 (map (\<lambda>x. x XOR 0x5A) b @ replicate 16 0)"

definition demo_codecs :: "unit codecs" where
  "demo_codecs = \<lparr>cd_new = (\<lambda>m opts. Ok ()), cd_write = (\<lambda>e buf. Ok (length buf, buf, e)),
     cd_flush = (\<lambda>e. Ok ([], e)), cd_finish = (\<lambda>e. Ok []), cd_brotli_new = (\<lambda>q w. ()),
     cd_brotli_into_inner = (\<lambda>e. []), cd_lz4_frame = Ok, cd_sha256 = (\<lambda>bs. replicate 32 0), cd_cbc = demo_cbc\<rparr>"

definition demo_crc :: "bytes \<Rightarrow> u32" where
  "demo_crc d = 1 + of_nat (length d mod 1000)"

definition demo_decoders :: "unit decoder_libs" where
  "demo_decoders = \<lparr>dc_lzma_new = (\<lambda>n p d. Answer (Ok ())), dc_lzma2_new = (\<lambda>d. ()), dc_lzma2_mt_new = (\<lambda>d t. ()),
     dc_lzma2_memory_usage = (\<lambda>d. 104), dc_ppmd_new = (\<lambda>order mem. Answer (Ok ())), dc_bcj_new = (\<lambda>i. ()),
     dc_delta_new = (\<lambda>d. ()), dc_brotli_new = (\<lambda>n. ()), dc_bzip2_new = (), dc_deflate_new = (), dc_deflate64_new = (),
     dc_lz4_new = (), dc_zstd_new = Answer (Ok ()), dc_read = (\<lambda>d n. Ask n (\<lambda>bs. Answer (Ok (bs, d)))),
     dc_sha256 = (\<lambda>bs. replicate 32 0), dc_cbc = demo_cbc\<rparr>"

lemma demo_valid_decoder: "valid_decoder demo_decoders (\<lambda>d c. c) (\<lambda>d c. True)"
  by (auto simp: valid_decoder_def demo_decoders_def elim!: answers.cases)

lemma demo_calls:
  "cd_write demo_codecs e buf = Ok (length buf, buf, e)" "cd_flush demo_codecs e = Ok ([], e)" "cd_finish demo_codecs e = Ok []"
  by (simp_all add: demo_codecs_def)

lemma demo_run: "crate_run demo_codecs e0 e d out \<Longrightarrow> d = out"
  by (induction rule: crate_run.induct) (auto simp: demo_calls)

lemma demo_valid_encoder: "valid_encoder demo_codecs (=) e"
  by (auto simp: valid_encoder_def demo_calls dest: demo_run)

section \<open>A writer in memory\<close>

abbreviation demo_env :: "(unit, cursor) writer_env" where
  "demo_env \<equiv> memory_env demo_libs demo_codecs demo_crc"

definition stored :: encoder_configuration where
  "stored = config_new (EncoderMethod ''COPY'' id_copy)"

definition swapped :: encoder_configuration where
  "swapped = config_new (EncoderMethod ''SWAP2'' id_swap2)"

text \<open>A writer behind the start header that stores what it is given, after it swapped the bytes.\<close>

definition demo_writer :: "cursor archive_writer" where
  "demo_writer = \<lparr>w_files = [], w_content_methods = [stored, swapped], w_pack_info = pack_info_default, w_unpack_info = [],
     w_encrypt_header = True, w_comment = None, w_output = \<lparr>cur_data = [], cur_pos = 32\<rparr>\<rparr>"

lemma demo_writer_new:
  "and_then (archive_writer_new demo_env \<lparr>cur_data = [], cur_pos = 0\<rparr>) (\<lambda>aw. Ok (set_content_methods aw [stored, swapped]))
     = Ok demo_writer"
  by (simp add: archive_writer_new_def cursor_seek_def set_content_methods_def demo_writer_def signature_header_size_def)

abbreviation demo_encoders :: "((bytes \<Rightarrow> bytes \<Rightarrow> bool) \<times> unit encoder) list" where
  "demo_encoders \<equiv> [((=), Copy_encoder), ((=), Swap2_encoder (Some None))]"

lemma demo_methods_ok: "methods_ok demo_env [stored, swapped] demo_encoders"
  by (simp add: methods_ok_def add_encoder_def Let_def stored_def swapped_def config_new_def id_copy_def id_delta_def
      id_swap2_def ids_bcj_def)

lemma demo_can_push: "can_push demo_env demo_encoders (cursor_took (replicate 32 0)) (cursor_took (replicate 32 0)) demo_writer"
  using memory_output_ok [of demo_libs demo_codecs demo_crc "replicate 32 0"] demo_methods_ok
  by (simp add: can_push_def demo_writer_def cursor_took_def)

end
