(* ===== verification/Header_Roundtrip.thy ===== *)
theory Header_Roundtrip
  imports Header_Reader Header_Writer
begin

text \<open>
  What \<^verbatim>\<open>src/src/reader.rs\<close> reads from a header that \<^verbatim>\<open>src/src/writer.rs\<close> wrote, part
  by part: pack info, blocks, substreams, files and the whole header. The collection
  \<open>run_parser\<close> runs a parser over a cursor that stands before printed bytes.
\<close>

section \<open>Running a parser over printed bytes\<close>

named_theorems run_parser \<open>equations that run a parser over the bytes of a printer\<close>

lemma and_read_run:
  "parses p bs v \<Longrightarrow> and_read p f (cursor_at pre (bs @ post)) = f v (cursor_at (pre @ bs) post)"
  by (simp add: and_read_def parses_def)

lemma parses_hdr_u8: "parses hdr_u8 [b] b"
  by (rule parses_lift_io [OF parses_read_u8_single])

lemma run_hdr_u8 [run_parser]:
  "and_read hdr_u8 f (cursor_at pre (b # post)) = f b (cursor_at (pre @ [b]) post)"
  using and_read_run [OF parses_hdr_u8, of f pre b post] by simp

lemma run_hdr_u64 [run_parser]:
  "and_read hdr_u64 f (cursor_at pre (write_u64 v @ post)) = f v (cursor_at (pre @ write_u64 v) post)"
  by (rule and_read_run [OF parses_lift_io [OF parses_read_variable_u64]])

lemma run_usize [run_parser]:
  "n < 2 ^ 64 \<Longrightarrow> and_read (read_variable_usize field) f (cursor_at pre (write_u64 (of_nat n) @ post))
     = f n (cursor_at (pre @ write_u64 (of_nat n)) post)"
  by (rule and_read_run [OF parses_read_variable_usize])

lemma run_ret [run_parser]: "ret x c = Ok (x, c)"
  by (simp add: ret_def)

lemma run_lift_outcome [run_parser]: "and_read (lift_outcome r) f c = and_then r (\<lambda>x. f x c)"
  by (cases r) (simp_all add: and_read_def lift_outcome_def)

lemma parses_hdr_u64: "parses hdr_u64 (write_u64 v) v"
  by (rule parses_lift_io [OF parses_read_variable_u64])

lemma parses_hdr_u64s: "n = length vs \<Longrightarrow> parses (read_times hdr_u64 n) (concat (map write_u64 vs)) vs"
  by (rule parses_read_times_map) (auto intro: parses_hdr_u64)

lemma run_hdr_u64s [run_parser]:
  "n = length vs \<Longrightarrow> and_read (read_times hdr_u64 n) f (cursor_at pre (concat (map write_u64 vs) @ post))
     = f vs (cursor_at (pre @ concat (map write_u64 vs)) post)"
  by (rule and_read_run [OF parses_hdr_u64s])

lemma parses_read_enumerate:
  assumes "length bss = length xs" "length ys = length xs"
    and "\<And>k. k < length xs \<Longrightarrow> parses (f (i + k) (xs ! k)) (bss ! k) (ys ! k)"
  shows "parses (read_enumerate f i xs) (concat bss) ys"
  using assms
proof (induction xs arbitrary: i bss ys)
  case Nil
  then show ?case by (simp add: parses_ret)
next
  case (Cons x xs)
  then obtain b bss' y ys' where eq: "bss = b # bss'" "ys = y # ys'"
    by (metis length_0_conv list.exhaust list.simps(3))
  have "parses (f (Suc i + k) (xs ! k)) (bss' ! k) (ys' ! k)" if "k < length xs" for k
    using Cons.prems(3) [of "Suc k"] that eq by simp
  then have "parses (read_enumerate f (i + 1) xs) (concat bss') ys'"
    using Cons.IH [of bss' ys' "Suc i"] Cons.prems eq by simp
  then have "parses (and_read (read_enumerate f (i + 1) xs) (\<lambda>ys. ret (y # ys))) (concat bss') (y # ys')"
    by (rule parses_and_read_eq [OF _ parses_ret]) simp
  moreover have "parses (f i x) b y" using Cons.prems(3) [of 0] eq by simp
  ultimately show ?case using eq by (auto intro: parses_and_read)
qed

lemma parses_read_enumerate_map:
  assumes "\<And>k. k < length zs \<Longrightarrow> parses (f k (g (zs ! k))) (pr (zs ! k)) (h (zs ! k))"
  shows "parses (read_enumerate f 0 (map g zs)) (concat (map pr zs)) (map h zs)"
  by (rule parses_read_enumerate) (simp_all add: assms)

lemma parses_run: "parses p bs v \<Longrightarrow> p (cursor_at pre (bs @ post)) = Ok (v, cursor_at (pre @ bs) post)"
  by (rule parsesD)

section \<open>Flags\<close>

lemma set_all_insert_where:
  "list_all P xs \<Longrightarrow> bs_set_all (bs_with_capacity (length xs)) (length xs)
     = insert_where P 0 xs (bs_with_capacity (length xs))"
  by (rule bs_extensional)
    (auto simp: ok_insert_where bs_ok_with_capacity count_insert_where contains_insert_where list_all_length)

definition flag_set :: "('a \<Rightarrow> bool) \<Rightarrow> 'a list \<Rightarrow> bit_set" where
  "flag_set P xs = insert_where P 0 xs (bs_with_capacity (length xs))"

lemma contains_flag_set [simp]: "bs_contains (flag_set P xs) i \<longleftrightarrow> i < length xs \<and> P (xs ! i)"
  by (simp add: flag_set_def contains_insert_where)

lemma ok_flag_set: "bs_ok (flag_set P xs)"
  by (simp add: flag_set_def ok_insert_where bs_ok_with_capacity)

lemma count_flag_set: "bit_count (flag_set P xs) = length xs"
  by (simp add: flag_set_def count_insert_where)

lemma bs_len_flag_set: "bs_len (flag_set P xs) = length (filter P xs)"
proof -
  have "bs_len (flag_set P xs) = length (filter (\<lambda>i. i < length xs \<and> P (xs ! i)) [0..<length xs])"
    unfolding flag_set_def
    by (subst bs_len_flags)
      (simp_all add: ok_insert_where bs_ok_with_capacity count_insert_where contains_insert_where cong: filter_cong)
  also have "filter (\<lambda>i. i < length xs \<and> P (xs ! i)) [0..<length xs] = filter (\<lambda>i. P (xs ! i)) [0..<length xs]"
    by (rule filter_cong) simp_all
  also have "length \<dots> = length (filter P (map ((!) xs) [0..<length xs]))"
    by (simp add: filter_map comp_def)
  finally show ?thesis by (simp add: map_nth)
qed

definition flag_bytes :: "('a \<Rightarrow> bool) \<Rightarrow> 'a list \<Rightarrow> bytes" where
  "flag_bytes P xs = (if list_all P xs then [1] else 0 # write_bit_set (flag_set P xs))"

lemma parses_flag_bytes:
  "n = length xs \<Longrightarrow> parses (lift_io (read_all_or_bits n)) (flag_bytes P xs) (flag_set P xs)"
proof -
  assume n: "n = length xs"
  have "parses (read_all_or_bits n) (flag_bytes P xs) (flag_set P xs)"
    using n parses_read_all [of n] parses_read_some [OF parses_insert_where, of n xs P]
      set_all_insert_where [of P xs]
    by (auto simp: flag_bytes_def flag_set_def)
  then show ?thesis by (rule parses_lift_io)
qed

lemma run_flag_bytes [run_parser]:
  "n = length xs \<Longrightarrow> and_read (lift_io (read_all_or_bits n)) f (cursor_at pre (flag_bytes P xs @ post))
     = f (flag_set P xs) (cursor_at (pre @ flag_bytes P xs) post)"
  by (rule and_read_run [OF parses_flag_bytes])

lemma parses_defined_crcs:
  assumes "length cs = n" and "\<And>i. i < n \<Longrightarrow> bs_contains s i \<longleftrightarrow> P (cs ! i)" and "\<And>c. \<not> P c \<Longrightarrow> v c = 0"
    and "\<And>c. P c \<Longrightarrow> v c = ucast c"
  shows "parses (read_defined_crcs s n) (concat (map (\<lambda>c. if P c then write_u32_le c else []) cs)) (map v cs)"
proof -
  have "parses (read_enumerate
       (\<lambda>i x. if bs_contains s i then and_read (lift_io read_u32) (\<lambda>c. ret (ucast c)) else ret x)
       0 (map (\<lambda>c. 0) cs)) (concat (map (\<lambda>c. if P c then write_u32_le c else []) cs)) (map v cs)"
    using assms
    by (intro parses_read_enumerate_map)
      (auto intro!: parses_ret parses_and_read_eq [OF parses_lift_io [OF parses_read_u32] parses_ret])
  with assms(1) show ?thesis by (simp add: read_defined_crcs_def map_replicate_const)
qed

section \<open>Pack info\<close>

lemma write_pack_info_eq:
  "write_pack_info p = k_pack_info # write_u64 (pi_pos p) @ write_u64 (of_nat (length (pi_sizes p)))
     @ k_size # concat (map write_u64 (pi_sizes p)) @ k_crc # flag_bytes (\<lambda>c. c \<noteq> 0) (pi_crcs p)
     @ (if list_all (\<lambda>c. c \<noteq> 0) (pi_crcs p) then concat (map write_u32_le (pi_crcs p)) else [])
     @ [k_end]"
  by (simp add: write_pack_info_def flag_bytes_def write_u8_def flag_set_def)

definition pack_info_ok :: "pack_info \<Rightarrow> bool" where
  "pack_info_ok p \<longleftrightarrow> length (pi_crcs p) = length (pi_sizes p) \<and> length (pi_sizes p) < 2 ^ 64
     \<and> (list_all (\<lambda>c. c \<noteq> 0) (pi_crcs p) \<or> list_all (\<lambda>c. c = 0) (pi_crcs p))"

definition with_pack_info :: "pack_info \<Rightarrow> archive \<Rightarrow> archive" where
  "with_pack_info p a = a\<lparr>pack_pos := pi_pos p, pack_sizes := pi_sizes p,
     pack_crcs_defined := flag_set (\<lambda>c. c \<noteq> 0) (pi_crcs p), pack_crcs := map ucast (pi_crcs p)\<rparr>"

lemma parses_pack_crcs:
  assumes "list_all (\<lambda>c. c \<noteq> 0) cs \<or> list_all (\<lambda>c. c = 0) cs" and "n = length cs"
  shows "parses (read_defined_crcs (flag_set (\<lambda>c. c \<noteq> 0) cs) n)
    (if list_all (\<lambda>c. c \<noteq> 0) cs then concat (map write_u32_le cs) else []) (map ucast cs)"
proof -
  have "parses (read_defined_crcs (flag_set (\<lambda>c. c \<noteq> 0) cs) n)
      (concat (map (\<lambda>c. if c \<noteq> 0 then write_u32_le c else []) cs)) (map ucast cs)"
    using assms(2) by (intro parses_defined_crcs) auto
  moreover have "concat (map (\<lambda>c. if c \<noteq> 0 then write_u32_le c else []) cs)
      = (if list_all (\<lambda>c. c \<noteq> 0) cs then concat (map write_u32_le cs) else [])"
    using assms(1) by (auto simp: list_all_iff intro!: arg_cong [where f = concat])
  ultimately show ?thesis by simp
qed

lemma parses_pack_info:
  assumes "pack_info_ok p"
  shows "parses (read_pack_info a) (tl (write_pack_info p)) (with_pack_info p a)"
  using assms
  by (intro parsesI)
    (simp add: read_pack_info_def write_pack_info_eq run_parser Let_def pack_info_ok_def
      and_read_run [OF parses_pack_crcs] and_read_assoc with_pack_info_def)

section \<open>Blocks\<close>

lemma write_u64_small: "v < 0x80 \<Longrightarrow> write_u64 v = [ucast v]"
proof -
  assume v: "v < 0x80"
  have "ucast (v AND 0xFF) = (ucast v :: u8)"
    by (rule bit_word_eqI) (auto simp: and_FF bit_ucast_iff bit_take_bit_iff)
  with v show ?thesis
    by (simp add: write_u64_def write_u64_first.simps [of v 0 0] write_u8_def)
qed

definition codec_props :: "libs \<Rightarrow> encoder_configuration \<Rightarrow> bytes" where
  "codec_props L mc = get_options_as_properties L (config_method mc) (config_options mc)"

definition written_coder :: "libs \<Rightarrow> encoder_configuration \<Rightarrow> coder" where
  "written_coder L mc =
     (let i = method_id (config_method mc)
      in \<lparr>id_buffer = i @ replicate (15 - length i) 0, id_size = length i,
          num_in_streams = 1, num_out_streams = 1, properties = codec_props L mc\<rparr>)"

definition codec_ok :: "libs \<Rightarrow> encoder_configuration \<Rightarrow> bool" where
  "codec_ok L mc \<longleftrightarrow> length (method_id (config_method mc)) < 16 \<and> length (codec_props L mc) < 128"

lemma write_u8_length: "n < 128 \<Longrightarrow> write_u8 (of_nat n) = write_u64 (of_nat n)"
proof -
  assume n: "n < 128"
  then have "(of_nat n :: u64) < 0x80" by (simp add: word_less_nat_alt unat_of_nat)
  then show ?thesis using n by (simp add: write_u64_small write_u8_def unsigned_of_nat take_bit_nat_eq_self)
qed

lemma flags_of_length:
  assumes "n < 16"
  shows "unat ((of_nat n OR (if b then 0x20 else 0) :: u8) AND 0xF) = n"
    and "(of_nat n OR (if b then 0x20 else 0) :: u8) AND 0x10 = 0"
    and "(of_nat n OR (if b then 0x20 else 0) :: u8) AND 0x20 = 0 \<longleftrightarrow> \<not> b"
    and "(of_nat n OR (if b then 0x20 else 0) :: u8) AND 0x80 = 0"
proof -
  have "n \<in> {0, 1, 2, 3, 4, 5, 6, 7, 8, 9, 10, 11, 12, 13, 14, 15}"
    using assms by simp presburger
  then show "unat ((of_nat n OR (if b then 0x20 else 0) :: u8) AND 0xF) = n"
    "(of_nat n OR (if b then 0x20 else 0) :: u8) AND 0x10 = 0"
    "(of_nat n OR (if b then 0x20 else 0) :: u8) AND 0x20 = 0 \<longleftrightarrow> \<not> b"
    "(of_nat n OR (if b then 0x20 else 0) :: u8) AND 0x80 = 0"
    by auto
qed

lemma write_single_codec_eq:
  "write_single_codec L mc =
     (of_nat (length (method_id (config_method mc))) OR (if codec_props L mc \<noteq> [] then 0x20 else 0))
     # method_id (config_method mc)
     @ (if codec_props L mc \<noteq> [] then write_u8 (of_nat (length (codec_props L mc))) @ codec_props L mc else [])"
  by (simp add: write_single_codec_def codec_props_def write_u8_def Let_def)

lemma run_read_exact [run_parser]:
  "length bs = n \<Longrightarrow> and_read (lift_io (read_exact n)) f (cursor_at pre (bs @ post))
     = f bs (cursor_at (pre @ bs) post)"
  by (rule and_read_run [OF parses_lift_io [OF parses_read_exact]])

lemma parses_codec:
  assumes "codec_ok L mc"
  shows "parses read_coder (write_single_codec L mc) (written_coder L mc)"
proof (rule parsesI)
  fix pre post
  let ?i = "method_id (config_method mc)" and ?props = "codec_props L mc"
  have i: "length ?i < 16" and props: "length ?props < 128" using assms by (auto simp: codec_ok_def)
  have drop: "drop (length ?i) (id_buffer coder_default) = replicate (15 - length ?i) 0"
    by (simp add: coder_default_def)
  show "read_coder (cursor_at pre (write_single_codec L mc @ post))
      = Ok (written_coder L mc, cursor_at (pre @ write_single_codec L mc) post)"
    using i props flags_of_length [OF i, of "?props \<noteq> []"] drop
    by (cases "?props = []")
      (simp_all add: read_coder_def write_single_codec_eq run_parser Let_def and_read_assoc written_coder_def
        write_u8_length)
qed

definition written_block :: "libs \<Rightarrow> block_info \<Rightarrow> block" where
  "written_block L b =
     (let n = length (bi_methods b)
      in block_default\<lparr>coders := map (written_coder L) (bi_methods b), total_input_streams := n,
           total_output_streams := n, bind_pairs := chain_pairs n, packed_streams := [0],
           unpack_sizes := bi_sizes b\<rparr>)"

definition block_ok :: "libs \<Rightarrow> block_info \<Rightarrow> bool" where
  "block_ok L b \<longleftrightarrow> bi_methods b \<noteq> [] \<and> length (bi_methods b) < 2 ^ 64
     \<and> length (bi_sizes b) = length (bi_methods b) \<and> list_all (codec_ok L) (bi_methods b)"

lemma parses_bind_pairs:
  "m = n - 1 \<Longrightarrow> parses (read_times read_bind_pair m)
     (concat (map (\<lambda>i. write_u64 (of_nat i + 1) @ write_u64 (of_nat i)) [0..<n - 1])) (chain_pairs n)"
proof -
  assume m: "m = n - 1"
  have "parses read_bind_pair (write_u64 i @ write_u64 j) \<lparr>in_index = i, out_index = j\<rparr>" for i j
    by (intro parsesI) (simp add: read_bind_pair_def run_parser)
  then have "parses read_bind_pair (write_u64 (of_nat i + 1) @ write_u64 (of_nat i))
      \<lparr>in_index = of_nat (i + 1), out_index = of_nat i\<rparr>" for i
    by (simp add: add.commute)
  then have "list_all2 (parses read_bind_pair)
      (map (\<lambda>i. write_u64 (of_nat i + 1) @ write_u64 (of_nat i)) [0..<n - 1]) (chain_pairs n)"
    by (simp add: chain_pairs_def list_all2_conv_all_nth)
  from parses_read_times [OF this] m show ?thesis by (simp add: chain_pairs_def)
qed

lemma sum_list_const_one: "(\<And>x. x \<in> set xs \<Longrightarrow> f x = (1 :: 'a::len word)) \<Longrightarrow> sum_list (map f xs) = of_nat (length xs)"
  by (induction xs) simp_all

lemma find_first_unbound:
  assumes "n < 2 ^ 64" and "0 < n" and "bind_pairs b = chain_pairs n"
  shows "find (\<lambda>i. find_bind_pair_for_in_stream b (of_nat i) = None) [0..<n] = Some 0"
proof -
  have "in_index bp \<noteq> 0" if "bp \<in> set (chain_pairs n)" for bp
  proof -
    from that obtain i where i: "i < n - 1" "in_index bp = of_nat (i + 1)"
      by (auto simp: chain_pairs_def)
    then have "(of_nat (i + 1) :: u64) = of_nat 0 \<longleftrightarrow> i + 1 = 0"
      using assms(1) by (intro of_nat_u64_eq_iff) auto
    with i show ?thesis by simp
  qed
  then have "find_bind_pair_for_in_stream b 0 = None"
    using assms(3) by (auto simp: find_bind_pair_for_in_stream_def find_None_iff)
  with assms(2) show ?thesis by (simp add: upt_conv_Cons)
qed

lemma parses_block:
  assumes ok: "block_ok L b"
  shows "parses read_block (write_block L b) ((written_block L b)\<lparr>unpack_sizes := []\<rparr>)"
proof (rule parsesI)
  fix pre post
  let ?n = "length (bi_methods b)"
  let ?b = "block_default\<lparr>coders := map (written_coder L) (bi_methods b), total_input_streams := ?n,
           total_output_streams := ?n, bind_pairs := chain_pairs ?n\<rparr>"
  have n: "?n < 2 ^ 64" "0 < ?n" "?n - (?n - 1) = 1" "\<not> ?n < ?n - 1"
    using ok by (auto simp: block_ok_def Suc_leI)
  have codecs: "list_all2 (parses read_coder) (map (write_single_codec L) (bi_methods b))
      (map (written_coder L) (bi_methods b))"
    using ok by (auto simp: list_all2_conv_all_nth block_ok_def list_all_length intro: parses_codec)
  have coders: "parses (read_times read_coder ?n)
      (concat (map (write_single_codec L) (bi_methods b))) (map (written_coder L) (bi_methods b))"
    using parses_read_times [OF codecs] by simp
  have ins: "unat (sum_list (map num_in_streams (map (written_coder L) (bi_methods b)))) = ?n"
    using n by (subst sum_list_const_one) (auto simp: written_coder_def Let_def unat_of_nat_u64)
  have outs: "unat (sum_list (map num_out_streams (map (written_coder L) (bi_methods b)))) = ?n"
    using n by (subst sum_list_const_one) (auto simp: written_coder_def Let_def unat_of_nat_u64)
  have first: "find (\<lambda>i. find_bind_pair_for_in_stream ?b (of_nat i) = None) [0..<?n] = Some 0"
    by (rule find_first_unbound) (use n in simp_all)
  have bytes: "write_block L b = write_u64 (of_nat ?n) @ concat (map (write_single_codec L) (bi_methods b))
      @ concat (map (\<lambda>i. write_u64 (of_nat i + 1) @ write_u64 (of_nat i)) [0..<?n - 1])"
    by (simp add: write_block_def Let_def)
  note pairs = and_read_run [OF parses_bind_pairs [of "?n - 1" ?n, OF refl], unfolded One_nat_def]
  show "read_block (cursor_at pre (write_block L b @ post))
     = Ok ((written_block L b)\<lparr>unpack_sizes := []\<rparr>, cursor_at (pre @ write_block L b) post)"
    unfolding bytes read_block_def append_assoc
    by (simp only: run_usize [OF n(1)] and_read_run [OF coders] run_lift_outcome assert_usize_Ok ins outs
        and_then.simps append_assoc)
      (use n first in \<open>simp add: pairs Let_def run_parser written_block_def block_default_def\<close>)
qed

lemma is_chain_written: "block_ok L b \<Longrightarrow> is_chain (written_block L b)"
  by (simp add: is_chain_def written_block_def block_ok_def Let_def)

lemma unpack_size_written:
  assumes "block_ok L b"
  shows "get_unpack_size (written_block L b) = Ok (last (bi_sizes b))"
proof -
  let ?n = "length (bi_methods b)"
  have n: "0 < ?n" "?n < 2 ^ 64" "bi_sizes b \<noteq> []" "length (bi_sizes b) = ?n"
    using assms by (auto simp: block_ok_def)
  then obtain m where m: "?n = Suc m" by (cases ?n) auto
  have "find_bind_pair_for_out_stream (written_block L b) (of_nat m) = None"
    using find_chain_pair_out [of ?n m] n m
    by (simp add: find_bind_pair_for_out_stream_def written_block_def Let_def)
  then show ?thesis
    using n m by (simp add: get_unpack_size_def written_block_def Let_def last_conv_nth)
qed

section \<open>Unpack info\<close>

definition unpack_info_ok :: "libs \<Rightarrow> unpack_info \<Rightarrow> bool" where
  "unpack_info_ok L us \<longleftrightarrow> length us < 2 ^ 64 \<and> list_all (block_ok L) us"

lemma parses_unpack_sizes:
  assumes "block_ok L b"
  shows "parses (read_unpack_sizes ((written_block L b)\<lparr>unpack_sizes := []\<rparr>))
     (concat (map write_u64 (bi_sizes b))) (written_block L b)"
  using assms
  by (intro parsesI)
    (simp add: read_unpack_sizes_def run_parser written_block_def Let_def block_ok_def block_default_def)

lemma write_unpack_info_eq:
  "write_unpack_info L us = k_unpack_info # k_folder # write_u64 (of_nat (length us)) @ 0
     # concat (map (write_block L) us) @ k_coders_unpack_size
     # concat (map (\<lambda>b. concat (map write_u64 (bi_sizes b))) us) @ [k_end]"
  by (simp add: write_unpack_info_def write_u8_def)

lemma parses_unpack_info:
  assumes ok: "unpack_info_ok L us" and fresh: "ar_blocks a = []"
  shows "parses (read_unpack_info a) (tl (write_unpack_info L us))
     (a\<lparr>ar_blocks := map (written_block L) us\<rparr>)"
proof (rule parsesI)
  fix pre post
  let ?new = "map (\<lambda>b. (written_block L b)\<lparr>unpack_sizes := []\<rparr>) us"
  have all_blocks: "parses (read_times read_block (length us)) (concat (map (write_block L) us)) ?new"
    using ok parses_read_times [of read_block "map (write_block L) us" ?new]
    by (simp add: unpack_info_ok_def list_all2_conv_all_nth list_all_length parses_block)
  have sizes: "parses (read_enumerate (\<lambda>i b. read_unpack_sizes b) 0 ?new)
      (concat (map (\<lambda>b. concat (map write_u64 (bi_sizes b))) us)) (map (written_block L) us)"
    using ok by (intro parses_read_enumerate_map)
      (simp add: unpack_info_ok_def list_all_length parses_unpack_sizes)
  show "read_unpack_info a (cursor_at pre (tl (write_unpack_info L us) @ post))
     = Ok (a\<lparr>ar_blocks := map (written_block L) us\<rparr>, cursor_at (pre @ tl (write_unpack_info L us)) post)"
    using ok unfolding unpack_info_ok_def
    by (simp add: read_unpack_info_def write_unpack_info_eq run_parser fresh
        and_read_run [OF all_blocks] and_read_run [OF sizes])
qed

end
