(* ===== verification/Substreams_Roundtrip.thy ===== *)
theory Substreams_Roundtrip
  imports Header_Roundtrip
begin

text \<open>
  The substreams of a written header (\<open>write_substreams\<close> of
  \<^verbatim>\<open>src/src/writer/unpack_info.rs\<close>) as \<open>read_sub_streams_info\<close> of
  \<^verbatim>\<open>src/src/reader.rs\<close> reads them: their number, sizes and digests; and the streams info
  that they are a part of.
\<close>

section \<open>Sums in machine integers\<close>

lemma fold_usize_add: "a + sum_list xs < 2 ^ 64 \<Longrightarrow> fold (\<lambda>x s. usize_add s x) xs a = a + sum_list xs"
  by (induction xs arbitrary: a) (simp_all add: add.assoc)

lemma usize_sum_exact: "sum_list xs < 2 ^ 64 \<Longrightarrow> usize_sum xs = sum_list xs"
  using fold_usize_add [of 0 xs] by (simp add: usize_sum_def)

lemma unat_sum_list:
  fixes ws :: "u64 list"
  shows "sum_list (map unat ws) < 2 ^ 64 \<Longrightarrow> unat (sum_list ws) = sum_list (map unat ws)"
  by (induction ws) (auto simp: unat_word_ariths)

section \<open>The substreams of a block\<close>

definition num_subs :: "block_info \<Rightarrow> nat" where
  "num_subs b = unat (bi_num_sub_unpack_streams b)"

text \<open>Several substreams have their sizes and CRCs recorded, and they fill the block.\<close>

definition subs_ok :: "block_info \<Rightarrow> bool" where
  "subs_ok b \<longleftrightarrow>
     (if 1 < num_subs b
      then length (bi_sub_stream_sizes b) = num_subs b \<and> length (bi_sub_stream_crcs b) = num_subs b
        \<and> sum_list (map unat (bi_sub_stream_sizes b)) = unat (last (bi_sizes b))
      else length (bi_sub_stream_sizes b) \<le> 1)"

definition sub_sizes :: "block_info \<Rightarrow> u64 list" where
  "sub_sizes b = (if 1 < num_subs b then bi_sub_stream_sizes b
     else if num_subs b = 1 then [last (bi_sizes b)] else [])"

definition read_back :: "libs \<Rightarrow> block_info \<Rightarrow> block" where
  "read_back L b = (written_block L b)\<lparr>num_unpack_sub_streams := num_subs b\<rparr>"

lemma num_subs_less: "1 < bi_num_sub_unpack_streams b \<longleftrightarrow> 1 < num_subs b"
  by (simp add: num_subs_def word_less_nat_alt)

lemma num_subs_one: "bi_num_sub_unpack_streams b = 1 \<longleftrightarrow> num_subs b = 1"
  by (metis num_subs_def unsigned_1 word_unat_eq_iff)

lemma length_sub_sizes: "subs_ok b \<Longrightarrow> length (sub_sizes b) = num_subs b"
  by (auto simp: sub_sizes_def subs_ok_def)

lemma length_crcs_of_block: "subs_ok b \<Longrightarrow> length (crcs_of_block b) = num_subs b"
  by (auto simp: crcs_of_block_def num_subs_less num_subs_one subs_ok_def split: list.splits)

lemma unpack_size_loop_read_back:
  "unpack_size_loop (read_back L b) is = unpack_size_loop (written_block L b) is"
  by (induction "is") (simp_all add: read_back_def find_bind_pair_for_out_stream_def)

lemma unpack_size_read_back: "block_ok L b \<Longrightarrow> get_unpack_size (read_back L b) = Ok (last (bi_sizes b))"
  by (simp add: unpack_size_written [symmetric])
    (simp add: get_unpack_size_def unpack_size_loop_read_back, simp add: read_back_def)

lemma parses_stream_sizes:
  assumes "length szs = length xs"
  shows "parses (read_each read_stream_size xs (dn @ replicate (length xs + m) 0, length dn, acc))
     (concat (map write_u64 szs)) (dn @ szs @ replicate m 0, length dn + length xs, acc + sum_list szs)"
  using assms
proof (induction xs arbitrary: szs dn acc)
  case Nil
  then show ?case by (simp add: parses_ret)
next
  case (Cons x xs)
  then obtain w ws where szs: "szs = w # ws" "length ws = length xs" by (cases szs) auto
  have upd: "(dn @ 0 # replicate (length xs + m) 0)[length dn := w] = (dn @ [w]) @ replicate (length xs + m) 0"
    by simp
  have IH: "parses (read_each read_stream_size xs ((dn @ [w]) @ replicate (length xs + m) 0, length (dn @ [w]), acc + w))
     (concat (map write_u64 ws)) ((dn @ [w]) @ ws @ replicate m 0, length (dn @ [w]) + length xs, acc + w + sum_list ws)"
    by (rule Cons.IH) (rule szs(2))
  show ?case
  proof (rule parsesI)
    fix pre post
    show "read_each read_stream_size (x # xs) (dn @ replicate (length (x # xs) + m) 0, length dn, acc)
        (cursor_at pre (concat (map write_u64 szs) @ post)) =
      Ok ((dn @ szs @ replicate m 0, length dn + length (x # xs), acc + sum_list szs),
        cursor_at (pre @ concat (map write_u64 szs)) post)"
      using parsesD [OF IH, of "pre @ write_u64 w" post] szs(1)
      by (simp add: read_stream_size_def run_parser and_read_assoc upd add.assoc)
  qed
qed

lemma parses_block_sizes:
  assumes ok: "block_ok L b" "subs_ok b" and nid: "nid = k_size \<or> num_subs b \<le> 1"
  shows "parses (read_block_sizes nid (read_back L b) (dn @ replicate (num_subs b + m) 0, length dn))
     (if 1 < num_subs b then concat (map write_u64 (butlast (bi_sub_stream_sizes b))) else [])
     (dn @ sub_sizes b @ replicate m 0, length dn + num_subs b)"
proof -
  have n: "num_unpack_sub_streams (read_back L b) = num_subs b" by (simp add: read_back_def)
  note total = unpack_size_read_back [OF ok(1)]
  consider "num_subs b = 0" | "num_subs b = 1" | "1 < num_subs b" by linarith
  then show ?thesis
  proof cases
    case 1
    then show ?thesis by (simp add: read_block_sizes_def n parses_ret sub_sizes_def)
  next
    case 2
    then show ?thesis
      by (intro parsesI) (simp add: read_block_sizes_def n run_parser total sub_sizes_def cong: if_cong)
  next
    case 3
    define szs where "szs = bi_sub_stream_sizes b"
    obtain front w where szs: "szs = front @ [w]" and front: "num_subs b = Suc (length front)"
      using 3 ok(2) unfolding szs_def subs_ok_def
      by (metis append_butlast_last_id length_0_conv length_append_singleton less_numeral_extra(3) not_one_less_zero)
    have sum: "sum_list (map unat front) + unat w = unat (last (bi_sizes b))"
      using 3 ok(2) szs by (simp add: subs_ok_def szs_def)
    moreover have small: "sum_list (map unat front) < 2 ^ 64"
      using sum unsigned_less [of "last (bi_sizes b)", where 'a = nat] by simp
    ultimately have acc: "unat (sum_list front) + unat w = unat (last (bi_sizes b))"
      by (simp add: unat_sum_list)
    then have le: "\<not> last (bi_sizes b) < sum_list front" by (simp add: word_less_nat_alt)
    have w: "last (bi_sizes b) - sum_list front = w"
    proof -
      have "unat (sum_list front + w) = unat (last (bi_sizes b))"
        using acc unsigned_less [of "last (bi_sizes b)", where 'a = nat] by (simp add: unat_word_ariths)
      then have "sum_list front + w = last (bi_sizes b)" by (simp add: word_unat_eq_iff)
      then show ?thesis by (metis add_diff_cancel_left')
    qed
    have front_parse: "parses (read_each read_stream_size [0..<length front]
        (dn @ replicate (length [0..<length front] + Suc m) 0, length dn, 0)) (concat (map write_u64 front))
        (dn @ front @ replicate (Suc m) 0, length dn + length [0..<length front], 0 + sum_list front)"
      by (rule parses_stream_sizes) simp
    have upd: "(dn @ front @ 0 # replicate m 0)[length dn + length front := w] = dn @ front @ w # replicate m 0"
      by (metis append.assoc length_append list_update_length)
    show ?thesis
      using nid 3 front le w upd szs [unfolded szs_def]
      by (intro parsesI)
        (simp add: read_block_sizes_def n and_read_run [OF front_parse, simplified] run_parser total sub_sizes_def)
  qed
qed

text \<open>The loop over the blocks fills the sizes of all substreams.\<close>

lemma parses_all_sizes:
  assumes "list_all (block_ok L) us" "list_all subs_ok us"
    and "nid = k_size \<or> list_all (\<lambda>b. num_subs b \<le> 1) us"
  shows "parses (read_each (read_block_sizes nid) (map (read_back L) us)
      (dn @ replicate (sum_list (map num_subs us)) 0, length dn))
     (concat (map (\<lambda>b. if 1 < num_subs b then concat (map write_u64 (butlast (bi_sub_stream_sizes b))) else []) us))
     (dn @ concat (map sub_sizes us), length dn + sum_list (map num_subs us))"
  using assms
proof (induction us arbitrary: dn)
  case Nil
  then show ?case by (simp add: parses_ret)
next
  case (Cons b us)
  have b: "parses (read_block_sizes nid (read_back L b)
       (dn @ replicate (num_subs b + sum_list (map num_subs us)) 0, length dn))
     (if 1 < num_subs b then concat (map write_u64 (butlast (bi_sub_stream_sizes b))) else [])
     (dn @ sub_sizes b @ replicate (sum_list (map num_subs us)) 0, length dn + num_subs b)"
    using Cons.prems by (intro parses_block_sizes) auto
  have len: "length (dn @ sub_sizes b) = length dn + num_subs b"
    using Cons.prems by (simp add: length_sub_sizes)
  have "parses (read_each (read_block_sizes nid) (map (read_back L) us)
      ((dn @ sub_sizes b) @ replicate (sum_list (map num_subs us)) 0, length (dn @ sub_sizes b)))
     (concat (map (\<lambda>b. if 1 < num_subs b then concat (map write_u64 (butlast (bi_sub_stream_sizes b))) else []) us))
     ((dn @ sub_sizes b) @ concat (map sub_sizes us), length (dn @ sub_sizes b) + sum_list (map num_subs us))"
    using Cons.prems by (intro Cons.IH) auto
  from parses_and_read [where f = "read_each (read_block_sizes nid) (map (read_back L) us)",
      OF b, unfolded append_assoc [symmetric] len [symmetric], OF this]
  show ?case by (simp add: add.assoc length_sub_sizes Cons.prems(2) [simplified])
qed

section \<open>Digests\<close>

lemma for_each_concat:
  "for_each (\<lambda>b s. for_each g (h b) s) bs s = for_each g (concat (map h bs)) s"
  by (induction bs arbitrary: s) (simp_all add: for_each_append)

lemma for_each_cong_set:
  "(\<And>x s. x \<in> set xs \<Longrightarrow> f x s = g x s) \<Longrightarrow> for_each f xs s = for_each g xs s"
  by (induction xs arbitrary: s) (auto intro!: and_then_cong)

lemma take_digests:
  assumes missing: "length missing = tot"
  shows "k \<le> tot \<Longrightarrow> length xs = k \<Longrightarrow>
    \<exists>s. for_each (take_digest (flag_set (\<lambda>_. True) missing) missing) xs
        \<lparr>dg_has_crc = bs_with_capacity tot, dg_crcs = replicate tot 0, dg_next = 0, dg_next_missing = 0\<rparr>
        = Ok s
      \<and> bs_ok (dg_has_crc s) \<and> bit_count (dg_has_crc s) = tot
      \<and> (\<forall>i. bs_contains (dg_has_crc s) i \<longleftrightarrow> i < k)
      \<and> dg_crcs s = take k missing @ replicate (tot - k) 0 \<and> dg_next s = k \<and> dg_next_missing s = k"
proof (induction k arbitrary: xs)
  case 0
  then show ?case by (simp add: bs_ok_with_capacity bits.capacity_empty bits.member_empty)
next
  case (Suc k)
  then obtain ys y where xs: "xs = ys @ [y]" "length ys = k"
    by (metis length_Suc_conv_rev)
  with Suc obtain s where s: "for_each (take_digest (flag_set (\<lambda>_. True) missing) missing) ys
        \<lparr>dg_has_crc = bs_with_capacity tot, dg_crcs = replicate tot 0, dg_next = 0, dg_next_missing = 0\<rparr> = Ok s"
      and inv: "bs_ok (dg_has_crc s)" "bit_count (dg_has_crc s) = tot"
      "\<And>i. bs_contains (dg_has_crc s) i \<longleftrightarrow> i < k"
      "dg_crcs s = take k missing @ replicate (tot - k) 0" "dg_next s = k" "dg_next_missing s = k"
    by (metis Suc_leD)
  have k: "k < tot" using Suc.prems by simp
  then have rest: "replicate (tot - k) (0 :: u64) = 0 # replicate (tot - Suc k) 0"
    by (metis Suc_diff_Suc replicate_Suc)
  have upd: "(dg_crcs s)[k := missing ! k] = take (Suc k) missing @ replicate (tot - Suc k) 0"
    using k missing by (simp add: inv rest list_update_append take_Suc_conv_app_nth)
  have next_has: "snd (bs_insert (dg_has_crc s) k) = bs_add (dg_has_crc s) k" by (simp add: bs_add_def)
  have "length (dg_crcs s) = tot" using k missing by (simp add: inv)
  with k missing upd inv have step: "take_digest (flag_set (\<lambda>_. True) missing) missing y s
      = Ok \<lparr>dg_has_crc = bs_add (dg_has_crc s) k,
            dg_crcs = take (Suc k) missing @ replicate (tot - Suc k) 0,
            dg_next = Suc k, dg_next_missing = Suc k\<rparr>"
    by (simp add: take_digest_def next_has Let_def)
  from k inv show ?case
    by (simp add: xs for_each_append s step bits.ok_add bits.capacity_add bits.member_add
        less_Suc_eq disj_commute)
qed

lemma block_digests_read_back:
  "block_digests m c (read_back L b) s = for_each (take_digest m c) [0..<num_subs b] s"
  by (simp add: block_digests_def read_back_def written_block_def block_default_def Let_def)

lemma all_digests:
  assumes "length missing = sum_list (map num_subs us)"
  shows "\<exists>s. for_each (block_digests (flag_set (\<lambda>_. True) missing) missing) (map (read_back L) us)
        \<lparr>dg_has_crc = bs_with_capacity (length missing), dg_crcs = replicate (length missing) 0,
          dg_next = 0, dg_next_missing = 0\<rparr> = Ok s
      \<and> dg_has_crc s = flag_set (\<lambda>_. True) missing \<and> dg_crcs s = missing"
proof -
  have map: "for_each (block_digests m c) (map (read_back L) us) s
      = for_each (take_digest m c) (concat (map (\<lambda>b. [0..<num_subs b]) us)) s" for m c s
  proof -
    have "for_each (block_digests m c) (map (read_back L) us) s
        = for_each (\<lambda>b s. for_each (take_digest m c) [0..<num_subs b] s) us s"
      by (induction us arbitrary: s) (simp_all add: block_digests_read_back)
    then show ?thesis by (simp add: for_each_concat)
  qed
  have len: "length (concat (map (\<lambda>b. [0..<num_subs b]) us)) = length missing"
    using assms by (simp add: length_concat comp_def)
  from take_digests [OF refl order_refl len] obtain s where
    run: "for_each (take_digest (flag_set (\<lambda>_. True) missing) missing) (concat (map (\<lambda>b. [0..<num_subs b]) us))
        \<lparr>dg_has_crc = bs_with_capacity (length missing), dg_crcs = replicate (length missing) 0,
          dg_next = 0, dg_next_missing = 0\<rparr> = Ok s"
    and s: "bs_ok (dg_has_crc s)" "bit_count (dg_has_crc s) = length missing"
      "\<And>i. bs_contains (dg_has_crc s) i \<longleftrightarrow> i < length missing" "dg_crcs s = missing"
    by auto
  have "dg_has_crc s = flag_set (\<lambda>_. True) missing"
    using s by (intro bs_extensional)
      (simp_all add: flag_set_def ok_insert_where bs_ok_with_capacity count_insert_where contains_insert_where)
  with run s(4) show ?thesis by (auto simp: map)
qed

section \<open>The substreams section\<close>

lemma flag_set_all_length: "length xs = length ys \<Longrightarrow> flag_set (\<lambda>_. True) xs = flag_set (\<lambda>_. True) ys"
  by (rule bs_extensional) (auto simp: ok_flag_set count_flag_set)

definition all_crcs :: "unpack_info \<Rightarrow> u32 list" where
  "all_crcs us = concat (map crcs_of_block us)"

definition subs_info_ok :: "libs \<Rightarrow> unpack_info \<Rightarrow> bool" where
  "subs_info_ok L us \<longleftrightarrow> unpack_info_ok L us \<and> list_all subs_ok us \<and> sum_list (map num_subs us) < 2 ^ 64"

definition read_sub_streams :: "unpack_info \<Rightarrow> sub_streams_info" where
  "read_sub_streams us =
     \<lparr>ss_unpack_sizes = concat (map sub_sizes us), ss_has_crc = flag_set (\<lambda>_. True) (all_crcs us),
      ss_crcs = map ucast (all_crcs us)\<rparr>"

lemma length_all_crcs: "list_all subs_ok us \<Longrightarrow> length (all_crcs us) = sum_list (map num_subs us)"
  by (induction us) (simp_all add: all_crcs_def length_crcs_of_block)

lemma parses_num_subs:
  "parses (read_num_sub_streams (map (\<lambda>b. b\<lparr>num_unpack_sub_streams := 1\<rparr>) (map (written_block L) us)))
     (concat (map (\<lambda>f. write_u64 (bi_num_sub_unpack_streams f)) us)) (map (read_back L) us)"
proof -
  have num: "parses (read_variable_usize ''numStreams'') (write_u64 (bi_num_sub_unpack_streams f)) (num_subs f)" for f
    using parses_read_variable_usize [of "num_subs f" "''numStreams''"]
      unsigned_less [of "bi_num_sub_unpack_streams f", where 'a = nat]
    by (simp add: num_subs_def)
  have "parses (read_enumerate (\<lambda>i b. and_read (read_variable_usize ''numStreams'') (\<lambda>n.
       ret (b\<lparr>num_unpack_sub_streams := n\<rparr>))) 0 (map (\<lambda>f. (written_block L f)\<lparr>num_unpack_sub_streams := 1\<rparr>) us))
     (concat (map (\<lambda>f. write_u64 (bi_num_sub_unpack_streams f)) us)) (map (read_back L) us)"
    by (intro parses_read_enumerate_map parses_and_read_eq [OF num])
      (auto simp: read_back_def intro: parses_ret)
  then show ?thesis by (simp add: read_num_sub_streams_def comp_def)
qed

definition front_sizes :: "unpack_info \<Rightarrow> bytes" where
  "front_sizes us = concat (map (\<lambda>b. if 1 < num_subs b
     then concat (map write_u64 (butlast (bi_sub_stream_sizes b))) else []) us)"

lemma front_sizes_Nil: "\<not> list_ex (\<lambda>b. 1 < num_subs b) us \<Longrightarrow> front_sizes us = []"
  by (induction us) (simp_all add: front_sizes_def)

lemma write_substreams_eq:
  assumes "list_all subs_ok us"
  shows "write_substreams us = k_sub_streams_info #
     (if list_ex (\<lambda>b. num_subs b \<noteq> 1) us
      then k_num_unpack_stream # concat (map (\<lambda>f. write_u64 (bi_num_sub_unpack_streams f)) us) else [])
     @ (if list_ex (\<lambda>b. 1 < num_subs b) us
        then k_size # front_sizes us else [])
     @ (if all_crcs us \<noteq> [] then k_crc # 1 # concat (map write_u32_le (all_crcs us)) else []) @ [k_end]"
proof -
  have iff: "b \<in> set us \<Longrightarrow> 1 < length (bi_sub_stream_sizes b) \<longleftrightarrow> 1 < num_subs b" for b
    using assms by (auto simp: list_all_iff subs_ok_def split: if_splits)
  then have "concat (map (\<lambda>b. if 1 < length (bi_sub_stream_sizes b)
        then concat (map write_u64 (butlast (bi_sub_stream_sizes b))) else []) us)
      = front_sizes us"
    by (auto simp: front_sizes_def intro!: arg_cong [where f = concat])
  moreover have "list_ex (\<lambda>b. 1 < length (bi_sub_stream_sizes b)) us = list_ex (\<lambda>b. 1 < num_subs b) us"
    using iff by (auto simp: list_ex_iff)
  ultimately show ?thesis
    by (simp add: write_substreams_def num_subs_one all_crcs_def [symmetric] write_u8_def Let_def)
qed

lemma run_all_defined:
  "n = length xs \<Longrightarrow> and_read (lift_io (read_all_or_bits n)) f (cursor_at pre (1 # post))
     = f (flag_set (\<lambda>_. True) xs) (cursor_at (pre @ [1]) post)"
  using run_flag_bytes [of n xs f pre "\<lambda>_. True" post] by (simp add: flag_bytes_def list_all_iff)

lemma parses_all_crcs:
  "n = length cs \<Longrightarrow> parses (read_defined_crcs (flag_set (\<lambda>_. True) cs) n) (concat (map write_u32_le cs)) (map ucast cs)"
  using parses_defined_crcs [of cs n "flag_set (\<lambda>_. True) cs" "\<lambda>_. True" ucast] by simp

lemma count_digests_read_back: "count_digests (map (read_back L) us) = usize_sum (map num_subs us)"
proof -
  have "map (\<lambda>b. if num_unpack_sub_streams b \<noteq> 1 \<or> \<not> block_has_crc b then num_unpack_sub_streams b else 0)
      (map (read_back L) us) = map num_subs us"
    by (simp add: read_back_def written_block_def block_default_def Let_def)
  then show ?thesis unfolding count_digests_def by (rule arg_cong)
qed

lemma parses_substreams:
  assumes ok: "subs_info_ok L us" and a: "ar_blocks a = map (written_block L) us"
  shows "parses (read_sub_streams_info a) (tl (write_substreams us))
     (a\<lparr>ar_blocks := map (read_back L) us, sub_streams := Some (read_sub_streams us)\<rparr>)"
proof -
  let ?tot = "sum_list (map num_subs us)"
  have sub: "list_all subs_ok us" "list_all (block_ok L) us" "?tot < 2 ^ 64"
    using ok by (auto simp: subs_info_ok_def unpack_info_ok_def)
  have crcs: "length (all_crcs us) = ?tot" by (rule length_all_crcs) (rule sub)
  define bs1 where "bs1 = map (\<lambda>b. b\<lparr>num_unpack_sub_streams := 1\<rparr>) (map (written_block L) us)"
  have bs1: "map (\<lambda>b. b\<lparr>num_unpack_sub_streams := 1\<rparr>) (ar_blocks a) = bs1" by (simp add: a bs1_def)
  have ones: "bs1 = map (read_back L) us" "length us = ?tot" if "\<not> list_ex (\<lambda>b. num_subs b \<noteq> 1) us"
    using that unfolding bs1_def by (induction us) (auto simp: read_back_def)
  have nums: "map num_unpack_sub_streams (map (read_back L) us) = map num_subs us"
      "map (num_unpack_sub_streams \<circ> read_back L) us = map num_subs us"
    by (simp_all add: read_back_def)
  have sizes: "nid = k_size \<or> \<not> list_ex (\<lambda>b. 1 < num_subs b) us \<Longrightarrow>
     parses (read_each (read_block_sizes nid) (map (read_back L) us) (replicate ?tot 0, 0))
     (front_sizes us) (concat (map sub_sizes us), ?tot)" for nid
    using parses_all_sizes [OF sub(2,1), of nid "[]"]
    by (simp add: list_all_iff list_ex_iff linorder_not_less front_sizes_def)
  have skip_sizes: "and_read (read_each (read_block_sizes nid) (map (read_back L) us) (replicate ?tot 0, 0)) f
      (cursor_at pre post) = f (concat (map sub_sizes us), ?tot) (cursor_at pre post)"
    if "\<not> list_ex (\<lambda>b. 1 < num_subs b) us" for nid f pre post
    using and_read_run [OF sizes, of nid f pre post] that front_sizes_Nil [OF that] by simp
  obtain s where digests: "for_each (block_digests (flag_set (\<lambda>_. True) (all_crcs us)) (map ucast (all_crcs us)))
        (map (read_back L) us)
        \<lparr>dg_has_crc = bs_with_capacity ?tot, dg_crcs = replicate ?tot 0, dg_next = 0, dg_next_missing = 0\<rparr> = Ok s"
      "dg_has_crc s = flag_set (\<lambda>_. True) (all_crcs us)" "dg_crcs s = map ucast (all_crcs us)"
    using all_digests [of "map ucast (all_crcs us)" us]
      flag_set_all_length [of "map ucast (all_crcs us) :: u64 list" "all_crcs us"] crcs by auto
  define has where "has = (all_crcs us \<noteq> [])"
  have has: "all_crcs us = [] \<longleftrightarrow> \<not> has" by (simp add: has_def)
  have "\<not> has \<Longrightarrow> flag_set (\<lambda>_. True) (all_crcs us) = bs_with_capacity (length (all_crcs us))"
      "\<not> has \<Longrightarrow> map ucast (all_crcs us) = replicate (length (all_crcs us)) 0"
    by (simp_all add: has_def flag_set_def)
  note no_crcs = this [unfolded crcs]
  have multi: "list_ex (\<lambda>b. Suc 0 < num_subs b) us \<Longrightarrow> list_ex (\<lambda>b. num_subs b \<noteq> Suc 0) us"
    by (induction us) auto
  note rules = and_read_run [OF parses_num_subs [of L us, folded bs1_def]]
    and_read_run [OF sizes] and_read_run [OF parses_all_crcs [of ?tot "all_crcs us"]]
    run_all_defined [of ?tot "all_crcs us"] reserve_new
  show ?thesis
    unfolding read_sub_streams_info_def bs1
    by (rule parsesI, cases "list_ex (\<lambda>b. num_subs b \<noteq> 1) us"; cases "list_ex (\<lambda>b. 1 < num_subs b) us";
        cases has)
      (simp_all add: write_substreams_eq [OF sub(1)] has multi ones crcs run_parser rules and_read_assoc
      skip_sizes count_digests_read_back usize_sum_exact [OF sub(3)] nums digests no_crcs read_sub_streams_def Let_def)
qed

section \<open>The streams info\<close>

definition streams_info_ok :: "libs \<Rightarrow> 'x archive_header_scheme \<Rightarrow> bool" where
  "streams_info_ok L w \<longleftrightarrow> subs_info_ok L (w_unpack_info w)
     \<and> (if pi_sizes (w_pack_info w) = [] then w_unpack_info w = [] else pack_info_ok (w_pack_info w))"

definition with_streams_info :: "libs \<Rightarrow> 'x archive_header_scheme \<Rightarrow> archive \<Rightarrow> archive" where
  "with_streams_info L w a =
     (if pi_sizes (w_pack_info w) = [] then a else with_pack_info (w_pack_info w) a)
       \<lparr>ar_blocks := map (read_back L) (w_unpack_info w),
        sub_streams := Some (read_sub_streams (w_unpack_info w))\<rparr>"

lemma write_pack_info_cons: "write_pack_info p = k_pack_info # tl (write_pack_info p)"
  by (simp add: write_pack_info_eq)

lemma write_unpack_info_cons: "write_unpack_info L us = k_unpack_info # tl (write_unpack_info L us)"
  by (simp add: write_unpack_info_eq)

lemma write_substreams_cons: "write_substreams us = k_sub_streams_info # tl (write_substreams us)"
  by (simp add: write_substreams_def write_u8_def)

lemma parses_streams_info:
  assumes ok: "streams_info_ok L w" and fresh: "ar_blocks a = []"
  shows "parses (read_streams_info a) (write_streams_info L w) (with_streams_info L w a)"
proof (rule parsesI)
  fix pre post
  let ?p = "w_pack_info w" and ?us = "w_unpack_info w"
  let ?a = "(if pi_sizes ?p = [] then a else with_pack_info ?p a)\<lparr>ar_blocks := map (written_block L) ?us\<rparr>"
  have subs: "parses (read_sub_streams_info ?a) (tl (write_substreams ?us)) (with_streams_info L w a)"
    using parses_substreams [of L ?us ?a] ok
    by (simp add: streams_info_ok_def with_streams_info_def split: if_splits)
  show "read_streams_info a (cursor_at pre (write_streams_info L w @ post))
     = Ok (with_streams_info L w a, cursor_at (pre @ write_streams_info L w) post)"
  proof (cases "pi_sizes ?p = []")
    case True
    then have "parses (read_sub_streams_info (a\<lparr>ar_blocks := []\<rparr>)) (tl (write_substreams ?us)) (with_streams_info L w a)"
      using subs ok by (simp add: streams_info_ok_def)
    note run = and_read_run [OF this]
    from True show ?thesis
      unfolding write_streams_info_def
      by (subst (1 2) write_substreams_cons)
        (simp add: read_streams_info_def run_parser and_read_assoc run write_u8_def)
  next
    case False
    then have pack: "pack_info_ok ?p" and unpack: "unpack_info_ok L ?us"
      using ok by (simp_all add: streams_info_ok_def subs_info_ok_def)
    have blocks: "ar_blocks (with_pack_info ?p a) = []" using fresh by (simp add: with_pack_info_def)
    from False subs have run: "parses (read_sub_streams_info ((with_pack_info ?p a)\<lparr>ar_blocks := map (written_block L) ?us\<rparr>))
        (tl (write_substreams ?us)) (with_streams_info L w a)" by simp
    have bytes: "write_streams_info L w = k_pack_info # tl (write_pack_info ?p) @ k_unpack_info
        # tl (write_unpack_info L ?us) @ k_sub_streams_info # tl (write_substreams ?us) @ [k_end]"
      unfolding write_streams_info_def using False
      by (subst write_pack_info_cons, subst write_unpack_info_cons, subst write_substreams_cons)
        (simp add: write_u8_def)
    show ?thesis
      unfolding bytes
      by (simp add: read_streams_info_def run_parser and_read_assoc and_read_run [OF run]
          and_read_run [OF parses_pack_info [OF pack]]
          and_read_run [OF parses_unpack_info [OF unpack blocks]])
  qed
qed

end
