(* ===== verification/Progress_Push.thy ===== *)
theory Progress_Push
  imports Archive_Solid
begin

text \<open>
  When the callback of \<open>push_archive_entry_with_progress\<close> is asked, and what its answers do. The
  reports are given by a function of the portions that the reader delivers.
\<close>

section \<open>Portions and reports\<close>

text \<open>The reader delivers these portions, each not empty, and then the end.\<close>

fun delivers :: "'s reading \<Rightarrow> usize \<Rightarrow> 's \<Rightarrow> bytes list \<Rightarrow> bool" where
  "delivers read n r [] \<longleftrightarrow> (case read r n of Ok (bs, _) \<Rightarrow> bs = [] | _ \<Rightarrow> False)"
| "delivers read n r (buf # bufs) \<longleftrightarrow> buf \<noteq> []
     \<and> (case read r n of Ok (bs, r') \<Rightarrow> bs = buf \<and> delivers read n r' bufs | _ \<Rightarrow> False)"

text \<open>The numbers of bytes after which there is a report: \<open>seen\<close> bytes were read, \<open>since\<close> of them
  before the last report, and the next report is due as soon as \<open>interval\<close> bytes have come since.\<close>

fun reports :: "nat \<Rightarrow> nat \<Rightarrow> nat \<Rightarrow> bytes list \<Rightarrow> nat list" where
  "reports interval since seen [] = []"
| "reports interval since seen (buf # bufs) =
     (let seen = seen + length buf in
      if since + interval \<le> seen then seen # reports interval seen seen bufs else reports interval since seen bufs)"

text \<open>The callback is asked in turn until it cancels.\<close>

fun asked :: "'p on_progress \<Rightarrow> (nat \<Rightarrow> progress_info) \<Rightarrow> 'p \<Rightarrow> nat list \<Rightarrow> progress_result \<times> 'p" where
  "asked f info p [] = (Continue, p)"
| "asked f info p (n # ns) = (case f p (info n) of (Cancel, p) \<Rightarrow> (Cancel, p) | (Continue, p) \<Rightarrow> asked f info p ns)"

definition report_info :: "archive_entry \<Rightarrow> usize \<Rightarrow> u64 \<Rightarrow> nat \<Rightarrow> progress_info" where
  "report_info entry i compressed n =
     \<lparr>pg_bytes_read = of_nat n, pg_bytes_written = compressed, pg_current_entry = Some (name entry),
      pg_entry_index = i, pg_total_entries = None\<rparr>"

lemma report_info_eq:
  "progress_with_index (progress_with_entry (progress_new (of_nat n) c) (name entry)) i = report_info entry i c n"
  by (simp add: progress_with_index_def progress_with_entry_def progress_new_def report_info_def)

section \<open>The loop\<close>

lemma due:
  assumes "since \<le> seen" and "seen < 2 ^ 64" and "interval < 2 ^ 64"
  shows "(of_nat interval \<le> (of_nat seen - of_nat since :: u64)) = (since + interval \<le> seen)"
proof -
  have "of_nat seen - of_nat since = (of_nat (seen - since) :: u64)" using assms(1) by (simp add: of_nat_diff)
  then show ?thesis unfolding word_le_nat_alt using assms by (auto simp only: unat_of_nat_u64 less_imp_diff_less)
qed

lemma progress_loop_asks:
  assumes law: "\<forall>w d buf. T w d \<longrightarrow> (\<exists>w'. write_all w buf = Ok w' \<and> T w' (d @ buf))"
    and "delivers read default_buffer_size r bufs" and "length bufs < fuel" and "T w d"
    and "since \<le> seen" and "seen + length (concat bufs) < 2 ^ 64" and "interval < 2 ^ 64"
  shows "case asked f (report_info entry i 0) p (reports interval since seen bufs) of
      (Cancel, _) \<Rightarrow> progress_loop f (of_nat interval) entry i read fuel (of_nat seen) (of_nat since) p r write_all w
        = Err (Other ''Operation cancelled by progress callback'')
    | (Continue, p') \<Rightarrow> \<exists>w'. progress_loop f (of_nat interval) entry i read fuel (of_nat seen) (of_nat since) p r write_all w = Ok (p', w')
        \<and> T w' (d @ concat bufs)"
  using assms(2-)
proof (induction bufs arbitrary: fuel r w d seen since p)
  case Nil
  then obtain k where "fuel = Suc k" by (cases fuel) auto
  with Nil show ?case by (auto simp: Let_def split: outcome.splits)
next
  case (Cons buf bufs)
  obtain k where fuel: "fuel = Suc k" "length bufs < k" using Cons.prems(2) by (cases fuel) auto
  obtain r' where rd: "read r default_buffer_size = Ok (buf, r')" "delivers read default_buffer_size r' bufs" and buf: "buf \<noteq> []"
    using Cons.prems(1) by (auto split: outcome.splits)
  obtain w' where w': "write_all w buf = Ok w'" "T w' (d @ buf)" using law Cons.prems(3) by blast
  let ?seen = "seen + length buf"
  have seen: "?seen + length (concat bufs) < 2 ^ 64" "since \<le> ?seen" using Cons.prems(4,5) by simp_all
  have sum: "of_nat seen + of_nat (length buf) = (of_nat ?seen :: u64)" by simp
  note again = Cons.IH [OF rd(2) fuel(2) w'(2) _ seen(1) Cons.prems(6)]
  note step = fuel(1) rd(1) w'(1) buf sum report_info_eq due [OF seen(2) _ Cons.prems(6)]
  show ?case
  proof (cases "since + interval \<le> ?seen")
    case True
    obtain answer p' where a: "f p (report_info entry i 0 ?seen) = (answer, p')" by (cases "f p (report_info entry i 0 ?seen)")
    show ?thesis
    proof (cases answer)
      case Cancel
      with True a seen show ?thesis by (simp add: step Let_def del: of_nat_add)
    next
      case Continue
      with True a seen again [of ?seen p'] show ?thesis
        by (simp add: step Let_def del: of_nat_add split: prod.splits progress_result.splits)
    qed
  next
    case False
    with seen again [of since p] show ?thesis
      by (simp add: step Let_def del: of_nat_add split: prod.splits progress_result.splits)
  qed
qed

section \<open>Adding the entry\<close>

text \<open>An error of the loop, whatever it has written before, is the error of the encoding.\<close>

lemma encode_fails:
  fixes copy :: "('e, 'o) encoding write_all \<Rightarrow> ('e, 'o) encoding \<Rightarrow> ('r \<times> ('e, 'o) encoding) result"
  assumes base: "output_ok E took finished" and ok: "methods_ok E methods ps" and out: "took out []"
    and copy: "\<And>T write_all w. (\<forall>w d buf. T w d \<longrightarrow> (\<exists>w'. write_all w buf = Ok w' \<and> T w' (d @ buf))) \<Longrightarrow> T w [] \<Longrightarrow>
      copy write_all w = Err e"
  shows "encode E methods out copy fe ee = Err e"
proof -
  let ?O = "encoding_ops E (length methods)"
  obtain T F w0 where O: "finishing_sink (io_write ?O) (write_all_default (io_write ?O)) (io_flush ?O) T F"
    and began: "start_encoding E methods out = Ok w0" "T w0 []"
    by (rule encoding_sink [OF base ok out]) (rule that; assumption)
  have "\<forall>w d buf. T w d \<longrightarrow> (\<exists>w'. write_all_default (io_write ?O) w buf = Ok w' \<and> T w' (d @ buf))"
    using byte_sink.write_every [OF finishing_sink.axioms(1) [OF O]] by blast
  from copy [OF this began(2)] show ?thesis by (simp add: encode_def began(1) del: write_all_default.simps)
qed

lemma push_with_progress_asks:
  fixes E :: "('e, 'o) writer_env"
  assumes ok: "can_push E ps took finished aw" and src: "delivers read default_buffer_size r bufs" "length bufs < fuel"
    and small: "length (concat bufs) < 2 ^ 64" "interval < 2 ^ 64" and no_dir: "\<not> is_directory entry"
  shows "case asked f (report_info entry (length (w_files aw)) 0) p (reports interval 0 0 bufs) of
      (Cancel, _) \<Rightarrow> push_archive_entry_with_progress E read fuel f aw entry (Some r) p (of_nat interval)
        = Err (Other ''Operation cancelled by progress callback'')
    | (Continue, p') \<Rightarrow> \<exists>aw'. entry_added E ps finished aw entry (concat bufs) aw'
        \<and> push_archive_entry_with_progress E read fuel f aw entry (Some r) p (of_nat interval)
          = Ok (snd (f p' (report_info entry (length (w_files aw)) (compressed_size (last (w_files aw'))) (length (concat bufs)))), aw')"
proof -
  let ?i = "length (w_files aw)" and ?err = "\<lambda>e. Io e (encode_entry_message entry)"
  let ?copy = "progress_loop f (of_nat interval) entry ?i read fuel 0 0 p r"
  have loop: "case asked f (report_info entry ?i 0) p (reports interval 0 0 bufs) of
      (Cancel, _) \<Rightarrow> ?copy write_all w = Err (Other ''Operation cancelled by progress callback'')
    | (Continue, p') \<Rightarrow> \<exists>w'. ?copy write_all w = Ok (p', w') \<and> T w' (d @ concat bufs)"
    if "\<forall>w d buf. T w d \<longrightarrow> (\<exists>w'. write_all w buf = Ok w' \<and> T w' (d @ buf))" "T w d"
    for T and write_all :: "('e, 'o) encoding write_all" and w d
    using progress_loop_asks [OF that(1) src that(2), of 0 0 interval f entry ?i p] small by (simp split: prod.splits progress_result.splits)
  obtain answer p' where asked: "asked f (report_info entry ?i 0) p (reports interval 0 0 bufs) = (answer, p')"
    by (cases "asked f (report_info entry ?i 0) p (reports interval 0 0 bufs)")
  show ?thesis
  proof (cases answer)
    case Cancel
    have base: "output_ok E took finished" "methods_ok E (w_content_methods aw) ps" "took (w_output aw) []"
      using ok by (simp_all add: can_push_def)
    have "encode E (w_content_methods aw) (w_output aw) ?copy ?err ?err = Err (Other ''Operation cancelled by progress callback'')"
    proof (rule encode_fails [OF base])
      fix T and write_all :: "('e, 'o) encoding write_all" and w
      assume "\<forall>w d buf. T w d \<longrightarrow> (\<exists>w'. write_all w buf = Ok w' \<and> T w' (d @ buf))" "T w []"
      from loop [OF this] asked Cancel show "?copy write_all w = Err (Other ''Operation cancelled by progress callback'')" by simp
    qed
    then show ?thesis using no_dir asked Cancel by (simp add: push_archive_entry_with_progress_def Let_def)
  next
    case Continue
    have "copies ?copy (concat bufs) (\<lambda>q. q = p')"
    proof (rule copiesI)
      fix T and write_all :: "'w write_all" and w :: 'w and d :: bytes
      assume law: "\<And>w d buf. T w d \<Longrightarrow> \<exists>w'. write_all w buf = Ok w' \<and> T w' (d @ buf)" and "T w d"
      then show "\<exists>q w'. ?copy write_all w = Ok (q, w') \<and> q = p' \<and> T w' (d @ concat bufs)"
        using progress_loop_asks [OF _ src, of T write_all w d 0 0 interval f entry ?i p] small asked Continue by auto
    qed
    then obtain q w c ns where w: "encode E (w_content_methods aw) (w_output aw) ?copy ?err ?err = Ok (q, w)" "q = p'"
      "encoded E ps finished w (concat bufs) c ns" by (rule encode_entry [OF ok])
    let ?aw' = "add_streamed E aw w (wr_bytes_written w) entry"
    have "wr_bytes_written w = length (concat bufs)" using w(3) small(1) by (simp add: encoded_def)
    moreover have "compressed_size (last (w_files ?aw')) = of_nat (wr_bytes_written (snd (wr_writer w)))"
      by (simp add: add_streamed_def streamed_entry_def Let_def)
    moreover have "entry_added E ps finished aw entry (concat bufs) ?aw'"
      by (rule add_streamed_adds [OF w(3) streamed_size [OF w(3)]])
    ultimately show ?thesis using no_dir w(1,2) asked Continue
      by (auto simp: push_archive_entry_with_progress_def Let_def report_info_eq intro!: exI [of _ ?aw'])
  qed
qed

end
