(* ===== verification/Writer_Properties.thy ===== *)
theory Writer_Properties
  imports Demo_Environment Substreams_Roundtrip Progress_Push
begin

text \<open>
  Properties of the writer. Every function that adds entries records the same facts about them
  (\<open>entry_added\<close>, \<open>solid_added\<close>), and whatever functions are called, the tables of the writer stay
  consistent (\<open>tables_kept\<close>), up to two kinds of entries that are counted.
\<close>

section \<open>Adding entries\<close>

text \<open>C22: the three functions that take a reader add the same entry. Whatever portions the
  reader delivers, the packed stream is a code of the contents by the encoders, the last method
  outermost, and the sizes and CRCs that are recorded are those of the contents and of the
  packed stream.\<close>

theorem push_entry_adds:
  assumes "can_push E ps took finished aw" and "byte_source read contents ready" and "ready r"
    and "length (contents r) < fuel" and "\<not> is_directory entry"
  shows "(\<exists>aw'. push_archive_entry E read fuel aw entry (Some r) = Ok aw' \<and> entry_added E ps finished aw entry (contents r) aw')
     \<and> (\<exists>aw'. push_archive_entry_small E read fuel aw entry (Some r) = Ok aw' \<and> entry_added E ps finished aw entry (contents r) aw')
     \<and> (\<exists>aw'. push_archive_entry_fast E read fuel aw entry (Some r) n = Ok aw' \<and> entry_added E ps finished aw entry (contents r) aw')"
  by (intro conjI byte_source.push_adds [OF assms(2,1,3,4,5)])

theorem push_entry_adds_witness:
  "\<exists>aw'. push_archive_entry demo_env slice_read 4 demo_writer (new_file [97]) (Some [1, 2, 3]) = Ok aw'
     \<and> entry_added demo_env demo_encoders (cursor_took (replicate 32 0)) demo_writer (new_file [97]) [1, 2, 3] aw'"
  using push_entry_adds [OF demo_can_push slice.byte_source_axioms, of "[1, 2, 3]" 4 "new_file [97]"]
  by (simp add: new_file_def entry_default_def)

text \<open>C23: with a progress callback that never cancels, and with the buffers of a pool, the entry
  is added in the same way.\<close>

theorem push_observed_adds:
  assumes "can_push E ps took finished aw" and "byte_source read contents ready" and "ready r"
    and "length (contents r) < fuel" and "\<not> is_directory entry" and "never_cancels f"
    and "\<forall>p. pool = Some p \<longrightarrow> (\<exists>b p'. pool_get p = (Some b, p') \<and> b \<noteq> [])"
  shows "(\<exists>p' aw'. push_archive_entry_with_progress E read fuel f aw entry (Some r) p interval = Ok (p', aw')
          \<and> entry_added E ps finished aw entry (contents r) aw')
     \<and> (\<exists>pool' aw'. push_archive_entry_batched E read fuel aw entry (Some r) pool = Ok (pool', aw')
          \<and> entry_added E ps finished aw entry (contents r) aw')"
  by (intro conjI byte_source.push_with_progress_adds [OF assms(2,1,3,4,5,6)]
      byte_source.push_batched_adds [OF assms(2,1,3,4,5,7)])

theorem push_observed_adds_witness:
  "\<exists>pool' aw'. push_archive_entry_batched demo_env slice_read 4 demo_writer (new_file [97]) (Some [1, 2, 3]) (Some (pool_new 2 5)) = Ok (pool', aw')
     \<and> entry_added demo_env demo_encoders (cursor_took (replicate 32 0)) demo_writer (new_file [97]) [1, 2, 3] aw'"
proof -
  have "never_cancels (\<lambda>(p :: nat) i. (Continue, p))" by (simp add: never_cancels_def)
  moreover have "\<forall>p. Some (pool_new 2 5) = Some p \<longrightarrow> (\<exists>b p'. pool_get p = (Some b, p') \<and> b \<noteq> [])"
    by (simp add: pool_new_def pool_get_def clamp_def buffer_sizes)
  ultimately show ?thesis
    by (intro conjunct2 [OF push_observed_adds [where p = "0 :: nat" and interval = 0,
            OF demo_can_push slice.byte_source_axioms, of "[1, 2, 3]" 4 "new_file [97]"]])
      (simp_all add: new_file_def entry_default_def)
qed

text \<open>C24: when the callback of \<open>push_archive_entry_with_progress\<close> is asked, and what its answers
  do. The reader delivers some portions; the callback is asked with the number of bytes read so far
  whenever at least the interval has come since the last report. As soon as it answers \<open>Cancel\<close>, at
  whichever of these reports, the call fails with the error of a cancelled operation. If it never
  does, the entry is added with all the data, and the callback has one more report, with the sizes
  before and after compression, whose answer is ignored.\<close>

theorem cancelled_push_fails:
  assumes "can_push E ps took finished aw" and "delivers read default_buffer_size r bufs" and "length bufs < fuel"
    and "length (concat bufs) < 2 ^ 64" and "interval < 2 ^ 64" and "\<not> is_directory entry"
  shows "case asked f (report_info entry (length (w_files aw)) 0) p (reports interval 0 0 bufs) of
      (Cancel, _) \<Rightarrow> push_archive_entry_with_progress E read fuel f aw entry (Some r) p (of_nat interval)
        = Err (Other ''Operation cancelled by progress callback'')
    | (Continue, p') \<Rightarrow> \<exists>aw'. entry_added E ps finished aw entry (concat bufs) aw'
        \<and> push_archive_entry_with_progress E read fuel f aw entry (Some r) p (of_nat interval)
          = Ok (snd (f p' (report_info entry (length (w_files aw)) (compressed_size (last (w_files aw'))) (length (concat bufs)))), aw')"
  by (rule push_with_progress_asks [OF assms])

text \<open>Three portions and an interval of three bytes: the reports come after four and seven bytes. A
  callback that cancels its second report stops the call, one that would cancel a third does not.\<close>

definition portions_read :: "bytes list reading" where
  "portions_read r n = (case r of [] \<Rightarrow> Ok ([], []) | buf # bufs \<Rightarrow> Ok (buf, bufs))"

definition cancel_from :: "nat \<Rightarrow> nat on_progress" where
  "cancel_from k n info = (if k \<le> n then (Cancel, n) else (Continue, Suc n))"

theorem cancelled_push_fails_witness:
  "reports 3 0 0 [[1, 2], [3, 4], [5, 6, 7]] = [4, 7]
     \<and> push_archive_entry_with_progress demo_env portions_read 4 (cancel_from 1) demo_writer (new_file [97])
         (Some [[1, 2], [3, 4], [5, 6, 7]]) 0 (of_nat 3) = Err (Other ''Operation cancelled by progress callback'')
     \<and> (\<exists>p' aw'. push_archive_entry_with_progress demo_env portions_read 4 (cancel_from 2) demo_writer (new_file [97])
         (Some [[1, 2], [3, 4], [5, 6, 7]]) 0 (of_nat 3) = Ok (p', aw'))"
proof -
  let ?bufs = "[[1, 2], [3, 4], [5, 6, 7]] :: bytes list"
  have r: "delivers portions_read default_buffer_size ?bufs ?bufs" by (simp add: portions_read_def)
  have no_dir: "\<not> is_directory (new_file [97])" by (simp add: new_file_def entry_default_def)
  have asks: "reports 3 0 0 ?bufs = [4, 7]" by simp
  show ?thesis
    using cancelled_push_fails [OF demo_can_push r _ _ _ no_dir, where fuel = 4 and interval = 3 and p = 0 and f = "cancel_from 1"]
      cancelled_push_fails [OF demo_can_push r _ _ _ no_dir, where fuel = 4 and interval = 3 and p = 0 and f = "cancel_from 2"]
    by (auto simp: asks cancel_from_def)
qed

text \<open>A buffer that a client of the pool has emptied: nothing is read into it, and the file is added
  as if it were empty.\<close>

lemma emptied_buffer_loses_contents:
  assumes "can_push E ps took finished aw" and "byte_source read contents ready" and "ready r" and "0 < fuel"
    and "\<not> is_directory entry" and "pool_get p = (Some [], p')"
  shows "\<exists>pool' aw'. push_archive_entry_batched E read fuel aw entry (Some r) (Some p) = Ok (pool', aw')
     \<and> entry_added E ps finished aw entry [] aw'"
proof -
  let ?err = "\<lambda>e. Io e (encode_entry_message entry)"
  obtain k where k: "fuel = Suc k" using assms(4) by (cases fuel) auto
  obtain bs r' where "read r 0 = Ok (bs, r')" using byte_source.total [OF assms(2,3)] by blast
  moreover from byte_source.next_bytes [OF assms(2,3) this] have "bs = []" by simp
  ultimately have rd: "read r 0 = Ok ([], r')" by simp
  have "copies (encode_loop read 0 ?err ?err fuel 0 r) [] (\<lambda>m. m = 0)"
    by (rule copiesI) (simp add: k rd)
  then obtain m w c ns where w: "encode E (w_content_methods aw) (w_output aw) (encode_loop read 0 ?err ?err fuel 0 r) ?err ?err = Ok (m, w)"
    "m = 0" "encoded E ps finished w [] c ns" by (rule encode_entry [OF assms(1)])
  from add_streamed_adds [OF w(3), of m aw entry] w(1,2) assms(5,6) show ?thesis
    by (auto simp: push_archive_entry_batched_def Let_def)
qed

text \<open>Data in memory is added in the same way as long as it is not empty.\<close>

theorem push_bytes_adds_entry:
  assumes "can_push E ps took finished aw" and "data \<noteq> []" and "\<not> is_directory entry"
  shows "\<exists>aw'. push_archive_entry_bytes E aw entry data = Ok aw' \<and> entry_added E ps finished aw entry data aw'"
  by (rule push_bytes_adds [OF assms])

theorem push_bytes_adds_entry_witness:
  "\<exists>aw'. push_archive_entry_bytes demo_env demo_writer (new_file [97]) [1, 2, 3] = Ok aw'
     \<and> entry_added demo_env demo_encoders (cursor_took (replicate 32 0)) demo_writer (new_file [97]) [1, 2, 3] aw'"
  by (rule push_bytes_adds_entry [OF demo_can_push]) (simp_all add: new_file_def entry_default_def)

text \<open>C25: the solid functions encode the sources one after the other into a single packed
  stream, and record for each source its own size and CRC. \<open>push_archive_entries\<close> gets them from
  the sources, \<open>push_solid_entries_parallel\<close> from the streams of a provider, here the one that
  holds vectors: its blocking calls end.\<close>

theorem push_solid_adds_all:
  assumes "can_push E ps took finished aw" and "length entries = length ds" and "length (concat ds) < fuel"
  shows "(\<exists>aw'. push_archive_entries E slice_read fuel aw entries (map source_new ds) = Ok aw'
          \<and> solid_added E ps finished aw (map2 (entry_of (we_crc32 E)) entries ds) ds aw')
     \<and> (entries \<noteq> [] \<longrightarrow> length ds \<le> 2 ^ 32 \<longrightarrow> 0 < so_buffer_size config \<longrightarrow>
        (\<exists>p' aw'. push_solid_entries_parallel E vec_provider_ops slice_read fuel aw entries (vec_provider_new ds) config = Ok (p', aw')
          \<and> solid_added E ps finished aw
               (map2 (\<lambda>e d. (entry_of (we_crc32 E) e d)\<lparr>has_stream := True\<rparr>) entries ds) ds aw'))"
proof (intro conjI impI)
  show "\<exists>aw'. push_archive_entries E slice_read fuel aw entries (map source_new ds) = Ok aw'
          \<and> solid_added E ps finished aw (map2 (entry_of (we_crc32 E)) entries ds) ds aw'"
    using slice.push_entries_adds [OF assms(1), of ds fuel entries] assms(2,3) by (simp add: list_all_iff)
next
  assume some: "entries \<noteq> []" "length ds \<le> 2 ^ 32" "0 < so_buffer_size config"
  have "length d < fuel" if "d \<in> set ds" for d
    using assms(3) that member_le_sum_list [of "length d" "map length ds"] by (auto simp: length_concat)
  moreover have "slice_solid.streams_from (vec_provider_new ds) 0 ds"
    by (simp add: slice_solid.streams_from_def vec_offers_def vec_provider_new_def)
  ultimately show "\<exists>p' aw'. push_solid_entries_parallel E vec_provider_ops slice_read fuel aw entries (vec_provider_new ds) config = Ok (p', aw')
          \<and> solid_added E ps finished aw
               (map2 (\<lambda>e d. (entry_of (we_crc32 E) e d)\<lparr>has_stream := True\<rparr>) entries ds) ds aw'"
    using slice_solid.push_solid_adds [OF assms(1) some(3), of ds fuel entries "vec_provider_new ds"] some assms(2) by simp
qed

theorem push_solid_adds_all_witness:
  "\<exists>aw'. push_archive_entries demo_env slice_read 9 demo_writer [new_file [97], new_file [98]] (map source_new [[1, 2], [3]]) = Ok aw'
     \<and> solid_added demo_env demo_encoders (cursor_took (replicate 32 0)) demo_writer
         (map2 (entry_of demo_crc) [new_file [97], new_file [98]] [[1, 2], [3]]) [[1, 2], [3]] aw'"
  using push_solid_adds_all [OF demo_can_push, of "[new_file [97], new_file [98]]" "[[1, 2], [3]]" 9] by simp

section \<open>The tables of the writer\<close>

text \<open>What the writer may never lose: a size, a CRC and a block for every packed stream, as many
  streamed entries as substreams, and blocks whose lists have an element for each substream
  when there are several.\<close>

definition streams_counted :: "'x archive_header_scheme \<Rightarrow> bool" where
  "streams_counted aw \<longleftrightarrow> length (filter has_stream (w_files aw)) = sum_list (map num_subs (w_unpack_info aw))"

definition block_shape :: "block_info \<Rightarrow> bool" where
  "block_shape b \<longleftrightarrow> bi_methods b \<noteq> [] \<and> bi_sizes b \<noteq> []
     \<and> (if 1 < num_subs b
        then length (bi_sub_stream_sizes b) = num_subs b \<and> length (bi_sub_stream_crcs b) = num_subs b
        else length (bi_sub_stream_sizes b) \<le> 1 \<and> length (bi_sub_stream_crcs b) \<le> 1)"

definition writer_ok :: "'x archive_header_scheme \<Rightarrow> bool" where
  "writer_ok aw \<longleftrightarrow> w_content_methods aw \<noteq> []
     \<and> length (pi_sizes (w_pack_info aw)) = length (w_unpack_info aw)
     \<and> length (pi_crcs (w_pack_info aw)) = length (w_unpack_info aw)
     \<and> list_all block_shape (w_unpack_info aw) \<and> streams_counted aw"

text \<open>The same when \<open>e\<close> entries are marked as streamed that have no stream, and \<open>u\<close> streams belong
  to entries without the mark.\<close>

definition tables_kept :: "nat \<Rightarrow> nat \<Rightarrow> 'x archive_header_scheme \<Rightarrow> bool" where
  "tables_kept e u aw \<longleftrightarrow> w_content_methods aw \<noteq> []
     \<and> length (pi_sizes (w_pack_info aw)) = length (w_unpack_info aw)
     \<and> length (pi_crcs (w_pack_info aw)) = length (w_unpack_info aw)
     \<and> list_all block_shape (w_unpack_info aw)
     \<and> length (filter has_stream (w_files aw)) + u = sum_list (map num_subs (w_unpack_info aw)) + e"

lemma tables_kept_ok: "tables_kept e u aw \<Longrightarrow> writer_ok aw \<longleftrightarrow> e = u"
  by (auto simp: tables_kept_def writer_ok_def streams_counted_def)

text \<open>A successful call of a function of the writer. Two of them can unbalance the streams: the
  step notes for how many entries. The number of entries in a vector is a \<open>usize\<close>.\<close>

inductive writer_step ::
    "('e, 'o) writer_env \<Rightarrow> 's reading \<Rightarrow> nat \<Rightarrow> ('p, 's) provider_ops \<Rightarrow> 'c on_progress \<Rightarrow>
     'o archive_writer \<Rightarrow> nat \<Rightarrow> nat \<Rightarrow> 'o archive_writer \<Rightarrow> bool"
  for E read fuel P f where
  step_methods: "writer_step E read fuel P f aw 0 0 (set_content_methods aw methods)"
| step_encrypt: "writer_step E read fuel P f aw 0 0 (set_encrypt_header aw enabled)"
| step_comment: "writer_step E read fuel P f aw 0 0 (set_comment aw s)"
| step_clear: "writer_step E read fuel P f aw 0 0 (clear_comment aw)"
| step_parallel: "writer_step E read fuel P f aw 0 0 (configure_parallel (we_libs E) aw config level)"
| step_entry: "push_archive_entry E read fuel aw entry reader = Ok aw' \<Longrightarrow> writer_step E read fuel P f aw 0 0 aw'"
| step_small: "push_archive_entry_small E read fuel aw entry reader = Ok aw' \<Longrightarrow> writer_step E read fuel P f aw 0 0 aw'"
| step_fast: "push_archive_entry_fast E read fuel aw entry reader n = Ok aw' \<Longrightarrow> writer_step E read fuel P f aw 0 0 aw'"
| step_progress: "push_archive_entry_with_progress E read fuel f aw entry reader c interval = Ok (c', aw') \<Longrightarrow>
     writer_step E read fuel P f aw 0 0 aw'"
| step_batched: "push_archive_entry_batched E read fuel aw entry reader pool = Ok (pool', aw') \<Longrightarrow> writer_step E read fuel P f aw 0 0 aw'"
| step_bytes: "push_archive_entry_bytes E aw entry data = Ok aw' \<Longrightarrow>
     writer_step E read fuel P f aw (if \<not> is_directory entry \<and> data = [] then 1 else 0) 0 aw'"
| step_adaptive: "push_archive_entry_adaptive E fuel aw entry data thresholds = Ok aw' \<Longrightarrow> writer_step E read fuel P f aw 0 0 aw'"
| step_entries: "push_archive_entries E read fuel aw entries readers = Ok aw' \<Longrightarrow> length entries < 2 ^ 64 \<Longrightarrow>
     writer_step E read fuel P f aw 0 (length (filter (\<lambda>e. \<not> has_stream e) entries)) aw'"
| step_solid: "push_solid_entries_parallel E P read fuel aw entries p config = Ok (p', aw') \<Longrightarrow> length entries < 2 ^ 64 \<Longrightarrow>
     writer_step E read fuel P f aw 0 0 aw'"

inductive writer_reachable ::
    "('e, 'o) writer_env \<Rightarrow> 's reading \<Rightarrow> nat \<Rightarrow> ('p, 's) provider_ops \<Rightarrow> 'c on_progress \<Rightarrow>
     nat \<Rightarrow> nat \<Rightarrow> 'o archive_writer \<Rightarrow> bool"
  for E read fuel P f where
  reach_new: "archive_writer_new E out = Ok aw \<Longrightarrow> writer_reachable E read fuel P f 0 0 aw"
| reach_step: "writer_reachable E read fuel P f e u aw \<Longrightarrow> writer_step E read fuel P f aw e' u' aw' \<Longrightarrow>
     writer_reachable E read fuel P f (e + e') (u + u') aw'"

lemma num_subs_single: "num_subs \<lparr>bi_methods = ms, bi_sizes = sizes, bi_crc = c, bi_num_sub_unpack_streams = 1,
       bi_sub_stream_sizes = [], bi_sub_stream_crcs = []\<rparr> = 1"
  by (simp add: num_subs_def)

lemma tables_kept_empty: "tables_kept e u aw \<Longrightarrow> tables_kept e u (add_empty aw entry)"
  by (simp add: tables_kept_def add_empty_def)

lemma tables_kept_streamed: "tables_kept e u aw \<Longrightarrow> tables_kept e u (add_streamed E aw w n entry)"
  by (simp add: tables_kept_def add_streamed_def streamed_entry_def add_stream_def unpack_add_def
      block_shape_def num_subs_def collect_sizes_eq Let_def)

lemma tables_kept_solid:
  assumes "tables_kept e u aw" and "length sizes = length entries" and "length crcs = length entries"
    and "length entries < 2 ^ 64"
  shows "tables_kept e (u + length (filter (\<lambda>e. \<not> has_stream e) entries)) (add_solid E aw w sizes crcs entries)"
proof -
  have "length (filter has_stream entries) + length (filter (\<lambda>e. \<not> has_stream e) entries) = length entries"
    by (rule sum_length_filter_compl)
  with assms show ?thesis
    by (simp add: tables_kept_def add_solid_def add_stream_def unpack_add_multiple_def
        block_shape_def num_subs_def collect_sizes_eq Let_def unat_of_nat_u64)
qed

text \<open>The readers of a sequence stay as many as they are, and the streams of a provider are
  counted.\<close>

lemma seq_read_length: "seq_read read q n = Ok (bs, q') \<Longrightarrow> length (sq_readers q') = length (sq_readers q)"
proof (induction "length (sq_readers q) - sq_current q" arbitrary: q)
  case 0
  then show ?case by (subst (asm) seq_read.simps) auto
next
  case (Suc d)
  then have less: "sq_current q < length (sq_readers q)" by simp
  let ?next = "\<lambda>s. q\<lparr>sq_readers := (sq_readers q)[sq_current q := s]\<rparr>"
  from Suc.prems less obtain bs1 s where rd: "read (sq_readers q ! sq_current q) n = Ok (bs1, s)"
    by (subst (asm) seq_read.simps) (auto simp: and_then_Ok_iff)
  show ?case
  proof (cases "bs1 = []")
    case True
    with Suc.prems less rd have "seq_read read ((?next s)\<lparr>sq_current := sq_current q + 1\<rparr>) n = Ok (bs, q')"
      by (subst (asm) seq_read.simps) (simp add: Let_def)
    from Suc.hyps(1) [OF _ this] Suc.hyps(2) show ?thesis by simp
  next
    case False
    with Suc.prems less rd show ?thesis by (subst (asm) seq_read.simps) (auto simp: Let_def)
  qed
qed

lemma sources_loop_length:
  "sources_loop (seq_read read) err fuel q write_all w = Ok (q', w') \<Longrightarrow> length (sq_readers q') = length (sq_readers q)"
proof (induction fuel arbitrary: q w)
  case (Suc fuel)
  then obtain buf q1 where rd: "seq_read read q default_buffer_size = Ok (buf, q1)"
    by (cases "seq_read read q default_buffer_size") auto
  show ?case
  proof (cases "buf = []")
    case True
    with Suc.prems rd have "q' = q1" by simp
    with seq_read_length [OF rd] show ?thesis by simp
  next
    case False
    with Suc.prems rd obtain w1 where "sources_loop (seq_read read) err fuel q1 write_all w1 = Ok (q', w')"
      by (auto simp: and_then_Ok_iff simp del: seq_read.simps)
    from Suc.IH [OF this] seq_read_length [OF rd] show ?thesis by simp
  qed
qed simp

text \<open>A successful encoding copied.\<close>

lemma encode_copied: "encode E methods out copy fe ee = Ok (r, w) \<Longrightarrow> \<exists>wa w0 w1. copy wa w0 = Ok (r, w1)"
  by (auto simp: encode_def Let_def and_then_Ok_iff)

lemma solid_entry_stats:
  "solid_entry P read crc32 n fuel entries wa i (p, stats, w) = Ok (p', stats', w') \<Longrightarrow> length stats' = Suc (length stats)"
  by (auto simp: solid_entry_def and_then_Ok_iff split: prod.splits option.splits)

lemma solid_entries_stats:
  "for_each (solid_entry P read crc32 n fuel entries wa) is (p, stats, w) = Ok (p', stats', w') \<Longrightarrow>
   length stats' = length stats + length is"
proof (induction "is" arbitrary: p stats w)
  case (Cons i "is")
  then obtain p1 stats1 w1 where one: "solid_entry P read crc32 n fuel entries wa i (p, stats, w) = Ok (p1, stats1, w1)"
    "for_each (solid_entry P read crc32 n fuel entries wa) is (p1, stats1, w1) = Ok (p', stats', w')"
    by (auto simp: and_then_Ok_iff)
  from Cons.IH [OF one(2)] solid_entry_stats [OF one(1)] show ?case by simp
qed auto

lemma solid_batches_stats:
  assumes "solid_batches P read crc32 n fuel b entries wa k (p, stats, w) = Ok (p', stats', w')" and "length stats = k"
    and "k \<le> length entries"
  shows "length stats' = length entries"
  using assms
proof (induction "length entries - k" arbitrary: k p stats w rule: less_induct)
  case less
  show ?case
  proof (cases "k < length entries")
    case True
    let ?stop = "min (k + max 1 b) (length entries)"
    let ?p = "pv_prepare_streams P p (map of_nat [k..<?stop])"
    from less.prems(1) True obtain p1 stats1 w1 where
      one: "for_each (solid_entry P read crc32 n fuel entries wa) [k..<?stop] (?p, stats, w) = Ok (p1, stats1, w1)"
        "solid_batches P read crc32 n fuel b entries wa ?stop (p1, stats1, w1) = Ok (p', stats', w')"
      by (subst (asm) solid_batches.simps) (auto simp: and_then_Ok_iff Let_def)
    have len: "length stats1 = ?stop"
      using solid_entries_stats [OF one(1)] less.prems(2) True by simp
    show ?thesis by (rule less.hyps [OF _ one(2) len]) (use True in auto)
  next
    case False
    with less.prems show ?thesis by (subst (asm) solid_batches.simps) auto
  qed
qed

lemma tables_kept_entries:
  assumes "tables_kept e u aw" and "push_archive_entries E read fuel aw entries readers = Ok aw'" and "length entries < 2 ^ 64"
  shows "tables_kept e (u + length (filter (\<lambda>e. \<not> has_stream e) entries)) aw'"
proof -
  let ?es = "\<lambda>q. map source_entry (zip entries (sq_readers q))"
  from assms(2) obtain q w fe ee where len: "length readers = length entries"
    and enc: "encode E (w_content_methods aw) (w_output aw)
        (sources_loop (seq_read (source_read (we_crc32 E) read)) fe fuel (seq_new readers)) ee ee = Ok (q, w)"
    and aw': "aw' = add_solid E aw w (map entry_size (?es q)) (map (\<lambda>e. ucast (crc e)) (?es q)) (?es q)"
    by (auto simp: push_archive_entries_def and_then_Ok_iff Let_def split: if_splits)
  from encode_copied [OF enc] have same: "length (sq_readers q) = length entries"
    using sources_loop_length len by (fastforce simp: seq_new_def)
  have "map has_stream (?es q) = map has_stream (map fst (zip entries (sq_readers q)))" by (auto simp: source_entry_def)
  then have marks: "map has_stream (?es q) = map has_stream entries" using same by (simp only: map_fst_zip)
  have "length (filter (\<lambda>e. \<not> has_stream e) es) = length (filter Not (map has_stream es))" for es
    by (simp add: filter_map comp_def)
  from this [of "?es q"] this [of entries] have "length (filter (\<lambda>e. \<not> has_stream e) (?es q)) = length (filter (\<lambda>e. \<not> has_stream e) entries)"
    unfolding marks by simp
  moreover have "length (?es q) = length entries" using same by simp
  ultimately show ?thesis
    unfolding aw' using tables_kept_solid [OF assms(1), of "map entry_size (?es q)" "?es q" "map (\<lambda>e. ucast (crc e)) (?es q)" E w] assms(3)
    by (simp only: length_map)
qed

lemma tables_kept_solid_checked:
  assumes "tables_kept e u aw" and "push_solid_checked E P read fuel aw entries p config = Ok (p', aw')" and "length entries < 2 ^ 64"
  shows "tables_kept e u aw'"
proof -
  let ?b = "max (min (so_batch_size config) (pv_parallelism P p)) 1"
  let ?copy = "\<lambda>write_all w. and_then (solid_batches P read (we_crc32 E) (so_buffer_size config) fuel ?b entries write_all 0 (p, [], w))
      (\<lambda>(p, stats, w). Ok ((p, stats), w))"
  from assms(2) obtain stats w fe ee where
    enc: "encode E (w_content_methods aw) (w_output aw) ?copy fe ee = Ok ((p', stats), w)"
    and aw': "aw' = add_solid E aw w (map fst stats) (map snd stats) (map stats_entry (zip entries stats))"
    unfolding push_solid_checked_def and_then_Ok_iff Let_def by (auto split: prod.splits)
  from encode_copied [OF enc] have n: "length stats = length entries"
    by (auto simp: and_then_Ok_iff dest!: solid_batches_stats)
  have "filter (\<lambda>e. \<not> has_stream e) (map stats_entry (zip entries stats)) = []"
    by (rule filter_False) (auto simp: stats_entry_def)
  with tables_kept_solid [OF assms(1), of "map fst stats" "map stats_entry (zip entries stats)" "map snd stats" E w] assms(3) n
  show ?thesis unfolding aw' by simp
qed

lemma tables_kept_setters:
  "tables_kept e u aw \<Longrightarrow> tables_kept e u (set_content_methods aw methods)"
  "tables_kept e u aw \<Longrightarrow> tables_kept e u (set_encrypt_header aw enabled)"
  "tables_kept e u aw \<Longrightarrow> tables_kept e u (set_comment aw s)"
  "tables_kept e u aw \<Longrightarrow> tables_kept e u (clear_comment aw)"
  "tables_kept e u aw \<Longrightarrow> tables_kept e u (configure_parallel L aw config level)"
  by (simp_all add: tables_kept_def set_content_methods_def set_encrypt_header_def set_comment_def clear_comment_def
      configure_parallel_def)

lemmas tables_kept_pushes = tables_kept_empty tables_kept_streamed

lemma tables_kept_small:
  "push_archive_entry_small E read fuel aw entry reader = Ok aw' \<Longrightarrow> tables_kept e u aw \<Longrightarrow> tables_kept e u aw'"
  by (auto simp: push_archive_entry_small_def Let_def and_then_Ok_iff tables_kept_pushes split: option.splits if_splits)

lemma tables_kept_bytes:
  assumes "push_archive_entry_bytes E aw entry data = Ok aw'" and "tables_kept e u aw"
  shows "tables_kept (e + (if \<not> is_directory entry \<and> data = [] then 1 else 0)) u aw'"
proof (cases "is_directory entry \<or> data = []")
  case True
  with assms show ?thesis by (auto simp: push_archive_entry_bytes_def tables_kept_def)
next
  case False
  with assms show ?thesis by (auto simp: push_archive_entry_bytes_def and_then_Ok_iff tables_kept_streamed)
qed

lemma tables_kept_adaptive:
  assumes "push_archive_entry_adaptive E fuel aw entry data thresholds = Ok aw'" and "tables_kept e u aw"
  shows "tables_kept e u aw'"
proof (cases "categorize (case thresholds of Some t \<Rightarrow> t | None \<Rightarrow> thresholds_default) (of_nat (length data)) = Tiny")
  case True
  with assms show ?thesis by (auto simp: push_archive_entry_adaptive_def intro: tables_kept_small)
next
  case False
  then have "data \<noteq> []" by (auto simp: categorize_def)
  moreover have "push_archive_entry_bytes E aw entry data = Ok aw'"
    using assms(1) False by (simp add: push_archive_entry_adaptive_def split: file_category.splits)
  ultimately show ?thesis using tables_kept_bytes [OF _ assms(2)] by fastforce
qed

lemma tables_kept_step: "writer_step E read fuel P f aw e' u' aw' \<Longrightarrow> tables_kept e u aw \<Longrightarrow> tables_kept (e + e') (u + u') aw'"
proof (induction rule: writer_step.induct)
  case (step_bytes aw entry data aw')
  then show ?case using tables_kept_bytes [of E aw entry data aw' e u] by simp
next
  case (step_small aw entry reader aw')
  then show ?case by (simp add: tables_kept_small)
next
  case (step_adaptive aw entry data thresholds aw')
  then show ?case by (simp add: tables_kept_adaptive)
next
  case (step_entries aw entries readers aw')
  then show ?case by (simp add: tables_kept_entries)
next
  case (step_solid aw entries p config p' aw')
  then show ?case
    by (auto simp: push_solid_entries_parallel_def split: if_splits option.splits intro: tables_kept_solid_checked)
next
  case (step_progress aw entry reader c interval c' aw')
  then show ?case
    by (auto simp: push_archive_entry_with_progress_def Let_def and_then_Ok_iff tables_kept_pushes split: option.splits if_splits)
next
  case (step_batched aw entry reader pool pool' aw')
  then show ?case
    by (auto simp: push_archive_entry_batched_def Let_def and_then_Ok_iff tables_kept_pushes
        split: option.splits if_splits prod.splits)
qed (auto simp: push_archive_entry_def push_archive_entry_small_def push_archive_entry_fast_def Let_def and_then_Ok_iff
      tables_kept_pushes tables_kept_setters split: option.splits if_splits)

text \<open>C26: whatever functions of the writer are called, in whatever order, and however their readers,
  codecs, callbacks and providers behave, the tables of a writer whose calls succeeded are
  consistent: there is a method, every packed stream has a size, a CRC and a block, and every block
  has a list element for each of its substreams. The entries marked as streamed are as many as the
  substreams, up to two kinds of entries that are counted: files whose empty data
  \<open>push_archive_entry_bytes\<close> has marked as streamed, and entries without the mark that were given to
  \<open>push_archive_entries\<close>. The count is right just when these are equally many.\<close>

theorem writer_tables_consistent:
  assumes "writer_reachable E read fuel P f e u aw"
  shows "w_content_methods aw \<noteq> []
     \<and> length (pi_sizes (w_pack_info aw)) = length (w_unpack_info aw)
     \<and> length (pi_crcs (w_pack_info aw)) = length (w_unpack_info aw)
     \<and> list_all block_shape (w_unpack_info aw)
     \<and> length (filter has_stream (w_files aw)) + u = sum_list (map num_subs (w_unpack_info aw)) + e
     \<and> (writer_ok aw \<longleftrightarrow> e = u)"
proof -
  from assms have "tables_kept e u aw"
  proof (induction rule: writer_reachable.induct)
    case (reach_new out aw)
    then show ?case by (auto simp: archive_writer_new_def and_then_Ok_iff tables_kept_def pack_info_default_def)
  next
    case (reach_step e u aw e' u' aw')
    then show ?case by (blast intro: tables_kept_step)
  qed
  with tables_kept_ok [OF this] show ?thesis by (simp add: tables_kept_def)
qed

text \<open>A file with data, and then one whose data is empty.\<close>

theorem writer_tables_consistent_witness:
  "\<exists>aw1 aw2. push_archive_entry_bytes demo_env demo_writer (new_file [97]) [1, 2, 3] = Ok aw1 \<and> writer_ok aw1
     \<and> push_archive_entry_bytes demo_env aw1 (new_file [98]) [] = Ok aw2 \<and> \<not> writer_ok aw2
     \<and> length (filter has_stream (w_files aw2)) = sum_list (map num_subs (w_unpack_info aw2)) + 1"
proof -
  let ?reach = "writer_reachable demo_env slice_read 9 vec_provider_ops (cancel_from 0)"
  obtain aw0 where aw0: "archive_writer_new demo_env \<lparr>cur_data = [], cur_pos = 0\<rparr> = Ok aw0"
    "set_content_methods aw0 [stored, swapped] = demo_writer"
    using demo_writer_new by (auto simp: and_then_Ok_iff)
  have start: "?reach 0 0 demo_writer"
    using reach_step [OF reach_new [OF aw0(1)] step_methods [of _ _ _ _ _ _ "[stored, swapped]"]] unfolding aw0(2) by simp
  obtain aw1 where aw1: "push_archive_entry_bytes demo_env demo_writer (new_file [97]) [1, 2, 3] = Ok aw1"
    using push_bytes_adds [OF demo_can_push, of "[1, 2, 3]" "new_file [97]"] by (auto simp: new_file_def entry_default_def)
  obtain aw2 where aw2: "push_archive_entry_bytes demo_env aw1 (new_file [98]) [] = Ok aw2"
    by (simp add: push_archive_entry_bytes_def)
  have one: "?reach 0 0 aw1" using reach_step [OF start step_bytes [OF aw1]] by simp
  have two: "?reach 1 0 aw2" using reach_step [OF one step_bytes [OF aw2]] by (simp add: new_file_def entry_default_def)
  from writer_tables_consistent [OF one] writer_tables_consistent [OF two] aw1 aw2 show ?thesis by auto
qed

text \<open>C27: the first of these kinds. For a file with empty data \<open>push_archive_entry_bytes\<close> marks the entry
  as streamed and writes no stream: one streamed entry too many, so that the reader gives every
  later file the stream of the next.\<close>

theorem empty_bytes_break_the_count:
  assumes "\<not> is_directory entry" and "writer_ok aw"
  shows "\<exists>aw'. push_archive_entry_bytes E aw entry [] = Ok aw' \<and> has_stream (last (w_files aw'))
     \<and> w_unpack_info aw' = w_unpack_info aw \<and> w_pack_info aw' = w_pack_info aw \<and> \<not> streams_counted aw'"
  using assms by (simp add: push_archive_entry_bytes_def writer_ok_def streams_counted_def)

theorem empty_bytes_break_the_count_witness:
  "\<exists>aw'. push_archive_entry_bytes demo_env demo_writer (new_file [97]) [] = Ok aw' \<and> \<not> streams_counted aw'"
proof -
  have "writer_ok demo_writer" by (simp add: writer_ok_def demo_writer_def streams_counted_def pack_info_default_def)
  with empty_bytes_break_the_count [of "new_file [97]" demo_writer demo_env] show ?thesis
    by (auto simp: new_file_def entry_default_def)
qed

end
