(* ===== verification/Decoder_Build.thy ===== *)
theory Decoder_Build
  imports Decoder_Stack Header_Roundtrip
begin

text \<open>
  The decoders that the reader builds for a block of the writer. \<open>coder_decodes\<close> says what a
  coder makes of its input, \<open>chain_decodes\<close> what the coders of a block make of the packed
  stream; then the stack of decoders delivers exactly that.
\<close>

section \<open>What a coder decodes\<close>

definition gives :: "('d \<Rightarrow> bytes \<Rightarrow> bytes) \<Rightarrow> ('d \<Rightarrow> bytes \<Rightarrow> bool) \<Rightarrow> 'd \<Rightarrow> bytes \<Rightarrow> bytes \<Rightarrow> bool" where
  "gives out fine x c d \<longleftrightarrow> fine x c \<and> out x c = d"

definition starts ::
    "('d \<Rightarrow> bytes \<Rightarrow> bytes) \<Rightarrow> ('d \<Rightarrow> bytes \<Rightarrow> bool) \<Rightarrow> ('x, 'd) outcome asking \<Rightarrow> bytes \<Rightarrow> bytes \<Rightarrow> bool" where
  "starts out fine t c d \<longleftrightarrow> (\<forall>r c'. answers t c r c' \<longrightarrow> (\<exists>x. r = Ok x \<and> gives out fine x c' d))"

definition coder_decodes ::
    "'d decoder_libs \<Rightarrow> libs \<Rightarrow> ('d \<Rightarrow> bytes \<Rightarrow> bytes) \<Rightarrow> ('d \<Rightarrow> bytes \<Rightarrow> bool) \<Rightarrow> u32 \<Rightarrow> coder \<Rightarrow> usize \<Rightarrow> bytes \<Rightarrow> bytes \<Rightarrow> bool" where
  "coder_decodes D L out fine threads cd n c d \<longleftrightarrow>
     (\<exists>m. by_id (encoder_method_id cd) = Some m \<and>
       (let i = method_id m in
          i = id_copy \<and> d = c
        \<or> i = id_swap2 \<and> d = swap_pairs c
        \<or> i = id_lzma \<and> 5 \<le> length (properties cd)
            \<and> starts out fine (dc_lzma_new D (of_nat n) (properties cd ! 0) (from_le_bytes (take 4 (drop 1 (properties cd))))) c d
        \<or> i = id_lzma2 \<and> (\<exists>dic. get_lzma2_dic_size cd = Ok dic \<and> unat (dc_lzma2_memory_usage D dic) \<le> max_mem_limit_kb
            \<and> gives out fine (if threads < 2 then dc_lzma2_new D dic else dc_lzma2_mt_new D dic threads) c d)
        \<or> i = id_ppmd \<and> (\<exists>order memory. get_ppmd_order_memory_size L cd max_mem_limit_kb = Ok (order, memory)
            \<and> starts out fine (dc_ppmd_new D order memory) c d)
        \<or> i = id_bzip2 \<and> gives out fine (dc_bzip2_new D) c d
        \<or> i = id_deflate \<and> gives out fine (dc_deflate_new D) c d
        \<or> i = id_deflate64 \<and> gives out fine (dc_deflate64_new D) c d
        \<or> i = id_zstd \<and> starts out fine (dc_zstd_new D) c d
        \<or> i \<in> set ids_bcj \<and> gives out fine (dc_bcj_new D i) c d
        \<or> i = id_delta \<and> gives out fine (dc_delta_new D (delta_decoder_distance cd)) c d))"

lemmas method_ids = id_copy_def id_lzma_def id_lzma2_def id_ppmd_def id_bzip2_def id_zstd_def id_brotli_def
  id_lz4_def id_deflate_def id_deflate64_def id_aes256_sha256_def id_delta_def id_swap2_def id_swap4_def ids_bcj_def

context byte_source
begin

lemma starts_runs:
  assumes "starts out fine t (contents s) d" and "ready s"
  shows "\<exists>x s'. run_asking read t s = Ok (Ok x, s') \<and> ready s' \<and> gives out fine x (contents s') d"
proof -
  obtain r s' where run: "run_asking read t s = Ok (r, s')" "ready s'" "answers t (contents s) r (contents s')"
    using run_asking_answers [OF assms(2), of t] by blast
  with assms(1) show ?thesis unfolding starts_def by blast
qed

lemma add_decoder_builds:
  assumes s: "ready s" and dec: "coder_decodes D L out fine threads cd n (contents s) d"
  shows "\<exists>x s'. add_decoder D L read s n cd pw max_mem_limit_kb threads = Ok (x, s') \<and> ready s'
     \<and> decoder_fine fine x (contents s') \<and> decoder_out D out x (contents s') = d"
proof -
  obtain m where m: "by_id (encoder_method_id cd) = Some m" using dec by (auto simp: coder_decodes_def)
  note eqs = add_decoder_def m Let_def method_ids
  from dec m consider "method_id m = id_copy" "d = contents s" | "method_id m = id_swap2" "d = swap_pairs (contents s)"
    | "method_id m = id_lzma" "5 \<le> length (properties cd)"
        "starts out fine (dc_lzma_new D (of_nat n) (properties cd ! 0) (from_le_bytes (take 4 (drop 1 (properties cd))))) (contents s) d"
    | dic where "method_id m = id_lzma2" "get_lzma2_dic_size cd = Ok dic" "unat (dc_lzma2_memory_usage D dic) \<le> max_mem_limit_kb"
        "gives out fine (if threads < 2 then dc_lzma2_new D dic else dc_lzma2_mt_new D dic threads) (contents s) d"
    | order memory where "method_id m = id_ppmd" "get_ppmd_order_memory_size L cd max_mem_limit_kb = Ok (order, memory)"
        "starts out fine (dc_ppmd_new D order memory) (contents s) d"
    | "method_id m = id_bzip2" "gives out fine (dc_bzip2_new D) (contents s) d"
    | "method_id m = id_deflate" "gives out fine (dc_deflate_new D) (contents s) d"
    | "method_id m = id_deflate64" "gives out fine (dc_deflate64_new D) (contents s) d"
    | "method_id m = id_zstd" "starts out fine (dc_zstd_new D) (contents s) d"
    | "method_id m \<in> set ids_bcj" "gives out fine (dc_bcj_new D (method_id m)) (contents s) d"
    | "method_id m = id_delta" "gives out fine (dc_delta_new D (delta_decoder_distance cd)) (contents s) d"
    unfolding coder_decodes_def Let_def by auto
  then show ?thesis
  proof cases
    case 1
    with s show ?thesis by (simp add: eqs)
  next
    case 2
    with s show ?thesis by (simp add: eqs swap2_contents_def)
  next
    case 3
    from starts_runs [OF 3(3) s] 3(1,2) show ?thesis
      by (auto simp: eqs get_lzma_dic_size_def gives_def)
  next
    case 4
    with s show ?thesis by (cases "threads < 2") (simp_all add: eqs gives_def not_less [symmetric])
  next
    case 5
    from starts_runs [OF 5(3) s] 5(1,2) show ?thesis by (auto simp: eqs gives_def)
  next
    case 9
    from starts_runs [OF 9(2) s] 9(1) show ?thesis by (auto simp: eqs gives_def)
  next
    case 10
    with s show ?thesis by (auto simp: eqs gives_def)
  qed (use s in \<open>simp_all add: eqs gives_def\<close>)
qed

end

end
