(* ===== verification/Block_Decoding.thy ===== *)
theory Block_Decoding
  imports Decoder_Build
begin

text \<open>
  The decoders of a whole block. \<open>block_decodes\<close> says what the coders of a block make of the
  packed stream; the loop of \<open>add_decoder\<close> over a chain of coders ends with a stack of decoders
  that delivers exactly that.
\<close>

section \<open>What the coders of a block decode\<close>

fun chain_decodes ::
    "'d decoder_libs \<Rightarrow> libs \<Rightarrow> ('d \<Rightarrow> bytes \<Rightarrow> bytes) \<Rightarrow> ('d \<Rightarrow> bytes \<Rightarrow> bool) \<Rightarrow> u32 \<Rightarrow>
     (coder \<times> usize) list \<Rightarrow> bytes \<Rightarrow> bytes \<Rightarrow> bool" where
  "chain_decodes D L out fine threads [] c d \<longleftrightarrow> d = c"
| "chain_decodes D L out fine threads ((cd, n) # cds) c d \<longleftrightarrow>
     (\<exists>m. coder_decodes D L out fine threads cd n c m \<and> chain_decodes D L out fine threads cds m d)"

text \<open>AES only as the coder that reads the packed stream.\<close>

definition block_decodes ::
    "'d decoder_libs \<Rightarrow> libs \<Rightarrow> ('d \<Rightarrow> bytes \<Rightarrow> bytes) \<Rightarrow> ('d \<Rightarrow> bytes \<Rightarrow> bool) \<Rightarrow> u32 \<Rightarrow> password \<Rightarrow>
     (coder \<times> usize) list \<Rightarrow> bytes \<Rightarrow> bytes \<Rightarrow> bool" where
  "block_decodes D L out fine threads pw cds c d \<longleftrightarrow>
     chain_decodes D L out fine threads cds c d
     \<or> (\<exists>cd n rest key. cds = (cd, n) # rest \<and> encoder_method_id cd = id_aes256_sha256 \<and> \<not> password_is_empty pw
          \<and> get_aes_key (dc_sha256 D) (properties cd) pw = Ok key \<and> 16 dvd length c
          \<and> chain_decodes D L out fine threads rest (cbc_stream (dc_cbc D) (fst key) (snd key) c) d)"

definition block_coders :: "block \<Rightarrow> (coder \<times> usize) list" where
  "block_coders b = map (\<lambda>i. (coders b ! i, unat (get_unpack_size_at_index b i))) [0..<length (coders b)]"

lemma length_block_coders [simp]: "length (block_coders b) = length (coders b)"
  by (simp add: block_coders_def)

lemma block_coders_nth [simp]:
  "i < length (coders b) \<Longrightarrow> block_coders b ! i = (coders b ! i, unat (get_unpack_size_at_index b i))"
  by (simp add: block_coders_def)

definition simple_coders :: "block \<Rightarrow> bool" where
  "simple_coders b \<longleftrightarrow> list_all (\<lambda>c. num_in_streams c = 1 \<and> num_out_streams c = 1) (coders b)"

section \<open>The decoders of a block\<close>

lemma by_id_aes: "by_id id_aes256_sha256 = Some (EncoderMethod ''AES256_SHA256'' id_aes256_sha256)"
  by code_simp

context block_source
begin

lemma stack_add_decoder_builds:
  assumes D: "valid_decoder D out fine" and cipher: "block_cipher (dc_cbc D)"
    and x: "stack_at D out fine k x" and dec: "coder_decodes D L out fine threads cd n (stack_contents D out x) d"
  shows "\<exists>x'. stack_add_decoder D L read x n cd pw max_mem_limit_kb threads = Ok x'
     \<and> stack_at D out fine (Suc k) x' \<and> stack_contents D out x' = d"
proof -
  have k: "length (fst x) = k" using x by blast
  from byte_source.add_decoder_builds [OF stack_source [OF D cipher] x dec, of pw] obtain dc s' where
    "add_decoder D L (stack_read D read k) x n cd pw max_mem_limit_kb threads = Ok (dc, s')"
    "stack_at D out fine k s'" "decoder_fine fine dec (stack_contents D out s') = decoder_fine fine dec (stack_contents D out s')"
    "decoder_fine fine dc (stack_contents D out s')" "decoder_out D out dc (stack_contents D out s') = d" by blast
  then show ?thesis
    by (auto simp: stack_add_decoder_def k split_def intro!: not_aes_ready simp del: stack_ready.simps)
qed

lemma add_decoders_chain:
  assumes D: "valid_decoder D out fine" and cipher: "block_cipher (dc_cbc D)"
    and b: "is_chain b" "simple_coders b"
  shows "i \<le> length (coders b) \<Longrightarrow> length (coders b) - i < fuel \<Longrightarrow> stack_at D out fine i x \<Longrightarrow>
     chain_decodes D L out fine threads (drop i (block_coders b)) (stack_contents D out x) d \<Longrightarrow>
     \<exists>x'. add_decoders D L read pw threads fuel b (if i < length (coders b) then Some (of_nat i) else None) x = Ok x'
       \<and> stack_at D out fine (length (coders b)) x' \<and> stack_contents D out x' = d"
proof (induction "length (coders b) - i" arbitrary: i fuel x)
  case 0
  then obtain f where "fuel = Suc f" by (cases fuel) auto
  with 0 show ?case by (auto simp: coder_iter_next_def)
next
  case (Suc j)
  then obtain f where f: "fuel = Suc f" by (cases fuel) auto
  have i: "i < length (coders b)" using Suc.hyps(2) by simp
  let ?cd = "coders b ! i" and ?n = "unat (get_unpack_size_at_index b i)"
  have "drop i (block_coders b) = (?cd, ?n) # drop (Suc i) (block_coders b)"
    using i by (simp add: Cons_nth_drop_Suc [symmetric])
  with Suc.prems(4) obtain m where m: "coder_decodes D L out fine threads ?cd ?n (stack_contents D out x) m"
    "chain_decodes D L out fine threads (drop (Suc i) (block_coders b)) m d" by auto
  from stack_add_decoder_builds [OF D cipher Suc.prems(3) m(1), of pw] obtain x1 where
    x1: "stack_add_decoder D L read x ?n ?cd pw max_mem_limit_kb threads = Ok x1"
      "stack_at D out fine (Suc i) x1" "stack_contents D out x1 = m" by blast
  have one: "num_in_streams ?cd = 1 \<and> num_out_streams ?cd = 1"
    using b(2) i by (simp add: simple_coders_def list_all_length)
  have "\<exists>x'. add_decoders D L read pw threads f b
      (if Suc i < length (coders b) then Some (of_nat (Suc i)) else None) x1 = Ok x'
       \<and> stack_at D out fine (length (coders b)) x' \<and> stack_contents D out x' = d"
    by (rule Suc.hyps(1)) (use Suc.hyps(2) Suc.prems(2) x1 m(2) f in auto)
  then show ?case
    by (cases "Suc i < length (coders b)") (simp_all add: f i coder_iter_next_chain [OF b(1) i] one x1(1) del: of_nat_Suc)
qed

lemma add_aes_decoder:
  assumes "encoder_method_id cd = id_aes256_sha256" and "\<not> password_is_empty pw"
    and "get_aes_key (dc_sha256 D) (properties cd) pw = Ok key" and "aligned s"
  shows "\<exists>x. stack_add_decoder D L read ([], s) n cd pw max_mem_limit_kb threads = Ok x
     \<and> stack_at D out fine 1 x \<and> stack_contents D out x = cbc_stream (dc_cbc D) (fst key) (snd key) (contents s)"
  using assms
  by (simp add: stack_add_decoder_def add_decoder_def by_id_aes [unfolded method_ids] Let_def method_ids aes_decoder_new_def
      aes_with_input_def aes_without_input_def aes_ready_def aes_out_def aes_contents_def cipher_new_def cbc_stream_def)

lemma add_decoders_builds:
  assumes D: "valid_decoder D out fine" and cipher: "block_cipher (dc_cbc D)"
    and b: "is_chain b" "simple_coders b" and fuel: "length (coders b) < fuel"
    and s: "ready s" "16 dvd length (contents s) \<Longrightarrow> aligned s"
    and dec: "block_decodes D L out fine threads pw (block_coders b) (contents s) d"
  shows "\<exists>x. add_decoders D L read pw threads fuel b (coder_iter_new b) ([], s) = Ok x
     \<and> stack_at D out fine (length (coders b)) x \<and> stack_contents D out x = d"
  using dec unfolding block_decodes_def
proof (elim disjE exE conjE)
  have start: "coder_iter_new b = (if 0 < length (coders b) then Some (of_nat 0) else None)"
    using b(1) by (simp add: coder_iter_new_def is_chain_def)
  assume "chain_decodes D L out fine threads (block_coders b) (contents s) d"
  then show ?thesis unfolding start
    by (intro add_decoders_chain [OF D cipher b]) (use fuel s in auto)
next
  fix cd n rest key
  assume cds: "block_coders b = (cd, n) # rest" and aes: "encoder_method_id cd = id_aes256_sha256"
    and pw: "\<not> password_is_empty pw" and key: "get_aes_key (dc_sha256 D) (properties cd) pw = Ok key"
    and len: "16 dvd length (contents s)"
    and rest: "chain_decodes D L out fine threads rest (cbc_stream (dc_cbc D) (fst key) (snd key) (contents s)) d"
  obtain f where f: "fuel = Suc f" using fuel by (cases fuel) auto
  have pos: "0 < length (coders b)" using b(1) by (simp add: is_chain_def)
  have le: "1 \<le> length (coders b)" "length (coders b) - 1 < f" using pos fuel f by linarith+
  have first: "coders b ! 0 = cd" "unat (get_unpack_size_at_index b 0) = n"
    using block_coders_nth [OF pos] cds by simp_all
  have rest': "drop 1 (block_coders b) = rest" using cds by simp
  from add_aes_decoder [OF aes pw key s(2) [OF len], of L n threads out fine] obtain x where
    x: "stack_add_decoder D L read ([], s) n cd pw max_mem_limit_kb threads = Ok x" "stack_at D out fine 1 x"
      "stack_contents D out x = cbc_stream (dc_cbc D) (fst key) (snd key) (contents s)" by blast
  have one: "num_in_streams cd = 1 \<and> num_out_streams cd = 1"
    using b(2) pos first by (auto simp: simple_coders_def list_all_length)
  have "\<exists>x'. add_decoders D L read pw threads f b (if 1 < length (coders b) then Some (of_nat 1) else None) x = Ok x'
       \<and> stack_at D out fine (length (coders b)) x' \<and> stack_contents D out x' = d"
    by (rule add_decoders_chain [OF D cipher b]) (use f x rest rest' le in auto)
  then show ?thesis
    using coder_iter_next_chain [OF b(1) pos] pos first one x(1) b(1)
    by (cases "1 < length (coders b)") (simp_all add: f coder_iter_new_def is_chain_def)
qed

end

end
