(* ===== verification/Codec_Inverse.thy ===== *)
theory Codec_Inverse
  imports Block_Decoding Encoder_Stack Substreams_Roundtrip
begin

text \<open>
  Decoding what was encoded. A decoder undoes an encoder when it gives back the data from every
  code of it. AES pads its input with zeros to whole blocks, so that the coders above it must
  undo a code that zeros follow. The blocks of the writer are then decoded to the data that was
  encoded: the decoders come in the order of the methods, the encoders in the opposite one.
\<close>

section \<open>Coders of the writer\<close>

lemma encoder_method_id_written:
  "encoder_method_id (written_coder L mc) = method_id (config_method mc)"
  by (simp add: encoder_method_id_def written_coder_def Let_def)

lemma properties_written: "properties (written_coder L mc) = codec_props L mc"
  by (simp add: written_coder_def Let_def)

lemma read_back_chain: "block_ok L b \<Longrightarrow> is_chain (read_back L b)"
  using is_chain_written [of L b] by (simp add: read_back_def is_chain_def)

lemma read_back_simple: "simple_coders (read_back L b)"
  by (simp add: simple_coders_def read_back_def written_block_def written_coder_def Let_def list_all_iff)

lemma block_coders_read_back:
  assumes "block_ok L b"
  shows "block_coders (read_back L b) = zip (map (written_coder L) (bi_methods b)) (map unat (bi_sizes b))"
  using assms
  by (intro nth_equalityI)
    (simp_all add: block_ok_def block_coders_def read_back_def written_block_def Let_def get_unpack_size_at_index_def)

section \<open>Decoders that undo encoders\<close>

definition undoes ::
    "'d decoder_libs \<Rightarrow> libs \<Rightarrow> ('d \<Rightarrow> bytes \<Rightarrow> bytes) \<Rightarrow> ('d \<Rightarrow> bytes \<Rightarrow> bool) \<Rightarrow> u32 \<Rightarrow> bool \<Rightarrow>
     encoder_configuration \<Rightarrow> (bytes \<Rightarrow> bytes \<Rightarrow> bool) \<Rightarrow> bool" where
  "undoes D L out fine threads pad mc code \<longleftrightarrow>
     (\<forall>d c k. code d c \<longrightarrow> (pad \<or> k = 0) \<longrightarrow>
        (\<exists>j. (pad \<or> j = 0) \<and> coder_decodes D L out fine threads (written_coder L mc) (length d mod 2 ^ 64)
           (c @ replicate k 0) (d @ replicate j 0)))"

lemma undoesD:
  assumes "undoes D L out fine threads pad mc code" and "code d c" and "pad \<or> k = 0"
  shows "\<exists>j. (pad \<or> j = 0) \<and> coder_decodes D L out fine threads (written_coder L mc) (length d mod 2 ^ 64)
     (c @ replicate k 0) (d @ replicate j 0)"
  using assms unfolding undoes_def by blast

lemma by_id_builtin:
  "by_id id_copy = Some (EncoderMethod ''COPY'' id_copy)" "by_id id_swap2 = Some (EncoderMethod ''SWAP2'' id_swap2)"
  by code_simp+

lemma undoes_copy:
  "method_id (config_method mc) = id_copy \<Longrightarrow> undoes D L out fine threads pad mc (encoder_code X R Copy_encoder)"
  by (auto simp: undoes_def encoder_code_def coder_decodes_def encoder_method_id_written by_id_builtin)

lemma undoes_swap2:
  "method_id (config_method mc) = id_swap2 \<Longrightarrow> undoes D L out fine threads False mc (encoder_code X R (Swap2_encoder p))"
  by (auto simp: undoes_def encoder_code_def coder_decodes_def encoder_method_id_written by_id_builtin
      swap_pairs_involutive Let_def)

definition methods_undone ::
    "'d decoder_libs \<Rightarrow> libs \<Rightarrow> ('d \<Rightarrow> bytes \<Rightarrow> bytes) \<Rightarrow> ('d \<Rightarrow> bytes \<Rightarrow> bool) \<Rightarrow> u32 \<Rightarrow> password \<Rightarrow> 'e codecs \<Rightarrow>
     encoder_configuration list \<Rightarrow> ((bytes \<Rightarrow> bytes \<Rightarrow> bool) \<times> 'e encoder) list \<Rightarrow> bool" where
  "methods_undone D L out fine threads pw X methods ps \<longleftrightarrow>
     list_all2 (\<lambda>mc (R, e). undoes D L out fine threads False mc (encoder_code X R e)) methods ps
     \<or> (\<exists>mc ms R a ps'. methods = mc # ms \<and> ps = (R, Aes_encoder a) # ps'
          \<and> method_id (config_method mc) = id_aes256_sha256 \<and> \<not> password_is_empty pw
          \<and> get_aes_key (dc_sha256 D) (codec_props L mc) pw = Ok (ci_key (ae_cipher a), ci_iv (ae_cipher a))
          \<and> cbc_inverse (cd_cbc X) (dc_cbc D)
          \<and> list_all2 (\<lambda>mc (R, e). undoes D L out fine threads True mc (encoder_code X R e)) ms ps')"

section \<open>A chain\<close>

lemma stack_code_append:
  "stack_code X (es @ [(R, e)]) d c ns \<longleftrightarrow>
   (\<exists>m ns'. stack_code X es d m ns' \<and> encoder_code X R e m c \<and> ns = ns' @ [length c mod 2 ^ 64])"
  by (induction es arbitrary: d ns) (auto, blast+)

lemma stack_code_sizes:
  "stack_code X es d c ns \<Longrightarrow> length ns = length es \<and> (es \<noteq> [] \<longrightarrow> last ns = length c mod 2 ^ 64)
     \<and> (es = [] \<longrightarrow> d = c)"
proof (induction es arbitrary: d ns)
  case (Cons p es)
  obtain R e where p: "p = (R, e)" by (cases p)
  with Cons.prems obtain m ns' where m: "stack_code X es m c ns'" "ns = length m mod 2 ^ 64 # ns'" by auto
  from Cons.IH [OF m(1)] m(2) show ?case by (cases es) auto
qed simp

text \<open>The sizes that are recorded: what each coder decodes to, from the packed stream upwards.\<close>

definition coder_sizes :: "bytes \<Rightarrow> usize list \<Rightarrow> usize list" where
  "coder_sizes d ns = rev (butlast ns) @ [length d mod 2 ^ 64]"

lemma coder_sizes_step:
  assumes "stack_code X es d m ns"
  shows "coder_sizes d (ns @ [x]) = length m mod 2 ^ 64 # (if es = [] then [] else coder_sizes d ns)"
  using stack_code_sizes [OF assms] by (cases ns rule: rev_cases) (auto simp: coder_sizes_def butlast_append)

lemma chain_undone:
  assumes "list_all2 (\<lambda>mc (R, e). undoes D L out fine threads pad mc (encoder_code X R e)) methods ps"
    and "stack_code X (rev ps) d c ns" and "pad \<or> k = 0"
  shows "\<exists>j. (pad \<or> j = 0) \<and> chain_decodes D L out fine threads
     (zip (map (written_coder L) methods) (coder_sizes d ns)) (c @ replicate k 0) (d @ replicate j 0)"
  using assms
proof (induction arbitrary: c ns k rule: list_all2_induct)
  case (Cons mc ms p ps)
  obtain R e where p: "p = (R, e)" by (cases p)
  with Cons.prems(1) obtain m ns' where m: "stack_code X (rev ps) d m ns'" "encoder_code X R e m c"
    "ns = ns' @ [length c mod 2 ^ 64]" by (auto simp: stack_code_append)
  from Cons.hyps(1) p have "undoes D L out fine threads pad mc (encoder_code X R e)" by simp
  from undoesD [OF this m(2) Cons.prems(2)] obtain i where i: "pad \<or> i = 0"
    "coder_decodes D L out fine threads (written_coder L mc) (length m mod 2 ^ 64) (c @ replicate k 0) (m @ replicate i 0)"
    by blast
  from Cons.IH [OF m(1) i(1)] obtain j where j: "pad \<or> j = 0" "chain_decodes D L out fine threads
      (zip (map (written_coder L) ms) (coder_sizes d ns')) (m @ replicate i 0) (d @ replicate j 0)" by blast
  have empty: "ps = [] \<Longrightarrow> ms = []" using Cons.hyps(2) by simp
  have "chain_decodes D L out fine threads (zip (map (written_coder L) (mc # ms)) (coder_sizes d ns))
      (c @ replicate k 0) (d @ replicate j 0)"
    unfolding m(3) coder_sizes_step [OF m(1)] using i(2) j(2) empty by auto
  with j(1) show ?case by blast
qed auto

lemma run_cbc_concat_length:
  "list_all (\<lambda>b. length b = n) bs \<Longrightarrow> n dvd length (concat bs)"
  by (induction bs) auto

lemma padded_ex: "\<exists>k. padded d = d @ replicate k 0"
  by (auto simp: padded_def)

theorem block_undone:
  assumes undone: "methods_undone D L out fine threads pw X methods ps" and code: "stack_code X (rev ps) d c ns"
  shows "\<exists>j. block_decodes D L out fine threads pw (zip (map (written_coder L) methods) (coder_sizes d ns)) c
     (d @ replicate j 0)"
  using undone unfolding methods_undone_def
proof (elim disjE exE conjE)
  assume "list_all2 (\<lambda>mc (R, e). undoes D L out fine threads False mc (encoder_code X R e)) methods ps"
  from chain_undone [OF this code, of 0] show ?thesis
    unfolding block_decodes_def by (intro exI [of _ 0]) auto
next
  fix mc ms R a ps'
  assume ms: "methods = mc # ms" and ps: "ps = (R, Aes_encoder a) # ps'"
    and aes: "method_id (config_method mc) = id_aes256_sha256" "\<not> password_is_empty pw"
      "get_aes_key (dc_sha256 D) (codec_props L mc) pw = Ok (ci_key (ae_cipher a), ci_iv (ae_cipher a))"
    and inv: "cbc_inverse (cd_cbc X) (dc_cbc D)"
    and rest: "list_all2 (\<lambda>mc (R, e). undoes D L out fine threads True mc (encoder_code X R e)) ms ps'"
  from code ps obtain m ns' where m: "stack_code X (rev ps') d m ns'"
    "c = cbc_stream (cd_cbc X) (ci_key (ae_cipher a)) (ci_iv (ae_cipher a)) (padded m)" "ns = ns' @ [length c mod 2 ^ 64]"
    by (auto simp: stack_code_append encoder_code_def)
  obtain k where k: "padded m = m @ replicate k 0" using padded_ex by blast
  have dec: "cbc_stream (dc_cbc D) (ci_key (ae_cipher a)) (ci_iv (ae_cipher a)) c = m @ replicate k 0"
    unfolding m(2) k [symmetric] by (rule cbc_stream_inverse [OF inv length_padded])
  have len: "16 dvd length c"
    unfolding m(2) cbc_stream_def by (rule run_cbc_concat_length [OF run_cbc_lengths [OF inv]])
  from chain_undone [OF rest m(1), of k] obtain j where "chain_decodes D L out fine threads
      (zip (map (written_coder L) ms) (coder_sizes d ns')) (m @ replicate k 0) (d @ replicate j 0)" by blast
  moreover have "zip (map (written_coder L) methods) (coder_sizes d ns)
      = (written_coder L mc, length m mod 2 ^ 64) # zip (map (written_coder L) ms) (coder_sizes d ns')"
    unfolding m(3) coder_sizes_step [OF m(1)] ms using rest by auto
  ultimately show ?thesis unfolding block_decodes_def
    using aes len dec by (auto simp: encoder_method_id_written properties_written intro!: exI [of _ j])
qed

end
