(* ===== verification/Header_Decoding.thy ===== *)
theory Header_Decoding
  imports Codec_Inverse
begin

text \<open>
  Reading an encoded header: the packed stream of the header in a file in memory, the decoders
  of its block on it, and the bytes that \<open>init_archive\<close> reads from them.
\<close>

section \<open>Reading exactly\<close>

context byte_source
begin

lemma read_exact_from_contents:
  "ready s \<Longrightarrow> n \<le> length (contents s) \<Longrightarrow> \<exists>s'. read_exact_from read n s = Ok (take n (contents s), s')"
proof (induction n arbitrary: s rule: less_induct)
  case (less n)
  show ?case
  proof (cases "n = 0")
    case True
    then show ?thesis by (simp add: read_exact_from.simps)
  next
    case False
    obtain bs s' where rd: "read s n = Ok (bs, s')" using total less.prems(1) by blast
    note nb = next_bytes [OF less.prems(1) rd]
    have ne: "bs \<noteq> []" using end_only [OF less.prems(1)] rd False less.prems(2) by auto
    have "\<exists>s''. read_exact_from read (n - length bs) s' = Ok (take (n - length bs) (contents s'), s'')"
      by (rule less.IH) (use nb ne less.prems False in auto)
    with rd ne nb False show ?thesis by (subst read_exact_from.simps) auto
  qed
qed

end

section \<open>The packed stream\<close>

definition cursor_rest :: "cursor \<Rightarrow> bytes" where
  "cursor_rest f = drop (cur_pos f) (cur_data f)"

lemma cursor_source: "byte_source file_read cursor_rest (\<lambda>f. True)"
proof (rule byte_sourceI)
  fix f n
  have "cursor_rest f = take n (cursor_rest f) @ drop n (cursor_rest f)" by simp
  then show "\<exists>bs f'. file_read f n = Ok (bs, f') \<and> True \<and> cursor_rest f = bs @ cursor_rest f'
      \<and> length bs \<le> n \<and> (bs = [] \<longrightarrow> 0 < n \<longrightarrow> cursor_rest f = [])"
    by (auto simp: file_read_def cursor_rest_def Let_def min_def add.commute)
qed

abbreviation packed_rest :: "cursor bounded_reader \<Rightarrow> bytes" where
  "packed_rest \<equiv> bounded_contents cursor_rest"

abbreviation whole_rest :: "cursor bounded_reader \<Rightarrow> bool" where
  "whole_rest r \<equiv> 16 dvd length (packed_rest r)"

lemma packed_source: "byte_source (bounded_read file_read) packed_rest (\<lambda>r. True)"
  using byte_source.bounded_source [OF cursor_source] by simp

lemma length_packed_read:
  "bounded_read file_read r n = Ok (bs, r') \<Longrightarrow> length bs = min n (length (packed_rest r))"
  by (auto simp: bounded_read_def file_read_def bounded_contents_def cursor_rest_def Let_def split: if_splits)

interpretation packed: block_source "bounded_read file_read" packed_rest "\<lambda>r. True" whole_rest
proof (rule block_source.intro [OF packed_source], rule block_source_axioms.intro)
  fix r bs r' assume r: "whole_rest r" "bounded_read file_read r 512 = Ok (bs, r')"
  have "packed_rest r = bs @ packed_rest r'"
    using byte_source.next_bytes [OF packed_source _ r(2)] by simp
  moreover have "16 dvd length bs"
    using length_packed_read [OF r(2)] r(1) by (simp add: min_def)
  ultimately show "16 dvd length bs \<and> whole_rest r'" using r(1) by (simp add: dvd_add_right_iff)
qed simp

section \<open>The block of the header\<close>

lemma block_reader_depth_Inl: "block_reader_depth (Inl x) = length (fst x)"
  by (simp add: block_reader_depth_def)

lemma block_reader_source:
  assumes D: "valid_decoder D out fine" and cipher: "block_cipher (dc_cbc D)"
  shows "byte_source (block_reader_read crc32 D (bounded_read file_read) k)
     (\<lambda>r. case r of Inl x \<Rightarrow> packed.stack_contents D out x | Inr _ \<Rightarrow> [])
     (\<lambda>r. case r of Inl x \<Rightarrow> packed.stack_at D out fine k x | Inr _ \<Rightarrow> False)"
  (is "byte_source ?read ?contents ?ready")
  unfolding byte_source_reads_on
proof (intro allI impI)
  fix r :: "('a, cursor bounded_reader) block_reader" and n assume ready: "?ready r"
  then obtain x where x: "r = Inl x" "packed.stack_at D out fine k x" by (cases r) auto
  have "reads_on (stack_read D (bounded_read file_read) k x n) n (packed.stack_contents D out x)
      (packed.stack_contents D out) (packed.stack_at D out fine k)"
    using packed.stack_source [OF D cipher, of k] x(2) unfolding byte_source_reads_on by blast
  then have "reads_on (and_then (stack_read D (bounded_read file_read) k x n) (\<lambda>(bs, x). Ok (bs, Inl x))) n
      (packed.stack_contents D out x) ?contents ?ready"
    by (rule reads_on_map) simp
  then show "reads_on (?read r n) n (?contents r) ?contents ?ready"
    by (simp add: block_reader_read_def x(1))
qed

lemma block_of_header_decodes:
  assumes D: "valid_decoder D out fine" and cipher: "block_cipher (dc_cbc D)"
    and a: "ar_blocks a = [b]" "pack_sizes a = [p]" "unat (of_nat signature_header_size + pack_pos a) = start"
    and b: "is_chain b" "simple_coders b" "\<not> block_has_crc b" "(get_unpack_size b :: u64 result) = Ok n" "length (coders b) < fuel"
    and dec: "block_decodes D L out fine threads pw (block_coders b) (take (unat p) (drop start (cur_data f))) d"
    and n: "unat n \<le> length d"
  shows "\<exists>r. block_of_header D L fuel pw threads a f = Ok (r, unat n)
     \<and> (\<exists>r'. read_exact_from (block_reader_read crc32 D (bounded_read file_read) (block_reader_depth r)) (unat n) r
           = Ok (take (unat n) d, r'))"
proof -
  let ?s = "bounded_new (f\<lparr>cur_pos := start\<rparr>) (unat p)"
  have cont: "packed_rest ?s = take (unat p) (drop start (cur_data f))"
    by (simp add: bounded_contents_def cursor_rest_def bounded_new_def)
  have "\<exists>x. add_decoders D L (bounded_read file_read) pw threads fuel b (coder_iter_new b) ([], ?s) = Ok x
     \<and> packed.stack_at D out fine (length (coders b)) x \<and> packed.stack_contents D out x = d"
    by (rule packed.add_decoders_builds [OF D cipher b(1,2,5)]) (use dec in \<open>simp_all add: cont\<close>)
  then obtain x where x: "add_decoders D L (bounded_read file_read) pw threads fuel b (coder_iter_new b) ([], ?s) = Ok x"
    "packed.stack_at D out fine (length (coders b)) x" "packed.stack_contents D out x = d" by blast
  have pos: "coders b \<noteq> []" using b(1) by (simp add: is_chain_def)
  have run: "block_of_header D L fuel pw threads a f = Ok (Inl x, unat n)"
    using a b(3,4) pos x(1) by (simp add: block_of_header_def seek_start_def Let_def)
  let ?R = "block_reader_read crc32 D (bounded_read file_read) (length (coders b))"
  from byte_source.read_exact_from_contents [OF block_reader_source [OF D cipher, of crc32 "length (coders b)"], of "Inl x" "unat n"]
  obtain r' where "read_exact_from ?R (unat n) (Inl x) = Ok (take (unat n) d, r')"
    using x(2,3) n by auto
  with run x(2) show ?thesis by (auto simp: block_reader_depth_Inl)
qed

end
