(* ===== verification/Codec_Properties.thy ===== *)
theory Codec_Properties
  imports Demo_Environment Codec_Inverse Header_Decoding
begin

text \<open>
  Properties of the encoders, the decoders and the readers: the code of a stack of encoders, its
  decoding, the filters, the key derivation, the checking readers, and the places where a codec
  does not give back what it was given.
\<close>

section \<open>Stacks\<close>

text \<open>C32: a stack of encoders that is given data in portions of any size, flushed and finished,
  leaves in the writer below one code of the whole data: each encoder codes what the one above
  it made, and each counting writer has counted it.\<close>

theorem encoder_stack_codes:
  assumes "finishing_sink (io_write B) wa (io_flush B) took finished"
    and "list_all (\<lambda>(R, e). fresh_encoder X R e) es" and "took x []"
  shows "\<exists>w c. run_stack X B (map (\<lambda>(R, e). (e, 0, 0)) es, x) ps = Ok w \<and> finished (snd w) c
     \<and> stack_code X es (concat ps) c (layers_counts (fst w))"
  by (rule run_stack_codes [OF assms])

theorem encoder_stack_codes_witness:
  "\<exists>w c. run_stack demo_codecs vec_ops (map (\<lambda>(R, e). (e, 0, 0)) [((=), Swap2_encoder (Some None)), ((=), Lzma_encoder (Some ()))], []) [[1], [2, 3]] = Ok w
     \<and> snd w = c \<and> stack_code demo_codecs [((=), Swap2_encoder (Some None)), ((=), Lzma_encoder (Some ()))] [1, 2, 3] c (layers_counts (fst w))"
proof -
  have "finishing_sink (io_write vec_ops) vec_write_all (io_flush vec_ops) (=) (=)"
    using vec.finishing_sink_axioms by (simp add: vec_ops_def)
  from encoder_stack_codes [OF this, of demo_codecs "[((=), Swap2_encoder (Some None)), ((=), Lzma_encoder (Some ()))]" "[]" "[[1], [2, 3]]"]
  show ?thesis by (simp add: demo_valid_encoder)
qed

text \<open>C33: the reader decodes what the writer encoded. When the decoders of the methods undo their
  encoders, the decoders that are built for a block of the writer deliver the data from its
  packed stream, wherever it lies in the file; after the data there may be padding.\<close>

theorem encoded_block_is_decoded:
  assumes "valid_decoder D out fine" and "block_cipher (dc_cbc D)"
    and "methods_undone D L out fine threads pw X (bi_methods b) ps"
    and "stack_code X (rev ps) d c ns" and "bi_sizes b = map of_nat (coder_sizes d ns)"
    and "block_ok L b" and "length (bi_methods b) < fuel"
    and "length d < 2 ^ 64" and "\<forall>n\<in>set ns. n < 2 ^ 64"
    and "take (length c) (drop (cur_pos f) (cur_data f)) = c"
  shows "\<exists>x x'. add_decoders D L (bounded_read file_read) pw threads fuel (read_back L b) (coder_iter_new (read_back L b))
          ([], bounded_new f (length c)) = Ok x
     \<and> read_exact_from (stack_read D (bounded_read file_read) (length (fst x))) (length d) x = Ok (d, x')"
proof -
  have "\<forall>n\<in>set (coder_sizes d ns). n < 2 ^ 64"
    using assms(8,9) by (auto simp: coder_sizes_def dest: in_set_butlastD)
  then have sizes: "map unat (bi_sizes b) = coder_sizes d ns"
    unfolding assms(5) by (simp add: map_idI unat_of_nat_u64)
  obtain j where dec: "block_decodes D L out fine threads pw (block_coders (read_back L b)) c (d @ replicate j 0)"
    using block_undone [OF assms(3,4)] by (auto simp: block_coders_read_back [OF assms(6)] sizes)
  have rest: "packed_rest (bounded_new f (length c)) = c"
    using assms(10) by (simp add: bounded_contents_def cursor_rest_def bounded_new_def)
  have "\<exists>x. add_decoders D L (bounded_read file_read) pw threads fuel (read_back L b) (coder_iter_new (read_back L b))
      ([], bounded_new f (length c)) = Ok x \<and> packed.stack_at D out fine (length (coders (read_back L b))) x
     \<and> packed.stack_contents D out x = d @ replicate j 0"
    by (rule packed.add_decoders_builds [OF assms(1,2) read_back_chain [OF assms(6)] read_back_simple])
      (use dec assms(7) in \<open>simp_all add: rest read_back_def written_block_def Let_def\<close>)
  then obtain x where x: "add_decoders D L (bounded_read file_read) pw threads fuel (read_back L b) (coder_iter_new (read_back L b))
      ([], bounded_new f (length c)) = Ok x" "packed.stack_at D out fine (length (fst x)) x"
    "packed.stack_contents D out x = d @ replicate j 0" by auto
  from byte_source.read_exact_from_contents [OF packed.stack_source [OF assms(1,2), of "length (fst x)"], of x "length d"] x
  show ?thesis by auto
qed

lemma demo_swapped_undone:
  "methods_undone demo_decoders demo_libs (\<lambda>d c. c) (\<lambda>d c. True) 1 [] demo_codecs [stored, swapped] demo_encoders"
  by (simp add: methods_undone_def stored_def swapped_def config_new_def undoes_copy undoes_swap2)

lemma demo_cipher: "block_cipher (dc_cbc demo_decoders)"
  by (simp add: block_cipher_def demo_decoders_def demo_cbc_def)

lemma demo_codec_ok: "codec_ok demo_libs stored" "codec_ok demo_libs swapped"
  by (simp_all add: codec_ok_def codec_props_def stored_def swapped_def config_new_def get_options_as_properties_def
      id_copy_def id_swap2_def id_delta_def id_lzma2_def id_lzma_def id_ppmd_def id_brotli_def id_lz4_def id_zstd_def
      id_aes256_sha256_def)

theorem encoded_block_is_decoded_witness:
  "\<exists>x x'. add_decoders demo_decoders demo_libs (bounded_read file_read) [] 1 3
          (read_back demo_libs \<lparr>bi_methods = [stored, swapped], bi_sizes = [3, 3], bi_crc = 0, bi_num_sub_unpack_streams = 1, bi_sub_stream_sizes = [], bi_sub_stream_crcs = []\<rparr>)
          (coder_iter_new (read_back demo_libs \<lparr>bi_methods = [stored, swapped], bi_sizes = [3, 3], bi_crc = 0, bi_num_sub_unpack_streams = 1, bi_sub_stream_sizes = [], bi_sub_stream_crcs = []\<rparr>))
          ([], bounded_new \<lparr>cur_data = [9, 2, 1, 3, 9], cur_pos = 1\<rparr> 3) = Ok x
     \<and> read_exact_from (stack_read demo_decoders (bounded_read file_read) (length (fst x))) 3 x = Ok ([1, 2, 3], x')"
proof -
  let ?b = "\<lparr>bi_methods = [stored, swapped], bi_sizes = [3, 3], bi_crc = 0, bi_num_sub_unpack_streams = 1, bi_sub_stream_sizes = [], bi_sub_stream_crcs = []\<rparr>"
  have ok: "block_ok demo_libs ?b" by (simp add: block_ok_def demo_codec_ok)
  have code: "stack_code demo_codecs (rev demo_encoders) [1, 2, 3] [2, 1, 3] [3, 3]"
    by (simp add: encoder_code_def)
  have "\<exists>x x'. add_decoders demo_decoders demo_libs (bounded_read file_read) [] 1 3 (read_back demo_libs ?b) (coder_iter_new (read_back demo_libs ?b))
          ([], bounded_new \<lparr>cur_data = [9, 2, 1, 3, 9], cur_pos = 1\<rparr> (length [2, 1, 3 :: u8])) = Ok x
     \<and> read_exact_from (stack_read demo_decoders (bounded_read file_read) (length (fst x))) (length [1, 2, 3 :: u8]) x = Ok ([1, 2, 3], x')"
    by (rule encoded_block_is_decoded [OF demo_valid_decoder demo_cipher _ code _ ok])
      (use demo_swapped_undone in \<open>simp_all add: coder_sizes_def\<close>)
  moreover have "length [2, 1, 3 :: u8] = 3" "length [1, 2, 3 :: u8] = 3" by simp_all
  ultimately show ?thesis by (simp only:)
qed

section \<open>AES\<close>

text \<open>C34: AES: the decoder delivers what the encoder was given in any portions, followed by the
  zeros of the padding, when it derives the same key.\<close>

theorem aes_roundtrip:
  assumes "cbc_inverse (cd_cbc X) dec" and "aes_encoder_new (cd_sha256 X) opts = Ok a"
    and "0 < n" and "length (concat ps) + 16 < fuel"
  shows "\<exists>w d r. run_stack X vec_ops ([(Aes_encoder a, 0, 0)], []) ps = Ok w
     \<and> aes_decoder_new (cd_sha256 X) (snd w) (aes_properties opts) (aes_password opts) = Ok d
     \<and> read_all (aes_read dec slice_read) n fuel d = Ok (padded (concat ps), r)
     \<and> take (length (concat ps)) (padded (concat ps)) = concat ps"
proof -
  from assms(2) obtain k where k: "get_aes_key (cd_sha256 X) (aes_properties opts) (aes_password opts) = Ok k"
    "a = \<lparr>ae_cipher = cipher_new k, ae_buffer = [], ae_finished = False, ae_write_size = 0\<rparr>"
    by (auto simp: aes_encoder_new_def and_then_Ok_iff)
  have vec: "finishing_sink (io_write vec_ops) vec_write_all (io_flush vec_ops) (=) (=)"
    using vec.finishing_sink_axioms by (simp add: vec_ops_def)
  have "list_all (\<lambda>(R, e). fresh_encoder X R e) [((=), Aes_encoder a)]" using k(2) by (cases k) auto
  from run_stack_codes [OF vec this, of "[]" ps] obtain w where w: "run_stack X vec_ops ([(Aes_encoder a, 0, 0)], []) ps = Ok w"
    "snd w = cbc_stream (cd_cbc X) (fst k) (snd k) (padded (concat ps))"
    by (auto simp: encoder_code_def k(2) cipher_new_def)
  let ?c = "snd w"
  let ?d = "\<lparr>ad_cipher = cipher_new k, ad_buf = [], ad_input = ?c, ad_done = False, ad_obuffer = [],
         ad_ostart = 0, ad_ofinish = 0, ad_pos = 0\<rparr>"
  have d: "aes_decoder_new (cd_sha256 X) ?c (aes_properties opts) (aes_password opts) = Ok ?d"
    by (simp add: aes_decoder_new_def k(1))
  have "length (dec key iv prev b) = 16" for key iv prev b using assms(1) by (simp add: cbc_inverse_def)
  then have blocks: "dec key iv prev b \<noteq> []" for key iv prev b by (metis list.size(3) zero_neq_numeral)
  have len: "16 dvd length ?c"
    unfolding w(2) cbc_stream_def by (rule run_cbc_concat_length [OF run_cbc_lengths [OF assms(1)]])
  have cont: "aes_contents dec (\<lambda>s. s) ?d = padded (concat ps)"
    using cbc_stream_inverse [OF assms(1) length_padded]
    by (simp add: aes_contents_def cipher_new_def w(2)) (simp add: cbc_stream_def)
  have short: "length (padded (concat ps)) < fuel" using assms(4) by (simp add: padded_def)
  have "\<exists>r. read_all (aes_read dec slice_read) n fuel ?d = Ok (aes_contents dec (\<lambda>s. s) ?d, r)
      \<and> aes_contents dec (\<lambda>s. s) r = [] \<and> aes_ready (\<lambda>s. s) (\<lambda>s. 16 dvd length s) r"
    by (rule byte_source.read_all_contents [OF aligned_slice.aes_source [OF blocks]])
      (use assms(3) short len in \<open>simp_all add: cont aes_ready_def\<close>)
  with w(1) d cont show ?thesis by (auto simp: take_padded)
qed

lemma demo_cbc_inverse: "cbc_inverse demo_cbc demo_cbc"
proof -
  have "map (\<lambda>x. x XOR 0x5A) (map (\<lambda>x. x XOR 0x5A) b) = (b :: bytes)" for b
    by (induction b) (simp_all add: xor.assoc)
  moreover have "length (demo_cbc key iv prev b) = 16" for key iv prev b by (simp add: demo_cbc_def min_def)
  ultimately show ?thesis by (simp add: cbc_inverse_def) (simp add: demo_cbc_def)
qed

definition demo_aes :: aes_options where
  "demo_aes = \<lparr>aes_password = [65, 0], aes_iv = replicate 16 1, aes_salt = replicate 16 2, aes_num_cycles_power = 2\<rparr>"

lemma demo_aes_new: "\<exists>a. aes_encoder_new (cd_sha256 demo_codecs) demo_aes = Ok a"
  unfolding is_ok_iff [symmetric] by code_simp

theorem aes_roundtrip_witness:
  "\<exists>a w d r. aes_encoder_new (cd_sha256 demo_codecs) demo_aes = Ok a
     \<and> run_stack demo_codecs vec_ops ([(Aes_encoder a, 0, 0)], []) [[1, 2], [3]] = Ok w
     \<and> aes_decoder_new (cd_sha256 demo_codecs) (snd w) (aes_properties demo_aes) (aes_password demo_aes) = Ok d
     \<and> read_all (aes_read demo_cbc slice_read) 2 20 d = Ok (padded [1, 2, 3], r)"
proof -
  obtain a where a: "aes_encoder_new (cd_sha256 demo_codecs) demo_aes = Ok a" using demo_aes_new by blast
  have "cbc_inverse (cd_cbc demo_codecs) demo_cbc" using demo_cbc_inverse by (simp add: demo_codecs_def)
  from aes_roundtrip [OF this a, of 2 "[[1, 2], [3]]" 20] a show ?thesis by auto
qed

text \<open>C35: the key derivation. With the property bytes that the writer makes of its options, the
  key is the digest of salt, password and a 64-bit counter, once for each of the \<open>2 ^ p\<close> rounds.\<close>

theorem key_derivation:
  assumes "length (aes_salt opts) = 16" and "length (aes_iv opts) = 16" and "unat (aes_num_cycles_power opts AND 0x3F) < 32"
    and "pw \<noteq> []"
  shows "get_aes_key sha256 (aes_properties opts) pw
     = Ok (sha256 (concat (map (\<lambda>i. aes_salt opts @ pw @ to_le_bytes 8 (of_nat i :: u64))
             [0..<2 ^ unat (aes_num_cycles_power opts AND 0x3F)])), aes_iv opts)"
proof -
  let ?p = "aes_num_cycles_power opts AND 0x3F"
  have low: "((?p OR 0xC0) AND 63 :: u8) = ?p"
    by (simp add: bit.conj_disj_distrib2 and.assoc)
  have bits: "(drop_bit 6 (?p OR 0xC0) AND 1 :: u8) = 1" "(drop_bit 7 (?p OR 0xC0) AND 1 :: u8) = 1"
    by (rule bit_word_eqI; auto simp: bit_simps)+
  have len: "length (aes_properties opts) = 34" using assms(1,2) by (simp add: aes_properties_def)
  have props: "aes_properties opts ! 0 = ?p OR 0xC0" "aes_properties opts ! Suc 0 = 0xFF"
    "take 16 (drop 2 (aes_properties opts)) = aes_salt opts" "take 16 (drop 18 (aes_properties opts)) = aes_iv opts"
    using assms(1,2) by (simp_all add: aes_properties_def)
  have not_special: "?p \<noteq> 0x3F" using assms(3) by auto
  have rounds: "(2 :: nat) ^ unat ?p \<le> 2 ^ 64" using assms(3) by (intro power_increasing) auto
  have sizes: "unat ((1 :: u8) + (0xFF AND 15)) = 16" "unat ((1 :: u8) + drop_bit 4 0xFF) = 16" by code_simp+
  show ?thesis
    using assms(3,4) not_special
    by (simp add: get_aes_key_def Let_def len props low bits sizes kdf_input_counts [OF rounds])
qed

theorem key_derivation_witness:
  "get_aes_key (\<lambda>bs. take 32 bs) (aes_properties demo_aes) [65, 0]
     = Ok (take 32 (concat (map (\<lambda>i. replicate 16 2 @ [65, 0] @ to_le_bytes 8 (of_nat i :: u64)) [0..<2 ^ unat (2 AND 0x3F :: u8)])), replicate 16 1)"
  using key_derivation [of demo_aes "[65, 0]" "\<lambda>bs. take 32 bs"] by (simp add: demo_aes_def)

text \<open>The special value 0x3F, which stands for a key without derivation, is accepted as an
  option, but makes the derivation panic: the salt of the writer has 16 bytes and is copied into
  a key of 32.\<close>

theorem special_power_panics:
  assumes "length (aes_salt opts) = 16" and "length (aes_iv opts) = 16" and "aes_num_cycles_power opts AND 0x3F = 0x3F"
    and "pw \<noteq> []"
  shows "get_aes_key sha256 (aes_properties opts) pw = Panic"
proof -
  have len: "length (aes_properties opts) = 34" using assms(1,2) by (simp add: aes_properties_def)
  have props: "aes_properties opts ! 0 = 0xFF" "aes_properties opts ! Suc 0 = 0xFF"
    using assms(3) by (simp_all add: aes_properties_def)
  have "unat ((drop_bit 6 0xFF AND 1 :: u8) + (0xFF AND 15)) = 16" "unat ((drop_bit 7 0xFF AND 1 :: u8) + drop_bit 4 0xFF) = 16"
    by code_simp+
  then show ?thesis using assms(4) by (simp add: get_aes_key_def Let_def len props)
qed

theorem special_power_panics_witness:
  "get_aes_key (\<lambda>bs. bs) (aes_properties (demo_aes\<lparr>aes_num_cycles_power := 0x3F\<rparr>)) [65, 0] = Panic"
  by (rule special_power_panics) (simp_all add: demo_aes_def)

section \<open>Filters\<close>

text \<open>C36: SWAP2: what is written in any portions and finished is read back in any portions.\<close>

theorem swap2_roundtrip:
  assumes "0 < n" and "length (concat ps) < fuel"
  shows "\<exists>w r. and_then (for_each (\<lambda>p x. and_then (swap2_write vec_write_all x p) (\<lambda>(_, x). Ok x)) ps (swap2_writer_new []))
       (swap2_finish vec_write_all vec_flush) = Ok w
     \<and> read_all (swap2_read slice_read) n fuel (swap2_reader_new w) = Ok (concat ps, r)"
proof -
  obtain w where w: "and_then (for_each (\<lambda>p x. and_then (swap2_write vec_write_all x p) (\<lambda>(_, x). Ok x)) ps (swap2_writer_new []))
       (swap2_finish vec_write_all vec_flush) = Ok w" "w = swap_pairs (concat ps)"
    using vec.swap2_stream [of "[]" ps] by auto
  have "swap2_contents (\<lambda>s. s) (swap2_reader_new w) = concat ps"
    by (simp add: w(2) swap2_contents_def swap2_reader_new_def swap_pairs_involutive)
  with swap2_slice.read_all_contents [where s = "swap2_reader_new w" and n = n and fuel = fuel] w(1) assms show ?thesis by auto
qed

theorem swap2_roundtrip_witness:
  "\<exists>w r. and_then (for_each (\<lambda>p x. and_then (swap2_write vec_write_all x p) (\<lambda>(_, x). Ok x)) [[1], [2, 3]] (swap2_writer_new []))
       (swap2_finish vec_write_all vec_flush) = Ok w
     \<and> read_all (swap2_read slice_read) 1 9 (swap2_reader_new w) = Ok ([1, 2, 3], r)"
  using swap2_roundtrip [of 1 "[[1], [2, 3]]" 9] by simp

text \<open>\<open>Swap4Reader\<close> is not a reader of the swapped stream: with a buffer of two bytes, the
  second half of a group comes out of the wrong place of \<open>pending\<close>.\<close>

theorem swap4_reader_misplaces_pending:
  "and_then (read_all (swap4_read slice_read) 4 9 (swap4_reader_new [1, 2, 3, 4])) (\<lambda>(bs, r). Ok bs) = Ok [4, 3, 2, 1]
   \<and> and_then (read_all (swap4_read slice_read) 2 9 (swap4_reader_new [1, 2, 3, 4])) (\<lambda>(bs, r). Ok bs) = Ok [4, 3, 1, 0]"
  by code_simp

section \<open>Streams that are lost\<close>

text \<open>Brotli with skippable frames swallows the end of the stream: the empty write, with which
  a block is finished, leaves it and the writer below as they were, and never reaches that writer.
  An AES encoder below it, which pads its last block at an empty write only, then keeps up to
  fifteen bytes, and flushing it does not help.\<close>

theorem framed_brotli_swallows_the_end:
  "encoder_write X put wa fl (Brotli_encoder (b\<lparr>be_inner := Brotli_framed cm data frame_size in_frame\<rparr>), w) []
     = Ok (0, Brotli_encoder (b\<lparr>be_inner := Brotli_framed cm data frame_size in_frame\<rparr>), w)
   \<and> encoder_flush X wa fl (Aes_encoder (a\<lparr>ae_finished := False\<rparr>), w) = Ok (Aes_encoder (a\<lparr>ae_finished := False\<rparr>), w)"
  by (simp add: encoder_write_def encoder_flush_def brotli_write_def brotli_fill.simps [where buf = "[]"] aes_flush_def)

text \<open>LZ4 with skippable frames writes nothing for an empty file, and the decoder refuses an
  empty stream.\<close>

theorem framed_lz4_of_nothing_is_refused:
  "run_stack X vec_ops ([(Lz4_encoder (Some (Lz4_framed frame_size [])), 0, 0)], []) [] = Ok ([(Lz4_encoder None, 0, 0)], [])
     \<and> lz4_decoder_new D slice_read [] = Err (Other ''Input too short'')"
  by (simp add: run_stack_def lz4_decoder_new_def slice_read_def vec_ops_def layer_flush_def layer_write_def encoder_flush_def
      encoder_write_def write_or_finish_def lz4_flush_def lz4_finish_def lz4_write_frame_def pass_on_ignoring_def counting_at_def
      counting_flush_def counting_write_def vec_flush_def vec_write_def Let_def)

end
