(* ===== verification/Files_Roundtrip.thy ===== *)
theory Files_Roundtrip
  imports Substreams_Roundtrip
begin

text \<open>
  The files section of a written header (\<open>write_file_*\<close> of \<^verbatim>\<open>src/src/writer.rs\<close>) as
  \<open>read_files_info\<close> of \<^verbatim>\<open>src/src/reader.rs\<close> reads it, and the whole header. \<open>props_run\<close>
  says that the loop over property records goes from one state to another over given bytes;
  it composes along the sections, and an absent section is the empty step.
\<close>

section \<open>Steps of the property loop\<close>

definition props_run :: "bytes \<Rightarrow> nat \<Rightarrow> files_props \<Rightarrow> files_props \<Rightarrow> bool" where
  "props_run bs m p p' \<longleftrightarrow>
     (\<exists>n\<le>m. \<forall>k pre post. read_file_properties (n + k) p (cursor_at pre (bs @ post))
        = read_file_properties k p' (cursor_at (pre @ bs) post))"

lemma props_run_Nil: "props_run [] m p p"
  unfolding props_run_def by (intro exI [of _ 0]) simp

lemma props_run_append:
  assumes "props_run bs m p p'" and "props_run bs' m' p' p''"
  shows "props_run (bs @ bs') (m + m') p p''"
proof -
  obtain n where n: "n \<le> m" "\<And>k pre post. read_file_properties (n + k) p (cursor_at pre (bs @ post))
        = read_file_properties k p' (cursor_at (pre @ bs) post)"
    using assms(1) by (auto simp: props_run_def)
  obtain n' where n': "n' \<le> m'" "\<And>k pre post. read_file_properties (n' + k) p' (cursor_at pre (bs' @ post))
        = read_file_properties k p'' (cursor_at (pre @ bs') post)"
    using assms(2) by (auto simp: props_run_def)
  have "read_file_properties ((n + n') + k) p (cursor_at pre ((bs @ bs') @ post))
        = read_file_properties k p'' (cursor_at (pre @ bs @ bs') post)" for k pre post
    using n(2) [of "n' + k" pre "bs' @ post"] n'(2) [of k "pre @ bs" post] by (simp add: add.assoc)
  moreover have "n + n' \<le> m + m'" using n n' by simp
  ultimately show ?thesis unfolding props_run_def by blast
qed

lemma props_run_record:
  assumes "parses (read_file_property t (of_nat (length body)) p) body p'" and "t \<noteq> 0"
  shows "props_run (write_u8 t @ write_sized body) 1 p p'"
  unfolding props_run_def
  by (rule exI [of _ 1])
    (use assms(2) in \<open>simp add: write_u8_def write_sized_def run_parser and_read_run [OF assms(1)]\<close>)

lemma run_props_end:
  "props_run bs m p p' \<Longrightarrow> m < fuel \<Longrightarrow> parses (read_file_properties fuel p) (bs @ [k_end]) p'"
proof -
  assume "props_run bs m p p'" and m: "m < fuel"
  then obtain n where n: "n \<le> m" "\<And>k pre post. read_file_properties (n + k) p (cursor_at pre (bs @ post))
        = read_file_properties k p' (cursor_at (pre @ bs) post)"
    by (auto simp: props_run_def)
  obtain k where "fuel = n + Suc k" using m n(1) by (metis add_Suc_right le_Suc_ex less_imp_Suc_add order.strict_trans1)
  with n(2) [of "Suc k"] show ?thesis by (intro parsesI) (simp add: run_parser)
qed

section \<open>Flags of the entries without a stream\<close>

lemma byte_of_pad: "length bl + k \<le> 8 \<Longrightarrow> byte_of (bl @ replicate k False) = byte_of bl"
  by (rule bit_word_eqI) (auto simp: bit_byte_of nth_append)

lemma group_drop: "(a + 8 + k + 7) div 8 = (a + 8 + 7) div (8 :: nat) \<Longrightarrow> (a + k + 7) div 8 = (a + 7) div 8"
proof -
  have "a + 8 + k + 7 = (a + k + 7) + 8" "a + 8 + 7 = (a + 7) + 8" by simp_all
  then show "(a + 8 + k + 7) div 8 = (a + 8 + 7) div 8 \<Longrightarrow> ?thesis"
    by (simp only: div_add_self2)
qed

lemma same_group:
  fixes c j n :: nat
  assumes "8 * ((n - 1) div 8) \<le> j" and "j < c" and "c \<le> n"
  shows "(c + 7) div 8 = (n + 7) div 8"
proof -
  obtain q r where q: "(n - 1) div 8 = q" "n - 1 = 8 * q + r" "r < 8"
    by (metis mult_div_mod_eq mod_less_divisor zero_less_numeral)
  have "(c + 7) div 8 = q + 1" "(n + 7) div 8 = q + 1"
    using assms q by (auto intro!: div_nat_eqI)
  then show ?thesis by simp
qed

lemma pack_bits_pad:
  "(length bl + k + 7) div 8 = (length bl + 7) div 8 \<Longrightarrow> pack_bits (bl @ replicate k False) = pack_bits bl"
proof (induction bl rule: pack_bits.induct)
  case (1 bl)
  show ?case
  proof (cases "8 \<le> length bl")
    case True
    define a where "a = length bl - 8"
    have a: "length bl = a + 8" using True by (simp add: a_def)
    have "pack_bits (drop 8 bl @ replicate k False) = pack_bits (drop 8 bl)"
      using "1.prems" a True by (intro "1.IH") (use group_drop [of a k] in auto)
    then show ?thesis
      using True by (subst (1 2) pack_bits.simps) auto
  next
    case False
    show ?thesis
    proof (cases "bl = []")
      case True
      with "1.prems" have "k = 0" by (cases k) (auto simp: div_eq_0_iff)
      then show ?thesis by simp
    next
      case nonempty: False
      then have one: "(length bl + 7) div 8 = 1" using False by (cases "length bl") (auto simp: div_eq_dividend_iff)
      with "1.prems" have "(length bl + k + 7) div 8 = 1" by simp
      then have "length bl + k \<le> 8" by linarith
      with nonempty False byte_of_pad [of bl k] show ?thesis by (simp add: pack_bits_short)
    qed
  qed
qed

text \<open>The set is grown only as far as the last flagged entry. The reader expects a bit for every
  entry, so the bytes agree when a flagged entry is in the last group of eight.\<close>

definition covered :: "('a \<Rightarrow> bool) \<Rightarrow> 'a list \<Rightarrow> bool" where
  "covered flag es \<longleftrightarrow> \<not> list_ex flag es \<or> list_ex flag (drop (8 * ((length es - 1) div 8)) es)"

lemma new_is_empty: "bs_new = bs_with_capacity 0"
  by (simp add: bs_new_def bs_with_capacity_def blocks_for_bits_def)

lemma parses_grown_flags:
  assumes cov: "covered flag es" and ex: "list_ex flag es" and n: "n = length es"
  shows "parses (read_bits n) (write_bit_set (insert_where flag 0 es bs_new)) (flag_set flag es)"
proof -
  let ?s = "insert_where flag 0 es bs_new"
  let ?q = "8 * ((length es - 1) div 8)"
  from cov ex obtain j where j: "j < length es" "?q \<le> j" "flag (es ! j)"
    unfolding covered_def list_ex_length by (auto simp: nth_drop) (metis add.commute le_add2 less_diff_conv)
  have cap: "bit_count ?s \<le> length es" "j < bit_count ?s"
    using bits.capacity_bounds [OF bs_ok_with_capacity, of 0 0 "map flag es"]
      bits.capacity_member [OF bs_ok_with_capacity, of j "map flag es" 0 0] j
    by (simp_all add: insert_where_eq new_is_empty bits.capacity_empty)
  have groups: "(bit_count ?s + 7) div 8 = (length es + 7) div 8"
    using j(2) cap by (intro same_group [of _ j])
  have mem: "bs_contains ?s i \<longleftrightarrow> i < length es \<and> flag (es ! i)" for i
    by (simp add: new_is_empty contains_insert_where)
  have split: "map flag es = flags ?s @ replicate (length es - bit_count ?s) False"
  proof (rule nth_equalityI)
    fix i assume i: "i < length (map flag es)"
    show "map flag es ! i = (flags ?s @ replicate (length es - bit_count ?s) False) ! i"
    proof (cases "i < bit_count ?s")
      case True
      then show ?thesis using i by (simp add: nth_append flags_def mem)
    next
      case False
      then have "\<not> flag (es ! i)" using mem [of i] i by (auto simp: bs_contains_raw)
      with False i show ?thesis by (simp add: nth_append flags_def)
    qed
  qed (use cap in \<open>simp add: flags_def\<close>)
  have "length (flags ?s) + (length es - bit_count ?s) = length es" using cap by (simp add: flags_def)
  then have "pack_bits (map flag es) = write_bit_set ?s"
    unfolding split write_bit_set_eq using groups by (intro pack_bits_pad) (simp add: flags_def)
  with parses_read_bits [of "map flag es"] n show ?thesis
    by (simp add: flag_set_def insert_where_eq)
qed

section \<open>Times and attributes\<close>

lemma parses_file_values:
  assumes some: "\<And>f. f \<in> set files \<Longrightarrow> has f \<Longrightarrow> parses (rd (set_has True (g f))) (time f) (g' f)"
    and none: "\<And>f. f \<in> set files \<Longrightarrow> \<not> has f \<Longrightarrow> set_has False (g f) = g' f"
  shows "parses (read_file_values label set_has rd (map g files))
     (flag_bytes has files @ 0 # concat (map (\<lambda>f. if has f then time f else []) files)) (map g' files)"
proof (rule parsesI)
  fix pre post
  have "parses (read_enumerate (\<lambda>i file.
            let file = set_has (bs_contains (flag_set has files) i) file in
            if bs_contains (flag_set has files) i then rd file else ret file) 0 (map g files))
     (concat (map (\<lambda>f. if has f then time f else []) files)) (map g' files)"
    by (rule parses_read_enumerate_map) (simp add: Let_def some none parses_ret)
  then show "read_file_values label set_has rd (map g files) (cursor_at pre
       ((flag_bytes has files @ 0 # concat (map (\<lambda>f. if has f then time f else []) files)) @ post))
     = Ok (map g' files, cursor_at (pre @ flag_bytes has files @ 0
         # concat (map (\<lambda>f. if has f then time f else []) files)) post)"
    using parsesD by (fastforce simp: read_file_values_def run_parser)
qed

lemma write_times_eq:
  "write_times nid has time files =
     (if list_ex has files
      then write_u8 nid @ write_sized (flag_bytes has files
             @ 0 # concat (map (\<lambda>f. if has f then time f else []) files))
      else [])"
proof -
  have "length (filter has files) = length files \<longleftrightarrow> list_all has files"
    by (metis filter_True length_filter_less less_irrefl list_all_iff)
  moreover have "0 < length (filter has files) \<longleftrightarrow> list_ex has files"
    by (induction files) auto
  ultimately show ?thesis
    by (auto simp: write_times_def Let_def flag_bytes_def flag_set_def write_u8_def write_sized_def)
qed

lemma props_run_times:
  assumes property: "\<And>sz p. read_file_property nid sz p
      = and_read (read_file_values label set_has rd (fp_files p)) (\<lambda>fs. ret (p\<lparr>fp_files := fs\<rparr>))"
    and nid: "nid \<noteq> 0" and files: "fp_files p = map g files"
    and some: "\<And>f. f \<in> set files \<Longrightarrow> has f \<Longrightarrow> parses (rd (set_has True (g f))) (time f) (g' f)"
    and none: "\<And>f. f \<in> set files \<Longrightarrow> \<not> has f \<Longrightarrow> set_has False (g f) = g' f \<and> g' f = g f"
  shows "props_run (write_times nid has time files) 1 p (p\<lparr>fp_files := map g' files\<rparr>)"
proof (cases "list_ex has files")
  case True
  have "parses (read_file_property nid sz p)
     (flag_bytes has files @ 0 # concat (map (\<lambda>f. if has f then time f else []) files))
     (p\<lparr>fp_files := map g' files\<rparr>)" for sz
    unfolding property files
    by (rule parses_and_read_eq [OF parses_file_values parses_ret]) (simp_all add: some none)
  from props_run_record [OF this nid] True show ?thesis by (simp add: write_times_eq)
next
  case False
  then have "f \<in> set files \<Longrightarrow> \<not> has f" for f by (simp add: list_ex_iff)
  then have "map g files = map g' files" using none by (metis map_eq_conv)
  then have "p\<lparr>fp_files := map g' files\<rparr> = p" using files by simp
  then show ?thesis using False by (simp only: write_times_eq if_False props_run_Nil)
qed

section \<open>What is read back of an entry\<close>

definition read_name :: "archive_entry \<Rightarrow> archive_entry" where
  "read_name f = entry_default\<lparr>name := name f\<rparr>"

definition read_ctime :: "archive_entry \<Rightarrow> archive_entry" where
  "read_ctime f = (read_name f)\<lparr>has_creation_date := has_creation_date f,
     creation_date := if has_creation_date f then creation_date f else 0\<rparr>"

definition read_atime :: "archive_entry \<Rightarrow> archive_entry" where
  "read_atime f = (read_ctime f)\<lparr>has_access_date := has_access_date f,
     access_date := if has_access_date f then access_date f else 0\<rparr>"

definition read_mtime :: "archive_entry \<Rightarrow> archive_entry" where
  "read_mtime f = (read_atime f)\<lparr>has_last_modified_date := has_last_modified_date f,
     last_modified_date := if has_last_modified_date f then last_modified_date f else 0\<rparr>"

definition read_meta :: "archive_entry \<Rightarrow> archive_entry" where
  "read_meta f = (read_mtime f)\<lparr>has_windows_attributes := has_windows_attributes f,
     windows_attributes := if has_windows_attributes f then windows_attributes f else 0\<rparr>"

lemmas read_meta_defs = read_name_def read_ctime_def read_atime_def read_mtime_def read_meta_def entry_default_def

lemma parses_time: "upd t = y \<Longrightarrow> parses (and_read (lift_io read_u64) (\<lambda>t. ret (upd t))) (write_u64_le t) y"
  using parses_and_read [where f = "\<lambda>t. ret (upd t)", OF parses_lift_io [OF parses_read_u64] parses_ret, of t]
  by simp

lemma parses_attr: "upd t = y \<Longrightarrow> parses (and_read (lift_io read_u32) (\<lambda>t. ret (upd t))) (write_u32_le t) y"
  using parses_and_read [where f = "\<lambda>t. ret (upd t)", OF parses_lift_io [OF parses_read_u32] parses_ret, of t]
  by simp

lemma props_run_ctimes:
  "fp_files p = map read_name files \<Longrightarrow>
   props_run (write_file_ctimes files) 1 p (p\<lparr>fp_files := map read_ctime files\<rparr>)"
  unfolding write_file_ctimes_def
  by (rule props_run_times [where g = read_name])
    (auto simp: read_file_property_def read_ctime_def Let_def intro!: parses_time, simp_all add: read_meta_defs)

lemma props_run_atimes:
  "fp_files p = map read_ctime files \<Longrightarrow>
   props_run (write_file_atimes files) 1 p (p\<lparr>fp_files := map read_atime files\<rparr>)"
  unfolding write_file_atimes_def
  by (rule props_run_times [where g = read_ctime])
    (auto simp: read_file_property_def read_atime_def Let_def intro!: parses_time, simp_all add: read_meta_defs)

lemma props_run_mtimes:
  "fp_files p = map read_atime files \<Longrightarrow>
   props_run (write_file_mtimes files) 1 p (p\<lparr>fp_files := map read_mtime files\<rparr>)"
  unfolding write_file_mtimes_def
  by (rule props_run_times [where g = read_atime])
    (auto simp: read_file_property_def read_mtime_def Let_def intro!: parses_time, simp_all add: read_meta_defs)

lemma props_run_attrs:
  "fp_files p = map read_mtime files \<Longrightarrow>
   props_run (write_file_windows_attrs files) 1 p (p\<lparr>fp_files := map read_meta files\<rparr>)"
  unfolding write_file_windows_attrs_def
  by (rule props_run_times [where g = read_mtime])
    (auto simp: read_file_property_def read_meta_def Let_def intro!: parses_attr, simp_all add: read_meta_defs)

section \<open>Names\<close>

definition name_ok :: "archive_entry \<Rightarrow> bool" where
  "name_ok f \<longleftrightarrow> valid_string (name f) \<and> 0 \<notin> set (name f)"

definition names_bytes :: "archive_entry list \<Rightarrow> bytes" where
  "names_bytes files = concat (map (\<lambda>f. encode_name (name f)) files)"

lemma parses_names:
  assumes "list_all name_ok files" and "max_bytes = rb + length (names_bytes files)"
  shows "parses (read_names max_bytes rb (map (\<lambda>f. entry_default) files)) (names_bytes files)
     (map read_name files, length files)"
  using assms
proof (induction files arbitrary: rb)
  case Nil
  then show ?case
    by (intro parsesI) (simp add: names_bytes_def names_next_def run_ret)
next
  case (Cons f files)
  let ?n = "encode_name (name f)"
  have nxt: "parses (names_next max_bytes rb) ?n (Some (name f, rb + length ?n))"
    using Cons.prems by (intro parses_names_next) (auto simp: name_ok_def names_bytes_def)
  have rest: "parses (read_names max_bytes (rb + length ?n) (map (\<lambda>f. entry_default) files)) (names_bytes files)
     (map read_name files, length files)"
    using Cons.prems by (intro Cons.IH) (auto simp: names_bytes_def)
  show ?case
  proof (rule parsesI)
    fix pre post
    have bytes: "names_bytes (f # files) = ?n @ names_bytes files" by (simp add: names_bytes_def)
    show "read_names max_bytes rb (map (\<lambda>f. entry_default) (f # files)) (cursor_at pre (names_bytes (f # files) @ post))
       = Ok ((map read_name (f # files), length (f # files)), cursor_at (pre @ names_bytes (f # files)) post)"
      by (simp add: bytes and_read_run [OF nxt] and_read_run [OF rest] run_ret read_name_def)
  qed
qed

lemma even_names_bytes: "even (length (names_bytes files))"
  by (induction files) (simp_all add: names_bytes_def length_encode_name)

lemma write_file_names_eq:
  "write_file_names files = write_u8 k_name @ write_sized (0 # names_bytes files)"
  by (simp add: write_file_names_def names_bytes_def encode_name_def write_u8_def)

lemma props_run_names:
  assumes ok: "list_all name_ok files" and small: "length (names_bytes files) + 1 < 2 ^ 64"
    and files: "fp_files p = map (\<lambda>f. entry_default) files"
  shows "props_run (write_file_names files) 1 p (p\<lparr>fp_files := map read_name files\<rparr>)"
  unfolding write_file_names_eq
proof (rule props_run_record)
  let ?L = "length (names_bytes files)"
  have sz: "of_nat (length (0 # names_bytes files)) - 1 = (of_nat ?L :: u64)" by simp
  have odd: "(of_nat ?L :: u64) AND 1 = 0"
    using even_names_bytes [of files] by (auto simp: and_one_eq mod_2_eq_odd elim!: evenE)
  have "unat (of_nat (length (0 # names_bytes files)) :: u64) = ?L + 1"
    using small by (subst unat_of_nat_u64) simp_all
  then have "unat (1 + of_nat ?L :: u64) = ?L + 1" by simp
  note facts = sz odd this and_read_run [OF parses_names [OF ok, of ?L 0, simplified]]
  show "parses (read_file_property k_name (of_nat (length (0 # names_bytes files))) p) (0 # names_bytes files)
     (p\<lparr>fp_files := map read_name files\<rparr>)"
    by (rule parsesI)
      (simp only: read_file_property_def Let_def facts files run_parser append_Cons if_True if_False simp_thms,
       simp add: facts run_parser)
qed simp

section \<open>Entries without a stream\<close>

definition empties :: "archive_entry list \<Rightarrow> archive_entry list" where
  "empties files = filter (\<lambda>e. \<not> has_stream e) files"

definition flags_read :: "('a \<Rightarrow> bool) \<Rightarrow> 'a list \<Rightarrow> bit_set option" where
  "flags_read flag es = (if list_ex flag es then Some (flag_set flag es) else None)"

lemma still_None:
  "fp_empty_stream p = None \<Longrightarrow> p\<lparr>fp_empty_stream := None\<rparr> = p"
  "fp_empty_file p = None \<Longrightarrow> p\<lparr>fp_empty_file := None\<rparr> = p"
  "fp_anti p = None \<Longrightarrow> p\<lparr>fp_anti := None\<rparr> = p"
  by (cases p; simp)+

lemma props_run_empty_streams:
  assumes "length (fp_files p) = length files" and "fp_empty_stream p = None"
  shows "props_run (write_file_empty_streams files) 1 p
     (p\<lparr>fp_empty_stream := flags_read (\<lambda>e. \<not> has_stream e) files\<rparr>)"
proof (cases "list_ex (\<lambda>e. \<not> has_stream e) files")
  case True
  have bits: "parses (lift_io (read_bits (length files)))
      (write_bit_set (flag_set (\<lambda>e. \<not> has_stream e) files)) (flag_set (\<lambda>e. \<not> has_stream e) files)"
    unfolding flag_set_def by (rule parses_lift_io [OF parses_insert_where]) simp
  have "props_run (write_u8 k_empty_stream @ write_sized (write_bit_set (flag_set (\<lambda>e. \<not> has_stream e) files))) 1 p
      (p\<lparr>fp_empty_stream := Some (flag_set (\<lambda>e. \<not> has_stream e) files)\<rparr>)"
    using assms(1)
    by (intro props_run_record parsesI)
      (simp_all add: read_file_property_def Let_def and_read_run [OF bits] run_ret)
  with True show ?thesis by (simp add: write_file_empty_streams_def flags_read_def flag_set_def)
next
  case False
  with assms(2) props_run_Nil [of 1 p] show ?thesis by (simp add: write_file_empty_streams_def flags_read_def still_None)
qed

lemma grown_record:
  "(let (has, s) = empty_entries_loop flag files 0 False bs_new
    in if has then write_u8 t @ write_sized (write_bit_set s) else [])
   = (if list_ex flag (empties files)
      then write_u8 t @ write_sized (write_bit_set (insert_where flag 0 (empties files) bs_new)) else [])"
  by (simp add: empty_entries_loop_eq empties_def Let_def)

lemma parses_grown_record:
  assumes "covered flag (empties files)" and "list_ex flag (empties files)"
    and "s = flag_set (\<lambda>e. \<not> has_stream e) files"
  shows "parses (lift_io (read_bits (bs_len s)))
     (write_bit_set (insert_where flag 0 (empties files) bs_new)) (flag_set flag (empties files))"
  using assms by (intro parses_lift_io parses_grown_flags) (simp_all add: bs_len_flag_set empties_def)

lemma list_ex_empties: "list_ex flag (empties files) \<Longrightarrow> list_ex (\<lambda>e. \<not> has_stream e) files"
  by (auto simp: list_ex_iff empties_def)

lemma props_run_empty_files:
  assumes cov: "covered (\<lambda>e. \<not> is_directory e) (empties files)"
    and p: "fp_empty_stream p = flags_read (\<lambda>e. \<not> has_stream e) files" "fp_empty_file p = None"
  shows "props_run (write_file_empty_files files) 1 p
     (p\<lparr>fp_empty_file := flags_read (\<lambda>e. \<not> is_directory e) (empties files)\<rparr>)"
proof (cases "list_ex (\<lambda>e. \<not> is_directory e) (empties files)")
  case True
  then have "fp_empty_stream p = Some (flag_set (\<lambda>e. \<not> has_stream e) files)"
    using p by (simp add: flags_read_def list_ex_empties)
  then have "props_run (write_u8 k_empty_file @ write_sized (write_bit_set
        (insert_where (\<lambda>e. \<not> is_directory e) 0 (empties files) bs_new))) 1 p
      (p\<lparr>fp_empty_file := Some (flag_set (\<lambda>e. \<not> is_directory e) (empties files))\<rparr>)"
    by (intro props_run_record parsesI)
      (simp_all add: read_file_property_def Let_def and_read_run [OF parses_grown_record [OF cov True refl]] run_ret)
  with True show ?thesis unfolding write_file_empty_files_def grown_record by (simp add: flags_read_def)
next
  case False
  with p(2) props_run_Nil [of 1 p] show ?thesis
    unfolding write_file_empty_files_def grown_record by (simp add: flags_read_def still_None)
qed

lemma props_run_anti_items:
  assumes cov: "covered (\<lambda>e. \<not> is_anti_item e) (empties files)"
    and p: "fp_empty_stream p = flags_read (\<lambda>e. \<not> has_stream e) files" "fp_anti p = None"
  shows "props_run (write_file_anti_items files) 1 p
     (p\<lparr>fp_anti := flags_read (\<lambda>e. \<not> is_anti_item e) (empties files)\<rparr>)"
proof (cases "list_ex (\<lambda>e. \<not> is_anti_item e) (empties files)")
  case True
  then have "fp_empty_stream p = Some (flag_set (\<lambda>e. \<not> has_stream e) files)"
    using p by (simp add: flags_read_def list_ex_empties)
  then have "props_run (write_u8 k_anti @ write_sized (write_bit_set
        (insert_where (\<lambda>e. \<not> is_anti_item e) 0 (empties files) bs_new))) 1 p
      (p\<lparr>fp_anti := Some (flag_set (\<lambda>e. \<not> is_anti_item e) (empties files))\<rparr>)"
    by (intro props_run_record parsesI)
      (simp_all add: read_file_property_def Let_def and_read_run [OF parses_grown_record [OF cov True refl]] run_ret)
  with True show ?thesis unfolding write_file_anti_items_def grown_record by (simp add: flags_read_def)
next
  case False
  with p(2) props_run_Nil [of 1 p] show ?thesis
    unfolding write_file_anti_items_def grown_record by (simp add: flags_read_def still_None)
qed

section \<open>The files that are read\<close>

text \<open>A streamed entry takes the next substream's size and CRC. Of an entry without a stream,
  the writer's inverted test of \<open>is_anti_item\<close> comes back as the negated flag.\<close>

fun files_read :: "sub_streams_info \<Rightarrow> nat \<Rightarrow> archive_entry list \<Rightarrow> archive_entry list" where
  "files_read si k [] = []"
| "files_read si k (f # fs) =
     (if has_stream f
      then (read_meta f)\<lparr>has_stream := True, has_crc := bs_contains (ss_has_crc si) k,
             crc := ss_crcs si ! k, entry_size := ss_unpack_sizes si ! k\<rparr> # files_read si (k + 1) fs
      else (read_meta f)\<lparr>is_directory := is_directory f, is_anti_item := \<not> is_anti_item f\<rparr>
             # files_read si k fs)"

definition props_of :: "archive_entry list \<Rightarrow> files_props" where
  "props_of files = \<lparr>fp_files = map read_meta files,
     fp_empty_stream = flags_read (\<lambda>e. \<not> has_stream e) files,
     fp_empty_file = flags_read (\<lambda>e. \<not> is_directory e) (empties files),
     fp_anti = flags_read (\<lambda>e. \<not> is_anti_item e) (empties files)\<rparr>"

lemma flags_read_contains:
  "i < length es \<Longrightarrow> (case flags_read flag es of None \<Rightarrow> False | Some s \<Rightarrow> bs_contains s i) = flag (es ! i)"
  by (auto simp: flags_read_def list_ex_length)

lemma flags_read_not_contains:
  "i < length es \<Longrightarrow> (case flags_read flag es of None \<Rightarrow> True | Some s \<Rightarrow> \<not> bs_contains s i) = (\<not> flag (es ! i))"
  by (auto simp: flags_read_def list_ex_length)

lemma props_of_simps:
  "fp_empty_stream (props_of files) = flags_read (\<lambda>e. \<not> has_stream e) files"
  "fp_empty_file (props_of files) = flags_read (\<lambda>e. \<not> is_directory e) (empties files)"
  "fp_anti (props_of files) = flags_read (\<lambda>e. \<not> is_anti_item e) (empties files)"
  by (simp_all add: props_of_def)

lemma read_meta_updates:
  "(read_meta f)\<lparr>has_stream := True, is_directory := False, is_anti_item := False, has_crc := c, crc := x,
      entry_size := y\<rparr> = (read_meta f)\<lparr>has_stream := True, has_crc := c, crc := x, entry_size := y\<rparr>"
  "(read_meta f)\<lparr>has_stream := False, is_directory := d, is_anti_item := a, has_crc := False, entry_size := 0\<rparr>
      = (read_meta f)\<lparr>is_directory := d, is_anti_item := a\<rparr>"
  by (simp_all add: read_meta_defs)

lemma assign_streams_files:
  assumes "files = done @ rest" and "k = length (filter has_stream done)" and "e = length (empties done)"
    and "length (filter has_stream files) \<le> length (ss_crcs si)"
    and "length (filter has_stream files) \<le> length (ss_unpack_sizes si)"
  shows "assign_streams (props_of files) (Some si) (length done) k e (map read_meta rest)
     = Ok (files_read si k rest)"
  using assms
proof (induction rest arbitrary: "done" k e)
  case Nil
  then show ?case by simp
next
  case (Cons f rest)
  have i: "length done < length files" "files ! length done = f" using Cons.prems by simp_all
  note has = flags_read_not_contains [OF i(1), of "\<lambda>e. \<not> has_stream e"]
  show ?case
  proof (cases "has_stream f")
    case True
    then have "k < length (filter has_stream files)" using Cons.prems by simp
    moreover have "assign_streams (props_of files) (Some si) (length (done @ [f])) (k + 1) e (map read_meta rest)
        = Ok (files_read si (k + 1) rest)"
      using Cons.prems True by (intro Cons.IH) (simp_all add: empties_def)
    ultimately show ?thesis
      using True has i Cons.prems by (simp add: props_of_simps read_meta_updates)
  next
    case False
    then have e: "e < length (empties files)" "empties files ! e = f"
      using Cons.prems by (simp_all add: empties_def nth_append)
    have "assign_streams (props_of files) (Some si) (length (done @ [f])) k (e + 1) (map read_meta rest)
        = Ok (files_read si k rest)"
      using Cons.prems False by (intro Cons.IH) (simp_all add: empties_def)
    then show ?thesis
      using False has i flags_read_not_contains [OF e(1), of "\<lambda>e. \<not> is_directory e"]
        flags_read_contains [OF e(1), of "\<lambda>e. \<not> is_anti_item e"] e
      by (simp add: props_of_simps read_meta_updates)
  qed
qed

section \<open>Files info\<close>

definition files_ok :: "archive_entry list \<Rightarrow> bool" where
  "files_ok files \<longleftrightarrow> list_all name_ok files \<and> length files < 2 ^ 64
     \<and> length (names_bytes files) + 1 < 2 ^ 64
     \<and> covered (\<lambda>e. \<not> is_directory e) (empties files) \<and> covered (\<lambda>e. \<not> is_anti_item e) (empties files)"

lemma props_run_files:
  assumes ok: "files_ok files"
  shows "props_run (write_file_empty_streams files @ write_file_empty_files files
       @ write_file_anti_items files @ write_file_names files @ write_file_ctimes files
       @ write_file_atimes files @ write_file_mtimes files @ write_file_windows_attrs files) 8
     \<lparr>fp_files = replicate (length files) entry_default, fp_empty_stream = None,
      fp_empty_file = None, fp_anti = None\<rparr> (props_of files)"
proof -
  let ?es = "flags_read (\<lambda>e. \<not> has_stream e) files"
  let ?ef = "flags_read (\<lambda>e. \<not> is_directory e) (empties files)"
  let ?an = "flags_read (\<lambda>e. \<not> is_anti_item e) (empties files)"
  define p where "p fs es ef an = \<lparr>fp_files = fs, fp_empty_stream = es, fp_empty_file = ef, fp_anti = an\<rparr>"
    for fs es ef an
  let ?d = "map (\<lambda>f. entry_default) files"
  have "props_run (write_file_empty_streams files) 1 (p ?d None None None) (p ?d ?es None None)"
    using props_run_empty_streams [of "p ?d None None None" files] by (simp add: p_def)
  moreover have "props_run (write_file_empty_files files) 1 (p ?d ?es None None) (p ?d ?es ?ef None)"
    using props_run_empty_files [of files "p ?d ?es None None"] ok by (simp add: p_def files_ok_def)
  moreover have "props_run (write_file_anti_items files) 1 (p ?d ?es ?ef None) (p ?d ?es ?ef ?an)"
    using props_run_anti_items [of files "p ?d ?es ?ef None"] ok by (simp add: p_def files_ok_def)
  moreover have "props_run (write_file_names files) 1 (p ?d ?es ?ef ?an) (p (map read_name files) ?es ?ef ?an)"
    using props_run_names [of files "p ?d ?es ?ef ?an"] ok by (simp add: p_def files_ok_def)
  moreover have "props_run (write_file_ctimes files) 1 (p (map read_name files) ?es ?ef ?an) (p (map read_ctime files) ?es ?ef ?an)"
    using props_run_ctimes [of "p (map read_name files) ?es ?ef ?an" files] by (simp add: p_def)
  moreover have "props_run (write_file_atimes files) 1 (p (map read_ctime files) ?es ?ef ?an) (p (map read_atime files) ?es ?ef ?an)"
    using props_run_atimes [of "p (map read_ctime files) ?es ?ef ?an" files] by (simp add: p_def)
  moreover have "props_run (write_file_mtimes files) 1 (p (map read_atime files) ?es ?ef ?an) (p (map read_mtime files) ?es ?ef ?an)"
    using props_run_mtimes [of "p (map read_atime files) ?es ?ef ?an" files] by (simp add: p_def)
  moreover have "props_run (write_file_windows_attrs files) 1 (p (map read_mtime files) ?es ?ef ?an) (p (map read_meta files) ?es ?ef ?an)"
    using props_run_attrs [of "p (map read_mtime files) ?es ?ef ?an" files] by (simp add: p_def)
  ultimately have "props_run (write_file_empty_streams files @ write_file_empty_files files
       @ write_file_anti_items files @ write_file_names files @ write_file_ctimes files
       @ write_file_atimes files @ write_file_mtimes files @ write_file_windows_attrs files)
     (1 + (1 + (1 + (1 + (1 + (1 + (1 + 1))))))) (p ?d None None None) (p (map read_meta files) ?es ?ef ?an)"
    by (intro props_run_append)
  moreover have "?d = replicate (length files) entry_default" by (simp add: map_replicate_const)
  ultimately show ?thesis by (simp add: p_def props_of_def eval_nat_numeral)
qed

lemma write_files_info_eq:
  "write_files_info files = k_files_info # write_u64 (of_nat (length files))
     @ (write_file_empty_streams files @ write_file_empty_files files
       @ write_file_anti_items files @ write_file_names files @ write_file_ctimes files
       @ write_file_atimes files @ write_file_mtimes files @ write_file_windows_attrs files) @ [k_end]"
  by (simp add: write_files_info_def write_u8_def)

lemma parses_files_info:
  assumes ok: "files_ok files" and fuel: "8 < fuel" and si: "sub_streams a = Some si"
    and streams: "length (filter has_stream files) \<le> length (ss_crcs si)"
      "length (filter has_stream files) \<le> length (ss_unpack_sizes si)"
    and map: "calculate_stream_map (a\<lparr>ar_files := files_read si 0 files\<rparr>) = Ok a'"
  shows "parses (read_files_info fuel a) (tl (write_files_info files)) a'"
proof (rule parsesI)
  fix pre post
  note props = run_props_end [OF props_run_files [OF ok] fuel]
  have assign: "assign_streams (props_of files) (Some si) 0 0 0 (map read_meta files) = Ok (files_read si 0 files)"
    using assign_streams_files [of files "[]" files 0 0 si] streams by (simp add: empties_def)
  have files: "fp_files (props_of files) = map read_meta files" by (simp add: props_of_def)
  have n: "length files < 2 ^ 64" using ok by (simp add: files_ok_def)
  show "read_files_info fuel a (cursor_at pre (tl (write_files_info files) @ post))
      = Ok (a', cursor_at (pre @ tl (write_files_info files)) post)"
    unfolding write_files_info_eq list.sel append_assoc read_files_info_def
    by (simp only: run_usize [OF n] and_read_run [OF props, unfolded append_assoc] run_lift_outcome files si assign
        and_then.simps append_assoc)
      (simp add: lift_outcome_def map)
qed

section \<open>The whole header\<close>

lemma u16_chunks_le: "u16_chunks (concat (map write_u16_le us)) = us"
proof (induction us)
  case (Cons u us)
  have "write_u16_le u = [ucast u, ucast (drop_bit 8 u)]" by (simp add: write_u16_le_def numeral_2_eq_2)
  moreover have "from_le_bytes (write_u16_le u) = u" by (simp add: write_u16_le_def)
  ultimately show ?case using Cons by simp
qed simp

definition comment_ok :: "rstring option \<Rightarrow> bool" where
  "comment_ok c = (case c of None \<Rightarrow> True
     | Some s \<Rightarrow> valid_string s \<and> 0 \<notin> set s \<and> 2 * length (encode_utf16 s) + 2 < 2 ^ 64)"

lemma length_concat_u16: "length (concat (map write_u16_le us)) = 2 * length us"
  by (induction us) (simp_all add: write_u16_le_def)

lemma takeWhile_encoded:
  "valid_string s \<Longrightarrow> 0 \<notin> set s \<Longrightarrow> takeWhile (\<lambda>c. c \<noteq> 0) (encode_utf16 s @ [0]) = encode_utf16 s"
proof -
  assume "valid_string s" "0 \<notin> set s"
  then have "\<And>u. u \<in> set (encode_utf16 s) \<Longrightarrow> u \<noteq> 0" using zero_in_encode [of s] by auto
  then show ?thesis by (simp add: takeWhile_append2)
qed

lemma parses_archive_properties:
  assumes "comment_ok (Some s)" and "1 < fuel"
  shows "parses (read_archive_properties fuel a)
     (k_comment # write_sized (concat (map write_u16_le (encode_utf16 s @ [0]))) @ [k_end]) (a\<lparr>comment := Some s\<rparr>)"
proof (rule parsesI)
  fix pre post
  let ?bs = "concat (map write_u16_le (encode_utf16 s @ [0]))"
  obtain k where "fuel = Suc (1 + k)" using less_imp_Suc_add [OF assms(2)] by auto
  then have fuel: "fuel = Suc (Suc k)" by simp
  have len: "length ?bs = 2 * length (encode_utf16 s) + 2" unfolding length_concat_u16 by simp
  have small: "length ?bs < 2 ^ 64" unfolding len using assms(1) by (simp add: comment_ok_def)
  have s: "valid_string s" "0 \<notin> set s" using assms(1) by (simp_all add: comment_ok_def)
  have str: "from_utf16 (takeWhile (\<lambda>c. c \<noteq> 0) (u16_chunks ?bs)) = Some s"
    unfolding u16_chunks_le takeWhile_encoded [OF s] by (rule from_utf16_encode) (rule s)
  have two: "2 \<le> length ?bs" unfolding len by simp
  define bs where "bs = ?bs"
  show "read_archive_properties fuel a (cursor_at pre ((k_comment # write_sized ?bs @ [k_end]) @ post))
     = Ok (a\<lparr>comment := Some s\<rparr>, cursor_at (pre @ k_comment # write_sized ?bs @ [k_end]) post)"
    using small str two unfolding fuel bs_def [symmetric]
    by (simp add: run_parser write_sized_def)
qed

definition header_ok :: "libs \<Rightarrow> 'x archive_header_scheme \<Rightarrow> bool" where
  "header_ok L w \<longleftrightarrow> streams_info_ok L w \<and> files_ok (w_files w) \<and> comment_ok (w_comment w)
     \<and> length (pi_sizes (w_pack_info w)) = length (w_unpack_info w)
     \<and> length (filter has_stream (w_files w)) \<le> sum_list (map num_subs (w_unpack_info w))"

definition archive_read :: "libs \<Rightarrow> 'x archive_header_scheme \<Rightarrow> archive" where
  "archive_read L w =
     (with_streams_info L w (archive_default\<lparr>comment := w_comment w\<rparr>))
       \<lparr>ar_files := files_read (read_sub_streams (w_unpack_info w)) 0 (w_files w)\<rparr>"

lemma parses_comment:
  assumes "comment_ok (w_comment w)" and "1 < fuel" and "w_comment w \<noteq> None"
  shows "parses (read_archive_properties fuel a) (tl (write_archive_properties w))
     (a\<lparr>comment := w_comment w\<rparr>)"
  using parses_archive_properties [of _ fuel a] assms
  by (auto simp: write_archive_properties_def write_u8_def)

lemma streams_info_fields:
  "ar_blocks (with_streams_info L w a) = map (read_back L) (w_unpack_info w)"
  "sub_streams (with_streams_info L w a) = Some (read_sub_streams (w_unpack_info w))"
  "comment (with_streams_info L w a) = comment a"
  "pack_sizes a = [] \<Longrightarrow> pack_sizes (with_streams_info L w a) = pi_sizes (w_pack_info w)"
  by (simp_all add: with_streams_info_def with_pack_info_def)

lemma run_header:
  assumes ok: "header_ok L w" and fuel: "8 < fuel"
    and map: "calculate_stream_map (archive_read L w) = Ok a'"
  shows "parses (read_header fuel archive_default) (tl (write_header L w)) a'"
proof (rule parsesI)
  fix pre post
  let ?d = "archive_default\<lparr>comment := w_comment w\<rparr>"
  let ?si = "read_sub_streams (w_unpack_info w)"
  have sub: "list_all subs_ok (w_unpack_info w)" and streams: "streams_info_ok L w" and files: "files_ok (w_files w)"
    using ok by (simp_all add: header_ok_def streams_info_ok_def subs_info_ok_def)
  have crcs: "length (ss_crcs ?si) = sum_list (map num_subs (w_unpack_info w))"
    "length (ss_unpack_sizes ?si) = sum_list (map num_subs (w_unpack_info w))"
    using sub length_all_crcs [OF sub]
    by (simp_all add: read_sub_streams_def length_concat comp_def)
       (metis (mono_tags, lifting) length_sub_sizes list_all_iff map_eq_conv)
  have "ar_blocks ?d = []" by (simp add: archive_default_def)
  note run_streams = and_read_run [OF parses_streams_info [OF streams this]]
  have parse_files: "parses (read_files_info fuel (with_streams_info L w ?d)) (tl (write_files_info (w_files w))) a'"
    using ok map crcs
    by (intro parses_files_info [OF files fuel, where si = ?si])
      (simp_all add: streams_info_fields header_ok_def archive_read_def)
  obtain fb where fb: "write_files_info (w_files w) = k_files_info # fb"
    using write_files_info_eq by blast
  note run_files = and_read_run [OF parse_files, unfolded fb list.sel]
  show "read_header fuel archive_default (cursor_at pre (tl (write_header L w) @ post))
      = Ok (a', cursor_at (pre @ tl (write_header L w)) post)"
  proof (cases "w_comment w = None")
    case True
    then have d: "?d = archive_default" by (simp add: archive_default_def)
    have bytes: "tl (write_header L w) = k_main_streams_info # write_streams_info L w
        @ k_files_info # fb @ [k_end]"
      using True by (simp add: write_header_def write_u8_def fb)
    show ?thesis
      unfolding bytes
      by (simp add: read_header_def run_parser and_read_assoc run_streams [unfolded d] run_files [unfolded d])
  next
    case False
    have bytes: "tl (write_header L w) = k_archive_properties # tl (write_archive_properties w)
        @ k_main_streams_info # write_streams_info L w @ k_files_info # fb @ [k_end]"
      using False by (simp add: write_header_def write_archive_properties_def write_u8_def fb)
    have comment: "parses (read_archive_properties fuel archive_default) (tl (write_archive_properties w)) ?d"
      using ok fuel False by (intro parses_comment) (simp_all add: header_ok_def)
    show ?thesis
      unfolding bytes
      by (simp add: read_header_def run_parser and_read_assoc and_read_run [OF comment] run_streams run_files)
  qed
qed

lemma streams_before_read: "streams_before (files_read si k fs) i = streams_before fs i"
proof (induction fs arbitrary: k i)
  case (Cons f fs)
  then show ?case
    by (cases i) (simp_all add: streams_before_def read_meta_defs)
qed (simp add: streams_before_def)

lemma length_files_read [simp]: "length (files_read si k fs) = length fs"
  by (induction fs arbitrary: k) simp_all

lemma has_stream_files_read: "i < length fs \<Longrightarrow> has_stream (files_read si k fs ! i) = has_stream (fs ! i)"
  by (induction fs arbitrary: k i) (auto simp: nth_Cons' read_meta_defs)

lemma streams_fit_read:
  assumes "header_ok L w"
  shows "streams_fit (archive_read L w)"
proof -
  let ?us = "w_unpack_info w"
  have blocks: "ar_blocks (archive_read L w) = map (read_back L) ?us"
    "pack_sizes (archive_read L w) = pi_sizes (w_pack_info w)"
    "ar_files (archive_read L w) = files_read (read_sub_streams ?us) 0 (w_files w)"
    by (simp_all add: archive_read_def streams_info_fields archive_default_def)
  have packed: "packed_streams (read_back L b) = [0]" for b
    by (simp add: read_back_def written_block_def Let_def)
  have base: "base (map (read_back L) ?us) (length ?us) = sum_list (map num_subs ?us)"
    by (simp add: base_def comp_def) (simp add: read_back_def)
  have before: "streams_before (w_files w) (length (w_files w)) = length (filter has_stream (w_files w))"
    by (simp add: streams_before_def)
  have "sum_list (map (length \<circ> packed_streams) (map (read_back L) ?us)) = length ?us"
    by (simp add: comp_def packed sum_list_triv)
  with assms show ?thesis
    by (simp add: streams_fit_def blocks streams_before_read base before packed header_ok_def
        streams_info_ok_def subs_info_ok_def unpack_info_ok_def)
qed

end
