(* ===== verification/Finish_Layout.thy ===== *)
theory Finish_Layout
  imports Memory_File
begin

text \<open>
  What \<open>finish\<close> leaves in a file in memory: the start header, the packed streams, when the header
  was worth encoding its packed stream, and the header. Whether it was worth it is the case
  distinction of \<open>header_parts\<close>.
\<close>

section \<open>Encoding the header\<close>

text \<open>The bytes behind the packed streams: what was added to them, and the header.\<close>

definition encoded_info ::
    "(bytes \<Rightarrow> u32) \<Rightarrow> encoder_configuration list \<Rightarrow> u64 \<Rightarrow> bytes \<Rightarrow> bytes \<Rightarrow> usize list \<Rightarrow> 'o archive_writer \<Rightarrow> 'o archive_writer" where
  "encoded_info crc32 methods pos raw c ns aw =
     aw\<lparr>w_pack_info := add_stream (pack_info_default\<lparr>pi_pos := pos\<rparr>) (of_nat (length c)) (crc32 c),
        w_unpack_info := unpack_add [] methods (map of_nat (rev (butlast ns)) @ [of_nat (length raw)]) (crc32 raw)\<rparr>"

definition header_parts ::
    "libs \<Rightarrow> 'e codecs \<Rightarrow> (bytes \<Rightarrow> u32) \<Rightarrow> ((bytes \<Rightarrow> bytes \<Rightarrow> bool) \<times> 'e encoder) list \<Rightarrow> nat \<Rightarrow> 'o archive_writer \<Rightarrow> bytes \<Rightarrow> bytes \<Rightarrow> bool" where
  "header_parts L X crc32 ps pos aw c header \<longleftrightarrow>
     (let raw = write_header L aw in
        c = [] \<and> header = raw
      \<or> (\<exists>ns. stack_code X (rev ps) raw c ns
          \<and> header = k_encoded_header # write_streams_info L
              (encoded_info crc32 (header_methods (w_encrypt_header aw) (w_content_methods aw)) (of_nat pos) raw c ns aw)))"

lemma write_streams_info_encoded:
  "write_u8 k_encoded_header @ write_pack_info (add_stream (pack_info_default\<lparr>pi_pos := pos\<rparr>) (of_nat (length c)) (crc32 c))
     @ write_unpack_info L (unpack_add [] methods (map of_nat (rev (butlast ns)) @ [of_nat (length raw)]) (crc32 raw))
     @ write_substreams (unpack_add [] methods (map of_nat (rev (butlast ns)) @ [of_nat (length raw)]) (crc32 raw)) @ write_u8 k_end
   = k_encoded_header # write_streams_info L (encoded_info crc32 methods pos raw c ns aw)"
  by (simp add: write_streams_info_def encoded_info_def add_stream_def write_u8_def)

lemma more_sizes_counts: "more_sizes w = rev (butlast (layers_counts (fst w)))"
  by (simp add: more_sizes_def map_butlast)

text \<open>The code of a header must fit into a vector.\<close>

definition header_fits :: "libs \<Rightarrow> 'e codecs \<Rightarrow> ((bytes \<Rightarrow> bytes \<Rightarrow> bool) \<times> 'e encoder) list \<Rightarrow> 'o archive_writer \<Rightarrow> bool" where
  "header_fits L X ps aw \<longleftrightarrow> (\<forall>c ns. stack_code X (rev ps) (write_header L aw) c ns \<longrightarrow> length c < 2 ^ 63)"

lemma header_parts_position:
  "(of_nat p :: u64) = of_nat q \<Longrightarrow> header_parts L X crc32 ps p = header_parts L X crc32 ps q"
  by (simp add: header_parts_def fun_eq_iff)

text \<open>The header is encoded into a vector: what comes behind the packed streams depends on the
  tables of the writer and on the position only, not on the output.\<close>

definition header_bytes ::
    "libs \<Rightarrow> 'e codecs \<Rightarrow> (bytes \<Rightarrow> u32) \<Rightarrow> u64 \<Rightarrow> 'o archive_writer \<Rightarrow> (bytes \<times> bytes) io_result" where
  "header_bytes L X crc32 position aw =
     (let raw_header = write_header L aw;
          methods = header_methods (w_encrypt_header aw) (w_content_methods aw);
          ops = stack_ops X (wrap_ops vec_ops) (length methods) in
      and_then (map_err Io_wrapped (create_writer L X methods (wrap_new []))) (\<lambda>encoder.
      and_then (write_all_default (io_write ops) encoder raw_header) (\<lambda>encoder.
      and_then (io_flush ops encoder) (\<lambda>encoder.
      and_then (io_write ops encoder []) (\<lambda>(_, encoder).
      let n = wr_bytes_written (snd encoder) in
      if (of_nat (length raw_header) :: u64) \<le> of_nat n + 20 then Ok ([], raw_header)
      else Ok (take n (wr_writer (snd encoder)), k_encoded_header # write_streams_info L
             (encoded_info crc32 methods (position - of_nat signature_header_size) raw_header
                (take n (wr_writer (snd encoder))) (layers_counts (fst encoder)) aw)))))))"

definition with_output :: "'p \<Rightarrow> 'o archive_writer \<Rightarrow> 'p archive_writer" where
  "with_output out aw =
     \<lparr>w_files = w_files aw, w_content_methods = w_content_methods aw, w_pack_info = w_pack_info aw,
      w_unpack_info = w_unpack_info aw, w_encrypt_header = w_encrypt_header aw, w_comment = w_comment aw, w_output = out\<rparr>"

lemma with_output_simps [simp]:
  "w_content_methods (with_output out aw) = w_content_methods aw" "w_encrypt_header (with_output out aw) = w_encrypt_header aw"
  "w_output (with_output out aw) = out" "write_header L (with_output out aw) = write_header L aw"
  by (simp_all add: with_output_def write_header_def write_streams_info_def write_archive_properties_def)

lemma header_bytes_with_output: "header_bytes L X crc32 p (with_output out aw) = header_bytes L X crc32 p aw"
proof -
  have "write_streams_info L (encoded_info crc32 ms pos raw c ns (with_output out aw))
      = write_streams_info L (encoded_info crc32 ms pos raw c ns aw)" for ms pos raw c ns
    by (simp add: write_streams_info_def encoded_info_def)
  then show ?thesis by (simp add: header_bytes_def Let_def split_def cong: if_cong)
qed

lemma header_fits_with_output: "header_fits L X ps (with_output out aw) = header_fits L X ps aw"
  by (simp add: header_fits_def)

text \<open>An output of any kind takes what was added behind the packed streams.\<close>

lemma write_encoded_header_bytes:
  fixes E :: "('e, 'o) writer_env" and aw :: "'o archive_writer"
  assumes ok: "methods_ok E (header_methods (w_encrypt_header aw) (w_content_methods aw)) ps"
    and at: "took (w_output aw) d"
    and takes: "\<And>w d buf. took w d \<Longrightarrow> \<exists>w'. out_write_all (we_output E) w buf = Ok w' \<and> took w' (d @ buf)"
    and pos: "out_position (we_output E) (w_output aw) = Ok (p, w_output aw)"
    and fits: "header_fits (we_libs E) (we_codecs E) ps aw"
  shows "\<exists>c header aw'. write_encoded_header E aw = Ok (header, aw') \<and> took (w_output aw') (d @ c)
     \<and> header_parts (we_libs E) (we_codecs E) (we_crc32 E) ps (unat (p - of_nat signature_header_size)) aw c header
     \<and> header_bytes (we_libs E) (we_codecs E) (we_crc32 E) p aw = Ok (c, header)"
proof -
  let ?L = "we_libs E" and ?X = "we_codecs E" and ?crc32 = "we_crc32 E"
  let ?ms = "header_methods (w_encrypt_header aw) (w_content_methods aw)" and ?raw = "write_header ?L aw"
  let ?B = "wrap_ops vec_ops"
  have B: "finishing_sink (io_write ?B) (write_all_default (io_write ?B)) (io_flush ?B) (wrapped (=)) (wrapped (=))"
    using finishing_sink.wrap_finishing [OF vec.finishing_sink_axioms] by (simp add: wrap_ops_def vec_ops_def)
  note create = methods_ok_create [OF ok]
  have "wrapped (=) (wrap_new []) []" by (rule wrapped_new) simp
  from run_stack_codes [OF B create(2) this, of "[?raw]"] obtain w c where
    run: "run_stack ?X ?B (map (\<lambda>(R, e). (e, 0, 0)) (rev ps), wrap_new []) [?raw] = Ok w"
    and w: "wrapped (=) (snd w) c" "stack_code ?X (rev ps) ?raw c (layers_counts (fst w))" by auto
  let ?S = "stack_ops ?X ?B (length ?ms)"
  have len: "length ps = length ?ms" using create(3) by simp
  from run obtain w1 w2 k where w12:
    "write_all_default (io_write ?S) (map (\<lambda>(R, e). (e, 0, 0)) (rev ps), wrap_new []) ?raw = Ok w1"
    "io_flush ?S w1 = Ok w2" "io_write ?S w2 [] = Ok (k, w)"
    unfolding run_stack_def Let_def fst_conv length_map length_rev len
    by (auto simp: and_then_Ok_iff simp del: write_all_default.simps)
  have small: "length c < 2 ^ 63" using fits w(2) by (auto simp: header_fits_def)
  then have bytes: "wr_bytes_written (snd w) = length c" "wr_writer (snd w) = c" "wr_crc (snd w) = c"
    using w(1) by (auto simp: wrapped_def)
  note eqs = write_encoded_header_def create(1) w12 pos Let_def bytes
  show ?thesis
  proof (cases "(of_nat (length ?raw) :: u64) \<le> of_nat (length c) + 20")
    case True
    then have "write_encoded_header E aw = Ok (?raw, aw)"
      by (simp add: eqs del: write_all_default.simps)
    moreover have "header_bytes ?L ?X ?crc32 p aw = Ok ([], ?raw)"
      using True by (simp add: header_bytes_def create(1) w12 Let_def bytes del: write_all_default.simps)
    ultimately show ?thesis using at
      by (intro exI [of _ "[]"] exI [of _ ?raw] exI [of _ aw]) (simp add: header_parts_def Let_def)
  next
    case False
    obtain f' where f': "out_write_all (we_output E) (w_output aw) c = Ok f'" "took f' (d @ c)"
      using takes [OF at] by blast
    let ?e = "encoded_info ?crc32 ?ms (of_nat (unat (p - of_nat signature_header_size))) ?raw c (layers_counts (fst w)) aw"
    have "write_encoded_header E aw = Ok (k_encoded_header # write_streams_info ?L ?e, aw\<lparr>w_output := f'\<rparr>)"
      using False f'(1)
      unfolding write_streams_info_encoded [where aw = aw, symmetric]
      by (simp add: eqs more_sizes_counts wrap_crc_value_def del: write_all_default.simps)
    moreover have "header_bytes ?L ?X ?crc32 p aw = Ok (c, k_encoded_header # write_streams_info ?L ?e)"
      using False by (simp add: header_bytes_def create(1) w12 Let_def bytes del: write_all_default.simps)
    ultimately show ?thesis using f'(2) w(2) unfolding header_parts_def Let_def by auto
  qed
qed

lemma write_encoded_header_parts:
  fixes X :: "'e codecs" and L crc32
  defines "E \<equiv> memory_env L X crc32"
  assumes ok: "methods_ok E (header_methods (w_encrypt_header aw) (w_content_methods aw)) ps"
    and at: "cursor_took (replicate 32 0) (w_output aw) d" and fits: "header_fits L X ps aw"
  shows "\<exists>c header aw'. write_encoded_header E aw = Ok (header, aw')
     \<and> cursor_took (replicate 32 0) (w_output aw') (d @ c) \<and> header_parts L X crc32 ps (length d) aw c header
     \<and> header_bytes L X crc32 (of_nat (32 + length d)) aw = Ok (c, header)"
proof -
  let ?p = "of_nat (cur_pos (w_output aw)) :: u64"
  have pos: "out_position (we_output E) (w_output aw) = Ok (?p, w_output aw)"
    by (simp add: E_def cursor_position_def)
  have takes: "\<exists>w'. out_write_all (we_output E) w buf = Ok w' \<and> cursor_took (replicate 32 0) w' (d @ buf)"
    if "cursor_took (replicate 32 0) w d" for w d buf
    using cursor_took_write [OF that, of buf] by (auto simp: E_def cursor_write_all_def)
  have "?p - of_nat signature_header_size = of_nat (length d)"
    using at by (simp add: cursor_took_def signature_header_size_def)
  then have parts: "header_parts (we_libs E) (we_codecs E) (we_crc32 E) ps (unat (?p - of_nat signature_header_size))
      = header_parts L X crc32 ps (length d)"
    unfolding E_def memory_env_simps by (intro header_parts_position) simp
  have "header_fits (we_libs E) (we_codecs E) ps aw" using fits by (simp add: E_def)
  from write_encoded_header_bytes [where took = "cursor_took (replicate 32 0)", OF ok at takes pos this]
  have bytes: "\<exists>c header aw'. write_encoded_header E aw = Ok (header, aw') \<and> cursor_took (replicate 32 0) (w_output aw') (d @ c)
      \<and> header_parts L X crc32 ps (length d) aw c header \<and> header_bytes (we_libs E) (we_codecs E) (we_crc32 E) ?p aw = Ok (c, header)"
    unfolding parts .
  have "?p = of_nat (32 + length d)" using at by (simp add: cursor_took_def)
  with bytes show ?thesis by (simp add: E_def)
qed

section \<open>The file\<close>

lemma length_start_header: "length (write_start_header crc32 p h) = 32"
  by (simp add: write_start_header_def Let_def seven_z_signature_def write_u8_def write_u64_le_def write_u32_le_def)

lemma finish_leaves_bytes:
  fixes X :: "'e codecs" and L crc32
  defines "E \<equiv> memory_env L X crc32"
  assumes ok: "methods_ok E (header_methods (w_encrypt_header aw) (w_content_methods aw)) ps"
    and at: "cursor_took (replicate 32 0) (w_output aw) d" and fits: "header_fits L X ps aw"
  shows "\<exists>c header f. finish_archive E aw = Ok f \<and> header_parts L X crc32 ps (length d) aw c header
     \<and> cur_data f = write_start_header crc32 (of_nat (32 + length (d @ c))) header @ d @ c @ header
     \<and> header_bytes L X crc32 (of_nat (32 + length d)) aw = Ok (c, header)"
proof -
  obtain c header aw' where h: "write_encoded_header E aw = Ok (header, aw')"
    "cursor_took (replicate 32 0) (w_output aw') (d @ c)" "header_parts L X crc32 ps (length d) aw c header"
    "header_bytes L X crc32 (of_nat (32 + length d)) aw = Ok (c, header)"
    using write_encoded_header_parts [OF ok [unfolded E_def] at fits] unfolding E_def by blast
  have pos: "cur_pos (w_output aw') = 32 + length (d @ c)" using h(2) by (simp add: cursor_took_def)
  obtain f1 where f1: "cursor_write_all (w_output aw') header = Ok f1" "cursor_took (replicate 32 0) f1 ((d @ c) @ header)"
    using cursor_took_write [OF h(2), of header] by (auto simp: cursor_write_all_def)
  have ne: "header \<noteq> []" using h(3) by (auto simp: header_parts_def Let_def write_header_def write_u8_def)
  have full: "cur_data f1 = replicate 32 0 @ d @ c @ header"
    using f1 ne h(2) by (auto simp: cursor_write_all_def cursor_write_def Let_def cursor_took_def)
  let ?s = "write_start_header crc32 (of_nat (32 + length (d @ c))) header"
  have start: "?s \<noteq> []" by (rule notI) (use length_start_header [of crc32 "of_nat (32 + length (d @ c))" header] in simp)
  have "finish_archive E aw = Ok \<lparr>cur_data = ?s @ d @ c @ header, cur_pos = 32\<rparr>"
    using length_start_header [of crc32 "of_nat (32 + length (d @ c))" header] full start
    by (simp add: finish_archive_def E_def h(1) [unfolded E_def] cursor_position_def pos f1(1) cursor_seek_def
        cursor_write_all_def [of "_\<lparr>cur_pos := _\<rparr>"] cursor_write_def Let_def cursor_flush_def)
  with h(3,4) show ?thesis by auto
qed

lemma finish_leaves:
  assumes "methods_ok (memory_env L X crc32) (header_methods (w_encrypt_header aw) (w_content_methods aw)) ps"
    and "cursor_took (replicate 32 0) (w_output aw) d" and "header_fits L X ps aw"
  shows "\<exists>c header f. finish_archive (memory_env L X crc32) aw = Ok f \<and> header_parts L X crc32 ps (length d) aw c header
     \<and> cur_data f = write_start_header crc32 (of_nat (32 + length (d @ c))) header @ d @ c @ header"
  using finish_leaves_bytes [OF assms] by blast

end
