(* ===== verification/Archive_Roundtrip.thy ===== *)
theory Archive_Roundtrip
  imports Header_Decoding Files_Roundtrip Finish_Layout
begin

text \<open>
  From \<open>finish\<close> to \<open>Archive::read\<close>. The first part opens the bytes behind the start header: a
  plain header, and a header that was encoded. The second part is the layout of the file that
  \<open>finish\<close> leaves in memory, and the last part reads this file.
\<close>

section \<open>Opening a header\<close>

text \<open>The archive that the reader makes of a header of the writer.\<close>

definition opened :: "libs \<Rightarrow> 'x archive_header_scheme \<Rightarrow> archive \<Rightarrow> bool" where
  "opened L w a \<longleftrightarrow> (\<exists>a'. calculate_stream_map (archive_read L w) = Ok a'
     \<and> a = a'\<lparr>is_solid := list_ex (\<lambda>b. 1 < num_unpack_sub_streams b) (ar_blocks a')\<rparr>)"

lemma opened_ex: "header_ok L w \<Longrightarrow> \<exists>a. opened L w a"
  by (rule stream_map_correct [OF streams_fit_read]) (auto simp: opened_def)

lemma write_header_cons: "write_header L w = k_header # tl (write_header L w)"
  by (simp add: write_header_def write_u8_def)

lemma run_hdr_u8_cons: "hdr_u8 (cursor_at [] (x # xs)) = Ok (x, cursor_at [x] xs)"
  using parsesD [OF parses_hdr_u8, of "[]" x xs] by simp

lemma header_archive_opened:
  assumes "header_ok L w" and "8 < fuel" and "opened L w a"
  shows "header_archive fuel (k_header, cursor_at [k_header] (tl (write_header L w))) = Ok a"
proof -
  from assms(3) obtain a' where a': "calculate_stream_map (archive_read L w) = Ok a'"
    "a = a'\<lparr>is_solid := list_ex (\<lambda>b. 1 < num_unpack_sub_streams b) (ar_blocks a')\<rparr>" by (auto simp: opened_def)
  from parsesD [OF run_header [OF assms(1,2) a'(1)], of "[]" "[]"] a'(2) show ?thesis
    by (simp add: header_archive_def)
qed

lemma open_plain:
  assumes "header_ok L w" and "8 < fuel" and "opened L w a"
  shows "open_header crc32 D L fuel pw threads (write_header L w) f = Ok (a, f)"
proof -
  have "hdr_u8 (cursor_at [] (write_header L w)) = Ok (k_header, cursor_at [k_header] (tl (write_header L w)))"
    by (subst write_header_cons) (rule run_hdr_u8_cons)
  then show ?thesis by (simp add: open_header_def header_archive_opened [OF assms])
qed

text \<open>The sections in front of an encoded header.\<close>

lemma streams_info_single:
  assumes "streams_info_ok L e" and "w_unpack_info e = [b]" and "pi_sizes (w_pack_info e) = [p]"
  defines "a \<equiv> with_streams_info L e archive_default"
  shows "ar_blocks a = [read_back L b]" "pack_sizes a = [p]" "pack_pos a = pi_pos (w_pack_info e)" "block_ok L b"
    "subs_ok b"
  using assms
  by (simp_all add: with_streams_info_def with_pack_info_def streams_info_ok_def subs_info_ok_def unpack_info_ok_def)

lemma open_encoded:
  assumes D: "valid_decoder D out fine" and cipher: "block_cipher (dc_cbc D)"
    and w: "header_ok L w" "opened L w a"
    and e: "streams_info_ok L e" "w_unpack_info e = [b]" "pi_sizes (w_pack_info e) = [p]"
    and fuel: "8 < fuel" "length (bi_methods b) < fuel"
    and n: "last (bi_sizes b) = of_nat (length (write_header L w))" "length (write_header L w) < 2 ^ 63"
    and dec: "block_decodes D L out fine threads pw (zip (map (written_coder L) (bi_methods b)) (map unat (bi_sizes b)))
        (take (unat p) (drop (unat (of_nat signature_header_size + pi_pos (w_pack_info e))) (cur_data f)))
        (write_header L w @ replicate j 0)"
  shows "open_header crc32 D L fuel pw threads (k_encoded_header # write_streams_info L e) f = Ok (a, f)"
proof -
  let ?raw = "write_header L w" and ?A = "with_streams_info L e archive_default"
  note one = streams_info_single [OF e]
  have len: "unat (last (bi_sizes b)) = length ?raw" using n by (simp add: unat_of_nat_u64)
  have parse: "read_streams_info archive_default (cursor_at [k_encoded_header] (write_streams_info L e))
      = Ok (?A, cursor_at ([k_encoded_header] @ write_streams_info L e) [])"
    using parsesD [OF parses_streams_info [OF e(1), of archive_default], of "[k_encoded_header]" "[]"]
    by (simp add: archive_default_def)
  have "\<exists>r. block_of_header D L fuel pw threads ?A f = Ok (r, unat (last (bi_sizes b)))
     \<and> (\<exists>r'. read_exact_from (block_reader_read crc32 D (bounded_read file_read) (block_reader_depth r))
           (unat (last (bi_sizes b))) r = Ok (take (unat (last (bi_sizes b))) (?raw @ replicate j 0), r'))"
  proof (rule block_of_header_decodes [OF D cipher one(1,2)])
    show "unat (of_nat signature_header_size + pack_pos ?A) = unat (of_nat signature_header_size + pi_pos (w_pack_info e))"
      by (simp add: one(3))
    show "is_chain (read_back L b)" "simple_coders (read_back L b)"
      by (rule read_back_chain [OF one(4)], rule read_back_simple)
    show "\<not> block_has_crc (read_back L b)"
      by (simp add: read_back_def written_block_def block_default_def Let_def)
    show "get_unpack_size (read_back L b) = Ok (last (bi_sizes b))" by (rule unpack_size_read_back [OF one(4)])
    show "length (coders (read_back L b)) < fuel"
      using fuel(2) by (simp add: read_back_def written_block_def Let_def)
  qed (use dec len in \<open>simp_all add: block_coders_read_back [OF one(4)]\<close>)
  then obtain r r' where r: "block_of_header D L fuel pw threads ?A f = Ok (r, length ?raw)"
    "read_exact_from (block_reader_read crc32 D (bounded_read file_read) (block_reader_depth r)) (length ?raw) r = Ok (?raw, r')"
    by (auto simp: len)
  have "read_encoded_header D L fuel pw threads f (cursor_at [k_encoded_header] (write_streams_info L e))
      = Ok ((r, length ?raw), cursor_at ([k_encoded_header] @ write_streams_info L e) [])"
    by (simp add: read_encoded_header_def and_read_def parse lift_outcome_def r(1))
  moreover have "hdr_u8 (cursor_at [] ?raw) = Ok (k_header, cursor_at [k_header] (tl ?raw))"
    by (subst write_header_cons) (rule run_hdr_u8_cons)
  ultimately show ?thesis
    using n(2) by (simp add: open_header_def run_hdr_u8_cons r(2) header_archive_opened [OF w(1) fuel(1) w(2)])
qed

section \<open>The start header\<close>

lemma init_archive_run:
  assumes "cur_data f = pre @ header" and "unat (of_nat signature_header_size + next_header_offset sh) = length pre"
    and "unat (next_header_size sh) = length header" and "length header < 2 ^ 63" and "next_header_crc sh = ucast (crc32 header)"
  shows "init_archive crc32 D L fuel sh pw v threads f
    = open_header crc32 D L fuel pw threads header (cursor_at (pre @ header) [])"
proof -
  have at: "f\<lparr>cur_pos := length pre\<rparr> = cursor_at pre (header @ [])"
    using assms(1) by (cases f) (simp add: cursor_at_def)
  have "seek_start (of_nat signature_header_size + next_header_offset sh) f = Ok ((), cursor_at pre (header @ []))"
    by (simp add: seek_start_def assms(2) at)
  then show ?thesis
    using assms(3-5) run_read_exact [of header "length header" "\<lambda>buf. if v \<and> ucast (crc32 buf) \<noteq> next_header_crc sh then fail NextHeaderCrcMismatch
        else open_header crc32 D L fuel pw threads buf" pre "[]"]
    by (simp add: init_archive_def and_read_def [of "seek_start _"])
qed

definition start_bytes :: "(bytes \<Rightarrow> u32) \<Rightarrow> u64 \<Rightarrow> bytes \<Rightarrow> bytes" where
  "start_bytes crc32 pos header = write_u64_le (pos - of_nat signature_header_size)
     @ write_u64_le (0xFFFFFFFF AND of_nat (length header)) @ write_u32_le (crc32 header)"

definition start_of :: "(bytes \<Rightarrow> u32) \<Rightarrow> u64 \<Rightarrow> bytes \<Rightarrow> start_header" where
  "start_of crc32 pos header = \<lparr>next_header_offset = pos - of_nat signature_header_size,
     next_header_size = 0xFFFFFFFF AND of_nat (length header), next_header_crc = ucast (crc32 header)\<rparr>"

lemma write_start_header_eq:
  "write_start_header crc32 pos header = (seven_z_signature @ [0, 4] @ write_u32_le (crc32 (start_bytes crc32 pos header)))
     @ start_bytes crc32 pos header"
  by (simp add: write_start_header_def start_bytes_def Let_def write_u8_def)

lemma length_start_bytes: "length (start_bytes crc32 pos header) = 20"
  by (simp add: start_bytes_def write_u64_le_def write_u32_le_def)

lemma masked_length: "length header < 2 ^ 32 \<Longrightarrow> (0xFFFFFFFF AND of_nat (length header) :: u64) = of_nat (length header)"
proof -
  assume small: "length header < 2 ^ 32"
  have "(0xFFFFFFFF AND of_nat (length header) :: u64) = take_bit 32 (of_nat (length header))"
    by (simp add: take_bit_eq_mask mask_eq_exp_minus_1 and.commute)
  also have "\<dots> = of_nat (length header)"
    using small by (simp add: word_unat_eq_iff unsigned_take_bit_eq take_bit_nat_eq_self_iff unat_of_nat_u64)
  finally show ?thesis .
qed

lemma zero_bytes: "list_all (\<lambda>b. b = 0) bs \<Longrightarrow> from_le_bytes bs = 0"
  by (induction bs) auto

lemma start_bytes_nonzero:
  assumes "header \<noteq> []" and "length header < 2 ^ 32"
  shows "list_ex (\<lambda>b. b \<noteq> 0) (start_bytes crc32 pos header)"
proof (rule ccontr)
  assume "\<not> ?thesis"
  then have "list_all (\<lambda>b. b = 0) (write_u64_le (of_nat (length header)))"
    by (simp add: start_bytes_def masked_length [OF assms(2)] list_ex_iff list_all_iff)
  from zero_bytes [OF this, where 'a = 64] have "(of_nat (length header) :: u64) = 0" by (simp add: write_u64_le_def)
  then have "unat (of_nat (length header) :: u64) = 0" by simp
  with assms show False by (simp add: unat_of_nat_u64)
qed

lemma start_bytes_read:
  "length a = 8 \<Longrightarrow> length b = 8 \<Longrightarrow> length c = 4 \<Longrightarrow>
     take 8 (a @ b @ c) = a \<and> take 8 (drop 8 (a @ b @ c)) = b \<and> take 4 (drop 16 (a @ b @ c)) = (c :: bytes)"
  by simp

lemma run_start_header:
  "and_read (read_start_header crc32 (crc32 (start_bytes crc32 pos header))) g
     (cursor_at pre (start_bytes crc32 pos header @ post))
   = g (start_of crc32 pos header) (cursor_at (pre @ start_bytes crc32 pos header) post)"
proof -
  let ?s = "start_bytes crc32 pos header"
  have parts: "take 8 ?s = write_u64_le (pos - of_nat signature_header_size)"
    "take 8 (drop 8 ?s) = write_u64_le (0xFFFFFFFF AND of_nat (length header))" "take 4 (drop 16 ?s) = write_u32_le (crc32 header)"
    unfolding start_bytes_def by (simp_all add: write_u64_le_def write_u32_le_def)
  have vals: "from_le_bytes (take 8 ?s) = pos - of_nat signature_header_size"
    "from_le_bytes (take 8 (drop 8 ?s)) = (0xFFFFFFFF AND of_nat (length header) :: u64)"
    "from_le_bytes (take 4 (drop 16 ?s)) = crc32 header"
    unfolding parts by (simp_all add: write_u64_le_def write_u32_le_def)
  show ?thesis
    unfolding read_start_header_def and_read_assoc
    by (simp add: run_read_exact [OF length_start_bytes] vals start_of_def)
qed

lemma archive_read_start:
  assumes "cur_data f = write_start_header crc32 pos header @ rest" and "header \<noteq> []" and "length header < 2 ^ 32"
  shows "archive_read_file crc32 D L fuel pw f
    = init_archive crc32 D L fuel (start_of crc32 pos header) pw True 1 (cursor_at (write_start_header crc32 pos header) rest)"
proof -
  let ?s = "start_bytes crc32 pos header" and ?crc = "write_u32_le (crc32 (start_bytes crc32 pos header))"
  have data: "f\<lparr>cur_pos := 0\<rparr> = cursor_at [] (seven_z_signature @ [0, 4] @ ?crc @ ?s @ rest)"
    using assms(1) by (cases f) (simp add: cursor_at_def write_start_header_eq)
  have sig: "length seven_z_signature = 6" by (simp add: seven_z_signature_def)
  have two: "and_read (lift_io (read_exact 2)) g (cursor_at pre (0 # 4 # post)) = g [0, 4] (cursor_at (pre @ [0, 4]) post)"
    for g :: "bytes \<Rightarrow> (error, archive) parser" and pre post
    using run_read_exact [of "[0, 4]" 2 g pre post] by simp
  have crc: "and_read (lift_io read_u32) g (cursor_at pre (?crc @ post)) = g (crc32 ?s) (cursor_at (pre @ ?crc) post)"
    for g :: "u32 \<Rightarrow> (error, archive) parser" and pre post
    by (rule and_read_run [OF parses_lift_io [OF parses_read_u32]])
  let ?pre = "(seven_z_signature @ [0, 4]) @ ?crc"
  have rewind: "seek_start (of_nat (cur_pos (cursor_at ?pre (?s @ rest)))) (cursor_at (?pre @ ?s) rest)
      = Ok ((), cursor_at ?pre (?s @ rest))"
    by (simp add: seek_start_def cursor_at_def sig write_u32_le_def)
  have valid: "and_read (if crc32 ?s = 0 then
               and_read stream_position (\<lambda>current_position.
               and_read (lift_io (read_exact 20)) (\<lambda>buf.
               and_read (seek_start current_position) (\<lambda>_.
               ret (list_ex (\<lambda>a. a \<noteq> 0) buf))))
             else ret True) g (cursor_at ?pre (?s @ rest)) = g True (cursor_at ?pre (?s @ rest))"
    for g :: "bool \<Rightarrow> (error, archive) parser"
  proof (cases "crc32 ?s = 0")
    case True
    have "and_read (and_read stream_position (\<lambda>current_position.
               and_read (lift_io (read_exact 20)) (\<lambda>buf.
               and_read (seek_start current_position) (\<lambda>_.
               ret (list_ex (\<lambda>a. a \<noteq> 0) buf))))) g (cursor_at ?pre (?s @ rest))
        = and_read (seek_start (of_nat (cur_pos (cursor_at ?pre (?s @ rest))))) (\<lambda>_. g (list_ex (\<lambda>a. a \<noteq> 0) ?s)) (cursor_at (?pre @ ?s) rest)"
      unfolding and_read_assoc
      by (simp add: and_read_def [of stream_position] stream_position_def run_read_exact [OF length_start_bytes] and_read_assoc del: append_assoc)
    also have "\<dots> = g True (cursor_at ?pre (?s @ rest))"
      unfolding and_read_def rewind using start_bytes_nonzero [OF assms(2,3)] by simp
    finally show ?thesis using True by simp
  qed simp
  show ?thesis
    unfolding archive_read_file_def Let_def
    by (simp add: and_read_def [of "seek_start 0"] seek_start_def [of 0] data run_read_exact [OF sig] two crc
        valid [simplified] run_start_header write_start_header_eq [of crc32 pos header])
qed

end
