(* ===== verification/Header_Kept.thy ===== *)
theory Header_Kept
  imports Files_Roundtrip
begin

text \<open>
  What \<open>read_header\<close> keeps of the header that the writer made: \<open>header_kept\<close>. It follows from the
  round trip of the sections and from the correctness of the stream map.
\<close>

text \<open>What the reader must give back of an entry of the writer.\<close>

definition entry_kept :: "archive_entry \<Rightarrow> archive_entry \<Rightarrow> bool" where
  "entry_kept f g \<longleftrightarrow> name g = name f \<and> has_stream g = has_stream f
     \<and> has_creation_date g = has_creation_date f
     \<and> (has_creation_date f \<longrightarrow> creation_date g = creation_date f)
     \<and> has_access_date g = has_access_date f \<and> (has_access_date f \<longrightarrow> access_date g = access_date f)
     \<and> has_last_modified_date g = has_last_modified_date f
     \<and> (has_last_modified_date f \<longrightarrow> last_modified_date g = last_modified_date f)
     \<and> has_windows_attributes g = has_windows_attributes f
     \<and> (has_windows_attributes f \<longrightarrow> windows_attributes g = windows_attributes f)
     \<and> (\<not> has_stream f \<longrightarrow> is_directory g = is_directory f)"

lemma files_read_nth:
  "i < length fs \<Longrightarrow>
   entry_kept (fs ! i) (files_read si k fs ! i)
   \<and> (has_stream (fs ! i) \<longrightarrow>
        entry_size (files_read si k fs ! i) = ss_unpack_sizes si ! (k + streams_before fs i)
        \<and> crc (files_read si k fs ! i) = ss_crcs si ! (k + streams_before fs i)
        \<and> has_crc (files_read si k fs ! i) = bs_contains (ss_has_crc si) (k + streams_before fs i))
   \<and> (\<not> has_stream (fs ! i) \<longrightarrow> is_anti_item (files_read si k fs ! i) = (\<not> is_anti_item (fs ! i)))"
proof (induction fs arbitrary: k i)
  case (Cons f fs)
  show ?case
  proof (cases i)
    case 0
    then show ?thesis by (simp add: entry_kept_def streams_before_def read_meta_defs)
  next
    case (Suc j)
    with Cons.prems Cons.IH [of j "if has_stream f then k + 1 else k"] show ?thesis
      by (auto simp: streams_before_def)
  qed
qed simp

lemma same_files_nth:
  "same_files fs gs \<Longrightarrow> length gs = length fs
     \<and> (\<forall>i<length fs. (gs ! i)\<lparr>compressed_size := 0\<rparr> = (fs ! i)\<lparr>compressed_size := 0\<rparr>)"
proof -
  assume same: "same_files fs gs"
  then have len: "length gs = length fs"
    unfolding same_files_def by (metis map_eq_imp_length_eq)
  moreover have "(gs ! i)\<lparr>compressed_size := 0\<rparr> = (fs ! i)\<lparr>compressed_size := 0\<rparr>" if "i < length fs" for i
    using arg_cong [OF same [unfolded same_files_def], of "\<lambda>xs. xs ! i"] len that by simp
  ultimately show ?thesis by simp
qed

lemma compressed_size_only:
  assumes "g\<lparr>compressed_size := 0\<rparr> = f\<lparr>compressed_size := 0\<rparr>"
  shows "\<exists>s. g = f\<lparr>compressed_size := s\<rparr>"
proof -
  have "g = (g\<lparr>compressed_size := 0\<rparr>)\<lparr>compressed_size := compressed_size g\<rparr>" by simp
  also have "\<dots> = f\<lparr>compressed_size := compressed_size g\<rparr>" by (simp add: assms)
  finally show ?thesis by blast
qed

lemma stream_map_keeps:
  "calculate_stream_map a = Ok a' \<Longrightarrow> comment a' = comment a \<and> pack_sizes a' = pack_sizes a
     \<and> pack_pos a' = pack_pos a \<and> sub_streams a' = sub_streams a"
  by (auto simp: calculate_stream_map_def and_then_Ok_iff Let_def)

definition header_kept :: "'x archive_header_scheme \<Rightarrow> libs \<Rightarrow> archive \<Rightarrow> bool" where
  "header_kept w L a \<longleftrightarrow> ar_blocks a = map (read_back L) (w_unpack_info w)
     \<and> pack_sizes a = pi_sizes (w_pack_info w) \<and> comment a = w_comment w
     \<and> length (ar_files a) = length (w_files w)
     \<and> (\<forall>i<length (w_files w). entry_kept (w_files w ! i) (ar_files a ! i)
          \<and> (if has_stream (w_files w ! i)
             then let k = streams_before (w_files w) i in
               entry_size (ar_files a ! i) = concat (map sub_sizes (w_unpack_info w)) ! k
               \<and> crc (ar_files a ! i) = map ucast (all_crcs (w_unpack_info w)) ! k
               \<and> file_block_index (ar_stream_map a) ! i = Some (owners (ar_blocks a) ! k)
             else is_anti_item (ar_files a ! i) = (\<not> is_anti_item (w_files w ! i))))"

lemma stream_map_kept:
  assumes ok: "header_ok L w" and mapped: "calculate_stream_map (archive_read L w) = Ok a"
  shows "header_kept w L a"
proof -
  let ?si = "read_sub_streams (w_unpack_info w)"
  let ?r = "archive_read L w"
  have r: "ar_files ?r = files_read ?si 0 (w_files w)" "ar_blocks ?r = map (read_back L) (w_unpack_info w)"
    "comment ?r = w_comment w" "pack_sizes ?r = pi_sizes (w_pack_info w)"
    by (simp_all add: archive_read_def streams_info_fields archive_default_def)
  obtain a' where "calculate_stream_map ?r = Ok a'" and *: "same_files (ar_files ?r) (ar_files a')" "ar_blocks a' = ar_blocks ?r"
    "\<And>i. i < length (ar_files ?r) \<Longrightarrow> has_stream (ar_files ?r ! i) \<Longrightarrow>
       file_block_index (ar_stream_map a') ! i = Some (owners (ar_blocks ?r) ! streams_before (ar_files ?r) i)"
    by (rule stream_map_correct [OF streams_fit_read [OF ok]]) (rule that; assumption)
  with mapped have "a' = a" by simp
  note a = mapped * [unfolded this]
  note same = same_files_nth [OF a(2), unfolded r(1) length_files_read]
  have files: "\<exists>s. ar_files a ! i = (files_read ?si 0 (w_files w) ! i)\<lparr>compressed_size := s\<rparr>"
    if "i < length (w_files w)" for i
    by (rule compressed_size_only) (use same that in blast)
  have each: "entry_kept (w_files w ! i) (ar_files a ! i)
          \<and> (if has_stream (w_files w ! i)
             then let k = streams_before (w_files w) i in
               entry_size (ar_files a ! i) = concat (map sub_sizes (w_unpack_info w)) ! k
               \<and> crc (ar_files a ! i) = map ucast (all_crcs (w_unpack_info w)) ! k
               \<and> file_block_index (ar_stream_map a) ! i = Some (owners (ar_blocks a) ! k)
             else is_anti_item (ar_files a ! i) = (\<not> is_anti_item (w_files w ! i)))"
    if i: "i < length (w_files w)" for i
  proof -
    obtain s where s: "ar_files a ! i = (files_read ?si 0 (w_files w) ! i)\<lparr>compressed_size := s\<rparr>"
      using files i by blast
    from files_read_nth [OF i, of ?si 0] a(3) a(4) [of i] i show ?thesis
      unfolding s r
      by (simp add: entry_kept_def streams_before_read has_stream_files_read read_sub_streams_def Let_def r)
  qed
  show ?thesis
    unfolding header_kept_def
    by (intro conjI) (use a(3) stream_map_keeps [OF a(1)] same each r in \<open>blast | simp\<close>)+
qed

end
