(* ===== verification/Archive_Lifecycle.thy ===== *)
theory Archive_Lifecycle
  imports Archive_Roundtrip Header_Kept
begin

text \<open>
  The life of an archive in memory: what \<open>finish\<close> leaves is read by \<open>Archive::read\<close>. The header
  may be plain or encoded, and encrypted or not: the codecs of the header must be undone by the
  decoders, and the sizes must fit into the fields of the format.
\<close>

section \<open>The encoded header\<close>

text \<open>Every code of the header, and the sections that describe it, have lengths that fit.\<close>

definition finish_fits ::
    "libs \<Rightarrow> 'e codecs \<Rightarrow> (bytes \<Rightarrow> u32) \<Rightarrow> ((bytes \<Rightarrow> bytes \<Rightarrow> bool) \<times> 'e encoder) list \<Rightarrow> nat \<Rightarrow> 'o archive_writer \<Rightarrow> bool" where
  "finish_fits L X crc32 ps pos aw \<longleftrightarrow>
     (\<forall>c header. header_parts L X crc32 ps pos aw c header \<longrightarrow>
        32 + pos + length c < 2 ^ 63 \<and> length header < 2 ^ 32)
     \<and> (\<forall>c ns. stack_code X (rev ps) (write_header L aw) c ns \<longrightarrow> length c < 2 ^ 63)
     \<and> length (write_header L aw) < 2 ^ 63"

lemma encoded_info_fields:
  "w_unpack_info (encoded_info crc32 methods pos raw c ns aw) =
     [\<lparr>bi_methods = methods, bi_sizes = map of_nat (coder_sizes raw ns), bi_crc = crc32 raw,
       bi_num_sub_unpack_streams = 1, bi_sub_stream_sizes = [], bi_sub_stream_crcs = []\<rparr>]"
  "w_pack_info (encoded_info crc32 methods pos raw c ns aw) =
     \<lparr>pi_crcs = [crc32 c], pi_sizes = [of_nat (length c)], pi_pos = pos\<rparr>"
  by (simp_all add: encoded_info_def unpack_add_def add_stream_def pack_info_default_def coder_sizes_def
      word_unat_eq_iff unat_of_nat)

lemma encoded_info_ok:
  assumes "methods \<noteq> []" and "length methods < 2 ^ 64" and "list_all (codec_ok L) methods"
    and "length ns = length methods"
  shows "streams_info_ok L (encoded_info crc32 methods pos raw c ns aw)"
  using assms
  by (simp add: streams_info_ok_def subs_info_ok_def unpack_info_ok_def encoded_info_fields block_ok_def subs_ok_def
      num_subs_def pack_info_ok_def coder_sizes_def Suc_diff_Suc)

lemma stack_code_bounded: "stack_code X es d c ns \<Longrightarrow> \<forall>n\<in>set ns. n < 2 ^ 64"
proof (induction es arbitrary: d ns)
  case (Cons p es)
  then show ?case by (cases p) auto
qed simp

lemma coder_sizes_unat:
  assumes "stack_code X es d c ns"
  shows "map unat (map of_nat (coder_sizes d ns) :: u64 list) = coder_sizes d ns"
proof -
  have "\<forall>n\<in>set (coder_sizes d ns). n < 2 ^ 64"
    using stack_code_bounded [OF assms] by (auto simp: coder_sizes_def dest: in_set_butlastD)
  then show ?thesis by (simp add: map_idI unat_of_nat_u64)
qed

section \<open>Reading what was finished\<close>

text \<open>The header, be it plain or encoded, opens to the archive of the writer.\<close>

lemma open_header_parts:
  assumes D: "valid_decoder D out fine" "block_cipher (dc_cbc D)"
    and undone: "methods_undone D L out fine threads pw X ms ps" and ms: "ms = header_methods (w_encrypt_header aw) (w_content_methods aw)"
    and ok: "ms \<noteq> []" "length ms < 2 ^ 64" "list_all (codec_ok L) ms" "length ps = length ms"
    and w: "header_ok L aw" "opened L aw a" and fuel: "8 < fuel" "length ms < fuel"
    and parts: "header_parts L X crc32 ps (length d) aw c header"
    and size: "32 + length d + length c < 2 ^ 63" "length (write_header L aw) < 2 ^ 63" and start: "length s = 32"
  shows "open_header crc32 D L fuel pw threads header (cursor_at (s @ d @ c @ header) []) = Ok (a, cursor_at (s @ d @ c @ header) [])"
proof -
  let ?f = "cursor_at (s @ d @ c @ header) []" and ?raw = "write_header L aw"
  from parts consider "header = ?raw"
    | ns where "stack_code X (rev ps) ?raw c ns"
      "header = k_encoded_header # write_streams_info L (encoded_info crc32 ms (of_nat (length d)) ?raw c ns aw)"
    by (auto simp: header_parts_def Let_def ms)
  then show ?thesis
  proof cases
    case 1
    then show ?thesis by (simp add: open_plain [OF w(1) fuel(1) w(2)])
  next
    case (2 ns)
    let ?e = "encoded_info crc32 ms (of_nat (length d)) ?raw c ns aw"
    let ?b = "\<lparr>bi_methods = ms, bi_sizes = map of_nat (coder_sizes ?raw ns), bi_crc = crc32 ?raw,
       bi_num_sub_unpack_streams = 1, bi_sub_stream_sizes = [], bi_sub_stream_crcs = []\<rparr>"
    have len: "length ns = length ms" using stack_code_sizes [OF 2(1)] ok(4) by simp
    obtain j where dec: "block_decodes D L out fine threads pw (zip (map (written_coder L) ms) (coder_sizes ?raw ns)) c (?raw @ replicate j 0)"
      using block_undone [OF undone 2(1)] by blast
    have at: "unat (of_nat signature_header_size + of_nat (length d) :: u64) = 32 + length d"
      using unat_of_nat_u64 [of "32 + length d"] size(1) by (simp add: signature_header_size_def)
    have packed: "take (unat (of_nat (length c) :: u64)) (drop (32 + length d) (cur_data ?f)) = c"
      using size(1) start by (simp add: unat_of_nat_u64 cursor_at_def)
    have e: "w_unpack_info ?e = [?b]" "pi_sizes (w_pack_info ?e) = [of_nat (length c)]"
      by (simp_all add: encoded_info_fields)
    show ?thesis unfolding 2(2)
    proof (rule open_encoded [OF D w encoded_info_ok [OF ok(1-3) len] e fuel(1) _ _ size(2)])
      show "block_decodes D L out fine threads pw (zip (map (written_coder L) (bi_methods ?b)) (map unat (bi_sizes ?b)))
          (take (unat (of_nat (length c) :: u64)) (drop (unat (of_nat signature_header_size + pi_pos (w_pack_info ?e)))
            (cur_data (cursor_at (s @ d @ c @ k_encoded_header # write_streams_info L ?e) [])))) (?raw @ replicate j 0)"
        using dec packed by (simp only: encoded_info_fields at coder_sizes_unat [OF 2(1)] 2(2) block_info.simps pack_info.simps)
    qed (use fuel in \<open>simp_all add: coder_sizes_def word_unat_eq_iff unat_of_nat\<close>)
  qed
qed

lemma finished_is_read:
  fixes X :: "'e codecs" and L crc32
  defines "E \<equiv> memory_env L X crc32"
  assumes D: "valid_decoder D out fine" "block_cipher (dc_cbc D)"
    and undone: "methods_undone D L out fine 1 pw X (header_methods (w_encrypt_header aw) (w_content_methods aw)) ps"
    and methods: "methods_ok E (header_methods (w_encrypt_header aw) (w_content_methods aw)) ps"
      "list_all (codec_ok L) (header_methods (w_encrypt_header aw) (w_content_methods aw))"
      "length (header_methods (w_encrypt_header aw) (w_content_methods aw)) < 2 ^ 64"
    and w: "header_ok L aw" "opened L aw a"
    and at: "cursor_took (replicate 32 0) (w_output aw) d" and fits: "finish_fits L X crc32 ps (length d) aw"
    and fuel: "8 < fuel" "length (header_methods (w_encrypt_header aw) (w_content_methods aw)) < fuel"
  shows "\<exists>f f'. finish_archive E aw = Ok f \<and> (\<exists>s rest. cur_data f = s @ d @ rest \<and> length s = 32)
     \<and> archive_read_file crc32 D L fuel pw f = Ok (a, f') \<and> cur_data f' = cur_data f"
proof -
  let ?ms = "header_methods (w_encrypt_header aw) (w_content_methods aw)"
  have "header_fits L X ps aw" using fits by (simp add: finish_fits_def header_fits_def)
  from finish_leaves [OF methods(1) [unfolded E_def] at this] obtain c header f where
    f: "finish_archive E aw = Ok f" "header_parts L X crc32 ps (length d) aw c header"
    "cur_data f = write_start_header crc32 (of_nat (32 + length (d @ c))) header @ d @ c @ header"
    unfolding E_def by blast
  let ?pos = "of_nat (32 + length (d @ c)) :: u64"
  let ?s = "write_start_header crc32 ?pos header"
  have len: "length ?s = 32" by (rule length_start_header)
  have small: "32 + length d + length c < 2 ^ 63" "length header < 2 ^ 32" "length (write_header L aw) < 2 ^ 63"
    using fits f(2) unfolding finish_fits_def by blast+
  have "header \<noteq> []" using f(2) by (auto simp: header_parts_def Let_def write_header_def write_u8_def)
  from archive_read_start [OF f(3) this small(2)]
  have "archive_read_file crc32 D L fuel pw f
      = init_archive crc32 D L fuel (start_of crc32 ?pos header) pw True 1 (cursor_at ?s (d @ c @ header))" .
  also have "\<dots> = open_header crc32 D L fuel pw 1 header (cursor_at ((?s @ d @ c) @ header) [])"
  proof (rule init_archive_run)
    show "unat (of_nat signature_header_size + next_header_offset (start_of crc32 ?pos header)) = length (?s @ d @ c)"
      using small(1) len unat_of_nat_u64 [of "32 + length d + length c"] by (simp add: start_of_def add.assoc)
    show "unat (next_header_size (start_of crc32 ?pos header)) = length header"
      using small(2) by (simp add: start_of_def masked_length unat_of_nat_u64)
  qed (use small(2) in \<open>simp_all add: start_of_def cursor_at_def\<close>)
  also have "\<dots> = Ok (a, cursor_at (?s @ d @ c @ header) [])"
    using open_header_parts [OF D undone refl _ methods(3,2) _ w fuel f(2) small(1,3) len] methods(1)
    by (auto simp: methods_ok_def dest: list_all2_lengthD)
  finally show ?thesis using f(1,3) len by (auto simp: cursor_at_def)
qed

end
