(* ===== verification/Block_Stack.thy ===== *)
theory Block_Stack
  imports Archive_Opener
begin

text \<open>
  The decoders of a block of an opened archive: \<open>build_decode_stack\<close> for a chain of coders and
  \<open>build_decode_stack2\<close> for BCJ2, of \<^verbatim>\<open>src/src/reader.rs\<close>. A chain reads its packed stream
  through a \<open>BoundedReader\<close>; the inputs of BCJ2 share the file. BCJ2 itself is another crate's
  code: the record \<open>bcj2_lib\<close> holds its constructor and its \<open>read\<close>, a tree of the reads that it
  makes of its inputs before it answers. The fuel bounds the coders of a chain and the depth of
  the recursion through bind pairs.
\<close>

section \<open>A chain of coders\<close>

text \<open>The CRC of the data of a block: its own or that of its only substream.\<close>

definition stack_crc :: "archive \<Rightarrow> usize \<Rightarrow> block \<Rightarrow> u64 option result" where
  "stack_crc a block_index b =
     (if block_has_crc b then Ok (Some (block_crc b))
      else if num_unpack_sub_streams b = 1 then
        (case sub_streams a of
           None \<Rightarrow> Ok None
         | Some info \<Rightarrow>
             let substream_index = sum_list (map num_unpack_sub_streams (take block_index (ar_blocks a))) in
             if bs_contains (ss_has_crc info) substream_index
             then and_then (index (ss_crcs info) substream_index) (\<lambda>c. Ok (Some c))
             else Ok None)
      else Ok None)"

fun add_block_decoders ::
    "'d decoder_libs \<Rightarrow> libs \<Rightarrow> 's reading \<Rightarrow> password \<Rightarrow> u32 \<Rightarrow> nat \<Rightarrow> block \<Rightarrow> u64 option \<Rightarrow> ('d, 's) decoders \<Rightarrow>
     ('d, 's) decoders result" where
  "add_block_decoders D L read pw threads 0 b current x = OutOfFuel"
| "add_block_decoders D L read pw threads (Suc fuel) b current x =
     (case coder_iter_next b current of
        (None, _) \<Rightarrow> Ok x
      | (Some (i, c), next) \<Rightarrow>
          if num_in_streams c \<noteq> 1 \<or> num_out_streams c \<noteq> 1 then
            Err (Unsupported ''Multi input/output stream coders are not supported'')
          else
            and_then (stack_add_decoder D L read x (unat (get_unpack_size_at_index b i)) c pw max_mem_limit_kb threads)
              (add_block_decoders D L read pw threads fuel b next))"

definition build_chain ::
    "'d decoder_libs \<Rightarrow> libs \<Rightarrow> nat \<Rightarrow> password \<Rightarrow> u32 \<Rightarrow> archive \<Rightarrow> usize \<Rightarrow> block \<Rightarrow> cursor \<Rightarrow>
     (('d, cursor bounded_reader) block_reader \<times> usize) result" where
  "build_chain D L fuel pw threads a block_index b f =
     and_then (index (block_first_pack_stream_index (ar_stream_map a)) block_index) (\<lambda>first_pack_stream_index.
     and_then (index (pack_stream_offsets (ar_stream_map a)) first_pack_stream_index) (\<lambda>offset.
     and_then (stack_crc a block_index b) (\<lambda>crc.
     and_then (seek_start (of_nat signature_header_size + pack_pos a + offset) f) (\<lambda>(_, f).
     and_then (index (pack_sizes a) first_pack_stream_index) (\<lambda>pack_size.
     and_then (add_block_decoders D L (bounded_read file_read) pw threads fuel b (coder_iter_new b)
         ([], bounded_new f (unat pack_size))) (\<lambda>x.
     case crc of
       None \<Rightarrow> Ok (Inl x, unat pack_size)
     | Some c \<Rightarrow>
         and_then (get_unpack_size b) (\<lambda>unpack_size.
         Ok (Inr (crc_reader_new x (unat unpack_size) c), unat pack_size))))))))"

section \<open>BCJ2\<close>

definition max_coder_count :: usize where
  "max_coder_count = 32"

datatype 'a asking_inputs = Answered 'a | Asking usize usize "bytes \<Rightarrow> 'a asking_inputs"

record 'b bcj2_lib =
  b2_new :: "usize \<Rightarrow> u64 \<Rightarrow> 'b"
  b2_read :: "'b \<Rightarrow> usize \<Rightarrow> (bytes \<times> 'b) io_result asking_inputs"

text \<open>An input is a chain of decoders on its part of the file. The file is shared, and handed
  from one input to the next.\<close>

type_synonym 'd input = "'d decoder list \<times> shared_reader"

definition input_read :: "'d decoder_libs \<Rightarrow> 'd input \<Rightarrow> cursor \<Rightarrow> usize \<Rightarrow> (bytes \<times> 'd input \<times> cursor) io_result" where
  "input_read D x f n =
     and_then (stack_read D (shared_read file_seek_start file_read) (length (fst x)) (fst x, f, snd x) n)
       (\<lambda>(bs, ds, f, r). Ok (bs, (ds, r), f))"

primrec run_asking_inputs ::
    "'d decoder_libs \<Rightarrow> 'a asking_inputs \<Rightarrow> 'd input list \<times> cursor \<Rightarrow> ('a \<times> 'd input list \<times> cursor) io_result" where
  "run_asking_inputs D (Answered a) = (\<lambda>s. Ok (a, s))"
| "run_asking_inputs D (Asking i n f) = (\<lambda>s.
     and_then (index (fst s) i) (\<lambda>x.
     and_then (input_read D x (snd s) n) (\<lambda>(bs, x, file).
     run_asking_inputs D (f bs) ((fst s)[i := x], file))))"

record ('d, 'b) bcj2_reader =
  b2_inputs :: "'d input list"
  b2_file :: cursor
  b2_state :: 'b

definition bcj2_read :: "'d decoder_libs \<Rightarrow> 'b bcj2_lib \<Rightarrow> ('d, 'b) bcj2_reader reading" where
  "bcj2_read D B r n =
     and_then (run_asking_inputs D (b2_read B (b2_state r) n) (b2_inputs r, b2_file r)) (\<lambda>(answer, inputs, f).
     and_then answer (\<lambda>(bs, b). Ok (bs, \<lparr>b2_inputs = inputs, b2_file = f, b2_state = b\<rparr>)))"

text \<open>The packed streams of the block as parts of the file.\<close>

definition pack_readers :: "archive \<Rightarrow> usize \<Rightarrow> block \<Rightarrow> shared_reader list result" where
  "pack_readers a first_pack_stream_index b =
     (let offsets = pack_stream_offsets (ar_stream_map a); n = length (packed_streams b);
          start_pos = of_nat signature_header_size + pack_pos a in
      if length offsets < first_pack_stream_index + n then Panic
      else
        for_each (\<lambda>(i, offset) sources.
            and_then (index (pack_sizes a) (first_pack_stream_index + i)) (\<lambda>pack_size.
            let pack_pos = start_pos + offset in
            Ok (sources @ [shared_new (pack_pos, pack_pos + pack_size)])))
          (enumerate 0 (take n (drop first_pack_stream_index offsets))) [])"

fun stream_starts :: "coder list \<Rightarrow> usize \<Rightarrow> usize list" where
  "stream_starts [] si = []"
| "stream_starts (c # cs) si = si # stream_starts cs (usize_add si (unat (num_in_streams c)))"

definition coder_to_stream_map :: "block \<Rightarrow> usize list" where
  "coder_to_stream_map b =
     (let starts = stream_starts (coders b) 0 in starts @ replicate (max_coder_count - length starts) usize_max)"

text \<open>The first coder whose output is not bound.\<close>

definition main_coder_index :: "block \<Rightarrow> usize result" where
  "main_coder_index b =
     and_then (for_each (\<lambda>bp used. store used (unat (out_index bp)) True) (bind_pairs b) (replicate max_coder_count False))
       (\<lambda>used. Ok (case find (\<lambda>i. \<not> used ! i) [0..<length (coders b)] of None \<Rightarrow> 0 | Some i \<Rightarrow> i))"

text \<open>\<open>get_in_stream\<close> with \<open>get_in_stream2\<close> in it.\<close>

fun get_in_stream ::
    "'d decoder_libs \<Rightarrow> libs \<Rightarrow> nat \<Rightarrow> password \<Rightarrow> u32 \<Rightarrow> block \<Rightarrow> shared_reader list \<Rightarrow> usize list \<Rightarrow> usize \<Rightarrow> cursor \<Rightarrow>
     ('d input \<times> cursor) result" where
  "get_in_stream D L 0 pw threads b sources starts i f = OutOfFuel"
| "get_in_stream D L (Suc fuel) pw threads b sources starts i f =
     (case find (\<lambda>k. packed_streams b ! k = of_nat i) [0..<length (packed_streams b)] of
        Some k \<Rightarrow> and_then (index sources k) (\<lambda>r. Ok (([], r), f))
      | None \<Rightarrow>
          (case find_bind_pair_for_in_stream b (of_nat i) of
             None \<Rightarrow> Err (Other (''Couldn't find bind pair for stream '' @ decimal i))
           | Some bp \<Rightarrow>
               let k = unat (out_index bp) in
               and_then (index (coders b) k) (\<lambda>c.
               and_then (index starts k) (\<lambda>start_index.
               if start_index = usize_max then Err (Other ''in_stream_index out of range'')
               else
                 and_then (index (unpack_sizes b) k) (\<lambda>uncompressed_len.
                 if num_in_streams c = 1 then
                   and_then (get_in_stream D L fuel pw threads b sources starts start_index f) (\<lambda>((ds, r), f).
                   and_then (stack_add_decoder D L (shared_read file_seek_start file_read) (ds, f, r)
                       (unat uncompressed_len) c pw max_mem_limit_kb threads) (\<lambda>(ds, f, r).
                   Ok ((ds, r), f)))
                 else Err (Unsupported ''Multi input stream coders are not yet supported''))))))"

definition build_decode_stack2 ::
    "'d decoder_libs \<Rightarrow> libs \<Rightarrow> 'b bcj2_lib \<Rightarrow> nat \<Rightarrow> password \<Rightarrow> u32 \<Rightarrow> archive \<Rightarrow> usize \<Rightarrow> block \<Rightarrow> cursor \<Rightarrow>
     (('d, 'b) bcj2_reader \<times> (usize \<times> u64) option \<times> usize) result" where
  "build_decode_stack2 D L B fuel pw threads a block_index b f =
     (if max_coder_count < length (coders b) then
        Err (Unsupported (''Too many coders: '' @ decimal (length (coders b))))
      else
        and_then (index (block_first_pack_stream_index (ar_stream_map a)) block_index) (\<lambda>first_pack_stream_index.
        and_then (pack_readers a first_pack_stream_index b) (\<lambda>sources.
        and_then (main_coder_index b) (\<lambda>main.
        and_then (index (coders b) main) (\<lambda>c.
        if encoder_method_id c \<noteq> id_bcj2 then
          Err (Unsupported (''Unsupported method: '' @ debug_bytes (encoder_method_id c)))
        else
          let starts = coder_to_stream_map b; start_i = starts ! main; n = unat (num_in_streams c) in
          and_then
            (for_each (\<lambda>i (inputs, f).
                and_then (get_in_stream D L fuel pw threads b sources starts i f) (\<lambda>(x, f).
                Ok (inputs @ [x], f)))
              [start_i..<n + start_i] ([], f)) (\<lambda>(inputs, f).
          and_then (get_unpack_size b) (\<lambda>unpack_size.
          and_then (index (pack_sizes a) first_pack_stream_index) (\<lambda>pack_size.
          Ok (\<lparr>b2_inputs = inputs, b2_file = f, b2_state = b2_new B n unpack_size\<rparr>,
              if block_has_crc b then Some (unat unpack_size, block_crc b) else None, unat pack_size)))))))))"

section \<open>Either of them\<close>

datatype ('d, 'b) decode_stack =
  Chain "('d, cursor bounded_reader) block_reader"
| Bcj2 "('d, 'b) bcj2_reader"
| Bcj2_checked "('d, 'b) bcj2_reader crc_reader"

definition build_decode_stack ::
    "'d decoder_libs \<Rightarrow> libs \<Rightarrow> 'b bcj2_lib \<Rightarrow> nat \<Rightarrow> password \<Rightarrow> u32 \<Rightarrow> archive \<Rightarrow> usize \<Rightarrow> cursor \<Rightarrow>
     (('d, 'b) decode_stack \<times> usize) result" where
  "build_decode_stack D L B fuel pw threads a block_index f =
     and_then (index (ar_blocks a) block_index) (\<lambda>b.
     if total_output_streams b < total_input_streams b then
       and_then (build_decode_stack2 D L B fuel pw threads a block_index b f) (\<lambda>(r, crc, pack_size).
       Ok (case crc of None \<Rightarrow> Bcj2 r | Some (n, c) \<Rightarrow> Bcj2_checked (crc_reader_new r n c), pack_size))
     else
       and_then (build_chain D L fuel pw threads a block_index b f) (\<lambda>(r, pack_size). Ok (Chain r, pack_size)))"

definition decode_stack_read ::
    "(bytes \<Rightarrow> u32) \<Rightarrow> 'd decoder_libs \<Rightarrow> 'b bcj2_lib \<Rightarrow> ('d, 'b) decode_stack reading" where
  "decode_stack_read crc32 D B r n =
     (case r of
        Chain r \<Rightarrow>
          and_then (block_reader_read crc32 D (bounded_read file_read) (block_reader_depth r) r n) (\<lambda>(bs, r).
          Ok (bs, Chain r))
      | Bcj2 r \<Rightarrow> and_then (bcj2_read D B r n) (\<lambda>(bs, r). Ok (bs, Bcj2 r))
      | Bcj2_checked r \<Rightarrow> and_then (crc_read crc32 (bcj2_read D B) r n) (\<lambda>(bs, r). Ok (bs, Bcj2_checked r)))"

end
