(* ===== verification/Archive_Reader.thy ===== *)
theory Archive_Reader
  imports Block_Stack
begin

text \<open>
  \<open>ArchiveReader\<close> and \<open>BlockDecoder\<close> of \<^verbatim>\<open>src/src/reader.rs\<close>: the index by names, the loops over
  the entries of a block and of the archive, \<open>read_file\<close> and \<open>test_integrity\<close>. The closure that is
  called for an entry is a function with a state of its own. It is handed the entry with its
  index, which stands for the identity of the reference, and the reader of its contents, and
  gives the reader back. The fuel bounds the reads of one entry and the coders of a block.
\<close>

section \<open>The reader of one entry\<close>

datatype ('d, 'b) entry_reader =
  Nothing bytes
| Part "('d, 'b) decode_stack bounded_reader"
| Checked_part "('d, 'b) decode_stack bounded_reader crc_reader"

definition entry_read ::
    "(bytes \<Rightarrow> u32) \<Rightarrow> 'd decoder_libs \<Rightarrow> 'b bcj2_lib \<Rightarrow> ('d, 'b) entry_reader reading" where
  "entry_read crc32 D B er n =
     (case er of
        Nothing s \<Rightarrow> and_then (slice_read s n) (\<lambda>(bs, s). Ok (bs, Nothing s))
      | Part r \<Rightarrow>
          and_then (bounded_read (decode_stack_read crc32 D B) r n) (\<lambda>(bs, r). Ok (bs, Part r))
      | Checked_part r \<Rightarrow>
          and_then (crc_read crc32 (bounded_read (decode_stack_read crc32 D B)) r n) (\<lambda>(bs, r). Ok (bs, Checked_part r)))"

definition entry_reader_new :: "archive_entry \<Rightarrow> ('d, 'b) decode_stack \<Rightarrow> ('d, 'b) entry_reader" where
  "entry_reader_new file r =
     (let n = unat (entry_size file); part = bounded_new r n in
      if has_crc file then Checked_part (crc_reader_new part n (crc file)) else Part part)"

text \<open>The decoders of the block when the reader of the entry is given up.\<close>

definition entry_stack :: "('d, 'b) entry_reader \<Rightarrow> ('d, 'b) decode_stack \<Rightarrow> ('d, 'b) decode_stack" where
  "entry_stack er r =
     (case er of Nothing _ \<Rightarrow> r | Part p \<Rightarrow> br_inner p | Checked_part c \<Rightarrow> br_inner (cr_inner c))"

definition stack_file :: "('d, 'b) decode_stack \<Rightarrow> cursor" where
  "stack_file r =
     (case r of
        Chain (Inl x) \<Rightarrow> br_inner (snd x)
      | Chain (Inr c) \<Rightarrow> br_inner (snd (cr_inner c))
      | Bcj2 b \<Rightarrow> b2_file b
      | Bcj2_checked c \<Rightarrow> b2_file (cr_inner c))"

text \<open>\<open>Read::read_to_end\<close>: the library chooses the length of the buffer for each read.\<close>

fun read_to_end :: "'s reading \<Rightarrow> (nat \<Rightarrow> nat) \<Rightarrow> nat \<Rightarrow> nat \<Rightarrow> 's \<Rightarrow> (bytes \<times> 's) io_result" where
  "read_to_end read sizes k 0 s = OutOfFuel"
| "read_to_end read sizes k (Suc fuel) s =
     and_then (read s (sizes k)) (\<lambda>(bs, s).
     if bs = [] then Ok ([], s)
     else and_then (read_to_end read sizes (Suc k) fuel s) (\<lambda>(rest, s). Ok (bs @ rest, s)))"

section \<open>A block\<close>

type_synonym ('d, 'b, 'x) each_entry =
  "usize \<times> archive_entry \<Rightarrow> ('d, 'b) entry_reader \<Rightarrow> 'x \<Rightarrow> (bool \<times> ('d, 'b) entry_reader \<times> 'x) result"

fun block_entries_loop ::
    "password \<Rightarrow> archive_entry list \<Rightarrow> ('d, 'b, 'x) each_entry \<Rightarrow> usize list \<Rightarrow> ('d, 'b) decode_stack \<Rightarrow> 'x \<Rightarrow>
     (bool \<times> ('d, 'b) decode_stack \<times> 'x) result" where
  "block_entries_loop pw files each [] r x = Ok (True, r, x)"
| "block_entries_loop pw files each (i # is) r x =
     and_then (index files i) (\<lambda>file.
     and_then
       (if has_stream file \<and> 0 < entry_size file then
          map_err (\<lambda>e. maybe_bad_password e (\<not> password_is_empty pw)) (each (i, file) (entry_reader_new file r) x)
        else each (i, file) (Nothing []) x) (\<lambda>(go, er, x).
     if go then block_entries_loop pw files each is (entry_stack er r) x
     else Ok (False, entry_stack er r, x)))"

definition block_for_each_entries ::
    "'d decoder_libs \<Rightarrow> libs \<Rightarrow> 'b bcj2_lib \<Rightarrow> nat \<Rightarrow> password \<Rightarrow> u32 \<Rightarrow> archive \<Rightarrow> ('d, 'b, 'x) each_entry \<Rightarrow>
     usize \<Rightarrow> cursor \<Rightarrow> 'x \<Rightarrow> (bool \<times> cursor \<times> 'x) result" where
  "block_for_each_entries D L B fuel pw threads a each block_index f x =
     and_then (build_decode_stack D L B fuel pw threads a block_index f) (\<lambda>(r, _).
     and_then (index (block_first_file_index (ar_stream_map a)) block_index) (\<lambda>start.
     and_then (index (ar_blocks a) block_index) (\<lambda>b.
     and_then (block_entries_loop pw (ar_files a) each [start..<num_unpack_sub_streams b + start] r x) (\<lambda>(go, r, x).
     Ok (go, stack_file r, x)))))"

text \<open>\<open>BlockDecoder::entries\<close> and \<open>entry_count\<close>.\<close>

definition block_entry_count :: "archive \<Rightarrow> usize \<Rightarrow> usize result" where
  "block_entry_count a block_index =
     and_then (index (ar_blocks a) block_index) (\<lambda>b. Ok (num_unpack_sub_streams b))"

definition block_entries :: "archive \<Rightarrow> usize \<Rightarrow> archive_entry list result" where
  "block_entries a block_index =
     and_then (index (block_first_file_index (ar_stream_map a)) block_index) (\<lambda>start.
     and_then (block_entry_count a block_index) (\<lambda>file_count.
     if length (ar_files a) < file_count + start then Panic
     else Ok (take file_count (drop start (ar_files a)))))"

section \<open>The archive\<close>

record index_entry =
  ie_block_index :: "usize option"
  ie_file_index :: usize

record archive_reader =
  rd_source :: cursor
  rd_archive :: archive
  rd_password :: password
  rd_thread_count :: u32
  rd_index :: "rstring \<Rightarrow> index_entry option"

definition set_thread_count :: "archive_reader \<Rightarrow> u32 \<Rightarrow> archive_reader" where
  "set_thread_count rd n = rd\<lparr>rd_thread_count := max 1 (min n 256)\<rparr>"

text \<open>Of several files with one name the index keeps the last.\<close>

definition index_file :: "usize \<times> archive_entry \<Rightarrow> archive_reader \<Rightarrow> archive_reader result" where
  "index_file x rd =
     (case x of (i, file) \<Rightarrow>
        and_then (index (file_block_index (ar_stream_map (rd_archive rd))) i) (\<lambda>block_index.
        Ok (rd\<lparr>rd_index := (rd_index rd)(name file \<mapsto> \<lparr>ie_block_index = block_index, ie_file_index = i\<rparr>)\<rparr>)))"

definition fill_index :: "archive_reader \<Rightarrow> archive_reader result" where
  "fill_index rd = for_each index_file (enumerate 0 (ar_files (rd_archive rd))) rd"

text \<open>\<open>parallelism\<close> is what \<open>std::thread::available_parallelism\<close> answers.\<close>

definition from_archive :: "usize option \<Rightarrow> archive \<Rightarrow> cursor \<Rightarrow> password \<Rightarrow> archive_reader result" where
  "from_archive parallelism a f pw =
     and_then (fill_index \<lparr>rd_source = f, rd_archive = a, rd_password = pw, rd_thread_count = 1, rd_index = Map.empty\<rparr>)
       (\<lambda>rd. Ok (set_thread_count rd (case parallelism of None \<Rightarrow> 1 | Some n \<Rightarrow> of_nat n)))"

definition archive_reader_new ::
    "(bytes \<Rightarrow> u32) \<Rightarrow> 'd decoder_libs \<Rightarrow> libs \<Rightarrow> nat \<Rightarrow> usize option \<Rightarrow> cursor \<Rightarrow> password \<Rightarrow> archive_reader result" where
  "archive_reader_new crc32 D L fuel parallelism f pw =
     and_then (archive_read_file crc32 D L fuel pw f) (\<lambda>(a, f). from_archive parallelism a f pw)"

definition supports_parallel_decompression :: "archive_reader \<Rightarrow> bool" where
  "supports_parallel_decompression rd = (\<not> is_solid (rd_archive rd))"

definition block_count :: "archive_reader \<Rightarrow> usize" where
  "block_count rd = length (ar_blocks (rd_archive rd))"

text \<open>The loop over the blocks goes on when the closure asked to stop in one of them: the answer
  of \<open>BlockDecoder::for_each_entries\<close> is dropped. The files without a block come last.\<close>

fun blockless_entries_loop ::
    "archive \<Rightarrow> ('d, 'b, 'x) each_entry \<Rightarrow> usize list \<Rightarrow> 'x \<Rightarrow> 'x result" where
  "blockless_entries_loop a each [] x = Ok x"
| "blockless_entries_loop a each (i # is) x =
     and_then (index (file_block_index (ar_stream_map a)) i) (\<lambda>block_index.
     if block_index \<noteq> None then blockless_entries_loop a each is x
     else
       and_then (index (ar_files a) i) (\<lambda>file.
       and_then (each (i, file) (Nothing []) x) (\<lambda>(go, _, x).
       if go then blockless_entries_loop a each is x else Ok x)))"

definition for_each_entries ::
    "'d decoder_libs \<Rightarrow> libs \<Rightarrow> 'b bcj2_lib \<Rightarrow> nat \<Rightarrow> ('d, 'b, 'x) each_entry \<Rightarrow> archive_reader \<Rightarrow> 'x \<Rightarrow>
     (archive_reader \<times> 'x) result" where
  "for_each_entries D L B fuel each rd x =
     and_then
       (for_each (\<lambda>block_index (f, x).
           and_then (block_for_each_entries D L B fuel (rd_password rd) (rd_thread_count rd) (rd_archive rd)
               each block_index f x) (\<lambda>(_, f, x). Ok (f, x)))
         [0..<length (ar_blocks (rd_archive rd))] (rd_source rd, x)) (\<lambda>(f, x).
     and_then (blockless_entries_loop (rd_archive rd) each [0..<length (ar_files (rd_archive rd))] x) (\<lambda>x.
     Ok (rd\<lparr>rd_source := f\<rparr>, x)))"

section \<open>Reading one file\<close>

definition read_entry ::
    "(bytes \<Rightarrow> u32) \<Rightarrow> 'd decoder_libs \<Rightarrow> 'b bcj2_lib \<Rightarrow> (nat \<Rightarrow> nat) \<Rightarrow> nat \<Rightarrow> archive_entry \<Rightarrow> ('d, 'b) entry_reader \<Rightarrow>
     (bytes \<times> ('d, 'b) entry_reader) result" where
  "read_entry crc32 D B sizes fuel file er =
     (if 2 ^ 63 \<le> unat (entry_size file) then Panic
      else from_io (read_to_end (entry_read crc32 D B) sizes 0 fuel er))"

definition read_solid ::
    "(bytes \<Rightarrow> u32) \<Rightarrow> 'd decoder_libs \<Rightarrow> 'b bcj2_lib \<Rightarrow> (nat \<Rightarrow> nat) \<Rightarrow> nat \<Rightarrow> usize \<Rightarrow> ('d, 'b, bytes option) each_entry" where
  "read_solid crc32 D B sizes fuel target ie er result =
     (case ie of (i, file) \<Rightarrow>
        and_then (read_entry crc32 D B sizes fuel file er) (\<lambda>(data, er).
        if i = target then Ok (False, er, Some data) else Ok (True, er, result)))"

definition read_file ::
    "(bytes \<Rightarrow> u32) \<Rightarrow> 'd decoder_libs \<Rightarrow> libs \<Rightarrow> 'b bcj2_lib \<Rightarrow> (nat \<Rightarrow> nat) \<Rightarrow> nat \<Rightarrow> archive_reader \<Rightarrow> rstring \<Rightarrow>
     (bytes \<times> archive_reader) result" where
  "read_file crc32 D L B sizes fuel rd nm =
     (case rd_index rd nm of
        None \<Rightarrow> Err FileNotFound
      | Some ie \<Rightarrow>
          let a = rd_archive rd in
          and_then (index (ar_files a) (ie_file_index ie)) (\<lambda>file.
          if \<not> has_stream file then Ok ([], rd)
          else
            (case ie_block_index ie of
               None \<Rightarrow> Err (Other ''File has no associated block'')
             | Some block_index \<Rightarrow>
                 if is_solid a then
                   and_then (block_for_each_entries D L B fuel (rd_password rd) (rd_thread_count rd) a
                       (read_solid crc32 D B sizes fuel (ie_file_index ie)) block_index (rd_source rd) None) (\<lambda>(_, f, result).
                   case result of
                     None \<Rightarrow> Err FileNotFound
                   | Some data \<Rightarrow> Ok (data, rd\<lparr>rd_source := f\<rparr>))
                 else
                   and_then (index (block_first_pack_stream_index (ar_stream_map a)) block_index) (\<lambda>pack_index.
                   and_then (index (pack_stream_offsets (ar_stream_map a)) pack_index) (\<lambda>pack_offset.
                   and_then (seek_start (of_nat signature_header_size + pack_pos a + pack_offset) (rd_source rd)) (\<lambda>(_, f).
                   and_then (build_decode_stack D L B fuel (rd_password rd) (rd_thread_count rd) a block_index f) (\<lambda>(r, _).
                   and_then (read_entry crc32 D B sizes fuel file (entry_reader_new file r)) (\<lambda>(data, er).
                   Ok (data, rd\<lparr>rd_source := stack_file (entry_stack er r)\<rparr>)))))))))"

definition file_compression_methods ::
    "archive_reader \<Rightarrow> rstring \<Rightarrow> encoder_method list \<Rightarrow> encoder_method list result" where
  "file_compression_methods rd nm methods =
     (case rd_index rd nm of
        None \<Rightarrow> Err FileNotFound
      | Some ie \<Rightarrow>
          and_then (index (ar_files (rd_archive rd)) (ie_file_index ie)) (\<lambda>file.
          if \<not> has_stream file then Ok methods
          else
            (case ie_block_index ie of
               None \<Rightarrow> Err (Other ''File has no associated block'')
             | Some block_index \<Rightarrow>
                 if length (ar_blocks (rd_archive rd)) \<le> block_index then Err (Other ''Block not found'')
                 else
                   Ok (methods @ List.map_filter (\<lambda>c. by_id (encoder_method_id c))
                     (coders (ar_blocks (rd_archive rd) ! block_index))))))"

section \<open>Testing the archive\<close>

record test_result =
  files_tested :: usize
  bytes_tested :: u64
  crcs_verified :: usize

definition test_entry ::
    "(bytes \<Rightarrow> u32) \<Rightarrow> 'd decoder_libs \<Rightarrow> 'b bcj2_lib \<Rightarrow> nat \<Rightarrow> ('d, 'b, test_result) each_entry" where
  "test_entry crc32 D B fuel ie er result =
     (case ie of (_, entry) \<Rightarrow>
        and_then (from_io (read_all (entry_read crc32 D B) 8192 fuel er)) (\<lambda>(bs, er).
        Ok (True, er, \<lparr>files_tested = usize_add (files_tested result) 1,
            bytes_tested = bytes_tested result + of_nat (length bs),
            crcs_verified = (if has_crc entry then usize_add (crcs_verified result) 1 else crcs_verified result)\<rparr>)))"

definition test_integrity ::
    "(bytes \<Rightarrow> u32) \<Rightarrow> 'd decoder_libs \<Rightarrow> libs \<Rightarrow> 'b bcj2_lib \<Rightarrow> nat \<Rightarrow> archive_reader \<Rightarrow> (archive_reader \<times> test_result) result" where
  "test_integrity crc32 D L B fuel rd =
     for_each_entries D L B fuel (test_entry crc32 D B fuel) rd \<lparr>files_tested = 0, bytes_tested = 0, crcs_verified = 0\<rparr>"

end
