(* ===== verification/Entry_Reading.thy ===== *)
theory Entry_Reading
  imports Archive_Reader Header_Decoding
begin

text \<open>
  What the readers of an entry deliver: the part of the decoded block that belongs to it, when
  the CRCs are right. The file stays what it is, wherever it is read.
\<close>

section \<open>Reading to the end\<close>

text \<open>A verified reader whose inner reader ends with the expected size.\<close>

definition crc_fits :: "(bytes \<Rightarrow> u32) \<Rightarrow> ('s \<Rightarrow> bytes) \<Rightarrow> 's crc_reader \<Rightarrow> bool" where
  "crc_fits crc32 contents r \<longleftrightarrow> cr_remaining r = int (length (contents (cr_inner r)))
     \<and> (contents (cr_inner r) \<noteq> [] \<longrightarrow> ucast (crc32 (cr_digest r @ contents (cr_inner r))) = cr_expected r)"

context byte_source
begin

lemma read_to_end_contents:
  "ready s \<Longrightarrow> (\<And>k. 0 < sizes k) \<Longrightarrow> length (contents s) < fuel \<Longrightarrow>
   \<exists>s'. read_to_end read sizes k fuel s = Ok (contents s, s') \<and> contents s' = [] \<and> ready s'"
proof (induction fuel arbitrary: s k)
  case (Suc fuel)
  obtain bs s' where r: "read s (sizes k) = Ok (bs, s')" using total Suc.prems(1) by blast
  note nb = next_bytes [OF Suc.prems(1) r]
  show ?case
  proof (cases "bs = []")
    case True
    with end_only [OF Suc.prems(1)] Suc.prems(2) r have "contents s = []" by blast
    with True nb r show ?thesis by simp
  next
    case False
    then have "length (contents s') < fuel" using nb Suc.prems(3) by (cases bs) auto
    with Suc.IH [of s' "Suc k"] nb Suc.prems(2) obtain s'' where
      "read_to_end read sizes (Suc k) fuel s' = Ok (contents s', s'')" "contents s'' = []" "ready s''" by blast
    with False nb r show ?thesis by simp
  qed
qed simp

lemma crc_source:
  "byte_source (crc_read crc32 read) (\<lambda>r. contents (cr_inner r)) (\<lambda>r. ready (cr_inner r) \<and> crc_fits crc32 contents r)"
  unfolding byte_source_reads_on
proof (intro allI impI, elim conjE)
  fix r :: "'s crc_reader" and n assume r: "ready (cr_inner r)" "crc_fits crc32 contents r"
  show "reads_on (crc_read crc32 read r n) n (contents (cr_inner r)) (\<lambda>r. contents (cr_inner r))
      (\<lambda>r. ready (cr_inner r) \<and> crc_fits crc32 contents r)"
  proof (cases "contents (cr_inner r) = []")
    case True
    with r show ?thesis by (simp add: reads_on_def crc_read_def crc_fits_def)
  next
    case False
    obtain bs s where rd: "read (cr_inner r) n = Ok (bs, s)" using total r(1) by blast
    note nb = next_bytes [OF r(1) rd]
    have "bs = [] \<longrightarrow> 0 < n \<longrightarrow> contents (cr_inner r) = []" using end_only [OF r(1)] rd by blast
    moreover have "contents s \<noteq> [] \<Longrightarrow> \<not> int (length bs) + int (length (contents s)) \<le> 0" by (cases "contents s") auto
    ultimately show ?thesis using False nb rd r
      by (cases "contents s = []") (auto simp: reads_on_def crc_read_def crc_fits_def Let_def)
  qed
qed

end

section \<open>The packed stream of a file that is kept\<close>

text \<open>The readers of packed streams move the position of the file and leave its bytes.\<close>

definition in_file :: "bytes \<Rightarrow> cursor bounded_reader \<Rightarrow> bool" where
  "in_file dat r \<longleftrightarrow> cur_data (br_inner r) = dat"

abbreviation whole_in :: "bytes \<Rightarrow> cursor bounded_reader \<Rightarrow> bool" where
  "whole_in dat r \<equiv> in_file dat r \<and> whole_rest r"

lemma packed_read_keeps: "bounded_read file_read r n = Ok (bs, r') \<Longrightarrow> cur_data (br_inner r') = cur_data (br_inner r)"
  by (auto simp: bounded_read_def file_read_def Let_def split: if_splits)

interpretation file_packed: block_source "bounded_read file_read" packed_rest "in_file dat" "whole_in dat" for dat
proof (rule block_source.intro)
  show "byte_source (bounded_read file_read) packed_rest (in_file dat)"
  proof (rule byte_sourceI)
    fix s n assume "in_file dat s"
    then show "\<exists>bs s'. bounded_read file_read s n = Ok (bs, s') \<and> in_file dat s' \<and> packed_rest s = bs @ packed_rest s'
        \<and> length bs \<le> n \<and> (bs = [] \<longrightarrow> 0 < n \<longrightarrow> packed_rest s = [])"
      using byte_source.total [OF packed_source, of s n] byte_source.next_bytes [OF packed_source, of s n]
        byte_source.end_only [OF packed_source, of s n] packed_read_keeps [of s n]
      by (fastforce simp: in_file_def)
  qed
  show "block_source_axioms (bounded_read file_read) (in_file dat) (whole_in dat)"
  proof
    fix s bs s' assume "whole_in dat s" "bounded_read file_read s 512 = Ok (bs, s')"
    with packed.whole_blocks [of s bs s'] packed_read_keeps [of s 512 bs s'] show "16 dvd length bs \<and> whole_in dat s'"
      by (simp add: in_file_def)
  qed simp
qed

lemma stack_ready_base:
  "stack_ready D out fine contents ready (\<lambda>s. ready s \<and> aligned s) ds s \<Longrightarrow> ready s"
proof (induction ds)
  case (Cons d ds)
  then show ?case by (cases d) (auto simp: aes_ready_def aes_with_input_def)
qed simp

section \<open>The decoders of a block\<close>

fun chain_of :: "('d, 'b) decode_stack \<Rightarrow> ('d, cursor bounded_reader) decoders option" where
  "chain_of (Chain (Inl x)) = Some x"
| "chain_of (Chain (Inr c)) = Some (cr_inner c)"
| "chain_of _ = None"

definition chain_out :: "'d decoder_libs \<Rightarrow> ('d \<Rightarrow> bytes \<Rightarrow> bytes) \<Rightarrow> ('d, 'b) decode_stack \<Rightarrow> bytes" where
  "chain_out D out r = (case chain_of r of None \<Rightarrow> [] | Some x \<Rightarrow> packed.stack_contents D out x)"

definition chain_ready ::
    "'d decoder_libs \<Rightarrow> ('d \<Rightarrow> bytes \<Rightarrow> bytes) \<Rightarrow> ('d \<Rightarrow> bytes \<Rightarrow> bool) \<Rightarrow> bytes \<Rightarrow> ('d, 'b) decode_stack \<Rightarrow> bool" where
  "chain_ready D out fine dat r \<longleftrightarrow>
     (case chain_of r of None \<Rightarrow> False | Some x \<Rightarrow> stack_ready D out fine packed_rest (in_file dat) (whole_in dat) (fst x) (snd x))"

lemma chain_ready_file: "chain_ready D out fine dat r \<Longrightarrow> cur_data (stack_file r) = dat"
  by (cases r rule: chain_of.cases)
    (auto simp: chain_ready_def stack_file_def in_file_def [symmetric] simp del: not_None_eq dest!: stack_ready_base)

text \<open>A part of the block: what is left of it, and what comes after it.\<close>

definition part_contents :: "'d decoder_libs \<Rightarrow> ('d \<Rightarrow> bytes \<Rightarrow> bytes) \<Rightarrow> ('d, 'b) decode_stack bounded_reader \<Rightarrow> bytes" where
  "part_contents D out p = take (br_remain p) (chain_out D out (br_inner p))"

definition part_ready ::
    "(bytes \<Rightarrow> u32) \<Rightarrow> 'd decoder_libs \<Rightarrow> ('d \<Rightarrow> bytes \<Rightarrow> bytes) \<Rightarrow> ('d \<Rightarrow> bytes \<Rightarrow> bool) \<Rightarrow> bytes \<Rightarrow> bytes \<Rightarrow>
     ('d, 'b) decode_stack bounded_reader \<Rightarrow> bool" where
  "part_ready crc32 D out fine dat rest p \<longleftrightarrow>
     chain_ready D out fine dat (br_inner p) \<and> chain_out D out (br_inner p) = part_contents D out p @ rest
     \<and> length (part_contents D out p) = br_remain p
     \<and> (\<forall>c. br_inner p = Chain (Inr c) \<longrightarrow> cr_remaining c = int (br_remain p)
          \<and> (0 < br_remain p \<longrightarrow> ucast (crc32 (cr_digest c @ part_contents D out p)) = cr_expected c))"

lemma append_prefix:
  assumes "bs @ c = part @ rest" and "length bs \<le> length part"
  obtains part' where "part = bs @ part'" "c = part' @ rest"
  using assms by (auto simp: append_eq_append_conv2)

text \<open>One read of the decoders below: the next bytes, and the file is still the same.\<close>

lemma chain_reads:
  assumes D: "valid_decoder D out fine" "block_cipher (dc_cbc D)" and r: "chain_ready D out fine dat r" "chain_of r = Some x"
  shows "\<exists>bs x'. stack_read D (bounded_read file_read) (length (fst x)) x n = Ok (bs, x') \<and> chain_out D out r = bs @ packed.stack_contents D out x'
     \<and> length bs \<le> n \<and> (bs = [] \<longrightarrow> 0 < n \<longrightarrow> chain_out D out r = [])
     \<and> stack_ready D out fine packed_rest (in_file dat) (whole_in dat) (fst x') (snd x')"
proof -
  have "byte_source (stack_read D (bounded_read file_read) (length (fst x))) (packed.stack_contents D out)
      (file_packed.stack_at dat D out fine (length (fst x)))" by (rule file_packed.stack_source [OF D])
  from byte_source.reads [OF this, of x n] r
  have "reads_on (stack_read D (bounded_read file_read) (length (fst x)) x n) n (chain_out D out r)
      (packed.stack_contents D out) (file_packed.stack_at dat D out fine (length (fst x)))"
    by (simp add: chain_ready_def chain_out_def)
  then show ?thesis by (auto simp: reads_on_def)
qed

lemma part_source:
  fixes D :: "'d decoder_libs" and B :: "'b bcj2_lib"
  assumes D: "valid_decoder D out fine" "block_cipher (dc_cbc D)"
  shows "byte_source (bounded_read (decode_stack_read crc32 D B)) (part_contents D out) (part_ready crc32 D out fine dat rest)"
proof (rule byte_sourceI)
  fix p :: "('d, 'b) decode_stack bounded_reader" and n assume p: "part_ready crc32 D out fine dat rest p"
  let ?part = "part_contents D out p" and ?n = "min n (br_remain p)"
  have r: "chain_ready D out fine dat (br_inner p)" and len: "length ?part = br_remain p"
    and all: "chain_out D out (br_inner p) = ?part @ rest"
    using p by (simp_all add: part_ready_def)
  show "\<exists>bs p'. bounded_read (decode_stack_read crc32 D B) p n = Ok (bs, p') \<and> part_ready crc32 D out fine dat rest p'
      \<and> ?part = bs @ part_contents D out p' \<and> length bs \<le> n \<and> (bs = [] \<longrightarrow> 0 < n \<longrightarrow> ?part = [])"
  proof (cases "br_remain p = 0")
    case True
    then show ?thesis using p len by (simp add: bounded_read_def)
  next
    case False
    obtain x where x: "chain_of (br_inner p) = Some x" using r by (auto simp: chain_ready_def split: option.splits)
    obtain bs x' where rd: "stack_read D (bounded_read file_read) (length (fst x)) x ?n = Ok (bs, x')"
      "chain_out D out (br_inner p) = bs @ packed.stack_contents D out x'" "length bs \<le> ?n"
      "bs = [] \<longrightarrow> 0 < ?n \<longrightarrow> chain_out D out (br_inner p) = []"
      "stack_ready D out fine packed_rest (in_file dat) (whole_in dat) (fst x') (snd x')"
      using chain_reads [OF D r x, of ?n] by (elim exE conjE) (rule that; assumption)
    obtain part' where part': "?part = bs @ part'" "packed.stack_contents D out x' = part' @ rest"
      by (rule append_prefix [of bs _ ?part rest]) (use rd(2,3) all len in auto)
    have left: "length part' = br_remain p - length bs" using part'(1) len by (metis add_diff_cancel_left' length_append)
    have more: "length bs < br_remain p \<Longrightarrow> part' \<noteq> []" using left by auto
    have ends: "bs = [] \<longrightarrow> 0 < n \<longrightarrow> ?part = []" using rd(4) False all by auto
    have inner: "\<exists>r'. decode_stack_read crc32 D B (br_inner p) ?n = Ok (bs, r') \<and> chain_of r' = Some x'
        \<and> (\<forall>c. r' = Chain (Inr c) \<longrightarrow> cr_remaining c = int (length part')
             \<and> (part' \<noteq> [] \<longrightarrow> ucast (crc32 (cr_digest c @ part')) = cr_expected c))"
    proof (cases "br_inner p" rule: chain_of.cases)
      case (1 y)
      with x have y: "br_inner p = Chain (Inl x)" by simp
      show ?thesis unfolding y
        by (rule exI [of _ "Chain (Inl x')"]) (use rd(1) in \<open>simp add: decode_stack_read_def block_reader_read_def block_reader_depth_def\<close>)
    next
      case (2 c)
      with x have c: "br_inner p = Chain (Inr c)" "cr_inner c = x" by simp_all
      with p False have rem: "cr_remaining c = int (br_remain p)" and crc: "ucast (crc32 (cr_digest c @ bs @ part')) = cr_expected c"
        unfolding part_ready_def part'(1) by blast+
      let ?c = "c\<lparr>cr_inner := x', cr_remaining := int (length part'), cr_digest := if part' = [] then [] else cr_digest c @ bs\<rparr>"
      have "crc_read crc32 (stack_read D (bounded_read file_read) (length (fst x))) c ?n = Ok (bs, ?c)"
        using False rem crc rd(1) c(2) left len part'(1)
        by (auto simp: crc_read_def Let_def)
      then show ?thesis unfolding c(1)
        by (intro exI [of _ "Chain (Inr ?c)"])
          (use crc in \<open>simp add: decode_stack_read_def block_reader_read_def block_reader_depth_def c(2)\<close>)
    qed (use x in simp_all)
    then obtain r' where r': "decode_stack_read crc32 D B (br_inner p) ?n = Ok (bs, r')" "chain_of r' = Some x'"
      "\<forall>c. r' = Chain (Inr c) \<longrightarrow> cr_remaining c = int (length part')
             \<and> (part' \<noteq> [] \<longrightarrow> ucast (crc32 (cr_digest c @ part')) = cr_expected c)" by blast
    let ?p' = "\<lparr>br_inner = r', br_remain = br_remain p - length bs\<rparr>"
    have out': "chain_out D out r' = part' @ rest" using r'(2) part'(2) by (simp add: chain_out_def)
    have cont: "part_contents D out ?p' = part'" by (simp add: part_contents_def out' left)
    have "part_ready crc32 D out fine dat rest ?p'"
      unfolding part_ready_def cont using r'(2,3) rd(5) out' left more by (simp add: chain_ready_def)
    moreover have "bounded_read (decode_stack_read crc32 D B) p n = Ok (bs, ?p')"
      using False r'(1) by (simp add: bounded_read_def)
    ultimately show ?thesis using cont part'(1) rd(3) ends by auto
  qed
qed

section \<open>The reader of an entry\<close>

fun entry_contents :: "'d decoder_libs \<Rightarrow> ('d \<Rightarrow> bytes \<Rightarrow> bytes) \<Rightarrow> ('d, 'b) entry_reader \<Rightarrow> bytes" where
  "entry_contents D out (Nothing s) = s"
| "entry_contents D out (Part p) = part_contents D out p"
| "entry_contents D out (Checked_part c) = part_contents D out (cr_inner c)"

fun entry_ready ::
    "(bytes \<Rightarrow> u32) \<Rightarrow> 'd decoder_libs \<Rightarrow> ('d \<Rightarrow> bytes \<Rightarrow> bytes) \<Rightarrow> ('d \<Rightarrow> bytes \<Rightarrow> bool) \<Rightarrow> bytes \<Rightarrow> bytes \<Rightarrow>
     ('d, 'b) entry_reader \<Rightarrow> bool" where
  "entry_ready crc32 D out fine dat rest (Nothing s) = False"
| "entry_ready crc32 D out fine dat rest (Part p) = part_ready crc32 D out fine dat rest p"
| "entry_ready crc32 D out fine dat rest (Checked_part c) =
     (part_ready crc32 D out fine dat rest (cr_inner c) \<and> crc_fits crc32 (part_contents D out) c)"

lemma entry_source:
  fixes D :: "'d decoder_libs" and B :: "'b bcj2_lib"
  assumes D: "valid_decoder D out fine" "block_cipher (dc_cbc D)"
  shows "byte_source (entry_read crc32 D B) (entry_contents D out) (entry_ready crc32 D out fine dat rest)"
  unfolding byte_source_reads_on
proof (intro allI impI)
  fix er :: "('d, 'b) entry_reader" and n assume er: "entry_ready crc32 D out fine dat rest er"
  have src: "byte_source (bounded_read (decode_stack_read crc32 D B)) (part_contents D out) (part_ready crc32 D out fine dat rest)"
    by (rule part_source [OF D])
  show "reads_on (entry_read crc32 D B er n) n (entry_contents D out er) (entry_contents D out) (entry_ready crc32 D out fine dat rest)"
  proof (cases er)
    case (Part p)
    have "reads_on (and_then (bounded_read (decode_stack_read crc32 D B) p n) (\<lambda>(bs, r). Ok (bs, entry_reader.Part r))) n
        (part_contents D out p) (entry_contents D out) (entry_ready crc32 D out fine dat rest)"
      by (rule reads_on_map [OF byte_source.reads [OF src]]) (use er Part in simp_all)
    then show ?thesis by (simp add: Part entry_read_def)
  next
    case (Checked_part c)
    have "reads_on (and_then (crc_read crc32 (bounded_read (decode_stack_read crc32 D B)) c n) (\<lambda>(bs, r). Ok (bs, entry_reader.Checked_part r))) n
        (part_contents D out (cr_inner c)) (entry_contents D out) (entry_ready crc32 D out fine dat rest)"
      by (rule reads_on_map [OF byte_source.reads [OF byte_source.crc_source [OF src]]]) (use er Checked_part in simp_all)
    then show ?thesis by (simp add: Checked_part entry_read_def)
  qed (use er in simp)
qed

text \<open>When the decoders hold the data of an entry next, and the CRCs are those of the data.\<close>

definition holds_entry ::
    "(bytes \<Rightarrow> u32) \<Rightarrow> 'd decoder_libs \<Rightarrow> ('d \<Rightarrow> bytes \<Rightarrow> bytes) \<Rightarrow> ('d \<Rightarrow> bytes \<Rightarrow> bool) \<Rightarrow> bytes \<Rightarrow> archive_entry \<Rightarrow>
     bytes \<Rightarrow> bytes \<Rightarrow> ('d, 'b) decode_stack \<Rightarrow> bool" where
  "holds_entry crc32 D out fine dat file d rest r \<longleftrightarrow>
     chain_ready D out fine dat r \<and> chain_out D out r = d @ rest
     \<and> entry_size file = of_nat (length d) \<and> length d < 2 ^ 63
     \<and> (has_crc file \<longrightarrow> crc file = ucast (crc32 d))
     \<and> (\<forall>c. r = Chain (Inr c) \<longrightarrow> cr_digest c = [] \<and> cr_remaining c = int (length d) \<and> cr_expected c = ucast (crc32 d))"

lemma sint_of_size: "n < 2 ^ 63 \<Longrightarrow> sint (of_nat n :: u64) = int n"
  by (simp add: sint_uint uint_nat unat_of_nat_u64 signed_take_bit_int_eq_self)

lemma entry_starts:
  assumes "holds_entry crc32 D out fine dat file d rest r"
  shows "entry_ready crc32 D out fine dat rest (entry_reader_new file r)" "entry_contents D out (entry_reader_new file r) = d"
proof -
  let ?p = "bounded_new r (length d)"
  have part: "part_contents D out ?p = d" using assms by (simp add: part_contents_def bounded_new_def holds_entry_def)
  have ready: "part_ready crc32 D out fine dat rest ?p"
    unfolding part_ready_def part using assms by (simp add: holds_entry_def bounded_new_def)
  have n: "unat (entry_size file) = length d" "length d < 2 ^ 63" using assms by (simp_all add: holds_entry_def unat_of_nat_u64)
  show "entry_contents D out (entry_reader_new file r) = d" using part by (simp add: entry_reader_new_def n Let_def crc_reader_new_def)
  show "entry_ready crc32 D out fine dat rest (entry_reader_new file r)"
    using ready part assms n
    by (simp add: entry_reader_new_def Let_def crc_reader_new_def crc_fits_def sint_of_size holds_entry_def)
qed

lemma entry_end:
  assumes "entry_ready crc32 D out fine dat rest er" and "entry_contents D out er = []"
  shows "chain_ready D out fine dat (entry_stack er r)" "chain_out D out (entry_stack er r) = rest"
  using assms by (cases er; auto simp: part_ready_def entry_stack_def)+

lemma read_entry_gives:
  assumes D: "valid_decoder D out fine" "block_cipher (dc_cbc D)" and r: "holds_entry crc32 D out fine dat file d rest r"
    and "\<And>k. 0 < sizes k" and "length d < fuel"
  shows "\<exists>er. read_entry crc32 D B sizes fuel file (entry_reader_new file r) = Ok (d, er)
     \<and> chain_ready D out fine dat (entry_stack er r) \<and> chain_out D out (entry_stack er r) = rest"
proof -
  note start = entry_starts [OF r]
  obtain er where er: "read_to_end (entry_read crc32 D B) sizes 0 fuel (entry_reader_new file r) = Ok (d, er)"
    "entry_contents D out er = []" "entry_ready crc32 D out fine dat rest er"
    using byte_source.read_to_end_contents [OF entry_source [OF D] start(1), of sizes fuel B 0] assms(4,5) start(2) by auto
  have "unat (entry_size file) < 2 ^ 63" using r by (simp add: holds_entry_def unat_of_nat_u64)
  then show ?thesis using er(1) entry_end [OF er(3,2)] by (simp add: read_entry_def)
qed

section \<open>Building the decoders\<close>

lemma add_block_decoders_same:
  "add_decoders D L read pw threads fuel b current x = Ok y \<Longrightarrow> add_block_decoders D L read pw threads fuel b current x = Ok y"
  by (induction D L read pw threads fuel b current x rule: add_decoders.induct)
    (auto simp: and_then_Ok_iff split: option.splits prod.splits if_splits)

text \<open>Where a block lies in the file, and what the archive knows of the CRC of its data.\<close>

definition block_at :: "archive \<Rightarrow> usize \<Rightarrow> bytes \<Rightarrow> bytes \<Rightarrow> bool" where
  "block_at a k dat c \<longleftrightarrow> k < length (ar_blocks a) \<and> k < length (block_first_pack_stream_index (ar_stream_map a))
     \<and> (let i = block_first_pack_stream_index (ar_stream_map a) ! k in
        i < length (pack_stream_offsets (ar_stream_map a)) \<and> i < length (pack_sizes a)
        \<and> take (unat (pack_sizes a ! i))
            (drop (unat (of_nat signature_header_size + pack_pos a + pack_stream_offsets (ar_stream_map a) ! i)) dat) = c)"

definition block_holds ::
    "(bytes \<Rightarrow> u32) \<Rightarrow> 'd decoder_libs \<Rightarrow> ('d \<Rightarrow> bytes \<Rightarrow> bytes) \<Rightarrow> ('d \<Rightarrow> bytes \<Rightarrow> bool) \<Rightarrow> bytes \<Rightarrow> bytes \<Rightarrow> bytes \<Rightarrow>
     ('d, 'b) decode_stack \<Rightarrow> bool" where
  "block_holds crc32 D out fine dat d pad r \<longleftrightarrow> chain_ready D out fine dat r \<and> chain_out D out r = d @ pad
     \<and> (\<forall>c. r = Chain (Inr c) \<longrightarrow> cr_digest c = [] \<and> cr_remaining c = int (length d) \<and> cr_expected c = ucast (crc32 d))"

lemma build_decode_stack_holds:
  fixes B :: "'b bcj2_lib"
  assumes D: "valid_decoder D out fine" "block_cipher (dc_cbc D)"
    and at: "block_at a k (cur_data f) c" and b: "b = ar_blocks a ! k" "is_chain b" "simple_coders b"
      "total_input_streams b \<le> total_output_streams b"
    and fuel: "length (coders b) < fuel" and dec: "block_decodes D L out fine threads pw (block_coders b) c (d @ pad)"
    and size: "(get_unpack_size b :: u64 result) = Ok (of_nat (length d))" "length d < 2 ^ 63"
    and crc: "stack_crc a k b = Ok None \<or> stack_crc a k b = Ok (Some (ucast (crc32 d)))"
  shows "\<exists>r n. build_decode_stack D L B fuel pw threads a k f = Ok (r :: ('d, 'b) decode_stack, n)
     \<and> block_holds crc32 D out fine (cur_data f) d pad r"
proof -
  let ?i = "block_first_pack_stream_index (ar_stream_map a) ! k"
  let ?start = "unat (of_nat signature_header_size + pack_pos a + pack_stream_offsets (ar_stream_map a) ! ?i)"
  let ?s = "bounded_new (f\<lparr>cur_pos := ?start\<rparr>) (unat (pack_sizes a ! ?i))"
  have cont: "packed_rest ?s = c" using at by (simp add: bounded_contents_def cursor_rest_def bounded_new_def block_at_def Let_def)
  have "\<exists>x. add_decoders D L (bounded_read file_read) pw threads fuel b (coder_iter_new b) ([], ?s) = Ok x
     \<and> file_packed.stack_at (cur_data f) D out fine (length (coders b)) x \<and> packed.stack_contents D out x = d @ pad"
  proof (rule file_packed.add_decoders_builds [OF D b(2,3) fuel])
    show "in_file (cur_data f) ?s" by (simp add: in_file_def bounded_new_def)
    then show "16 dvd length (packed_rest ?s) \<Longrightarrow> whole_in (cur_data f) ?s" by simp
    show "block_decodes D L out fine threads pw (block_coders b) (packed_rest ?s) (d @ pad)" unfolding cont by (rule dec)
  qed
  then obtain x where x: "add_decoders D L (bounded_read file_read) pw threads fuel b (coder_iter_new b) ([], ?s) = Ok x"
    "file_packed.stack_at (cur_data f) D out fine (length (coders b)) x" "packed.stack_contents D out x = d @ pad" by blast
  have one_in: "\<not> total_output_streams b < total_input_streams b" using b(4) by simp
  have n: "unat (of_nat (length d) :: u64) = length d" using size(2) by (simp add: unat_of_nat_u64)
  have bounds: "k < length (ar_blocks a)" "k < length (block_first_pack_stream_index (ar_stream_map a))"
    "?i < length (pack_stream_offsets (ar_stream_map a))" "?i < length (pack_sizes a)"
    using at by (simp_all add: block_at_def Let_def)
  note run = build_decode_stack_def build_chain_def seek_start_def b(1) [symmetric] one_in bounds
    add_block_decoders_same [OF x(1)] size(1) n
  from crc show ?thesis
  proof
    assume "stack_crc a k b = Ok None"
    then have "build_decode_stack D L B fuel pw threads a k f = Ok (Chain (Inl x) :: ('d, 'b) decode_stack, unat (pack_sizes a ! ?i))"
      by (simp add: run)
    then show ?thesis using x(2,3) by (auto simp: block_holds_def chain_ready_def chain_out_def)
  next
    assume "stack_crc a k b = Ok (Some (ucast (crc32 d)))"
    then have "build_decode_stack D L B fuel pw threads a k f
        = Ok (Chain (Inr (crc_reader_new x (length d) (ucast (crc32 d)))) :: ('d, 'b) decode_stack, unat (pack_sizes a ! ?i))"
      by (simp add: run)
    then show ?thesis using x(2,3) sint_of_size [OF size(2)]
      by (auto simp: block_holds_def chain_ready_def chain_out_def crc_reader_new_def)
  qed
qed

end
