(* ===== verification/File_Reading.thy ===== *)
theory File_Reading
  imports Entry_Reading
begin

text \<open>
  Reading files by name, and visiting the entries of a block, when the file holds what the
  archive says.
\<close>

section \<open>The index\<close>

lemma index_files:
  "n + length fs \<le> length (file_block_index (ar_stream_map (rd_archive rd))) \<Longrightarrow>
   \<exists>m. for_each index_file (enumerate n fs) rd = Ok (rd\<lparr>rd_index := m\<rparr>)
     \<and> (distinct (map name fs) \<longrightarrow> (\<forall>i<length fs. m (name (fs ! i))
          = Some \<lparr>ie_block_index = file_block_index (ar_stream_map (rd_archive rd)) ! (n + i), ie_file_index = n + i\<rparr>))
     \<and> (\<forall>nm. nm \<notin> name ` set fs \<longrightarrow> m nm = rd_index rd nm)"
proof (induction fs arbitrary: n rd)
  case (Cons f fs)
  define ie where "ie = \<lparr>ie_block_index = file_block_index (ar_stream_map (rd_archive rd)) ! n, ie_file_index = n\<rparr>"
  define rd' where "rd' = rd\<lparr>rd_index := (rd_index rd)(name f \<mapsto> ie)\<rparr>"
  have rd': "rd_archive rd' = rd_archive rd" "rd_index rd' = (rd_index rd)(name f \<mapsto> ie)" "rd'\<lparr>rd_index := m\<rparr> = rd\<lparr>rd_index := m\<rparr>" for m
    by (simp_all add: rd'_def)
  obtain m where m: "for_each index_file (enumerate (Suc n) fs) rd' = Ok (rd\<lparr>rd_index := m\<rparr>)"
    "distinct (map name fs) \<longrightarrow> (\<forall>i<length fs. m (name (fs ! i))
       = Some \<lparr>ie_block_index = file_block_index (ar_stream_map (rd_archive rd)) ! (Suc n + i), ie_file_index = Suc n + i\<rparr>)"
    "\<forall>nm. nm \<notin> name ` set fs \<longrightarrow> m nm = rd_index rd' nm"
    using Cons.IH [of "Suc n" rd'] Cons.prems by (auto simp: rd')
  have "index_file (n, f) rd = Ok rd'" using Cons.prems by (simp add: index_file_def rd'_def ie_def)
  moreover have "name f \<notin> name ` set fs \<Longrightarrow> m (name f) = Some ie" "nm \<notin> name ` set (f # fs) \<Longrightarrow> m nm = rd_index rd nm" for nm
    using m(3) by (auto simp: rd')
  ultimately show ?case using m(1,2)
    by (intro exI [of _ m]) (auto simp: nth_Cons ie_def split: nat.splits)
next
  case Nil
  show ?case by (intro exI [of _ "rd_index rd"]) simp
qed

lemma fill_index_ex:
  assumes "length (file_block_index (ar_stream_map (rd_archive rd))) = length (ar_files (rd_archive rd))"
  shows "\<exists>m. fill_index rd = Ok (rd\<lparr>rd_index := m\<rparr>)
     \<and> (distinct (map name (ar_files (rd_archive rd))) \<longrightarrow> (\<forall>i<length (ar_files (rd_archive rd)).
          m (name (ar_files (rd_archive rd) ! i))
            = Some \<lparr>ie_block_index = file_block_index (ar_stream_map (rd_archive rd)) ! i, ie_file_index = i\<rparr>))"
  using index_files [of 0 "ar_files (rd_archive rd)" rd] assms by (auto simp: fill_index_def)

section \<open>One file of a block of its own\<close>

lemma read_file_alone:
  fixes D :: "'d decoder_libs" and B :: "'b bcj2_lib"
  assumes D: "valid_decoder D out fine" "block_cipher (dc_cbc D)"
    and name: "rd_index rd nm = Some \<lparr>ie_block_index = Some k, ie_file_index = i\<rparr>" "i < length (ar_files (rd_archive rd))"
    and fl: "file = ar_files (rd_archive rd) ! i" "has_stream file" "\<not> is_solid (rd_archive rd)"
    and at: "block_at (rd_archive rd) k (cur_data (rd_source rd)) c" and b: "b = ar_blocks (rd_archive rd) ! k" "is_chain b" "simple_coders b"
      "total_input_streams b \<le> total_output_streams b"
    and fuel: "length (coders b) < fuel" "length d < fuel"
    and dec: "block_decodes D L out fine (rd_thread_count rd) (rd_password rd) (block_coders b) c (d @ pad)"
    and size: "(get_unpack_size b :: u64 result) = Ok (of_nat (length d))" "length d < 2 ^ 63"
    and crc: "stack_crc (rd_archive rd) k b = Ok None \<or> stack_crc (rd_archive rd) k b = Ok (Some (ucast (crc32 d)))"
    and entry: "entry_size file = of_nat (length d)" "has_crc file \<longrightarrow> crc file = ucast (crc32 d)"
    and sizes: "\<And>k. 0 < sizes k"
  shows "\<exists>f. read_file crc32 D L B sizes fuel rd nm = Ok (d, rd\<lparr>rd_source := f\<rparr>) \<and> cur_data f = cur_data (rd_source rd)"
proof -
  let ?a = "rd_archive rd" and ?f = "(rd_source rd)\<lparr>cur_pos := unat (of_nat signature_header_size + pack_pos (rd_archive rd)
      + pack_stream_offsets (ar_stream_map (rd_archive rd)) ! (block_first_pack_stream_index (ar_stream_map (rd_archive rd)) ! k))\<rparr>"
  have at': "block_at ?a k (cur_data ?f) c" using at by simp
  from build_decode_stack_holds [where ?crc32.0 = crc32 and d = d and pad = pad, OF D at' b fuel(1) dec size crc, of B] obtain r n where
    r: "build_decode_stack D L B fuel (rd_password rd) (rd_thread_count rd) ?a k ?f = Ok (r :: ('d, 'b) decode_stack, n)"
    "block_holds crc32 D out fine (cur_data ?f) d pad r" by blast
  have "holds_entry crc32 D out fine (cur_data ?f) file d pad r"
    using r(2) entry size(2) by (simp add: holds_entry_def block_holds_def)
  from read_entry_gives [where sizes = sizes and B = B, OF D this sizes fuel(2)] obtain er where
    er: "read_entry crc32 D B sizes fuel file (entry_reader_new file r) = Ok (d, er)" "chain_ready D out fine (cur_data ?f) (entry_stack er r)"
    by blast
  have bounds: "k < length (block_first_pack_stream_index (ar_stream_map ?a))"
    "block_first_pack_stream_index (ar_stream_map ?a) ! k < length (pack_stream_offsets (ar_stream_map ?a))"
    using at by (simp_all add: block_at_def Let_def)
  have "read_file crc32 D L B sizes fuel rd nm = Ok (d, rd\<lparr>rd_source := stack_file (entry_stack er r)\<rparr>)"
    using name fl er(1) r(1) bounds by (simp add: read_file_def Let_def seek_start_def)
  then show ?thesis using chain_ready_file [OF er(2)]
    by (intro exI [of _ "stack_file (entry_stack er r)"]) simp
qed

lemma read_file_empty:
  assumes "rd_index rd nm = Some \<lparr>ie_block_index = x, ie_file_index = i\<rparr>" "i < length (ar_files (rd_archive rd))"
    and "\<not> has_stream (ar_files (rd_archive rd) ! i)"
  shows "read_file crc32 D L B sizes fuel rd nm = Ok ([], rd)"
  using assms by (simp add: read_file_def Let_def)

end
