(* ===== verification/Map_Wellformed.thy ===== *)
theory Map_Wellformed
  imports Archive_Opener
begin

text \<open>
  What the tables of every archive satisfy that the reader opens, whatever the file was: their
  lengths agree and their indices are in range, so that no look-up in them panics.
\<close>

section \<open>The stream map\<close>

definition map_wf :: "archive \<Rightarrow> bool" where
  "map_wf a \<longleftrightarrow>
     (let m = ar_stream_map a; nb = length (ar_blocks a) in
        length (file_block_index m) = length (ar_files a)
        \<and> (\<forall>i<length (ar_files a). (file_block_index m ! i = None \<longrightarrow> \<not> has_stream (ar_files a ! i))
             \<and> (\<forall>b. file_block_index m ! i = Some b \<longrightarrow> b < nb \<and> block_first_file_index m ! b \<le> i))
        \<and> (ar_files a \<noteq> [] \<longrightarrow>
             length (block_first_pack_stream_index m) = nb \<and> length (pack_stream_offsets m) = length (pack_sizes a)
             \<and> length (block_first_file_index m) = nb \<and> (\<forall>b<nb. block_first_file_index m ! b < length (ar_files a))))"

text \<open>While the files are placed: \<open>i\<close> of them are.\<close>

definition placing :: "nat \<Rightarrow> bool list \<Rightarrow> nat \<Rightarrow> map_state \<Rightarrow> bool" where
  "placing nb hs i s \<longleftrightarrow>
     length (ms_first_file s) = nb \<and> length (ms_file_block s) = length hs \<and> map has_stream (ms_files s) = hs
     \<and> begun s \<le> nb \<and> (\<forall>b<nb. ms_first_file s ! b \<le> i - 1)
     \<and> (\<forall>j<i. (ms_file_block s ! j = None \<longrightarrow> \<not> hs ! j)
          \<and> (\<forall>b. ms_file_block s ! j = Some b \<longrightarrow> b < begun s \<and> ms_first_file s ! b \<le> j))"

lemma skip_blocks_marks:
  assumes "skip_blocks bs i first nxt = (first', nxt')" and "length first = length bs"
  shows "\<forall>b<length bs. first' ! b = first ! b \<or> first' ! b = i"
  using assms
proof (induction bs i first nxt arbitrary: first' nxt' rule: skip_blocks.induct)
  case (1 bs i first nxt)
  show ?case
  proof (cases "nxt < length bs \<and> num_unpack_sub_streams (bs ! nxt) = 0")
    case True
    then have "skip_blocks bs i (first[nxt := i]) (nxt + 1) = (first', nxt')"
      using "1.prems"(1) by (subst (asm) skip_blocks.simps) simp
    with "1.IH" [of "first[nxt := i]"] True "1.prems"(2) have step: "first' ! b = first[nxt := i] ! b \<or> first' ! b = i" if "b < length bs" for b
      using that by auto
    have "first' ! b = first ! b \<or> first' ! b = i" if "b < length bs" for b
      using step [OF that] "1.prems"(2) that by (cases "b = nxt") auto
    then show ?thesis by blast
  next
    case False
    with "1.prems" show ?thesis
      by (subst (asm) skip_blocks.simps) (auto simp: nth_list_update split: if_splits)
  qed
qed

lemma placing_skip:
  assumes "placing nb hs i s" and "i < length hs" and "\<not> hs ! i"
  shows "placing nb hs (Suc i) (s\<lparr>ms_file_block := (ms_file_block s)[i := None]\<rparr>)"
proof -
  have "\<forall>b<nb. ms_first_file s ! b \<le> i" using assms(1) unfolding placing_def by (meson diff_le_self le_trans)
  then show ?thesis using assms by (auto simp: placing_def begun_def nth_list_update less_Suc_eq)
qed

text \<open>The block for the file is chosen.\<close>

definition chosen :: "nat \<Rightarrow> bool list \<Rightarrow> nat \<Rightarrow> map_state \<Rightarrow> bool" where
  "chosen nb hs i t \<longleftrightarrow>
     length (ms_first_file t) = nb \<and> length (ms_file_block t) = length hs \<and> map has_stream (ms_files t) = hs
     \<and> ms_next_block t < nb \<and> (\<forall>b<nb. ms_first_file t ! b \<le> i)
     \<and> (\<forall>j<i. (ms_file_block t ! j = None \<longrightarrow> \<not> hs ! j)
          \<and> (\<forall>b. ms_file_block t ! j = Some b \<longrightarrow> b \<le> ms_next_block t \<and> ms_first_file t ! b \<le> j))"

lemma placing_choose:
  assumes s: "placing nb hs i s" "ms_next_stream s = 0" and bs: "length bs = nb"
    and skip: "skip_blocks bs i (ms_first_file s) (ms_next_block s) = (first, nxt)" "nxt < nb"
  shows "chosen nb hs i (s\<lparr>ms_first_file := first, ms_next_block := nxt\<rparr>)"
proof -
  have nb: "ms_next_block s \<le> length bs" "length (ms_first_file s) = length bs"
    using s bs by (auto simp: placing_def begun_def)
  note spec = skip_blocks_spec [OF skip(1) nb] skip_blocks_marks [OF skip(1) nb(2)]
  have "\<forall>b<nb. first ! b \<le> i"
  proof (intro allI impI)
    fix b assume "b < nb"
    then have "first ! b = ms_first_file s ! b \<or> first ! b = i" "ms_first_file s ! b \<le> i - 1"
      using spec(2) s(1) bs by (simp_all add: placing_def)
    then show "first ! b \<le> i" by auto
  qed
  moreover have "b \<le> nxt \<and> first ! b \<le> j" if "j < i" "ms_file_block s ! j = Some b" for j b
  proof -
    have "b < ms_next_block s" "ms_first_file s ! b \<le> j" using s that by (auto simp: placing_def begun_def)
    with spec(1) show ?thesis by simp
  qed
  ultimately show ?thesis using s(1) spec(1) bs skip(2) by (simp add: chosen_def placing_def)
qed

lemma chosen_placed:
  assumes t: "chosen nb hs i t" "i < length hs" and u: "ms_first_file u = ms_first_file t"
      "ms_file_block u = (ms_file_block t)[i := Some (ms_next_block t)]" "map has_stream (ms_files u) = hs"
      "begun u = Suc (ms_next_block t)"
  shows "placing nb hs (Suc i) u"
  using t by (auto simp: chosen_def placing_def u nth_list_update less_Suc_eq split: option.splits)

lemma placing_step:
  assumes s: "placing (length (ar_blocks a)) hs i s" and i: "i < length hs" and run: "place_file a packs i s = Ok s'"
  shows "placing (length (ar_blocks a)) hs (Suc i) s'"
proof -
  have stream: "has_stream (ms_files s ! i) = hs ! i" "i < length (ms_files s)"
    using s i by (auto simp: placing_def)
  show ?thesis
  proof (cases "\<not> hs ! i \<and> ms_next_stream s = 0")
    case True
    with run stream placing_skip [OF s i] show ?thesis by (simp add: place_file_def)
  next
    case False
    have "\<exists>t. (if ms_next_stream s = 0 then
         (let (first, nxt) = skip_blocks (ar_blocks a) i (ms_first_file s) (ms_next_block s) in
          if length (ar_blocks a) \<le> nxt then Err (Other ''Too few blocks in archive'')
          else Ok (s\<lparr>ms_first_file := first, ms_next_block := nxt\<rparr>))
       else Ok s) = Ok t \<and> chosen (length (ar_blocks a)) hs i t \<and> ms_files t = ms_files s
         \<and> (ms_next_stream t \<noteq> 0 \<or> hs ! i)"
    proof (cases "ms_next_stream s = 0")
      case zero: True
      obtain first nxt where skip: "skip_blocks (ar_blocks a) i (ms_first_file s) (ms_next_block s) = (first, nxt)" by fastforce
      have "nxt < length (ar_blocks a)" using run False stream zero skip by (auto simp: place_file_def split: if_split_asm)
      with placing_choose [OF s zero refl skip] zero skip False show ?thesis by simp
    next
      case pos: False
      with s have "chosen (length (ar_blocks a)) hs i s"
        by (fastforce simp: placing_def chosen_def begun_def split: option.splits)
      with pos show ?thesis by simp
    qed
    then obtain t where t: "chosen (length (ar_blocks a)) hs i t" "ms_files t = ms_files s" "ms_next_stream t \<noteq> 0 \<or> hs ! i"
      and after: "place_file a packs i s =
        (let nb = ms_next_block t; s = t\<lparr>ms_file_block := (ms_file_block t)[i := Some nb]\<rparr> in
        if \<not> hs ! i then Ok s
        else and_then (index (ms_first_file s) nb) (\<lambda>first_file.
          and_then
           (if first_file = i then
              and_then (index packs nb) (\<lambda>first_pack.
              and_then (index (pack_sizes a) first_pack) (\<lambda>pack_size.
                Ok (s\<lparr>ms_files := (ms_files s)[i := (ms_files s ! i)\<lparr>compressed_size := pack_size\<rparr>]\<rparr>)))
            else Ok s)
           (\<lambda>s. and_then (index (ar_blocks a) nb) (\<lambda>b.
              if num_unpack_sub_streams b \<le> ms_next_stream s + 1
              then Ok (s\<lparr>ms_next_block := nb + 1, ms_next_stream := 0\<rparr>)
              else Ok (s\<lparr>ms_next_stream := ms_next_stream s + 1\<rparr>)))))"
      using False stream unfolding place_file_def by (auto simp: Let_def)
    have files: "map has_stream ((ms_files s)[i := (ms_files s ! i)\<lparr>compressed_size := x\<rparr>]) = hs" "map has_stream (ms_files s) = hs" for x
      using s stream by (simp_all add: placing_def map_update list_update_same_conv)
    show ?thesis
      by (rule chosen_placed [OF t(1) i])
        (use run after t files in \<open>auto simp: Let_def begun_def and_then_Ok_iff index_Ok_iff split: if_split_asm\<close>)
  qed
qed

lemma length_pack_offsets [simp]: "length (pack_offsets szs nxt) = length szs"
  by (induction szs arbitrary: nxt) simp_all

lemma calculated_wf:
  assumes "calculate_stream_map a = Ok a'"
  shows "map_wf a'"
proof -
  let ?init = "\<lparr>ms_first_file = replicate (length (ar_blocks a)) 0, ms_file_block = replicate (length (ar_files a)) None,
                 ms_files = ar_files a, ms_next_block = 0, ms_next_stream = 0\<rparr>"
  let ?hs = "map has_stream (ar_files a)"
  obtain s where s: "for_each (place_file a (pack_stream_indices (ar_blocks a) 0)) [0..<length (ar_files a)] ?init = Ok s"
    "a' = a\<lparr>ar_files := ms_files s, ar_stream_map :=
                  \<lparr>block_first_pack_stream_index = pack_stream_indices (ar_blocks a) 0,
                   pack_stream_offsets = pack_offsets (pack_sizes a) 0,
                   block_first_file_index = ms_first_file s, file_block_index = ms_file_block s\<rparr>\<rparr>"
    using assms by (auto simp: calculate_stream_map_def and_then_Ok_iff Let_def)
  have "for_each (place_file a packs) [0..<n] ?init = Ok s \<Longrightarrow> n \<le> length ?hs \<Longrightarrow> placing (length (ar_blocks a)) ?hs n s" for n s packs
  proof (induction n arbitrary: s)
    case 0
    then show ?case by (auto simp: placing_def begun_def)
  next
    case (Suc n)
    then obtain t where "for_each (place_file a packs) [0..<n] ?init = Ok t" "place_file a packs n t = Ok s"
      by (auto simp: for_each_append and_then_Ok_iff)
    with Suc show ?case by (intro placing_step) auto
  qed
  from this [OF s(1)] have p: "placing (length (ar_blocks a)) ?hs (length (ar_files a)) s" by simp
  have files: "length (ms_files s) = length (ar_files a)" "has_stream (ms_files s ! i) = has_stream (ar_files a ! i)"
    if "i < length (ar_files a)" for i
  proof -
    have m: "map has_stream (ms_files s) = ?hs" using p by (simp add: placing_def)
    then show "length (ms_files s) = length (ar_files a)" by (metis length_map)
    with m that show "has_stream (ms_files s ! i) = has_stream (ar_files a ! i)" by (metis nth_map)
  qed
  have each: "(ms_file_block s ! i = None \<longrightarrow> \<not> has_stream (ms_files s ! i))
      \<and> (\<forall>b. ms_file_block s ! i = Some b \<longrightarrow> b < length (ar_blocks a) \<and> ms_first_file s ! b \<le> i)" if "i < length (ar_files a)" for i
    using p that files [OF that] by (fastforce simp: placing_def)
  have len: "length (ms_files s) = length (ar_files a)" using p unfolding placing_def by (metis length_map)
  have low: "\<forall>b<length (ar_blocks a). ms_first_file s ! b < length (ar_files a)" if "ar_files a \<noteq> []"
  proof (intro allI impI)
    fix b assume "b < length (ar_blocks a)"
    then have "ms_first_file s ! b \<le> length (ar_files a) - 1" using p by (simp add: placing_def)
    with that show "ms_first_file s ! b < length (ar_files a)" by (cases "ar_files a") auto
  qed
  have "ms_files s \<noteq> [] \<Longrightarrow> ar_files a \<noteq> []" using len by auto
  then show ?thesis
    using p each len low by (simp add: map_wf_def Let_def s(2) placing_def)
qed

section \<open>Every archive that is opened\<close>

definition ensures :: "('a \<Rightarrow> bool) \<Rightarrow> ('e, 'a) parser \<Rightarrow> bool" where
  "ensures P p \<longleftrightarrow> (\<forall>c x c'. p c = Ok (x, c') \<longrightarrow> P x)"

lemma ensures_and_read: "(\<And>x. ensures P (f x)) \<Longrightarrow> ensures P (and_read p f)"
  by (fastforce simp: ensures_def and_read_def and_then_Ok_iff)

lemma ensures_and_read_of: "ensures Q p \<Longrightarrow> (\<And>x. Q x \<Longrightarrow> ensures P (f x)) \<Longrightarrow> ensures P (and_read p f)"
  by (fastforce simp: ensures_def and_read_def and_then_Ok_iff)

lemma ensures_simps [simp]: "ensures P (ret x) = P x" "ensures P (fail e)" "ensures P panic"
  by (auto simp: ensures_def ret_def fail_def panic_def)

lemma ensures_lift: "(\<And>x. r = Ok x \<Longrightarrow> P x) \<Longrightarrow> ensures P (lift_outcome r)"
  by (cases r) (auto simp: ensures_def lift_outcome_def)

lemmas ensures_intros = ensures_and_read ensures_lift impI

text \<open>An optional section of a header, with the kind of the next one.\<close>

lemma ensures_section:
  assumes "b \<Longrightarrow> ensures Q p" and "\<not> b \<Longrightarrow> Q a" and "\<And>n a. Q a \<Longrightarrow> ensures P (f (n, a))"
  shows "ensures P (and_read (if b then and_read p (\<lambda>a. and_read q (\<lambda>nid. ret (nid, a))) else ret (n, a)) f)"
proof (rule ensures_and_read_of [where Q = "\<lambda>(nid, a). Q a"])
  have "ensures (\<lambda>(nid, a). Q a) (and_read p (\<lambda>a. and_read q (\<lambda>nid. ret (nid, a))))" if b
    by (rule ensures_and_read_of [OF assms(1) [OF that]]) (auto intro!: ensures_and_read)
  then show "ensures (\<lambda>(nid, a). Q a) (if b then and_read p (\<lambda>a. and_read q (\<lambda>nid. ret (nid, a))) else ret (n, a))"
    using assms(2) by simp
qed (use assms(3) in auto)

text \<open>Before the files are read there is no stream map.\<close>

definition unmapped :: "archive \<Rightarrow> bool" where
  "unmapped a \<longleftrightarrow> ar_files a = [] \<and> ar_stream_map a = stream_map_default"

lemma unmapped_updates [simp]:
  "unmapped archive_default" "unmapped (a\<lparr>ar_blocks := bs\<rparr>) = unmapped a" "unmapped (a\<lparr>sub_streams := si\<rparr>) = unmapped a"
  "unmapped (a\<lparr>comment := c\<rparr>) = unmapped a" "unmapped (a\<lparr>pack_pos := n\<rparr>) = unmapped a" "unmapped (a\<lparr>pack_sizes := ns\<rparr>) = unmapped a"
  "unmapped (a\<lparr>pack_crcs_defined := d\<rparr>) = unmapped a" "unmapped (a\<lparr>pack_crcs := cs\<rparr>) = unmapped a"
  by (simp_all add: unmapped_def archive_default_def)

lemma unmapped_wf: "unmapped a \<Longrightarrow> map_wf a"
  by (simp add: unmapped_def map_wf_def stream_map_default_def)

lemma read_pack_unmapped:
  assumes "unmapped a"
  shows "ensures unmapped (read_pack_info a)"
  unfolding read_pack_info_def Let_def
  apply (rule ensures_and_read, rule ensures_and_read, rule ensures_and_read)
  apply (rule ensures_and_read_of [where Q = "\<lambda>(nid, a). unmapped a"])
   apply (use assms in \<open>auto intro!: ensures_and_read\<close>) [1]
  apply clarify
  apply (rule ensures_and_read_of [where Q = "\<lambda>(nid, a). unmapped a"])
   apply (auto intro!: ensures_and_read)
  done

lemma read_parts_unmapped:
  assumes "unmapped a"
  shows "ensures unmapped (read_unpack_info a)" "ensures unmapped (read_sub_streams_info a)"
  unfolding read_unpack_info_def read_sub_streams_info_def Let_def
  by (auto simp: assms split: prod.splits intro!: ensures_and_read)

lemma read_streams_unmapped: "unmapped a \<Longrightarrow> ensures unmapped (read_streams_info a)"
  unfolding read_streams_info_def
  apply (rule ensures_and_read)
  apply (rule ensures_section [where Q = unmapped], erule read_pack_unmapped, assumption, simp only: prod.case)
  apply (rule ensures_section [where Q = unmapped], erule read_parts_unmapped, simp, simp only: prod.case)
  apply (rule ensures_section [where Q = unmapped], erule read_parts_unmapped, assumption)
  apply simp
  done

lemma read_properties_unmapped: "unmapped a \<Longrightarrow> ensures unmapped (read_archive_properties fuel a)"
proof (induction fuel arbitrary: a)
  case (Suc fuel)
  then show ?case by (auto split: option.splits intro!: ensures_and_read)
qed (simp add: ensures_def)

lemma read_files_wf: "ensures map_wf (read_files_info fuel a)"
  unfolding read_files_info_def by (intro ensures_and_read ensures_lift) (rule calculated_wf)

lemma read_header_wf: "unmapped a \<Longrightarrow> ensures map_wf (read_header fuel a)"
  unfolding read_header_def
  apply (rule ensures_and_read)
  apply (rule ensures_section [where Q = unmapped], erule read_properties_unmapped, assumption, simp only: prod.case)
  apply (rule if_split [where P = "ensures map_wf", THEN iffD2], intro conjI impI, simp)
  apply (rule ensures_section [where Q = unmapped], erule read_streams_unmapped, assumption, simp only: prod.case)
  apply (rule ensures_section [where Q = map_wf], rule read_files_wf, erule unmapped_wf)
  apply simp
  done

text \<open>The other functions of the opener hand on the archive of \<open>read_header\<close>.\<close>

lemma open_header_wf: "ensures map_wf (open_header crc32 D L fuel pw threads buf)"
proof -
  have header: "map_wf a" if h: "header_archive fuel nh = Ok a" for nh a
  proof -
    obtain a' c c' where "read_header fuel archive_default c = Ok (a', c')" "a = a'\<lparr>is_solid := list_ex (\<lambda>b. 1 < num_unpack_sub_streams b) (ar_blocks a')\<rparr>"
      using h by (auto simp: header_archive_def and_then_Ok_iff split: prod.splits if_split_asm)
    with read_header_wf [of archive_default fuel] show ?thesis by (auto simp: ensures_def map_wf_def)
  qed
  then show ?thesis by (auto simp: ensures_def open_header_def and_then_Ok_iff)
qed

lemma init_archive_wf: "ensures map_wf (init_archive crc32 D L fuel sh pw verify threads)"
  unfolding init_archive_def by (auto intro!: ensures_and_read open_header_wf)

lemma locate_end_header_wf: "ensures map_wf (locate_end_header crc32 D L fuel pw threads p n min_pos pos)"
proof (induction pos rule: less_induct)
  case (less pos)
  show ?case
  proof (cases "pos \<le> min_pos")
    case False
    then have IH: "ensures map_wf (locate_end_header crc32 D L fuel pw threads p n min_pos (pos - 1))" by (intro less) simp
    with False show ?thesis
      by (subst locate_end_header.simps)
        (auto simp: Let_def intro!: ensures_and_read ensures_and_read_of [OF init_archive_wf])
  qed (simp add: locate_end_header.simps)
qed

lemma opened_wf: "ensures map_wf (archive_read_file crc32 D L fuel pw)"
proof -
  have "archive_read_file crc32 D L fuel pw f = Ok (a, f') \<Longrightarrow> map_wf a" for f a f'
    unfolding archive_read_file_def Let_def
    by (erule ensures_def [THEN iffD1, rule_format, rotated])
      (auto simp: try_to_locale_end_header_def Let_def intro!: ensures_and_read init_archive_wf locate_end_header_wf)
  then show ?thesis by (auto simp: ensures_def)
qed

end
