(* ===== verification/Files_Lifecycle.thy ===== *)
theory Files_Lifecycle
  imports Archive_Lifecycle File_Reading Map_Wellformed
begin

text \<open>
  The life of an archive with a block for each file: files and directories are pushed, the
  writer is finished, the archive is opened, and every file is read by its name.
\<close>

section \<open>What the pushes write\<close>

text \<open>A packed file: its data, its packed stream, and what the encoders counted.\<close>

type_synonym packed_file = "bytes \<times> bytes \<times> usize list"

definition file_block :: "(bytes \<Rightarrow> u32) \<Rightarrow> encoder_configuration list \<Rightarrow> packed_file \<Rightarrow> block_info" where
  "file_block crc32 methods = (\<lambda>(d, c, ns).
     \<lparr>bi_methods = methods, bi_sizes = map of_nat (coder_sizes d ns), bi_crc = crc32 d,
      bi_num_sub_unpack_streams = 1, bi_sub_stream_sizes = [], bi_sub_stream_crcs = []\<rparr>)"

definition files_pack_info :: "(bytes \<Rightarrow> u32) \<Rightarrow> packed_file list \<Rightarrow> pack_info" where
  "files_pack_info crc32 items = \<lparr>pi_crcs = map (\<lambda>(d, c, ns). crc32 c) items,
     pi_sizes = map (\<lambda>(d, c, ns). of_nat (length c)) items, pi_pos = 0\<rparr>"

definition entry_like :: "archive_entry \<times> bytes option \<Rightarrow> archive_entry \<Rightarrow> bool" where
  "entry_like = (\<lambda>(e, contents) f. name f = name e \<and> is_directory f = is_directory e
     \<and> is_anti_item f = is_anti_item e \<and> has_stream f = (contents \<noteq> None))"

definition wrote ::
    "'e codecs \<Rightarrow> (bytes \<Rightarrow> u32) \<Rightarrow> ((bytes \<Rightarrow> bytes \<Rightarrow> bool) \<times> 'e encoder) list \<Rightarrow> cursor archive_writer \<Rightarrow>
     (archive_entry \<times> bytes option) list \<Rightarrow> packed_file list \<Rightarrow> cursor archive_writer \<Rightarrow> bool" where
  "wrote X crc32 ps aw0 pushed items aw \<longleftrightarrow>
     list_all (\<lambda>(d, c, ns). stack_code X (rev ps) d c ns) items
     \<and> packed_streams_at (map (\<lambda>(d, c, ns). c) items) (w_output aw)
     \<and> w_content_methods aw = w_content_methods aw0 \<and> w_encrypt_header aw = w_encrypt_header aw0
     \<and> w_comment aw = w_comment aw0 \<and> w_pack_info aw = files_pack_info crc32 items
     \<and> w_unpack_info aw = map (file_block crc32 (w_content_methods aw0)) items
     \<and> map fst items = List.map_filter snd pushed
     \<and> list_all2 entry_like pushed (w_files aw)"

definition push_all ::
    "('e, 'o) writer_env \<Rightarrow> nat \<Rightarrow> (archive_entry \<times> bytes option) list \<Rightarrow> 'o archive_writer \<Rightarrow> 'o archive_writer result" where
  "push_all E fuel = for_each (\<lambda>(e, contents) aw. push_archive_entry E slice_read fuel aw e contents)"

text \<open>Directories have no contents, and the contents fit the fuel of the copying loop.\<close>

definition can_be_pushed :: "nat \<Rightarrow> archive_entry \<times> bytes option \<Rightarrow> bool" where
  "can_be_pushed fuel = (\<lambda>(e, contents). case contents of
     None \<Rightarrow> True | Some d \<Rightarrow> \<not> is_directory e \<and> length d < fuel)"

lemma wrote_new:
  assumes "w_files aw0 = []" and "w_pack_info aw0 = pack_info_default" and "w_unpack_info aw0 = []"
    and "packed_streams_at [] (w_output aw0)"
  shows "wrote X crc32 ps aw0 [] [] aw0"
  using assms by (simp add: wrote_def files_pack_info_def pack_info_default_def List.map_filter_def)

lemma map_filter_snoc: "List.map_filter f (xs @ [x]) = List.map_filter f xs @ (case f x of None \<Rightarrow> [] | Some y \<Rightarrow> [y])"
  by (auto simp: List.map_filter_def split: option.splits)

lemma entry_added_fields:
  assumes "entry_added E ps finished aw e d aw'"
  shows "\<exists>c ns. stack_code (we_codecs E) (rev ps) d c ns \<and> finished (w_output aw') c
     \<and> w_files aw' = w_files aw @ [e\<lparr>has_stream := True, entry_size := of_nat (length d), crc := ucast (we_crc32 E d),
          has_crc := True, compressed_crc := ucast (we_crc32 E c), compressed_size := of_nat (length c)\<rparr>]
     \<and> w_pack_info aw' = add_stream (w_pack_info aw) (of_nat (length c)) (we_crc32 E c)
     \<and> w_unpack_info aw' = unpack_add (w_unpack_info aw) (w_content_methods aw)
          (map of_nat (rev (butlast ns)) @ [of_nat (length d)]) (we_crc32 E d)
     \<and> w_content_methods aw' = w_content_methods aw \<and> w_encrypt_header aw' = w_encrypt_header aw
     \<and> w_comment aw' = w_comment aw"
proof -
  define out where "out = w_output aw'"
  from assms obtain c ns where c: "stack_code (we_codecs E) (rev ps) d c ns" "finished out c"
    and aw': "aw' = aw\<lparr>w_output := out,
        w_files := w_files aw @ [e\<lparr>has_stream := True, entry_size := of_nat (length d), crc := ucast (we_crc32 E d),
          has_crc := True, compressed_crc := ucast (we_crc32 E c), compressed_size := of_nat (length c)\<rparr>],
        w_pack_info := add_stream (w_pack_info aw) (of_nat (length c)) (we_crc32 E c),
        w_unpack_info := unpack_add (w_unpack_info aw) (w_content_methods aw)
          (map of_nat (rev (butlast ns)) @ [of_nat (length d)]) (we_crc32 E d)\<rparr>"
    unfolding entry_added_def out_def [symmetric] by blast
  from c show ?thesis by (intro exI [of _ c] exI [of _ ns]) (simp add: aw')
qed

lemma wrote_push:
  fixes X :: "'e codecs" and L crc32
  defines "E \<equiv> memory_env L X crc32"
  assumes wrote: "wrote X crc32 ps aw0 pushed items aw" and ok: "methods_ok E (w_content_methods aw0) ps"
    and new: "can_be_pushed fuel (e, contents)"
  shows "\<exists>aw' items'. push_archive_entry E slice_read fuel aw e contents = Ok aw'
     \<and> wrote X crc32 ps aw0 (pushed @ [(e, contents)]) items' aw'"
proof (cases contents)
  case None
  from wrote None have "wrote X crc32 ps aw0 (pushed @ [(e, contents)]) items (add_empty aw e)"
    unfolding wrote_def by (auto simp: map_filter_snoc add_empty_def entry_like_def list_all2_appendI)
  with None show ?thesis by (auto simp: push_archive_entry_def)
next
  case (Some d)
  let ?pre = "replicate 32 0 @ concat (map (\<lambda>(d, c, ns). c) items)"
  have fields: "w_content_methods aw = w_content_methods aw0" "w_pack_info aw = files_pack_info crc32 items"
    "w_unpack_info aw = map (file_block crc32 (w_content_methods aw0)) items"
    using wrote by (simp_all add: wrote_def)
  have "cursor_took ?pre (w_output aw) []"
    using wrote by (simp add: wrote_def packed_streams_at_def cursor_took_append [symmetric])
  then have can: "can_push E ps (cursor_took ?pre) (cursor_took ?pre) aw"
    using ok memory_output_ok [of L X crc32 ?pre] by (simp add: can_push_def E_def fields(1))
  obtain aw' where aw': "push_archive_entry E slice_read fuel aw e (Some d) = Ok aw'"
    "entry_added E ps (cursor_took ?pre) aw e d aw'"
    using slice.push_adds(1) [OF can, of d fuel e] new Some by (auto simp: can_be_pushed_def)
  obtain c ns where c: "stack_code X (rev ps) d c ns" "cursor_took ?pre (w_output aw') c"
    and *: "w_files aw' = w_files aw @ [e\<lparr>has_stream := True, entry_size := of_nat (length d), crc := ucast (crc32 d),
        has_crc := True, compressed_crc := ucast (crc32 c), compressed_size := of_nat (length c)\<rparr>]"
      "w_pack_info aw' = add_stream (w_pack_info aw) (of_nat (length c)) (crc32 c)"
      "w_unpack_info aw' = unpack_add (w_unpack_info aw) (w_content_methods aw)
         (map of_nat (rev (butlast ns)) @ [of_nat (length d)]) (crc32 d)"
      "w_content_methods aw' = w_content_methods aw" "w_encrypt_header aw' = w_encrypt_header aw" "w_comment aw' = w_comment aw"
    using entry_added_fields [OF aw'(2), unfolded E_def memory_env_simps] by (elim exE conjE) (rule that; assumption)
  have "file_block crc32 (w_content_methods aw0) (d, c, ns) = \<lparr>bi_methods = w_content_methods aw0,
      bi_sizes = map of_nat (rev (butlast ns)) @ [of_nat (length d)], bi_crc = crc32 d,
      bi_num_sub_unpack_streams = 1, bi_sub_stream_sizes = [], bi_sub_stream_crcs = []\<rparr>"
    by (simp add: file_block_def coder_sizes_def word_unat_eq_iff unat_of_nat)
  then have "wrote X crc32 ps aw0 (pushed @ [(e, contents)]) (items @ [(d, c, ns)]) aw'"
    using wrote c Some unfolding wrote_def
    by (auto simp: * fields map_filter_snoc entry_like_def list_all2_appendI add_stream_def unpack_add_def
        files_pack_info_def packed_streams_at_def cursor_took_append)
  then show ?thesis using aw'(1) Some by blast
qed

lemma wrote_push_all:
  fixes X :: "'e codecs" and L crc32
  defines "E \<equiv> memory_env L X crc32"
  assumes "wrote X crc32 ps aw0 pushed items aw" and ok: "methods_ok E (w_content_methods aw0) ps"
    and "list_all (can_be_pushed fuel) news"
  shows "\<exists>aw' items'. push_all E fuel news aw = Ok aw' \<and> wrote X crc32 ps aw0 (pushed @ news) items' aw'"
  using assms(2,4)
proof (induction news arbitrary: pushed items aw)
  case (Cons p news)
  obtain e contents where p: "p = (e, contents)" by (cases p)
  with Cons.prems wrote_push [OF Cons.prems(1) ok [unfolded E_def], of fuel e contents] obtain aw' items' where
    "push_archive_entry E slice_read fuel aw e contents = Ok aw'" "wrote X crc32 ps aw0 (pushed @ [p]) items' aw'"
    by (auto simp: E_def)
  with Cons.IH [of "pushed @ [p]" items' aw'] Cons.prems p show ?case by (simp add: push_all_def)
qed (auto simp: push_all_def)

section \<open>Its header is well-formed\<close>

text \<open>What a header needs of its entries depends on few of their fields.\<close>

lemma covered_map: "covered flag es = covered (\<lambda>b. b) (map flag es)"
  by (simp add: covered_def list_ex_iff drop_map)

lemma files_ok_like:
  assumes "list_all2 (\<lambda>f g. name g = name f \<and> is_directory g = is_directory f \<and> is_anti_item g = is_anti_item f
      \<and> has_stream g = has_stream f) fs gs" and "files_ok fs"
  shows "files_ok gs"
proof -
  have "map name gs = map name fs \<and> map is_directory (empties gs) = map is_directory (empties fs)
      \<and> map is_anti_item (empties gs) = map is_anti_item (empties fs)"
    using assms(1) by (induction rule: list_all2_induct) (auto simp: empties_def)
  then have names: "map name gs = map name fs" and dirs: "map is_directory (empties gs) = map is_directory (empties fs)"
    and anti: "map is_anti_item (empties gs) = map is_anti_item (empties fs)" by blast+
  have "map (\<lambda>e. \<not> is_directory e) (empties gs) = map (\<lambda>e. \<not> is_directory e) (empties fs)"
    using arg_cong [OF dirs, of "map Not"] by (simp add: comp_def)
  moreover have "map (\<lambda>e. \<not> is_anti_item e) (empties gs) = map (\<lambda>e. \<not> is_anti_item e) (empties fs)"
    using arg_cong [OF anti, of "map Not"] by (simp add: comp_def)
  moreover have "names_bytes gs = names_bytes fs"
    unfolding names_bytes_def using arg_cong [OF names, of "map encode_name"] by (simp add: comp_def)
  moreover have "list_all name_ok gs = list_all name_ok fs"
    using arg_cong [OF names, of "list_all (\<lambda>n. valid_string n \<and> 0 \<notin> set n)"]
    by (simp add: list_all_iff name_ok_def)
  ultimately show ?thesis
    using assms(2) list_all2_lengthD [OF assms(1)] unfolding files_ok_def
    by (simp add: covered_map [of _ "empties gs"] covered_map [of _ "empties fs"])
qed

definition plain_entry :: "archive_entry \<times> bytes option \<Rightarrow> archive_entry" where
  "plain_entry = (\<lambda>(e, contents). e\<lparr>has_stream := (contents \<noteq> None)\<rparr>)"

lemma wrote_streams:
  "list_all2 entry_like pushed fs \<Longrightarrow> streams_before fs i = length (List.map_filter snd (take i pushed))"
proof (induction arbitrary: i rule: list_all2_induct)
  case (Cons p ps f fs)
  then show ?case
    by (cases i) (auto simp: streams_before_def entry_like_def List.map_filter_def split: option.splits)
qed (simp add: streams_before_def List.map_filter_def)

lemma pushed_data:
  "i < length pushed \<Longrightarrow> snd (pushed ! i) = Some d \<Longrightarrow>
   length (List.map_filter snd (take i pushed)) < length (List.map_filter snd pushed)
   \<and> List.map_filter snd pushed ! length (List.map_filter snd (take i pushed)) = d"
proof (induction pushed arbitrary: i)
  case (Cons p pushed)
  show ?case
  proof (cases i)
    case 0
    with Cons.prems show ?thesis by (simp add: map_filter_simps)
  next
    case (Suc j)
    with Cons show ?thesis by (cases "snd p") (auto simp: map_filter_simps)
  qed
qed simp

lemma length_wrote_items:
  assumes "wrote X crc32 ps aw0 pushed items aw"
  shows "length items = length (filter has_stream (w_files aw))" "length items \<le> length pushed"
proof -
  have *: "map fst items = List.map_filter snd pushed" "list_all2 entry_like pushed (w_files aw)"
    using assms by (simp_all add: wrote_def)
  have "length (List.map_filter snd pushed) = length items" using arg_cong [OF *(1), of length] by simp
  with wrote_streams [OF *(2), of "length pushed"] list_all2_lengthD [OF *(2)]
  show "length items = length (filter has_stream (w_files aw))" by (simp add: streams_before_def)
  have "length (List.map_filter snd pushed) \<le> length pushed" by (simp add: List.map_filter_def)
  with \<open>length (List.map_filter snd pushed) = length items\<close> show "length items \<le> length pushed" by simp
qed

text \<open>What the files and methods must satisfy for the header to be readable. The CRC of no packed
  stream is 0: a CRC of 0 among others is written as undefined and misread.\<close>

definition files_fit ::
    "libs \<Rightarrow> (bytes \<Rightarrow> u32) \<Rightarrow> cursor archive_writer \<Rightarrow> (archive_entry \<times> bytes option) list \<Rightarrow> bool" where
  "files_fit L crc32 aw0 pushed \<longleftrightarrow> files_ok (map plain_entry pushed) \<and> comment_ok (w_comment aw0)
     \<and> length (w_content_methods aw0) < 2 ^ 64 \<and> list_all (codec_ok L) (w_content_methods aw0)"

lemma num_subs_file_block: "num_subs (file_block crc32 methods it) = 1"
  by (simp add: num_subs_def file_block_def split: prod.splits)

lemma wrote_header_ok:
  assumes wrote: "wrote X crc32 ps aw0 pushed items aw" and fit: "files_fit L crc32 aw0 pushed"
    and ps: "w_content_methods aw0 \<noteq> []" "length ps = length (w_content_methods aw0)"
    and crcs: "list_all (\<lambda>(d, c, ns). crc32 c \<noteq> 0) items"
  shows "header_ok L aw"
proof -
  have fields: "w_pack_info aw = files_pack_info crc32 items" "w_unpack_info aw = map (file_block crc32 (w_content_methods aw0)) items"
    "w_comment aw = w_comment aw0" and codes: "list_all (\<lambda>(d, c, ns). stack_code X (rev ps) d c ns) items"
    and files: "list_all2 entry_like pushed (w_files aw)"
    using wrote by (simp_all add: wrote_def)
  have like: "list_all2 (\<lambda>f g. name g = name f \<and> is_directory g = is_directory f \<and> is_anti_item g = is_anti_item f
      \<and> has_stream g = has_stream f) (map plain_entry pushed) (w_files aw)"
    using files by (auto simp: list.rel_map plain_entry_def entry_like_def elim!: list_all2_mono)
  have ok: "files_ok (w_files aw)" using files_ok_like [OF like] fit by (simp add: files_fit_def)
  have n: "length items < 2 ^ 64"
    using length_wrote_items(2) [OF wrote] fit by (simp add: files_fit_def files_ok_def)
  have block: "block_ok L (file_block crc32 (w_content_methods aw0) it) \<and> subs_ok (file_block crc32 (w_content_methods aw0) it)"
    if "it \<in> set items" for it
  proof -
    obtain d c ns where it: "it = (d, c, ns)" by (cases it)
    have "length ns = length ps" using stack_code_sizes [of X "rev ps" d c ns] codes that it by (auto simp: list_all_iff)
    then show ?thesis
      using fit ps by (simp add: it file_block_def block_ok_def subs_ok_def num_subs_def files_fit_def coder_sizes_def Suc_diff_Suc)
  qed
  have "list_all (block_ok L) (w_unpack_info aw)" "list_all subs_ok (w_unpack_info aw)"
    using block by (auto simp: list_all_iff fields(2))
  moreover have "sum_list (map num_subs (w_unpack_info aw)) = length items"
    by (simp add: fields(2) comp_def num_subs_file_block sum_list_triv)
  moreover have "pack_info_ok (w_pack_info aw)"
    using crcs n by (auto simp: fields(1) pack_info_ok_def files_pack_info_def list_all_iff)
  moreover have "length (filter has_stream (w_files aw)) = length items" using length_wrote_items(1) [OF wrote] by simp
  ultimately show ?thesis
    using ok fit n
    by (simp add: header_ok_def streams_info_ok_def subs_info_ok_def unpack_info_ok_def fields files_pack_info_def files_fit_def)
qed

section \<open>Opening it\<close>

lemma place_file_lengths:
  "place_file a p i s = Ok s' \<Longrightarrow> length (ms_file_block s') = length (ms_file_block s) \<and> length (ms_files s') = length (ms_files s)"
  unfolding place_file_def Let_def
  by (auto simp: and_then_Ok_iff index_Ok_iff split: if_split_asm prod.split_asm)

lemma opened_fields:
  assumes "opened L w a"
  shows "block_first_pack_stream_index (ar_stream_map a) = pack_stream_indices (map (read_back L) (w_unpack_info w)) 0"
    "pack_stream_offsets (ar_stream_map a) = pack_offsets (pack_sizes (archive_read L w)) 0"
    "length (file_block_index (ar_stream_map a)) = length (w_files w)" "length (ar_files a) = length (w_files w)"
    "pack_pos a = pack_pos (archive_read L w)" "sub_streams a = Some (read_sub_streams (w_unpack_info w))"
    "is_solid a = list_ex (\<lambda>b. 1 < num_unpack_sub_streams b) (map (read_back L) (w_unpack_info w))"
proof -
  obtain a' where a': "calculate_stream_map (archive_read L w) = Ok a'"
    "a = a'\<lparr>is_solid := list_ex (\<lambda>b. 1 < num_unpack_sub_streams b) (ar_blocks a')\<rparr>" using assms by (auto simp: opened_def)
  let ?r = "archive_read L w"
  let ?init = "\<lparr>ms_first_file = replicate (length (ar_blocks ?r)) 0, ms_file_block = replicate (length (ar_files ?r)) None,
                 ms_files = ar_files ?r, ms_next_block = 0, ms_next_stream = 0\<rparr>"
  obtain s where s: "for_each (place_file ?r (pack_stream_indices (ar_blocks ?r) 0)) [0..<length (ar_files ?r)] ?init = Ok s"
    "a' = ?r\<lparr>ar_files := ms_files s, ar_stream_map :=
                  \<lparr>block_first_pack_stream_index = pack_stream_indices (ar_blocks ?r) 0,
                   pack_stream_offsets = pack_offsets (pack_sizes ?r) 0,
                   block_first_file_index = ms_first_file s,
                   file_block_index = ms_file_block s\<rparr>\<rparr>"
    using a'(1) by (auto simp: calculate_stream_map_def and_then_Ok_iff Let_def)
  have "length (ms_file_block s) = length (ar_files ?r) \<and> length (ms_files s) = length (ar_files ?r)"
    by (rule for_each_invariant [OF s(1)]) (auto dest: place_file_lengths)
  moreover have "length (ar_files ?r) = length (w_files w)"
    by (simp add: archive_read_def length_files_read)
  moreover have "ar_blocks ?r = map (read_back L) (w_unpack_info w)" "sub_streams ?r = Some (read_sub_streams (w_unpack_info w))"
    by (simp_all add: archive_read_def streams_info_fields)
  ultimately show
    "block_first_pack_stream_index (ar_stream_map a) = pack_stream_indices (map (read_back L) (w_unpack_info w)) 0"
    "pack_stream_offsets (ar_stream_map a) = pack_offsets (pack_sizes (archive_read L w)) 0"
    "length (file_block_index (ar_stream_map a)) = length (w_files w)" "length (ar_files a) = length (w_files w)"
    "pack_pos a = pack_pos (archive_read L w)" "sub_streams a = Some (read_sub_streams (w_unpack_info w))"
    "is_solid a = list_ex (\<lambda>b. 1 < num_unpack_sub_streams b) (map (read_back L) (w_unpack_info w))"
    by (simp_all add: a'(2) s(2))
qed

lemma opened_kept:
  assumes "header_ok L w" and "opened L w a"
  shows "header_kept w L a"
proof -
  have solid: "header_kept w L (a'\<lparr>is_solid := x\<rparr>) = header_kept w L a'" for a' x by (simp add: header_kept_def)
  from assms(2) obtain a' x where "calculate_stream_map (archive_read L w) = Ok a'" "a = a'\<lparr>is_solid := x\<rparr>"
    unfolding opened_def by blast
  with stream_map_kept [OF assms(1)] show ?thesis by (simp only: solid)
qed

lemma pack_stream_indices_single:
  "list_all (\<lambda>b. packed_streams b = [0]) bs \<Longrightarrow> n + length bs < 2 ^ 64 \<Longrightarrow> pack_stream_indices bs n = [n..<n + length bs]"
proof (induction bs arbitrary: n)
  case (Cons b bs)
  have "[n..<n + length (b # bs)] = n # [Suc n..<Suc n + length bs]" by (simp add: upt_conv_Cons del: upt_Suc)
  with Cons show ?case by (simp add: usize_add_def)
qed simp

lemma pack_offsets_nth: "k < length szs \<Longrightarrow> pack_offsets szs nxt ! k = nxt + sum_list (take k szs)"
  by (induction szs arbitrary: nxt k) (auto simp: nth_Cons split: nat.splits)

lemma owners_single: "list_all (\<lambda>b. num_unpack_sub_streams b = 1) bs \<Longrightarrow> owners bs = [0..<length bs]"
proof -
  assume "list_all (\<lambda>b. num_unpack_sub_streams b = 1) bs"
  then have "map (\<lambda>j. replicate (num_unpack_sub_streams (bs ! j)) j) [0..<length bs] = map (\<lambda>j. [j]) [0..<length bs]"
    by (auto simp: list_all_length)
  then show ?thesis unfolding owners_def by (simp only: concat_map_singleton) simp
qed

lemma read_back_file_block:
  "num_unpack_sub_streams (read_back L (file_block crc32 methods it)) = 1"
  "packed_streams (read_back L (file_block crc32 methods it)) = [0]"
  "\<not> block_has_crc (read_back L (file_block crc32 methods it))"
  "total_input_streams (read_back L (file_block crc32 methods it)) \<le> total_output_streams (read_back L (file_block crc32 methods it))"
  "length (coders (read_back L (file_block crc32 methods it))) = length methods"
  by (cases it; simp add: read_back_def num_subs_def written_block_def Let_def block_default_def file_block_def)+

lemma concat_nth_split:
  "k < length xs \<Longrightarrow> concat xs = concat (take k xs) @ xs ! k @ concat (drop (Suc k) xs)"
  by (metis append_take_drop_id concat.simps(2) concat_append id_take_nth_drop)

lemma sum_of_nat_lengths: "sum_list (map (\<lambda>x. of_nat (length x)) xs) = (of_nat (length (concat xs)) :: u64)"
  by (induction xs) simp_all

text \<open>The packed stream of each file lies where the archive says.\<close>

lemma wrote_block_at:
  assumes wrote: "wrote X crc32 ps aw0 pushed items aw" and a: "opened L aw a" "header_kept aw L a"
    and d: "cur_data f = s @ d @ rest" "length s = 32" "d = concat (map (\<lambda>(d, c, ns). c) items)" "32 + length d < 2 ^ 63"
    and k: "k < length items" "length items < 2 ^ 64"
  shows "block_at a k (cur_data f) (fst (snd (items ! k)))"
proof -
  let ?cs = "map (\<lambda>(d, c, ns). c) items" and ?c = "fst (snd (items ! k))"
  have fields: "w_pack_info aw = files_pack_info crc32 items" "w_unpack_info aw = map (file_block crc32 (w_content_methods aw0)) items"
    using wrote by (simp_all add: wrote_def)
  have blocks: "ar_blocks a = map (read_back L) (w_unpack_info aw)" "pack_sizes a = map (\<lambda>c. of_nat (length c)) ?cs"
    using a(2) by (simp_all add: header_kept_def fields files_pack_info_def comp_def split_def)
  have sizes: "pack_sizes (archive_read L aw) = map (\<lambda>c. of_nat (length c)) ?cs" "pack_pos (archive_read L aw) = 0"
    by (simp_all add: archive_read_def with_streams_info_def with_pack_info_def fields files_pack_info_def archive_default_def
        comp_def split_def)
  have index: "block_first_pack_stream_index (ar_stream_map a) = [0..<length items]"
    unfolding opened_fields(1) [OF a(1)]
    using pack_stream_indices_single [of "map (read_back L) (w_unpack_info aw)" 0] k(2)
    by (simp add: fields list_all_iff read_back_file_block)
  have c: "?cs ! k = ?c" using k(1) by (simp add: split_def)
  note split = concat_nth_split [of k ?cs, unfolded c]
  have offset: "pack_stream_offsets (ar_stream_map a) ! k = of_nat (length (concat (take k ?cs)))"
    unfolding opened_fields(2) [OF a(1)] sizes using k(1)
    by (simp add: pack_offsets_nth take_map sum_of_nat_lengths del: map_map)
  have "length d = length (concat (take k ?cs)) + length ?c + length (concat (drop (Suc k) ?cs))"
    unfolding d(3) by (subst split) (use k(1) in simp_all)
  then have small: "32 + length (concat (take k ?cs)) < 2 ^ 64" "length ?c < 2 ^ 64" using d(4) by simp_all
  have start: "unat (of_nat signature_header_size + pack_pos a + of_nat (length (concat (take k ?cs)))) = 32 + length (concat (take k ?cs))"
    unfolding opened_fields(5) [OF a(1)] sizes
    using unat_of_nat_u64 [OF small(1)] by (simp add: signature_header_size_def)
  have "take (length ?c) (drop (32 + length (concat (take k ?cs))) (cur_data f)) = ?c"
    unfolding d(1) d(3) by (subst split) (use k(1) d(2) in simp_all)
  then show ?thesis
    using k(1) small(2) start offset index
    by (simp add: block_at_def Let_def blocks fields opened_fields(2) [OF a(1)] sizes length_pack_offsets split_def unat_of_nat_u64)
qed

section \<open>Reading its files\<close>

lemma wrote_crcs:
  assumes "w_unpack_info aw = map (file_block crc32 methods) items"
  shows "all_crcs (w_unpack_info aw) = map (\<lambda>it. crc32 (fst it)) items"
    "concat (map sub_sizes (w_unpack_info aw)) = map (\<lambda>it. of_nat (length (fst it) mod 2 ^ 64)) items"
proof -
  have "crcs_of_block (file_block crc32 methods it) = [crc32 (fst it)]"
    "sub_sizes (file_block crc32 methods it) = [of_nat (length (fst it) mod 2 ^ 64)]" for it
    by (cases it; simp add: crcs_of_block_def sub_sizes_def num_subs_def file_block_def coder_sizes_def)+
  then show "all_crcs (w_unpack_info aw) = map (\<lambda>it. crc32 (fst it)) items"
    "concat (map sub_sizes (w_unpack_info aw)) = map (\<lambda>it. of_nat (length (fst it) mod 2 ^ 64)) items"
    by (simp_all add: assms all_crcs_def comp_def concat_map_singleton)
qed

lemma wrote_stack_crc:
  assumes a: "opened L aw a" "header_kept aw L a" and info: "w_unpack_info aw = map (file_block crc32 methods) items"
    and k: "k < length items" "items ! k = (d, c, ns)"
  shows "stack_crc a k (ar_blocks a ! k) = Ok (Some (ucast (crc32 d)))"
proof -
  have b: "ar_blocks a = map (\<lambda>it. read_back L (file_block crc32 methods it)) items"
    using a(2) by (simp add: header_kept_def info)
  have "sum_list (map num_unpack_sub_streams (take k (ar_blocks a))) = k"
    using k(1) by (simp add: b take_map comp_def read_back_file_block sum_list_triv)
  then show ?thesis
    using k by (simp add: stack_crc_def b read_back_file_block opened_fields(6) [OF a(1)] read_sub_streams_def wrote_crcs [OF info])
qed

text \<open>The decoders of a block of its own deliver the data, whatever \<open>pad\<close> follows it.\<close>

definition block_of_data ::
    "(bytes \<Rightarrow> u32) \<Rightarrow> 'd decoder_libs \<Rightarrow> libs \<Rightarrow> ('d \<Rightarrow> bytes \<Rightarrow> bytes) \<Rightarrow> ('d \<Rightarrow> bytes \<Rightarrow> bool) \<Rightarrow> u32 \<Rightarrow> password \<Rightarrow>
     nat \<Rightarrow> archive \<Rightarrow> usize \<Rightarrow> bytes \<Rightarrow> bytes \<Rightarrow> bytes \<Rightarrow> bytes \<Rightarrow> bool" where
  "block_of_data crc32 D L out fine threads pw fuel a k dat c d pad \<longleftrightarrow>
     (let b = ar_blocks a ! k in
        block_at a k dat c \<and> is_chain b \<and> simple_coders b \<and> total_input_streams b \<le> total_output_streams b
        \<and> length (coders b) < fuel \<and> block_decodes D L out fine threads pw (block_coders b) c (d @ pad)
        \<and> (get_unpack_size b :: u64 result) = Ok (of_nat (length d)) \<and> length d < 2 ^ 63
        \<and> stack_crc a k b = Ok (Some (ucast (crc32 d))))"

lemma build_of_data:
  fixes B :: "'b bcj2_lib"
  assumes "valid_decoder D out fine" "block_cipher (dc_cbc D)"
    and "block_of_data crc32 D L out fine threads pw fuel a k (cur_data f) c d pad"
  shows "\<exists>r n. build_decode_stack D L B fuel pw threads a k f = Ok (r :: ('d, 'b) decode_stack, n)
     \<and> block_holds crc32 D out fine (cur_data f) d pad r"
  using assms(3) build_decode_stack_holds [OF assms(1,2), where a = a and k = k and f = f and c = c and d = d and pad = pad
      and ?crc32.0 = crc32 and b = "ar_blocks a ! k" and B = B]
  by (simp add: block_of_data_def Let_def)

text \<open>The block of a file that was pushed with data.\<close>

lemma pushed_block:
  fixes D :: "'d decoder_libs"
  assumes wrote: "wrote X crc32 ps aw0 pushed items aw"
    and undone: "methods_undone D L out fine threads pw X (w_content_methods aw0) ps"
    and ok: "w_content_methods aw0 \<noteq> []" "length ps = length (w_content_methods aw0)" "header_ok L aw" "length items < 2 ^ 64"
    and a: "opened L aw a" "header_kept aw L a"
    and f: "cur_data f = s @ concat (map (\<lambda>(d, c, ns). c) items) @ rest" "length s = 32"
      "32 + length (concat (map (\<lambda>(d, c, ns). c) items)) < 2 ^ 63"
    and fuel: "length (w_content_methods aw0) < fuel"
    and i: "i < length pushed" "pushed ! i = (e, Some d)" "length d < 2 ^ 63"
    and k: "k = streams_before (w_files aw) i"
  shows "\<exists>c pad. block_of_data crc32 D L out fine threads pw fuel a k (cur_data f) c d pad"
    and "k < length items" "ar_blocks a ! k = read_back L (file_block crc32 (w_content_methods aw0) (items ! k))"
    and "entry_size (ar_files a ! i) = of_nat (length d)" "crc (ar_files a ! i) = ucast (crc32 d)"
    and "file_block_index (ar_stream_map a) ! i = Some k" "has_stream (w_files aw ! i)"
proof -
  have info: "w_unpack_info aw = map (file_block crc32 (w_content_methods aw0)) items"
    and files: "list_all2 entry_like pushed (w_files aw)" and data: "map fst items = List.map_filter snd pushed"
    and codes: "list_all (\<lambda>(d, c, ns). stack_code X (rev ps) d c ns) items"
    using wrote by (simp_all add: wrote_def)
  have n: "length (w_files aw) = length pushed" using list_all2_lengthD [OF files] by simp
  show like: "has_stream (w_files aw ! i)" using list_all2_nthD [OF files i(1)] i(2) by (simp add: entry_like_def)
  have len: "length (List.map_filter snd pushed) = length items" using arg_cong [OF data, of length] by simp
  have "k < length (List.map_filter snd pushed) \<and> List.map_filter snd pushed ! k = d"
    unfolding k wrote_streams [OF files] by (rule pushed_data) (use i in simp_all)
  then have kd: "k < length items" "fst (items ! k) = d" unfolding len data [symmetric] by auto
  then obtain c ns where it: "items ! k = (d, c, ns)" by (cases "items ! k") auto
  have code: "stack_code X (rev ps) d c ns" using codes kd(1) it by (auto simp: list_all_length)
  let ?b = "ar_blocks a ! k" and ?info = "file_block crc32 (w_content_methods aw0) (d, c, ns)"
  have blocks: "ar_blocks a = map (\<lambda>it. read_back L (file_block crc32 (w_content_methods aw0) it)) items"
    using a(2) by (simp add: header_kept_def info)
  have b: "?b = read_back L ?info" using kd(1) by (simp add: blocks it)
  show "k < length items" "?b = read_back L (file_block crc32 (w_content_methods aw0) (items ! k))"
    using kd(1) by (simp_all add: blocks)
  have block_ok: "block_ok L ?info"
    using ok(3) kd(1) it by (auto simp: header_ok_def streams_info_ok_def subs_info_ok_def unpack_info_ok_def info list_all_length)
  obtain j where dec: "block_decodes D L out fine threads pw (block_coders ?b) c (d @ replicate j 0)"
    using block_undone [OF undone code]
    by (auto simp: b block_coders_read_back [OF block_ok]) (simp add: file_block_def coder_sizes_unat [OF code, unfolded map_map])
  have per: "entry_size (ar_files a ! i) = concat (map sub_sizes (w_unpack_info aw)) ! k"
    "crc (ar_files a ! i) = map ucast (all_crcs (w_unpack_info aw)) ! k"
    "file_block_index (ar_stream_map a) ! i = Some (owners (ar_blocks a) ! k)"
    using a(2) [unfolded header_kept_def, THEN conjunct2, THEN conjunct2, THEN conjunct2, THEN conjunct2, rule_format, of i]
      i(1) n like by (simp_all add: Let_def k)
  have "owners (ar_blocks a) = [0..<length items]"
    using owners_single [of "ar_blocks a"] by (simp add: blocks list_all_iff read_back_file_block)
  then show "entry_size (ar_files a ! i) = of_nat (length d)" "crc (ar_files a ! i) = ucast (crc32 d)"
    "file_block_index (ar_stream_map a) ! i = Some k"
    using kd(1) it i(3) by (simp_all add: per wrote_crcs [OF info])
  have "block_at a k (cur_data f) c" using wrote_block_at [OF wrote a f(1,2) refl f(3) kd(1) ok(4)] it by simp
  moreover have "is_chain ?b" "simple_coders ?b" unfolding b by (rule read_back_chain [OF block_ok], rule read_back_simple)
  moreover have "total_input_streams ?b \<le> total_output_streams ?b" "length (coders ?b) < fuel"
    unfolding b using fuel by (simp_all add: read_back_file_block)
  moreover have "get_unpack_size ?b = Ok (of_nat (length d))"
    unfolding b using unpack_size_read_back [OF block_ok] i(3) by (simp add: file_block_def coder_sizes_def)
  ultimately show "\<exists>c pad. block_of_data crc32 D L out fine threads pw fuel a k (cur_data f) c d pad"
    using dec i(3) wrote_stack_crc [OF a info kd(1) it] unfolding block_of_data_def Let_def by blast
qed

lemma read_pushed_file:
  fixes D :: "'d decoder_libs" and B :: "'b bcj2_lib"
  assumes D: "valid_decoder D out fine" "block_cipher (dc_cbc D)"
    and wrote: "wrote X crc32 ps aw0 pushed items aw"
    and undone: "methods_undone D L out fine (rd_thread_count rd) (rd_password rd) X (w_content_methods aw0) ps"
    and ok: "w_content_methods aw0 \<noteq> []" "length ps = length (w_content_methods aw0)" "header_ok L aw" "length items < 2 ^ 64"
    and a: "opened L aw a" "header_kept aw L a" "rd_archive rd = a"
    and f: "cur_data (rd_source rd) = s @ concat (map (\<lambda>(d, c, ns). c) items) @ rest" "length s = 32"
      "32 + length (concat (map (\<lambda>(d, c, ns). c) items)) < 2 ^ 63"
    and names: "\<And>i. i < length (ar_files a) \<Longrightarrow> rd_index rd (name (ar_files a ! i))
        = Some \<lparr>ie_block_index = file_block_index (ar_stream_map a) ! i, ie_file_index = i\<rparr>"
    and fuel: "length (w_content_methods aw0) < fuel" and sizes: "\<And>k. 0 < sizes k"
    and i: "i < length pushed" "pushed ! i = (e, contents)" "\<forall>d. contents = Some d \<longrightarrow> length d < fuel \<and> length d < 2 ^ 63"
  shows "\<exists>f. read_file crc32 D L B sizes fuel rd (name e) = Ok (case contents of None \<Rightarrow> [] | Some d \<Rightarrow> d, rd\<lparr>rd_source := f\<rparr>)
     \<and> cur_data f = cur_data (rd_source rd)"
proof -
  have files: "list_all2 entry_like pushed (w_files aw)" and info: "w_unpack_info aw = map (file_block crc32 (w_content_methods aw0)) items"
    using wrote by (simp_all add: wrote_def)
  have n: "length (ar_files a) = length pushed" "length (w_files aw) = length pushed"
    using opened_fields(4) [OF a(1)] list_all2_lengthD [OF files] by simp_all
  have like: "name (w_files aw ! i) = name e" "has_stream (w_files aw ! i) = (contents \<noteq> None)"
    using list_all2_nthD [OF files i(1)] i(2) by (simp_all add: entry_like_def)
  have kept: "entry_kept (w_files aw ! i) (ar_files a ! i)" using a(2) i(1) n by (simp add: header_kept_def)
  then have fl: "name (ar_files a ! i) = name e" "has_stream (ar_files a ! i) = (contents \<noteq> None)"
    by (simp_all add: entry_kept_def like)
  note indexed = names [of i, unfolded fl(1)]
  show ?thesis
  proof (cases contents)
    case None
    have "read_file crc32 D L B sizes fuel rd (name e) = Ok ([], rd)"
      by (rule read_file_empty [where x = "file_block_index (ar_stream_map a) ! i" and i = i])
        (use None indexed i(1) n fl(2) a(3) in simp_all)
    with None show ?thesis by (intro exI [of _ "rd_source rd"]) simp
  next
    case (Some d)
    let ?k = "streams_before (w_files aw) i"
    have small: "length d < fuel" "length d < 2 ^ 63" using i(3) Some by simp_all
    note placed = pushed_block [OF wrote undone ok a(1,2) f fuel i(1) i(2) [unfolded Some] small(2) refl]
    from placed(1) obtain c pad where
      c: "block_of_data crc32 D L out fine (rd_thread_count rd) (rd_password rd) fuel a ?k (cur_data (rd_source rd)) c d pad" by blast
    have "\<exists>f. read_file crc32 D L B sizes fuel rd (name e) = Ok (d, rd\<lparr>rd_source := f\<rparr>) \<and> cur_data f = cur_data (rd_source rd)"
    proof (rule read_file_alone [OF D, where c = c and pad = pad and k = ?k and i = i and ?file = "ar_files a ! i" and b = "ar_blocks a ! ?k"])
      show "rd_index rd (name e) = Some \<lparr>ie_block_index = Some ?k, ie_file_index = i\<rparr>" using indexed i(1) n(1) placed(6) by simp
      show "\<not> is_solid (rd_archive rd)"
        by (simp add: a(3) opened_fields(7) [OF a(1)] info list_ex_iff read_back_file_block)
    qed (use i(1) n a(3) fl(2) Some placed(4,5) c small sizes in \<open>simp_all add: block_of_data_def Let_def\<close>)
    with Some show ?thesis by simp
  qed
qed

section \<open>From the first push to the last read\<close>

definition new_writer ::
    "('e, cursor) writer_env \<Rightarrow> encoder_configuration list \<Rightarrow> bool \<Rightarrow> cursor archive_writer result" where
  "new_writer E methods encrypt =
     and_then (archive_writer_new E \<lparr>cur_data = [], cur_pos = 0\<rparr>) (\<lambda>aw.
     Ok (set_encrypt_header (set_content_methods aw methods) encrypt))"

lemma wrote_new_writer:
  assumes "new_writer (memory_env L X crc32) methods encrypt = Ok aw0" and "methods \<noteq> []"
  shows "wrote X crc32 ps aw0 [] [] aw0" "w_content_methods aw0 = methods" "w_encrypt_header aw0 = encrypt" "w_comment aw0 = None"
proof -
  obtain aw where aw: "archive_writer_new (memory_env L X crc32) \<lparr>cur_data = [], cur_pos = 0\<rparr> = Ok aw"
    "aw0 = set_encrypt_header (set_content_methods aw methods) encrypt"
    using assms(1) by (auto simp: new_writer_def and_then_Ok_iff)
  have "packed_streams_at [] (w_output aw)" by (rule new_archive_at [OF aw(1)])
  moreover have "w_files aw = []" "w_pack_info aw = pack_info_default" "w_unpack_info aw = []" "w_comment aw = None"
    using aw(1) by (auto simp: archive_writer_new_def and_then_Ok_iff)
  ultimately show "wrote X crc32 ps aw0 [] [] aw0" "w_content_methods aw0 = methods" "w_encrypt_header aw0 = encrypt" "w_comment aw0 = None"
    using assms(2) wrote_new [of aw0 X crc32 ps] by (simp_all add: aw(2) set_encrypt_header_def set_content_methods_def)
qed

text \<open>A reader on the archive: what it knows and what its file holds.\<close>

definition reader_of ::
    "'e codecs \<Rightarrow> (bytes \<Rightarrow> u32) \<Rightarrow> ((bytes \<Rightarrow> bytes \<Rightarrow> bool) \<times> 'e encoder) list \<Rightarrow> libs \<Rightarrow> cursor archive_writer \<Rightarrow>
     (archive_entry \<times> bytes option) list \<Rightarrow> cursor archive_writer \<Rightarrow> password \<Rightarrow> packed_file list \<Rightarrow> archive_reader \<Rightarrow> bool" where
  "reader_of X crc32 ps L aw0 pushed aw pw items rd \<longleftrightarrow>
     wrote X crc32 ps aw0 pushed items aw \<and> header_ok L aw \<and> length items < 2 ^ 64
     \<and> opened L aw (rd_archive rd) \<and> header_kept aw L (rd_archive rd) \<and> rd_password rd = pw
     \<and> (\<exists>s rest. cur_data (rd_source rd) = s @ concat (map (\<lambda>(d, c, ns). c) items) @ rest \<and> length s = 32)
     \<and> 32 + length (concat (map (\<lambda>(d, c, ns). c) items)) < 2 ^ 63
     \<and> (\<forall>i<length (ar_files (rd_archive rd)). rd_index rd (name (ar_files (rd_archive rd) ! i))
          = Some \<lparr>ie_block_index = file_block_index (ar_stream_map (rd_archive rd)) ! i, ie_file_index = i\<rparr>)"

lemma written_archive_opens:
  fixes D :: "'d decoder_libs" and X :: "'e codecs" and L crc32
  defines "E \<equiv> memory_env L X crc32"
  assumes D: "valid_decoder D out fine" "block_cipher (dc_cbc D)"
    and undone: "\<And>t. methods_undone D L out fine t pw X methods ps"
      "methods_undone D L out fine 1 pw X (header_methods encrypt methods) hps"
    and methods: "methods_ok E methods ps" "methods_ok E (header_methods encrypt methods) hps"
      "list_all (codec_ok L) methods" "list_all (codec_ok L) (header_methods encrypt methods)"
      "length methods < fuel" "length (header_methods encrypt methods) < fuel" "fuel < 2 ^ 63" "8 < fuel"
    and pushed: "new_writer E methods encrypt = Ok aw0" "push_all E fuel pushed aw0 = Ok aw" "list_all (can_be_pushed fuel) pushed"
    and files: "files_ok (map plain_entry pushed)" "distinct (map (\<lambda>p. name (fst p)) pushed)"
    and crcs: "list_all (\<lambda>c. c \<noteq> 0) (pi_crcs (w_pack_info aw))"
    and fits: "finish_fits L X crc32 hps (cur_pos (w_output aw) - 32) aw"
  shows "\<exists>f rd items. finish_archive E aw = Ok f \<and> archive_reader_new crc32 D L fuel parallelism f pw = Ok rd
     \<and> reader_of X crc32 ps L aw0 pushed aw pw items rd \<and> w_content_methods aw0 = methods"
proof -
  have ne: "methods \<noteq> []" using methods(1) by (simp add: methods_ok_def)
  note new = wrote_new_writer(1) [OF pushed(1) [unfolded E_def] ne, where ps = ps]
    wrote_new_writer(2-4) [OF pushed(1) [unfolded E_def] ne]
  obtain items where wrote: "wrote X crc32 ps aw0 pushed items aw"
    using wrote_push_all [OF new(1), of L fuel pushed] methods(1) pushed(2,3) new(2) by (auto simp: E_def)
  have fields: "w_content_methods aw = methods" "w_encrypt_header aw = encrypt" "w_comment aw = None"
    "w_pack_info aw = files_pack_info crc32 items"
    using wrote new by (simp_all add: wrote_def)
  have lens: "length ps = length methods" "length hps = length (header_methods encrypt methods)"
    using methods(1,2) by (auto simp: methods_ok_def dest: list_all2_lengthD)
  let ?cs = "map (\<lambda>(d, c, ns). c) items"
  have at: "cursor_took (replicate 32 0) (w_output aw) (concat ?cs)"
    using wrote by (simp add: wrote_def packed_streams_at_def)
  then have pos: "cur_pos (w_output aw) - 32 = length (concat ?cs)" by (simp add: cursor_took_def)
  have fit: "files_fit L crc32 aw0 pushed"
    using files(1) methods(3,5,7) new by (simp add: files_fit_def comment_ok_def)
  have w: "header_ok L aw"
    by (rule wrote_header_ok [OF wrote fit]) (use ne lens(1) new(2) crcs in \<open>auto simp: fields(4) files_pack_info_def list_all_iff\<close>)
  then obtain a where a: "opened L aw a" using opened_ex by blast
  note kept = opened_kept [OF w a]
  have big: "32 + length (concat ?cs) < 2 ^ 63"
    using fits unfolding pos finish_fits_def by (auto simp: header_parts_def Let_def)
  obtain f f' s rest where f: "finish_archive E aw = Ok f" "cur_data f = s @ concat ?cs @ rest" "length s = 32"
    "archive_read_file crc32 D L fuel pw f = Ok (a, f')" "cur_data f' = cur_data f"
    using finished_is_read [OF D, where aw = aw and ps = hps and X = X and L = L and pw = pw and ?crc32.0 = crc32 and d = "concat ?cs"
        and fuel = fuel and a = a] undone(2) methods w a at fits pos
    by (auto simp: fields E_def)
  let ?rd0 = "\<lparr>rd_source = f', rd_archive = a, rd_password = pw, rd_thread_count = 1, rd_index = Map.empty\<rparr>"
  let ?rd1 = "\<lambda>m. set_thread_count (?rd0\<lparr>rd_index := m\<rparr>) (case parallelism of None \<Rightarrow> 1 | Some n \<Rightarrow> of_nat n)"
  have lengths: "length (file_block_index (ar_stream_map a)) = length (ar_files a)" "length (ar_files a) = length (w_files aw)"
    using opened_fields(3,4) [OF a] by simp_all
  have like: "list_all2 entry_like pushed (w_files aw)" using wrote by (simp add: wrote_def)
  have "map name (ar_files a) = map (\<lambda>p. name (fst p)) pushed"
    using kept like lengths list_all2_lengthD [OF like]
    by (intro nth_equalityI) (auto simp: header_kept_def entry_kept_def entry_like_def split_def dest: list_all2_nthD)
  then have "distinct (map name (ar_files a))" using files(2) by simp
  then obtain m where m: "fill_index ?rd0 = Ok (?rd0\<lparr>rd_index := m\<rparr>)"
    "\<forall>i<length (ar_files a). m (name (ar_files a ! i)) = Some \<lparr>ie_block_index = file_block_index (ar_stream_map a) ! i, ie_file_index = i\<rparr>"
    using fill_index_ex [of ?rd0] lengths by auto
  have new_reader: "archive_reader_new crc32 D L fuel parallelism f pw = Ok (?rd1 m)"
    by (simp add: archive_reader_new_def f(4) from_archive_def m(1))
  have "length items < 2 ^ 64"
    using length_wrote_items(2) [OF wrote] files(1) by (simp add: files_ok_def)
  then have "reader_of X crc32 ps L aw0 pushed aw pw items (?rd1 m)"
    using wrote w a kept f(2,3,5) big m(2) by (auto simp: reader_of_def set_thread_count_def)
  then show ?thesis using f(1) new_reader new(2) by blast
qed

lemma written_archive_is_read:
  fixes D :: "'d decoder_libs" and B :: "'b bcj2_lib" and X :: "'e codecs" and L crc32
  defines "E \<equiv> memory_env L X crc32"
  assumes D: "valid_decoder D out fine" "block_cipher (dc_cbc D)"
    and undone: "\<And>t. methods_undone D L out fine t pw X methods ps"
      "methods_undone D L out fine 1 pw X (header_methods encrypt methods) hps"
    and methods: "methods_ok E methods ps" "methods_ok E (header_methods encrypt methods) hps"
      "list_all (codec_ok L) methods" "list_all (codec_ok L) (header_methods encrypt methods)"
      "length methods < fuel" "length (header_methods encrypt methods) < fuel" "fuel < 2 ^ 63" "8 < fuel"
    and pushed: "new_writer E methods encrypt = Ok aw0" "push_all E fuel pushed aw0 = Ok aw" "list_all (can_be_pushed fuel) pushed"
    and files: "files_ok (map plain_entry pushed)" "distinct (map (\<lambda>p. name (fst p)) pushed)"
    and crcs: "list_all (\<lambda>c. c \<noteq> 0) (pi_crcs (w_pack_info aw))"
    and fits: "finish_fits L X crc32 hps (cur_pos (w_output aw) - 32) aw"
    and sizes: "\<And>k. 0 < sizes k"
  shows "\<exists>f rd. finish_archive E aw = Ok f \<and> archive_reader_new crc32 D L fuel parallelism f pw = Ok rd
     \<and> (\<forall>(e, contents)\<in>set pushed. \<exists>f'. read_file crc32 D L B sizes fuel rd (name e)
          = Ok (case contents of None \<Rightarrow> [] | Some d \<Rightarrow> d, rd\<lparr>rd_source := f'\<rparr>))"
proof -
  obtain f rd items where f: "finish_archive E aw = Ok f" "archive_reader_new crc32 D L fuel parallelism f pw = Ok rd"
    and rd: "reader_of X crc32 ps L aw0 pushed aw pw items rd" and aw0: "w_content_methods aw0 = methods"
    using written_archive_opens [where parallelism = parallelism, OF D undone methods [unfolded E_def] pushed [unfolded E_def] files crcs fits]
    by (auto simp: E_def)
  obtain s rest where src: "cur_data (rd_source rd) = s @ concat (map (\<lambda>(d, c, ns). c) items) @ rest" "length s = 32"
    using rd by (auto simp: reader_of_def)
  have ne: "methods \<noteq> []" "length ps = length methods" using methods(1) by (auto simp: methods_ok_def dest: list_all2_lengthD)
  have "\<exists>f'. read_file crc32 D L B sizes fuel rd (name e) = Ok (case contents of None \<Rightarrow> [] | Some d \<Rightarrow> d, rd\<lparr>rd_source := f'\<rparr>)"
    if p: "(e, contents) \<in> set pushed" for e contents
  proof -
    from p obtain i where i: "i < length pushed" "pushed ! i = (e, contents)" by (auto simp: in_set_conv_nth)
    have small: "\<forall>d. contents = Some d \<longrightarrow> length d < fuel \<and> length d < 2 ^ 63"
      using pushed(3) p methods(7) by (auto simp: list_all_iff can_be_pushed_def)
    from read_pushed_file [where sizes = sizes and B = B and ?crc32.0 = crc32 and rd = rd and s = s and rest = rest
        and X = X and ps = ps and ?aw0.0 = aw0 and aw = aw and L = L, OF D _ _ _ _ _ _ _ _ refl src _ _ _ sizes i small]
    show ?thesis using rd undone(1) ne aw0 methods(5) by (auto simp: reader_of_def)
  qed
  with f show ?thesis by blast
qed

end
