(* ===== verification/Lifecycle_Properties.thy ===== *)
theory Lifecycle_Properties
  imports Codec_Properties Files_Lifecycle
begin

text \<open>
  The properties of whole archives: what is pushed, finished and opened again is read back.
\<close>

lemma demo_lzma_props: "codec_props demo_libs (config_new (EncoderMethod ''LZMA'' id_lzma)) = [0x5D, 0, 0, 0x80, 0]"
  by code_simp

lemma demo_lzma_starts: "starts (\<lambda>d c. c) (\<lambda>d c. True) (dc_lzma_new demo_decoders n p d) c c"
  by (auto simp: starts_def demo_decoders_def gives_def elim: answers.cases)

lemma demo_lzma_undone:
  "methods_undone demo_decoders demo_libs (\<lambda>d c. c) (\<lambda>d c. True) t pw demo_codecs (header_methods False ms) [((=), Lzma_encoder (Some ()))]"
proof -
  let ?mc = "config_new (EncoderMethod ''LZMA'' id_lzma)"
  have "encoder_method_id (written_coder demo_libs ?mc) = id_lzma" by (simp add: encoder_method_id_written config_new_def)
  moreover have "by_id id_lzma = Some (EncoderMethod ''LZMA'' id_lzma)" by code_simp
  ultimately have "coder_decodes demo_decoders demo_libs (\<lambda>d c. c) (\<lambda>d c. True) t (written_coder demo_libs ?mc) n c c" for n c
    by (simp add: coder_decodes_def Let_def properties_written demo_lzma_props demo_lzma_starts)
  then have "undoes demo_decoders demo_libs (\<lambda>d c. c) (\<lambda>d c. True) t False ?mc (encoder_code demo_codecs (=) (Lzma_encoder (Some ())))"
    by (simp add: undoes_def encoder_code_def)
  then show ?thesis by (simp add: methods_undone_def header_methods_def)
qed

lemma demo_swapped_undone':
  "methods_undone demo_decoders demo_libs (\<lambda>d c. c) (\<lambda>d c. True) t pw demo_codecs [stored, swapped] demo_encoders"
  by (simp add: methods_undone_def stored_def swapped_def config_new_def undoes_copy undoes_swap2)

lemma demo_header_methods_ok: "methods_ok demo_env (header_methods False ms) [((=), Lzma_encoder (Some ()))]"
proof -
  have "cd_new demo_codecs m opts = Ok ()" for m opts by (simp add: demo_codecs_def)
  then show ?thesis using demo_valid_encoder
    by (simp add: methods_ok_def header_methods_def add_encoder_def Let_def config_new_def method_ids)
qed

definition demo_bcj2 :: "unit bcj2_lib" where
  "demo_bcj2 = \<lparr>b2_new = (\<lambda>n size. ()), b2_read = (\<lambda>b n. Answered (Ok ([], b)))\<rparr>"

text \<open>A file of three bytes: \<open>a\<close>, or \<open>../a\<close>.\<close>

abbreviation demo_file :: "rstring \<Rightarrow> (archive_entry \<times> bytes option) list" where
  "demo_file nm \<equiv> [(new_file nm, Some [1, 2, 3])]"

abbreviation demo_pushed :: "(archive_entry \<times> bytes option) list" where
  "demo_pushed \<equiv> demo_file [97]"

definition demo_name :: "rstring \<Rightarrow> bool" where
  "demo_name nm \<longleftrightarrow> nm = [97] \<or> nm = [46, 46, 47, 97]"

lemma demo_names: "demo_name [97]" "demo_name [46, 46, 47, 97]"
  by (simp_all add: demo_name_def)

definition demo_written :: "rstring \<Rightarrow> bytes \<Rightarrow> cursor archive_writer" where
  "demo_written nm c = \<lparr>
     w_files = [(new_file nm)\<lparr>has_stream := True, entry_size := 3, crc := ucast (demo_crc [1, 2, 3]), has_crc := True,
                   compressed_crc := ucast (demo_crc c), compressed_size := of_nat (length c)\<rparr>],
     w_content_methods = [stored, swapped], w_pack_info = add_stream pack_info_default (of_nat (length c)) (demo_crc c),
     w_unpack_info = unpack_add [] [stored, swapped] [3, 3] (demo_crc [1, 2, 3]), w_encrypt_header = False, w_comment = None,
     w_output = \<lparr>cur_data = [], cur_pos = 35\<rparr>\<rparr>"

lemma length_write_sized: "length bs < 128 \<Longrightarrow> length (write_sized bs) = 1 + length bs"
  by (simp add: write_sized_def write_u64_small word_less_nat_alt unat_of_nat_u64)

lemma length_le_bytes: "length (write_u64_le x) = 8" "length (write_u32_le y) = 4" "length (write_u16_le z) = 2" "length (write_u8 b) = 1"
  by (simp_all add: write_u64_le_def write_u32_le_def write_u16_le_def write_u8_def)

lemma demo_codec_bytes: "length (write_single_codec demo_libs stored) = 2" "length (write_single_codec demo_libs swapped) = 3"
  "length (write_single_codec demo_libs (config_new (EncoderMethod ''LZMA'' id_lzma))) = 10"
  by code_simp+

lemma demo_header_length:
  "demo_name nm \<Longrightarrow> length (write_header demo_libs (demo_written nm [2, 1, 3])) < 100"
  unfolding demo_name_def
  by (elim disjE; simp add: write_header_def demo_written_def write_streams_info_def write_pack_info_def write_unpack_info_def write_block_def
     write_substreams_def add_stream_def unpack_add_def pack_info_default_def length_le_bytes demo_codec_bytes demo_crc_def crcs_of_block_def
     write_files_info_def write_file_empty_streams_def write_file_empty_files_def write_file_anti_items_def write_file_names_def
     write_file_ctimes_def write_file_atimes_def write_file_mtimes_def write_file_windows_attrs_def write_times_def new_file_def entry_default_def
     length_write_sized encode_utf16_def encode_char_def write_u64_small)

lemma demo_crc_nonzero: "length d < 1000 \<Longrightarrow> demo_crc d \<noteq> 0"
proof
  assume "length d < 1000" "demo_crc d = 0"
  then have "(of_nat (Suc (length d)) :: u32) = of_nat 0" by (simp add: demo_crc_def)
  with \<open>length d < 1000\<close> show False unfolding word_of_nat_eq_iff by (simp add: take_bit_nat_eq_self)
qed

lemma demo_encoded_length:
  assumes "length R < 100" and "length C < 100"
  shows "length (write_streams_info demo_libs
     (encoded_info demo_crc (header_methods False ms) p R C [length R] aw)) < 1000"
  using assms length_write_u64 [of p] demo_crc_nonzero [of C]
  by (simp add: write_streams_info_def encoded_info_fields write_pack_info_def write_unpack_info_def write_block_def coder_sizes_def
     write_substreams_def length_le_bytes demo_codec_bytes crcs_of_block_def write_u64_small header_methods_def
     word_less_nat_alt unat_of_nat_u64)

lemma write_header_output: "write_header L (aw\<lparr>w_output := x\<rparr>) = write_header L aw"
  by (simp add: write_header_def write_streams_info_def write_archive_properties_def)

lemma demo_push:
  "\<exists>aw0 aw. new_writer demo_env [stored, swapped] False = Ok aw0 \<and> push_all demo_env 20 (demo_file nm) aw0 = Ok aw
     \<and> cur_pos (w_output aw) = 35 \<and> aw\<lparr>w_output := w_output (demo_written nm [2, 1, 3])\<rparr> = demo_written nm [2, 1, 3]"
proof -
  let ?aw0 = "demo_writer\<lparr>w_encrypt_header := False\<rparr>"
  have new: "new_writer demo_env [stored, swapped] False = Ok ?aw0"
    using demo_writer_new by (auto simp: new_writer_def and_then_Ok_iff set_encrypt_header_def)
  have can: "can_push demo_env demo_encoders (cursor_took (replicate 32 0)) (cursor_took (replicate 32 0)) ?aw0"
    using demo_can_push by (simp add: can_push_def)
  obtain aw where aw: "push_archive_entry demo_env slice_read 20 ?aw0 (new_file nm) (Some [1, 2, 3]) = Ok aw"
    "entry_added demo_env demo_encoders (cursor_took (replicate 32 0)) ?aw0 (new_file nm) [1, 2, 3] aw"
    using slice.push_adds(1) [OF can, of "[1, 2, 3]" 20 "new_file nm"] by (auto simp: new_file_def entry_default_def)
  obtain c ns where c: "stack_code demo_codecs (rev demo_encoders) [1, 2, 3] c ns" "cursor_took (replicate 32 0) (w_output aw) c"
    and *: "w_files aw = w_files ?aw0 @ [(new_file nm)\<lparr>has_stream := True, entry_size := of_nat (length [1, 2, 3 :: u8]), crc := ucast (demo_crc [1, 2, 3]),
          has_crc := True, compressed_crc := ucast (demo_crc c), compressed_size := of_nat (length c)\<rparr>]"
      "w_pack_info aw = add_stream (w_pack_info ?aw0) (of_nat (length c)) (demo_crc c)"
      "w_unpack_info aw = unpack_add (w_unpack_info ?aw0) (w_content_methods ?aw0) (map of_nat (rev (butlast ns)) @ [of_nat (length [1, 2, 3 :: u8])]) (demo_crc [1, 2, 3])"
      "w_content_methods aw = w_content_methods ?aw0" "w_encrypt_header aw = w_encrypt_header ?aw0" "w_comment aw = w_comment ?aw0"
    using entry_added_fields [OF aw(2), unfolded memory_env_simps] by (elim exE conjE) (rule that; assumption)
  have c': "c = [2, 1, 3]" "ns = [3, 3]" using c(1) by (auto simp: encoder_code_def)
  have "aw\<lparr>w_output := w_output (demo_written nm [2, 1, 3])\<rparr> = demo_written nm [2, 1, 3]"
    using * by (cases aw) (simp add: demo_written_def demo_writer_def c')
  moreover have "cur_pos (w_output aw) = 35" using c(2) by (simp add: cursor_took_def c'(1))
  ultimately show ?thesis using new aw(1) by (simp add: push_all_def)
qed

lemma demo_archive:
  assumes "demo_name nm"
  shows "\<exists>aw0 aw. new_writer demo_env [stored, swapped] False = Ok aw0 \<and> push_all demo_env 20 (demo_file nm) aw0 = Ok aw
     \<and> list_all (\<lambda>c. c \<noteq> 0) (pi_crcs (w_pack_info aw)) \<and> files_ok (map plain_entry (demo_file nm))
     \<and> finish_fits demo_libs demo_codecs demo_crc [((=), Lzma_encoder (Some ()))] (cur_pos (w_output aw) - 32) aw
     \<and> list_all (codec_ok demo_libs) [stored, swapped] \<and> list_all (codec_ok demo_libs) (header_methods False [stored, swapped])
     \<and> length (header_methods False [stored, swapped]) < 20 \<and> list_all (can_be_pushed 20) (demo_file nm)"
proof -
  obtain aw0 aw where aw: "new_writer demo_env [stored, swapped] False = Ok aw0" "push_all demo_env 20 (demo_file nm) aw0 = Ok aw"
    "cur_pos (w_output aw) = 35" and written: "aw\<lparr>w_output := w_output (demo_written nm [2, 1, 3])\<rparr> = demo_written nm [2, 1, 3]"
    using demo_push by blast
  have R: "length (write_header demo_libs aw) < 100"
    using demo_header_length [OF assms] write_header_output [where L = demo_libs and aw = aw and x = "w_output (demo_written nm [2, 1, 3])"] written by simp
  have crcs: "list_all (\<lambda>c. c \<noteq> 0) (pi_crcs (w_pack_info aw))" and enc: "w_encrypt_header aw = False"
    using arg_cong [OF written, of w_pack_info] arg_cong [OF written, of w_encrypt_header]
    by (simp_all add: demo_written_def add_stream_def pack_info_default_def demo_crc_def)
  have fits: "finish_fits demo_libs demo_codecs demo_crc [((=), Lzma_encoder (Some ()))] (cur_pos (w_output aw) - 32) aw"
    using R demo_encoded_length [of "write_header demo_libs aw" "write_header demo_libs aw" "w_content_methods aw" 3 aw]
    by (auto simp: finish_fits_def header_parts_def Let_def enc encoder_code_def aw(3))
  have files: "files_ok (map plain_entry (demo_file nm))"
    using assms unfolding demo_name_def
    by (elim disjE; simp add: files_ok_def plain_entry_def name_ok_def names_bytes_def covered_def empties_def new_file_def entry_default_def
        valid_string_def is_scalar_def length_encode_name encode_utf16_def encode_char_def)
  have codecs: "list_all (codec_ok demo_libs) [stored, swapped]" "list_all (codec_ok demo_libs) (header_methods False [stored, swapped])"
    using demo_codec_ok by (simp_all add: header_methods_def codec_ok_def demo_lzma_props) (simp add: config_new_def id_lzma_def)
  show ?thesis using aw crcs files fits codecs
    by (intro exI [of _ aw0] exI [of _ aw]) (simp add: can_be_pushed_def new_file_def entry_default_def header_methods_def)
qed

section \<open>From the first push to the last read\<close>

text \<open>C1: the archive that was written is read back. Files and directories are pushed one by one to
  a new writer in memory, the writer is finished, and an \<open>ArchiveReader\<close> is opened on the file:
  then \<open>read_file\<close> gives for every name the contents that were pushed. The header may be plain or
  encoded, encrypted or not. The hypotheses: the decoders undo the encoders, the methods make
  encoders, names are distinct and well-formed, no packed CRC is 0, and the header fits its fields.\<close>

theorem archive_roundtrip:
  assumes "valid_decoder D out fine" and "block_cipher (dc_cbc D)"
    and "\<And>t. methods_undone D L out fine t pw X methods ps"
    and "methods_undone D L out fine 1 pw X (header_methods encrypt methods) hps"
    and "methods_ok (memory_env L X crc32) methods ps" and "methods_ok (memory_env L X crc32) (header_methods encrypt methods) hps"
    and "list_all (codec_ok L) methods" and "list_all (codec_ok L) (header_methods encrypt methods)"
    and "length methods < fuel" and "length (header_methods encrypt methods) < fuel" and "fuel < 2 ^ 63" and "8 < fuel"
    and "new_writer (memory_env L X crc32) methods encrypt = Ok aw0" and "push_all (memory_env L X crc32) fuel pushed aw0 = Ok aw"
    and "list_all (can_be_pushed fuel) pushed"
    and "files_ok (map plain_entry pushed)" and "distinct (map (\<lambda>p. name (fst p)) pushed)"
    and "list_all (\<lambda>c. c \<noteq> 0) (pi_crcs (w_pack_info aw))"
    and "finish_fits L X crc32 hps (cur_pos (w_output aw) - 32) aw"
    and "\<And>k. 0 < sizes k"
  shows "\<exists>f rd. finish_archive (memory_env L X crc32) aw = Ok f
     \<and> archive_reader_new crc32 D L fuel parallelism f pw = Ok rd
     \<and> (\<forall>(e, contents)\<in>set pushed. \<exists>f'. read_file crc32 D L B sizes fuel rd (name e)
          = Ok (case contents of None \<Rightarrow> [] | Some d \<Rightarrow> d, rd\<lparr>rd_source := f'\<rparr>))"
  by (rule written_archive_is_read [OF assms])

theorem archive_roundtrip_witness:
  "\<exists>aw f rd f'. and_then (new_writer demo_env [stored, swapped] False) (push_all demo_env 20 demo_pushed) = Ok aw
     \<and> finish_archive demo_env aw = Ok f \<and> archive_reader_new demo_crc demo_decoders demo_libs 20 None f [] = Ok rd
     \<and> read_file demo_crc demo_decoders demo_libs demo_bcj2 (\<lambda>k. 32) 20 rd [97] = Ok ([1, 2, 3], rd\<lparr>rd_source := f'\<rparr>)"
proof -
  obtain aw0 aw where aw: "new_writer demo_env [stored, swapped] False = Ok aw0" "push_all demo_env 20 demo_pushed aw0 = Ok aw"
    and fit: "list_all (\<lambda>c. c \<noteq> 0) (pi_crcs (w_pack_info aw))" "files_ok (map plain_entry demo_pushed)"
      "finish_fits demo_libs demo_codecs demo_crc [((=), Lzma_encoder (Some ()))] (cur_pos (w_output aw) - 32) aw"
      "list_all (codec_ok demo_libs) [stored, swapped]" "list_all (codec_ok demo_libs) (header_methods False [stored, swapped])"
      "length (header_methods False [stored, swapped]) < 20" "list_all (can_be_pushed 20) demo_pushed"
    using demo_archive [OF demo_names(1)] by (elim exE conjE) (rule that; assumption)
  from archive_roundtrip [where sizes = "\<lambda>k. 32" and parallelism = None and B = demo_bcj2, OF demo_valid_decoder demo_cipher demo_swapped_undone' demo_lzma_undone demo_methods_ok demo_header_methods_ok
      fit(4,5) _ fit(6) _ _ aw fit(7,2) _ fit(1,3)]
  show ?thesis using aw by (auto simp: new_file_def)
qed

text \<open>C21: pushing succeeds: whatever the portions in which encoders take their input and give their
  output, the functions that add files and directories return, and add them.\<close>

theorem pushes_succeed:
  assumes "methods_ok (memory_env L X crc32) methods ps" and "new_writer (memory_env L X crc32) methods encrypt = Ok aw0"
    and "list_all (can_be_pushed fuel) pushed"
  shows "\<exists>aw. push_all (memory_env L X crc32) fuel pushed aw0 = Ok aw \<and> list_all2 entry_like pushed (w_files aw)"
proof -
  have "methods \<noteq> []" using assms(1) by (simp add: methods_ok_def)
  note new = wrote_new_writer(1) [OF assms(2) this, where ps = ps] wrote_new_writer(2) [OF assms(2) this]
  from wrote_push_all [OF new(1), of L fuel pushed] assms(1,3) new(2) show ?thesis by (auto simp: wrote_def)
qed

theorem pushes_succeed_witness:
  "\<exists>aw0 aw. new_writer demo_env [stored, swapped] True = Ok aw0
     \<and> push_all demo_env 9 [(new_directory [98], None), (new_file [97], Some [1, 2])] aw0 = Ok aw \<and> length (w_files aw) = 2"
proof -
  have new: "new_writer demo_env [stored, swapped] True = Ok demo_writer"
    using demo_writer_new by (auto simp: new_writer_def and_then_Ok_iff set_encrypt_header_def demo_writer_def)
  have "list_all (can_be_pushed 9) [(new_directory [98], None), (new_file [97], Some [1, 2])]"
    by (simp add: can_be_pushed_def new_file_def entry_default_def)
  from pushes_succeed [OF demo_methods_ok new this] new show ?thesis by (auto dest: list_all2_lengthD)
qed

end
