(* ===== verification/Segmented_Writer.thy ===== *)
theory Segmented_Writer
  imports Finish_Layout
begin

text \<open>
  \<^verbatim>\<open>src/src/writer/segmented_writer.rs\<close>: an output that is cut into volumes of at most
  \<open>volume_size\<close> bytes, each in a file of its own, with \<open>create_multi_volume\<close> and
  \<open>finish_multi_volume\<close> of \<^verbatim>\<open>src/src/writer.rs\<close>. The file system is a map from paths to
  contents, a \<open>File\<close> is its path with the position in it, and is opened only by this writer.
  Operations of the file system succeed, except that a file that is not there cannot be opened;
  a write to a file takes the whole buffer.
\<close>

section \<open>Volumes\<close>

type_synonym disk = "rstring \<rightharpoonup> bytes"

record volume_config =
  vc_volume_size :: u64
  vc_base_path :: rstring

definition volume_config_new :: "rstring \<Rightarrow> u64 \<Rightarrow> volume_config" where
  "volume_config_new path n = \<lparr>vc_volume_size = n, vc_base_path = path\<rparr>"

text \<open>\<open>{:03}\<close> pads the decimal digits of a number to three.\<close>

definition padded_decimal :: "usize \<Rightarrow> nat \<Rightarrow> rstring" where
  "padded_decimal w n = replicate (w - length (decimal n)) 48 @ map of_char (decimal n)"

definition volume_path :: "volume_config \<Rightarrow> u32 \<Rightarrow> rstring" where
  "volume_path c n = vc_base_path c @ [46, 55, 122, 46] @ padded_decimal 3 (unat n)"

record segmented_writer =
  sg_config :: volume_config
  sg_current_volume :: u32
  sg_path :: rstring
  sg_pos :: nat
  sg_volume_bytes :: u64
  sg_total_bytes :: u64
  sg_boundaries :: "u64 list"
  sg_disk :: disk

definition file_create :: "segmented_writer \<Rightarrow> rstring \<Rightarrow> segmented_writer" where
  "file_create s path = s\<lparr>sg_path := path, sg_pos := 0, sg_disk := (sg_disk s)(path \<mapsto> [])\<rparr>"

definition file_open :: "segmented_writer \<Rightarrow> rstring \<Rightarrow> segmented_writer io_result" where
  "file_open s path =
     (if path \<in> dom (sg_disk s) then Ok (s\<lparr>sg_path := path, sg_pos := 0\<rparr>)
      else Err (Io_simple NotFound ''No such file or directory''))"

definition file_write :: "segmented_writer writing" where
  "file_write s buf =
     (case sg_disk s (sg_path s) of
        None \<Rightarrow> Err (Io_simple NotFound ''No such file or directory'')
      | Some data \<Rightarrow>
          and_then (cursor_write \<lparr>cur_data = data, cur_pos = sg_pos s\<rparr> buf) (\<lambda>(n, f).
          Ok (n, s\<lparr>sg_pos := cur_pos f, sg_disk := (sg_disk s)(sg_path s \<mapsto> cur_data f)\<rparr>)))"

section \<open>SegmentedWriter\<close>

definition segmented_new :: "disk \<Rightarrow> volume_config \<Rightarrow> segmented_writer io_result" where
  "segmented_new disk config =
     (let path = volume_path config 1 in
      Ok \<lparr>sg_config = config, sg_current_volume = 1, sg_path = path, sg_pos = 0, sg_volume_bytes = 0,
          sg_total_bytes = 0, sg_boundaries = [0], sg_disk = disk(path \<mapsto> [])\<rparr>)"

definition switch_to_next_volume :: "segmented_writer \<Rightarrow> segmented_writer io_result" where
  "switch_to_next_volume s =
     (let s = s\<lparr>sg_current_volume := sg_current_volume s + 1,
            sg_boundaries := sg_boundaries s @ [sg_total_bytes s]\<rparr>;
          s = file_create s (volume_path (sg_config s) (sg_current_volume s)) in
      Ok (s\<lparr>sg_volume_bytes := 0\<rparr>))"

text \<open>The call of \<open>write\<close> after the switch is recursive; one is enough for a volume size above 0.\<close>

fun segmented_write :: "nat \<Rightarrow> segmented_writer writing" where
  "segmented_write 0 s buf = OutOfFuel"
| "segmented_write (Suc fuel) s buf =
     (let size = vc_volume_size (sg_config s);
          remaining = (if sg_volume_bytes s \<le> size then size - sg_volume_bytes s else 0) in
      if remaining = 0 then and_then (switch_to_next_volume s) (\<lambda>s. segmented_write fuel s buf)
      else
        and_then (file_write s (take (min (length buf) (unat remaining)) buf)) (\<lambda>(written, s).
        Ok (written, s\<lparr>sg_volume_bytes := sg_volume_bytes s + of_nat written,
              sg_total_bytes := sg_total_bytes s + of_nat written\<rparr>)))"

definition segmented_flush :: "segmented_writer flushing" where
  "segmented_flush s = Ok s"

text \<open>\<open>iter().enumerate().rev().find(..)\<close>: the last boundary that is not behind the position.\<close>

definition target_volume :: "u64 list \<Rightarrow> u64 \<Rightarrow> u32" where
  "target_volume boundaries p =
     (case find (\<lambda>i. boundaries ! i \<le> p) (rev [0..<length boundaries]) of
        Some i \<Rightarrow> of_nat i + 1 | None \<Rightarrow> 1)"

definition segmented_seek_start :: "segmented_writer \<Rightarrow> u64 \<Rightarrow> segmented_writer io_result" where
  "segmented_seek_start s p =
     (let target = target_volume (sg_boundaries s) p in
      and_then (if target \<noteq> sg_current_volume s
                then and_then (file_open s (volume_path (sg_config s) target)) (\<lambda>s.
                     Ok (s\<lparr>sg_current_volume := target\<rparr>))
                else Ok s) (\<lambda>s.
      let i = unat (target - 1) in
      if length (sg_boundaries s) \<le> i then Panic
      else
        let offset = p - sg_boundaries s ! i in
        Ok (s\<lparr>sg_pos := unat offset, sg_volume_bytes := offset\<rparr>)))"

text \<open>The offset from the current position or the end is an \<open>i64\<close>, given by its bits.\<close>

definition saturating_add :: "u64 \<Rightarrow> u64 \<Rightarrow> u64" where
  "saturating_add a b = (if unat a + unat b < 2 ^ 64 then a + b else - 1)"

definition saturating_sub :: "u64 \<Rightarrow> u64 \<Rightarrow> u64" where
  "saturating_sub a b = (if b \<le> a then a - b else 0)"

definition saturating_offset :: "u64 \<Rightarrow> u64 \<Rightarrow> u64" where
  "saturating_offset p offset =
     (if 0 \<le> sint offset then saturating_add p offset else saturating_sub p (- offset))"

fun segmented_seek :: "segmented_writer \<Rightarrow> seek_from \<Rightarrow> segmented_writer io_result" where
  "segmented_seek s (SeekStart p) = segmented_seek_start s p"
| "segmented_seek s (SeekCurrent offset) =
     (let i = unat (sg_current_volume s - 1) in
      if length (sg_boundaries s) \<le> i then Panic
      else segmented_seek_start s (saturating_offset (sg_boundaries s ! i + sg_volume_bytes s) offset))"
| "segmented_seek s (SeekEnd offset) = segmented_seek_start s (saturating_offset (sg_total_bytes s) offset)"

definition segmented_position :: "segmented_writer \<Rightarrow> (u64 \<times> segmented_writer) io_result" where
  "segmented_position s =
     (let i = unat (sg_current_volume s - 1) in
      if length (sg_boundaries s) \<le> i then Panic
      else Ok (sg_boundaries s ! i + sg_volume_bytes s, s))"

definition get_first_volume :: "segmented_writer \<Rightarrow> (rstring \<times> nat) io_result" where
  "get_first_volume s =
     (let path = volume_path (sg_config s) 1 in
      if path \<in> dom (sg_disk s) then Ok (path, 0)
      else Err (Io_simple NotFound ''No such file or directory''))"

record volume_metadata =
  vm_volume_count :: u32
  vm_volume_boundaries :: "u64 list"
  vm_total_bytes :: u64
  vm_volume_paths :: "rstring list"

definition segmented_finish :: "segmented_writer \<Rightarrow> (volume_metadata \<times> disk) io_result" where
  "segmented_finish s =
     Ok (\<lparr>vm_volume_count = sg_current_volume s, vm_volume_boundaries = sg_boundaries s,
          vm_total_bytes = sg_total_bytes s,
          vm_volume_paths = map (\<lambda>n. volume_path (sg_config s) (of_nat n)) [1..<Suc (unat (sg_current_volume s))]\<rparr>,
         sg_disk s)"

section \<open>Archives of several volumes\<close>

definition segmented_out_ops :: "nat \<Rightarrow> segmented_writer out_ops" where
  "segmented_out_ops fuel =
     \<lparr>io_write = segmented_write fuel, io_flush = segmented_flush,
      out_write_all = write_all_default (segmented_write fuel),
      out_seek = segmented_seek_start, out_position = segmented_position\<rparr>"

definition segmented_env :: "nat \<Rightarrow> libs \<Rightarrow> 'e codecs \<Rightarrow> (bytes \<Rightarrow> u32) \<Rightarrow> ('e, segmented_writer) writer_env" where
  "segmented_env fuel L X crc32 =
     \<lparr>we_libs = L, we_codecs = X, we_crc32 = crc32, we_output = segmented_out_ops fuel\<rparr>"

definition create_multi_volume ::
    "('e, segmented_writer) writer_env \<Rightarrow> disk \<Rightarrow> volume_config \<Rightarrow> segmented_writer archive_writer result" where
  "create_multi_volume E disk config =
     and_then (map_err (\<lambda>e. Io e ''Failed to create segmented writer'') (segmented_new disk config))
       (archive_writer_new E)"

definition finish_multi_volume ::
    "('e, segmented_writer) writer_env \<Rightarrow> segmented_writer archive_writer \<Rightarrow> (volume_metadata \<times> disk) io_result" where
  "finish_multi_volume E aw =
     and_then (write_encoded_header E aw) (\<lambda>(header, aw).
     and_then (out_position (we_output E) (w_output aw)) (\<lambda>(header_pos, out).
     and_then (out_write_all (we_output E) out header) (\<lambda>out.
     and_then (out_seek (we_output E) out 0) (\<lambda>out.
     and_then (out_write_all (we_output E) out (write_start_header (we_crc32 E) header_pos header)) (\<lambda>out.
     and_then (io_flush (we_output E) out) segmented_finish)))))"

section \<open>Volumes have different paths\<close>

fun undecimal :: "nat \<Rightarrow> rstring \<Rightarrow> nat" where
  "undecimal acc [] = acc"
| "undecimal acc (d # ds) = undecimal (10 * acc + (d - 48)) ds"

lemma undecimal_append [simp]: "undecimal acc (xs @ ys) = undecimal (undecimal acc xs) ys"
  by (induction xs arbitrary: acc) auto

lemma undecimal_zeros [simp]: "undecimal 0 (replicate n 48) = 0"
  by (induction n) auto

lemma undecimal_decimal [simp]: "undecimal 0 (map of_char (decimal n)) = n"
proof (induction n rule: decimal.induct)
  case (1 n)
  then show ?case by (subst decimal.simps) auto
qed

lemma volume_path_eq [simp]: "volume_path c m = volume_path c n \<longleftrightarrow> m = n"
proof
  assume "volume_path c m = volume_path c n"
  then have "undecimal 0 (padded_decimal 3 (unat m)) = undecimal 0 (padded_decimal 3 (unat n))"
    by (simp add: volume_path_def)
  then show "m = n" by (simp add: padded_decimal_def word_unat_eq_iff)
qed simp

section \<open>Volumes hold the stream in order\<close>

text \<open>\<open>flat\<close> is the stream from the start of the first volume, \<open>pre\<close> the part of it that was
  skipped by a seek. The current volume is the one of index \<open>k\<close>, all before it are full. The
  boundaries count only what was written, so each is short by \<open>pre\<close>.\<close>

definition volumes_at :: "volume_config \<Rightarrow> disk \<Rightarrow> bytes \<Rightarrow> nat \<Rightarrow> segmented_writer \<Rightarrow> bytes \<Rightarrow> bool" where
  "volumes_at cfg disk pre k s d \<longleftrightarrow>
     (let flat = pre @ d; v = unat (vc_volume_size cfg) in
      k * v \<le> length flat \<and> length flat \<le> (k + 1) * v \<and> (d = [] \<longrightarrow> k = 0)
      \<and> sg_config s = cfg
      \<and> sg_current_volume s = of_nat (k + 1) \<and> sg_path s = volume_path cfg (of_nat (k + 1))
      \<and> sg_pos s = length flat - k * v \<and> sg_volume_bytes s = of_nat (length flat - k * v)
      \<and> sg_total_bytes s = of_nat (length d)
      \<and> sg_boundaries s = 0 # map (\<lambda>i. of_nat ((i + 1) * v - length pre)) [0..<k]
      \<and> (\<forall>i<k. sg_disk s (volume_path cfg (of_nat (i + 1))) = Some (take v (drop (i * v) flat)))
      \<and> sg_disk s (sg_path s) = Some (if d = [] then [] else drop (k * v) flat)
      \<and> (\<forall>p. (\<forall>i\<le>k. p \<noteq> volume_path cfg (of_nat (i + 1))) \<longrightarrow> sg_disk s p = disk p))"

definition volumes_fit :: "volume_config \<Rightarrow> nat \<Rightarrow> bool" where
  "volumes_fit cfg n \<longleftrightarrow> n < 2 ^ 64 \<and> n div unat (vc_volume_size cfg) + 2 < 2 ^ 32"

lemma volumes_fit_less: "volumes_fit cfg n \<Longrightarrow> m \<le> n \<Longrightarrow> volumes_fit cfg m"
  unfolding volumes_fit_def by (meson add_le_mono1 div_le_mono le_less_trans)

lemma of_nat_u32_eq: "i < 2 ^ 32 \<Longrightarrow> j < 2 ^ 32 \<Longrightarrow> (of_nat i :: u32) = of_nat j \<longleftrightarrow> i = j"
  by (simp add: word_of_nat_eq_iff take_bit_nat_eq_self)

lemma volumes_atD:
  assumes "volumes_at cfg disk pre k s d"
  shows "k * unat (vc_volume_size cfg) \<le> length (pre @ d)" "length (pre @ d) \<le> (k + 1) * unat (vc_volume_size cfg)"
    and "d = [] \<longrightarrow> k = 0" and "sg_config s = cfg" and "sg_current_volume s = of_nat (k + 1)"
    and "sg_path s = volume_path cfg (of_nat (k + 1))" and "sg_pos s = length (pre @ d) - k * unat (vc_volume_size cfg)"
    and "sg_volume_bytes s = of_nat (length (pre @ d) - k * unat (vc_volume_size cfg))"
    and "sg_total_bytes s = of_nat (length d)"
    and "sg_boundaries s = 0 # map (\<lambda>i. of_nat ((i + 1) * unat (vc_volume_size cfg) - length pre)) [0..<k]"
    and "\<And>i. i < k \<Longrightarrow> sg_disk s (volume_path cfg (of_nat (i + 1)))
        = Some (take (unat (vc_volume_size cfg)) (drop (i * unat (vc_volume_size cfg)) (pre @ d)))"
    and "sg_disk s (sg_path s) = Some (if d = [] then [] else drop (k * unat (vc_volume_size cfg)) (pre @ d))"
    and "\<And>p. (\<And>i. i \<le> k \<Longrightarrow> p \<noteq> volume_path cfg (of_nat (i + 1))) \<Longrightarrow> sg_disk s p = disk p"
  using assms unfolding volumes_at_def Let_def by blast+

lemma volumes_new:
  assumes "segmented_new disk cfg = Ok s" and "0 < vc_volume_size cfg"
  shows "volumes_at cfg disk [] 0 s []"
  using assms by (auto simp: segmented_new_def volumes_at_def Let_def)

text \<open>A volume that is full is left for the next one, which starts empty.\<close>

lemma volumes_switch:
  assumes at: "volumes_at cfg disk pre k s d" and full: "length (pre @ d) = (k + 1) * unat (vc_volume_size cfg)"
    and d: "d \<noteq> []" and fit: "k + 2 < 2 ^ 32"
  shows "\<exists>s'. switch_to_next_volume s = Ok s' \<and> volumes_at cfg disk pre (k + 1) s' d"
proof -
  let ?v = "unat (vc_volume_size cfg)"
  note at = volumes_atD [OF at]
  define s' where "s' = s\<lparr>sg_current_volume := of_nat (k + 1) + 1, sg_boundaries := sg_boundaries s @ [sg_total_bytes s],
     sg_path := volume_path cfg (of_nat (k + 1) + 1), sg_pos := 0, sg_volume_bytes := 0,
     sg_disk := (sg_disk s)(volume_path cfg (of_nat (k + 1) + 1) \<mapsto> [])\<rparr>"
  have sw: "switch_to_next_volume s = Ok s'"
    unfolding switch_to_next_volume_def file_create_def Let_def s'_def by (simp add: at(4,5))
  have two: "of_nat (k + 1) + 1 = (of_nat (k + 1 + 1) :: u32)" by simp
  have neq: "(of_nat (i + 1) :: u32) \<noteq> of_nat (k + 1 + 1)" if "i \<le> k" for i
    using of_nat_u32_eq [of "i + 1" "k + 1 + 1"] that fit by auto
  have disk: "sg_disk s' p = (if p = volume_path cfg (of_nat (k + 1 + 1)) then Some [] else sg_disk s p)" for p
    unfolding s'_def two by simp
  have "volumes_at cfg disk pre (k + 1) s' d"
    unfolding volumes_at_def Let_def
  proof (intro conjI allI impI)
    fix i assume i: "i < k + 1"
    show "sg_disk s' (volume_path cfg (of_nat (i + 1))) = Some (take ?v (drop (i * ?v) (pre @ d)))"
    proof (cases "i = k")
      case True
      have "length (drop (k * ?v) (pre @ d)) = ?v" using full by simp
      with at(12) d True neq [of k] show ?thesis unfolding disk volume_path_eq at(6) by simp
    next
      case False
      with i at(11) [of i] neq [of i] show ?thesis unfolding disk volume_path_eq by simp
    qed
  next
    fix p assume p: "\<forall>i\<le>k + 1. p \<noteq> volume_path cfg (of_nat (i + 1))"
    then have "p \<noteq> volume_path cfg (of_nat (k + 1 + 1))" by blast
    moreover have "sg_disk s p = disk p" by (rule at(13)) (use p in simp)
    ultimately show "sg_disk s' p = disk p" unfolding disk by simp
  next
    have "length d = (k + 1) * ?v - length pre" using full by simp
    then show "sg_boundaries s' = 0 # map (\<lambda>i. of_nat ((i + 1) * ?v - length pre)) [0..<k + 1]"
      unfolding s'_def by (simp add: at(9,10))
  next
    show "sg_disk s' (sg_path s') = Some (if d = [] then [] else drop ((k + 1) * ?v) (pre @ d))"
      using full d unfolding disk by (simp add: s'_def two)
  qed (use at full d in \<open>simp_all add: s'_def two\<close>)
  with sw show ?thesis by blast
qed

lemma segmented_write_here:
  "sg_volume_bytes s < vc_volume_size (sg_config s) \<Longrightarrow> segmented_write (Suc fuel) s buf =
     and_then (file_write s (take (min (length buf) (unat (vc_volume_size (sg_config s) - sg_volume_bytes s))) buf))
       (\<lambda>(written, s). Ok (written, s\<lparr>sg_volume_bytes := sg_volume_bytes s + of_nat written,
          sg_total_bytes := sg_total_bytes s + of_nat written\<rparr>))"
  by (auto simp: Let_def)

text \<open>A write into a volume that is not full takes what fits.\<close>

lemma volumes_write:
  fixes buf :: bytes
  assumes at: "volumes_at cfg disk pre k s d" and room: "length (pre @ d) < (k + 1) * unat (vc_volume_size cfg)"
    and pre: "pre = replicate (length pre) 0" and fit: "length (pre @ d) < 2 ^ 64" "k + 1 < 2 ^ 32"
  defines "n \<equiv> min (length buf) ((k + 1) * unat (vc_volume_size cfg) - length (pre @ d))"
  shows "\<exists>s'. segmented_write (Suc fuel) s buf = Ok (n, s') \<and> volumes_at cfg disk pre k s' (d @ take n buf)"
proof -
  let ?v = "unat (vc_volume_size cfg)" and ?x = "length (pre @ d) - k * unat (vc_volume_size cfg)"
  note at = volumes_atD [OF at]
  note kv = at(1) and vb = at(8) and cfg = at(4) and data = at(12) and pos = at(7) and dk = at(3) and path = at(6)
  have x: "?x < ?v" using room kv by (simp add: algebra_simps)
  moreover have "?v < 2 ^ 64" using unsigned_less [where ?'b = 64 and ?'a = nat, of "vc_volume_size cfg"] by simp
  ultimately have ux: "unat (of_nat ?x :: u64) = ?x" by (simp add: unsigned_of_nat take_bit_nat_eq_self)
  have le: "sg_volume_bytes s < vc_volume_size cfg" unfolding vb word_less_nat_alt ux using x by simp
  have rem: "unat (vc_volume_size cfg - sg_volume_bytes s) = (k + 1) * ?v - length (pre @ d)"
  proof -
    have "unat (sg_volume_bytes s) = ?x" by (simp only: vb ux)
    then have "unat (vc_volume_size cfg - sg_volume_bytes s) = ?v - ?x"
      using unat_sub [OF order_less_imp_le [OF le]] by simp
    then show ?thesis using kv by (simp add: algebra_simps)
  qed
  define s1 where "s1 = s\<lparr>sg_pos := ?x + n, sg_disk := (sg_disk s)(sg_path s \<mapsto>
     (if d @ take n buf = [] then [] else drop (k * ?v) (pre @ d @ take n buf)))\<rparr>"
  have n: "n \<le> length buf" by (simp add: n_def)
  have fw: "file_write s (take n buf) = Ok (n, s1)"
  proof (cases "take n buf = []")
    case True
    then have "n = 0" using n by auto
    then show ?thesis using data pos True unfolding file_write_def s1_def
      by (auto simp: cursor_write_def fun_upd_idem intro!: segmented_writer.equality)
  next
    case False
    show ?thesis
    proof (cases "d = []")
      case d0: True
      have "replicate (length pre) 0 = pre" using pre by simp
      then show ?thesis using data pos False dk d0 n unfolding file_write_def s1_def
        by (simp add: cursor_write_def)
    next
      case d1: False
      then show ?thesis using data pos False kv n unfolding file_write_def s1_def
        by (simp add: cursor_write_def)
    qed
  qed
  define s' where "s' = s1\<lparr>sg_volume_bytes := of_nat (?x + n), sg_total_bytes := of_nat (length d + n)\<rparr>"
  have w: "segmented_write (Suc fuel) s buf = Ok (n, s')"
    using fw unfolding segmented_write_here [OF le [folded cfg]] cfg rem n_def [symmetric]
    by (simp add: s'_def s1_def vb at(9))
  have neq: "(of_nat (i + 1) :: u32) \<noteq> of_nat (k + 1)" if "i < k" for i
    using of_nat_u32_eq [of "i + 1" "k + 1"] that fit by auto
  have "volumes_at cfg disk pre k s' (d @ take n buf)"
    unfolding volumes_at_def Let_def
  proof (intro conjI allI impI)
    show "k * ?v \<le> length (pre @ d @ take n buf)" using kv by simp
    show "length (pre @ d @ take n buf) \<le> (k + 1) * ?v" using room by (simp add: n_def)
    show "sg_pos s' = length (pre @ d @ take n buf) - k * ?v"
      and "sg_volume_bytes s' = of_nat (length (pre @ d @ take n buf) - k * ?v)"
      and "sg_total_bytes s' = of_nat (length (d @ take n buf))"
      using kv n by (simp_all add: s'_def s1_def)
    show "sg_disk s' (sg_path s') = Some (if d @ take n buf = [] then [] else drop (k * ?v) (pre @ d @ take n buf))"
      by (simp add: s'_def s1_def)
    fix i assume i: "i < k"
    then have "(i + 1) * ?v \<le> k * ?v" by (intro mult_right_mono) auto
    then have "(i + 1) * ?v \<le> length (pre @ d)" using kv by linarith
    then have "take ?v (drop (i * ?v) (pre @ d @ take n buf)) = take ?v (drop (i * ?v) (pre @ d))"
      unfolding append_assoc [symmetric] drop_append take_append by simp
    then show "sg_disk s' (volume_path cfg (of_nat (i + 1))) = Some (take ?v (drop (i * ?v) (pre @ d @ take n buf)))"
      using at(11) [OF i] neq [OF i] unfolding s'_def s1_def path by simp
  next
    fix p assume p: "\<forall>i\<le>k. p \<noteq> volume_path cfg (of_nat (i + 1))"
    have "sg_disk s p = disk p" by (rule at(13)) (use p in simp)
    with p show "sg_disk s' p = disk p" unfolding s'_def s1_def path by auto
  qed (use at in \<open>simp_all add: s'_def s1_def\<close>)
  with w show ?thesis by blast
qed

section \<open>A writer like any other\<close>

definition segmented_ready :: "segmented_writer \<Rightarrow> bool" where
  "segmented_ready s \<longleftrightarrow> 0 < vc_volume_size (sg_config s)
     \<and> sg_volume_bytes s \<le> vc_volume_size (sg_config s) \<and> sg_path s \<in> dom (sg_disk s)"

lemma file_write_takes:
  "sg_path s \<in> dom (sg_disk s) \<Longrightarrow> \<exists>s'. file_write s buf = Ok (length buf, s') \<and> sg_path s' \<in> dom (sg_disk s')
     \<and> sg_config s' = sg_config s \<and> sg_volume_bytes s' = sg_volume_bytes s"
  by (cases "buf = []") (auto simp: file_write_def cursor_write_def Let_def)

lemma ready_write_here:
  assumes "segmented_ready s" and "sg_volume_bytes s < vc_volume_size (sg_config s)"
  shows "\<exists>n s'. segmented_write (Suc fuel) s buf = Ok (n, s') \<and> n \<le> length buf \<and> (buf \<noteq> [] \<longrightarrow> 0 < n)
     \<and> segmented_ready s' \<and> sg_config s' = sg_config s"
proof -
  let ?room = "vc_volume_size (sg_config s) - sg_volume_bytes s"
  let ?n = "min (length buf) (unat ?room)"
  obtain s1 where w: "file_write s (take ?n buf) = Ok (?n, s1)" and s1: "sg_path s1 \<in> dom (sg_disk s1)"
    "sg_config s1 = sg_config s" "sg_volume_bytes s1 = sg_volume_bytes s"
    using file_write_takes [of s "take ?n buf"] assms(1) by (auto simp: segmented_ready_def simp del: take_take)
  have room: "?room \<noteq> 0" using assms(2) by auto
  then have pos: "0 < unat ?room" by (simp add: unat_gt_0)
  have "unat (of_nat ?n :: u64) = ?n"
    using unsigned_less [where ?'b = 64 and ?'a = nat, of ?room]
    by (simp add: unsigned_of_nat take_bit_nat_eq_self min.strict_coboundedI2)
  then have "of_nat ?n \<le> ?room" unfolding word_le_nat_alt by simp
  then have "sg_volume_bytes s + of_nat ?n \<le> vc_volume_size (sg_config s)"
    by (rule le_plus' [OF order_less_imp_le [OF assms(2)]])
  with w s1 pos assms(1) show ?thesis
    unfolding segmented_write_here [OF assms(2)] by (auto simp: segmented_ready_def)
qed

lemma ready_switch:
  "segmented_ready s \<Longrightarrow> \<exists>s'. switch_to_next_volume s = Ok s' \<and> segmented_ready s' \<and> sg_config s' = sg_config s
     \<and> sg_volume_bytes s' = 0"
  by (auto simp: switch_to_next_volume_def file_create_def segmented_ready_def Let_def)

lemma segmented_write_full:
  "sg_volume_bytes s = vc_volume_size (sg_config s) \<Longrightarrow> segmented_write (Suc fuel) s buf =
     and_then (switch_to_next_volume s) (\<lambda>s. segmented_write fuel s buf)"
  by simp

lemma ready_write:
  assumes "segmented_ready s"
  shows "\<exists>n s'. segmented_write (Suc (Suc fuel)) s buf = Ok (n, s') \<and> n \<le> length buf \<and> (buf \<noteq> [] \<longrightarrow> 0 < n)
     \<and> segmented_ready s' \<and> sg_config s' = sg_config s"
proof (cases "sg_volume_bytes s = vc_volume_size (sg_config s)")
  case True
  obtain s1 where s1: "switch_to_next_volume s = Ok s1" "segmented_ready s1" "sg_config s1 = sg_config s"
    "sg_volume_bytes s1 = 0" using ready_switch [OF assms] by blast
  then have "sg_volume_bytes s1 < vc_volume_size (sg_config s1)" by (simp add: segmented_ready_def)
  from ready_write_here [OF s1(2) this, of fuel buf] s1 show ?thesis
    unfolding segmented_write_full [OF True] by simp
next
  case False
  then have "sg_volume_bytes s < vc_volume_size (sg_config s)" using assms by (auto simp: segmented_ready_def)
  from ready_write_here [OF assms this] show ?thesis .
qed

text \<open>The writer was given \<open>d\<close>, and as long as their number is below \<open>2 ^ 32\<close> the volumes hold it.\<close>

definition segmented_took :: "volume_config \<Rightarrow> disk \<Rightarrow> bytes \<Rightarrow> segmented_writer \<Rightarrow> bytes \<Rightarrow> bool" where
  "segmented_took cfg disk pre s d \<longleftrightarrow> segmented_ready s \<and> sg_config s = cfg
     \<and> pre = replicate (length pre) 0 \<and> length pre < unat (vc_volume_size cfg)
     \<and> (volumes_fit cfg (length (pre @ d)) \<longrightarrow> (\<exists>k. volumes_at cfg disk pre k s d))"

lemma volumes_fit_index:
  assumes "volumes_fit cfg n" and "k * unat (vc_volume_size cfg) \<le> n" and "0 < unat (vc_volume_size cfg)"
  shows "k + 2 < 2 ^ 32"
proof -
  have "k \<le> n div unat (vc_volume_size cfg)" using assms(2,3) by (simp add: less_eq_div_iff_mult_less_eq)
  then show ?thesis using assms(1) by (simp add: volumes_fit_def)
qed

lemma volumes_write_any:
  assumes at: "volumes_at cfg disk pre k s d" and pre: "pre = replicate (length pre) 0"
    and v: "length pre < unat (vc_volume_size cfg)" and fit: "volumes_fit cfg (length (pre @ d))"
  shows "\<exists>n s' k'. segmented_write (Suc (Suc fuel)) s buf = Ok (n, s') \<and> volumes_at cfg disk pre k' s' (d @ take n buf)"
proof (cases "length (pre @ d) = (k + 1) * unat (vc_volume_size cfg)")
  case True
  note atD = volumes_atD [OF at]
  have k: "k + 2 < 2 ^ 32" by (rule volumes_fit_index [OF fit atD(1)]) (use v in simp)
  have d: "d \<noteq> []" using True v by auto
  obtain s1 where s1: "switch_to_next_volume s = Ok s1" "volumes_at cfg disk pre (k + 1) s1 d"
    using volumes_switch [OF at True d k] by blast
  have "sg_volume_bytes s = vc_volume_size (sg_config s)"
    unfolding atD(4,8) True by simp
  note full = segmented_write_full [OF this]
  have "length (pre @ d) < (k + 1 + 1) * unat (vc_volume_size cfg)" unfolding True using v by simp
  from volumes_write [OF s1(2) this pre, of fuel buf] fit k show ?thesis
    unfolding full s1(1) volumes_fit_def by auto
next
  case False
  note atD = volumes_atD [OF at]
  have k: "k + 2 < 2 ^ 32" by (rule volumes_fit_index [OF fit atD(1)]) (use v in simp)
  have "length (pre @ d) < (k + 1) * unat (vc_volume_size cfg)" using False atD(2) by linarith
  from volumes_write [OF at this pre, of "Suc fuel" buf] fit k show ?thesis
    unfolding volumes_fit_def by (auto simp del: segmented_write.simps)
qed

lemma segmented_took_write:
  assumes "segmented_took cfg disk pre s d"
  shows "\<exists>n s'. segmented_write (Suc (Suc fuel)) s buf = Ok (n, s') \<and> n \<le> length buf \<and> (buf \<noteq> [] \<longrightarrow> 0 < n)
     \<and> segmented_took cfg disk pre s' (d @ take n buf)"
proof -
  note took = assms [unfolded segmented_took_def]
  obtain n s' where w: "segmented_write (Suc (Suc fuel)) s buf = Ok (n, s')" "n \<le> length buf" "buf \<noteq> [] \<longrightarrow> 0 < n"
    "segmented_ready s'" "sg_config s' = sg_config s"
    using ready_write [of s fuel buf] took by blast
  have "\<exists>k. volumes_at cfg disk pre k s' (d @ take n buf)" if "volumes_fit cfg (length (pre @ d @ take n buf))"
  proof -
    have fit: "volumes_fit cfg (length (pre @ d))" by (rule volumes_fit_less [OF that]) simp
    with took obtain k where "volumes_at cfg disk pre k s d" by blast
    from volumes_write_any [OF this _ _ fit, of fuel buf] took w(1) show ?thesis by force
  qed
  with w took show ?thesis unfolding segmented_took_def by auto
qed

lemma segmented_finishing:
  "finishing_sink (segmented_write (Suc (Suc fuel))) (write_all_default (segmented_write (Suc (Suc fuel))))
     segmented_flush (segmented_took cfg disk pre) (segmented_took cfg disk pre)"
proof (rule finishing_sinkI)
  fix s d and buf :: bytes
  assume took: "segmented_took cfg disk pre s d" and more: "buf \<noteq> []"
  from segmented_took_write [OF took, of fuel buf] more
  show "\<exists>n s'. segmented_write (Suc (Suc fuel)) s buf = Ok (n, s') \<and> 0 < n \<and> n \<le> length buf
      \<and> segmented_took cfg disk pre s' (d @ take n buf)" by blast
next
  fix s d
  assume took: "segmented_took cfg disk pre s d"
  then show "\<exists>s'. segmented_flush s = Ok s' \<and> segmented_took cfg disk pre s' d" by (simp add: segmented_flush_def)
  from segmented_took_write [OF took, of fuel "[]"]
  show "\<exists>s'. segmented_write (Suc (Suc fuel)) s [] = Ok (0, s') \<and> segmented_took cfg disk pre s' d" by auto
qed

interpretation volumes: finishing_sink "segmented_write (Suc (Suc fuel))"
  "write_all_default (segmented_write (Suc (Suc fuel)))" segmented_flush "segmented_took cfg disk pre" "segmented_took cfg disk pre"
  for fuel cfg disk pre
  by (rule segmented_finishing)

section \<open>Positions\<close>

text \<open>The writer stands at the end of the stream, but takes its position from the boundaries, which
  do not count what was skipped: in every volume but the first it is short by that much.\<close>

lemma volumes_position:
  assumes "volumes_at cfg disk pre k s d" and "volumes_fit cfg (length (pre @ d))" and "length pre < unat (vc_volume_size cfg)"
  shows "segmented_position s = Ok (of_nat (if k = 0 then length (pre @ d) else length d), s)"
proof -
  note at = volumes_atD [OF assms(1)]
  have k: "k + 2 < 2 ^ 32" by (rule volumes_fit_index [OF assms(2) at(1)]) (use assms(3) in simp)
  have i: "unat (sg_current_volume s - 1) = k"
    using k by (simp add: at(5) unsigned_of_nat take_bit_nat_eq_self)
  show ?thesis
  proof (cases k)
    case 0
    then show ?thesis using i at(1) by (simp add: segmented_position_def at(8,10) Let_def)
  next
    case (Suc j)
    have "(j + 1) * unat (vc_volume_size cfg) - length pre + (length (pre @ d) - k * unat (vc_volume_size cfg)) = length d"
      using at(1) assms(3) Suc by (simp add: algebra_simps)
    then have "of_nat ((j + 1) * unat (vc_volume_size cfg) - length pre)
       + of_nat (length (pre @ d) - k * unat (vc_volume_size cfg)) = (of_nat (length d) :: u64)"
      by (metis of_nat_add)
    moreover have "sg_boundaries s ! k = of_nat ((j + 1) * unat (vc_volume_size cfg) - length pre)"
      unfolding at(10) Suc by (simp del: upt_Suc)
    moreover have "k < length (sg_boundaries s)" by (simp add: at(10))
    ultimately show ?thesis using Suc i by (simp add: segmented_position_def at(8) Let_def del: of_nat_diff)
  qed
qed

text \<open>The first write of an archive leaves room for the start header.\<close>

lemma volumes_skip:
  assumes s: "segmented_new disk cfg = Ok s" and p: "unat p < unat (vc_volume_size cfg)"
  shows "\<exists>s'. segmented_seek_start s p = Ok s' \<and> segmented_took cfg disk (replicate (unat p) 0) s' []"
proof -
  have s_eq: "s = \<lparr>sg_config = cfg, sg_current_volume = 1, sg_path = volume_path cfg 1, sg_pos = 0, sg_volume_bytes = 0,
          sg_total_bytes = 0, sg_boundaries = [0], sg_disk = disk(volume_path cfg 1 \<mapsto> [])\<rparr>"
    using s by (simp add: segmented_new_def Let_def)
  have "segmented_seek_start s p = Ok (s\<lparr>sg_pos := unat p, sg_volume_bytes := p\<rparr>)"
    unfolding segmented_seek_start_def target_volume_def Let_def by (simp add: s_eq)
  moreover have "segmented_took cfg disk (replicate (unat p) 0) (s\<lparr>sg_pos := unat p, sg_volume_bytes := p\<rparr>) []"
    using p unfolding segmented_took_def
    by (auto simp: s_eq volumes_at_def Let_def segmented_ready_def word_le_nat_alt word_gt_0
        unat_gt_0 [symmetric] intro!: exI [of _ 0])
  ultimately show ?thesis by blast
qed

lemma find_behind: "(\<And>x. x \<in> set xs \<Longrightarrow> \<not> P x) \<Longrightarrow> P y \<Longrightarrow> find P (xs @ [y]) = Some y"
  by (induction xs) auto

text \<open>Going back to the start opens the first volume.\<close>

lemma volumes_rewind:
  assumes at: "volumes_at cfg disk pre k s d" and fit: "volumes_fit cfg (length (pre @ d))"
    and v: "length pre < unat (vc_volume_size cfg)" and d: "d \<noteq> []"
  shows "\<exists>s'. segmented_seek_start s 0 = Ok s' \<and> sg_config s' = cfg \<and> sg_current_volume s' = 1
     \<and> sg_path s' = volume_path cfg 1 \<and> sg_pos s' = 0 \<and> sg_volume_bytes s' = 0 \<and> sg_disk s' = sg_disk s
     \<and> sg_boundaries s' = sg_boundaries s \<and> sg_total_bytes s' = sg_total_bytes s"
proof -
  note at = volumes_atD [OF at]
  have k: "k + 2 < 2 ^ 32" by (rule volumes_fit_index [OF fit at(1)]) (use v in simp)
  have later: "\<not> sg_boundaries s ! i \<le> 0" if "i \<in> set (rev [1..<Suc k])" for i
  proof -
    have "1 \<le> i" "i < Suc k" using that by (simp_all del: upt_Suc)
    then obtain j where j: "i = Suc j" "j < k" by (cases i) auto
    have "(j + 1) * unat (vc_volume_size cfg) \<le> k * unat (vc_volume_size cfg)" using j(2) by (intro mult_right_mono) auto
    with at(1) fit have "(j + 1) * unat (vc_volume_size cfg) < 2 ^ 64" by (simp add: volumes_fit_def)
    then have "unat (of_nat ((j + 1) * unat (vc_volume_size cfg) - length pre) :: u64)
        = (j + 1) * unat (vc_volume_size cfg) - length pre"
      by (simp add: unsigned_of_nat take_bit_nat_eq_self del: of_nat_diff)
    moreover have "0 < (j + 1) * unat (vc_volume_size cfg) - length pre" using v by simp
    ultimately have "of_nat ((j + 1) * unat (vc_volume_size cfg) - length pre) \<noteq> (0 :: u64)"
      by (metis less_irrefl unsigned_0)
    then show ?thesis unfolding at(10) j(1) using j(2) by (simp del: of_nat_diff upt_Suc)
  qed
  have "[0..<length (sg_boundaries s)] = 0 # [1..<Suc k]" by (simp add: at(10) upt_conv_Cons del: upt_Suc)
  then have "find (\<lambda>i. sg_boundaries s ! i \<le> 0) (rev [0..<length (sg_boundaries s)]) = Some 0"
    using later at(10) by (simp add: find_behind del: upt_Suc set_rev)
  then have target: "target_volume (sg_boundaries s) 0 = 1" by (simp add: target_volume_def)
  show ?thesis
  proof (cases "k = 0")
    case True
    then have "sg_current_volume s = 1" "sg_path s = volume_path cfg 1" by (simp_all add: at(5,6))
    with at(10,4) show ?thesis unfolding segmented_seek_start_def target Let_def by simp
  next
    case False
    have "sg_current_volume s \<noteq> 1" using of_nat_u32_eq [of "k + 1" 1] k False at(5) by simp
    moreover have "volume_path cfg 1 \<in> dom (sg_disk s)" using at(11) [of 0] False by auto
    ultimately show ?thesis unfolding segmented_seek_start_def target Let_def file_open_def
      by (simp add: at(4,10))
  qed
qed

section \<open>What the volumes hold\<close>

text \<open>The volumes up to the one of index \<open>k\<close> are the pieces of the stream \<open>flat\<close>.\<close>

definition volumes_hold :: "volume_config \<Rightarrow> disk \<Rightarrow> nat \<Rightarrow> bytes \<Rightarrow> bool" where
  "volumes_hold cfg disk k flat \<longleftrightarrow>
     (let v = unat (vc_volume_size cfg) in
      k * v \<le> length flat \<and> length flat \<le> (k + 1) * v
      \<and> (\<forall>i\<le>k. disk (volume_path cfg (of_nat (i + 1))) = Some (take v (drop (i * v) flat))))"

lemma volumes_hold_concat:
  assumes "volumes_hold cfg disk k flat"
  shows "concat (map (\<lambda>i. the (disk (volume_path cfg (of_nat (i + 1))))) [0..<Suc k]) = flat"
proof -
  let ?v = "unat (vc_volume_size cfg)"
  have pieces: "concat (map (\<lambda>i. take ?v (drop (i * ?v) flat)) [0..<j]) = take (j * ?v) flat" for j
    by (induction j) (simp_all add: take_add [symmetric] add.commute)
  have eq: "map (\<lambda>i. the (disk (volume_path cfg (of_nat (i + 1))))) [0..<Suc k]
      = map (\<lambda>i. take ?v (drop (i * ?v) flat)) [0..<Suc k]"
    using assms by (intro map_cong refl) (auto simp: volumes_hold_def Let_def simp del: upt_Suc)
  show ?thesis unfolding eq pieces using assms by (simp add: volumes_hold_def Let_def del: upt_Suc)
qed

lemma volumes_at_hold:
  assumes "volumes_at cfg disk pre k s d" and "d \<noteq> []"
  shows "volumes_hold cfg (sg_disk s) k (pre @ d)"
  unfolding volumes_hold_def Let_def
proof (intro conjI allI impI)
  note at = volumes_atD [OF assms(1)]
  fix i assume "i \<le> k"
  then show "sg_disk s (volume_path cfg (of_nat (i + 1))) =
      Some (take (unat (vc_volume_size cfg)) (drop (i * unat (vc_volume_size cfg)) (pre @ d)))"
    using at(11) [of i] at(12) at(2) assms(2) unfolding at(6) by (cases "i = k") (simp_all add: algebra_simps)
qed (use volumes_atD [OF assms(1)] in blast)+

text \<open>The start header replaces the first bytes of the first volume.\<close>

lemma volumes_start:
  assumes hold: "volumes_hold cfg (sg_disk s) k (pre @ d)" and h: "length h = length pre" "h \<noteq> []"
    and v: "length pre < unat (vc_volume_size cfg)" and k: "k + 2 < 2 ^ 32"
    and s: "sg_config s = cfg" "sg_path s = volume_path cfg 1" "sg_pos s = 0" "sg_volume_bytes s = 0"
  shows "\<exists>s'. write_all_default (segmented_write (Suc fuel)) s h = Ok s' \<and> volumes_hold cfg (sg_disk s') k (h @ d)
     \<and> sg_config s' = cfg \<and> sg_current_volume s' = sg_current_volume s \<and> sg_boundaries s' = sg_boundaries s
     \<and> sg_total_bytes s' = sg_total_bytes s + of_nat (length h)"
proof -
  let ?v = "unat (vc_volume_size cfg)"
  have first: "sg_disk s (sg_path s) = Some (take ?v (pre @ d))"
    using hold by (auto simp: volumes_hold_def Let_def s(2) dest: spec [of _ 0])
  define s' where "s' = s\<lparr>sg_pos := length h, sg_disk := (sg_disk s)(sg_path s \<mapsto> take ?v (h @ d)),
     sg_volume_bytes := of_nat (length h), sg_total_bytes := sg_total_bytes s + of_nat (length h)\<rparr>"
  have "0 < ?v" using v by linarith
  then have "sg_volume_bytes s < vc_volume_size (sg_config s)" by (simp add: s word_less_nat_alt)
  note here = segmented_write_here [OF this]
  have "segmented_write (Suc fuel) s h = Ok (length h, s')"
    using first v h unfolding here s s'_def
    by (simp add: file_write_def cursor_write_def s min_def)
  then have w: "write_all_default (segmented_write (Suc fuel)) s h = Ok s'"
    using h(2) by (simp add: write_all_default.simps)
  have "volumes_hold cfg (sg_disk s') k (h @ d)"
    unfolding volumes_hold_def Let_def
  proof (intro conjI allI impI)
    fix i assume i: "i \<le> k"
    show "sg_disk s' (volume_path cfg (of_nat (i + 1))) = Some (take ?v (drop (i * ?v) (h @ d)))"
    proof (cases i)
      case 0
      then show ?thesis by (simp add: s'_def s(2))
    next
      case (Suc j)
      then have ne: "(of_nat (i + 1) :: u32) \<noteq> 1" using of_nat_u32_eq [of "i + 1" 1] i k by simp
      have "length pre \<le> i * ?v" using Suc v by simp
      then have "drop (i * ?v) (h @ d) = drop (i * ?v) (pre @ d)" using h(1) by simp
      moreover have "sg_disk s' (volume_path cfg (of_nat (i + 1))) = sg_disk s (volume_path cfg (of_nat (i + 1)))"
        using ne unfolding s'_def s(2) by (simp del: of_nat_Suc of_nat_add)
      ultimately show ?thesis using hold i unfolding volumes_hold_def Let_def by simp
    qed
  qed (use hold h in \<open>simp_all add: volumes_hold_def Let_def\<close>)
  with w show ?thesis by (auto simp: s'_def s)
qed

section \<open>Finishing\<close>

lemma segmented_env_simps [simp]:
  "we_libs (segmented_env n L X crc32) = L" "we_codecs (segmented_env n L X crc32) = X"
  "we_crc32 (segmented_env n L X crc32) = crc32" "we_output (segmented_env n L X crc32) = segmented_out_ops n"
  "io_write (segmented_out_ops n) = segmented_write n" "io_flush (segmented_out_ops n) = segmented_flush"
  "out_write_all (segmented_out_ops n) = write_all_default (segmented_write n)"
  "out_seek (segmented_out_ops n) = segmented_seek_start" "out_position (segmented_out_ops n) = segmented_position"
  by (simp_all add: segmented_env_def segmented_out_ops_def)

text \<open>The number of bytes before what was written last, as the writer reports it: in a later volume
  it lacks the start header.\<close>

definition reported_position :: "volume_config \<Rightarrow> nat \<Rightarrow> nat \<Rightarrow> nat" where
  "reported_position cfg k n = (if k = 0 then 32 + n else n)"

lemma finish_volumes:
  fixes X :: "'e codecs" and L crc32 fuel
  defines "E \<equiv> segmented_env (Suc (Suc fuel)) L X crc32"
  assumes ok: "methods_ok E (header_methods (w_encrypt_header aw) (w_content_methods aw)) ps"
    and at: "volumes_at cfg disk (replicate 32 0) k (w_output aw) d" and took: "segmented_took cfg disk (replicate 32 0) (w_output aw) d"
    and fits: "header_fits L X ps aw" and fit: "volumes_fit cfg (32 + length d)"
  shows "\<exists>c header s k'. write_encoded_header E aw = Ok (header, s)
     \<and> header_parts L X crc32 ps (unat (of_nat (reported_position cfg k (length d)) - of_nat signature_header_size :: u64)) aw c header
     \<and> header_bytes L X crc32 (of_nat (reported_position cfg k (length d))) aw = Ok (c, header)
     \<and> (volumes_fit cfg (32 + length (d @ c @ header)) \<longrightarrow> (\<exists>k'' meta disk'.
          volumes_at cfg disk (replicate 32 0) k' (w_output s) (d @ c)
        \<and> finish_multi_volume E aw = Ok (meta, disk')
        \<and> volumes_hold cfg disk' k'' (write_start_header crc32 (of_nat (reported_position cfg k' (length (d @ c)))) header @ d @ c @ header)
        \<and> vm_volume_count meta = 1 \<and> vm_volume_paths meta = [volume_path cfg 1]))"
proof -
  let ?z = "replicate 32 0 :: bytes"
  let ?p = "of_nat (reported_position cfg k (length d)) :: u64"
  let ?W = "segmented_write (Suc (Suc fuel))"
  have v: "length ?z < unat (vc_volume_size cfg)" using took unfolding segmented_took_def by blast
  have pos: "out_position (we_output E) (w_output aw) = Ok (?p, w_output aw)"
    using volumes_position [OF at _ v] fit by (simp add: E_def reported_position_def)
  have takes: "\<exists>w'. out_write_all (we_output E) w buf = Ok w' \<and> segmented_took cfg disk ?z w' (d @ buf)"
    if "segmented_took cfg disk ?z w d" for w d buf
    using volumes.write_every [OF that] by (simp add: E_def)
  have "header_fits (we_libs E) (we_codecs E) ps aw" using fits by (simp add: E_def)
  from write_encoded_header_bytes [where took = "segmented_took cfg disk ?z", OF ok took takes pos this]
  obtain c header aw' where h: "write_encoded_header E aw = Ok (header, aw')" "segmented_took cfg disk ?z (w_output aw') (d @ c)"
    "header_parts L X crc32 ps (unat (?p - of_nat signature_header_size)) aw c header"
    "header_bytes L X crc32 ?p aw = Ok (c, header)"
    by (auto simp: E_def)
  have ne: "header \<noteq> []" using h(3) by (auto simp: header_parts_def Let_def write_header_def write_u8_def)
  have rest: "\<exists>k'' meta disk'. finish_multi_volume E aw = Ok (meta, disk')
        \<and> volumes_hold cfg disk' k'' (write_start_header crc32 (of_nat (reported_position cfg k' (length (d @ c)))) header @ d @ c @ header)
        \<and> vm_volume_count meta = 1 \<and> vm_volume_paths meta = [volume_path cfg 1]"
    if all: "volumes_fit cfg (32 + length (d @ c @ header))" and k': "volumes_at cfg disk ?z k' (w_output aw') (d @ c)" for k'
  proof -
    let ?q = "of_nat (reported_position cfg k' (length (d @ c))) :: u64"
    have fit': "volumes_fit cfg (length (?z @ d @ c))" by (rule volumes_fit_less [OF all]) simp
    have fit'': "volumes_fit cfg (length (?z @ (d @ c) @ header))" using all by simp
    have p': "out_position (we_output E) (w_output aw') = Ok (?q, w_output aw')"
      using volumes_position [OF k' fit' v] by (simp add: E_def reported_position_def)
    obtain s1 where s1: "write_all_default ?W (w_output aw') header = Ok s1" "segmented_took cfg disk ?z s1 ((d @ c) @ header)"
      using volumes.write_every [OF h(2)] by blast
    obtain k'' where k'': "volumes_at cfg disk ?z k'' s1 ((d @ c) @ header)"
      using s1(2) fit'' unfolding segmented_took_def append_assoc by blast
    have dh: "(d @ c) @ header \<noteq> []" using ne by simp
    note hold = volumes_at_hold [OF k'' dh]
    obtain s2 where s2: "segmented_seek_start s1 0 = Ok s2" "sg_config s2 = cfg" "sg_current_volume s2 = 1"
      "sg_path s2 = volume_path cfg 1" "sg_pos s2 = 0" "sg_volume_bytes s2 = 0" "sg_disk s2 = sg_disk s1"
      using volumes_rewind [OF k'' fit'' v dh] by blast
    let ?h = "write_start_header crc32 ?q header"
    have lh: "length ?h = length ?z" "?h \<noteq> []" using length_start_header [of crc32 ?q header] by auto
    have kk: "k'' + 2 < 2 ^ 32"
      by (rule volumes_fit_index [OF fit'' volumes_atD(1) [OF k'']]) (use v in simp)
    from volumes_start [OF hold [folded s2(7)] lh v kk s2(2,4,5,6), of "Suc fuel"] obtain s3 where
      s3: "write_all_default ?W s2 ?h = Ok s3" "volumes_hold cfg (sg_disk s3) k'' (?h @ (d @ c) @ header)"
        "sg_config s3 = cfg" "sg_current_volume s3 = 1" using s2(3) by auto
    have "finish_multi_volume E aw = and_then (segmented_flush s3) segmented_finish"
      unfolding finish_multi_volume_def h(1) and_then.simps prod.case p' using s1(1) s2(1) s3(1) by (simp add: E_def)
    then show ?thesis using s3 by (auto simp: segmented_flush_def segmented_finish_def)
  qed
  have "\<exists>k'. volumes_fit cfg (32 + length (d @ c @ header)) \<longrightarrow> volumes_at cfg disk ?z k' (w_output aw') (d @ c)"
    using h(2) volumes_fit_less [of cfg "32 + length (d @ c @ header)" "32 + length (d @ c)"]
    unfolding segmented_took_def by auto
  then obtain k' where "volumes_fit cfg (32 + length (d @ c @ header)) \<longrightarrow> volumes_at cfg disk ?z k' (w_output aw') (d @ c)" ..
  with h rest show ?thesis by blast
qed

text \<open>A volume of no bytes is started again and again.\<close>

lemma empty_volumes_loop: "vc_volume_size (sg_config s) = 0 \<Longrightarrow> segmented_write fuel s buf = OutOfFuel"
  by (induction fuel arbitrary: s) (simp_all add: switch_to_next_volume_def file_create_def Let_def)

end
