(* ===== verification/Volume_Properties.thy ===== *)
theory Volume_Properties
  imports Segmented_Writer Lifecycle_Properties
begin

text \<open>
  The properties of archives of several volumes: what is written to a \<open>SegmentedWriter\<close> can be
  read from its volumes; an archive that stays in one volume is the archive that \<open>finish\<close>
  writes; and one that does not is given a start header that points 32 bytes before its header.
\<close>

text \<open>C28: what is written to a new \<open>SegmentedWriter\<close>, in pieces of any length, is in its volumes in
  order: every volume but the last has exactly the configured size, the boundaries that \<open>finish\<close>
  reports are its multiples, the count and the paths are those of the volumes, and no other file
  of the disk has changed. The hypothesis is that there are less than \<open>2 ^ 32\<close> volumes.\<close>

theorem volumes_hold_stream:
  assumes "segmented_new disk cfg = Ok s" and "0 < vc_volume_size cfg"
    and "concat ps \<noteq> []" and "volumes_fit cfg (length (concat ps))"
  shows "\<exists>s' k meta disk'.
       for_each (\<lambda>p s. write_all_default (segmented_write (Suc (Suc fuel))) s p) ps s = Ok s'
     \<and> segmented_finish s' = Ok (meta, disk') \<and> vm_total_bytes meta = of_nat (length (concat ps))
     \<and> vm_volume_boundaries meta = map (\<lambda>i. of_nat (i * unat (vc_volume_size cfg))) [0..<Suc k]
     \<and> vm_volume_paths meta = map (\<lambda>i. volume_path cfg (of_nat (i + 1))) [0..<Suc k]
     \<and> concat (map (\<lambda>path. the (disk' path)) (vm_volume_paths meta)) = concat ps
     \<and> (\<forall>i<k. length (the (disk' (vm_volume_paths meta ! i))) = unat (vc_volume_size cfg))
     \<and> (\<forall>path. path \<notin> set (vm_volume_paths meta) \<longrightarrow> disk' path = disk path)"
proof -
  let ?v = "unat (vc_volume_size cfg)"
  have v: "0 < ?v" using assms(2) by (simp add: unat_gt_0 word_gt_0)
  have "segmented_ready s" using assms(1,2) by (auto simp: segmented_new_def segmented_ready_def Let_def)
  then have "segmented_took cfg disk [] s []"
    using volumes_new [OF assms(1,2)] assms(1) v by (auto simp: segmented_took_def segmented_new_def Let_def)
  from volumes.write_pieces [OF this, where ps = ps and fuel = fuel] obtain s' where
    s': "for_each (\<lambda>p s. write_all_default (segmented_write (Suc (Suc fuel))) s p) ps s = Ok s'"
    "segmented_took cfg disk [] s' (concat ps)" by auto
  then obtain k where k: "volumes_at cfg disk [] k s' (concat ps)"
    using assms(4) unfolding segmented_took_def append_Nil by blast
  note at = volumes_atD [OF k, unfolded append_Nil list.size]
  have hold: "volumes_hold cfg (sg_disk s') k (concat ps)" using volumes_at_hold [OF k assms(3)] by simp
  have kk: "k + 2 < 2 ^ 32" by (rule volumes_fit_index [OF assms(4) at(1) v])
  have count: "unat (sg_current_volume s') = Suc k"
    using kk by (simp add: at(5) unsigned_of_nat take_bit_nat_eq_self del: of_nat_Suc of_nat_add)
  define meta where "meta = \<lparr>vm_volume_count = sg_current_volume s', vm_volume_boundaries = sg_boundaries s',
          vm_total_bytes = sg_total_bytes s',
          vm_volume_paths = map (\<lambda>n. volume_path cfg (of_nat n)) [1..<Suc (unat (sg_current_volume s'))]\<rparr>"
  have paths: "vm_volume_paths meta = map (\<lambda>i. volume_path cfg (of_nat (i + 1))) [0..<Suc k]"
    unfolding meta_def count by (rule nth_equalityI) (simp_all del: upt_Suc)
  have bounds: "vm_volume_boundaries meta = map (\<lambda>i. of_nat (i * ?v)) [0..<Suc k]"
    unfolding meta_def by (rule nth_equalityI) (auto simp: at(10) nth_Cons' algebra_simps simp del: upt_Suc)
  have full: "length (the (sg_disk s' (vm_volume_paths meta ! i))) = ?v" if "i < k" for i
  proof -
    have "(i + 1) * ?v \<le> k * ?v" using that by (intro mult_right_mono) auto
    then have "(i + 1) * ?v \<le> length (concat ps)" using at(1) by linarith
    then show ?thesis using at(11) [OF that] that unfolding paths by (simp del: upt_Suc of_nat_Suc of_nat_add add_2_eq_Suc')
  qed
  have others: "sg_disk s' path = disk path" if "path \<notin> set (vm_volume_paths meta)" for path
    by (rule at(13)) (use that in \<open>auto simp: paths simp del: upt_Suc\<close>)
  have "concat (map (\<lambda>path. the (sg_disk s' path)) (vm_volume_paths meta)) = concat ps"
    using volumes_hold_concat [OF hold] by (simp add: paths o_def del: upt_Suc)
  moreover have "segmented_finish s' = Ok (meta, sg_disk s')" by (simp add: segmented_finish_def meta_def at(4))
  moreover have "vm_total_bytes meta = of_nat (length (concat ps))" by (simp add: meta_def at(9))
  ultimately show ?thesis using s'(1) bounds paths full others by blast
qed

theorem volumes_hold_stream_witness:
  "\<exists>s s' meta disk'. segmented_new Map.empty (volume_config_new [97] 10) = Ok s
     \<and> for_each (\<lambda>p s. write_all_default (segmented_write 2) s p) [replicate 7 1, replicate 18 2] s = Ok s'
     \<and> segmented_finish s' = Ok (meta, disk')
     \<and> concat (map (\<lambda>path. the (disk' path)) (vm_volume_paths meta)) = replicate 7 1 @ replicate 18 2"
proof -
  let ?cfg = "volume_config_new [97] 10"
  obtain s where s: "segmented_new Map.empty ?cfg = Ok s" by (simp add: segmented_new_def Let_def)
  have "0 < vc_volume_size ?cfg" "volumes_fit ?cfg (length (concat [replicate 7 (1 :: u8), replicate 18 2]))"
    by (simp_all add: volume_config_new_def volumes_fit_def)
  from volumes_hold_stream [OF s this(1) _ this(2), of 0] s show ?thesis
    by (simp add: numeral_2_eq_2) blast
qed

section \<open>Archives in one volume and in several\<close>

text \<open>C29: an archive that fits into the first volume is the archive that \<open>finish\<close> writes to a
  single file. A writer of volumes and a writer to memory have the same tables and were given the
  same packed streams. If the file that \<open>finish_archive\<close> writes is not longer than a volume, then
  \<open>finish_multi_volume\<close> writes one volume with exactly the bytes of this file.\<close>

theorem one_volume_archive:
  assumes "methods_ok (segmented_env (Suc (Suc fuel)) L X crc32) (header_methods (w_encrypt_header aw) (w_content_methods aw)) ps"
    and "segmented_took cfg disk (replicate 32 0) (w_output aw) d" and "header_fits L X ps aw"
    and "volumes_fit cfg (unat (vc_volume_size cfg))" and "cursor_took (replicate 32 0) f d"
    and one: "\<And>g. finish_archive (memory_env L X crc32) (with_output f aw) = Ok g \<Longrightarrow> length (cur_data g) \<le> unat (vc_volume_size cfg)"
  shows "\<exists>g meta disk'. finish_archive (memory_env L X crc32) (with_output f aw) = Ok g
     \<and> finish_multi_volume (segmented_env (Suc (Suc fuel)) L X crc32) aw = Ok (meta, disk')
     \<and> vm_volume_count meta = 1 \<and> vm_volume_paths meta = [volume_path cfg 1]
     \<and> disk' (volume_path cfg 1) = Some (cur_data g)"
proof -
  let ?v = "unat (vc_volume_size cfg)"
  have "methods_ok (memory_env L X crc32) (header_methods (w_encrypt_header aw) (w_content_methods aw)) ps"
    using assms(1) by (simp add: methods_ok_def)
  from finish_leaves_bytes [where aw = "with_output f aw" and ps = ps, unfolded with_output_simps header_fits_with_output
      header_bytes_with_output, OF this assms(5,3)] obtain c header g where
    g: "finish_archive (memory_env L X crc32) (with_output f aw) = Ok g"
      "cur_data g = write_start_header crc32 (of_nat (32 + length (d @ c))) header @ d @ c @ header"
    and made: "header_bytes L X crc32 (of_nat (32 + length d)) aw = Ok (c, header)"
    and "header_parts L X crc32 ps (length d) (with_output f aw) c header" by blast
  then have ne: "header \<noteq> []" by (auto simp: header_parts_def Let_def write_header_def write_u8_def)
  have le: "32 + length (d @ c @ header) \<le> ?v" using one [OF g(1)] by (simp add: g(2) length_start_header)
  have d: "32 + length d < ?v" using le ne by (cases header) auto
  have fit: "volumes_fit cfg (32 + length d)" using volumes_fit_less [OF assms(4)] d by simp
  then obtain k where k: "volumes_at cfg disk (replicate 32 0) k (w_output aw) d"
    using assms(2) by (auto simp: segmented_took_def)
  have first: "j = 0" if "j * ?v \<le> n" "n < ?v" for j n
    using that by (cases j) auto
  have k0: "k = 0" by (rule first [of _ "32 + length d"]) (use volumes_atD(1) [OF k] d in simp_all)
  from finish_volumes [OF assms(1) k assms(2,3) fit] obtain c' header' and s :: "segmented_writer archive_writer" and k' where
    h: "header_bytes L X crc32 (of_nat (reported_position cfg k (length d))) aw = Ok (c', header')"
    and rest: "volumes_fit cfg (32 + length (d @ c' @ header')) \<longrightarrow> (\<exists>k'' meta disk'.
          volumes_at cfg disk (replicate 32 0) k' (w_output s) (d @ c')
        \<and> finish_multi_volume (segmented_env (Suc (Suc fuel)) L X crc32) aw = Ok (meta, disk')
        \<and> volumes_hold cfg disk' k'' (write_start_header crc32 (of_nat (reported_position cfg k' (length (d @ c')))) header' @ d @ c' @ header')
        \<and> vm_volume_count meta = 1 \<and> vm_volume_paths meta = [volume_path cfg 1])"
    by (elim exE conjE) (rule that; assumption)
  have same: "c' = c" "header' = header" using h made by (simp_all add: k0 reported_position_def)
  from rest [unfolded same] volumes_fit_less [OF assms(4) le] obtain k'' meta disk' where
    r: "volumes_at cfg disk (replicate 32 0) k' (w_output s) (d @ c)"
    "finish_multi_volume (segmented_env (Suc (Suc fuel)) L X crc32) aw = Ok (meta, disk')"
    "volumes_hold cfg disk' k'' (write_start_header crc32 (of_nat (reported_position cfg k' (length (d @ c)))) header @ d @ c @ header)"
    "vm_volume_count meta = 1" "vm_volume_paths meta = [volume_path cfg 1]" by blast
  have k': "k' = 0"
    by (rule first [of _ "32 + length (d @ c)"]) (use volumes_atD(1) [OF r(1)] le ne in \<open>cases header; simp\<close>)+
  have "disk' (volume_path cfg 1) = Some (cur_data g)"
    using r(3) le length_start_header [of crc32 "of_nat (32 + length (d @ c))" header]
    by (auto simp: volumes_hold_def Let_def k' reported_position_def g(2) dest!: spec [of _ 0])
  with r(2,4,5) g(1) show ?thesis by blast
qed

text \<open>A new archive of volumes, whose output was given \<open>d\<close>.\<close>

abbreviation demo_volumes :: "(unit, segmented_writer) writer_env" where
  "demo_volumes \<equiv> segmented_env (Suc (Suc 0)) demo_libs demo_codecs demo_crc"

definition demo_volume_writer :: "segmented_writer \<Rightarrow> segmented_writer archive_writer" where
  "demo_volume_writer s = \<lparr>w_files = [], w_content_methods = [stored], w_pack_info = pack_info_default, w_unpack_info = [],
     w_encrypt_header = False, w_comment = None, w_output = s\<rparr>"

lemma demo_volumes_took:
  assumes "32 < unat (vc_volume_size cfg)"
  shows "\<exists>s. create_multi_volume demo_volumes Map.empty cfg = Ok ((demo_volume_writer s)\<lparr>w_encrypt_header := True,
        w_content_methods := [config_new (EncoderMethod ''LZMA2'' id_lzma2)]\<rparr>)
     \<and> segmented_took cfg Map.empty (replicate 32 0) s []"
proof -
  obtain s0 where s0: "segmented_new Map.empty cfg = Ok s0" by (simp add: segmented_new_def Let_def)
  obtain s where "segmented_seek_start s0 32 = Ok s" "segmented_took cfg Map.empty (replicate 32 0) s []"
    using volumes_skip [OF s0, of 32] assms by auto
  with s0 show ?thesis
    by (simp add: create_multi_volume_def archive_writer_new_def signature_header_size_def demo_volume_writer_def)
qed

lemma demo_volumes_methods_ok:
  "methods_ok demo_volumes (header_methods (w_encrypt_header (demo_volume_writer s)) (w_content_methods (demo_volume_writer s)))
     [((=), Lzma_encoder (Some ()))]"
  using demo_header_methods_ok [of "[stored]"] by (simp add: methods_ok_def demo_volume_writer_def)

lemma demo_volume_header: "length (write_header demo_libs (demo_volume_writer s)) < 100"
  by (simp add: write_header_def demo_volume_writer_def write_streams_info_def write_pack_info_def write_unpack_info_def
     write_substreams_def pack_info_default_def length_le_bytes write_u64_small
     write_files_info_def write_file_empty_streams_def write_file_empty_files_def write_file_anti_items_def write_file_names_def
     write_file_ctimes_def write_file_atimes_def write_file_mtimes_def write_file_windows_attrs_def write_times_def length_write_sized)

lemma demo_volume_parts:
  assumes "header_parts demo_libs demo_codecs demo_crc [((=), Lzma_encoder (Some ()))] p (demo_volume_writer s) c header"
  shows "length (c @ header) < 1200"
proof -
  let ?R = "write_header demo_libs (demo_volume_writer s)"
  from demo_encoded_length [OF demo_volume_header demo_volume_header]
  have "length (k_encoded_header # write_streams_info demo_libs
      (encoded_info demo_crc (header_methods False [stored]) (of_nat p) ?R ?R [length ?R] (demo_volume_writer s))) \<le> 1000"
    by (simp add: Suc_le_eq)
  with assms demo_volume_header [of s] show ?thesis
    unfolding header_parts_def Let_def by (auto simp: encoder_code_def demo_volume_writer_def)
qed

lemma demo_volume_fits: "header_fits demo_libs demo_codecs [((=), Lzma_encoder (Some ()))] (demo_volume_writer s)"
  using demo_volume_header [of s] by (auto simp: header_fits_def encoder_code_def)

theorem one_volume_archive_witness:
  "\<exists>s g meta disk'. segmented_took (volume_config_new [97] 4096) Map.empty (replicate 32 0) s []
     \<and> finish_archive (memory_env demo_libs demo_codecs demo_crc)
         (with_output \<lparr>cur_data = replicate 32 0, cur_pos = 32\<rparr> (demo_volume_writer s)) = Ok g
     \<and> finish_multi_volume demo_volumes (demo_volume_writer s) = Ok (meta, disk')
     \<and> disk' (volume_path (volume_config_new [97] 4096) 1) = Some (cur_data g)"
proof -
  let ?cfg = "volume_config_new [97] 4096" and ?f = "\<lparr>cur_data = replicate 32 0, cur_pos = 32\<rparr> :: cursor"
  have v: "unat (vc_volume_size ?cfg) = 4096" by (simp add: volume_config_new_def)
  then obtain s where s: "segmented_took ?cfg Map.empty (replicate 32 0) s []" using demo_volumes_took [of ?cfg] by auto
  have fit: "volumes_fit ?cfg (unat (vc_volume_size ?cfg))" by (simp add: volumes_fit_def v)
  have out: "segmented_took ?cfg Map.empty (replicate 32 0) (w_output (demo_volume_writer s)) []"
    using s by (simp add: demo_volume_writer_def)
  have f: "cursor_took (replicate 32 0) ?f []" by (simp add: cursor_took_def)
  have ok: "methods_ok (memory_env demo_libs demo_codecs demo_crc)
      (header_methods (w_encrypt_header (demo_volume_writer s)) (w_content_methods (demo_volume_writer s))) [((=), Lzma_encoder (Some ()))]"
    using demo_volumes_methods_ok [of s] by (simp add: methods_ok_def)
  have small: "length (cur_data g) \<le> unat (vc_volume_size ?cfg)"
    if "finish_archive (memory_env demo_libs demo_codecs demo_crc) (with_output ?f (demo_volume_writer s)) = Ok g" for g
  proof -
    from finish_leaves [where aw = "with_output ?f (demo_volume_writer s)" and d = "[]", unfolded with_output_simps header_fits_with_output,
        OF ok f demo_volume_fits] that obtain c header where
      "header_parts demo_libs demo_codecs demo_crc [((=), Lzma_encoder (Some ()))] 0 (with_output ?f (demo_volume_writer s)) c header"
      "cur_data g = write_start_header demo_crc (of_nat (32 + length c)) header @ c @ header" by auto
    moreover have "header_parts demo_libs demo_codecs demo_crc [((=), Lzma_encoder (Some ()))] 0 (with_output ?f (demo_volume_writer s)) c header
        = header_parts demo_libs demo_codecs demo_crc [((=), Lzma_encoder (Some ()))] 0 (demo_volume_writer s) c header"
      by (simp add: header_parts_def encoded_info_def write_streams_info_def Let_def)
    ultimately show ?thesis using demo_volume_parts [of 0 s c header] by (simp add: length_start_header v)
  qed
  from one_volume_archive [OF demo_volumes_methods_ok out demo_volume_fits fit f small] s show ?thesis by blast
qed

text \<open>C30: an archive whose packed streams do not fit into the first volume gets a start header that
  does not lead to its header. The writer takes the position of the header from the boundaries of
  the volumes, which do not count the 32 bytes that were skipped for the start header: the start
  header says that the header is at the position it would have if there were no start header. And
  the metadata names the first volume only, to which the writer has returned. (Nothing is said of an archive of which only the header
  goes on into the second volume: the position where it starts lies in the first.)\<close>

theorem later_volumes_lose_the_header:
  assumes "methods_ok (segmented_env (Suc (Suc fuel)) L X crc32) (header_methods (w_encrypt_header aw) (w_content_methods aw)) ps"
    and "segmented_took cfg disk (replicate 32 0) (w_output aw) d" and "header_fits L X ps aw"
    and more: "unat (vc_volume_size cfg) < 32 + length d"
    and fits: "\<And>p c header. header_parts L X crc32 ps p aw c header \<Longrightarrow> volumes_fit cfg (32 + length (d @ c @ header))"
  shows "\<exists>c header meta disk' k. finish_multi_volume (segmented_env (Suc (Suc fuel)) L X crc32) aw = Ok (meta, disk') \<and> 0 < k
     \<and> concat (map (\<lambda>i. the (disk' (volume_path cfg (of_nat (i + 1))))) [0..<Suc k])
       = write_start_header crc32 (of_nat (length (d @ c))) header @ d @ c @ header
     \<and> vm_volume_count meta = 1 \<and> vm_volume_paths meta = [volume_path cfg 1]"
proof -
  let ?v = "unat (vc_volume_size cfg)"
  have "header_parts L X crc32 ps 0 aw [] (write_header L aw)" by (simp add: header_parts_def Let_def)
  from fits [OF this] have fit: "volumes_fit cfg (32 + length d)" by (rule volumes_fit_less) simp
  then obtain k where k: "volumes_at cfg disk (replicate 32 0) k (w_output aw) d"
    using assms(2) by (auto simp: segmented_took_def)
  have later: "0 < j" if "n \<le> (j + 1) * ?v" "?v < n" for j n using that by (cases j) auto
  from finish_volumes [OF assms(1) k assms(2,3) fit] obtain c header and s :: "segmented_writer archive_writer" and k' where
    h: "header_parts L X crc32 ps (unat (of_nat (reported_position cfg k (length d)) - of_nat signature_header_size :: u64)) aw c header"
    and rest: "volumes_fit cfg (32 + length (d @ c @ header)) \<longrightarrow> (\<exists>k'' meta disk'.
          volumes_at cfg disk (replicate 32 0) k' (w_output s) (d @ c)
        \<and> finish_multi_volume (segmented_env (Suc (Suc fuel)) L X crc32) aw = Ok (meta, disk')
        \<and> volumes_hold cfg disk' k'' (write_start_header crc32 (of_nat (reported_position cfg k' (length (d @ c)))) header @ d @ c @ header)
        \<and> vm_volume_count meta = 1 \<and> vm_volume_paths meta = [volume_path cfg 1])"
    by (elim exE conjE) (rule that; assumption)
  from rest fits [OF h] obtain k'' meta disk' where
    r: "volumes_at cfg disk (replicate 32 0) k' (w_output s) (d @ c)"
    "finish_multi_volume (segmented_env (Suc (Suc fuel)) L X crc32) aw = Ok (meta, disk')"
    "volumes_hold cfg disk' k'' (write_start_header crc32 (of_nat (reported_position cfg k' (length (d @ c)))) header @ d @ c @ header)"
    "vm_volume_count meta = 1" "vm_volume_paths meta = [volume_path cfg 1]" by blast
  have k': "0 < k'" by (rule later [of "length (replicate 32 0 @ d @ c)"]) (use volumes_atD(2) [OF r(1)] more in simp_all)
  then have r3: "volumes_hold cfg disk' k'' (write_start_header crc32 (of_nat (length (d @ c))) header @ d @ c @ header)"
    using r(3) by (simp add: reported_position_def)
  have "0 < k''"
    by (rule later [of "length (write_start_header crc32 (of_nat (length (d @ c))) header @ d @ c @ header)"])
      (use r3 more length_start_header [of crc32 "of_nat (length (d @ c))" header] in \<open>auto simp: volumes_hold_def Let_def\<close>)
  with r(2,4,5) volumes_hold_concat [OF r3] show ?thesis by blast
qed

theorem later_volumes_lose_the_header_witness:
  "\<exists>s meta disk' k c header. segmented_took (volume_config_new [97] 64) Map.empty (replicate 32 0) s (replicate 100 1)
     \<and> finish_multi_volume demo_volumes (demo_volume_writer s) = Ok (meta, disk') \<and> 0 < k
     \<and> concat (map (\<lambda>i. the (disk' (volume_path (volume_config_new [97] 64) (of_nat (i + 1))))) [0..<Suc k])
       = write_start_header demo_crc (of_nat (length (replicate 100 1 @ c))) header @ replicate 100 1 @ c @ header"
proof -
  let ?cfg = "volume_config_new [97] 64"
  have v: "unat (vc_volume_size ?cfg) = 64" by (simp add: volume_config_new_def)
  then obtain s0 where "segmented_took ?cfg Map.empty (replicate 32 0) s0 []" using demo_volumes_took [of ?cfg] by auto
  from volumes.write_every [OF this, where buf = "replicate 100 1"] obtain s where
    s: "segmented_took ?cfg Map.empty (replicate 32 0) s (replicate 100 1)" by auto
  have "unat (vc_volume_size ?cfg) < 32 + length (replicate 100 (1 :: u8))" by (simp add: v)
  moreover have "volumes_fit ?cfg (32 + length (replicate 100 (1 :: u8) @ c @ header))"
    if "header_parts demo_libs demo_codecs demo_crc [((=), Lzma_encoder (Some ()))] p (demo_volume_writer s) c header" for p c header
  proof -
    have "volumes_fit ?cfg 2000" by (simp add: volumes_fit_def v)
    then show ?thesis by (rule volumes_fit_less) (use demo_volume_parts [OF that] in simp)
  qed
  moreover have "segmented_took ?cfg Map.empty (replicate 32 0) (w_output (demo_volume_writer s)) (replicate 100 1)"
    using s by (simp add: demo_volume_writer_def)
  ultimately show ?thesis
    using later_volumes_lose_the_header [OF demo_volumes_methods_ok _ demo_volume_fits, of ?cfg Map.empty s "replicate 100 1"] s by blast
qed

end
