(* ===== verification/Streaming_Writer.thy ===== *)
theory Streaming_Writer
  imports Finish_Layout
begin

text \<open>
  \<^verbatim>\<open>src/src/writer/streaming.rs\<close>: an archive writer for outputs that cannot seek. It writes
  the archive into a vector and hands it to the output at the end.
\<close>

record 'w streaming_writer =
  sw_output :: 'w
  sw_inner :: "cursor archive_writer option"

definition streaming_new :: "('e, cursor) writer_env \<Rightarrow> 'w \<Rightarrow> 'w streaming_writer result" where
  "streaming_new E output =
     and_then (archive_writer_new E \<lparr>cur_data = [], cur_pos = 0\<rparr>) (\<lambda>inner.
     Ok \<lparr>sw_output = output, sw_inner = Some inner\<rparr>)"

definition streaming_set_content_methods :: "'w streaming_writer \<Rightarrow> encoder_configuration list \<Rightarrow> 'w streaming_writer" where
  "streaming_set_content_methods s methods =
     s\<lparr>sw_inner := map_option (\<lambda>aw. set_content_methods aw methods) (sw_inner s)\<rparr>"

definition streaming_set_encrypt_header :: "'w streaming_writer \<Rightarrow> bool \<Rightarrow> 'w streaming_writer" where
  "streaming_set_encrypt_header s enabled =
     s\<lparr>sw_inner := map_option (\<lambda>aw. set_encrypt_header aw enabled) (sw_inner s)\<rparr>"

definition streaming_set_comment :: "'w streaming_writer \<Rightarrow> rstring \<Rightarrow> 'w streaming_writer" where
  "streaming_set_comment s c = s\<lparr>sw_inner := map_option (\<lambda>aw. set_comment aw c) (sw_inner s)\<rparr>"

definition streaming_clear_comment :: "'w streaming_writer \<Rightarrow> 'w streaming_writer" where
  "streaming_clear_comment s = s\<lparr>sw_inner := map_option clear_comment (sw_inner s)\<rparr>"

text \<open>The writer in it, or the error that it was finished.\<close>

definition streaming_inner :: "'w streaming_writer \<Rightarrow> cursor archive_writer result" where
  "streaming_inner s =
     (case sw_inner s of None \<Rightarrow> Err (Other ''StreamingArchiveWriter already finished'') | Some aw \<Rightarrow> Ok aw)"

definition streaming_push_archive_entry ::
    "('e, cursor) writer_env \<Rightarrow> 's reading \<Rightarrow> nat \<Rightarrow> 'w streaming_writer \<Rightarrow> archive_entry \<Rightarrow> 's option \<Rightarrow> 'w streaming_writer result" where
  "streaming_push_archive_entry E read fuel s entry reader =
     and_then (streaming_inner s) (\<lambda>inner.
     and_then (push_archive_entry E read fuel inner entry reader) (\<lambda>inner.
     Ok (s\<lparr>sw_inner := Some inner\<rparr>)))"

definition streaming_push_archive_entries ::
    "('e, cursor) writer_env \<Rightarrow> 's reading \<Rightarrow> nat \<Rightarrow> 'w streaming_writer \<Rightarrow> archive_entry list \<Rightarrow> 's source_reader list \<Rightarrow>
     'w streaming_writer result" where
  "streaming_push_archive_entries E read fuel s entries readers =
     and_then (streaming_inner s) (\<lambda>inner.
     and_then (push_archive_entries E read fuel inner entries readers) (\<lambda>inner.
     Ok (s\<lparr>sw_inner := Some inner\<rparr>)))"

definition streaming_push_archive_entry_with_progress ::
    "('e, cursor) writer_env \<Rightarrow> 's reading \<Rightarrow> nat \<Rightarrow> 'p on_progress \<Rightarrow> 'w streaming_writer \<Rightarrow> archive_entry \<Rightarrow> 's option \<Rightarrow>
     'p \<Rightarrow> u64 \<Rightarrow> ('p \<times> 'w streaming_writer) result" where
  "streaming_push_archive_entry_with_progress E read fuel on_progress s entry reader p interval =
     and_then (streaming_inner s) (\<lambda>inner.
     and_then (push_archive_entry_with_progress E read fuel on_progress inner entry reader p interval) (\<lambda>(p, inner).
     Ok (p, s\<lparr>sw_inner := Some inner\<rparr>)))"

definition streaming_push_solid_entries_parallel ::
    "('e, cursor) writer_env \<Rightarrow> ('p, 's) provider_ops \<Rightarrow> 's reading \<Rightarrow> nat \<Rightarrow> 'w streaming_writer \<Rightarrow> archive_entry list \<Rightarrow>
     'p \<Rightarrow> solid_config \<Rightarrow> ('p \<times> 'w streaming_writer) result" where
  "streaming_push_solid_entries_parallel E P read fuel s entries p config =
     and_then (streaming_inner s) (\<lambda>inner.
     and_then (push_solid_entries_parallel E P read fuel inner entries p config) (\<lambda>(p, inner).
     Ok (p, s\<lparr>sw_inner := Some inner\<rparr>)))"

definition streaming_finish_to_vec :: "('e, cursor) writer_env \<Rightarrow> 'w streaming_writer \<Rightarrow> bytes result" where
  "streaming_finish_to_vec E s =
     and_then (streaming_inner s) (\<lambda>inner.
     and_then (map_err (\<lambda>e. Io e ''Failed to finish archive'') (finish_archive E inner)) (\<lambda>buffer.
     Ok (cur_data buffer)))"

definition streaming_finish :: "('e, cursor) writer_env \<Rightarrow> 'w write_all \<Rightarrow> 'w flushing \<Rightarrow> 'w streaming_writer \<Rightarrow> 'w result" where
  "streaming_finish E write_all flush s =
     and_then (streaming_inner s) (\<lambda>inner.
     and_then (map_err (\<lambda>e. Io e ''Failed to finish archive'') (finish_archive E inner)) (\<lambda>buffer.
     and_then (map_err (\<lambda>e. Io e ''Failed to write archive to output'') (write_all (sw_output s) (cur_data buffer))) (\<lambda>output.
     and_then (map_err (\<lambda>e. Io e ''Failed to flush output'') (flush output)) Ok)))"

section \<open>The same archive as in memory\<close>

text \<open>An operation makes a writer from a writer and may answer something. Each has a counterpart on
  the streaming writer, which does the same to the writer in it.\<close>

definition streams :: "(cursor archive_writer \<Rightarrow> ('a \<times> cursor archive_writer) result) \<Rightarrow>
    ('w streaming_writer \<Rightarrow> ('a \<times> 'w streaming_writer) result) \<Rightarrow> bool" where
  "streams f g \<longleftrightarrow> (\<forall>s aw. sw_inner s = Some aw \<longrightarrow> g s = and_then (f aw) (\<lambda>(a, aw). Ok (a, s\<lparr>sw_inner := Some aw\<rparr>)))"

text \<open>The operations as data, with what they do to either writer. The state of the callback and the
  provider are borrowed by a call: what becomes of them is its answer.\<close>

datatype ('s, 'c, 'p) writer_op =
  Push_entry archive_entry "'s option"
| Push_with_progress archive_entry "'s option" 'c u64
| Push_entries "archive_entry list" "'s source_reader list"
| Push_solid_parallel "archive_entry list" 'p solid_config
| Set_content_methods "encoder_configuration list"
| Set_encrypt_header bool
| Set_comment rstring
| Clear_comment

datatype ('c, 'p) op_answer = Done | Callback 'c | Provider 'p

fun archive_op ::
    "('e, cursor) writer_env \<Rightarrow> ('p, 's) provider_ops \<Rightarrow> 's reading \<Rightarrow> 'c on_progress \<Rightarrow> nat \<Rightarrow> ('s, 'c, 'p) writer_op \<Rightarrow>
     cursor archive_writer \<Rightarrow> (('c, 'p) op_answer \<times> cursor archive_writer) result" where
  "archive_op E P read f fuel (Push_entry e r) aw = and_then (push_archive_entry E read fuel aw e r) (\<lambda>aw. Ok (Done, aw))"
| "archive_op E P read f fuel (Push_with_progress e r c n) aw =
     and_then (push_archive_entry_with_progress E read fuel f aw e r c n) (\<lambda>(c, aw). Ok (Callback c, aw))"
| "archive_op E P read f fuel (Push_entries es rs) aw = and_then (push_archive_entries E read fuel aw es rs) (\<lambda>aw. Ok (Done, aw))"
| "archive_op E P read f fuel (Push_solid_parallel es p cfg) aw =
     and_then (push_solid_entries_parallel E P read fuel aw es p cfg) (\<lambda>(p, aw). Ok (Provider p, aw))"
| "archive_op E P read f fuel (Set_content_methods ms) aw = Ok (Done, set_content_methods aw ms)"
| "archive_op E P read f fuel (Set_encrypt_header b) aw = Ok (Done, set_encrypt_header aw b)"
| "archive_op E P read f fuel (Set_comment s) aw = Ok (Done, set_comment aw s)"
| "archive_op E P read f fuel Clear_comment aw = Ok (Done, clear_comment aw)"

fun streaming_op ::
    "('e, cursor) writer_env \<Rightarrow> ('p, 's) provider_ops \<Rightarrow> 's reading \<Rightarrow> 'c on_progress \<Rightarrow> nat \<Rightarrow> ('s, 'c, 'p) writer_op \<Rightarrow>
     'w streaming_writer \<Rightarrow> (('c, 'p) op_answer \<times> 'w streaming_writer) result" where
  "streaming_op E P read f fuel (Push_entry e r) s = and_then (streaming_push_archive_entry E read fuel s e r) (\<lambda>s. Ok (Done, s))"
| "streaming_op E P read f fuel (Push_with_progress e r c n) s =
     and_then (streaming_push_archive_entry_with_progress E read fuel f s e r c n) (\<lambda>(c, s). Ok (Callback c, s))"
| "streaming_op E P read f fuel (Push_entries es rs) s = and_then (streaming_push_archive_entries E read fuel s es rs) (\<lambda>s. Ok (Done, s))"
| "streaming_op E P read f fuel (Push_solid_parallel es p cfg) s =
     and_then (streaming_push_solid_entries_parallel E P read fuel s es p cfg) (\<lambda>(p, s). Ok (Provider p, s))"
| "streaming_op E P read f fuel (Set_content_methods ms) s = Ok (Done, streaming_set_content_methods s ms)"
| "streaming_op E P read f fuel (Set_encrypt_header b) s = Ok (Done, streaming_set_encrypt_header s b)"
| "streaming_op E P read f fuel (Set_comment c) s = Ok (Done, streaming_set_comment s c)"
| "streaming_op E P read f fuel Clear_comment s = Ok (Done, streaming_clear_comment s)"

fun run_ops :: "('op \<Rightarrow> 'w \<Rightarrow> ('a \<times> 'w) result) \<Rightarrow> 'op list \<Rightarrow> 'w \<Rightarrow> ('a list \<times> 'w) result" where
  "run_ops run [] w = Ok ([], w)"
| "run_ops run (op # ops) w =
     and_then (run op w) (\<lambda>(a, w). and_then (run_ops run ops w) (\<lambda>(as, w). Ok (a # as, w)))"

lemma streams_op: "streams (archive_op E P read f fuel op) (streaming_op E P read f fuel op)"
  by (cases op) (auto simp: streams_def streaming_push_archive_entry_def streaming_push_archive_entries_def streaming_inner_def
      streaming_push_archive_entry_with_progress_def streaming_push_solid_entries_parallel_def and_then_assoc
      streaming_set_content_methods_def streaming_set_encrypt_header_def streaming_set_comment_def
      streaming_clear_comment_def split_beta)

lemma streaming_ops_run:
  assumes "sw_inner s = Some aw"
  shows "run_ops (streaming_op E P read f fuel) ops s
       = and_then (run_ops (archive_op E P read f fuel) ops aw) (\<lambda>(as, aw). Ok (as, s\<lparr>sw_inner := Some aw\<rparr>))"
  using assms
proof (induction ops arbitrary: s aw)
  case (Cons op ops)
  have step: "streaming_op E P read f fuel op s
      = and_then (archive_op E P read f fuel op aw) (\<lambda>(a, aw). Ok (a, s\<lparr>sw_inner := Some aw\<rparr>))"
    by (rule streams_op [unfolded streams_def, rule_format, OF Cons.prems])
  show ?case
  proof (cases "archive_op E P read f fuel op aw")
    case (Ok x)
    obtain a aw' where x: "x = (a, aw')" by (cases x)
    from Cons.IH [of "s\<lparr>sw_inner := Some aw'\<rparr>" aw'] show ?thesis
      by (simp add: step Ok x and_then_assoc split_beta)
  qed (simp_all add: step)
qed simp

text \<open>The whole life of either writer: it is made, operations are called, and it is finished.\<close>

definition archived ::
    "('e, cursor) writer_env \<Rightarrow> ('p, 's) provider_ops \<Rightarrow> 's reading \<Rightarrow> 'c on_progress \<Rightarrow> nat \<Rightarrow> ('s, 'c, 'p) writer_op list \<Rightarrow>
     (('c, 'p) op_answer list \<times> cursor) result" where
  "archived E P read f fuel ops =
     and_then (archive_writer_new E \<lparr>cur_data = [], cur_pos = 0\<rparr>) (\<lambda>aw.
     and_then (run_ops (archive_op E P read f fuel) ops aw) (\<lambda>(as, aw).
     and_then (map_err (\<lambda>e. Io e ''Failed to finish archive'') (finish_archive E aw)) (\<lambda>g. Ok (as, g))))"

definition streamed ::
    "('e, cursor) writer_env \<Rightarrow> ('p, 's) provider_ops \<Rightarrow> 's reading \<Rightarrow> 'c on_progress \<Rightarrow> nat \<Rightarrow> ('s, 'c, 'p) writer_op list \<Rightarrow> 'w \<Rightarrow>
     ('w streaming_writer \<Rightarrow> 'r result) \<Rightarrow> (('c, 'p) op_answer list \<times> 'r) result" where
  "streamed E P read f fuel ops output finish =
     and_then (streaming_new E output) (\<lambda>s.
     and_then (run_ops (streaming_op E P read f fuel) ops s) (\<lambda>(as, s).
     and_then (finish s) (\<lambda>r. Ok (as, r))))"

lemma streamed_to_vec:
  "streamed E P read f fuel ops output (streaming_finish_to_vec E)
     = and_then (archived E P read f fuel ops) (\<lambda>(as, g). Ok (as, cur_data g))"
  by (simp add: streamed_def archived_def streaming_new_def streaming_ops_run and_then_assoc streaming_finish_to_vec_def
      streaming_inner_def split_beta)

lemma streamed_to_output:
  "streamed E P read f fuel ops output (streaming_finish E write_all flush) =
     and_then (archived E P read f fuel ops) (\<lambda>(as, g).
     and_then (map_err (\<lambda>e. Io e ''Failed to write archive to output'') (write_all output (cur_data g))) (\<lambda>output.
     and_then (map_err (\<lambda>e. Io e ''Failed to flush output'') (flush output)) (\<lambda>output. Ok (as, output))))"
  by (simp add: streamed_def archived_def streaming_new_def streaming_ops_run and_then_assoc streaming_finish_def
      streaming_inner_def split_beta)

end
