(* ===== verification/Streaming_Properties.thy ===== *)
theory Streaming_Properties
  imports Lifecycle_Properties Streaming_Writer
begin

text \<open>
  The archive that the streaming writer sends to its output is the one that is made in memory, and
  it is read as that one.
\<close>

text \<open>The reader starts at the beginning of the file, wherever the file stands.\<close>

lemma archive_read_anywhere: "archive_read_file crc32 D L fuel pw \<lparr>cur_data = cur_data g, cur_pos = p\<rparr> = archive_read_file crc32 D L fuel pw g"
proof -
  have "and_read (seek_start 0) k \<lparr>cur_data = cur_data g, cur_pos = p\<rparr> = and_read (seek_start 0) k g" for k :: "unit \<Rightarrow> (error, archive) parser"
    by (cases g) (simp add: and_read_def seek_start_def)
  then show ?thesis unfolding archive_read_file_def Let_def cursor.select_convs .
qed

text \<open>C31: a \<open>StreamingArchiveWriter\<close> makes the archive that an \<open>ArchiveWriter\<close> in memory makes. For
  every sequence of its operations, with any sources, callbacks and providers: \<open>finish_to_vec\<close>
  answers the bytes of the file that \<open>finish\<close> leaves in memory, every operation has the same answer,
  and the first error is the same. \<open>finish\<close> writes just these bytes to the output, behind what it had
  before and in whatever portions it takes them. And the bytes are opened like the file in memory, so
  that everything that is known of reading an archive that was written holds for them.\<close>

theorem streaming_writer_equivalent:
  assumes "byte_sink put write_all flush took" and "took output d"
  shows "streamed E P read f fuel ops output (streaming_finish_to_vec E)
       = and_then (archived E P read f fuel ops) (\<lambda>(as, g). Ok (as, cur_data g))
     \<and> (case archived E P read f fuel ops of
          Ok (as, g) \<Rightarrow>
            (\<exists>output'. streamed E P read f fuel ops output (streaming_finish E write_all flush) = Ok (as, output')
               \<and> took output' (d @ cur_data g))
            \<and> archive_reader_new crc32 D L fuel' parallelism \<lparr>cur_data = cur_data g, cur_pos = 0\<rparr> pw
              = archive_reader_new crc32 D L fuel' parallelism g pw
        | Err e \<Rightarrow> streamed E P read f fuel ops output (streaming_finish E write_all flush) = Err e
        | Panic \<Rightarrow> streamed E P read f fuel ops output (streaming_finish E write_all flush) = Panic
        | OutOfFuel \<Rightarrow> streamed E P read f fuel ops output (streaming_finish E write_all flush) = OutOfFuel)"
proof (cases "archived E P read f fuel ops")
  case (Ok x)
  obtain as g where x: "x = (as, g)" by (cases x)
  obtain w where w: "write_all output (cur_data g) = Ok w" "took w (d @ cur_data g)" using byte_sink.write_every [OF assms] by blast
  obtain w' where "flush w = Ok w'" "took w' (d @ cur_data g)" using byte_sink.flush_keeps [OF assms(1) w(2)] by blast
  with w(1) show ?thesis
    by (simp add: streamed_to_vec streamed_to_output archive_reader_new_def archive_read_anywhere Ok x)
qed (simp_all add: streamed_to_vec streamed_to_output)

text \<open>One file is pushed to the streaming writer of a vector that holds a byte; the file is read from
  the bytes behind it.\<close>

theorem streaming_writer_equivalent_witness:
  "\<exists>archive rd f'. streamed demo_env vec_provider_ops slice_read (\<lambda>p info. (Continue, p :: unit)) 20
        [Set_content_methods [stored, swapped], Set_encrypt_header False, Push_entry (new_file [97]) (Some [1, 2, 3])] [9]
        (streaming_finish demo_env vec_write_all vec_flush) = Ok ([Done, Done, Done], 9 # archive)
     \<and> archive_reader_new demo_crc demo_decoders demo_libs 20 None \<lparr>cur_data = archive, cur_pos = 0\<rparr> [] = Ok rd
     \<and> read_file demo_crc demo_decoders demo_libs demo_bcj2 (\<lambda>k. 32) 20 rd [97] = Ok ([1, 2, 3], rd\<lparr>rd_source := f'\<rparr>)"
proof -
  obtain aw0 aw where aw: "new_writer demo_env [stored, swapped] False = Ok aw0" "push_all demo_env 20 demo_pushed aw0 = Ok aw"
    and fit: "list_all (\<lambda>c. c \<noteq> 0) (pi_crcs (w_pack_info aw))" "files_ok (map plain_entry demo_pushed)"
      "finish_fits demo_libs demo_codecs demo_crc [((=), Lzma_encoder (Some ()))] (cur_pos (w_output aw) - 32) aw"
      "list_all (codec_ok demo_libs) [stored, swapped]" "list_all (codec_ok demo_libs) (header_methods False [stored, swapped])"
      "length (header_methods False [stored, swapped]) < 20" "list_all (can_be_pushed 20) demo_pushed"
    using demo_archive [OF demo_names(1)] by (elim exE conjE) (rule that; assumption)
  obtain g rd f' where g: "finish_archive demo_env aw = Ok g" "archive_reader_new demo_crc demo_decoders demo_libs 20 None g [] = Ok rd"
    "read_file demo_crc demo_decoders demo_libs demo_bcj2 (\<lambda>k. 32) 20 rd [97] = Ok ([1, 2, 3], rd\<lparr>rd_source := f'\<rparr>)"
    using written_archive_is_read [where sizes = "\<lambda>k. 32" and parallelism = None and B = demo_bcj2 and pw = "[]", OF demo_valid_decoder demo_cipher
      demo_swapped_undone' demo_lzma_undone demo_methods_ok demo_header_methods_ok fit(4,5) _ fit(6) _ _ aw fit(7,2) _ fit(1,3)]
    by (auto simp: new_file_def)
  let ?ops = "[Set_content_methods [stored, swapped], Set_encrypt_header False, Push_entry (new_file [97]) (Some [1, 2, 3])]
     :: (bytes, unit, vec_provider) writer_op list"
  have "archived demo_env vec_provider_ops slice_read (\<lambda>p info. (Continue, p :: unit)) 20 ?ops = Ok ([Done, Done, Done], g)"
    using aw g(1) by (auto simp: archived_def new_writer_def push_all_def and_then_Ok_iff)
  with streaming_writer_equivalent [OF vec.byte_sink_axioms, of "[9]" "[9]" demo_env vec_provider_ops slice_read "\<lambda>p info. (Continue, p :: unit)" 20 ?ops
      demo_crc demo_decoders demo_libs 20 None "[]"] g(2,3)
  show ?thesis by auto
qed

end
