(* ===== verification/Nt_Time.thy ===== *)
theory Nt_Time
  imports Archive_Model
begin

text \<open>
  \<^verbatim>\<open>src/src/time.rs\<close>: the times of entries, which count intervals of 100 nanoseconds, and their
  conversions to and from \<open>SystemTime\<close>. A \<open>SystemTime\<close> is the number of nanoseconds since the
  Unix epoch, a \<open>Duration\<close> a number of nanoseconds; seconds are an \<open>i64\<close> on the modelled target,
  so no sum below leaves their range. The clock is a parameter of \<open>nt_now\<close>.
\<close>

datatype nt_time_error = Negative | Overflow

type_synonym system_time = int
type_synonym duration = nat

definition file_times_per_sec :: u64 where "file_times_per_sec = 10000000"

definition unix_epoch :: nt_time where "unix_epoch = 134774 * 86400 * file_times_per_sec"

definition nt_time_epoch :: nt_time where "nt_time_epoch = 0"

definition nt_time_new :: "u64 \<Rightarrow> nt_time" where "nt_time_new ft = ft"

text \<open>\<open>Duration::new\<close> carries full seconds of the nanoseconds and panics when they overflow.\<close>

definition duration_new :: "u64 \<Rightarrow> u32 \<Rightarrow> ('e, duration) outcome" where
  "duration_new secs nanos =
     (let n = unat secs * 10 ^ 9 + unat nanos in if n div 10 ^ 9 < 2 ^ 64 then Ok n else Panic)"

text \<open>\<open>u32::try_from(..).expect(..)\<close>\<close>

definition expect_u32 :: "u64 \<Rightarrow> ('e, u32) outcome" where
  "expect_u32 x = (if unat x < 2 ^ 32 then Ok (ucast x) else Panic)"

definition time_to_duration :: "u64 \<Rightarrow> ('e, duration) outcome" where
  "time_to_duration t =
     and_then (expect_u32 (t mod file_times_per_sec * 100)) (\<lambda>nanos.
     duration_new (t div file_times_per_sec) nanos)"

definition nt_time_sub :: "nt_time \<Rightarrow> nt_time \<Rightarrow> ('e, duration) outcome" where
  "nt_time_sub a b = time_to_duration (a - b)"

definition system_time_from :: "nt_time \<Rightarrow> ('e, system_time) outcome" where
  "system_time_from file_time =
     and_then (time_to_duration file_time) (\<lambda>duration.
     and_then (nt_time_sub unix_epoch nt_time_epoch) (\<lambda>epoch.
     Ok (0 - int epoch + int duration)))"

definition nt_time_from_system :: "system_time \<Rightarrow> (nt_time_error, nt_time) outcome" where
  "nt_time_from_system st =
     and_then (nt_time_sub unix_epoch nt_time_epoch) (\<lambda>epoch.
     let elapsed = st - (0 - int epoch) in
     if elapsed < 0 then Err Negative
     else
       let file_time = nat elapsed div 100 in
       if file_time < 2 ^ 64 then Ok (nt_time_new (of_nat file_time)) else Err Overflow)"

text \<open>\<open>TryFrom<i64>\<close>, with the \<open>i64\<close> given by its bits.\<close>

definition nt_time_from_i64 :: "u64 \<Rightarrow> (nt_time_error, nt_time) outcome" where
  "nt_time_from_i64 x = (if sint x < 0 then Err Negative else Ok (nt_time_new x))"

definition nt_now :: "system_time \<Rightarrow> (nt_time_error, nt_time) outcome" where
  "nt_now clock = (case nt_time_from_system clock of Err _ \<Rightarrow> Panic | r \<Rightarrow> r)"

section \<open>Durations are exact\<close>

lemma unat_file_times: "unat (t div file_times_per_sec) = unat t div 10000000"
  "unat (t mod file_times_per_sec) = unat t mod 10000000"
  by (simp_all add: file_times_per_sec_def unat_div unat_mod)

lemma unat_nanos: "unat (t mod file_times_per_sec * 100) = unat t mod 10000000 * 100"
proof -
  have "unat t mod 10000000 * 100 < 10000000 * 100" by (intro mult_strict_right_mono) auto
  then have "unat (t mod file_times_per_sec) * unat (100 :: u64) < 2 ^ LENGTH(64)"
    by (simp add: unat_file_times)
  from unat_mult_lem [THEN iffD1, OF this] show ?thesis by (simp add: unat_file_times)
qed

lemma time_to_duration_exact: "time_to_duration t = Ok (unat t * 100)"
proof -
  have n: "unat (t mod file_times_per_sec * 100) < 10 ^ 9"
    unfolding unat_nanos using mod_less_divisor [of 10000000 "unat t"] by simp
  then have small: "unat (t mod file_times_per_sec * 100) < 2 ^ 32" by simp
  then have "unat (ucast (t mod file_times_per_sec * 100) :: u32) = unat (t mod file_times_per_sec * 100)"
    by (simp add: unsigned_ucast_eq take_bit_nat_eq_self)
  moreover have "unat t div 10000000 * 1000000000 + unat t mod 10000000 * 100 = unat t * 100"
    using div_mult_mod_eq [of "unat t" 10000000] by linarith
  moreover have "unat t * 100 div 10 ^ 9 < 2 ^ 64" using unsigned_less [where ?'a = nat, of t] by simp
  ultimately show ?thesis using small
    by (simp add: time_to_duration_def expect_u32_def duration_new_def unat_file_times unat_nanos Let_def)
qed

text \<open>From 0001-01-01 (in the code's words) to the Unix epoch, in nanoseconds.\<close>

definition epoch_nanos :: int where "epoch_nanos = 11644473600 * 10 ^ 9"

lemma epoch_exact: "nt_time_sub unix_epoch nt_time_epoch = Ok (nat epoch_nanos)"
  by (simp add: nt_time_sub_def time_to_duration_exact unix_epoch_def nt_time_epoch_def file_times_per_sec_def epoch_nanos_def)

lemma system_time_exact: "system_time_from t = Ok (100 * uint t - epoch_nanos)"
  by (simp add: system_time_from_def time_to_duration_exact epoch_exact epoch_nanos_def)

lemma nt_time_exact:
  "nt_time_from_system st =
     (if st < - epoch_nanos then Err Negative
      else if 2 ^ 64 \<le> (st + epoch_nanos) div 100 then Err Overflow
      else Ok (of_int ((st + epoch_nanos) div 100)))"
proof -
  have e: "int (nat epoch_nanos) = epoch_nanos" "0 \<le> epoch_nanos" by (simp_all add: epoch_nanos_def)
  show ?thesis
  proof (cases "st < - epoch_nanos")
    case True
    then show ?thesis by (simp add: nt_time_from_system_def epoch_exact e Let_def)
  next
    case False
    then have q: "int (nat (st + epoch_nanos) div 100) = (st + epoch_nanos) div 100" by simp
    have "(m < 2 ^ 64) = (int m < 2 ^ 64)" for m by simp
    from this [of "nat (st + epoch_nanos) div 100"]
    have "(nat (st + epoch_nanos) div 100 < 2 ^ 64) = ((st + epoch_nanos) div 100 < 2 ^ 64)"
      by (simp only: q)
    moreover have "(of_nat (nat (st + epoch_nanos) div 100) :: u64) = of_int ((st + epoch_nanos) div 100)"
      by (simp only: q [symmetric] of_int_of_nat_eq)
    ultimately have q': "(nat (st + epoch_nanos) div 100 < 2 ^ 64) = ((st + epoch_nanos) div 100 < 2 ^ 64)"
      "(of_nat (nat (st + epoch_nanos) div 100) :: u64) = of_int ((st + epoch_nanos) div 100)" by blast+
    with False show ?thesis using q' by (simp add: nt_time_from_system_def epoch_exact e Let_def nt_time_new_def)
  qed
qed

end
