(* ===== verification/Perf_Properties.thy ===== *)
theory Perf_Properties
  imports Perf Nt_Time
begin

text \<open>The properties of \<^verbatim>\<open>src/src/perf.rs\<close> and \<^verbatim>\<open>src/src/time.rs\<close>.\<close>

section \<open>Performance utilities\<close>

text \<open>C37: a pool stays within its limits, whatever its clients do with handles: they take one, change
  its buffer as they like, take the buffer out, or give the handle back. The pool keeps at most the
  configured number of buffers, and every buffer, in the pool or in use, has the configured length
  or a length that a client has given to a buffer. So if the clients keep the length of their
  buffers all of them have the configured one. A client that clears its buffer leaves an empty one
  in the pool (\<open>emptied_buffer_is_kept\<close>).\<close>

theorem buffer_pool_bounded:
  assumes "pool_reachable (pool_new m n) lengths (p, handles)"
  shows "available_count p \<le> clamp m 1 256 \<and> available_count p \<le> 256
     \<and> (\<forall>b\<in>set (bp_buffers p). length b = clamp n small_buffer_size max_buffer_size \<or> length b \<in> set lengths)
     \<and> (\<forall>h\<in>set handles. \<exists>b. pooled_into_vec h = Ok b
          \<and> (length b = clamp n small_buffer_size max_buffer_size \<or> length b \<in> set lengths))"
  using pool_ok_reachable [OF assms]
  by (fastforce simp: pool_ok_def available_count_def clamp_def pooled_into_vec_def split: if_splits)

lemma emptied_buffer_is_kept:
  "\<exists>p. pool_reachable (pool_new m n) [0] (p, []) \<and> bp_buffers p = [[]]"
proof -
  let ?n = "clamp n small_buffer_size max_buffer_size" and ?p = "pool_new m n"
  have "pool_get ?p = (Some (replicate ?n 0), ?p)" by (simp add: pool_get_def pool_new_def)
  from pool_next [OF pool_start pool_take [OF this]] have one: "pool_reachable ?p [] (?p, [Some (replicate ?n 0)])" by simp
  have two: "pool_reachable ?p [0] (?p, [Some []])"
    using pool_next [OF one pool_fill [of 0 _ _ _ "[]"]] by simp
  have "0 < bp_max_buffers ?p" by (auto simp: pool_new_def clamp_def)
  then show ?thesis using pool_next [OF two pool_drop [of 0]]
    by (auto simp: pooled_drop_def return_buffer_def pool_new_def split: if_splits)
qed

theorem buffer_pool_bounded_witness:
  "\<exists>p. pool_reachable (pool_new 0 1) [7] (p, [Some (replicate 7 1)]) \<and> available_count p \<le> 1"
proof -
  have "pool_get (pool_new 0 1) = (Some (replicate 4096 0), pool_new 0 1)"
    by (simp add: pool_get_def pool_new_def buffer_sizes clamp_def)
  from pool_next [OF pool_start pool_take [OF this]]
  have "pool_reachable (pool_new 0 1) [] (pool_new 0 1, [Some (replicate 4096 0)])" by simp
  from pool_next [OF this pool_fill [of 0 _ _ _ "replicate 7 1"]]
  have r: "pool_reachable (pool_new 0 1) [7] (pool_new 0 1, [Some (replicate 7 1)])" by simp
  with buffer_pool_bounded [OF r] show ?thesis by (auto simp: clamp_def)
qed

text \<open>The setters of \<open>FileSizeThresholds\<close>, in the order of their fields and from any of the
  presets, never pass bounds to \<open>clamp\<close> that are out of order (it would panic), and give
  thresholds in order. Then a larger file gets no smaller a buffer, and the buffer of a size is that of its category.\<close>

theorem thresholds_in_order:
  assumes "t \<in> {thresholds_default, thresholds_for_tiny_files, thresholds_for_mixed_workload, thresholds_for_large_files}"
    and "a \<le> b"
  shows "\<exists>t'. (and_then (with_small_threshold (with_tiny_threshold t x) y) (\<lambda>t. with_medium_threshold t z)
         :: (error, file_size_thresholds) outcome) = Ok t'
     \<and> tiny_threshold t' \<le> small_threshold t' \<and> small_threshold t' \<le> medium_threshold t'
     \<and> buffer_size_for t' a \<le> buffer_size_for t' b \<and> category_buffer_size (categorize t' a) = buffer_size_for t' a"
proof -
  have "thresholds_ok t" using assms(1) presets_ok by auto
  from thresholds_built [OF this, where ?'e = error] obtain t' where
    t': "(and_then (with_small_threshold (with_tiny_threshold t x) y) (\<lambda>t. with_medium_threshold t z)
         :: (error, file_size_thresholds) outcome) = Ok t'"
    "tiny_threshold t' \<le> small_threshold t'" "small_threshold t' \<le> medium_threshold t'" by blast
  have "buffer_size_for t' a \<le> buffer_size_for t' b"
    using assms(2) t'(2,3) by (auto simp: buffer_size_for_def buffer_sizes)
  with t' show ?thesis by (auto simp: category_buffer)
qed

theorem thresholds_in_order_witness:
  "\<exists>t'. (and_then (with_small_threshold (with_tiny_threshold thresholds_for_large_files 0) 0) (\<lambda>t. with_medium_threshold t 0)
         :: (error, file_size_thresholds) outcome) = Ok t'
     \<and> buffer_size_for t' 100 \<le> buffer_size_for t' 1000"
  using thresholds_in_order [of thresholds_for_large_files 100 1000 0 0 0] by auto

text \<open>The statistics of two sets of files, merged, are those of all the files, however they
  are divided among the threads that record them, and in whatever order they are merged.\<close>

theorem statistics_merge:
  "stats_merge (record_files stats_new fs) (record_files stats_new gs) = record_files stats_new (fs @ gs)
   \<and> stats_merge (record_files stats_new fs) (record_files stats_new gs)
     = stats_merge (record_files stats_new gs) (record_files stats_new fs)"
  using record_files_append [of fs gs] stats_merge_commute by simp

text \<open>A \<open>PrefetchQueue\<close> gives its items in order, and after each the callback is told the next
  ones: as many as the lookahead says and there are, numbered from the next item on.\<close>

theorem prefetch_queue_in_order:
  assumes "length items < 2 ^ 63"
  shows "drain f (length items) (queue_new f items n c) = items
     \<and> (0 < length items \<longrightarrow> (\<exists>hints. pq_callback (queue_new f items n c) = f c hints
          \<and> map hint_id hints = take (clamp n 1 max_lookahead_count) items
          \<and> map hint_lookahead_index hints = [0..<min (clamp n 1 max_lookahead_count) (length items)]))"
proof
  show "drain f (length items) (queue_new f items n c) = items"
    by (simp add: drain_drop queue_new_def)
next
  let ?q = "\<lparr>pq_items = items, pq_current_index = 0, pq_lookahead_count = clamp n 1 max_lookahead_count, pq_callback = c\<rparr>"
  have "0 < clamp n 1 max_lookahead_count" "clamp n 1 max_lookahead_count < 2 ^ 64"
    by (auto simp: clamp_def max_lookahead_count_def)
  then show "0 < length items \<longrightarrow> (\<exists>hints. pq_callback (queue_new f items n c) = f c hints
          \<and> map hint_id hints = take (clamp n 1 max_lookahead_count) items
          \<and> map hint_lookahead_index hints = [0..<min (clamp n 1 max_lookahead_count) (length items)])"
    using send_hints_window [of ?q f] by (auto simp: queue_new_def queue_remaining_def)
qed

theorem prefetch_queue_in_order_witness:
  "drain (\<lambda>c hints. hints) 3 (queue_new (\<lambda>c hints. hints) [7, 8, 9 :: nat] 2 []) = [7, 8, 9]
     \<and> map hint_id (pq_callback (queue_new (\<lambda>c hints. hints) [7, 8, 9 :: nat] 2 [])) = [7, 8]"
  using prefetch_queue_in_order [of "[7, 8, 9 :: nat]" "\<lambda>c hints. hints" 2 "[]"]
  by (auto simp: clamp_def max_lookahead_count_def numeral_3_eq_3)

text \<open>\<open>buffered_copy\<close> and \<open>buffered_copy_with_crc\<close> end, give the writer exactly what the reader
  had, and return its length and CRC, for every reader and writer that keep their contracts and
  every buffer that is not empty.\<close>

theorem buffered_copies:
  assumes "byte_source read contents ready" and "byte_sink put write_all flush took"
    and "ready r" and "took w d" and "0 < n" and "length (contents r) < fuel"
  shows "(\<exists>r' w'. buffered_copy read write_all fuel r w n = Ok (of_nat (length (contents r)), r', w') \<and> took w' (d @ contents r))
     \<and> (\<exists>r' w'. buffered_copy_with_crc crc32 read write_all fuel r w n
          = Ok (of_nat (length (contents r)), crc32 (contents r), r', w') \<and> took w' (d @ contents r))"
proof -
  note copying = copying.intro [OF assms(1,2)]
  from copying.buffered_copy_loop_copies [OF copying assms(3-6), of 0]
    copying.buffered_copy_crc_loop_copies [OF copying assms(3-6), of 0 "[]"]
  show ?thesis by (auto simp: buffered_copy_def buffered_copy_with_crc_def)
qed

theorem buffered_copies_witness:
  "\<exists>r'. buffered_copy_with_crc (\<lambda>bs. of_nat (length bs)) slice_read vec_write_all 6 [1, 2, 3, 4, 5] [9] 2
     = Ok (5, 5, r', [9, 1, 2, 3, 4, 5])"
  using buffered_copies [OF slice.byte_source_axioms vec.byte_sink_axioms, where r = "[1, 2, 3, 4, 5]" and w = "[9]" and d = "[9]"
      and n = 2 and fuel = 6 and ?crc32.0 = "\<lambda>bs. of_nat (length bs)"]
  by auto

section \<open>Times\<close>

text \<open>C38: times are converted without loss. Every \<open>NtTime\<close> is a \<open>SystemTime\<close>, without a panic, and
  comes back from it unchanged. In the other direction a \<open>SystemTime\<close> before the epoch is the error
  \<open>Negative\<close>, one that is too late the error \<open>Overflow\<close>, and any other is rounded down to a
  multiple of 100 nanoseconds.\<close>

theorem times_convert:
  "system_time_from t = Ok (100 * uint t - epoch_nanos)
   \<and> and_then (system_time_from t) nt_time_from_system = Ok t
   \<and> (case nt_time_from_system st of
        Err Negative \<Rightarrow> st < - epoch_nanos
      | Err Overflow \<Rightarrow> (100 :: int) * 2 ^ 64 \<le> st + epoch_nanos
      | Ok u \<Rightarrow> (case system_time_from u of Ok st' \<Rightarrow> st' \<le> st \<and> st < st' + 100 | (_ :: (nt_time_error, int) outcome) \<Rightarrow> False)
      | _ \<Rightarrow> False)"
proof (intro conjI)
  show "system_time_from t = Ok (100 * uint t - epoch_nanos)" by (rule system_time_exact)
  show "and_then (system_time_from t) nt_time_from_system = Ok t"
    using uint_lt2p [of t] by (simp add: system_time_exact nt_time_exact)
next
  let ?q = "(st + epoch_nanos) div 100"
  have u: "uint (of_int ?q :: u64) = ?q" if "0 \<le> ?q" "?q < 2 ^ 64"
    using that by (simp add: unsigned_of_int take_bit_int_eq_self)
  show "case nt_time_from_system st of
        Err Negative \<Rightarrow> st < - epoch_nanos
      | Err Overflow \<Rightarrow> (100 :: int) * 2 ^ 64 \<le> st + epoch_nanos
      | Ok u \<Rightarrow> (case system_time_from u of Ok st' \<Rightarrow> st' \<le> st \<and> st < st' + 100 | (_ :: (nt_time_error, int) outcome) \<Rightarrow> False)
      | _ \<Rightarrow> False"
    using u by (auto simp: nt_time_exact system_time_exact)
qed

end
