(* ===== verification/Background_Reader.thy ===== *)
theory Background_Reader
  imports Perf "HOL-Library.Sublist"
begin

text \<open>
  \<^verbatim>\<open>src/src/writer/parallel_reader.rs\<close>: readers that fetch large pieces, one of them on a thread
  of its own. The thread and the caller of \<open>BackgroundReader\<close> are two processes with a channel
  between them; their steps may be taken in any order. The thread stops early when the receiver
  is dropped, but then nobody reads any more.
\<close>

section \<open>ParallelPrefetchReader\<close>

definition min_prefetch_count :: usize where "min_prefetch_count = 1"
definition max_prefetch_count :: usize where "max_prefetch_count = 16"
definition default_prefetch_count :: usize where "default_prefetch_count = 2"

record 's prefetch_reader =
  pf_sources :: "'s list"
  pf_buffer_size :: usize
  pf_prefetch_count :: usize

definition prefetch_new :: "'s list \<Rightarrow> 's prefetch_reader" where
  "prefetch_new sources =
     \<lparr>pf_sources = sources, pf_buffer_size = large_buffer_size, pf_prefetch_count = default_prefetch_count\<rparr>"

definition prefetch_with_buffer_size :: "'s prefetch_reader \<Rightarrow> usize \<Rightarrow> 's prefetch_reader" where
  "prefetch_with_buffer_size r n = r\<lparr>pf_buffer_size := clamp n small_buffer_size max_buffer_size\<rparr>"

definition prefetch_with_count :: "'s prefetch_reader \<Rightarrow> usize \<Rightarrow> 's prefetch_reader" where
  "prefetch_with_count r n = r\<lparr>pf_prefetch_count := clamp n min_prefetch_count max_prefetch_count\<rparr>"

definition prefetch_from_config :: "'s list \<Rightarrow> parallel_config \<Rightarrow> 's prefetch_reader" where
  "prefetch_from_config sources config =
     \<lparr>pf_sources = sources, pf_buffer_size = pc_buffer_size config, pf_prefetch_count = default_prefetch_count\<rparr>"

section \<open>BufferedChunkReader\<close>

text \<open>The hasher is the bytes it was given.\<close>

record 's chunk_reader =
  ck_inner :: 's
  ck_buffer_size :: usize
  ck_hasher :: bytes
  ck_total_read :: u64

definition chunk_reader_new :: "'s \<Rightarrow> usize \<Rightarrow> 's chunk_reader" where
  "chunk_reader_new inner n = \<lparr>ck_inner = inner, ck_buffer_size = n, ck_hasher = [], ck_total_read = 0\<rparr>"

fun fill_chunk :: "'s reading \<Rightarrow> usize \<Rightarrow> nat \<Rightarrow> bytes \<Rightarrow> 's \<Rightarrow> (bytes \<times> 's) io_result" where
  "fill_chunk read cap 0 acc s = OutOfFuel"
| "fill_chunk read cap (Suc fuel) acc s =
     (if length acc < cap then
        and_then (read s (cap - length acc)) (\<lambda>(bs, s).
        if bs = [] then Ok (acc, s) else fill_chunk read cap fuel (acc @ bs) s)
      else Ok (acc, s))"

definition read_chunk :: "'s reading \<Rightarrow> nat \<Rightarrow> 's chunk_reader \<Rightarrow> (bytes \<times> 's chunk_reader) io_result" where
  "read_chunk read fuel c =
     and_then (fill_chunk read (ck_buffer_size c) fuel [] (ck_inner c)) (\<lambda>(bs, s).
     Ok (bs, c\<lparr>ck_inner := s, ck_hasher := ck_hasher c @ bs, ck_total_read := ck_total_read c + of_nat (length bs)\<rparr>))"

definition chunk_reader_read :: "'s reading \<Rightarrow> 's chunk_reader reading" where
  "chunk_reader_read read c n =
     and_then (read (ck_inner c) n) (\<lambda>(bs, s).
     Ok (bs, if bs = [] then c\<lparr>ck_inner := s\<rparr>
             else c\<lparr>ck_inner := s, ck_hasher := ck_hasher c @ bs, ck_total_read := ck_total_read c + of_nat (length bs)\<rparr>))"

definition finalize_crc :: "(bytes \<Rightarrow> u32) \<Rightarrow> 's chunk_reader \<Rightarrow> u32" where
  "finalize_crc crc32 c = crc32 (ck_hasher c)"

section \<open>BackgroundReader\<close>

text \<open>The thread with the buffer that it fills and its source, until it returns.\<close>

datatype 's producer = Filling bytes 's | Returned

record 's background_reader =
  bg_thread :: "'s producer"
  bg_channel :: "bytes io_result list"
  bg_current_buffer :: "bytes option"
  bg_position :: usize

definition background_new :: "'s \<Rightarrow> 's background_reader" where
  "background_new source =
     \<lparr>bg_thread = Filling [] source, bg_channel = [], bg_current_buffer = None, bg_position = 0\<rparr>"

text \<open>A full or last buffer is sent; an empty one signals the end, and the thread returns.\<close>

definition send_buffer :: "bytes \<Rightarrow> 's \<Rightarrow> bytes io_result list \<Rightarrow> 's producer \<times> bytes io_result list" where
  "send_buffer acc s q =
     (if acc = [] then (Returned, q @ [Ok []]) else (Filling [] s, q @ [Ok acc]))"

text \<open>One turn of the inner loop, with what follows it when it ends. A panic ends the thread.\<close>

definition thread_turn :: "'s reading \<Rightarrow> usize \<Rightarrow> bytes \<Rightarrow> 's \<Rightarrow> bytes io_result list \<Rightarrow> 's producer \<times> bytes io_result list" where
  "thread_turn read cap acc s q =
     (if length acc < cap then
        (case read s (cap - length acc) of
           Ok (bs, s) \<Rightarrow> if bs = [] then send_buffer acc s q else (Filling (acc @ bs) s, q)
         | Err e \<Rightarrow> (Returned, q @ [Err e])
         | _ \<Rightarrow> (Returned, q))
      else send_buffer acc s q)"

definition take_from :: "'s background_reader \<Rightarrow> bytes \<Rightarrow> usize \<Rightarrow> bytes \<times> 's background_reader" where
  "take_from b buffer n =
     (let k = min (length buffer) n in
      (take k buffer,
       if k < length buffer then b\<lparr>bg_current_buffer := Some buffer, bg_position := k\<rparr>
       else b\<lparr>bg_current_buffer := None, bg_position := 0\<rparr>))"

definition broken_pipe :: io_error where
  "broken_pipe = Io_simple BrokenPipe ''Background reader thread terminated''"

text \<open>\<open>read\<close>; without an answer while it waits for the channel.\<close>

definition background_receive :: "'s background_reader \<Rightarrow> usize \<Rightarrow> (bytes \<times> 's background_reader) io_result option" where
  "background_receive b n =
     (case bg_channel b of
        [] \<Rightarrow>
          (case bg_thread b of
             Returned \<Rightarrow> Some (Err broken_pipe)
           | Filling acc s \<Rightarrow> None)
      | m # q \<Rightarrow>
          let b = b\<lparr>bg_channel := q\<rparr> in
          Some (and_then m (\<lambda>buffer. if buffer = [] then Ok ([], b) else Ok (take_from b buffer n))))"

definition background_read :: "'s background_reader \<Rightarrow> usize \<Rightarrow> (bytes \<times> 's background_reader) io_result option" where
  "background_read b n =
     (case bg_current_buffer b of
        Some cur \<Rightarrow>
          if bg_position b < length cur then
            let k = min (length cur - bg_position b) n in
            Some (Ok (take k (drop (bg_position b) cur), b\<lparr>bg_position := bg_position b + k\<rparr>))
          else background_receive b n
      | None \<Rightarrow> background_receive b n)"

text \<open>The steps of the two, with what the caller was given so far.\<close>

inductive background_step ::
    "'s reading \<Rightarrow> usize \<Rightarrow> 's background_reader \<times> bytes \<Rightarrow> 's background_reader \<times> bytes \<Rightarrow> bool" for read cap where
  thread_runs: "bg_thread b = Filling acc s \<Longrightarrow> thread_turn read cap acc s (bg_channel b) = (t, q) \<Longrightarrow>
     background_step read cap (b, given) (b\<lparr>bg_thread := t, bg_channel := q\<rparr>, given)"
| caller_reads: "background_read b n = Some (Ok (bs, b')) \<Longrightarrow> background_step read cap (b, given) (b', given @ bs)"

inductive background_reachable :: "'s reading \<Rightarrow> usize \<Rightarrow> 's \<Rightarrow> 's background_reader \<times> bytes \<Rightarrow> bool" for read cap source where
  background_start: "background_reachable read cap source (background_new source, [])"
| background_next: "background_reachable read cap source x \<Longrightarrow> background_step read cap x y \<Longrightarrow>
     background_reachable read cap source y"

text \<open>The thread runs for some turns while the caller waits.\<close>

fun run_thread :: "'s reading \<Rightarrow> usize \<Rightarrow> nat \<Rightarrow> 's background_reader \<Rightarrow> 's background_reader" where
  "run_thread read cap 0 b = b"
| "run_thread read cap (Suc k) b =
     (case bg_thread b of
        Returned \<Rightarrow> b
      | Filling acc s \<Rightarrow>
          (case thread_turn read cap acc s (bg_channel b) of
             (t, q) \<Rightarrow> run_thread read cap k (b\<lparr>bg_thread := t, bg_channel := q\<rparr>)))"

section \<open>Chunks\<close>

context byte_source
begin

lemma fill_chunk_fills:
  "ready s \<Longrightarrow> cap - length acc < fuel \<Longrightarrow> length acc \<le> cap \<Longrightarrow>
   \<exists>s'. fill_chunk read cap fuel acc s = Ok (acc @ take (cap - length acc) (contents s), s')
      \<and> contents s' = drop (cap - length acc) (contents s) \<and> ready s'"
proof (induction fuel arbitrary: acc s)
  case (Suc fuel)
  show ?case
  proof (cases "length acc < cap")
    case True
    obtain bs s' where r: "read s (cap - length acc) = Ok (bs, s')" using total Suc.prems(1) by blast
    note nb = next_bytes [OF Suc.prems(1) r]
    show ?thesis
    proof (cases "bs = []")
      case b: True
      with end_only [OF Suc.prems(1), of "cap - length acc" s'] r True have "contents s = []" by simp
      with b nb r True show ?thesis by simp
    next
      case False
      then have "cap - length (acc @ bs) < fuel" "length (acc @ bs) \<le> cap" using nb Suc.prems(2) True by (cases bs; simp)+
      from Suc.IH [OF _ this] nb obtain s'' where
        s'': "fill_chunk read cap fuel (acc @ bs) s' = Ok ((acc @ bs) @ take (cap - length (acc @ bs)) (contents s'), s'')"
        "contents s'' = drop (cap - length (acc @ bs)) (contents s')" "ready s''" by blast
      define x where "x = cap - length (acc @ bs)"
      have "cap - length acc = length bs + x" unfolding x_def length_append using nb True by linarith
      then have "take (cap - length acc) (contents s) = bs @ take x (contents s')"
        "drop (cap - length acc) (contents s) = drop x (contents s')" using nb by simp_all
      with s'' r True False show ?thesis unfolding x_def by simp
    qed
  qed (use Suc.prems in simp)
qed simp

lemma read_chunk_reads:
  assumes "ready (ck_inner c)" and "ck_buffer_size c < fuel"
  shows "\<exists>c'. read_chunk read fuel c = Ok (take (ck_buffer_size c) (contents (ck_inner c)), c')
     \<and> contents (ck_inner c') = drop (ck_buffer_size c) (contents (ck_inner c)) \<and> ready (ck_inner c')
     \<and> ck_hasher c' = ck_hasher c @ take (ck_buffer_size c) (contents (ck_inner c)) \<and> ck_buffer_size c' = ck_buffer_size c"
  using fill_chunk_fills [OF assms(1), of "ck_buffer_size c" "[]" fuel] assms(2) by (auto simp: read_chunk_def)

end

section \<open>The channel keeps the order\<close>

definition current_rest :: "'s background_reader \<Rightarrow> bytes" where
  "current_rest b = (case bg_current_buffer b of None \<Rightarrow> [] | Some cur \<Rightarrow> drop (bg_position b) cur)"

lemma current_rest_simps [simp]:
  "current_rest (b\<lparr>bg_channel := q\<rparr>) = current_rest b" "current_rest (b\<lparr>bg_thread := t\<rparr>) = current_rest b"
  by (simp_all add: current_rest_def split: option.split)

lemma read_broken:
  assumes "bg_thread b = Returned" and "bg_channel b = []" and "current_rest b = []"
  shows "background_read b m = Some (Err broken_pipe)"
  using assms by (auto simp: background_read_def background_receive_def current_rest_def split: option.splits)

definition thread_rest :: "('s \<Rightarrow> bytes) \<Rightarrow> 's producer \<Rightarrow> bytes" where
  "thread_rest contents t = (case t of Returned \<Rightarrow> [] | Filling acc s \<Rightarrow> acc @ contents s)"

definition channel_holds :: "('s \<Rightarrow> bool) \<Rightarrow> 's background_reader \<Rightarrow> bytes list \<Rightarrow> bool" where
  "channel_holds ready b bufs \<longleftrightarrow> [] \<notin> set bufs
     \<and> (case bg_thread b of
          Filling acc s \<Rightarrow> ready s \<and> bg_channel b = map Ok bufs
        | Returned \<Rightarrow> bg_channel b = map Ok bufs @ [Ok []] \<or> (bg_channel b = [] \<and> bufs = [] \<and> current_rest b = []))"

definition background_inv :: "('s \<Rightarrow> bytes) \<Rightarrow> ('s \<Rightarrow> bool) \<Rightarrow> bytes \<Rightarrow> 's background_reader \<times> bytes \<Rightarrow> bool" where
  "background_inv contents ready d x \<longleftrightarrow> (\<exists>bufs. channel_holds ready (fst x) bufs
     \<and> snd x @ current_rest (fst x) @ concat bufs @ thread_rest contents (bg_thread (fst x)) = d)"

text \<open>Every turn of the thread brings it nearer to its end.\<close>

definition thread_work :: "('s \<Rightarrow> bytes) \<Rightarrow> 's producer \<Rightarrow> nat" where
  "thread_work contents t =
     (case t of Returned \<Rightarrow> 0 | Filling acc s \<Rightarrow> 2 * length (contents s) + (if acc = [] then 1 else 2))"

context byte_source
begin

lemma thread_turn_keeps:
  assumes t: "bg_thread b = Filling acc s" and turn: "thread_turn read cap acc s (bg_channel b) = (t, q)"
    and holds: "channel_holds ready b bufs" and cap: "0 < cap"
  shows "\<exists>bufs'. channel_holds ready (b\<lparr>bg_thread := t, bg_channel := q\<rparr>) bufs'
     \<and> concat bufs' @ thread_rest contents t = concat bufs @ acc @ contents s"
proof -
  have ready: "ready s" and q0: "bg_channel b = map Ok bufs" and ne: "[] \<notin> set bufs"
    using holds t by (simp_all add: channel_holds_def)
  have send: ?thesis if s': "ready s'" "contents s' = contents s" "acc = [] \<longrightarrow> contents s = []"
    and "(t, q) = send_buffer acc s' (bg_channel b)" for s'
  proof (cases "acc = []")
    case True
    with that q0 ne show ?thesis
      by (intro exI [of _ bufs]) (simp add: send_buffer_def channel_holds_def thread_rest_def)
  next
    case False
    with that q0 ne show ?thesis
      by (intro exI [of _ "bufs @ [acc]"]) (auto simp: send_buffer_def channel_holds_def thread_rest_def)
  qed
  show ?thesis
  proof (cases "length acc < cap")
    case True
    obtain bs s' where r: "read s (cap - length acc) = Ok (bs, s')" using total ready by blast
    note nb = next_bytes [OF ready r]
    show ?thesis
    proof (cases "bs = []")
      case b: True
      with end_only [OF ready, of "cap - length acc" s'] r True have "contents s = []" by simp
      with send [of s'] nb b r True turn show ?thesis by (simp add: thread_turn_def)
    next
      case False
      with r True turn have "t = Filling (acc @ bs) s'" "q = bg_channel b" by (simp_all add: thread_turn_def)
      with nb q0 ne show ?thesis
        by (intro exI [of _ bufs]) (simp add: channel_holds_def thread_rest_def)
    qed
  next
    case False
    then have "acc \<noteq> []" using cap by auto
    with send [of s] ready False turn show ?thesis by (simp add: thread_turn_def)
  qed
qed

lemma take_from_rest:
  "take_from b buffer n = (bs, b') \<Longrightarrow> bs = take n buffer \<and> current_rest b' = drop n buffer
     \<and> bg_thread b' = bg_thread b \<and> bg_channel b' = bg_channel b"
  by (auto simp: take_from_def current_rest_def Let_def min_def split: if_splits)

lemma receive_keeps:
  assumes holds: "channel_holds ready b bufs" and cur: "current_rest b = []"
  shows "case background_receive b n of
           None \<Rightarrow> bufs = [] \<and> bg_thread b \<noteq> Returned
         | Some (Ok (bs, b')) \<Rightarrow> (\<exists>bufs'. channel_holds ready b' bufs' \<and> bs @ current_rest b' @ concat bufs' = concat bufs)
             \<and> bg_thread b' = bg_thread b \<and> length bs \<le> n
             \<and> (bs = [] \<longrightarrow> 0 < n \<longrightarrow> bufs = [] \<and> bg_thread b = Returned \<and> bg_channel b' = [] \<and> current_rest b' = [])
         | Some (Err e) \<Rightarrow> bufs = [] \<and> bg_thread b = Returned \<and> e = broken_pipe
         | _ \<Rightarrow> False"
proof (cases "bg_channel b")
  case Nil
  with holds show ?thesis
    by (auto simp: background_receive_def channel_holds_def split: producer.splits)
next
  case (Cons m q)
  show ?thesis
  proof (cases bufs)
    case Nil
    with holds Cons have "bg_thread b = Returned" "m = Ok []" "q = []"
      by (auto simp: channel_holds_def split: producer.splits)
    with Cons Nil cur show ?thesis
      by (auto simp: background_receive_def channel_holds_def Let_def intro!: exI [of _ "[]"])
  next
    case buf: (Cons x xs)
    with holds Cons have m: "m = Ok x" "x \<noteq> []" by (auto simp: channel_holds_def split: producer.splits)
    obtain bs b' where tk: "take_from (b\<lparr>bg_channel := q\<rparr>) x n = (bs, b')" by fastforce
    note tk' = take_from_rest [OF tk]
    have "channel_holds ready b' xs"
      using holds Cons buf tk' unfolding channel_holds_def by (auto split: producer.splits)
    moreover have "background_receive b n = Some (Ok (bs, b'))"
      using Cons m tk by (simp add: background_receive_def Let_def)
    ultimately show ?thesis using tk' buf m by (auto intro!: exI [of _ xs])
  qed
qed

lemma read_keeps:
  assumes holds: "channel_holds ready b bufs"
  shows "case background_read b n of
           None \<Rightarrow> current_rest b @ concat bufs = [] \<and> bg_thread b \<noteq> Returned
         | Some (Ok (bs, b')) \<Rightarrow> (\<exists>bufs'. channel_holds ready b' bufs'
               \<and> bs @ current_rest b' @ concat bufs' = current_rest b @ concat bufs)
             \<and> bg_thread b' = bg_thread b \<and> length bs \<le> n
             \<and> (bs = [] \<longrightarrow> 0 < n \<longrightarrow> current_rest b @ concat bufs = [] \<and> bg_thread b = Returned
                   \<and> bg_channel b' = [] \<and> current_rest b' = [])
         | Some (Err e) \<Rightarrow> current_rest b @ concat bufs = [] \<and> bg_thread b = Returned
             \<and> e = broken_pipe
         | _ \<Rightarrow> False"
proof (cases "current_rest b = []")
  case True
  then have "background_read b n = background_receive b n"
    by (auto simp: background_read_def current_rest_def split: option.splits)
  with receive_keeps [OF holds True, of n] True show ?thesis
    by (auto split: option.splits outcome.splits)
next
  case False
  then obtain cur where cur: "bg_current_buffer b = Some cur" "bg_position b < length cur"
    by (auto simp: current_rest_def split: option.splits)
  let ?k = "min (length cur - bg_position b) n"
  let ?b = "b\<lparr>bg_position := bg_position b + ?k\<rparr>"
  have "background_read b n = Some (Ok (take ?k (drop (bg_position b) cur), ?b))"
    using cur by (simp add: background_read_def Let_def)
  moreover have "take ?k (drop (bg_position b) cur) @ current_rest ?b = current_rest b"
    using append_take_drop_id [of ?k "drop (bg_position b) cur"] cur(1)
    by (simp add: current_rest_def add.commute)
  moreover have "channel_holds ready ?b bufs"
    using holds False by (auto simp: channel_holds_def split: producer.splits)
  moreover have "take ?k (drop (bg_position b) cur) \<noteq> []" if "0 < n" using cur that by simp
  ultimately show ?thesis by (auto intro!: exI [of _ bufs])
qed

lemma background_inv_step:
  assumes inv: "background_inv contents ready d x" and step: "background_step read cap x y" and cap: "0 < cap"
  shows "background_inv contents ready d y"
  using step
proof cases
  case (thread_runs b acc s t q given)
  from inv thread_runs(1) obtain bufs where bufs: "channel_holds ready b bufs"
    "given @ current_rest b @ concat bufs @ acc @ contents s = d"
    using thread_runs(3) by (auto simp: background_inv_def thread_rest_def)
  from thread_turn_keeps [OF thread_runs(3,4) bufs(1) cap] obtain bufs' where
    "channel_holds ready (b\<lparr>bg_thread := t, bg_channel := q\<rparr>) bufs'"
    "concat bufs' @ thread_rest contents t = concat bufs @ acc @ contents s" by blast
  with bufs(2) thread_runs(2) show ?thesis by (auto simp: background_inv_def)
next
  case (caller_reads b n bs b' given)
  from inv caller_reads(1) obtain bufs where bufs: "channel_holds ready b bufs"
    "given @ current_rest b @ concat bufs @ thread_rest contents (bg_thread b) = d"
    by (auto simp: background_inv_def)
  from read_keeps [OF bufs(1), of n] caller_reads(3) obtain bufs' where
    b': "channel_holds ready b' bufs'" "bs @ current_rest b' @ concat bufs' = current_rest b @ concat bufs"
    "bg_thread b' = bg_thread b" by auto
  have "given @ (bs @ current_rest b' @ concat bufs') @ thread_rest contents (bg_thread b) = d"
    unfolding b'(2) using bufs(2) by simp
  with b' caller_reads(2) show ?thesis by (auto simp: background_inv_def)
qed

lemma background_inv_reachable:
  assumes "background_reachable read cap source x" and "ready source" and "0 < cap"
  shows "background_inv contents ready (contents source) x"
  using assms(1)
proof (induction rule: background_reachable.induct)
  case background_start
  show ?case using assms(2)
    by (auto simp: background_inv_def background_new_def channel_holds_def current_rest_def thread_rest_def intro!: exI [of _ "[]"])
next
  case (background_next x y)
  from background_inv_step [OF background_next.IH background_next.hyps(2) assms(3)] show ?case .
qed

lemma thread_turn_works:
  assumes "ready s" and "thread_turn read cap acc s q = (t, q')" and "0 < cap"
  shows "thread_work contents t < thread_work contents (Filling acc s)"
proof (cases "length acc < cap")
  case True
  obtain bs s' where r: "read s (cap - length acc) = Ok (bs, s')" using total assms(1) by blast
  note nb = next_bytes [OF assms(1) r]
  show ?thesis
  proof (cases "bs = []")
    case b: True
    then show ?thesis using r True nb assms(2) by (auto simp: thread_turn_def send_buffer_def thread_work_def split: if_splits)
  next
    case False
    then have "t = Filling (acc @ bs) s'" using r True assms(2) by (simp add: thread_turn_def)
    with False nb show ?thesis by (cases bs) (auto simp: thread_work_def)
  qed
next
  case False
  then have "acc \<noteq> []" using assms(3) by auto
  with False assms(2) show ?thesis by (auto simp: thread_turn_def send_buffer_def thread_work_def)
qed

lemma run_thread_answers:
  assumes "channel_holds ready b bufs" and "0 < cap"
  shows "\<exists>k\<le>thread_work contents (bg_thread b). background_read (run_thread read cap k b) n \<noteq> None"
  using assms(1)
proof (induction "thread_work contents (bg_thread b)" arbitrary: b bufs rule: less_induct)
  case less
  show ?case
  proof (cases "background_read b n")
    case None
    from read_keeps [OF less.prems, of n] None have "bg_thread b \<noteq> Returned" by simp
    then obtain acc s where t: "bg_thread b = Filling acc s" by (cases "bg_thread b") auto
    obtain t' q where turn: "thread_turn read cap acc s (bg_channel b) = (t', q)" by fastforce
    let ?b = "b\<lparr>bg_thread := t', bg_channel := q\<rparr>"
    from thread_turn_keeps [OF t turn less.prems assms(2)] obtain bufs' where b': "channel_holds ready ?b bufs'" by blast
    have "ready s" using less.prems t by (simp add: channel_holds_def)
    from thread_turn_works [OF this turn assms(2)] have work: "thread_work contents (bg_thread ?b) < thread_work contents (bg_thread b)"
      by (simp add: t)
    from less.hyps [OF work b'] obtain k where "k \<le> thread_work contents (bg_thread ?b)"
      "background_read (run_thread read cap k ?b) n \<noteq> None" by blast
    with work t turn show ?thesis by (intro exI [of _ "Suc k"]) simp
  next
    case (Some r)
    then show ?thesis by (intro exI [of _ 0]) simp
  qed
qed

end

section \<open>BackgroundReader keeps the contract of its source\<close>

text \<open>C39: whatever the order of the steps of the thread and its caller, the bytes that
  \<open>BackgroundReader\<close> has given are a prefix of those of its source, and the next \<open>read\<close> waits only
  while the thread runs, goes on where the last ended, says the end only at the end, and fails
  only behind it: after the end was said once, every further \<open>read\<close> is a broken pipe.\<close>

theorem background_reader_delivers:
  assumes "byte_source read contents ready" and "ready source" and "0 < cap"
    and "background_reachable read cap source (b, given)"
  shows "\<exists>rest. contents source = given @ rest \<and>
     (case background_read b n of
        None \<Rightarrow> bg_thread b \<noteq> Returned
      | Some (Ok (bs, b')) \<Rightarrow> length bs \<le> n \<and> prefix bs rest
          \<and> (bs = [] \<longrightarrow> 0 < n \<longrightarrow> rest = [] \<and> (\<forall>m. background_read b' m = Some (Err broken_pipe)))
      | Some (Err e) \<Rightarrow> rest = [] \<and> e = broken_pipe
      | Some _ \<Rightarrow> False)"
proof -
  note src = assms(1)
  from byte_source.background_inv_reachable [OF src assms(4,2,3)] obtain bufs where
    bufs: "channel_holds ready b bufs" "given @ current_rest b @ concat bufs @ thread_rest contents (bg_thread b) = contents source"
    by (auto simp: background_inv_def)
  define rest where "rest = current_rest b @ concat bufs @ thread_rest contents (bg_thread b)"
  note keeps = byte_source.read_keeps [OF src bufs(1), of n]
  have "case background_read b n of
        None \<Rightarrow> bg_thread b \<noteq> Returned
      | Some (Ok (bs, b')) \<Rightarrow> length bs \<le> n \<and> prefix bs rest
          \<and> (bs = [] \<longrightarrow> 0 < n \<longrightarrow> rest = [] \<and> (\<forall>m. background_read b' m = Some (Err broken_pipe)))
      | Some (Err e) \<Rightarrow> rest = [] \<and> e = broken_pipe
      | Some _ \<Rightarrow> False"
  proof (cases "background_read b n")
    case (Some r)
    show ?thesis
    proof (cases r)
      case (Ok x)
      obtain bs b' where x: "x = (bs, b')" by (cases x)
      from keeps Some Ok x obtain bufs' where eq: "bs @ current_rest b' @ concat bufs' = current_rest b @ concat bufs"
        and k: "length bs \<le> n" "bg_thread b' = bg_thread b" "bs = [] \<longrightarrow> 0 < n \<longrightarrow> current_rest b @ concat bufs = [] \<and> bg_thread b = Returned
          \<and> bg_channel b' = [] \<and> current_rest b' = []" by auto
      have "rest = bs @ (current_rest b' @ concat bufs' @ thread_rest contents (bg_thread b))"
        unfolding rest_def using arg_cong [OF eq, of "\<lambda>x. x @ thread_rest contents (bg_thread b)"] by simp
      then have pre: "prefix bs rest" by (rule prefixI)
      have "bs = [] \<longrightarrow> 0 < n \<longrightarrow> rest = [] \<and> (\<forall>m. background_read b' m = Some (Err broken_pipe))"
        using k(2,3) read_broken [of b'] by (simp add: rest_def thread_rest_def)
      with pre k(1) show ?thesis using Some Ok x by simp
    qed (use keeps Some in \<open>auto simp: rest_def thread_rest_def\<close>)
  qed (use keeps in simp)
  moreover have "contents source = given @ rest" using bufs(2) by (simp add: rest_def)
  ultimately show ?thesis by (intro exI [of _ rest] conjI)
qed

theorem background_reader_delivers_witness:
  "\<exists>b. background_reachable slice_read 2 [1, 2, 3] (b, []) \<and> background_read b 9 \<noteq> None
     \<and> (\<exists>rest. [1, 2, 3] = [] @ rest)"
proof -
  let ?b0 = "background_new [1, 2, 3 :: u8]"
  let ?b1 = "?b0\<lparr>bg_thread := Filling [1, 2] [3], bg_channel := []\<rparr>"
  let ?b2 = "?b1\<lparr>bg_thread := Filling [] [3], bg_channel := [Ok [1, 2]]\<rparr>"
  have "background_step slice_read 2 (?b0, []) (?b1, [])"
    by (rule thread_runs [where acc = "[]" and s = "[1, 2, 3]"]) (simp_all add: background_new_def thread_turn_def slice_read_def)
  moreover have "background_step slice_read 2 (?b1, []) (?b2, [])"
    by (rule thread_runs [where acc = "[1, 2]" and s = "[3]"]) (simp_all add: background_new_def thread_turn_def send_buffer_def)
  ultimately have r: "background_reachable slice_read 2 [1, 2, 3] (?b2, [])"
    by (meson background_start background_next)
  have "background_read ?b2 9 \<noteq> None" by (simp add: background_read_def background_receive_def background_new_def Let_def)
  with r background_reader_delivers [OF slice.byte_source_axioms _ _ r] show ?thesis by auto
qed

text \<open>C40: \<open>BackgroundReader\<close> never waits for ever: in every reachable state the thread, left to run,
  sends after a bounded number of turns, so that \<open>read\<close> has an answer.\<close>

theorem background_reader_answers:
  assumes "byte_source read contents ready" and "ready source" and "0 < cap"
    and "background_reachable read cap source (b, given)"
  shows "\<exists>k\<le>2 * length (contents source) + 2. background_read (run_thread read cap k b) n \<noteq> None"
proof -
  note src = assms(1)
  from byte_source.background_inv_reachable [OF src assms(4,2,3)] obtain bufs where
    bufs: "channel_holds ready b bufs" "given @ current_rest b @ concat bufs @ thread_rest contents (bg_thread b) = contents source"
    by (auto simp: background_inv_def)
  have "length (thread_rest contents (bg_thread b)) \<le> length (contents source)"
    unfolding bufs(2) [symmetric] by simp
  then have "thread_work contents (bg_thread b) \<le> 2 * length (contents source) + 2"
    by (auto simp: thread_work_def thread_rest_def split: producer.splits)
  with byte_source.run_thread_answers [OF src bufs(1) assms(3), of n] show ?thesis by (meson order_trans)
qed

theorem background_reader_answers_witness:
  "\<exists>k\<le>8. background_read (run_thread slice_read 2 k (background_new [1, 2, 3])) 9 \<noteq> None"
  using background_reader_answers [OF slice.byte_source_axioms _ _ background_start, of 2 "[1, 2, 3]" 9] by simp

end
