(* ===== verification/Archive_Visit.thy ===== *)
theory Archive_Visit
  imports Files_Lifecycle
begin

text \<open>
  Visiting all entries of an archive with a block for each file: \<open>for_each_entries\<close> calls its
  closure for the files with data in the order of their blocks and then for the others. What
  the closure does with one entry is the locale \<open>visitor\<close>.
\<close>

section \<open>Where the files are\<close>

definition block_less :: "bool list \<Rightarrow> map_state \<Rightarrow> bool" where
  "block_less hs s \<longleftrightarrow> ms_next_stream s = 0 \<and> map has_stream (ms_files s) = hs \<and> length (ms_file_block s) = length hs
     \<and> (\<forall>j<length hs. \<not> hs ! j \<longrightarrow> ms_file_block s ! j = None)"

lemma place_file_block_less:
  assumes single: "list_all (\<lambda>b. num_unpack_sub_streams b \<le> 1) (ar_blocks a)"
    and s: "block_less hs s" "place_file a packs i s = Ok s'" "i < length hs"
  shows "block_less hs s'"
proof -
  have stream: "has_stream (ms_files s ! i) = hs ! i" and i: "i < length (ms_files s)"
    using s(1,3) by (auto simp: block_less_def)
  have upd: "map has_stream ((ms_files s)[i := (ms_files s ! i)\<lparr>compressed_size := x\<rparr>]) = map has_stream (ms_files s)" for x
    using i by (simp add: map_update list_update_same_conv)
  show ?thesis
  proof (cases "hs ! i")
    case True
    with s stream single upd show ?thesis
      by (auto simp: place_file_def block_less_def Let_def and_then_Ok_iff index_Ok_iff list_all_length nth_list_update
          split: if_split_asm prod.split_asm)
  next
    case False
    with s stream show ?thesis by (auto simp: place_file_def block_less_def nth_list_update)
  qed
qed

lemma sum_ones: "list_all (\<lambda>b. f b = (1::nat)) bs \<Longrightarrow> sum_list (map f bs) = length bs"
  by (induction bs) simp_all

lemma no_crc: "i < length fs \<Longrightarrow> \<not> has_stream (fs ! i) \<Longrightarrow> \<not> has_crc (files_read si k fs ! i)"
  by (induction fs arbitrary: i k) (auto simp: nth_Cons read_meta_defs split: nat.splits)

lemma opened_map_wf: "opened L w a \<Longrightarrow> map_wf a"
proof -
  assume "opened L w a"
  then obtain a' x where "calculate_stream_map (archive_read L w) = Ok a'" "a = a'\<lparr>is_solid := x\<rparr>" by (auto simp: opened_def)
  with calculated_wf [of "archive_read L w" a'] show ?thesis by (simp add: map_wf_def Let_def)
qed

lemma opened_places:
  assumes ok: "header_ok L w" and a: "opened L w a" and i: "i < length (w_files w)"
    and single: "list_all (\<lambda>b. num_subs b = 1) (w_unpack_info w)"
  shows "has_crc (ar_files a ! i) = has_stream (w_files w ! i)"
    and "\<not> has_stream (w_files w ! i) \<Longrightarrow> file_block_index (ar_stream_map a) ! i = None"
    and "has_stream (w_files w ! i) \<Longrightarrow> block_first_file_index (ar_stream_map a) ! streams_before (w_files w) i = i"
proof -
  let ?r = "archive_read L w" and ?us = "w_unpack_info w"
  let ?si = "read_sub_streams ?us"
  have r: "ar_files ?r = files_read ?si 0 (w_files w)" "ar_blocks ?r = map (read_back L) ?us"
    by (simp_all add: archive_read_def streams_info_fields archive_default_def)
  have ones: "list_all (\<lambda>b. num_unpack_sub_streams b = 1) (ar_blocks ?r)"
    using single by (auto simp: r list_all_iff read_back_def)
  obtain a' where a': "calculate_stream_map ?r = Ok a'" "a = a'\<lparr>is_solid := list_ex (\<lambda>b. 1 < num_unpack_sub_streams b) (ar_blocks a')\<rparr>"
    using a by (auto simp: opened_def)
  obtain a'' where "calculate_stream_map ?r = Ok a''" and same: "same_files (ar_files ?r) (ar_files a'')"
    and first: "\<And>i b. i < length (ar_files ?r) \<Longrightarrow> has_stream (ar_files ?r ! i) \<Longrightarrow>
       b < length (ar_blocks ?r) \<Longrightarrow> 0 < num_unpack_sub_streams (ar_blocks ?r ! b) \<Longrightarrow>
       streams_before (ar_files ?r) i = base (ar_blocks ?r) b \<Longrightarrow> block_first_file_index (ar_stream_map a'') ! b = i"
    by (rule stream_map_correct [OF streams_fit_read [OF ok]]) (rule that; assumption)
  with a'(1) have [simp]: "a'' = a'" by simp
  have streams: "streams_before (w_files w) i < length ?us" if "has_stream (w_files w ! i)"
  proof -
    have "streams_before (w_files w) (Suc i) \<le> streams_before (w_files w) (length (w_files w))"
      by (rule streams_before_mono) (use i in simp)
    moreover have "sum_list (map num_subs ?us) = length ?us" using single by (simp add: sum_ones)
    ultimately show ?thesis
      using i that ok by (simp add: streams_before_Suc header_ok_def) (simp add: streams_before_def)
  qed
  have base: "b \<le> length (ar_blocks ?r) \<Longrightarrow> base (ar_blocks ?r) b = b" for b
    using ones by (induction b) (simp_all add: base_Suc list_all_length, simp add: base_def)
  show "has_stream (w_files w ! i) \<Longrightarrow> block_first_file_index (ar_stream_map a) ! streams_before (w_files w) i = i"
    using first [of i "streams_before (w_files w) i"] i streams ones base
    by (simp add: a'(2) r length_files_read has_stream_files_read streams_before_read list_all_length)
  have "\<exists>s. ar_files a ! i = (files_read ?si 0 (w_files w) ! i)\<lparr>compressed_size := s\<rparr>"
    using same_files_nth [OF same] i by (intro compressed_size_only) (simp add: a'(2) r length_files_read)
  then obtain sz where sz: "ar_files a ! i = (files_read ?si 0 (w_files w) ! i)\<lparr>compressed_size := sz\<rparr>" by blast
  have subs: "list_all subs_ok ?us" using ok by (simp add: header_ok_def streams_info_ok_def subs_info_ok_def)
  show "has_crc (ar_files a ! i) = has_stream (w_files w ! i)"
    using files_read_nth [OF i, of ?si 0] streams length_all_crcs [OF subs] sum_ones [OF single] no_crc [OF i]
    by (cases "has_stream (w_files w ! i)") (simp_all add: sz read_sub_streams_def)
  let ?init = "\<lparr>ms_first_file = replicate (length (ar_blocks ?r)) 0, ms_file_block = replicate (length (ar_files ?r)) None,
                 ms_files = ar_files ?r, ms_next_block = 0, ms_next_stream = 0\<rparr>"
  obtain s where s: "for_each (place_file ?r (pack_stream_indices (ar_blocks ?r) 0)) [0..<length (ar_files ?r)] ?init = Ok s"
    "file_block_index (ar_stream_map a') = ms_file_block s"
    using a'(1) by (auto simp: calculate_stream_map_def and_then_Ok_iff Let_def)
  have "block_less (map has_stream (ar_files ?r)) s"
  proof (rule for_each_invariant [OF s(1)])
    have few: "list_all (\<lambda>b. num_unpack_sub_streams b \<le> 1) (ar_blocks ?r)" using ones by (simp add: list_all_iff)
    show "block_less (map has_stream (ar_files ?r)) ?init" by (simp add: block_less_def)
    fix j t t' assume "j \<in> set [0..<length (ar_files ?r)]" "block_less (map has_stream (ar_files ?r)) t"
      "place_file ?r (pack_stream_indices (ar_blocks ?r) 0) j t = Ok t'"
    then show "block_less (map has_stream (ar_files ?r)) t'"
      using place_file_block_less [OF few, of _ t _ j t'] by simp
  qed
  then show "\<not> has_stream (w_files w ! i) \<Longrightarrow> file_block_index (ar_stream_map a) ! i = None"
    using i by (simp add: block_less_def a'(2) s(2) r length_files_read has_stream_files_read)
qed

section \<open>Order of the visit\<close>

text \<open>The indices of the entries and their contents: first those with data, then the others.\<close>

definition visit_order :: "(archive_entry \<times> bytes option) list \<Rightarrow> (usize \<times> bytes) list" where
  "visit_order pushed =
     map (\<lambda>i. (i, the (snd (pushed ! i)))) (filter (\<lambda>i. snd (pushed ! i) \<noteq> None) [0..<length pushed])
     @ map (\<lambda>i. (i, [])) (filter (\<lambda>i. snd (pushed ! i) = None) [0..<length pushed])"

lemma nth_filter_upt:
  "k < length (filter P [0..<n]) \<Longrightarrow>
   filter P [0..<n] ! k < n \<and> P (filter P [0..<n] ! k) \<and> length (filter P [0..<filter P [0..<n] ! k]) = k"
  by (induction n) (auto simp: nth_append less_Suc_eq)

lemma streams_before_upt:
  "i \<le> length fs \<Longrightarrow> streams_before fs i = length (filter (\<lambda>j. has_stream (fs ! j)) [0..<i])"
proof -
  assume "i \<le> length fs"
  then have "take i fs = map (nth fs) [0..<i]" by (intro nth_equalityI) simp_all
  then show ?thesis by (simp add: streams_before_def filter_map comp_def)
qed

lemma for_each_nth: "for_each f xs s = for_each (\<lambda>k. f (xs ! k)) [0..<length xs] s"
  using for_each_map [of f "nth xs" "[0..<length xs]" s] by (simp add: map_nth)

section \<open>The blocks of the pushed files\<close>

text \<open>The indices of the files that were pushed with data, in order: there is a block for each.\<close>

abbreviation full_files :: "(archive_entry \<times> bytes option) list \<Rightarrow> usize list" where
  "full_files pushed \<equiv> filter (\<lambda>i. snd (pushed ! i) \<noteq> None) [0..<length pushed]"

definition holds_block ::
    "(bytes \<Rightarrow> u32) \<Rightarrow> 'd decoder_libs \<Rightarrow> libs \<Rightarrow> ('d \<Rightarrow> bytes \<Rightarrow> bytes) \<Rightarrow> ('d \<Rightarrow> bytes \<Rightarrow> bool) \<Rightarrow> nat \<Rightarrow>
     archive_reader \<Rightarrow> usize \<Rightarrow> usize \<Rightarrow> bytes \<Rightarrow> bool" where
  "holds_block crc32 D L out fine fuel rd k i d \<longleftrightarrow>
     (let a = rd_archive rd in
        (\<exists>c pad. block_of_data crc32 D L out fine (rd_thread_count rd) (rd_password rd) fuel a k (cur_data (rd_source rd)) c d pad)
        \<and> num_unpack_sub_streams (ar_blocks a ! k) = 1 \<and> k < length (block_first_file_index (ar_stream_map a))
        \<and> block_first_file_index (ar_stream_map a) ! k = i \<and> i < length (ar_files a)
        \<and> has_stream (ar_files a ! i) \<and> entry_size (ar_files a ! i) = of_nat (length d) \<and> has_crc (ar_files a ! i) \<and> length d < fuel)"

definition holds_pushed ::
    "(bytes \<Rightarrow> u32) \<Rightarrow> 'd decoder_libs \<Rightarrow> libs \<Rightarrow> ('d \<Rightarrow> bytes \<Rightarrow> bytes) \<Rightarrow> ('d \<Rightarrow> bytes \<Rightarrow> bool) \<Rightarrow> nat \<Rightarrow>
     (archive_entry \<times> bytes option) list \<Rightarrow> archive_reader \<Rightarrow> bool" where
  "holds_pushed crc32 D L out fine fuel pushed rd \<longleftrightarrow>
     (let a = rd_archive rd in
        length (ar_files a) = length pushed \<and> length (file_block_index (ar_stream_map a)) = length pushed
        \<and> length (ar_blocks a) = length (full_files pushed)
        \<and> (\<forall>i<length pushed. (snd (pushed ! i) = None) = (file_block_index (ar_stream_map a) ! i = None))
        \<and> (\<forall>k<length (full_files pushed).
             holds_block crc32 D L out fine fuel rd k (full_files pushed ! k) (the (snd (pushed ! (full_files pushed ! k))))))"

text \<open>The CRCs that the archive records for its entries. A file without data is not checked.\<close>

definition right_crc :: "(bytes \<Rightarrow> u32) \<Rightarrow> bytes option \<Rightarrow> u64 \<Rightarrow> bool" where
  "right_crc crc32 contents c \<longleftrightarrow> (\<forall>d. contents = Some d \<longrightarrow> d \<noteq> [] \<longrightarrow> c = ucast (crc32 d))"

definition right_crcs :: "(bytes \<Rightarrow> u32) \<Rightarrow> (archive_entry \<times> bytes option) list \<Rightarrow> u64 list \<Rightarrow> bool" where
  "right_crcs crc32 pushed crcs \<longleftrightarrow> (\<forall>i<length pushed. right_crc crc32 (snd (pushed ! i)) (crcs ! i))"

definition with_crcs :: "u64 list \<Rightarrow> archive_reader \<Rightarrow> archive_reader" where
  "with_crcs crcs rd =
     rd\<lparr>rd_archive := (rd_archive rd)\<lparr>ar_files := map2 (\<lambda>c f. f\<lparr>crc := c\<rparr>) crcs (ar_files (rd_archive rd))\<rparr>\<rparr>"

lemma with_crcs_files:
  "length crcs = length (ar_files (rd_archive rd)) \<Longrightarrow> map crc (ar_files (rd_archive (with_crcs crcs rd))) = crcs"
  by (simp add: with_crcs_def comp_def split_def map_fst_zip [unfolded fst_def])

lemma with_crcs_same: "with_crcs (map crc (ar_files (rd_archive rd))) rd = rd"
proof -
  have "map2 (\<lambda>c f. f\<lparr>crc := c\<rparr>) (map crc fs) fs = fs" for fs :: "archive_entry list" by (induction fs) simp_all
  then show ?thesis by (simp add: with_crcs_def)
qed

lemma holds_pushed_with_crcs:
  assumes "holds_pushed crc32 D L out fine fuel pushed rd" and "length crcs = length pushed"
  shows "holds_pushed crc32 D L out fine fuel pushed (with_crcs crcs rd)"
proof -
  let ?a = "rd_archive rd" and ?fs = "map2 (\<lambda>c f. f\<lparr>crc := c\<rparr>) crcs (ar_files (rd_archive rd))"
  have same: "block_of_data crc32 D L out fine t pw fuel (?a\<lparr>ar_files := fs\<rparr>) = block_of_data crc32 D L out fine t pw fuel ?a" for t pw fs
    by (intro ext, cases "sub_streams ?a") (simp_all add: block_of_data_def block_at_def stack_crc_def Let_def)
  have "holds_block crc32 D L out fine fuel (with_crcs crcs rd) k i d = holds_block crc32 D L out fine fuel rd k i d"
    if "length (ar_files ?a) = length pushed" for k i d
  proof -
    have "ar_files (rd_archive (with_crcs crcs rd)) = ?fs" "rd_archive (with_crcs crcs rd) = ?a\<lparr>ar_files := ?fs\<rparr>"
      "rd_password (with_crcs crcs rd) = rd_password rd" "rd_thread_count (with_crcs crcs rd) = rd_thread_count rd"
      "rd_source (with_crcs crcs rd) = rd_source rd" by (simp_all add: with_crcs_def)
    then show ?thesis unfolding holds_block_def Let_def by (simp only: same) (simp add: that assms(2) cong: conj_cong)
  qed
  then show ?thesis using assms by (simp add: holds_pushed_def Let_def) (simp add: with_crcs_def)
qed

lemma reader_holds_pushed:
  assumes D: "valid_decoder D out fine" "block_cipher (dc_cbc D)"
    and rd: "reader_of X crc32 ps L aw0 pushed aw pw items rd"
    and undone: "\<And>t. methods_undone D L out fine t pw X (w_content_methods aw0) ps"
    and methods: "w_content_methods aw0 \<noteq> []" "length ps = length (w_content_methods aw0)"
    and fuel: "length (w_content_methods aw0) < fuel" "fuel < 2 ^ 63" "list_all (can_be_pushed fuel) pushed"
  shows "holds_pushed crc32 D L out fine fuel pushed rd" "right_crcs crc32 pushed (map crc (ar_files (rd_archive rd)))"
proof -
  define a where "a = rd_archive rd"
  obtain s rest where f: "cur_data (rd_source rd) = s @ concat (map (\<lambda>(d, c, ns). c) items) @ rest" "length s = 32"
    "32 + length (concat (map (\<lambda>(d, c, ns). c) items)) < 2 ^ 63"
    using rd by (auto simp: reader_of_def)
  have wrote: "wrote X crc32 ps aw0 pushed items aw" and ok: "w_content_methods aw0 \<noteq> []" "length ps = length (w_content_methods aw0)"
      "header_ok L aw" "length items < 2 ^ 64" and a: "opened L aw a" "header_kept aw L a" "rd_archive rd = a" "rd_password rd = pw"
    using rd methods by (simp_all add: reader_of_def a_def)
  have undone: "methods_undone D L out fine (rd_thread_count rd) (rd_password rd) X (w_content_methods aw0) ps"
    unfolding a(4) by (rule undone)
  let ?contents = "\<lambda>i. snd (pushed ! i)" and ?full = "full_files pushed"
  have info: "w_unpack_info aw = map (file_block crc32 (w_content_methods aw0)) items"
    and files: "list_all2 entry_like pushed (w_files aw)" using wrote by (simp_all add: wrote_def)
  have n: "length (w_files aw) = length pushed" "length (ar_files a) = length pushed"
    "length (file_block_index (ar_stream_map a)) = length pushed"
    using list_all2_lengthD [OF files] opened_fields(3,4) [OF a(1)] by simp_all
  have stream: "has_stream (w_files aw ! i) = (?contents i \<noteq> None)" if "i < length pushed" for i
    using list_all2_nthD [OF files that] by (simp add: entry_like_def split_def)
  have single: "list_all (\<lambda>b. num_subs b = 1) (w_unpack_info aw)" by (simp add: info list_all_iff num_subs_file_block)
  note places = opened_places [OF ok(3) a(1) _ single, unfolded n]
  have upto: "filter (\<lambda>j. has_stream (w_files aw ! j)) [0..<i] = filter (\<lambda>i. ?contents i \<noteq> None) [0..<i]" if "i \<le> length pushed" for i
    by (rule filter_cong) (use that stream in auto)
  have full: "?full ! k < length pushed" "?contents (?full ! k) \<noteq> None" "streams_before (w_files aw) (?full ! k) = k"
    if "k < length ?full" for k
    using nth_filter_upt [OF that] by (simp_all add: streams_before_upt n upto)
  have blocks: "length (ar_blocks a) = length ?full"
  proof -
    have "length items = streams_before (w_files aw) (length pushed)"
      using length_wrote_items(1) [OF wrote] n(1) by (simp add: streams_before_def)
    then show ?thesis using a(2) by (simp add: header_kept_def info streams_before_upt n upto)
  qed
  have small: "length d < fuel" "length d < 2 ^ 63" if "i < length pushed" "?contents i = Some d" for i d
  proof -
    have "can_be_pushed fuel (pushed ! i)" using fuel(3) that(1) by (simp add: list_all_length)
    then show "length d < fuel" "length d < 2 ^ 63" using that(2) fuel(2) by (cases "pushed ! i"; simp add: can_be_pushed_def)+
  qed
  have placed: "pushed ! i = (fst (pushed ! i), Some d)" if "?contents i = Some d" for i d
    using that by (cases "pushed ! i") simp
  note pushed = pushed_block [OF wrote undone ok a(1,2) f fuel(1) _ placed small(2)]
  have "holds_block crc32 D L out fine fuel rd k (?full ! k) (the (?contents (?full ! k)))" if k: "k < length ?full" for k
  proof -
    let ?i = "?full ! k"
    have i: "?i < length pushed" "streams_before (w_files aw) ?i = k" using full [OF k] by simp_all
    obtain d where d: "?contents ?i = Some d" using full(2) [OF k] by blast
    note p = pushed [OF i(1) d i(1) d i(2) [symmetric]]
    have kept: "has_stream (ar_files a ! ?i)" using a(2) i(1) n(1) p(7) by (simp add: header_kept_def entry_kept_def)
    have "ar_files a \<noteq> []" using i(1) n(2) by auto
    then have "k < length (block_first_file_index (ar_stream_map a))"
      using opened_map_wf [OF a(1)] k blocks by (simp add: map_wf_def Let_def)
    moreover have "num_unpack_sub_streams (ar_blocks a ! k) = 1" unfolding p(3) by (rule read_back_file_block)
    moreover have "block_first_file_index (ar_stream_map a) ! k = ?i" using places(3) [of ?i] i p(7) by simp
    moreover have "has_crc (ar_files a ! ?i)" using places(1) [of ?i] i p(7) by simp
    ultimately show ?thesis
      unfolding holds_block_def Let_def a(3) using p(1,4) kept small(1) [OF i(1) d] d i(1) n by simp
  qed
  moreover have "(?contents i = None) = (file_block_index (ar_stream_map a) ! i = None)" if i: "i < length pushed" for i
  proof (cases "?contents i")
    case None
    with i places(2) [of i] stream [of i] show ?thesis by simp
  next
    case (Some d)
    with pushed(6) [OF i Some i Some refl] show ?thesis by simp
  qed
  ultimately show "holds_pushed crc32 D L out fine fuel pushed rd"
    unfolding holds_pushed_def Let_def a(3) using n blocks by blast
  show "right_crcs crc32 pushed (map crc (ar_files (rd_archive rd)))"
    unfolding right_crcs_def right_crc_def a(3) using n pushed(5) [OF _ _ _ _ refl] by auto
qed

section \<open>A visitor\<close>

text \<open>A closure that makes of an entry and its contents a new state, and asks to go on. How much of
  the contents it reads is left to it.\<close>

locale visitor =
  fixes each :: "('d, 'b, 'x) each_entry" and crc32 D out fine and fuel :: nat
    and visit :: "usize \<times> archive_entry \<Rightarrow> bytes \<Rightarrow> 'x \<Rightarrow> 'x result"
  assumes visits: "valid_decoder D out fine \<Longrightarrow> block_cipher (dc_cbc D) \<Longrightarrow> entry_ready crc32 D out fine dat rest er \<Longrightarrow> length (entry_contents D out er) < fuel \<Longrightarrow>
      visit ie (entry_contents D out er) x = Ok x' \<Longrightarrow>
      \<exists>er'. each ie er x = Ok (True, er', x') \<and> chain_ready D out fine dat (entry_stack er' r)"
    and visits_nothing: "0 < fuel \<Longrightarrow> visit ie [] x = Ok x' \<Longrightarrow> \<exists>er'. each ie (Nothing []) x = Ok (True, er', x') \<and> entry_stack er' r = r"
begin

lemma visits_block:
  fixes B :: "'b bcj2_lib"
  assumes D: "valid_decoder D out fine" "block_cipher (dc_cbc D)"
    and c: "block_of_data crc32 D L out fine threads pw fuel a k (cur_data f) c d pad"
    and b: "num_unpack_sub_streams (ar_blocks a ! k) = 1" "k < length (block_first_file_index (ar_stream_map a))"
      "block_first_file_index (ar_stream_map a) ! k = i"
    and i: "i < length (ar_files a)" "fl = ar_files a ! i" "has_stream fl" "entry_size fl = of_nat (length d)"
      "d \<noteq> [] \<longrightarrow> crc fl = ucast (crc32 d)" "length d < fuel"
    and step: "visit (i, fl) d x = Ok x'"
  shows "\<exists>f'. block_for_each_entries D L B fuel pw threads a each k f x = Ok (True, f', x') \<and> cur_data f' = cur_data f"
proof -
  obtain r n where r: "build_decode_stack D L B fuel pw threads a k f = Ok (r :: ('d, 'b) decode_stack, n)"
    "block_holds crc32 D out fine (cur_data f) d pad r" using build_of_data [OF D c, of B] by blast
  have ready: "chain_ready D out fine (cur_data f) r" using r(2) by (simp add: block_holds_def)
  have "k < length (ar_blocks a)" and small: "length d < 2 ^ 63" using c by (simp_all add: block_of_data_def block_at_def Let_def)
  then have run: "block_for_each_entries D L B fuel pw threads a each k f x
      = and_then (block_entries_loop pw (ar_files a) each [i] r x) (\<lambda>(go, r, x). Ok (go, stack_file r, x))"
    using b by (simp add: block_for_each_entries_def r(1))
  have "\<exists>r'. block_entries_loop pw (ar_files a) each [i] r x = Ok (True, r', x') \<and> chain_ready D out fine (cur_data f) r'"
  proof (cases "0 < entry_size fl")
    case True
    have "d \<noteq> []" using True i(4) by auto
    then have "holds_entry crc32 D out fine (cur_data f) fl d pad r"
      using r(2) i(4,5) small by (simp add: holds_entry_def block_holds_def)
    note start = entry_starts [OF this]
    obtain er' where "each (i, fl) (entry_reader_new fl r) x = Ok (True, er', x')" "chain_ready D out fine (cur_data f) (entry_stack er' r)"
      using visits [OF D start(1), of "(i, fl)" x x' r] start(2) i(6) step by auto
    with True i(1-3) show ?thesis by simp
  next
    case False
    then have "d = []" using i(4) small word_of_nat_less_iff [where 'a = 64, of 0 "length d"]
      by (simp add: unat_eq_zero [symmetric] unat_of_nat_u64 word_gt_0)
    with step obtain er' where "each (i, fl) (Nothing []) x = Ok (True, er', x')" "entry_stack er' r = r"
      using visits_nothing i(6) by (metis gr_implies_not0 not_gr_zero)
    with False i(1-3) ready show ?thesis by simp
  qed
  then show ?thesis using run chain_ready_file by fastforce
qed

lemma visits_blockless:
  assumes "length (file_block_index (ar_stream_map a)) = length (ar_files a)"
    and "0 < fuel"
  shows "\<forall>i\<in>set is. i < length (ar_files a) \<Longrightarrow>
     for_each (\<lambda>i. visit (i, ar_files a ! i) []) (filter (\<lambda>i. file_block_index (ar_stream_map a) ! i = None) is) x = Ok x' \<Longrightarrow>
     blockless_entries_loop a each is x = Ok x'"
proof (induction "is" arbitrary: x)
  case (Cons i "is")
  show ?case
  proof (cases "file_block_index (ar_stream_map a) ! i = None")
    case True
    with Cons.prems obtain y where "visit (i, ar_files a ! i) [] x = Ok y"
      and rest: "for_each (\<lambda>i. visit (i, ar_files a ! i) []) (filter (\<lambda>i. file_block_index (ar_stream_map a) ! i = None) is) y = Ok x'"
      by (auto simp: and_then_Ok_iff)
    with visits_nothing [OF assms(2)] obtain er' where "each (i, ar_files a ! i) (Nothing []) x = Ok (True, er', y)" by blast
    with True Cons.IH [OF _ rest] Cons.prems(1) assms show ?thesis by simp
  next
    case False
    with Cons.prems have "for_each (\<lambda>i. visit (i, ar_files a ! i) []) (filter (\<lambda>i. file_block_index (ar_stream_map a) ! i = None) is) x = Ok x'"
      by simp
    from Cons.IH [OF _ this] False Cons.prems(1) assms show ?thesis by auto
  qed
qed simp

lemma visits_blocks:
  assumes step: "\<And>k f x x'. k \<in> set ks \<Longrightarrow> cur_data f = dat \<Longrightarrow> visit (idx k, ar_files a ! idx k) (dt k) x = Ok x' \<Longrightarrow>
     \<exists>f'. block_for_each_entries D L B fuel pw threads a each k f x = Ok (True, f', x') \<and> cur_data f' = cur_data f"
  shows "cur_data f = dat \<Longrightarrow> for_each (\<lambda>k. visit (idx k, ar_files a ! idx k) (dt k)) ks x = Ok x' \<Longrightarrow>
     \<exists>f'. for_each (\<lambda>k (f, x). and_then (block_for_each_entries D L B fuel pw threads a each k f x)
            (\<lambda>(_, f, x). Ok (f, x))) ks (f, x) = Ok (f', x') \<and> cur_data f' = dat"
  using step
proof (induction ks arbitrary: f x)
  case (Cons k ks)
  from Cons.prems(2) obtain y where y: "visit (idx k, ar_files a ! idx k) (dt k) x = Ok y"
    "for_each (\<lambda>k. visit (idx k, ar_files a ! idx k) (dt k)) ks y = Ok x'" by (auto simp: and_then_Ok_iff)
  obtain f1 where f1: "block_for_each_entries D L B fuel pw threads a each k f x = Ok (True, f1, y)" "cur_data f1 = cur_data f"
    using Cons.prems(3) [OF _ Cons.prems(1) y(1)] by auto
  from Cons.IH [of f1 y] Cons.prems(1,3) y(2) f1 show ?case by auto
qed simp

text \<open>All entries of an archive that was written file by file.\<close>

lemma visits_held_block:
  fixes B :: "'b bcj2_lib"
  assumes D: "valid_decoder D out fine" "block_cipher (dc_cbc D)"
    and held: "holds_block crc32 D L out fine fuel rd k i d"
    and crc: "right_crc crc32 (Some d) (crc (ar_files (rd_archive rd) ! i))" and f: "cur_data f = cur_data (rd_source rd)"
    and step: "visit (i, ar_files (rd_archive rd) ! i) d x = Ok x'"
  shows "\<exists>f'. block_for_each_entries D L B fuel (rd_password rd) (rd_thread_count rd) (rd_archive rd) each k f x = Ok (True, f', x')
    \<and> cur_data f' = cur_data f"
proof -
  obtain c pad where "block_of_data crc32 D L out fine (rd_thread_count rd) (rd_password rd) fuel (rd_archive rd) k (cur_data f) c d pad"
    using held by (auto simp: holds_block_def Let_def f)
  from visits_block [OF D this _ _ _ _ refl _ _ _ _ step] held crc show ?thesis
    by (simp add: holds_block_def Let_def right_crc_def)
qed

lemma visits_held:
  fixes B :: "'b bcj2_lib"
  assumes D: "valid_decoder D out fine" "block_cipher (dc_cbc D)"
    and held: "holds_pushed crc32 D L out fine fuel pushed rd" and crcs: "right_crcs crc32 pushed (map crc (ar_files (rd_archive rd)))"
    and fuel: "0 < fuel"
    and step: "for_each (\<lambda>(i, d). visit (i, ar_files (rd_archive rd) ! i) d) (visit_order pushed) x = Ok x'"
  shows "\<exists>f'. for_each_entries D L B fuel each rd x = Ok (rd\<lparr>rd_source := f'\<rparr>, x') \<and> cur_data f' = cur_data (rd_source rd)"
proof -
  let ?a = "rd_archive rd" and ?contents = "\<lambda>i. snd (pushed ! i)" and ?full = "full_files pushed"
    and ?empty = "filter (\<lambda>i. snd (pushed ! i) = None) [0..<length pushed]"
  have n: "length (ar_files ?a) = length pushed" "length (file_block_index (ar_stream_map ?a)) = length pushed"
    "length (ar_blocks ?a) = length ?full"
    and none: "\<And>i. i < length pushed \<Longrightarrow> (?contents i = None) = (file_block_index (ar_stream_map ?a) ! i = None)"
    and blocks: "\<And>k. k < length ?full \<Longrightarrow> holds_block crc32 D L out fine fuel rd k (?full ! k) (the (?contents (?full ! k)))"
    using held by (simp_all add: holds_pushed_def Let_def)
  obtain y where y: "for_each (\<lambda>k. visit (?full ! k, ar_files ?a ! (?full ! k)) (the (?contents (?full ! k)))) [0..<length ?full] x = Ok y"
    "for_each (\<lambda>i. visit (i, ar_files ?a ! i) []) ?empty y = Ok x'"
    using step by (auto simp: visit_order_def for_each_append for_each_map and_then_Ok_iff
        for_each_nth [of "\<lambda>i. visit (i, ar_files ?a ! i) (the (?contents i))"] simp del: length_filter_conv_card)
  have "\<exists>f'. for_each (\<lambda>k (f, x). and_then (block_for_each_entries D L B fuel (rd_password rd) (rd_thread_count rd) ?a each k f x)
            (\<lambda>(_, f, x). Ok (f, x))) [0..<length ?full] (rd_source rd, x) = Ok (f', y) \<and> cur_data f' = cur_data (rd_source rd)"
  proof (rule visits_blocks [where idx = "nth ?full" and dt = "\<lambda>k. the (?contents (?full ! k))", OF _ refl y(1)])
    fix k x x' and f :: cursor assume k: "k \<in> set [0..<length ?full]" and fd: "cur_data f = cur_data (rd_source rd)"
      and v: "visit (?full ! k, ar_files ?a ! (?full ! k)) (the (?contents (?full ! k))) x = Ok x'"
    have "right_crc crc32 (Some (the (?contents (?full ! k)))) (crc (ar_files ?a ! (?full ! k)))"
      using crcs nth_filter_upt [of k "\<lambda>i. ?contents i \<noteq> None" "length pushed"] k n by (auto simp: right_crcs_def)
    from visits_held_block [OF D blocks this fd v] k
    show "\<exists>f'. block_for_each_entries D L B fuel (rd_password rd) (rd_thread_count rd) ?a each k f x = Ok (True, f', x')
        \<and> cur_data f' = cur_data f" by simp
  qed
  then obtain f' where f': "for_each (\<lambda>k (f, x). and_then (block_for_each_entries D L B fuel (rd_password rd) (rd_thread_count rd) ?a each k f x)
            (\<lambda>(_, f, x). Ok (f, x))) [0..<length ?full] (rd_source rd, x) = Ok (f', y)" "cur_data f' = cur_data (rd_source rd)" by blast
  have "?empty = filter (\<lambda>i. file_block_index (ar_stream_map ?a) ! i = None) [0..<length pushed]"
    by (rule filter_cong [OF refl]) (use none in simp)
  then have "blockless_entries_loop ?a each [0..<length pushed] y = Ok x'"
    by (intro visits_blockless) (use y(2) n fuel in simp_all)
  with f' show ?thesis by (intro exI [of _ f']) (simp add: for_each_entries_def n)
qed

lemma visits_all:
  fixes B :: "'b bcj2_lib"
  assumes D: "valid_decoder D out fine" "block_cipher (dc_cbc D)"
    and rd: "reader_of X crc32 ps L aw0 pushed aw pw items rd"
    and undone: "\<And>t. methods_undone D L out fine t pw X (w_content_methods aw0) ps"
    and methods: "w_content_methods aw0 \<noteq> []" "length ps = length (w_content_methods aw0)"
    and fuel: "length (w_content_methods aw0) < fuel" "fuel < 2 ^ 63" "list_all (can_be_pushed fuel) pushed"
    and step: "for_each (\<lambda>(i, d). visit (i, ar_files (rd_archive rd) ! i) d) (visit_order pushed) x = Ok x'"
  shows "\<exists>f'. for_each_entries D L B fuel each rd x = Ok (rd\<lparr>rd_source := f'\<rparr>, x') \<and> cur_data f' = cur_data (rd_source rd)"
  using visits_held [OF D reader_holds_pushed [OF D rd undone methods fuel] _ step, of B] fuel(1) by simp

end

section \<open>Testing the archive\<close>

definition tested :: "usize \<times> archive_entry \<Rightarrow> bytes \<Rightarrow> test_result \<Rightarrow> test_result" where
  "tested ie d result =
     \<lparr>files_tested = usize_add (files_tested result) 1, bytes_tested = bytes_tested result + of_nat (length d),
      crcs_verified = (if has_crc (snd ie) then usize_add (crcs_verified result) 1 else crcs_verified result)\<rparr>"

interpretation tester: visitor "test_entry crc32 D B fuel" crc32 D out fine fuel "\<lambda>ie d x. Ok (tested ie d x)"
  for crc32 and D :: "'d decoder_libs" and B :: "'b bcj2_lib" and out fine fuel
proof
  fix dat rest ie x x' r and er :: "('d, 'b) entry_reader"
  assume D: "valid_decoder D out fine" "block_cipher (dc_cbc D)" and er: "entry_ready crc32 D out fine dat rest er"
    "length (entry_contents D out er) < fuel" and x': "Ok (tested ie (entry_contents D out er) x) = Ok x'"
  obtain er' where "read_all (entry_read crc32 D B) 8192 fuel er = Ok (entry_contents D out er, er')"
    "entry_contents D out er' = []" "entry_ready crc32 D out fine dat rest er'"
    using byte_source.read_all_contents [OF entry_source [OF D] er(1), of 8192 fuel B] er(2) by auto
  with x' entry_end(1) show "\<exists>er'. test_entry crc32 D B fuel ie er x = Ok (True, er', x')
      \<and> chain_ready D out fine dat (entry_stack er' r)"
    by (cases ie) (auto simp: test_entry_def tested_def)
next
  fix ie x x' r assume "0 < fuel" "Ok (tested ie [] x) = Ok x'"
  then show "\<exists>er'. test_entry crc32 D B fuel ie (Nothing []) x = Ok (True, er', x') \<and> entry_stack er' r = r"
    by (cases fuel; cases ie) (auto simp: test_entry_def tested_def entry_read_def slice_read_def entry_stack_def)
qed

text \<open>An entry whose recorded CRC is not that of its data stops the test.\<close>

abbreviation checksum_error :: "archive_reader \<Rightarrow> error" where
  "checksum_error rd \<equiv>
     maybe_bad_password (Io (Io_wrapped ChecksumVerificationFailed) '''') (\<not> password_is_empty (rd_password rd))"

lemma read_all_checked:
  "read_all (entry_read crc32 D B) n fuel (Checked_part c) =
     and_then (read_all (crc_read crc32 (bounded_read (decode_stack_read crc32 D B))) n fuel c) (\<lambda>(bs, c). Ok (bs, Checked_part c))"
proof (induction fuel arbitrary: c)
  case (Suc fuel)
  have "entry_read crc32 D B (Checked_part c) n
      = and_then (crc_read crc32 (bounded_read (decode_stack_read crc32 D B)) c n) (\<lambda>(bs, c). Ok (bs, Checked_part c))"
    by (simp add: entry_read_def)
  then show ?case
    by (cases "crc_read crc32 (bounded_read (decode_stack_read crc32 D B)) c n") (auto simp: Suc and_then_assoc split_def)
qed simp

lemma wrong_crc_stops:
  fixes B :: "'b bcj2_lib"
  assumes D: "valid_decoder D out fine" "block_cipher (dc_cbc D)"
    and held: "holds_block crc32 D L out fine fuel rd k i d"
    and wrong: "\<not> right_crc crc32 (Some d) (crc (ar_files (rd_archive rd) ! i))" and f: "cur_data f = cur_data (rd_source rd)"
  shows "block_for_each_entries D L B fuel (rd_password rd) (rd_thread_count rd) (rd_archive rd) (test_entry crc32 D B fuel) k f x
    = Err (checksum_error rd)"
proof -
  let ?a = "rd_archive rd" and ?fl = "ar_files (rd_archive rd) ! i"
  obtain c pad where c: "block_of_data crc32 D L out fine (rd_thread_count rd) (rd_password rd) fuel ?a k (cur_data f) c d pad"
    using held by (auto simp: holds_block_def Let_def f)
  have fl: "i < length (ar_files ?a)" "has_stream ?fl" "entry_size ?fl = of_nat (length d)" "has_crc ?fl" "length d < fuel"
    and b: "num_unpack_sub_streams (ar_blocks ?a ! k) = 1" "k < length (block_first_file_index (ar_stream_map ?a))"
      "block_first_file_index (ar_stream_map ?a) ! k = i"
    using held by (simp_all add: holds_block_def Let_def)
  obtain r n where r: "build_decode_stack D L B fuel (rd_password rd) (rd_thread_count rd) ?a k f = Ok (r :: ('a, 'b) decode_stack, n)"
    "block_holds crc32 D out fine (cur_data f) d pad r" using build_of_data [OF D c, of B] by blast
  have k: "k < length (ar_blocks ?a)" and small: "length d < 2 ^ 63" using c by (simp_all add: block_of_data_def block_at_def Let_def)
  have d: "d \<noteq> []" "crc ?fl \<noteq> ucast (crc32 d)" using wrong by (simp_all add: right_crc_def)
  have size: "unat (entry_size ?fl) = length d" "0 < entry_size ?fl"
  proof -
    show u: "unat (entry_size ?fl) = length d" using fl(3) small by (simp add: unat_of_nat_u64)
    show "0 < entry_size ?fl" using u d(1) by (auto simp: word_gt_0)
  qed
  let ?p = "bounded_new r (length d)"
  have part: "part_contents D out ?p = d" using r(2) by (simp add: part_contents_def bounded_new_def block_holds_def)
  have ready: "part_ready crc32 D out fine (cur_data f) pad ?p"
    unfolding part_ready_def part using r(2) by (simp add: block_holds_def bounded_new_def)
  let ?c = "crc_reader_new ?p (length d) (crc ?fl)"
  have er: "entry_reader_new ?fl r = Checked_part ?c" by (simp add: entry_reader_new_def size(1) fl(4) Let_def)
  have fields: "cr_inner ?c = ?p" "cr_digest ?c = []" "cr_expected ?c = crc ?fl" "cr_remaining ?c = int (length d)"
    using small by (simp_all add: crc_reader_new_def sint_of_size)
  have src: "byte_source (bounded_read (decode_stack_read crc32 D B)) (part_contents D out) (part_ready crc32 D out fine (cur_data f) pad)"
    by (rule part_source [OF D])
  have "read_all (crc_read crc32 (bounded_read (decode_stack_read crc32 D B))) 8192 fuel ?c = Err (Io_wrapped ChecksumVerificationFailed)"
    using byte_source.crc_read_all_go [OF src, of ?c 8192 fuel crc32] ready part fl(5) d
    by (auto simp: fields split: outcome.splits)
  then have "test_entry crc32 D B fuel (i, ?fl) (entry_reader_new ?fl r) x = Err (Io (Io_wrapped ChecksumVerificationFailed) '''')"
    by (simp add: test_entry_def er read_all_checked from_io_def)
  then show ?thesis using b k fl(1,2) size(2) by (simp add: block_for_each_entries_def r(1))
qed

lemma for_each_stops: "for_each f xs s = Ok s' \<Longrightarrow> f x s' = Err e \<Longrightarrow> for_each f (xs @ x # ys) s = Err e"
  by (simp add: for_each_append)

lemma test_stops:
  fixes B :: "'b bcj2_lib"
  assumes D: "valid_decoder D out fine" "block_cipher (dc_cbc D)" and held: "holds_pushed crc32 D L out fine fuel pushed rd"
    and wrong: "\<not> right_crcs crc32 pushed (map crc (ar_files (rd_archive rd)))"
  shows "test_integrity crc32 D L B fuel rd = Err (checksum_error rd)"
proof -
  let ?a = "rd_archive rd" and ?contents = "\<lambda>i. snd (pushed ! i)" and ?full = "full_files pushed"
  let ?right = "\<lambda>k. right_crc crc32 (?contents (?full ! k)) (crc (ar_files ?a ! (?full ! k)))"
  let ?run = "\<lambda>k (f, x). and_then (block_for_each_entries D L B fuel (rd_password rd) (rd_thread_count rd) ?a (test_entry crc32 D B fuel) k f x)
            (\<lambda>(_, f, x). Ok (f, x))"
  have n: "length (ar_files ?a) = length pushed" "length (ar_blocks ?a) = length ?full"
    and blocks: "\<And>k. k < length ?full \<Longrightarrow> holds_block crc32 D L out fine fuel rd k (?full ! k) (the (?contents (?full ! k)))"
    using held by (simp_all add: holds_pushed_def Let_def)
  have full: "?contents (?full ! k) = Some (the (?contents (?full ! k)))" if "k < length ?full" for k
  proof -
    have "?contents (?full ! k) \<noteq> None" using nth_filter_upt [OF that] by blast
    then show ?thesis by (rule option.collapse [symmetric])
  qed
  obtain i where i: "i < length pushed" "\<not> right_crc crc32 (?contents i) (crc (ar_files ?a ! i))"
    using wrong n(1) by (auto simp: right_crcs_def)
  have "?contents i \<noteq> None" using i(2) unfolding right_crc_def by blast
  with i(1) have "i \<in> set ?full" by simp
  then obtain k0 where "k0 < length ?full" "?full ! k0 = i" unfolding in_set_conv_nth by blast
  with i(2) have k0: "k0 < length ?full" "\<not> ?right k0" by simp_all
  define k where "k = (LEAST k. k < length ?full \<and> \<not> ?right k)"
  have "k < length ?full \<and> \<not> ?right k" unfolding k_def by (rule LeastI [of _ k0]) (use k0 in blast)
  then have k: "k < length ?full" "\<not> ?right k" by (rule conjunct1, rule conjunct2)
  have before: "?right j" if "j < k" for j
    using not_less_Least [of j "\<lambda>k. k < length ?full \<and> \<not> ?right k"] that k(1) unfolding k_def [symmetric] by (meson less_trans)
  let ?visit = "\<lambda>k x. Ok (tested (?full ! k, ar_files ?a ! (?full ! k)) (the (?contents (?full ! k))) x) :: test_result result"
  have "\<exists>y. for_each ?visit ks x = Ok y" for ks x by (induction ks arbitrary: x) auto
  then obtain y where y: "for_each ?visit [0..<k] \<lparr>files_tested = 0, bytes_tested = 0, crcs_verified = 0\<rparr> = Ok y" by blast
  have "\<exists>f'. for_each ?run [0..<k] (rd_source rd, \<lparr>files_tested = 0, bytes_tested = 0, crcs_verified = 0\<rparr>) = Ok (f', y) \<and> cur_data f' = cur_data (rd_source rd)"
  proof (rule tester.visits_blocks [where idx = "nth ?full" and dt = "\<lambda>k. the (?contents (?full ! k))", OF _ refl y])
    fix j x x' and f :: cursor assume j: "j \<in> set [0..<k]" and f: "cur_data f = cur_data (rd_source rd)"
      and v: "?visit j x = Ok x'"
    have jk: "j < length ?full" "right_crc crc32 (Some (the (?contents (?full ! j)))) (crc (ar_files ?a ! (?full ! j)))"
      using j k(1) before full [of j] by simp_all
    show "\<exists>f'. block_for_each_entries D L B fuel (rd_password rd) (rd_thread_count rd) ?a (test_entry crc32 D B fuel) j f x = Ok (True, f', x')
        \<and> cur_data f' = cur_data f" by (rule tester.visits_held_block [OF D blocks [OF jk(1)] jk(2) f v])
  qed
  then obtain f' where f': "for_each ?run [0..<k] (rd_source rd, \<lparr>files_tested = 0, bytes_tested = 0, crcs_verified = 0\<rparr>) = Ok (f', y)"
    "cur_data f' = cur_data (rd_source rd)" by blast
  have "[0..<length ?full] = [0..<k] @ k # [Suc k..<length ?full]" using upt_add_eq_append [of 0 k "length ?full - k"] upt_conv_Cons [OF k(1)] k(1) by simp
  moreover have "?run k (f', y) = Err (checksum_error rd)"
    using wrong_crc_stops [OF D blocks [OF k(1)] _ f'(2), of B y] k(2) full [OF k(1)] by simp
  ultimately have "for_each ?run [0..<length ?full] (rd_source rd, \<lparr>files_tested = 0, bytes_tested = 0, crcs_verified = 0\<rparr>) = Err (checksum_error rd)"
    by (simp only: for_each_stops [OF f'(1)])
  then show ?thesis by (simp add: test_integrity_def for_each_entries_def n)
qed

lemma tested_all:
  assumes "crcs_verified x \<le> files_tested x" and "files_tested x + length xs < 2 ^ 64"
  shows "for_each (\<lambda>(i, d) x. Ok (tested (i, g i) d x)) xs x
    = Ok \<lparr>files_tested = files_tested x + length xs, bytes_tested = bytes_tested x + of_nat (length (concat (map snd xs))),
          crcs_verified = crcs_verified x + length (filter (\<lambda>i. has_crc (g i)) (map fst xs))\<rparr>"
  using assms
proof (induction xs arbitrary: x)
  case (Cons y xs)
  have "files_tested (tested (i, g i) d x) = files_tested x + 1"
    "crcs_verified (tested (i, g i) d x) = crcs_verified x + (if has_crc (g i) then 1 else 0)"
    "bytes_tested (tested (i, g i) d x) = bytes_tested x + of_nat (length d)" for i d
    using Cons.prems by (simp_all add: tested_def usize_add_def)
  with Cons.IH [of "tested (fst y, g (fst y)) (snd y) x"] Cons.prems show ?case
    by (cases y) (simp add: ac_simps)
qed simp

lemma visit_order_counts:
  "length (visit_order pushed) = length pushed" "concat (map snd (visit_order pushed)) = concat (List.map_filter snd pushed)"
  "\<forall>i<length pushed. P i = (snd (pushed ! i) \<noteq> None) \<Longrightarrow>
     length (filter P (map fst (visit_order pushed))) = length (List.map_filter snd pushed)"
proof -
  let ?full = "filter (\<lambda>i. snd (pushed ! i) \<noteq> None) [0..<length pushed]"
  have full: "map (\<lambda>i. the (snd (pushed ! i))) ?full = List.map_filter snd pushed"
  proof -
    have "List.map_filter snd pushed = List.map_filter snd (map (nth pushed) [0..<length pushed])" by (simp add: map_nth)
    then show ?thesis by (simp only: List.map_filter_def filter_map comp_def map_map)
  qed
  show "length (visit_order pushed) = length pushed"
    using sum_length_filter_compl [of "\<lambda>i. snd (pushed ! i) \<noteq> None" "[0..<length pushed]"] by (simp add: visit_order_def)
  show "concat (map snd (visit_order pushed)) = concat (List.map_filter snd pushed)"
    using full by (simp add: visit_order_def comp_def)
  assume P: "\<forall>i<length pushed. P i = (snd (pushed ! i) \<noteq> None)"
  have "filter P ?full = ?full" by (rule filter_True) (use P in auto)
  moreover have "filter P (filter (\<lambda>i. snd (pushed ! i) = None) [0..<length pushed]) = []"
    by (rule filter_False) (use P in auto)
  ultimately show "length (filter P (map fst (visit_order pushed))) = length (List.map_filter snd pushed)"
    using arg_cong [OF full, of length] by (simp add: visit_order_def comp_def)
qed

lemma written_archive_passes:
  fixes B :: "'b bcj2_lib"
  assumes D: "valid_decoder D out fine" "block_cipher (dc_cbc D)" and held: "holds_pushed crc32 D L out fine fuel pushed rd"
    and n: "length pushed < 2 ^ 64" "0 < fuel"
    and crcs: "\<forall>i<length pushed. has_crc (ar_files (rd_archive rd) ! i) = (snd (pushed ! i) \<noteq> None)"
  shows "if right_crcs crc32 pushed (map crc (ar_files (rd_archive rd)))
    then \<exists>f'. test_integrity crc32 D L B fuel rd = Ok (rd\<lparr>rd_source := f'\<rparr>,
      \<lparr>files_tested = length pushed, bytes_tested = of_nat (length (concat (List.map_filter snd pushed))),
       crcs_verified = length (List.map_filter snd pushed)\<rparr>)
    else test_integrity crc32 D L B fuel rd = Err (checksum_error rd)"
proof (cases "right_crcs crc32 pushed (map crc (ar_files (rd_archive rd)))")
  case True
  let ?a = "rd_archive rd" and ?none = "\<lparr>files_tested = 0, bytes_tested = 0, crcs_verified = 0\<rparr>"
  have "for_each (\<lambda>(i, d) x. Ok (tested (i, ar_files ?a ! i) d x)) (visit_order pushed) ?none
      = Ok \<lparr>files_tested = length pushed, bytes_tested = of_nat (length (concat (List.map_filter snd pushed))),
          crcs_verified = length (List.map_filter snd pushed)\<rparr>"
    using tested_all [of ?none "visit_order pushed" "\<lambda>i. ar_files ?a ! i",
        unfolded visit_order_counts(1,2) visit_order_counts(3) [OF crcs]] n(1) by simp
  from tester.visits_held [OF D held True n(2) this, of B] True show ?thesis by (auto simp: test_integrity_def)
next
  case False
  then show ?thesis using test_stops [OF D held False, of B] by simp
qed

lemma written_crcs:
  assumes "reader_of X crc32 ps L aw0 pushed aw pw items rd"
  shows "\<forall>i<length pushed. has_crc (ar_files (rd_archive rd) ! i) = (snd (pushed ! i) \<noteq> None)" "length pushed < 2 ^ 64"
    "length (ar_files (rd_archive rd)) = length pushed"
proof -
  have wrote: "wrote X crc32 ps aw0 pushed items aw" and ok: "header_ok L aw" and a: "opened L aw (rd_archive rd)"
    using assms by (simp_all add: reader_of_def)
  have files: "list_all2 entry_like pushed (w_files aw)" and info: "w_unpack_info aw = map (file_block crc32 (w_content_methods aw0)) items"
    using wrote by (simp_all add: wrote_def)
  note n = list_all2_lengthD [OF files]
  have single: "list_all (\<lambda>b. num_subs b = 1) (w_unpack_info aw)" by (simp add: info list_all_iff num_subs_file_block)
  show "\<forall>i<length pushed. has_crc (ar_files (rd_archive rd) ! i) = (snd (pushed ! i) \<noteq> None)"
    using opened_places(1) [OF ok a _ single] list_all2_nthD [OF files] n by (auto simp: entry_like_def split_def)
  show "length pushed < 2 ^ 64" using ok n by (simp add: header_ok_def files_ok_def)
  show "length (ar_files (rd_archive rd)) = length pushed" using n opened_fields(4) [OF a] by simp
qed

lemma with_crcs_has_crc:
  "length crcs = length (ar_files (rd_archive rd)) \<Longrightarrow> i < length crcs \<Longrightarrow>
   has_crc (ar_files (rd_archive (with_crcs crcs rd)) ! i) = has_crc (ar_files (rd_archive rd) ! i)"
  by (simp add: with_crcs_def)

end
