(* ===== verification/Reader_Properties.thy ===== *)
theory Reader_Properties
  imports Lifecycle_Properties Archive_Visit
begin

text \<open>
  The properties of the reader: every archive that is opened has well-formed tables, and the test
  of an archive that was written passes.
\<close>

section \<open>What is opened is well-formed\<close>

definition last_of_name :: "archive_entry list \<Rightarrow> usize \<Rightarrow> bool" where
  "last_of_name fs i \<longleftrightarrow> (\<forall>j<length fs. i < j \<longrightarrow> name (fs ! j) \<noteq> name (fs ! i))"

lemma last_of_name_Cons:
  "last_of_name (f # fs) (Suc i) = last_of_name fs i"
  "last_of_name (f # fs) 0 \<longleftrightarrow> name f \<notin> name ` set fs"
  by (auto simp: last_of_name_def nth_Cons image_iff in_set_conv_nth split: nat.splits) (metis nth_mem)

lemma indexed_last:
  "n + length fs \<le> length (file_block_index (ar_stream_map (rd_archive rd))) \<Longrightarrow>
   \<exists>m. for_each index_file (enumerate n fs) rd = Ok (rd\<lparr>rd_index := m\<rparr>)
     \<and> (\<forall>i<length fs. last_of_name fs i \<longrightarrow> m (name (fs ! i))
          = Some \<lparr>ie_block_index = file_block_index (ar_stream_map (rd_archive rd)) ! (n + i), ie_file_index = n + i\<rparr>)
     \<and> (\<forall>nm. nm \<notin> name ` set fs \<longrightarrow> m nm = rd_index rd nm)"
proof (induction fs arbitrary: n rd)
  case (Cons f fs)
  define ie where "ie = \<lparr>ie_block_index = file_block_index (ar_stream_map (rd_archive rd)) ! n, ie_file_index = n\<rparr>"
  define rd' where "rd' = rd\<lparr>rd_index := (rd_index rd)(name f \<mapsto> ie)\<rparr>"
  have rd': "rd_archive rd' = rd_archive rd" "rd_index rd' = (rd_index rd)(name f \<mapsto> ie)" "rd'\<lparr>rd_index := m\<rparr> = rd\<lparr>rd_index := m\<rparr>" for m
    by (simp_all add: rd'_def)
  obtain m where m: "for_each index_file (enumerate (Suc n) fs) rd' = Ok (rd\<lparr>rd_index := m\<rparr>)"
    "\<forall>i<length fs. last_of_name fs i \<longrightarrow> m (name (fs ! i))
       = Some \<lparr>ie_block_index = file_block_index (ar_stream_map (rd_archive rd)) ! (Suc n + i), ie_file_index = Suc n + i\<rparr>"
    "\<forall>nm. nm \<notin> name ` set fs \<longrightarrow> m nm = rd_index rd' nm"
    using Cons.IH [of "Suc n" rd'] Cons.prems by (auto simp: rd')
  have "index_file (n, f) rd = Ok rd'" using Cons.prems by (simp add: index_file_def rd'_def ie_def)
  moreover have "name f \<notin> name ` set fs \<Longrightarrow> m (name f) = Some ie" "nm \<notin> name ` set (f # fs) \<Longrightarrow> m nm = rd_index rd nm" for nm
    using m(3) by (auto simp: rd')
  ultimately show ?case using m(1,2)
    by (intro exI [of _ m]) (auto simp: nth_Cons last_of_name_Cons ie_def split: nat.splits)
next
  case Nil
  show ?case by (intro exI [of _ "rd_index rd"]) simp
qed

text \<open>C8: whatever the file was, an archive that is opened has well-formed tables: the stream map
  has an entry for every file, every file with a stream is in a block of the archive, and the first
  file of the block is not behind it. The index by names is filled without panic, and it is
  exactly this: a name leads to the last file of that name and to the block of that file in the
  stream map, and a name that no file has leads nowhere.\<close>

theorem opened_archive_well_formed:
  assumes "archive_read_file crc32 D L fuel pw f = Ok (a, f')"
  shows "length (file_block_index (ar_stream_map a)) = length (ar_files a)
     \<and> (\<forall>i<length (ar_files a). case file_block_index (ar_stream_map a) ! i of
          None \<Rightarrow> \<not> has_stream (ar_files a ! i)
        | Some b \<Rightarrow> b < length (ar_blocks a) \<and> block_first_file_index (ar_stream_map a) ! b \<le> i)
     \<and> (\<exists>rd. from_archive parallelism a f' pw = Ok rd \<and> rd_archive rd = a
          \<and> (\<forall>i<length (ar_files a). last_of_name (ar_files a) i \<longrightarrow> rd_index rd (name (ar_files a ! i))
               = Some \<lparr>ie_block_index = file_block_index (ar_stream_map a) ! i, ie_file_index = i\<rparr>)
          \<and> (\<forall>nm. nm \<notin> name ` set (ar_files a) \<longrightarrow> rd_index rd nm = None))"
proof -
  have wf: "map_wf a" using opened_wf [of crc32 D L fuel pw] assms unfolding ensures_def by blast
  let ?rd = "\<lparr>rd_source = f', rd_archive = a, rd_password = pw, rd_thread_count = 1, rd_index = Map.empty\<rparr>"
  have lengths: "length (file_block_index (ar_stream_map a)) = length (ar_files a)" using wf by (simp add: map_wf_def Let_def)
  obtain m where m: "fill_index ?rd = Ok (?rd\<lparr>rd_index := m\<rparr>)"
    "\<forall>i<length (ar_files a). last_of_name (ar_files a) i \<longrightarrow> m (name (ar_files a ! i))
       = Some \<lparr>ie_block_index = file_block_index (ar_stream_map a) ! i, ie_file_index = i\<rparr>"
    "\<forall>nm. nm \<notin> name ` set (ar_files a) \<longrightarrow> m nm = None"
    using indexed_last [of 0 "ar_files a" ?rd] lengths by (auto simp: fill_index_def)
  obtain rd where "from_archive parallelism a f' pw = Ok rd" "rd_index rd = m" "rd_archive rd = a"
    by (simp add: from_archive_def m(1) set_thread_count_def)
  moreover have "\<forall>i<length (ar_files a). case file_block_index (ar_stream_map a) ! i of
      None \<Rightarrow> \<not> has_stream (ar_files a ! i)
    | Some b \<Rightarrow> b < length (ar_blocks a) \<and> block_first_file_index (ar_stream_map a) ! b \<le> i"
    using wf by (auto simp: map_wf_def Let_def split: option.splits)
  ultimately show ?thesis using lengths m(2,3) by blast
qed

section \<open>The test of an archive\<close>

text \<open>C9: the test of an archive passes exactly if the CRCs that it records are those of its data.
  Files and directories are pushed to a new writer, it is finished and the file is opened. Then
  \<open>test_integrity\<close> visits every entry once and reads as many bytes as were pushed. If the archive
  records other CRCs for its entries (and the same digests of its substreams, which the decoders of
  a block check besides), the test still passes if the CRC of every non-empty file is that of its
  contents, and otherwise it stops with a checksum error: each of these CRCs is verified. \<open>crcs_verified\<close> counts the entries that have a CRC; the CRC of an empty file is among
  them and may be anything, for it is never compared. The hypotheses are those of
  \<open>archive_roundtrip\<close>.\<close>

theorem written_archive_passes_test:
  assumes "valid_decoder D out fine" and "block_cipher (dc_cbc D)"
    and "\<And>t. methods_undone D L out fine t pw X methods ps"
    and "methods_undone D L out fine 1 pw X (header_methods encrypt methods) hps"
    and "methods_ok (memory_env L X crc32) methods ps" and "methods_ok (memory_env L X crc32) (header_methods encrypt methods) hps"
    and "list_all (codec_ok L) methods" and "list_all (codec_ok L) (header_methods encrypt methods)"
    and "length methods < fuel" and "length (header_methods encrypt methods) < fuel" and "fuel < 2 ^ 63" and "8 < fuel"
    and "new_writer (memory_env L X crc32) methods encrypt = Ok aw0" and "push_all (memory_env L X crc32) fuel pushed aw0 = Ok aw"
    and "list_all (can_be_pushed fuel) pushed"
    and "files_ok (map plain_entry pushed)" and "distinct (map (\<lambda>p. name (fst p)) pushed)"
    and "list_all (\<lambda>c. c \<noteq> 0) (pi_crcs (w_pack_info aw))"
    and "finish_fits L X crc32 hps (cur_pos (w_output aw) - 32) aw"
  shows "\<exists>f rd. finish_archive (memory_env L X crc32) aw = Ok f
     \<and> archive_reader_new crc32 D L fuel parallelism f pw = Ok rd
     \<and> right_crcs crc32 pushed (map crc (ar_files (rd_archive rd)))
     \<and> (\<forall>crcs. length crcs = length pushed \<longrightarrow>
          (if right_crcs crc32 pushed crcs
           then \<exists>f'. test_integrity crc32 D L B fuel (with_crcs crcs rd) = Ok ((with_crcs crcs rd)\<lparr>rd_source := f'\<rparr>,
             \<lparr>files_tested = length pushed, bytes_tested = of_nat (length (concat (List.map_filter snd pushed))),
              crcs_verified = length (List.map_filter snd pushed)\<rparr>)
           else test_integrity crc32 D L B fuel (with_crcs crcs rd) = Err
             (maybe_bad_password (Io (Io_wrapped ChecksumVerificationFailed) '''') (\<not> password_is_empty (rd_password rd)))))
     \<and> (\<exists>f'. test_integrity crc32 D L B fuel rd = Ok (rd\<lparr>rd_source := f'\<rparr>,
         \<lparr>files_tested = length pushed, bytes_tested = of_nat (length (concat (List.map_filter snd pushed))),
          crcs_verified = length (List.map_filter snd pushed)\<rparr>))"
proof -
  obtain f rd items where f: "finish_archive (memory_env L X crc32) aw = Ok f" "archive_reader_new crc32 D L fuel parallelism f pw = Ok rd"
    and rd: "reader_of X crc32 ps L aw0 pushed aw pw items rd" and aw0: "w_content_methods aw0 = methods"
    using written_archive_opens [OF assms] by blast
  have methods: "w_content_methods aw0 \<noteq> []" "length ps = length (w_content_methods aw0)"
    using assms(5) by (auto simp: methods_ok_def aw0 dest: list_all2_lengthD)
  note held = reader_holds_pushed [OF assms(1,2) rd assms(3) [folded aw0] methods assms(9) [folded aw0] assms(11,15)]
  note n = written_crcs [OF rd]
  have fuel: "0 < fuel" using assms(9) by simp
  have crcs: "if right_crcs crc32 pushed crcs
      then \<exists>f'. test_integrity crc32 D L B fuel (with_crcs crcs rd) = Ok ((with_crcs crcs rd)\<lparr>rd_source := f'\<rparr>,
        \<lparr>files_tested = length pushed, bytes_tested = of_nat (length (concat (List.map_filter snd pushed))),
         crcs_verified = length (List.map_filter snd pushed)\<rparr>)
      else test_integrity crc32 D L B fuel (with_crcs crcs rd) = Err (checksum_error rd)" if "length crcs = length pushed" for crcs
  proof -
    have files: "length crcs = length (ar_files (rd_archive rd))" using that n(3) by simp
    have "rd_password (with_crcs crcs rd) = rd_password rd" by (simp add: with_crcs_def)
    with written_archive_passes [OF assms(1,2) holds_pushed_with_crcs [OF held(1) that] n(2) fuel, of B]
    show ?thesis using n(1) that with_crcs_has_crc [OF files] by (simp add: with_crcs_files [OF files])
  qed
  moreover have "\<exists>f'. test_integrity crc32 D L B fuel rd = Ok (rd\<lparr>rd_source := f'\<rparr>,
      \<lparr>files_tested = length pushed, bytes_tested = of_nat (length (concat (List.map_filter snd pushed))),
       crcs_verified = length (List.map_filter snd pushed)\<rparr>)"
    using written_archive_passes [OF assms(1,2) held(1) n(2) fuel n(1), of B] held(2) by simp
  ultimately show ?thesis using f held(2) by blast
qed

theorem written_archive_passes_test_witness:
  "\<exists>aw f rd. and_then (new_writer demo_env [stored, swapped] False) (push_all demo_env 20 demo_pushed) = Ok aw
     \<and> finish_archive demo_env aw = Ok f \<and> archive_reader_new demo_crc demo_decoders demo_libs 20 None f [] = Ok rd
     \<and> (\<exists>f'. test_integrity demo_crc demo_decoders demo_libs demo_bcj2 20 rd
        = Ok (rd\<lparr>rd_source := f'\<rparr>, \<lparr>files_tested = 1, bytes_tested = 3, crcs_verified = 1\<rparr>))
     \<and> (\<exists>e. test_integrity demo_crc demo_decoders demo_libs demo_bcj2 20 (with_crcs [0] rd) = Err e)"
proof -
  obtain aw0 aw where aw: "new_writer demo_env [stored, swapped] False = Ok aw0" "push_all demo_env 20 demo_pushed aw0 = Ok aw"
    and fit: "list_all (\<lambda>c. c \<noteq> 0) (pi_crcs (w_pack_info aw))" "files_ok (map plain_entry demo_pushed)"
      "finish_fits demo_libs demo_codecs demo_crc [((=), Lzma_encoder (Some ()))] (cur_pos (w_output aw) - 32) aw"
      "list_all (codec_ok demo_libs) [stored, swapped]" "list_all (codec_ok demo_libs) (header_methods False [stored, swapped])"
      "length (header_methods False [stored, swapped]) < 20" "list_all (can_be_pushed 20) demo_pushed"
    using demo_archive [OF demo_names(1)] by (elim exE conjE) (rule that; assumption)
  obtain f rd where f: "finish_archive demo_env aw = Ok f" "archive_reader_new demo_crc demo_decoders demo_libs 20 None f [] = Ok rd"
    and crcs: "\<forall>crcs. length crcs = length demo_pushed \<longrightarrow>
          (if right_crcs demo_crc demo_pushed crcs
           then \<exists>f'. test_integrity demo_crc demo_decoders demo_libs demo_bcj2 20 (with_crcs crcs rd) = Ok ((with_crcs crcs rd)\<lparr>rd_source := f'\<rparr>,
             \<lparr>files_tested = length demo_pushed, bytes_tested = of_nat (length (concat (List.map_filter snd demo_pushed))),
              crcs_verified = length (List.map_filter snd demo_pushed)\<rparr>)
           else test_integrity demo_crc demo_decoders demo_libs demo_bcj2 20 (with_crcs crcs rd) = Err
             (maybe_bad_password (Io (Io_wrapped ChecksumVerificationFailed) '''') (\<not> password_is_empty (rd_password rd))))"
    and test: "\<exists>f'. test_integrity demo_crc demo_decoders demo_libs demo_bcj2 20 rd = Ok (rd\<lparr>rd_source := f'\<rparr>,
         \<lparr>files_tested = length demo_pushed, bytes_tested = of_nat (length (concat (List.map_filter snd demo_pushed))),
          crcs_verified = length (List.map_filter snd demo_pushed)\<rparr>)"
    using written_archive_passes_test [where parallelism = None and B = demo_bcj2 and pw = "[]", OF demo_valid_decoder demo_cipher demo_swapped_undone' demo_lzma_undone demo_methods_ok demo_header_methods_ok
      fit(4,5) _ fit(6) _ _ aw fit(7,2) _ fit(1,3)] by auto
  have "\<not> right_crcs demo_crc demo_pushed [0]" by (simp add: right_crcs_def right_crc_def demo_crc_def)
  with crcs have "\<exists>e. test_integrity demo_crc demo_decoders demo_libs demo_bcj2 20 (with_crcs [0] rd) = Err e" by auto
  moreover have "length demo_pushed = 1" "length (concat (List.map_filter snd demo_pushed)) = 3" "length (List.map_filter snd demo_pushed) = 1"
    by (simp_all add: List.map_filter_def)
  ultimately show ?thesis using aw f test by auto
qed

theorem opened_archive_well_formed_witness:
  "\<exists>f a f' rd. archive_read_file demo_crc demo_decoders demo_libs 20 [] f = Ok (a, f') \<and> from_archive None a f' [] = Ok rd
     \<and> length (file_block_index (ar_stream_map a)) = length (ar_files a)"
proof -
  obtain aw0 aw where aw: "new_writer demo_env [stored, swapped] False = Ok aw0" "push_all demo_env 20 demo_pushed aw0 = Ok aw"
    and fit: "list_all (\<lambda>c. c \<noteq> 0) (pi_crcs (w_pack_info aw))" "files_ok (map plain_entry demo_pushed)"
      "finish_fits demo_libs demo_codecs demo_crc [((=), Lzma_encoder (Some ()))] (cur_pos (w_output aw) - 32) aw"
      "list_all (codec_ok demo_libs) [stored, swapped]" "list_all (codec_ok demo_libs) (header_methods False [stored, swapped])"
      "length (header_methods False [stored, swapped]) < 20" "list_all (can_be_pushed 20) demo_pushed"
    using demo_archive [OF demo_names(1)] by (elim exE conjE) (rule that; assumption)
  obtain f rd where "archive_reader_new demo_crc demo_decoders demo_libs 20 None f [] = Ok rd"
    using written_archive_opens [where parallelism = None and pw = "[]", OF demo_valid_decoder demo_cipher demo_swapped_undone' demo_lzma_undone demo_methods_ok demo_header_methods_ok
      fit(4,5) _ fit(6) _ _ aw fit(7,2) _ fit(1,3)] by auto
  then obtain a f' where "archive_read_file demo_crc demo_decoders demo_libs 20 [] f = Ok (a, f')"
    by (auto simp: archive_reader_new_def and_then_Ok_iff)
  with opened_archive_well_formed [OF this, of None] show ?thesis by blast
qed

end
