(* ===== verification/File_System.thy ===== *)
theory File_System
  imports Nt_Time "HOL-Library.AList" "HOL-Library.Sublist"
begin

text \<open>
  Paths and files, as far as \<^verbatim>\<open>src/src/util\<close> uses them of the standard library: \<open>Path\<close>, the
  resolution of paths by the operating system, and the functions of \<open>std::fs\<close>. The target is a
  Unix system without symbolic links; permissions are given and the disk does not fill up. A node
  of the file system is found at its location, the names from the root to it. The order of the
  list of nodes is the order in which \<open>read_dir\<close> gives them. Times of directories stay.
\<close>

section \<open>Paths\<close>

text \<open>A path is the list of what stands between its slashes, so it is never the empty list: the
  empty path is \<open>[[]]\<close>, an absolute path begins with an empty part.\<close>

type_synonym path = "rstring list"

abbreviation slash :: nat where "slash \<equiv> 47"
abbreviation here :: rstring where "here \<equiv> [46]"
abbreviation up :: rstring where "up \<equiv> [46, 46]"

fun path_of :: "rstring \<Rightarrow> path" where
  "path_of [] = [[]]"
| "path_of (c # s) = (if c = slash then [] # path_of s else (c # hd (path_of s)) # tl (path_of s))"

fun path_string :: "path \<Rightarrow> rstring" where
  "path_string [] = []"
| "path_string [p] = p"
| "path_string (p # q # ps) = p @ slash # path_string (q # ps)"

text \<open>The text of error messages.\<close>

definition lossy :: "path \<Rightarrow> string" where
  "lossy p = map char_of (path_string p)"

definition is_absolute :: "path \<Rightarrow> bool" where
  "is_absolute p \<longleftrightarrow> 2 \<le> length p \<and> hd p = []"

text \<open>\<open>Path::join\<close>: an absolute path replaces the one it is joined to.\<close>

definition join :: "path \<Rightarrow> path \<Rightarrow> path" where
  "join p q =
     (if is_absolute q then q else if p = [[]] then q
      else if last p = [] then butlast p @ q else p @ q)"

text \<open>\<open>Path::components\<close>: empty parts do not count, nor \<open>.\<close> but at the beginning.\<close>

definition components :: "path \<Rightarrow> rstring list" where
  "components p =
     (if \<not> is_absolute p \<and> hd p = here then [here] else []) @ filter (\<lambda>c. c \<noteq> [] \<and> c \<noteq> here) p"

definition from_components :: "bool \<Rightarrow> rstring list \<Rightarrow> path" where
  "from_components absolute cs =
     (if absolute then (if cs = [] then [[], []] else [] # cs) else if cs = [] then [[]] else cs)"

definition parent :: "path \<Rightarrow> path option" where
  "parent p = (if components p = [] then None else Some (from_components (is_absolute p) (butlast (components p))))"

definition file_name :: "path \<Rightarrow> rstring option" where
  "file_name p =
     (if components p = [] \<or> last (components p) = up \<or> last (components p) = here then None else Some (last (components p)))"

text \<open>Equality of paths and \<open>Path::strip_prefix\<close> go by components.\<close>

definition same_path :: "path \<Rightarrow> path \<Rightarrow> bool" where
  "same_path p q \<longleftrightarrow> is_absolute p = is_absolute q \<and> components p = components q"

definition path_strip_prefix :: "path \<Rightarrow> path \<Rightarrow> path option" where
  "path_strip_prefix p base =
     (if is_absolute p = is_absolute base \<and> prefix (components base) (components p)
      then Some (from_components False (drop (length (components base)) (components p))) else None)"

section \<open>The file system\<close>

type_synonym location = "rstring list"

record node =
  nd_contents :: "bytes option"
  nd_modified :: system_time
  nd_accessed :: system_time
  nd_created :: system_time

record file_system =
  fs_nodes :: "(location \<times> node) list"
  fs_cwd :: location
  fs_now :: system_time

definition node_at :: "file_system \<Rightarrow> location \<Rightarrow> node option" where
  "node_at fs l = map_of (fs_nodes fs) l"

definition directory_at :: "file_system \<Rightarrow> location \<Rightarrow> bool" where
  "directory_at fs l \<longleftrightarrow> (case node_at fs l of None \<Rightarrow> False | Some n \<Rightarrow> nd_contents n = None)"

definition put_node :: "location \<Rightarrow> node \<Rightarrow> file_system \<Rightarrow> file_system" where
  "put_node l n fs = fs\<lparr>fs_nodes := AList.update l n (fs_nodes fs)\<rparr>"

definition new_node :: "bytes option \<Rightarrow> file_system \<Rightarrow> node" where
  "new_node contents fs = \<lparr>nd_contents = contents, nd_modified = fs_now fs, nd_accessed = fs_now fs, nd_created = fs_now fs\<rparr>"

abbreviation not_found :: io_error where "not_found \<equiv> Io_simple NotFound ''No such file or directory''"
abbreviation not_a_directory :: io_error where "not_a_directory \<equiv> Io_simple OtherKind ''Not a directory''"
abbreviation is_a_directory :: io_error where "is_a_directory \<equiv> Io_simple OtherKind ''Is a directory''"
abbreviation already_exists :: io_error where "already_exists \<equiv> Io_simple OtherKind ''File exists''"

text \<open>Each part of a path is looked up in a directory; the last one need not exist.\<close>

fun walk :: "file_system \<Rightarrow> location \<Rightarrow> path \<Rightarrow> location io_result" where
  "walk fs l [] = Ok l"
| "walk fs l (c # cs) =
     (if directory_at fs l
      then walk fs (if c = [] \<or> c = here then l else if c = up then butlast l else l @ [c]) cs
      else if node_at fs l = None then Err not_found else Err not_a_directory)"

definition locate :: "file_system \<Rightarrow> path \<Rightarrow> location io_result" where
  "locate fs p = (if p = [[]] then Err not_found else walk fs (if is_absolute p then [] else fs_cwd fs) p)"

definition metadata :: "file_system \<Rightarrow> path \<Rightarrow> node io_result" where
  "metadata fs p =
     and_then (locate fs p) (\<lambda>l. case node_at fs l of None \<Rightarrow> Err not_found | Some n \<Rightarrow> Ok n)"

definition path_exists :: "file_system \<Rightarrow> path \<Rightarrow> bool" where
  "path_exists fs p = is_ok (metadata fs p)"

definition is_dir :: "file_system \<Rightarrow> path \<Rightarrow> bool" where
  "is_dir fs p \<longleftrightarrow> (case metadata fs p of Ok n \<Rightarrow> nd_contents n = None | _ \<Rightarrow> False)"

definition is_file :: "file_system \<Rightarrow> path \<Rightarrow> bool" where
  "is_file fs p \<longleftrightarrow> (case metadata fs p of Ok n \<Rightarrow> nd_contents n \<noteq> None | _ \<Rightarrow> False)"

text \<open>The system call \<open>mkdir\<close> ignores slashes at the end of the path.\<close>

definition strip_slashes :: "path \<Rightarrow> path" where
  "strip_slashes p = (let q = rev (dropWhile (\<lambda>c. c = []) (rev p)) in if q = [] then p else q)"

definition mkdir :: "file_system \<Rightarrow> path \<Rightarrow> file_system io_result" where
  "mkdir fs p =
     and_then (locate fs (strip_slashes p)) (\<lambda>l.
     if node_at fs l \<noteq> None then Err already_exists else Ok (put_node l (new_node None fs) fs))"

text \<open>\<open>std::fs::create_dir_all\<close>; also when it fails, some directories may have been made.\<close>

lemma components_from [simp]:
  "list_all (\<lambda>c. c \<noteq> [] \<and> c \<noteq> here) cs \<Longrightarrow> components (from_components a cs) = cs"
  by (cases cs) (auto simp: components_def from_components_def is_absolute_def list_all_iff filter_id_conv)

lemma length_parent: "parent p = Some q \<Longrightarrow> length (components q) < length (components p)"
proof -
  assume q: "parent p = Some q"
  let ?b = "butlast (components p)"
  have ne: "components p \<noteq> []" and q': "q = from_components (is_absolute p) ?b" using q by (auto simp: parent_def split: if_split_asm)
  have "length (components (from_components a cs)) \<le> length cs" for a cs
    by (cases cs) (auto simp: components_def from_components_def is_absolute_def intro: le_SucI)
  then have "length (components q) \<le> length ?b" unfolding q' .
  with ne show ?thesis by (cases "components p" rule: rev_cases) auto
qed

function create_dir_all :: "file_system \<Rightarrow> path \<Rightarrow> file_system \<times> unit io_result" where
  "create_dir_all fs p =
     (if p = [[]] then (fs, Ok ())
      else
        case mkdir fs p of
          Ok fs' \<Rightarrow> (fs', Ok ())
        | Err e \<Rightarrow>
            if e = not_found then
              (case parent p of
                 None \<Rightarrow> (fs, Err (Io_simple OtherKind ''failed to create whole tree''))
               | Some q \<Rightarrow>
                   (case create_dir_all fs q of
                      (fs, Ok _) \<Rightarrow>
                        (case mkdir fs p of
                           Ok fs' \<Rightarrow> (fs', Ok ())
                         | Err e \<Rightarrow> if is_dir fs p then (fs, Ok ()) else (fs, Err e)
                         | _ \<Rightarrow> (fs, Panic))
                    | (fs, r) \<Rightarrow> (fs, r)))
            else if is_dir fs p then (fs, Ok ()) else (fs, Err e)
        | _ \<Rightarrow> (fs, Panic))"
  by pat_completeness auto
termination
  by (relation "measure (\<lambda>(fs, p). length (components p))") (auto dest: length_parent)

declare create_dir_all.simps [simp del]

text \<open>\<open>File::create\<close> truncates a file that exists; the result is where the file is.\<close>

definition create_file :: "file_system \<Rightarrow> path \<Rightarrow> (location \<times> file_system) io_result" where
  "create_file fs p =
     and_then (locate fs p) (\<lambda>l.
     case node_at fs l of
       None \<Rightarrow> Ok (l, put_node l (new_node (Some []) fs) fs)
     | Some n \<Rightarrow>
         if nd_contents n = None then Err is_a_directory
         else Ok (l, put_node l (n\<lparr>nd_contents := Some [], nd_modified := fs_now fs\<rparr>) fs))"

definition open_file :: "file_system \<Rightarrow> path \<Rightarrow> bytes io_result" where
  "open_file fs p =
     and_then (metadata fs p) (\<lambda>n. case nd_contents n of None \<Rightarrow> Err is_a_directory | Some d \<Rightarrow> Ok d)"

definition append_file :: "location \<Rightarrow> bytes \<Rightarrow> file_system \<Rightarrow> file_system" where
  "append_file l bs fs =
     (case node_at fs l of
        Some n \<Rightarrow> put_node l (n\<lparr>nd_contents := map_option (\<lambda>d. d @ bs) (nd_contents n), nd_modified := fs_now fs\<rparr>) fs
      | None \<Rightarrow> fs)"

definition set_times :: "location \<Rightarrow> system_time \<Rightarrow> system_time \<Rightarrow> file_system \<Rightarrow> file_system" where
  "set_times l accessed modified fs =
     (case node_at fs l of
        Some n \<Rightarrow> put_node l (n\<lparr>nd_accessed := accessed, nd_modified := modified\<rparr>) fs
      | None \<Rightarrow> fs)"

text \<open>The names in a directory, in no particular order.\<close>

definition read_dir :: "file_system \<Rightarrow> path \<Rightarrow> rstring list io_result" where
  "read_dir fs p =
     and_then (locate fs p) (\<lambda>l.
     if directory_at fs l then Ok (map last (filter (\<lambda>k. k \<noteq> [] \<and> butlast k = l) (map fst (fs_nodes fs))))
     else if node_at fs l = None then Err not_found else Err not_a_directory)"

section \<open>Resolution\<close>

lemma node_at_put [simp]: "node_at (put_node l n fs) k = (if k = l then Some n else node_at fs k)"
  by (simp add: node_at_def put_node_def update_conv')

lemma put_node_fields [simp]: "fs_cwd (put_node l n fs) = fs_cwd fs" "fs_now (put_node l n fs) = fs_now fs"
  by (simp_all add: put_node_def)

lemma walk_append: "walk fs l (p @ q) = and_then (walk fs l p) (\<lambda>k. walk fs k q)"
  by (induction fs l p rule: walk.induct) auto

lemma walk_keeps_prefix: "walk fs l p = Ok k \<Longrightarrow> up \<notin> set p \<Longrightarrow> prefix l k"
proof (induction fs l p rule: walk.induct)
  case (2 fs l c cs)
  then show ?case by (auto split: if_split_asm dest: append_prefixD)
qed simp

text \<open>Directories stay directories.\<close>

definition grows :: "file_system \<Rightarrow> file_system \<Rightarrow> bool" where
  "grows fs fs' \<longleftrightarrow> fs_cwd fs' = fs_cwd fs \<and> fs_now fs' = fs_now fs \<and> (\<forall>l. directory_at fs l \<longrightarrow> directory_at fs' l)"

lemma grows_refl [simp]: "grows fs fs"
  by (simp add: grows_def)

lemma grows_trans: "grows f g \<Longrightarrow> grows g h \<Longrightarrow> grows f h"
  by (simp add: grows_def)

lemma walk_grows: "grows fs fs' \<Longrightarrow> walk fs l p = Ok k \<Longrightarrow> walk fs' l p = Ok k"
  by (induction fs l p rule: walk.induct) (auto simp: grows_def split: if_split_asm)

lemma locate_grows: "grows fs fs' \<Longrightarrow> locate fs p = Ok k \<Longrightarrow> locate fs' p = Ok k"
  using walk_grows [of fs fs' "fs_cwd fs" p k] walk_grows [of fs fs' "[]" p k]
  by (auto simp: locate_def grows_def split: if_split_asm)

end
