(* ===== verification/Decompress.thy ===== *)
theory Decompress
  imports Archive_Reader File_System
begin

text \<open>
  \<^verbatim>\<open>src/src/util/decompress.rs\<close>: an archive is extracted into a directory. What is on the disk
  after an error is not told. The archive is what the file held when it was opened.
\<close>

section \<open>The default extraction of an entry\<close>

text \<open>\<open>std::io::copy\<close> through a \<open>BufWriter\<close> of 8192 bytes leaves nothing in its buffer.\<close>

definition default_entry_extract_fn ::
    "(bytes \<Rightarrow> u32) \<Rightarrow> 'd decoder_libs \<Rightarrow> 'b bcj2_lib \<Rightarrow> nat \<Rightarrow> archive_entry \<Rightarrow> ('d, 'b) entry_reader \<Rightarrow> path \<Rightarrow>
     file_system \<Rightarrow> (bool \<times> ('d, 'b) entry_reader \<times> file_system) result" where
  "default_entry_extract_fn crc32 D B fuel entry er dest fs =
     (if is_directory entry then
        if path_exists fs dest then Ok (True, er, fs)
        else (case create_dir_all fs dest of (fs, r) \<Rightarrow> and_then (from_io r) (\<lambda>_. Ok (True, er, fs)))
      else
        let fs = (case parent dest of
                    None \<Rightarrow> fs
                  | Some p \<Rightarrow> if path_exists fs p then fs else fst (create_dir_all fs p)) in
        and_then (map_err (\<lambda>e. Io e (lossy dest)) (create_file fs dest)) (\<lambda>(l, fs).
        if 0 < entry_size entry then
          and_then (from_io (read_all (entry_read crc32 D B) 8192 fuel er)) (\<lambda>(bs, er).
          let fs = append_file l bs fs in
          and_then (system_time_from (access_date entry)) (\<lambda>accessed.
          and_then (system_time_from (last_modified_date entry)) (\<lambda>modified.
          Ok (True, er, set_times l accessed modified fs))))
        else Ok (True, er, fs)))"

section \<open>The extraction of an archive\<close>

type_synonym ('d, 'b) extract_fn =
  "archive_entry \<Rightarrow> ('d, 'b) entry_reader \<Rightarrow> path \<Rightarrow> file_system \<Rightarrow> (bool \<times> ('d, 'b) entry_reader \<times> file_system) result"

definition extract_each :: "path \<Rightarrow> ('d, 'b) extract_fn \<Rightarrow> ('d, 'b, file_system) each_entry" where
  "extract_each dest extract_fn ie er fs = (case ie of (_, entry) \<Rightarrow> extract_fn entry er (join dest (path_of (name entry))) fs)"

definition decompress_impl ::
    "(bytes \<Rightarrow> u32) \<Rightarrow> 'd decoder_libs \<Rightarrow> libs \<Rightarrow> 'b bcj2_lib \<Rightarrow> nat \<Rightarrow> usize option \<Rightarrow> cursor \<Rightarrow> path \<Rightarrow> password \<Rightarrow>
     ('d, 'b) extract_fn \<Rightarrow> file_system \<Rightarrow> file_system result" where
  "decompress_impl crc32 D L B fuel parallelism src_reader dest pw extract_fn fs =
     and_then (stream_position src_reader) (\<lambda>(pos, f).
     and_then (seek_start pos f) (\<lambda>(_, f).
     and_then (archive_reader_new crc32 D L fuel parallelism f pw) (\<lambda>seven.
     case (if path_exists fs dest then (fs, Ok ()) else create_dir_all fs dest) of
       (fs, r) \<Rightarrow>
         and_then (from_io r) (\<lambda>_.
         and_then (for_each_entries D L B fuel (extract_each dest extract_fn) seven fs) (\<lambda>(_, fs). Ok fs)))))"

definition decompress_with_extract_fn where
  "decompress_with_extract_fn crc32 D L B fuel parallelism src_reader dest extract_fn fs =
     decompress_impl crc32 D L B fuel parallelism src_reader dest [] extract_fn fs"

definition decompress where
  "decompress crc32 D L B fuel parallelism src_reader dest fs =
     decompress_with_extract_fn crc32 D L B fuel parallelism src_reader dest (default_entry_extract_fn crc32 D B fuel) fs"

definition decompress_with_password where
  "decompress_with_password crc32 D L B fuel parallelism src_reader dest pw fs =
     decompress_impl crc32 D L B fuel parallelism src_reader dest pw (default_entry_extract_fn crc32 D B fuel) fs"

definition decompress_with_extract_fn_and_password where
  "decompress_with_extract_fn_and_password crc32 D L B fuel parallelism src_reader dest pw extract_fn fs =
     decompress_impl crc32 D L B fuel parallelism src_reader dest pw extract_fn fs"

definition open_archive_file :: "file_system \<Rightarrow> path \<Rightarrow> cursor result" where
  "open_archive_file fs src_path =
     map_err (\<lambda>e. Io e (lossy src_path)) (and_then (open_file fs src_path) (\<lambda>d. Ok \<lparr>cur_data = d, cur_pos = 0\<rparr>))"

definition decompress_file where
  "decompress_file crc32 D L B fuel parallelism src_path dest fs =
     and_then (open_archive_file fs src_path) (\<lambda>f. decompress crc32 D L B fuel parallelism f dest fs)"

definition decompress_file_with_extract_fn where
  "decompress_file_with_extract_fn crc32 D L B fuel parallelism src_path dest extract_fn fs =
     and_then (open_archive_file fs src_path) (\<lambda>f.
       decompress_with_extract_fn crc32 D L B fuel parallelism f dest extract_fn fs)"

definition decompress_file_with_password where
  "decompress_file_with_password crc32 D L B fuel parallelism src_path dest pw fs =
     and_then (open_archive_file fs src_path) (\<lambda>f.
       decompress_with_password crc32 D L B fuel parallelism f dest pw fs)"

section \<open>Nothing outside the destination is touched\<close>

text \<open>What a step may do to the file system: change what is below \<open>home\<close>, and no directory goes.\<close>

definition inside :: "location \<Rightarrow> file_system \<Rightarrow> file_system \<Rightarrow> bool" where
  "inside home fs fs' \<longleftrightarrow> grows fs fs' \<and> (\<forall>l. node_at fs' l \<noteq> node_at fs l \<longrightarrow> prefix home l)"

lemma inside_refl [simp]: "inside home fs fs"
  by (simp add: inside_def)

lemma inside_trans: "inside home f g \<Longrightarrow> inside home g h \<Longrightarrow> inside home f h"
  unfolding inside_def using grows_trans by metis

lemma put_inside:
  assumes "prefix home l" and "directory_at fs l \<longrightarrow> nd_contents n = None"
  shows "inside home fs (put_node l n fs)"
  using assms by (auto simp: inside_def grows_def directory_at_def)

text \<open>A path below the destination: its parts are those of the destination and names.\<close>

definition below :: "file_system \<Rightarrow> location \<Rightarrow> path \<Rightarrow> bool" where
  "below fs home p \<longleftrightarrow> (\<forall>l. locate fs p = Ok l \<longrightarrow> prefix home l)"

lemma mkdir_inside: "mkdir fs p = Ok fs' \<Longrightarrow> below fs home (strip_slashes p) \<Longrightarrow> inside home fs fs'"
  by (auto simp: mkdir_def below_def and_then_Ok_iff new_node_def directory_at_def split: if_split_asm intro!: put_inside)

lemma create_file_inside:
  assumes "create_file fs p = Ok (l, fs')" and "below fs home p"
  shows "inside home fs fs' \<and> prefix home l"
proof -
  have l: "prefix home l" using assms by (auto simp: create_file_def below_def and_then_Ok_iff split: option.splits if_split_asm)
  obtain n where n: "fs' = put_node l n fs" "\<not> directory_at fs l"
    using assms(1) by (cases "node_at fs l") (auto simp: create_file_def and_then_Ok_iff directory_at_def split: option.splits if_split_asm)
  then show ?thesis using l put_inside [OF l, of fs n] by simp
qed

lemma write_inside:
  "prefix home l \<Longrightarrow> inside home fs (append_file l bs fs)" "prefix home l \<Longrightarrow> inside home fs (set_times l a m fs)"
  by (auto simp: append_file_def set_times_def directory_at_def split: option.splits intro!: put_inside)

lemma inside_grows: "inside home fs fs' \<Longrightarrow> grows fs fs'"
  by (simp add: inside_def)

text \<open>The start of a path, and its resolution by components.\<close>

abbreviation start_of :: "file_system \<Rightarrow> bool \<Rightarrow> location" where
  "start_of fs a \<equiv> (if a then [] else fs_cwd fs)"

lemma walk_filter: "walk fs l p = Ok k \<Longrightarrow> walk fs l (filter (\<lambda>c. c \<noteq> [] \<and> c \<noteq> here) p) = Ok k"
  by (induction fs l p rule: walk.induct) (auto split: if_split_asm)

lemma walk_components:
  assumes "walk fs l p = Ok k" and "p \<noteq> []"
  shows "walk fs l (components p) = Ok k"
proof -
  have "directory_at fs l" using assms by (cases p) (auto split: if_split_asm)
  then show ?thesis using walk_filter [OF assms(1)] by (simp add: components_def)
qed

lemma walk_blanks: "walk fs l (p @ replicate n []) = Ok k \<Longrightarrow> walk fs l p = Ok k"
proof (induction n)
  case (Suc n)
  have "walk fs l ((p @ replicate n []) @ [[]]) = Ok k" using Suc.prems by (simp only: replicate_append_same append_assoc replicate_Suc)
  then have "walk fs l (p @ replicate n []) = Ok k" by (subst (asm) walk_append) (auto simp: and_then_Ok_iff split: if_split_asm)
  with Suc.IH show ?case by simp
qed simp

lemma strip_slashes_split: "\<exists>n. p = strip_slashes p @ replicate n []"
proof -
  let ?r = "rev p"
  have "takeWhile (\<lambda>c. c = []) ?r = replicate (length (takeWhile (\<lambda>c. c = []) ?r)) []"
    by (rule replicate_length_same [symmetric]) (auto dest: set_takeWhileD)
  then have "p = rev (dropWhile (\<lambda>c. c = []) ?r) @ replicate (length (takeWhile (\<lambda>c. c = []) ?r)) []"
    by (metis rev_append rev_replicate rev_rev_ident takeWhile_dropWhile_id)
  then show ?thesis by (cases "rev (dropWhile (\<lambda>c. c = []) ?r) = []") (auto simp: strip_slashes_def Let_def intro: exI [of _ 0])
qed

text \<open>The destination is a directory; paths made of it and of names are below it.\<close>

definition destination :: "file_system \<Rightarrow> path \<Rightarrow> location \<Rightarrow> bool" where
  "destination fs dest home \<longleftrightarrow> dest \<noteq> [[]] \<and> dest \<noteq> [] \<and> locate fs dest = Ok home \<and> directory_at fs home"

lemma destination_grows: "destination fs dest home \<Longrightarrow> grows fs fs' \<Longrightarrow> destination fs' dest home"
  using locate_grows [of fs fs' dest home] by (simp add: destination_def grows_def)

definition under :: "path \<Rightarrow> rstring list \<Rightarrow> path" where
  "under dest cs = from_components (is_absolute dest) (components dest @ cs)"

abbreviation normal :: "rstring \<Rightarrow> bool" where
  "normal c \<equiv> c \<noteq> [] \<and> c \<noteq> here \<and> c \<noteq> up"

lemma relative_components: "dest \<noteq> [[]] \<Longrightarrow> dest \<noteq> [] \<Longrightarrow> \<not> is_absolute dest \<Longrightarrow> components dest \<noteq> []"
  by (cases dest) (auto simp: components_def is_absolute_def Suc_le_eq)

lemma home_exists: "destination fs dest home \<Longrightarrow> node_at fs home \<noteq> None"
  by (auto simp: destination_def directory_at_def split: option.splits)

lemma destination_walk:
  assumes "destination fs dest home"
  shows "walk fs (start_of fs (is_absolute dest)) (components dest) = Ok home"
    "directory_at fs (start_of fs (is_absolute dest))" "\<not> is_absolute dest \<Longrightarrow> components dest \<noteq> []"
proof -
  let ?s = "start_of fs (is_absolute dest)"
  have d: "walk fs ?s dest = Ok home" "dest \<noteq> []" using assms by (auto simp: destination_def locate_def)
  then show "directory_at fs ?s" by (cases dest) (auto split: if_split_asm)
  show "walk fs ?s (components dest) = Ok home" by (rule walk_components [OF d])
  show "\<not> is_absolute dest \<Longrightarrow> components dest \<noteq> []" using relative_components assms by (simp add: destination_def)
qed

lemma components_cases:
  "[] \<notin> set (components p)"
  "(\<exists>r. components p = here # r \<and> \<not> is_absolute p \<and> list_all (\<lambda>c. c \<noteq> [] \<and> c \<noteq> here) r)
     \<or> list_all (\<lambda>c. c \<noteq> [] \<and> c \<noteq> here) (components p)"
  by (auto simp: components_def list_all_iff)

lemma locate_from:
  assumes "[] \<notin> set cs" and "directory_at fs (start_of fs a)" and "from_components a cs \<noteq> [[]]"
  shows "locate fs (from_components a cs) = walk fs (start_of fs a) cs"
  using assms by (cases a; cases cs) (simp_all add: locate_def from_components_def is_absolute_def, auto)

lemma locate_under:
  assumes d: "destination fs dest home" and cs: "[] \<notin> set cs"
  shows "locate fs (under dest cs) = walk fs home cs" "under dest cs \<noteq> [[]]"
proof -
  note w = destination_walk [OF d]
  have ne: "[] \<notin> set (components dest @ cs)" using cs components_cases(1) by simp
  show "under dest cs \<noteq> [[]]"
    using w(3) ne by (cases "components dest") (auto simp: under_def from_components_def)
  then show "locate fs (under dest cs) = walk fs home cs"
    using locate_from [OF ne w(2)] w(1) by (simp add: under_def walk_append)
qed

lemma strip_slashes_start:
  assumes "p \<noteq> [[]]" and "p \<noteq> []"
  shows "is_absolute (strip_slashes p) = is_absolute p \<and> strip_slashes p \<noteq> [[]]"
proof -
  obtain n where p: "p = strip_slashes p @ replicate n []" using strip_slashes_split by blast
  show ?thesis
  proof (cases "strip_slashes p = p")
    case False
    define q where "q = strip_slashes p"
    have q: "q \<noteq> []" "last q \<noteq> []"
      using False hd_dropWhile [of "\<lambda>c. c = []" "rev p"]
      by (auto simp: q_def strip_slashes_def Let_def last_rev split: if_split_asm)
    with p show ?thesis unfolding q_def [symmetric]
      by (cases q) (auto simp: is_absolute_def Suc_le_eq split: if_split_asm)
  qed (use assms in simp)
qed

text \<open>What is joined to the destination.\<close>

abbreviation real_parts :: "path \<Rightarrow> rstring list" where
  "real_parts q \<equiv> filter (\<lambda>c. c \<noteq> [] \<and> c \<noteq> here) q"

lemma join_destination:
  assumes "destination fs dest home" and "\<not> is_absolute q" and "q \<noteq> []"
  obtains d where "join dest q = d @ q" "walk fs (start_of fs (is_absolute dest)) d = Ok home"
    "is_absolute (join dest q) = is_absolute dest" "join dest q \<noteq> [[]]" "components (join dest q) = components dest @ real_parts q"
proof -
  let ?s = "start_of fs (is_absolute dest)" and ?d = "if last dest = [] then butlast dest else dest"
  have dest: "dest \<noteq> [[]]" "dest \<noteq> []" "walk fs ?s dest = Ok home" using assms(1) by (auto simp: destination_def locate_def)
  have split: "last dest = [] \<Longrightarrow> dest = butlast dest @ [[]]" using dest(2) by (metis append_butlast_last_id)
  have "last dest = [] \<Longrightarrow> walk fs ?s (butlast dest) = Ok home"
    using dest(3) walk_blanks [of fs ?s "butlast dest" 1 home] split by auto
  then have w: "walk fs ?s ?d = Ok home" using dest(3) by simp
  have d: "?d \<noteq> []" "hd ?d = hd dest" "real_parts ?d = real_parts dest"
    using dest(1,2) split by (auto, (cases dest rule: rev_cases; auto simp: hd_append)+)
  have j: "join dest q = ?d @ q" using assms(2) dest(1) by (simp add: join_def)
  have abs: "is_absolute (?d @ q) = is_absolute dest"
  proof -
    have "hd dest = [] \<Longrightarrow> 2 \<le> length dest" using dest(1,2) by (cases dest rule: list.exhaust; cases "tl dest") auto
    moreover have "2 \<le> length (?d @ q)" using d(1) assms(3) by (cases ?d; cases q) auto
    ultimately show ?thesis using d(1,2) by (auto simp: is_absolute_def)
  qed
  have "components (?d @ q) = components dest @ real_parts q"
    unfolding components_def abs filter_append d(3) using d(1,2) by simp
  moreover have "?d @ q \<noteq> [[]]" using d(1) assms(3) by (cases ?d; cases q) auto
  ultimately show ?thesis using that [of ?d] j w abs by simp
qed

lemma walk_mkdir_strip:
  assumes d: "destination fs dest home" "\<not> is_absolute q" "q \<noteq> []" and up: "up \<notin> set q"
  shows "below fs home (join dest q)" "below fs home (strip_slashes (join dest q))"
    "real_parts q = [] \<Longrightarrow> locate fs (strip_slashes (join dest q)) = Ok home"
proof -
  let ?s = "start_of fs (is_absolute dest)" and ?p = "join dest q"
  obtain d where p: "?p = d @ q" "walk fs ?s d = Ok home" "is_absolute ?p = is_absolute dest" "?p \<noteq> [[]]"
    by (rule join_destination [OF d])
  show "below fs home ?p"
    using p walk_keeps_prefix [of fs home q] up by (auto simp: below_def locate_def walk_append)
  have strip: "is_absolute (strip_slashes ?p) = is_absolute dest \<and> strip_slashes ?p \<noteq> [[]]"
    using strip_slashes_start [of ?p] p d(3) by simp
  obtain n where n: "?p = strip_slashes ?p @ replicate n []" using strip_slashes_split by blast
  have cases: "(\<exists>us. d = strip_slashes ?p @ us \<and> replicate n [] = us @ q) \<or> (\<exists>us. strip_slashes ?p = d @ us \<and> q = us @ replicate n [])"
    using n p(1) by (auto simp: append_eq_append_conv2)
  have short: "locate fs (strip_slashes ?p) = Ok home" if "d = strip_slashes ?p @ us" "replicate n [] = us @ q" for us
  proof -
    have "us = replicate (length us) []" using that(2) by (metis append_eq_conv_conj take_replicate min_def length_append length_replicate le_add1)
    then have "walk fs ?s (strip_slashes ?p) = Ok home" using p(2) that(1) walk_blanks by metis
    then show ?thesis using strip by (auto simp: locate_def)
  qed
  show "below fs home (strip_slashes ?p)"
    using cases
  proof (elim disjE exE conjE)
    fix us assume "strip_slashes ?p = d @ us" "q = us @ replicate n []"
    then show ?thesis
      using p(2) strip walk_keeps_prefix [of fs home us] up by (auto simp: below_def locate_def walk_append)
  qed (use short in \<open>auto simp: below_def\<close>)
  assume blank: "real_parts q = []"
  show "locate fs (strip_slashes ?p) = Ok home"
    using cases
  proof (elim disjE exE conjE)
    fix us assume us: "strip_slashes ?p = d @ us" "q = us @ replicate n []"
    have "directory_at fs home" using d(1) by (simp add: destination_def)
    moreover have "\<forall>c\<in>set us. c = [] \<or> c = here" using blank us(2) by (auto simp: filter_empty_conv)
    ultimately have "walk fs home us = Ok home" by (induction us) auto
    then show ?thesis using us(1) p(2) strip by (auto simp: locate_def walk_append)
  qed (use short in auto)
qed

lemma strip_under: "destination fs dest home \<Longrightarrow> [] \<notin> set cs \<Longrightarrow> strip_slashes (under dest cs) = under dest cs"
proof -
  assume d: "destination fs dest home" and cs: "[] \<notin> set cs"
  have ne: "[] \<notin> set (components dest @ cs)" using cs by (auto simp: components_def)
  show ?thesis
  proof (cases "components dest @ cs = []")
    case True
    then show ?thesis
      using relative_components [of dest] d by (auto simp: under_def from_components_def strip_slashes_def destination_def)
  next
    case False
    then have "last (under dest cs) \<noteq> []" "under dest cs \<noteq> []"
      using ne last_in_set [OF False] by (auto simp: under_def from_components_def)
    then show ?thesis by (cases "under dest cs" rule: rev_cases) (auto simp: strip_slashes_def)
  qed
qed

lemma below_under: "destination fs dest home \<Longrightarrow> [] \<notin> set cs \<Longrightarrow> up \<notin> set cs \<Longrightarrow> below fs home (under dest cs)"
  using locate_under [of fs dest home cs] walk_keeps_prefix [of fs home cs] by (auto simp: below_def)

lemma parent_under: "list_all normal (cs @ [c]) \<Longrightarrow> parent (under dest (cs @ [c])) = Some (under dest cs)"
proof -
  assume n: "list_all normal (cs @ [c])"
  let ?x = "under dest (cs @ [c])"
  note dest = components_cases [of dest]
  have abs: "is_absolute ?x = is_absolute dest"
    using n dest(1)
    by (cases "components dest"; cases cs) (auto simp: under_def from_components_def is_absolute_def Suc_le_eq)
  have "components ?x = components dest @ cs @ [c]"
    using dest(2)
  proof (elim disjE exE conjE)
    fix r assume r: "components dest = here # r" "\<not> is_absolute dest" "list_all (\<lambda>c. c \<noteq> [] \<and> c \<noteq> here) r"
    then have "real_parts r = r" by (auto simp: filter_id_conv list_all_iff)
    then show ?thesis using r n abs by (auto simp: under_def from_components_def components_def filter_id_conv list_all_iff)
  next
    assume "list_all (\<lambda>c. c \<noteq> [] \<and> c \<noteq> here) (components dest)"
    then have "list_all (\<lambda>c. c \<noteq> [] \<and> c \<noteq> here) (components dest @ cs @ [c])" using n by (auto simp: list_all_iff)
    then show ?thesis by (simp only: under_def components_from)
  qed
  then show ?thesis unfolding parent_def abs by (simp add: under_def butlast_append)
qed

lemma create_under_inside:
  assumes "list_all normal cs" and "destination fs dest home"
  shows "inside home fs (fst (create_dir_all fs (under dest cs)))"
  using assms
proof (induction cs arbitrary: fs rule: rev_induct)
  case Nil
  have "locate fs (under dest []) = Ok home" "under dest [] \<noteq> [[]]" using locate_under [OF Nil(2), of "[]"] by simp_all
  moreover have "node_at fs home \<noteq> None" using Nil(2) by (rule home_exists)
  ultimately have "mkdir fs (under dest []) = Err already_exists"
    using strip_under [OF Nil(2), of "[]"] by (auto simp: mkdir_def)
  then show ?case using \<open>under dest [] \<noteq> [[]]\<close> by (subst create_dir_all.simps) auto
next
  case (snoc c cs)
  let ?p = "under dest (cs @ [c])"
  have n: "list_all normal cs" "up \<notin> set (cs @ [c])" "[] \<notin> set (cs @ [c])" using snoc.prems(1) by (auto simp: list_all_iff)
  have made: "inside home g g'" if "destination g dest home" "mkdir g ?p = Ok g'" for g g'
    using mkdir_inside [OF that(2)] below_under [OF that(1) n(3,2)] strip_under [OF that(1) n(3)] by simp
  let ?f = "fst (create_dir_all fs (under dest cs))"
  have IH: "inside home fs ?f" by (rule snoc.IH [OF n(1) snoc.prems(2)])
  have later: "destination ?f dest home" by (rule destination_grows [OF snoc.prems(2) inside_grows [OF IH]])
  show ?case
    using parent_under [OF snoc.prems(1), of dest] made [OF snoc.prems(2)] IH made [OF later]
    by (subst create_dir_all.simps)
      (auto split: outcome.splits prod.splits option.splits intro: inside_trans)
qed

lemma create_joined_inside:
  assumes d: "destination fs dest home" "\<not> is_absolute q" "q \<noteq> []" and up: "up \<notin> set q"
  shows "inside home fs (fst (create_dir_all fs (join dest q)))"
proof -
  let ?p = "join dest q" and ?cs = "real_parts q"
  note below = walk_mkdir_strip [OF d up]
  have n: "list_all normal ?cs" using up by (auto simp: list_all_iff)
  have made: "inside home g g'" if "destination g dest home" "mkdir g ?p = Ok g'" for g g'
    using mkdir_inside [OF that(2)] walk_mkdir_strip(2) [OF that(1) d(2,3) up] by simp
  obtain x where comps: "components ?p = components dest @ ?cs" "is_absolute ?p = is_absolute dest"
    by (rule join_destination [OF d])
  show ?thesis
  proof (cases ?cs rule: rev_cases)
    case Nil
    have "node_at fs home \<noteq> None" by (rule home_exists [OF d(1)])
    then have "mkdir fs ?p = Err already_exists" using below(3) [OF Nil] by (auto simp: mkdir_def)
    then show ?thesis by (subst create_dir_all.simps) simp
  next
    case (snoc cs c)
    have "parent ?p = Some (under dest cs)" by (simp add: parent_def comps snoc under_def butlast_append)
    moreover have IH: "inside home fs (fst (create_dir_all fs (under dest cs)))"
      using create_under_inside [OF _ d(1), of cs] n snoc by simp
    moreover note made [OF d(1)] made [OF destination_grows [OF d(1) inside_grows [OF IH]]]
    ultimately show ?thesis
      by (subst create_dir_all.simps) (auto split: outcome.splits prod.splits option.splits intro: inside_trans)
  qed
qed

lemma create_parent_inside:
  assumes d: "destination fs dest home" "\<not> is_absolute q" "q \<noteq> []" and up: "up \<notin> set q"
    and p: "parent (join dest q) = Some p" "\<not> path_exists fs p"
  shows "inside home fs (fst (create_dir_all fs p))"
proof -
  let ?cs = "real_parts q" and ?s = "start_of fs (is_absolute dest)"
  have n: "list_all normal ?cs" using up by (auto simp: list_all_iff)
  obtain x where comps: "components (join dest q) = components dest @ ?cs" "is_absolute (join dest q) = is_absolute dest"
    by (rule join_destination [OF d])
  show ?thesis
  proof (cases ?cs rule: rev_cases)
    case Nil
    have pp: "p = from_components (is_absolute dest) (butlast (components dest))" "components dest \<noteq> []"
      using p(1) Nil by (auto simp: parent_def comps split: if_split_asm)
    note w = destination_walk [OF d(1)]
    have "walk fs ?s (butlast (components dest) @ [last (components dest)]) = Ok home" using w(1) pp(2) by simp
    then obtain k where k: "walk fs ?s (butlast (components dest)) = Ok k" "directory_at fs k"
      by (auto simp: walk_append and_then_Ok_iff split: if_split_asm)
    have ne: "[] \<notin> set (butlast (components dest))" using components_cases(1) [of dest] by (auto dest: in_set_butlastD)
    have "p \<noteq> [[]] \<Longrightarrow> path_exists fs p"
      using locate_from [OF ne w(2)] k pp(1)
      by (auto simp: path_exists_def metadata_def directory_at_def split: option.splits)
    with p(2) have "p = [[]]" by blast
    then show ?thesis by (subst create_dir_all.simps) simp
  next
    case (snoc cs c)
    then have "p = under dest cs" using p(1) by (simp add: parent_def comps under_def butlast_append)
    with create_under_inside [OF _ d(1), of cs] n snoc show ?thesis by simp
  qed
qed

text \<open>Names that stay in the destination.\<close>

definition safe_name :: "rstring \<Rightarrow> bool" where
  "safe_name n \<longleftrightarrow> \<not> is_absolute (path_of n) \<and> up \<notin> set (path_of n)"

lemma path_of_not_Nil [simp]: "path_of n \<noteq> []"
  by (cases n) auto

lemma default_extract_inside:
  assumes d: "destination fs dest home" and safe: "safe_name nm"
    and run: "default_entry_extract_fn crc32 D B fuel entry er (join dest (path_of nm)) fs = Ok (go, er', fs')"
  shows "inside home fs fs'"
proof -
  let ?q = "path_of nm" and ?p = "join dest (path_of nm)"
  have q: "\<not> is_absolute ?q" "up \<notin> set ?q" using safe by (simp_all add: safe_name_def)
  show ?thesis
  proof (cases "is_directory entry")
    case True
    with run create_joined_inside [OF d q(1) path_of_not_Nil q(2)] show ?thesis
      by (auto simp: default_entry_extract_fn_def and_then_Ok_iff split: if_split_asm prod.splits)
  next
    case False
    define g where "g = (case parent ?p of None \<Rightarrow> fs
                  | Some p \<Rightarrow> if path_exists fs p then fs else fst (create_dir_all fs p))"
    have g: "inside home fs g"
      using create_parent_inside [OF d q(1) path_of_not_Nil q(2)] by (auto simp: g_def split: option.splits)
    from run False obtain l h where h: "create_file g ?p = Ok (l, h)"
      by (cases "create_file g ?p") (auto simp: default_entry_extract_fn_def Let_def g_def [symmetric])
    then have rest: "fs' = h \<or> (\<exists>bs a m. fs' = set_times l a m (append_file l bs h))"
      using run False
      by (auto simp: default_entry_extract_fn_def and_then_Ok_iff Let_def g_def [symmetric] split: if_split_asm)
    have "destination g dest home" by (rule destination_grows [OF d inside_grows [OF g]])
    note made = create_file_inside [OF h walk_mkdir_strip(1) [OF this q(1) path_of_not_Nil q(2)]]
    have h: "inside home fs h" and l: "prefix home l" using inside_trans [OF g] made by blast+
    from rest show ?thesis
    proof (elim disjE exE)
      fix bs a m assume "fs' = set_times l a m (append_file l bs h)"
      with inside_trans [OF inside_trans [OF h write_inside(1) [OF l]] write_inside(2) [OF l]] show ?thesis by simp
    qed (use h in simp)
  qed
qed

lemma block_loop_preserves:
  assumes "\<And>i er x go er' x'. i < length files \<Longrightarrow> P x \<Longrightarrow> each (i, files ! i) er x = Ok (go, er', x') \<Longrightarrow> P x'"
  shows "block_entries_loop pw files each is r x = Ok (go, r', x') \<Longrightarrow> P x \<Longrightarrow> P x'"
proof (induction "is" arbitrary: r x)
  case (Cons i "is")
  have map_err: "map_err g m = Ok y \<longleftrightarrow> m = Ok y" for g :: "error \<Rightarrow> error" and m y by (cases m) auto
  from Cons.prems obtain go1 er er1 x1 where "i < length files" "each (i, files ! i) er x = Ok (go1, er1, x1)"
    "if go1 then block_entries_loop pw files each is (entry_stack er1 r) x1 = Ok (go, r', x') else x' = x1"
    by (auto simp: and_then_Ok_iff index_Ok_iff map_err split: if_split_asm)
  with assms Cons.prems(2) Cons.IH show ?case by (auto split: if_split_asm)
qed simp

lemma blockless_loop_preserves:
  assumes "\<And>i er x go er' x'. i < length (ar_files a) \<Longrightarrow> P x \<Longrightarrow> each (i, ar_files a ! i) er x = Ok (go, er', x') \<Longrightarrow> P x'"
  shows "blockless_entries_loop a each is x = Ok x' \<Longrightarrow> P x \<Longrightarrow> P x'"
  using assms by (induction "is" arbitrary: x) (auto simp: and_then_Ok_iff index_Ok_iff split: if_split_asm)

lemma for_each_entries_preserves:
  assumes each: "\<And>i er x go er' x'. i < length (ar_files (rd_archive rd)) \<Longrightarrow> P x \<Longrightarrow>
      each (i, ar_files (rd_archive rd) ! i) er x = Ok (go, er', x') \<Longrightarrow> P x'"
    and run: "for_each_entries D L B fuel each rd x = Ok (rd', x')" and x: "P x"
  shows "P x'"
proof -
  obtain f y where y: "for_each (\<lambda>block_index (f, x).
           and_then (block_for_each_entries D L B fuel (rd_password rd) (rd_thread_count rd) (rd_archive rd)
               each block_index f x) (\<lambda>(_, f, x). Ok (f, x)))
         [0..<length (ar_blocks (rd_archive rd))] (rd_source rd, x) = Ok (f, y)"
    and rest: "blockless_entries_loop (rd_archive rd) each [0..<length (ar_files (rd_archive rd))] y = Ok x'"
    using run by (auto simp: for_each_entries_def and_then_Ok_iff)
  have "P (snd (f, y))"
  proof (rule for_each_invariant [OF y])
    fix k s s' assume s: "P (snd s)" "(case s of (f, x) \<Rightarrow>
           and_then (block_for_each_entries D L B fuel (rd_password rd) (rd_thread_count rd) (rd_archive rd)
               each k f x) (\<lambda>(_, f, x). Ok (f, x))) = Ok s'"
    obtain go f2 where "block_for_each_entries D L B fuel (rd_password rd) (rd_thread_count rd) (rd_archive rd)
        each k (fst s) (snd s) = Ok (go, f2, snd s')"
      using s(2) by (cases s) (auto simp: and_then_Ok_iff)
    then obtain ks r r' where "block_entries_loop (rd_password rd) (ar_files (rd_archive rd)) each ks r (snd s) = Ok (go, r', snd s')"
      by (auto simp: block_for_each_entries_def and_then_Ok_iff)
    from block_loop_preserves [of "ar_files (rd_archive rd)" P each, OF each this s(1)] show "P (snd s')" .
  qed (use x in simp)
  then show ?thesis using blockless_loop_preserves [of "rd_archive rd" P each, OF each rest] by simp
qed

lemma archive_read_rewinds: "archive_read_file crc32 D L fuel pw (f\<lparr>cur_pos := p\<rparr>) = archive_read_file crc32 D L fuel pw f"
  by (simp add: archive_read_file_def and_read_def seek_start_def Let_def)

lemma reader_archive:
  assumes "archive_reader_new crc32 D L fuel parallelism f pw = Ok rd"
  shows "\<exists>f'. archive_read_file crc32 D L fuel pw f = Ok (rd_archive rd, f')"
proof -
  obtain a f' rd1 where "archive_read_file crc32 D L fuel pw f = Ok (a, f')"
    and rd1: "fill_index \<lparr>rd_source = f', rd_archive = a, rd_password = pw, rd_thread_count = 1, rd_index = Map.empty\<rparr> = Ok rd1"
      "rd = set_thread_count rd1 (case parallelism of None \<Rightarrow> 1 | Some n \<Rightarrow> of_nat n)"
    using assms by (auto simp: archive_reader_new_def from_archive_def and_then_Ok_iff)
  moreover from rd1(1) have "rd_archive rd1 = a"
    unfolding fill_index_def by (rule for_each_invariant) (auto simp: index_file_def and_then_Ok_iff split: prod.splits)
  ultimately show ?thesis by (simp add: set_thread_count_def)
qed

lemma decompress_inside:
  assumes d: "destination fs dest home" and opened: "archive_read_file crc32 D L fuel pw f = Ok (a, f')"
    and safe: "list_all (\<lambda>e. safe_name (name e)) (ar_files a)"
    and run: "decompress_impl crc32 D L B fuel parallelism f dest pw (default_entry_extract_fn crc32 D B fuel) fs = Ok fs'"
  shows "inside home fs fs'"
proof -
  have rewind: "archive_reader_new crc32 D L fuel parallelism (f\<lparr>cur_pos := p\<rparr>) pw = archive_reader_new crc32 D L fuel parallelism f pw" for p
    by (simp add: archive_reader_new_def archive_read_rewinds)
  have "path_exists fs dest"
    using d home_exists [OF d] by (auto simp: path_exists_def metadata_def destination_def)
  then obtain rd rd' where rd: "archive_reader_new crc32 D L fuel parallelism f pw = Ok rd"
    and each: "for_each_entries D L B fuel (extract_each dest (default_entry_extract_fn crc32 D B fuel)) rd fs = Ok (rd', fs')"
    using run by (auto simp: decompress_impl_def stream_position_def seek_start_def and_then_Ok_iff rewind)
  have a: "rd_archive rd = a" using reader_archive [OF rd] opened by auto
  have "inside home fs fs' \<and> destination fs' dest home"
  proof (rule for_each_entries_preserves [OF _ each])
    fix i er x go er' x' assume i: "i < length (ar_files (rd_archive rd))" and x: "inside home fs x \<and> destination x dest home"
      and run: "extract_each dest (default_entry_extract_fn crc32 D B fuel) (i, ar_files (rd_archive rd) ! i) er x = Ok (go, er', x')"
    have "safe_name (name (ar_files a ! i))" using safe i by (simp add: a list_all_length)
    from default_extract_inside [OF conjunct2 [OF x] this] run have "inside home x x'" by (simp add: extract_each_def a)
    then show "inside home fs x' \<and> destination x' dest home"
      using x inside_trans destination_grows inside_grows by blast
  qed (use d in simp)
  then show ?thesis ..
qed

end
