(* ===== verification/Archive_Extraction.thy ===== *)
theory Archive_Extraction
  imports Archive_Visit Decompress
begin

text \<open>
  The extraction of an archive that was written: the default extraction function is a visitor of
  its entries, and what it leaves in the destination are the files and directories that were
  pushed.
\<close>

section \<open>The extraction of known contents\<close>

definition extract_data :: "path \<Rightarrow> usize \<times> archive_entry \<Rightarrow> bytes \<Rightarrow> file_system \<Rightarrow> file_system result" where
  "extract_data dest ie d fs =
     (let entry = snd ie; p = join dest (path_of (name entry)) in
      if is_directory entry then
        if path_exists fs p then Ok fs
        else (case create_dir_all fs p of (fs, r) \<Rightarrow> and_then (from_io r) (\<lambda>_. Ok fs))
      else
        let fs = (case parent p of None \<Rightarrow> fs | Some q \<Rightarrow> if path_exists fs q then fs else fst (create_dir_all fs q)) in
        and_then (map_err (\<lambda>e. Io e (lossy p)) (create_file fs p)) (\<lambda>(l, fs).
        if 0 < entry_size entry then
          and_then (system_time_from (access_date entry)) (\<lambda>accessed.
          and_then (system_time_from (last_modified_date entry)) (\<lambda>modified.
          Ok (set_times l accessed modified (append_file l d fs))))
        else Ok fs))"

interpretation extractor: visitor "extract_each dest (default_entry_extract_fn crc32 D B fuel)" crc32 D out fine fuel "extract_data dest"
  for dest crc32 and D :: "'d decoder_libs" and B :: "'b bcj2_lib" and out fine fuel
proof
  fix dat rest ie x x' r and er :: "('d, 'b) entry_reader"
  assume D: "valid_decoder D out fine" "block_cipher (dc_cbc D)" and er: "entry_ready crc32 D out fine dat rest er"
    "length (entry_contents D out er) < fuel" and x': "extract_data dest ie (entry_contents D out er) x = Ok x'"
  obtain er' where er': "read_all (entry_read crc32 D B) 8192 fuel er = Ok (entry_contents D out er, er')"
    "entry_contents D out er' = []" "entry_ready crc32 D out fine dat rest er'"
    using byte_source.read_all_contents [OF entry_source [OF D] er(1), of 8192 fuel B] er(2) by auto
  note same = entry_end(1) [OF er'(3,2)]
  have untouched: "chain_ready D out fine dat (entry_stack er r)"
    using er(1) by (cases er) (auto simp: part_ready_def entry_stack_def)
  show "\<exists>er'. extract_each dest (default_entry_extract_fn crc32 D B fuel) ie er x = Ok (True, er', x')
      \<and> chain_ready D out fine dat (entry_stack er' r)"
    using x' er'(1) same untouched
    by (intro exI [of _ "if \<not> is_directory (snd ie) \<and> 0 < entry_size (snd ie) then er' else er"], cases ie)
      (auto simp: extract_each_def default_entry_extract_fn_def extract_data_def Let_def and_then_Ok_iff
        split: if_split_asm prod.splits)
next
  fix ie x x' r assume fuel: "0 < fuel" and x': "extract_data dest ie [] x = Ok x'"
  have "read_all (entry_read crc32 D B) 8192 fuel (Nothing []) = Ok ([], Nothing [])"
    using fuel by (cases fuel) (simp_all add: entry_read_def slice_read_def)
  with x' show "\<exists>er'. extract_each dest (default_entry_extract_fn crc32 D B fuel) ie (Nothing []) x = Ok (True, er', x') \<and> entry_stack er' r = r"
    by (intro exI [of _ "Nothing []"], cases ie) (auto simp: extract_each_def default_entry_extract_fn_def extract_data_def Let_def and_then_Ok_iff entry_stack_def
        split: if_split_asm prod.splits)
qed

section \<open>Directories are made where there is room\<close>

lemma walk_down:
  assumes "list_all normal c" and "\<forall>k<length c. directory_at fs (home @ take k c) \<or> node_at fs (home @ take k c) = None"
  shows "if \<forall>k<length c. directory_at fs (home @ take k c) then walk fs home c = Ok (home @ c) else walk fs home c = Err not_found"
  using assms
proof (induction c arbitrary: home)
  case (Cons x xs)
  have split: "(\<forall>k<length (x # xs). P (take k (x # xs))) \<longleftrightarrow> P [] \<and> (\<forall>k<length xs. P (x # take k xs))" for P
    by (auto simp: less_Suc_eq_0_disj)
  from Cons.prems(2) have room: "directory_at fs home \<or> node_at fs home = None"
    "\<forall>k<length xs. directory_at fs ((home @ [x]) @ take k xs) \<or> node_at fs ((home @ [x]) @ take k xs) = None"
    using split [of "\<lambda>p. directory_at fs (home @ p) \<or> node_at fs (home @ p) = None"] by simp_all
  show ?case
    using Cons.IH [OF _ room(2)] Cons.prems(1) room(1) split [of "\<lambda>p. directory_at fs (home @ p)"]
    by (auto simp: directory_at_def split: if_split_asm)
qed simp

definition dirs_made :: "location \<Rightarrow> rstring list \<Rightarrow> file_system \<Rightarrow> file_system \<Rightarrow> bool" where
  "dirs_made home cs fs fs' \<longleftrightarrow> fs_cwd fs' = fs_cwd fs \<and> fs_now fs' = fs_now fs
     \<and> (\<forall>k\<le>length cs. directory_at fs' (home @ take k cs))
     \<and> (\<forall>l. node_at fs l \<noteq> None \<longrightarrow> node_at fs' l = node_at fs l)
     \<and> (\<forall>l. node_at fs' l \<noteq> node_at fs l \<longrightarrow> (\<exists>k\<le>length cs. 0 < k \<and> l = home @ take k cs))"

definition room_for :: "location \<Rightarrow> rstring list \<Rightarrow> file_system \<Rightarrow> bool" where
  "room_for home cs fs \<longleftrightarrow> (\<forall>k\<le>length cs. directory_at fs (home @ take k cs) \<or> node_at fs (home @ take k cs) = None)"

lemma dirs_made_grows: "dirs_made home cs fs fs' \<Longrightarrow> grows fs fs'"
  unfolding dirs_made_def grows_def directory_at_def by (metis option.simps(4))

lemma dirs_made_refl: "\<forall>k\<le>length cs. directory_at fs (home @ take k cs) \<Longrightarrow> dirs_made home cs fs fs"
  by (simp add: dirs_made_def)

lemma dirs_made_put:
  assumes "\<forall>k\<le>length cs. directory_at fs (home @ take k cs)" and "node_at fs (home @ cs @ [c]) = None"
  shows "dirs_made home (cs @ [c]) fs (put_node (home @ cs @ [c]) (new_node None fs) fs)"
  using assms by (auto simp: dirs_made_def directory_at_def new_node_def le_Suc_eq)

lemma dirs_made_step:
  assumes "dirs_made home cs fs g" and "dirs_made home (cs @ [c]) g h"
  shows "dirs_made home (cs @ [c]) fs h"
proof -
  have "\<exists>k\<le>length (cs @ [c]). 0 < k \<and> l = home @ take k (cs @ [c])" if "node_at h l \<noteq> node_at fs l" for l
  proof (cases "node_at h l = node_at g l")
    case True
    then have "node_at g l \<noteq> node_at fs l" using that by simp
    then obtain k where "k \<le> length cs" "0 < k" "l = home @ take k cs" using assms(1) unfolding dirs_made_def by blast
    then show ?thesis by (intro exI [of _ k]) simp
  next
    case False
    then show ?thesis using assms(2) by (simp add: dirs_made_def)
  qed
  moreover have "node_at h l = node_at fs l" if "node_at fs l \<noteq> None" for l
    using assms that unfolding dirs_made_def by metis
  ultimately show ?thesis using assms by (simp add: dirs_made_def)
qed

lemma room_for_butlast: "room_for home (cs @ [c]) fs \<Longrightarrow> room_for home cs fs"
  unfolding room_for_def
proof (intro allI impI)
  fix k assume "\<forall>k\<le>length (cs @ [c]). directory_at fs (home @ take k (cs @ [c])) \<or> node_at fs (home @ take k (cs @ [c])) = None"
    and "k \<le> length cs"
  then show "directory_at fs (home @ take k cs) \<or> node_at fs (home @ take k cs) = None" by (auto dest: spec [of _ k])
qed

text \<open>One more directory below those that can be made.\<close>

lemma create_dir_step:
  assumes p: "\<And>g. destination g dest home \<Longrightarrow> locate g p = walk g home (cs @ [c])" "strip_slashes p = p" "p \<noteq> [[]]"
      "parent p = Some (under dest cs)"
    and n: "list_all normal (cs @ [c])" and d: "destination fs dest home" and room: "room_for home (cs @ [c]) fs"
    and IH: "\<exists>g. create_dir_all fs (under dest cs) = (g, Ok ()) \<and> dirs_made home cs fs g"
  shows "\<exists>h. create_dir_all fs p = (h, Ok ()) \<and> dirs_made home (cs @ [c]) fs h"
proof -
  let ?l = "home @ cs @ [c]"
  have here: "\<exists>h. (case mkdir g p of Ok g' \<Rightarrow> (g', Ok ()) | Err e \<Rightarrow> if is_dir g p then (g, Ok ()) else (g, Err e) | _ \<Rightarrow> (g, Panic)) = (h, Ok ())
      \<and> dirs_made home (cs @ [c]) g h \<and> (\<forall>e. mkdir g p = Err e \<longrightarrow> e \<noteq> not_found)"
    if g: "destination g dest home" "\<forall>k\<le>length cs. directory_at g (home @ take k cs)" "directory_at g ?l \<or> node_at g ?l = None" for g
  proof -
    have "walk g home (cs @ [c]) = Ok ?l"
      using walk_down [OF n, of g home] g(2) by (simp add: less_Suc_eq_le)
    then have w: "locate g p = Ok ?l" using p(1) [OF g(1)] by simp
    show ?thesis
    proof (cases "node_at g ?l")
      case None
      then have "mkdir g p = Ok (put_node ?l (new_node None g) g)" by (simp add: mkdir_def p(2) w)
      then show ?thesis using dirs_made_put [OF g(2) None] by simp
    next
      case (Some nd)
      then have dir: "nd_contents nd = None" using g(3) by (simp add: directory_at_def)
      then have "is_dir g p" "mkdir g p = Err already_exists" using Some by (simp_all add: is_dir_def metadata_def mkdir_def p(2) w)
      moreover have "dirs_made home (cs @ [c]) g g"
        by (rule dirs_made_refl) (use g(2) Some dir in \<open>auto simp: le_Suc_eq directory_at_def\<close>)
      ultimately show ?thesis by simp
    qed
  qed
  have last: "directory_at fs ?l \<or> node_at fs ?l = None" using room by (auto simp: room_for_def dest: spec [of _ "Suc (length cs)"])
  have room': "\<forall>k<length (cs @ [c]). directory_at fs (home @ take k (cs @ [c])) \<or> node_at fs (home @ take k (cs @ [c])) = None"
    using room unfolding room_for_def by (meson less_imp_le)
  show ?thesis
  proof (cases "\<forall>k\<le>length cs. directory_at fs (home @ take k cs)")
    case True
    from here [OF d True last] show ?thesis
      by (subst create_dir_all.simps) (auto simp: p(3) split: outcome.splits if_split_asm)
  next
    case False
    then have "walk fs home (cs @ [c]) = Err not_found"
      using walk_down [OF n room'] by (auto simp: less_Suc_eq_le split: if_split_asm)
    then have first: "mkdir fs p = Err not_found" by (simp add: mkdir_def p(2) p(1) [OF d])
    obtain g where g: "create_dir_all fs (under dest cs) = (g, Ok ())" "dirs_made home cs fs g" using IH by blast
    have dirs: "\<forall>k\<le>length cs. directory_at g (home @ take k cs)" using g(2) by (simp add: dirs_made_def)
    have "node_at g ?l = node_at fs ?l"
    proof (rule ccontr)
      assume "node_at g ?l \<noteq> node_at fs ?l"
      then obtain k where "k \<le> length cs" "?l = home @ take k cs" using g(2) by (auto simp: dirs_made_def)
      then have "length (cs @ [c]) = length (take k cs)" by (metis same_append_eq)
      then show False by simp
    qed
    then have l: "directory_at g ?l \<or> node_at g ?l = None" using last by (simp add: directory_at_def)
    from here [OF destination_grows [OF d dirs_made_grows [OF g(2)]] dirs l] dirs_made_step [OF g(2)]
    show ?thesis
      by (subst create_dir_all.simps) (auto simp: p(3,4) first g(1) split: outcome.splits if_split_asm)
  qed
qed

lemma create_under_dirs:
  assumes "list_all normal cs" and "destination fs dest home" and "room_for home cs fs"
  shows "\<exists>g. create_dir_all fs (under dest cs) = (g, Ok ()) \<and> dirs_made home cs fs g"
  using assms
proof (induction cs arbitrary: fs rule: rev_induct)
  case Nil
  have l: "locate fs (under dest []) = Ok home" "under dest [] \<noteq> [[]]" using locate_under [OF Nil(2), of "[]"] by simp_all
  have "node_at fs home \<noteq> None" by (rule home_exists [OF Nil(2)])
  moreover have "directory_at fs home" using Nil(2) by (simp add: destination_def)
  ultimately have "mkdir fs (under dest []) = Err already_exists" "is_dir fs (under dest [])"
    using strip_under [OF Nil(2), of "[]"] l by (auto simp: mkdir_def is_dir_def metadata_def directory_at_def split: option.splits)
  then show ?case using l(2) \<open>directory_at fs home\<close>
    by (subst create_dir_all.simps) (auto simp: dirs_made_refl)
next
  case (snoc c cs)
  have ne: "[] \<notin> set (cs @ [c])" using snoc.prems(1) by (auto simp: list_all_iff)
  have "room_for home cs fs" by (rule room_for_butlast [OF snoc.prems(3)])
  with snoc show ?case
    by (intro create_dir_step) (use locate_under [OF _ ne] strip_under [OF snoc.prems(2) ne] locate_under(2) [OF snoc.prems(2) ne] parent_under [OF snoc.prems(1)] in auto)
qed

text \<open>Names without blank or special parts.\<close>

definition plain_name :: "rstring \<Rightarrow> bool" where
  "plain_name n \<longleftrightarrow> list_all normal (path_of n)"

lemma plain_relative: "list_all normal c \<Longrightarrow> \<not> is_absolute c"
  by (cases c) (auto simp: is_absolute_def)

lemma plain_real_parts: "list_all normal c \<Longrightarrow> real_parts c = c"
  by (auto simp: filter_id_conv list_all_iff)

lemma locate_join:
  "destination fs dest home \<Longrightarrow> \<not> is_absolute q \<Longrightarrow> q \<noteq> [] \<Longrightarrow> locate fs (join dest q) = walk fs home q"
  by (erule (2) join_destination) (simp add: locate_def walk_append)

lemma join_facts:
  assumes d: "destination fs dest home" and n: "list_all normal (cs @ [c])"
  shows "strip_slashes (join dest (cs @ [c])) = join dest (cs @ [c])" "join dest (cs @ [c]) \<noteq> [[]]"
    "parent (join dest (cs @ [c])) = Some (under dest cs)"
proof -
  obtain e where e: "join dest (cs @ [c]) = e @ cs @ [c]" "is_absolute (join dest (cs @ [c])) = is_absolute dest"
    "join dest (cs @ [c]) \<noteq> [[]]" "components (join dest (cs @ [c])) = components dest @ cs @ [c]"
    using join_destination [OF d plain_relative [OF n], unfolded plain_real_parts [OF n]] by blast
  show "strip_slashes (join dest (cs @ [c])) = join dest (cs @ [c])" using n by (simp add: e(1) strip_slashes_def)
  show "join dest (cs @ [c]) \<noteq> [[]]" by (rule e(3))
  show "parent (join dest (cs @ [c])) = Some (under dest cs)" by (simp add: parent_def e(2,4) under_def butlast_append)
qed

lemma create_joined_dirs:
  assumes n: "list_all normal (cs @ [c])" and d: "destination fs dest home" and room: "room_for home (cs @ [c]) fs"
  shows "\<exists>h. create_dir_all fs (join dest (cs @ [c])) = (h, Ok ()) \<and> dirs_made home (cs @ [c]) fs h"
proof (rule create_dir_step [OF _ join_facts [OF d n] n d room])
  show "locate g (join dest (cs @ [c])) = walk g home (cs @ [c])" if "destination g dest home" for g
    by (rule locate_join [OF that plain_relative [OF n]]) simp
  have "room_for home cs fs" by (rule room_for_butlast [OF room])
  then show "\<exists>g. create_dir_all fs (under dest cs) = (g, Ok ()) \<and> dirs_made home cs fs g"
    by (intro create_under_dirs [OF _ d]) (use n in simp)
qed

section \<open>What was extracted\<close>

definition extracted_as :: "file_system \<Rightarrow> location \<Rightarrow> archive_entry \<times> bytes \<Rightarrow> bool" where
  "extracted_as fs home x \<longleftrightarrow> (case x of (e, d) \<Rightarrow>
     if is_directory e then directory_at fs (home @ path_of (name e))
     else (\<exists>n. node_at fs (home @ path_of (name e)) = Some n \<and> nd_contents n = Some d
        \<and> (d \<noteq> [] \<longrightarrow> nd_modified n = 100 * uint (last_modified_date e) - epoch_nanos
             \<and> nd_accessed n = 100 * uint (access_date e) - epoch_nanos)))"

text \<open>After some of the entries: they are there, and nothing else but the directories above them.\<close>

definition extracted :: "path \<Rightarrow> location \<Rightarrow> file_system \<Rightarrow> (archive_entry \<times> bytes) list \<Rightarrow> file_system \<Rightarrow> bool" where
  "extracted dest home fs0 xs fs \<longleftrightarrow> destination fs dest home
     \<and> (\<forall>x\<in>set xs. extracted_as fs home x \<and> (\<forall>k<length (path_of (name (fst x))). directory_at fs (home @ take k (path_of (name (fst x))))))
     \<and> (\<forall>l. node_at fs l \<noteq> node_at fs0 l \<longrightarrow>
          (\<exists>x\<in>set xs. \<exists>k\<le>length (path_of (name (fst x))). 0 < k \<and> l = home @ take k (path_of (name (fst x)))))"

text \<open>Entries that fit together: no name twice, and what has entries below it is a directory.\<close>

definition entries_fit :: "archive_entry set \<Rightarrow> bool" where
  "entries_fit U \<longleftrightarrow> (\<forall>e\<in>U. plain_name (name e))
     \<and> (\<forall>e\<in>U. \<forall>e'\<in>U. strict_prefix (path_of (name e)) (path_of (name e')) \<longrightarrow> is_directory e)"

lemma extract_room:
  assumes x: "extracted dest home fs0 xs fs" and U: "entries_fit U" "fst ` set xs \<subseteq> U" "e \<in> U"
    and new: "path_of (name e) \<notin> (\<lambda>x. path_of (name (fst x))) ` set xs"
    and empty: "\<And>l. strict_prefix home l \<Longrightarrow> node_at fs0 l = None"
  shows "\<forall>k<length (path_of (name e)). directory_at fs (home @ take k (path_of (name e))) \<or> node_at fs (home @ take k (path_of (name e))) = None"
    and "node_at fs (home @ path_of (name e)) = None \<or> is_directory e \<and> directory_at fs (home @ path_of (name e))"
proof -
  let ?c = "path_of (name e)"
  have found: "\<exists>x\<in>set xs. \<exists>j\<le>length (path_of (name (fst x))). 0 < j \<and> take k ?c = take j (path_of (name (fst x)))"
    if "node_at fs (home @ take k ?c) \<noteq> None" "0 < k" for k
  proof -
    have "take k ?c \<noteq> []" using that(2) by simp
    then have "node_at fs0 (home @ take k ?c) = None" by (intro empty) (auto simp: strict_prefix_def)
    with that(1) x show ?thesis unfolding extracted_def by (metis same_append_eq)
  qed
  have dir: "directory_at fs (home @ take k ?c)" if k: "k < length ?c" "node_at fs (home @ take k ?c) \<noteq> None" for k
  proof (cases "k = 0")
    case True
    then show ?thesis using x by (simp add: extracted_def destination_def)
  next
    case False
    then obtain y j where y: "y \<in> set xs" "j \<le> length (path_of (name (fst y)))" "take k ?c = take j (path_of (name (fst y)))"
      using found [OF k(2)] by auto
    show ?thesis
    proof (cases "j < length (path_of (name (fst y)))")
      case True
      then show ?thesis using x y by (auto simp: extracted_def)
    next
      case False
      then have eq: "path_of (name (fst y)) = take k ?c" using y by simp
      then have "strict_prefix (path_of (name (fst y))) ?c"
        using k(1) by (metis length_take min.absorb4 nat_neq_iff strict_prefix_def take_is_prefix)
      then have "is_directory (fst y)" using U y(1) by (force simp: entries_fit_def)
      moreover have "extracted_as fs home y" using x y(1) by (simp add: extracted_def)
      ultimately show ?thesis using eq by (cases y) (simp add: extracted_as_def)
    qed
  qed
  then show "\<forall>k<length ?c. directory_at fs (home @ take k ?c) \<or> node_at fs (home @ take k ?c) = None" by blast
  show "node_at fs (home @ ?c) = None \<or> is_directory e \<and> directory_at fs (home @ ?c)"
  proof (cases "node_at fs (home @ ?c) = None")
    case False
    then obtain y j where y: "y \<in> set xs" "j \<le> length (path_of (name (fst y)))" "?c = take j (path_of (name (fst y)))"
      using found [of "length ?c"] by auto
    have "j < length (path_of (name (fst y)))"
    proof (rule ccontr)
      assume "\<not> j < length (path_of (name (fst y)))"
      then have "path_of (name (fst y)) = ?c" using y by simp
      then show False using new y(1) by (metis imageI)
    qed
    then have "strict_prefix ?c (path_of (name (fst y)))" "directory_at fs (home @ ?c)"
      using x y by (auto simp: extracted_def strict_prefix_def take_is_prefix)
    then show ?thesis using U y(1) by (force simp: entries_fit_def)
  qed simp
qed

text \<open>The steps of the proof for one entry: what was there stays, and what is new is on its path.\<close>

lemma extracted_add:
  assumes x: "extracted dest home fs0 xs fs" and g: "grows fs fs'"
    and old: "\<And>l. node_at fs l \<noteq> None \<Longrightarrow> node_at fs' l = node_at fs l"
    and new: "\<And>l. node_at fs' l \<noteq> node_at fs l \<Longrightarrow> \<exists>k\<le>length (path_of (name e)). 0 < k \<and> l = home @ take k (path_of (name e))"
    and e: "extracted_as fs' home (e, d)" "\<forall>k<length (path_of (name e)). directory_at fs' (home @ take k (path_of (name e)))"
  shows "extracted dest home fs0 ((e, d) # xs) fs'"
proof -
  have dirs: "directory_at fs l \<Longrightarrow> directory_at fs' l" for l using g by (simp add: grows_def)
  have "extracted_as fs' home y" if "y \<in> set xs" for y
  proof -
    have "extracted_as fs home y" using x that by (simp add: extracted_def)
    then show ?thesis using dirs old by (cases y) (auto simp: extracted_as_def split: if_split_asm)
  qed
  moreover have "\<exists>y\<in>set ((e, d) # xs). \<exists>k\<le>length (path_of (name (fst y))). 0 < k \<and> l = home @ take k (path_of (name (fst y)))"
    if "node_at fs' l \<noteq> node_at fs0 l" for l
  proof (cases "node_at fs' l = node_at fs l")
    case True
    with that x show ?thesis unfolding extracted_def by (metis list.set_intros(2))
  next
    case False
    with new [OF False] show ?thesis by auto
  qed
  ultimately show ?thesis
    using x e dirs destination_grows [OF _ g] unfolding extracted_def by auto
qed

lemma file_made:
  assumes d: "destination g dest home" and c: "list_all normal c" and dirs: "\<forall>k<length c. directory_at g (home @ take k c)"
    and c': "c = path_of (name e)" "c \<noteq> []" and free: "node_at g (home @ c) = None" and e: "\<not> is_directory e"
      "entry_size e = of_nat (length dt)" "length dt < 2 ^ 64"
  shows "\<exists>n fs'. and_then (map_err (\<lambda>e. Io e (lossy (join dest c))) (create_file g (join dest c))) (\<lambda>(l, fs).
        if 0 < entry_size e then
          and_then (system_time_from (access_date e)) (\<lambda>accessed.
          and_then (system_time_from (last_modified_date e)) (\<lambda>modified.
          Ok (set_times l accessed modified (append_file l dt fs))))
        else Ok fs) = Ok fs'
     \<and> (\<forall>l. node_at fs' l = (if l = home @ c then Some n else node_at g l)) \<and> fs_cwd fs' = fs_cwd g \<and> fs_now fs' = fs_now g
     \<and> extracted_as fs' home (e, dt)"
proof -
  have "walk g home c = Ok (home @ c)" using walk_down [OF c, of g home] dirs by auto
  then have "create_file g (join dest c) = Ok (home @ c, put_node (home @ c) (new_node (Some []) g) g)"
    using locate_join [OF d plain_relative [OF c] c'(2)] free by (simp add: create_file_def)
  moreover have "0 < entry_size e \<longleftrightarrow> dt \<noteq> []"
    using e(2,3) by (simp add: word_less_nat_alt unat_of_nat_u64)
  ultimately show ?thesis
    using e(1) c'(1)
    by (cases "dt = []") (auto simp: system_time_exact set_times_def append_file_def new_node_def extracted_as_def put_node_def [symmetric])
qed

lemma extract_step:
  assumes x: "extracted dest home fs0 xs fs" and U: "entries_fit U" "fst ` set xs \<subseteq> U" "e \<in> U"
    and new: "path_of (name e) \<notin> (\<lambda>x. path_of (name (fst x))) ` set xs"
    and empty: "\<And>l. strict_prefix home l \<Longrightarrow> node_at fs0 l = None"
    and sz: "entry_size e = of_nat (length d)" "length d < 2 ^ 64"
  shows "\<exists>fs'. extract_data dest (i, e) d fs = Ok fs' \<and> extracted dest home fs0 ((e, d) # xs) fs'"
proof -
  let ?c = "path_of (name e)" and ?p = "join dest (path_of (name e))"
  note room = extract_room [OF x U new empty]
  have dest: "destination fs dest home" using x by (simp add: extracted_def)
  have plain: "list_all normal ?c" using U by (simp add: entries_fit_def plain_name_def)
  obtain cs c where c: "?c = cs @ [c]" by (cases ?c rule: rev_cases) auto
  note plain' = plain [unfolded c]
  note loc = locate_join [OF dest plain_relative [OF plain] path_of_not_Nil]
  note down = walk_down [OF plain room(1)]
  have all: "room_for home ?c fs" using room by (auto simp: room_for_def le_less)
  show ?thesis
  proof (cases "is_directory e")
    case dir: True
    have made: "extracted dest home fs0 ((e, d) # xs) h" if h: "dirs_made home ?c fs h" for h
    proof (rule extracted_add [OF x dirs_made_grows [OF h]])
      show "extracted_as h home (e, d)" using h dir unfolding dirs_made_def extracted_as_def by (auto dest: spec [of _ "length ?c"])
    qed (use h in \<open>auto simp: dirs_made_def\<close>)
    show ?thesis
    proof (cases "path_exists fs ?p")
      case True
      then obtain l where l: "walk fs home ?c = Ok l" "node_at fs l \<noteq> None"
        by (auto simp: path_exists_def metadata_def loc is_ok_iff and_then_Ok_iff split: option.splits)
      then have dirs: "\<forall>k<length ?c. directory_at fs (home @ take k ?c)" "l = home @ ?c" using down by (auto split: if_split_asm)
      then have "directory_at fs (home @ ?c)" using l(2) room(2) by auto
      with dirs(1) have "dirs_made home ?c fs fs" by (intro dirs_made_refl) (auto simp: le_less)
      with made True dir show ?thesis by (auto simp: extract_data_def Let_def)
    next
      case False
      obtain h where "create_dir_all fs ?p = (h, Ok ())" "dirs_made home ?c fs h"
        using create_joined_dirs [OF plain' dest all [unfolded c]] unfolding c by blast
      with made False dir show ?thesis by (auto simp: extract_data_def Let_def)
    qed
  next
    case reg: False
    define g where "g = (case parent ?p of None \<Rightarrow> fs | Some q \<Rightarrow> if path_exists fs q then fs else fst (create_dir_all fs q))"
    have par: "parent ?p = Some (under dest cs)" unfolding c by (rule join_facts(3) [OF dest plain'])
    have ncs: "list_all normal cs" "[] \<notin> set cs" using plain' by (auto simp: list_all_iff)
    have room': "room_for home cs fs" by (rule room_for_butlast) (use all c in simp)
    have g: "dirs_made home cs fs g"
    proof (cases "path_exists fs (under dest cs)")
      case True
      then obtain l where l: "walk fs home cs = Ok l" "node_at fs l \<noteq> None"
        using locate_under(1) [OF dest ncs(2)]
        by (auto simp: path_exists_def metadata_def is_ok_iff and_then_Ok_iff split: option.splits)
      have "\<forall>k<length cs. directory_at fs (home @ take k cs) \<or> node_at fs (home @ take k cs) = None"
        using room' by (simp add: room_for_def)
      from walk_down [OF ncs(1) this] l have dirs: "\<forall>k<length cs. directory_at fs (home @ take k cs)" "l = home @ cs"
        by (auto split: if_split_asm)
      with l(2) room' have "directory_at fs (home @ cs)" by (auto simp: room_for_def dest: spec [of _ "length cs"])
      with dirs(1) have "dirs_made home cs fs fs" by (intro dirs_made_refl) (auto simp: le_less)
      then show ?thesis using True by (simp add: g_def par)
    next
      case False
      with create_under_dirs [OF ncs(1) dest room'] show ?thesis by (auto simp: g_def par)
    qed
    have dirs: "\<forall>k<length ?c. directory_at g (home @ take k ?c)" using g by (simp add: dirs_made_def c less_Suc_eq_le)
    have "node_at g (home @ ?c) = node_at fs (home @ ?c)"
    proof (rule ccontr)
      assume "node_at g (home @ ?c) \<noteq> node_at fs (home @ ?c)"
      then obtain k where "k \<le> length cs" "home @ ?c = home @ take k cs" using g unfolding dirs_made_def by blast
      then have "length ?c \<le> length cs" by (metis length_take min.cobounded1 same_append_eq)
      then show False by (simp add: c)
    qed
    then have free: "node_at g (home @ ?c) = None" using room(2) reg by simp
    obtain n fs' where fs': "extract_data dest (i, e) d fs = Ok fs'" and at: "\<And>l. node_at fs' l = (if l = home @ ?c then Some n else node_at g l)"
      and cwd: "fs_cwd fs' = fs_cwd g" "fs_now fs' = fs_now g" and as: "extracted_as fs' home (e, d)"
      using file_made [OF destination_grows [OF dest dirs_made_grows [OF g]] plain dirs refl path_of_not_Nil free reg sz] reg
      by (auto simp: extract_data_def Let_def g_def [symmetric])
    have grow: "grows fs fs'"
      using dirs_made_grows [OF g] at cwd free by (auto simp: grows_def directory_at_def)
    have "extracted dest home fs0 ((e, d) # xs) fs'"
    proof (rule extracted_add [OF x grow _ _ as])
      show "\<forall>k<length ?c. directory_at fs' (home @ take k ?c)" using dirs at by (auto simp: directory_at_def)
      show "node_at fs' l = node_at fs l" if "node_at fs l \<noteq> None" for l
        using that g at [of l] free room(2) reg by (auto simp: dirs_made_def)
      show "\<exists>k\<le>length ?c. 0 < k \<and> l = home @ take k ?c" if l: "node_at fs' l \<noteq> node_at fs l" for l
      proof (cases "l = home @ ?c")
        case True
        then show ?thesis by (intro exI [of _ "length ?c"]) simp
      next
        case False
        then have "node_at g l \<noteq> node_at fs l" using l at by simp
        then obtain k where "k \<le> length cs" "0 < k" "l = home @ take k cs" using g unfolding dirs_made_def by blast
        then show ?thesis by (intro exI [of _ k]) (simp add: c)
      qed
    qed
    with fs' show ?thesis by blast
  qed
qed

lemma entries_fit_like:
  assumes "entries_fit V" and "\<And>e. e \<in> U \<Longrightarrow> \<exists>e'\<in>V. name e = name e' \<and> is_directory e = is_directory e'"
  shows "entries_fit U"
  unfolding entries_fit_def
proof (intro conjI ballI impI)
  fix e assume "e \<in> U"
  then show "plain_name (name e)" using assms unfolding entries_fit_def by metis
next
  fix e f assume "e \<in> U" "f \<in> U" and pre: "strict_prefix (path_of (name e)) (path_of (name f))"
  then obtain e' f' where "e' \<in> V" "name e = name e'" "is_directory e = is_directory e'" "f' \<in> V" "name f = name f'"
    using assms(2) by metis
  then show "is_directory e" using assms(1) pre unfolding entries_fit_def by auto
qed

text \<open>An entry for the destination itself, with the empty name, changes nothing.\<close>

definition root_entry :: "archive_entry \<Rightarrow> bool" where
  "root_entry e \<longleftrightarrow> name e = [] \<and> is_directory e"

lemma no_root_entry: "entries_fit U \<Longrightarrow> {e \<in> U. \<not> root_entry e} = U"
  by (auto simp: entries_fit_def root_entry_def plain_name_def)

lemma extract_root:
  assumes "destination fs dest home" and "root_entry e"
  shows "extract_data dest (i, e) d fs = Ok fs"
proof -
  have rel: "\<not> is_absolute [[]]" "[[]] \<noteq> []" by (simp_all add: is_absolute_def)
  have home: "directory_at fs home" using assms(1) by (simp add: destination_def)
  then have "locate fs (join dest [[]]) = Ok home" using locate_join [OF assms(1) rel] by simp
  then have "path_exists fs (join dest [[]])" using home_exists [OF assms(1)] by (auto simp: path_exists_def metadata_def)
  then show ?thesis using assms(2) by (simp add: extract_data_def root_entry_def)
qed

lemma extract_list:
  assumes "extracted dest home fs0 ys fs" and U: "entries_fit U"
    and "\<forall>(i, d)\<in>set xs. root_entry (e i) \<or> e i \<in> U \<and> entry_size (e i) = of_nat (length d) \<and> length d < 2 ^ 64"
    and "fst ` set ys \<subseteq> U"
    and "distinct (map (\<lambda>(i, d). path_of (name (e i))) xs @ map (\<lambda>x. path_of (name (fst x))) ys)"
    and empty: "\<And>l. strict_prefix home l \<Longrightarrow> node_at fs0 l = None"
  shows "\<exists>fs'. for_each (\<lambda>(i, d). extract_data dest (i, e i) d) xs fs = Ok fs'
     \<and> extracted dest home fs0 (rev (map (\<lambda>(i, d). (e i, d)) (filter (\<lambda>(i, d). \<not> root_entry (e i)) xs)) @ ys) fs'"
  using assms(1,3-5)
proof (induction xs arbitrary: fs ys)
  case (Cons x xs)
  obtain i d where x: "x = (i, d)" by (cases x)
  show ?case
  proof (cases "root_entry (e i)")
    case True
    have "destination fs dest home" using Cons.prems(1) by (simp add: extracted_def)
    from extract_root [OF this True] Cons.IH [OF Cons.prems(1) _ Cons.prems(3)] Cons.prems(2,4) True x show ?thesis by auto
  next
    case False
    have new: "path_of (name (e i)) \<notin> (\<lambda>x. path_of (name (fst x))) ` set ys" using Cons.prems(4) x by auto
    obtain g where g: "extract_data dest (i, e i) d fs = Ok g" "extracted dest home fs0 ((e i, d) # ys) g"
      using extract_step [OF Cons.prems(1) U Cons.prems(3) _ new empty, of d i] Cons.prems(2) x False by auto
    have "distinct (map (\<lambda>(i, d). path_of (name (e i))) xs @ map (\<lambda>x. path_of (name (fst x))) ((e i, d) # ys))"
      using Cons.prems(4) x by auto
    from Cons.IH [OF g(2) _ _ this] Cons.prems(2,3) x g(1) False show ?thesis by auto
  qed
qed simp

section \<open>From the archive to the directory\<close>

lemma path_string_of: "path_string (path_of n) = n"
proof (induction n)
  case (Cons c n)
  show ?case
  proof (cases "path_of n" rule: path_string.cases)
    case 1
    then show ?thesis by simp
  qed (use Cons in auto)
qed simp

lemma files_read_kinds:
  "i < length fs \<Longrightarrow> is_directory (files_read si k fs ! i) = (\<not> has_stream (fs ! i) \<and> is_directory (fs ! i))
     \<and> (\<not> has_stream (fs ! i) \<longrightarrow> entry_size (files_read si k fs ! i) = 0)"
  by (induction fs arbitrary: i k) (auto simp: nth_Cons read_meta_defs split: nat.splits)

lemma opened_kinds:
  assumes ok: "header_ok L w" and a: "opened L w a" and i: "i < length (w_files w)"
  shows "is_directory (ar_files a ! i) = (\<not> has_stream (w_files w ! i) \<and> is_directory (w_files w ! i))"
    "\<not> has_stream (w_files w ! i) \<Longrightarrow> entry_size (ar_files a ! i) = 0" "name (ar_files a ! i) = name (w_files w ! i)"
proof -
  let ?r = "archive_read L w" and ?si = "read_sub_streams (w_unpack_info w)"
  have r: "ar_files ?r = files_read ?si 0 (w_files w)" by (simp add: archive_read_def streams_info_fields archive_default_def)
  obtain a' x where a': "calculate_stream_map ?r = Ok a'" "a = a'\<lparr>is_solid := x\<rparr>" using a by (auto simp: opened_def)
  obtain a'' where "calculate_stream_map ?r = Ok a''" and same: "same_files (ar_files ?r) (ar_files a'')"
    by (rule stream_map_correct [OF streams_fit_read [OF ok]]) (rule that; assumption)
  with a'(1) have [simp]: "a'' = a'" by simp
  have "\<exists>s. ar_files a ! i = (files_read ?si 0 (w_files w) ! i)\<lparr>compressed_size := s\<rparr>"
    using same_files_nth [OF same] i by (intro compressed_size_only) (simp add: a'(2) r length_files_read)
  then obtain sz where sz: "ar_files a ! i = (files_read ?si 0 (w_files w) ! i)\<lparr>compressed_size := sz\<rparr>" by blast
  show "is_directory (ar_files a ! i) = (\<not> has_stream (w_files w ! i) \<and> is_directory (w_files w ! i))"
    "\<not> has_stream (w_files w ! i) \<Longrightarrow> entry_size (ar_files a ! i) = 0" "name (ar_files a ! i) = name (w_files w ! i)"
    using files_read_kinds [OF i, of ?si 0] files_read_nth [OF i, of ?si 0] by (simp_all add: sz entry_kept_def)
qed

text \<open>Extraction is the visit of all entries.\<close>

lemma written_archive_extracts:
  fixes B :: "'b bcj2_lib"
  assumes D: "valid_decoder D out fine" "block_cipher (dc_cbc D)"
    and opens: "archive_reader_new crc32 D L fuel parallelism f pw = Ok rd"
    and rd: "reader_of X crc32 ps L aw0 pushed aw pw items rd"
    and undone: "\<And>t. methods_undone D L out fine t pw X (w_content_methods aw0) ps"
    and methods: "w_content_methods aw0 \<noteq> []" "length ps = length (w_content_methods aw0)"
    and fuel: "length (w_content_methods aw0) < fuel" "fuel < 2 ^ 63" "list_all (can_be_pushed fuel) pushed"
    and dest: "destination fs dest home"
    and step: "for_each (\<lambda>(i, d). extract_data dest (i, ar_files (rd_archive rd) ! i) d) (visit_order pushed) fs = Ok fs'"
  shows "decompress_with_password crc32 D L B fuel parallelism f dest pw fs = Ok fs'"
proof -
  have "archive_reader_new crc32 D L fuel parallelism (f\<lparr>cur_pos := p\<rparr>) pw = Ok rd" for p
    using opens by (simp add: archive_reader_new_def archive_read_rewinds)
  moreover have "path_exists fs dest"
    using dest home_exists [OF dest] by (auto simp: path_exists_def metadata_def destination_def)
  moreover obtain f' where "for_each_entries D L B fuel (extract_each dest (default_entry_extract_fn crc32 D B fuel)) rd fs
      = Ok (rd\<lparr>rd_source := f'\<rparr>, fs')"
    using extractor.visits_all [OF D rd undone methods fuel step, of B] by blast
  ultimately show ?thesis
    by (simp add: decompress_with_password_def decompress_impl_def stream_position_def seek_start_def)
qed

lemma visit_order_indices:
  "distinct (map fst (visit_order pushed))" "set (map fst (visit_order pushed)) = {..<length pushed}"
  "(i, d) \<in> set (visit_order pushed) \<Longrightarrow> i < length pushed \<and> d = (case snd (pushed ! i) of None \<Rightarrow> [] | Some d \<Rightarrow> d)"
  by (auto simp: visit_order_def comp_def split: option.splits)

text \<open>What the archive says of an entry that was pushed.\<close>

lemma reader_entry:
  assumes rd: "reader_of X crc32 ps L aw0 pushed aw pw items rd"
    and undone: "\<And>t. methods_undone D L out fine t pw X (w_content_methods aw0) ps"
    and methods: "w_content_methods aw0 \<noteq> []" "length ps = length (w_content_methods aw0)"
    and fuel: "length (w_content_methods aw0) < fuel" "fuel < 2 ^ 63" "list_all (can_be_pushed fuel) pushed"
    and i: "i < length pushed" "pushed ! i = (e, contents)"
  shows "name (ar_files (rd_archive rd) ! i) = name e" "is_directory (ar_files (rd_archive rd) ! i) = is_directory e"
    "entry_size (ar_files (rd_archive rd) ! i) = of_nat (length (case contents of None \<Rightarrow> [] | Some d \<Rightarrow> d))"
    "length (case contents of None \<Rightarrow> [] | Some d \<Rightarrow> d) < 2 ^ 63"
proof -
  let ?a = "rd_archive rd"
  have wrote: "wrote X crc32 ps aw0 pushed items aw" and ok: "header_ok L aw" and a: "opened L aw ?a" "header_kept aw L ?a"
    and n2: "length items < 2 ^ 64"
    using rd by (simp_all add: reader_of_def)
  obtain s rest where src: "cur_data (rd_source rd) = s @ concat (map (\<lambda>(d, c, ns). c) items) @ rest" "length s = 32"
    "32 + length (concat (map (\<lambda>(d, c, ns). c) items)) < 2 ^ 63" using rd by (auto simp: reader_of_def)
  have files: "list_all2 entry_like pushed (w_files aw)" using wrote by (simp add: wrote_def)
  note n = list_all2_lengthD [OF files]
  have like: "name (w_files aw ! i) = name e" "is_directory (w_files aw ! i) = is_directory e" "has_stream (w_files aw ! i) = (contents \<noteq> None)"
    using list_all2_nthD [OF files i(1)] i(2) by (simp_all add: entry_like_def)
  note kinds = opened_kinds [OF ok a(1), of i]
  have push: "can_be_pushed fuel (e, contents)" using fuel(3) i by (metis list_all_length)
  show "name (ar_files ?a ! i) = name e" using kinds(3) like(1) i(1) n by simp
  show "is_directory (ar_files ?a ! i) = is_directory e"
    using kinds(1) like i(1) n push by (auto simp: can_be_pushed_def split: option.splits)
  show small: "length (case contents of None \<Rightarrow> [] | Some d \<Rightarrow> d) < 2 ^ 63"
    using push fuel(2) by (auto simp: can_be_pushed_def split: option.splits)
  show "entry_size (ar_files ?a ! i) = of_nat (length (case contents of None \<Rightarrow> [] | Some d \<Rightarrow> d))"
  proof (cases contents)
    case None
    then show ?thesis using kinds(2) like(3) i(1) n by simp
  next
    case (Some d)
    with pushed_block(4) [OF wrote undone methods ok n2 a src fuel(1) i(1) i(2) [unfolded Some] _ refl] small show ?thesis by simp
  qed
qed

lemma written_archive_extracted:
  fixes B :: "'b bcj2_lib"
  assumes D: "valid_decoder D out fine" "block_cipher (dc_cbc D)"
    and opens: "archive_reader_new crc32 D L fuel parallelism f pw = Ok rd"
    and rd: "reader_of X crc32 ps L aw0 pushed aw pw items rd"
    and undone: "\<And>t. methods_undone D L out fine t pw X (w_content_methods aw0) ps"
    and methods: "w_content_methods aw0 \<noteq> []" "length ps = length (w_content_methods aw0)"
    and fuel: "length (w_content_methods aw0) < fuel" "fuel < 2 ^ 63" "list_all (can_be_pushed fuel) pushed"
    and dest: "destination fs dest home" and empty: "\<And>l. strict_prefix home l \<Longrightarrow> node_at fs l = None"
    and names: "distinct (map (\<lambda>p. name (fst p)) pushed)" "entries_fit {e \<in> fst ` set pushed. \<not> root_entry e}"
  shows "\<exists>fs'. decompress_with_password crc32 D L B fuel parallelism f dest pw fs = Ok fs'
     \<and> (\<forall>(e, contents)\<in>set pushed. root_entry e \<or> (if is_directory e then directory_at fs' (home @ path_of (name e))
          else \<exists>n. node_at fs' (home @ path_of (name e)) = Some n
             \<and> nd_contents n = Some (case contents of None \<Rightarrow> [] | Some d \<Rightarrow> d)))
     \<and> (\<forall>l. node_at fs' l \<noteq> node_at fs l \<longrightarrow> (\<exists>p\<in>set pushed. \<not> root_entry (fst p) \<and> strict_prefix home l \<and> prefix l (home @ path_of (name (fst p)))))"
proof -
  let ?a = "rd_archive rd" and ?vs = "visit_order pushed"
  note entry = reader_entry [OF rd undone methods fuel]
  let ?e = "\<lambda>i. ar_files ?a ! i" and ?U = "(\<lambda>i. ar_files ?a ! i) ` {i. i < length pushed \<and> \<not> root_entry (fst (pushed ! i))}"
  have name_at: "name (?e i) = name (fst (pushed ! i))" "is_directory (?e i) = is_directory (fst (pushed ! i))" if "i < length pushed" for i
    using entry(1,2) [OF that, of "fst (pushed ! i)" "snd (pushed ! i)"] by simp_all
  have root_at: "root_entry (?e i) = root_entry (fst (pushed ! i))" if "i < length pushed" for i
    using name_at [OF that] by (simp add: root_entry_def)
  have U: "entries_fit ?U"
  proof (rule entries_fit_like [OF names(2)])
    fix e assume "e \<in> ?U"
    then obtain i where i: "i < length pushed" "\<not> root_entry (fst (pushed ! i))" "e = ?e i" by auto
    show "\<exists>e'\<in>{e \<in> fst ` set pushed. \<not> root_entry e}. name e = name e' \<and> is_directory e = is_directory e'"
      by (rule bexI [of _ "fst (pushed ! i)"]) (use i name_at [OF i(1)] in simp_all)
  qed
  have inj: "path_of m = path_of m' \<Longrightarrow> m = m'" for m m' by (metis path_string_of)
  have dist: "distinct (map (\<lambda>(i, d). path_of (name (?e i))) ?vs)"
  proof -
    have "inj_on (\<lambda>i. path_of (name (?e i))) {..<length pushed}"
      using names(1) by (auto simp: inj_on_def name_at distinct_conv_nth dest!: inj)
    then have "distinct (map (\<lambda>i. path_of (name (?e i))) (map fst ?vs))"
      using visit_order_indices(1,2) [of pushed] by (simp only: distinct_map)
    then show ?thesis by (simp add: comp_def split_def)
  qed
  have each: "\<forall>(i, d)\<in>set ?vs. root_entry (?e i) \<or> ?e i \<in> ?U \<and> entry_size (?e i) = of_nat (length d) \<and> length d < 2 ^ 64"
  proof (rule ballI, rule case_prodI2)
    fix p i d assume "p \<in> set ?vs" "p = (i, d)"
    then have i: "i < length pushed" "d = (case snd (pushed ! i) of None \<Rightarrow> [] | Some d \<Rightarrow> d)" using visit_order_indices(3) by auto
    with entry(3,4) [OF i(1), of "fst (pushed ! i)" "snd (pushed ! i)"]
    have "entry_size (?e i) = of_nat (length d) \<and> length d < 2 ^ 64" by simp
    then show "root_entry (?e i) \<or> ?e i \<in> ?U \<and> entry_size (?e i) = of_nat (length d) \<and> length d < 2 ^ 64"
      using root_at [OF i(1)] i(1) by blast
  qed
  have start: "extracted dest home fs [] fs" using dest by (simp add: extracted_def)
  obtain fs' where fs': "for_each (\<lambda>(i, d). extract_data dest (i, ?e i) d) ?vs fs = Ok fs'"
    "extracted dest home fs (rev (map (\<lambda>(i, d). (?e i, d)) (filter (\<lambda>(i, d). \<not> root_entry (?e i)) ?vs))) fs'"
    using extract_list [OF start U each _ _ empty] dist by auto
  have "if is_directory e then directory_at fs' (home @ path_of (name e))
      else \<exists>n. node_at fs' (home @ path_of (name e)) = Some n \<and> nd_contents n = Some (case contents of None \<Rightarrow> [] | Some d \<Rightarrow> d)"
    if p: "(e, contents) \<in> set pushed" and nr: "\<not> root_entry e" for e contents
  proof -
    obtain i where i: "i < length pushed" "pushed ! i = (e, contents)" using p by (auto simp: in_set_conv_nth)
    have "i \<in> fst ` set ?vs" using visit_order_indices(2) [of pushed] i(1) by auto
    then obtain d where d: "(i, d) \<in> set ?vs" by auto
    with visit_order_indices(3) i have dd: "d = (case contents of None \<Rightarrow> [] | Some d \<Rightarrow> d)" by fastforce
    have "(?e i, d) \<in> set (rev (map (\<lambda>(i, d). (?e i, d)) (filter (\<lambda>(i, d). \<not> root_entry (?e i)) ?vs)))"
      using d nr root_at [OF i(1)] i(2) by force
    then have "extracted_as fs' home (?e i, d)" using fs'(2) unfolding extracted_def by blast
    then show ?thesis using name_at [OF i(1)] i(2) dd by (auto simp: extracted_as_def)
  qed
  moreover have "\<exists>p\<in>set pushed. \<not> root_entry (fst p) \<and> strict_prefix home l \<and> prefix l (home @ path_of (name (fst p)))" if changed: "node_at fs' l \<noteq> node_at fs l" for l
  proof -
    obtain x k where x: "x \<in> set (rev (map (\<lambda>(i, d). (?e i, d)) (filter (\<lambda>(i, d). \<not> root_entry (?e i)) ?vs)))" "0 < k" "l = home @ take k (path_of (name (fst x)))"
      using fs'(2) changed unfolding extracted_def by blast
    then obtain i d where i: "(i, d) \<in> set ?vs" "fst x = ?e i" "\<not> root_entry (?e i)" by auto
    then have "i < length pushed" using visit_order_indices(3) by blast
    then have "pushed ! i \<in> set pushed" "\<not> root_entry (fst (pushed ! i))" "path_of (name (fst x)) = path_of (name (fst (pushed ! i)))" using name_at(1) root_at i(2,3) by simp_all
    moreover have "take k (path_of n) \<noteq> []" for n using x(2) path_of_not_Nil [of n] by simp
    ultimately show ?thesis using x(3) by (intro bexI [of _ "pushed ! i"]) (auto simp: strict_prefix_def take_is_prefix)
  qed
  moreover have "decompress_with_password crc32 D L B fuel parallelism f dest pw fs = Ok fs'"
    by (rule written_archive_extracts [OF D opens rd undone methods fuel dest fs'(1)])
  ultimately show ?thesis by blast
qed

section \<open>A name that leaves the destination\<close>

lemma extract_escapes:
  assumes d: "destination fs dest (outer @ [dn])" and outer: "directory_at fs outer" "\<not> directory_at fs (outer @ [nm])"
    and e: "\<not> is_directory e" "name e = [46, 46, 47] @ nm" "path_of nm = [nm]" "normal nm"
      "entry_size e = of_nat (length dt)" "length dt < 2 ^ 64"
  shows "\<exists>fs' n. extract_data dest (i, e) dt fs = Ok fs' \<and> node_at fs' (outer @ [nm]) = Some n \<and> nd_contents n = Some dt"
proof -
  have q: "path_of (name e) = [up, nm]" using e(2,3) by simp
  have rel: "\<not> is_absolute [up, nm]" "[up, nm] \<noteq> []" by (simp_all add: is_absolute_def)
  have home: "directory_at fs (outer @ [dn])" using d by (simp add: destination_def)
  have parts: "real_parts [up, nm] = [up] @ [nm]" using e(4) by simp
  obtain x where "components (join dest [up, nm]) = components dest @ [up] @ [nm]" "is_absolute (join dest [up, nm]) = is_absolute dest"
    using join_destination [OF d rel, unfolded parts] by blast
  then have par: "parent (join dest [up, nm]) = Some (under dest [up])" by (simp add: parent_def under_def butlast_append)
  have "locate fs (under dest [up]) = Ok outer" using locate_under(1) [OF d, of "[up]"] home by simp
  then have ex: "path_exists fs (under dest [up])"
    using outer(1) by (auto simp: path_exists_def metadata_def directory_at_def split: option.splits)
  have loc: "locate fs (join dest [up, nm]) = Ok (outer @ [nm])"
    using locate_join [OF d rel] home outer(1) e(4) by simp
  obtain n0 where made: "create_file fs (join dest [up, nm]) = Ok (outer @ [nm], put_node (outer @ [nm]) n0 fs)" "nd_contents n0 = Some []"
  proof (cases "node_at fs (outer @ [nm])")
    case None
    then show ?thesis using that by (simp add: create_file_def loc new_node_def)
  next
    case (Some n)
    then show ?thesis using that outer(2) by (simp add: create_file_def loc directory_at_def)
  qed
  have "0 < entry_size e \<longleftrightarrow> dt \<noteq> []"
    using e(5,6) by (simp add: word_less_nat_alt unat_of_nat_u64)
  then show ?thesis
    using e(1) made(2)
    by (cases "dt = []") (auto simp: extract_data_def Let_def q par ex made(1) system_time_exact set_times_def append_file_def)
qed

end
