(* ===== verification/Extract_Properties.thy ===== *)
theory Extract_Properties
  imports Reader_Properties Archive_Extraction
begin

text \<open>
  The properties of extraction into a directory: what was pushed is what is on the disk, entries
  whose names stay in the destination change nothing outside of it, and others do.
\<close>

section \<open>What is extracted is what was pushed\<close>

text \<open>C4: an archive that was written is extracted. Files and directories are pushed to a new writer,
  which is finished, and the file is extracted into an empty directory: then for every entry that
  was pushed there is a directory or a file of its name with its contents, and nothing else has
  changed but directories above them. The hypotheses are those of \<open>archive_roundtrip\<close>, that the destination is a directory with nothing in it, that names
  have no blank or special parts, and that what has entries below it is a directory.\<close>

theorem written_archive_is_extracted:
  assumes "valid_decoder D out fine" and "block_cipher (dc_cbc D)"
    and "\<And>t. methods_undone D L out fine t pw X methods ps"
    and "methods_undone D L out fine 1 pw X (header_methods encrypt methods) hps"
    and "methods_ok (memory_env L X crc32) methods ps" and "methods_ok (memory_env L X crc32) (header_methods encrypt methods) hps"
    and "list_all (codec_ok L) methods" and "list_all (codec_ok L) (header_methods encrypt methods)"
    and "length methods < fuel" and "length (header_methods encrypt methods) < fuel" and "fuel < 2 ^ 63" and "8 < fuel"
    and "new_writer (memory_env L X crc32) methods encrypt = Ok aw0" and "push_all (memory_env L X crc32) fuel pushed aw0 = Ok aw"
    and "list_all (can_be_pushed fuel) pushed"
    and "files_ok (map plain_entry pushed)" and "distinct (map (\<lambda>p. name (fst p)) pushed)"
    and "list_all (\<lambda>c. c \<noteq> 0) (pi_crcs (w_pack_info aw))"
    and "finish_fits L X crc32 hps (cur_pos (w_output aw) - 32) aw"
    and "destination fs dest home" and "\<And>l. strict_prefix home l \<Longrightarrow> node_at fs l = None" and "entries_fit (fst ` set pushed)"
  shows "\<exists>f fs'. finish_archive (memory_env L X crc32) aw = Ok f
     \<and> decompress_with_password crc32 D L B fuel parallelism f dest pw fs = Ok fs'
     \<and> (\<forall>(e, contents)\<in>set pushed. if is_directory e then directory_at fs' (home @ path_of (name e))
          else \<exists>n. node_at fs' (home @ path_of (name e)) = Some n
             \<and> nd_contents n = Some (case contents of None \<Rightarrow> [] | Some d \<Rightarrow> d))
     \<and> (\<forall>l. node_at fs' l \<noteq> node_at fs l \<longrightarrow> (\<exists>p\<in>set pushed. strict_prefix home l \<and> prefix l (home @ path_of (name (fst p)))))"
proof -
  obtain f rd items where f: "finish_archive (memory_env L X crc32) aw = Ok f" and opens: "archive_reader_new crc32 D L fuel parallelism f pw = Ok rd"
    and rd: "reader_of X crc32 ps L aw0 pushed aw pw items rd" and aw0: "w_content_methods aw0 = methods"
    using written_archive_opens [OF assms(1-19)] by blast
  have "methods \<noteq> []" "length ps = length methods" using assms(5) by (auto simp: methods_ok_def dest: list_all2_lengthD)
  note no_root = no_root_entry [OF assms(22)]
  have names: "entries_fit {e \<in> fst ` set pushed. \<not> root_entry e}" using assms(22) by (simp only: no_root)
  obtain fs' where fs': "decompress_with_password crc32 D L B fuel parallelism f dest pw fs = Ok fs'"
    and each: "\<forall>(e, contents)\<in>set pushed. root_entry e \<or> (if is_directory e then directory_at fs' (home @ path_of (name e))
          else \<exists>n. node_at fs' (home @ path_of (name e)) = Some n
             \<and> nd_contents n = Some (case contents of None \<Rightarrow> [] | Some d \<Rightarrow> d))"
    and only: "\<forall>l. node_at fs' l \<noteq> node_at fs l \<longrightarrow> (\<exists>p\<in>set pushed. \<not> root_entry (fst p) \<and> strict_prefix home l \<and> prefix l (home @ path_of (name (fst p))))"
    using written_archive_extracted [OF assms(1,2) opens rd _ _ _ _ assms(11,15,20,21,17) names, of B] assms(3,9) aw0
      \<open>methods \<noteq> []\<close> \<open>length ps = length methods\<close> by blast
  have "\<not> root_entry e" if "(e, contents) \<in> set pushed" for e contents
    using eqset_imp_iff [OF no_root, of e] that by force
  with each have "\<forall>(e, contents)\<in>set pushed. if is_directory e then directory_at fs' (home @ path_of (name e))
          else \<exists>n. node_at fs' (home @ path_of (name e)) = Some n
             \<and> nd_contents n = Some (case contents of None \<Rightarrow> [] | Some d \<Rightarrow> d)" by blast
  with f fs' only show ?thesis by blast
qed

text \<open>A file system with an empty directory \<open>out\<close>.\<close>

definition demo_disk :: file_system where
  "demo_disk = (let dir = \<lparr>nd_contents = None, nd_modified = 0, nd_accessed = 0, nd_created = 0\<rparr> in
     \<lparr>fs_nodes = [([], dir), ([[111]], dir)], fs_cwd = [], fs_now = 5\<rparr>)"

lemma demo_destination: "destination demo_disk [[111]] [[111]]"
  by (simp add: destination_def demo_disk_def locate_def is_absolute_def directory_at_def node_at_def Let_def)

lemma demo_destination_empty: "strict_prefix [[111]] l \<Longrightarrow> node_at demo_disk l = None"
  by (auto simp: node_at_def demo_disk_def Let_def strict_prefix_def)

lemma demo_lengths: "length demo_encoders = 2" "length (header_methods False [stored, swapped]) < 20"
  by (simp_all add: header_methods_def)

theorem written_archive_is_extracted_witness:
  "\<exists>aw f fs' n. and_then (new_writer demo_env [stored, swapped] False) (push_all demo_env 20 demo_pushed) = Ok aw
     \<and> finish_archive demo_env aw = Ok f
     \<and> decompress_with_password demo_crc demo_decoders demo_libs demo_bcj2 20 None f [[111]] [] demo_disk = Ok fs'
     \<and> node_at fs' [[111], [97]] = Some n \<and> nd_contents n = Some [1, 2, 3]"
proof -
  obtain aw0 aw where aw: "new_writer demo_env [stored, swapped] False = Ok aw0" "push_all demo_env 20 demo_pushed aw0 = Ok aw"
    and fit: "list_all (\<lambda>c. c \<noteq> 0) (pi_crcs (w_pack_info aw))" "files_ok (map plain_entry demo_pushed)"
      "finish_fits demo_libs demo_codecs demo_crc [((=), Lzma_encoder (Some ()))] (cur_pos (w_output aw) - 32) aw"
      "list_all (codec_ok demo_libs) [stored, swapped]" "list_all (codec_ok demo_libs) (header_methods False [stored, swapped])"
      "length (header_methods False [stored, swapped]) < 20" "list_all (can_be_pushed 20) demo_pushed"
    using demo_archive [OF demo_names(1)] by (elim exE conjE) (rule that; assumption)
  have names: "entries_fit (fst ` set demo_pushed)" by (simp add: entries_fit_def plain_name_def new_file_def)
  from written_archive_is_extracted [where parallelism = None and B = demo_bcj2, OF demo_valid_decoder demo_cipher demo_swapped_undone' demo_lzma_undone demo_methods_ok demo_header_methods_ok
      fit(4,5) _ fit(6) _ _ aw fit(7,2) _ fit(1,3) demo_destination demo_destination_empty names, where pw = "[]"]
  show ?thesis using aw by (auto simp: new_file_def entry_default_def)
qed

section \<open>What is outside the destination\<close>

text \<open>C5: extraction never touches what is outside the destination as long as the names of the archive
  are relative and have no part \<open>..\<close>: whatever the archive, if the extraction succeeds, all files and
  directories that have changed are below the destination, and no directory is gone.\<close>

theorem extraction_stays_inside:
  assumes "destination fs dest home" and "archive_read_file crc32 D L fuel pw f = Ok (a, f')"
    and "list_all (\<lambda>e. safe_name (name e)) (ar_files a)"
    and "decompress_with_password crc32 D L B fuel parallelism f dest pw fs = Ok fs'"
  shows "(\<forall>l. \<not> prefix home l \<longrightarrow> node_at fs' l = node_at fs l) \<and> (\<forall>l. directory_at fs l \<longrightarrow> directory_at fs' l)"
  using decompress_inside [OF assms(1-3) assms(4) [unfolded decompress_with_password_def]] unfolding inside_def grows_def by blast

theorem extraction_stays_inside_witness:
  "\<exists>f fs'. decompress_with_password demo_crc demo_decoders demo_libs demo_bcj2 20 None f [[111]] [] demo_disk = Ok fs'
     \<and> fs' \<noteq> demo_disk \<and> (\<forall>l. \<not> prefix [[111]] l \<longrightarrow> node_at fs' l = node_at demo_disk l)"
proof -
  obtain aw0 aw where aw: "new_writer demo_env [stored, swapped] False = Ok aw0" "push_all demo_env 20 demo_pushed aw0 = Ok aw"
    and fit: "list_all (\<lambda>c. c \<noteq> 0) (pi_crcs (w_pack_info aw))" "files_ok (map plain_entry demo_pushed)"
      "finish_fits demo_libs demo_codecs demo_crc [((=), Lzma_encoder (Some ()))] (cur_pos (w_output aw) - 32) aw"
      "list_all (codec_ok demo_libs) [stored, swapped]" "list_all (codec_ok demo_libs) (header_methods False [stored, swapped])"
      "length (header_methods False [stored, swapped]) < 20" "list_all (can_be_pushed 20) demo_pushed"
    using demo_archive [OF demo_names(1)] by (elim exE conjE) (rule that; assumption)
  obtain f rd items where opens: "archive_reader_new demo_crc demo_decoders demo_libs 20 None f [] = Ok rd"
    and rd: "reader_of demo_codecs demo_crc demo_encoders demo_libs aw0 demo_pushed aw [] items rd" and aw0: "w_content_methods aw0 = [stored, swapped]"
    using written_archive_opens [where parallelism = None and pw = "[]", OF demo_valid_decoder demo_cipher demo_swapped_undone' demo_lzma_undone demo_methods_ok demo_header_methods_ok
      fit(4,5) _ fit(6) _ _ aw fit(7,2) _ fit(1,3)] by auto
  have names: "entries_fit {e \<in> fst ` set demo_pushed. \<not> root_entry e}"
    by (simp add: entries_fit_def plain_name_def new_file_def root_entry_def)
  obtain fs' where fs': "decompress_with_password demo_crc demo_decoders demo_libs demo_bcj2 20 None f [[111]] [] demo_disk = Ok fs'"
    "\<exists>n. node_at fs' [[111], [97]] = Some n"
    using written_archive_extracted [where B = demo_bcj2, OF demo_valid_decoder demo_cipher opens rd _ _ _ _ _ fit(7) demo_destination demo_destination_empty _ names]
      aw0 demo_swapped_undone' demo_lengths by (auto simp: new_file_def entry_default_def root_entry_def)
  obtain f' where a: "archive_read_file demo_crc demo_decoders demo_libs 20 [] f = Ok (rd_archive rd, f')"
    using reader_archive [OF opens] by blast
  have "wrote demo_codecs demo_crc demo_encoders aw0 demo_pushed items aw" "header_ok demo_libs aw" "opened demo_libs aw (rd_archive rd)"
    using rd by (simp_all add: reader_of_def)
  then have "map name (ar_files (rd_archive rd)) = [[97]]"
    using opened_kinds(3) [of demo_libs aw "rd_archive rd" 0] opened_fields(4) [of demo_libs aw "rd_archive rd"]
    by (cases "ar_files (rd_archive rd)") (auto simp: wrote_def list_all2_Cons1 entry_like_def new_file_def)
  then have "list_all (\<lambda>e. safe_name (name e)) (ar_files (rd_archive rd))"
    by (auto simp: safe_name_def is_absolute_def Cons_eq_map_conv)
  from extraction_stays_inside [OF demo_destination a this fs'(1)] fs' demo_destination_empty [of "[[111], [97]]"]
  have "fs' \<noteq> demo_disk" "\<forall>l. \<not> prefix [[111]] l \<longrightarrow> node_at fs' l = node_at demo_disk l"
    by (auto simp: strict_prefix_def)
  with fs'(1) show ?thesis by blast
qed

text \<open>C6: an entry whose name begins with \<open>../\<close> is extracted beside the destination: an archive of
  one such file, extracted, creates or overwrites the file of that name in the directory that
  holds the destination. The reader does not check the names of entries.\<close>

theorem extraction_leaves_destination:
  assumes "valid_decoder D out fine" and "block_cipher (dc_cbc D)"
    and "\<And>t. methods_undone D L out fine t pw X methods ps"
    and "methods_undone D L out fine 1 pw X (header_methods encrypt methods) hps"
    and "methods_ok (memory_env L X crc32) methods ps" and "methods_ok (memory_env L X crc32) (header_methods encrypt methods) hps"
    and "list_all (codec_ok L) methods" and "list_all (codec_ok L) (header_methods encrypt methods)"
    and "length methods < fuel" and "length (header_methods encrypt methods) < fuel" and "fuel < 2 ^ 63" and "8 < fuel"
    and "new_writer (memory_env L X crc32) methods encrypt = Ok aw0" and "push_all (memory_env L X crc32) fuel [(e, Some d)] aw0 = Ok aw"
    and "length d < fuel" and "\<not> is_directory e" and "name e = [46, 46, 47] @ nm" and "path_of nm = [nm]" and "normal nm"
    and "files_ok (map plain_entry [(e, Some d)])"
    and "list_all (\<lambda>c. c \<noteq> 0) (pi_crcs (w_pack_info aw))"
    and "finish_fits L X crc32 hps (cur_pos (w_output aw) - 32) aw"
    and "destination fs dest (outer @ [dn])" and "directory_at fs outer" and "\<not> directory_at fs (outer @ [nm])"
  shows "\<exists>f fs' n. finish_archive (memory_env L X crc32) aw = Ok f
     \<and> decompress_with_password crc32 D L B fuel parallelism f dest pw fs = Ok fs'
     \<and> node_at fs' (outer @ [nm]) = Some n \<and> nd_contents n = Some d"
proof -
  let ?p = "[(e, Some d)]"
  have can: "list_all (can_be_pushed fuel) ?p" using assms(15,16) by (simp add: can_be_pushed_def)
  obtain f rd items where f: "finish_archive (memory_env L X crc32) aw = Ok f" and opens: "archive_reader_new crc32 D L fuel parallelism f pw = Ok rd"
    and rd: "reader_of X crc32 ps L aw0 ?p aw pw items rd" and aw0: "w_content_methods aw0 = methods"
    using written_archive_opens [where parallelism = parallelism, OF assms(1-14) can assms(20) _ assms(21,22)] by auto
  have m: "methods \<noteq> []" "length ps = length methods" using assms(5) by (auto simp: methods_ok_def dest: list_all2_lengthD)
  have undone: "\<And>t. methods_undone D L out fine t pw X (w_content_methods aw0) ps" and m': "w_content_methods aw0 \<noteq> []"
    "length ps = length (w_content_methods aw0)" "length (w_content_methods aw0) < fuel" using assms(3,9) m aw0 by simp_all
  let ?g = "ar_files (rd_archive rd) ! 0"
  note g = reader_entry [OF rd undone m' assms(11) can, of 0 e "Some d", simplified]
  obtain fs' n where fs': "extract_data dest (0, ?g) d fs = Ok fs'" "node_at fs' (outer @ [nm]) = Some n" "nd_contents n = Some d"
    using extract_escapes [OF assms(23-25), of ?g d 0] g assms(16-19) by auto
  have "for_each (\<lambda>(i, d). extract_data dest (i, ar_files (rd_archive rd) ! i) d) (visit_order ?p) fs = Ok fs'"
    using fs'(1) by (simp add: visit_order_def)
  from written_archive_extracts [OF assms(1,2) opens rd undone m' assms(11) can assms(23) this, of B] f fs'(2,3)
  show ?thesis by blast
qed

theorem extraction_leaves_destination_witness:
  "\<exists>aw f fs' n. and_then (new_writer demo_env [stored, swapped] False) (push_all demo_env 20 (demo_file [46, 46, 47, 97])) = Ok aw
     \<and> finish_archive demo_env aw = Ok f
     \<and> decompress_with_password demo_crc demo_decoders demo_libs demo_bcj2 20 None f [[111]] [] demo_disk = Ok fs'
     \<and> node_at demo_disk [[97]] = None \<and> node_at fs' [[97]] = Some n \<and> nd_contents n = Some [1, 2, 3]"
proof -
  let ?nm = "[46, 46, 47, 97]"
  obtain aw0 aw where aw: "new_writer demo_env [stored, swapped] False = Ok aw0" "push_all demo_env 20 (demo_file ?nm) aw0 = Ok aw"
    and fit: "list_all (\<lambda>c. c \<noteq> 0) (pi_crcs (w_pack_info aw))" "files_ok (map plain_entry (demo_file ?nm))"
      "finish_fits demo_libs demo_codecs demo_crc [((=), Lzma_encoder (Some ()))] (cur_pos (w_output aw) - 32) aw"
      "list_all (codec_ok demo_libs) [stored, swapped]" "list_all (codec_ok demo_libs) (header_methods False [stored, swapped])"
      "length (header_methods False [stored, swapped]) < 20" "list_all (can_be_pushed 20) (demo_file ?nm)"
    using demo_archive [OF demo_names(2)] by (elim exE conjE) (rule that; assumption)
  have e: "\<not> is_directory (new_file ?nm)" "name (new_file ?nm) = [46, 46, 47] @ [97]" "path_of [97] = [[97]]" "normal [97]"
    by (simp_all add: new_file_def entry_default_def)
  have disk: "destination demo_disk [[111]] ([] @ [[111]])" "directory_at demo_disk []" "\<not> directory_at demo_disk ([] @ [[97]])"
    using demo_destination by (simp_all add: demo_disk_def directory_at_def node_at_def Let_def)
  from extraction_leaves_destination [where parallelism = None and B = demo_bcj2, OF demo_valid_decoder demo_cipher demo_swapped_undone' demo_lzma_undone demo_methods_ok demo_header_methods_ok
      fit(4,5) _ fit(6) _ _ aw _ e fit(2,1,3) disk, where pw = "[]"]
  obtain f fs' n where "finish_archive demo_env aw = Ok f"
    "decompress_with_password demo_crc demo_decoders demo_libs demo_bcj2 20 None f [[111]] [] demo_disk = Ok fs'"
    "node_at fs' [[97]] = Some n" "nd_contents n = Some [1, 2, 3]" by auto
  moreover have "node_at demo_disk [[97]] = None" by (simp add: demo_disk_def node_at_def Let_def)
  ultimately show ?thesis using aw by auto
qed

end
