(* ===== verification/Compress.thy ===== *)
theory Compress
  imports Archive_Writer File_System
begin

text \<open>
  \<^verbatim>\<open>src/src/util/compress.rs\<close> and \<open>ArchiveEntry::from_path\<close>: the files below a path are pushed to an
  archive writer. The archive is written elsewhere, so the file system is only read. The state of a
  \<open>LazyFileReader\<close> has its path; recursion into directories has a fuel of its own.
\<close>

section \<open>Entries of files\<close>

definition open_reader :: "file_system \<Rightarrow> path \<Rightarrow> cursor io_result" where
  "open_reader fs p = and_then (open_file fs p) (\<lambda>d. Ok \<lparr>cur_data = d, cur_pos = 0\<rparr>)"

definition entry_from_path :: "file_system \<Rightarrow> path \<Rightarrow> rstring \<Rightarrow> archive_entry" where
  "entry_from_path fs p entry_name =
     (let entry = entry_default\<lparr>name := entry_name, has_stream := is_file fs p, is_directory := is_dir fs p\<rparr> in
      case metadata fs p of
        Ok meta \<Rightarrow>
          let entry = (case nt_time_from_system (nd_modified meta) of
                Ok date \<Rightarrow> entry\<lparr>last_modified_date := date, has_last_modified_date := 0 < date\<rparr>
              | _ \<Rightarrow> entry);
              entry = (case nt_time_from_system (nd_created meta) of
                Ok date \<Rightarrow> entry\<lparr>creation_date := date, has_creation_date := 0 < date\<rparr>
              | _ \<Rightarrow> entry) in
          (case nt_time_from_system (nd_accessed meta) of
             Ok date \<Rightarrow> entry\<lparr>access_date := date, has_access_date := 0 < date\<rparr>
           | _ \<Rightarrow> entry)
      | _ \<Rightarrow> entry)"

section \<open>Compression of a path\<close>

fun compress_path ::
    "('e, 'o) writer_env \<Rightarrow> file_system \<Rightarrow> nat \<Rightarrow> nat \<Rightarrow> path \<Rightarrow> path \<Rightarrow> 'o archive_writer \<Rightarrow> 'o archive_writer result" where
  "compress_path E fs fuel 0 src root aw = OutOfFuel"
| "compress_path E fs fuel (Suc depth) src root aw =
     (case path_strip_prefix src root of
        None \<Rightarrow> Err (Other ''prefix not found'')
      | Some p \<Rightarrow>
          let entry = entry_from_path fs src (path_string p) in
          if is_dir fs src then
            and_then (push_archive_entry E slice_read fuel aw entry None) (\<lambda>aw.
            and_then (map_err (\<lambda>e. Io e ''error read dir'') (read_dir fs src)) (\<lambda>names.
            for_each (\<lambda>nm aw.
              let dir = join src [nm] in
              if is_dir fs dir \<or> is_file fs dir then compress_path E fs fuel depth dir root aw else Ok aw) names aw))
          else
            and_then (map_err (\<lambda>e. Io e (lossy src)) (open_reader fs src)) (\<lambda>f.
            push_archive_entry E file_read fuel aw entry (Some f)))"

definition compress_root :: "file_system \<Rightarrow> path \<Rightarrow> path" where
  "compress_root fs src = (if is_dir fs src then src else case parent src of None \<Rightarrow> src | Some p \<Rightarrow> p)"

definition compress :: "('e, 'o) writer_env \<Rightarrow> file_system \<Rightarrow> nat \<Rightarrow> nat \<Rightarrow> path \<Rightarrow> 'o \<Rightarrow> 'o result" where
  "compress E fs fuel depth src dest =
     and_then (archive_writer_new E dest) (\<lambda>aw.
     and_then (compress_path E fs fuel depth src (compress_root fs src) aw) (\<lambda>aw.
     from_io (finish_archive E aw)))"

text \<open>The random bytes of the options of AES are arguments.\<close>

definition compress_encrypted ::
    "('e, 'o) writer_env \<Rightarrow> file_system \<Rightarrow> nat \<Rightarrow> nat \<Rightarrow> bytes \<Rightarrow> bytes \<Rightarrow> path \<Rightarrow> 'o \<Rightarrow> password \<Rightarrow> 'o result" where
  "compress_encrypted E fs fuel depth random_iv random_salt src dest pw =
     and_then (archive_writer_new E dest) (\<lambda>aw.
     let aw = (if password_is_empty pw then aw
               else set_content_methods aw
                 [\<lparr>config_method = EncoderMethod ''AES256_SHA256'' id_aes256_sha256,
                   config_options = Some (Aes (aes_options_new pw random_iv random_salt))\<rparr>,
                  config_new (EncoderMethod ''LZMA2'' id_lzma2)]) in
     and_then (compress_path E fs fuel depth src (compress_root fs src) aw) (\<lambda>aw.
     from_io (finish_archive E aw)))"

section \<open>Pushing the files below a path\<close>

fun collect_file_paths :: "file_system \<Rightarrow> (path \<Rightarrow> bool) \<Rightarrow> nat \<Rightarrow> path \<Rightarrow> path list \<Rightarrow> path list io_result" where
  "collect_file_paths fs accept 0 src paths = OutOfFuel"
| "collect_file_paths fs accept (Suc depth) src paths =
     (if \<not> accept src then Ok paths
      else if is_dir fs src then
        and_then (read_dir fs src) (\<lambda>names.
        for_each (\<lambda>nm paths.
          let dir = join src [nm] in
          if is_file fs dir \<or> is_dir fs dir then collect_file_paths fs accept depth dir paths else Ok paths) names paths)
      else Ok (paths @ [src]))"

text \<open>The text of \<open>{:?}\<close>, without its escapes.\<close>

definition quoted :: "path \<Rightarrow> string" where
  "quoted p = [CHR 0x22] @ lossy p @ [CHR 0x22]"

definition extract_file_name :: "path \<Rightarrow> path \<Rightarrow> rstring result" where
  "extract_file_name src ele =
     (if same_path ele src then
        (case file_name ele of
           None \<Rightarrow> Err (Io (Io_simple InvalidInput ''Invalid filename'') (''Failed to get filename from '' @ quoted ele))
         | Some nm \<Rightarrow> Ok nm)
      else (case path_strip_prefix ele src of None \<Rightarrow> Panic | Some p \<Rightarrow> Ok (path_string p)))"

definition max_block_size :: u64 where "max_block_size = 4 * 1024 * 1024 * 1024"

type_synonym lazy_file = "path \<times> cursor lazy_reader"

definition lazy_file_new :: "path \<Rightarrow> lazy_file" where
  "lazy_file_new p = (p, \<lparr>lz_reader = None, lz_end = False\<rparr>)"

definition lazy_file_read :: "file_system \<Rightarrow> lazy_file reading" where
  "lazy_file_read fs lf n =
     (case lf of (p, r) \<Rightarrow> and_then (lazy_read (open_reader fs p) file_read r n) (\<lambda>(bs, r). Ok (bs, (p, r))))"

definition file_len :: "node \<Rightarrow> u64" where
  "file_len n = of_nat (length (case nd_contents n of None \<Rightarrow> [] | Some d \<Rightarrow> d))"

text \<open>A file is pushed with a block of its own, or joins those that share one.\<close>

definition push_file ::
    "('e, 'o) writer_env \<Rightarrow> file_system \<Rightarrow> nat \<Rightarrow> path \<Rightarrow> rstring \<Rightarrow> 'o archive_writer \<Rightarrow> 'o archive_writer result" where
  "push_file E fs fuel ele nm aw =
     and_then (from_io (open_reader fs ele)) (\<lambda>f.
     push_archive_entry E file_read fuel aw (entry_from_path fs ele nm) (Some f))"

type_synonym 'o batch = "archive_entry list \<times> lazy_file source_reader list \<times> u64 \<times> 'o archive_writer"

definition encode_solid_step ::
    "('e, 'o) writer_env \<Rightarrow> file_system \<Rightarrow> nat \<Rightarrow> path \<Rightarrow> path \<Rightarrow> 'o batch \<Rightarrow> 'o batch result" where
  "encode_solid_step E fs fuel src ele st =
     (case st of (entries, files, file_size, aw) \<Rightarrow>
        and_then (from_io (metadata fs ele)) (\<lambda>meta.
        let size = file_len meta in
        and_then (extract_file_name src ele) (\<lambda>nm.
        if max_block_size \<le> size then
          and_then (push_file E fs fuel ele nm aw) (\<lambda>aw. Ok (entries, files, file_size, aw))
        else
          and_then
            (if max_block_size \<le> file_size + size then
               and_then (push_archive_entries E (lazy_file_read fs) fuel aw entries files) (\<lambda>aw. Ok ([], [], 0, aw))
             else Ok (entries, files, file_size, aw)) (\<lambda>(entries, files, file_size, aw).
          Ok (entries @ [entry_from_path fs ele nm], files @ [source_new (lazy_file_new ele)], file_size + size, aw)))))"

definition encode_path ::
    "('e, 'o) writer_env \<Rightarrow> file_system \<Rightarrow> nat \<Rightarrow> nat \<Rightarrow> bool \<Rightarrow> path \<Rightarrow> 'o archive_writer \<Rightarrow> (path \<Rightarrow> bool) \<Rightarrow>
     'o archive_writer result" where
  "encode_path E fs fuel depth solid src aw accept =
     and_then (map_err (\<lambda>e. Io e (''Failed to collect entries from path:'' @ quoted src))
       (collect_file_paths fs accept depth src [])) (\<lambda>paths.
     if \<not> solid then
       for_each (\<lambda>ele aw. and_then (extract_file_name src ele) (\<lambda>nm. push_file E fs fuel ele nm aw)) paths aw
     else
       and_then (for_each (encode_solid_step E fs fuel src) paths ([], [], 0, aw)) (\<lambda>(entries, files, _, aw).
       if entries \<noteq> [] then push_archive_entries E (lazy_file_read fs) fuel aw entries files else Ok aw))"

definition push_source_path ::
    "('e, 'o) writer_env \<Rightarrow> file_system \<Rightarrow> nat \<Rightarrow> nat \<Rightarrow> 'o archive_writer \<Rightarrow> path \<Rightarrow> (path \<Rightarrow> bool) \<Rightarrow>
     'o archive_writer result" where
  "push_source_path E fs fuel depth aw src accept = encode_path E fs fuel depth True src aw accept"

definition push_source_path_non_solid ::
    "('e, 'o) writer_env \<Rightarrow> file_system \<Rightarrow> nat \<Rightarrow> nat \<Rightarrow> 'o archive_writer \<Rightarrow> path \<Rightarrow> (path \<Rightarrow> bool) \<Rightarrow>
     'o archive_writer result" where
  "push_source_path_non_solid E fs fuel depth aw src accept = encode_path E fs fuel depth False src aw accept"

end
