(* ===== verification/Compress_Tree.thy ===== *)
theory Compress_Tree
  imports Compress Files_Lifecycle Decompress
begin

text \<open>
  What the functions of \<^verbatim>\<open>src/src/util/compress.rs\<close> push, told by a list of the nodes below the
  source: the entry of a node has its path from the source for a name, and the contents of its file.
\<close>

section \<open>The tree below a directory\<close>

definition children :: "file_system \<Rightarrow> location \<Rightarrow> rstring list" where
  "children fs l = map last (filter (\<lambda>k. k \<noteq> [] \<and> butlast k = l) (map fst (fs_nodes fs)))"

fun tree :: "file_system \<Rightarrow> nat \<Rightarrow> path \<Rightarrow> location \<Rightarrow> (path \<times> location) list" where
  "tree fs 0 p l = []"
| "tree fs (Suc d) p l =
     (p, l) # (if directory_at fs l then concat (map (\<lambda>n. tree fs d (join p [n]) (l @ [n])) (children fs l)) else [])"

text \<open>Every node but the root is in a directory and has a proper name.\<close>

definition tree_ok :: "file_system \<Rightarrow> bool" where
  "tree_ok fs \<longleftrightarrow> distinct (map fst (fs_nodes fs))
     \<and> (\<forall>k\<in>set (map fst (fs_nodes fs)). k \<noteq> [] \<longrightarrow> directory_at fs (butlast k) \<and> normal (last k) \<and> slash \<notin> set (last k))"

definition deep :: "file_system \<Rightarrow> nat \<Rightarrow> location \<Rightarrow> bool" where
  "deep fs d l \<longleftrightarrow> (\<forall>k\<in>set (map fst (fs_nodes fs)). prefix l k \<longrightarrow> length k < length l + d)"

text \<open>Files are shorter than the fuel of the copying loop.\<close>

definition short_files :: "file_system \<Rightarrow> nat \<Rightarrow> bool" where
  "short_files fs fuel \<longleftrightarrow>
     list_all (\<lambda>(k, n). case nd_contents n of None \<Rightarrow> True | Some c \<Rightarrow> length c < fuel) (fs_nodes fs)"

definition tree_entry :: "file_system \<Rightarrow> location \<Rightarrow> path \<times> location \<Rightarrow> archive_entry \<times> bytes option" where
  "tree_entry fs loc = (\<lambda>(p, k). (entry_from_path fs p (path_string (drop (length loc) k)),
     case node_at fs k of None \<Rightarrow> None | Some n \<Rightarrow> nd_contents n))"

definition file_entries :: "file_system \<Rightarrow> nat \<Rightarrow> path \<Rightarrow> location \<Rightarrow> (archive_entry \<times> bytes option) list" where
  "file_entries fs d src loc = map (tree_entry fs loc) (filter (\<lambda>(p, k). \<not> directory_at fs k) (tree fs d src loc))"

lemma node_at_set: "node_at fs k \<noteq> None \<longleftrightarrow> k \<in> set (map fst (fs_nodes fs))"
  by (auto simp: node_at_def map_of_eq_None_iff)

lemma deepD: "deep fs d l \<Longrightarrow> node_at fs k \<noteq> None \<Longrightarrow> prefix l k \<Longrightarrow> length k < length l + d"
  by (simp only: node_at_set deep_def)

lemma short_filesD: "short_files fs fuel \<Longrightarrow> node_at fs k = Some n \<Longrightarrow> nd_contents n = Some c \<Longrightarrow> length c < fuel"
  by (fastforce simp: short_files_def list_all_iff node_at_def dest: map_of_SomeD)

lemma children_set: "n \<in> set (children fs l) \<longleftrightarrow> node_at fs (l @ [n]) \<noteq> None"
proof
  assume "n \<in> set (children fs l)"
  then obtain k where k: "k \<in> set (map fst (fs_nodes fs))" "k \<noteq> []" "butlast k = l" "last k = n"
    by (auto simp: children_def)
  then have "l @ [n] = k" by (metis append_butlast_last_id)
  with k(1) show "node_at fs (l @ [n]) \<noteq> None" by (simp only: node_at_set)
next
  assume "node_at fs (l @ [n]) \<noteq> None"
  then have "l @ [n] \<in> set (map fst (fs_nodes fs))" by (simp only: node_at_set)
  then show "n \<in> set (children fs l)" by (force simp: children_def)
qed

lemma distinct_children: "tree_ok fs \<Longrightarrow> distinct (children fs l)"
proof -
  assume ok: "tree_ok fs"
  let ?ks = "filter (\<lambda>k. k \<noteq> [] \<and> butlast k = l) (map fst (fs_nodes fs))"
  have "inj_on last (set ?ks)" by (rule inj_onI) (auto, metis append_butlast_last_id)
  with ok show "distinct (children fs l)" unfolding children_def by (simp add: distinct_map tree_ok_def)
qed

lemma child_name:
  assumes "tree_ok fs" and "node_at fs (l @ [n]) \<noteq> None"
  shows "normal n" "slash \<notin> set n" "directory_at fs l"
  using assms unfolding node_at_set tree_ok_def by (metis last_snoc butlast_snoc snoc_eq_iff_butlast)+

text \<open>Where a path below the source is, and how it is made of names.\<close>

definition path_at :: "file_system \<Rightarrow> path \<Rightarrow> location \<Rightarrow> path \<Rightarrow> location \<Rightarrow> bool" where
  "path_at fs src loc p k \<longleftrightarrow> locate fs p = Ok k \<and> p \<noteq> [[]] \<and> p \<noteq> [] \<and> node_at fs k \<noteq> None
     \<and> (\<exists>l. k = loc @ l \<and> components p = components src @ l) \<and> is_absolute p = is_absolute src"

lemma path_at_child:
  assumes "tree_ok fs" and p: "path_at fs src loc p k" and "directory_at fs k" and n: "node_at fs (k @ [n]) \<noteq> None"
  shows "path_at fs src loc (join p [n]) (k @ [n])"
proof -
  have d: "destination fs p k" using p assms(3) by (simp add: path_at_def destination_def)
  note nm = child_name(1,2) [OF assms(1) n]
  have rel: "\<not> is_absolute [n]" "[n] \<noteq> []" by (simp_all add: is_absolute_def)
  obtain e where e: "join p [n] = e @ [n]" "walk fs (start_of fs (is_absolute p)) e = Ok k"
    "is_absolute (join p [n]) = is_absolute p" "join p [n] \<noteq> [[]]" "components (join p [n]) = components p @ [n]"
    using join_destination [OF d rel] nm by auto
  have "locate fs (join p [n]) = Ok (k @ [n])"
    using e(1-4) assms(3) nm by (simp add: locate_def walk_append)
  then show ?thesis using p e n by (auto simp: path_at_def)
qed

lemma tree_paths:
  "tree_ok fs \<Longrightarrow> path_at fs src loc p k \<Longrightarrow> (q, j) \<in> set (tree fs d p k) \<Longrightarrow> path_at fs src loc q j"
proof (induction d arbitrary: p k)
  case (Suc d)
  then show ?case by (auto simp: children_set split: if_split_asm dest!: path_at_child)
qed simp

lemma tree_prefix: "(q, j) \<in> set (tree fs d p k) \<Longrightarrow> prefix k j"
  by (induction d arbitrary: p k) (auto split: if_split_asm dest: append_prefixD)

lemma deep_child: "deep fs (Suc d) l \<Longrightarrow> deep fs d (l @ [n])"
  by (fastforce simp: deep_def dest: append_prefixD)

lemma tree_complete:
  assumes ok: "tree_ok fs"
  shows "deep fs d l \<Longrightarrow> node_at fs (l @ s) \<noteq> None \<Longrightarrow> node_at fs l \<noteq> None \<Longrightarrow> l @ s \<in> snd ` set (tree fs d p l)"
proof (induction d arbitrary: p l s)
  case 0
  then show ?case by (auto dest: deepD)
next
  case (Suc d)
  show ?case
  proof (cases s)
    case (Cons n t)
    have up: "node_at fs (l @ n # t) \<noteq> None \<Longrightarrow> node_at fs (l @ [n]) \<noteq> None" for t
    proof (induction t rule: rev_induct)
      case (snoc x t)
      have "directory_at fs (l @ n # t)" using child_name(3) [OF ok, of "l @ n # t" x] snoc.prems by simp
      then show ?case using snoc.IH by (auto simp: directory_at_def split: option.splits)
    qed simp
    then have n: "node_at fs (l @ [n]) \<noteq> None" using Suc.prems(2) Cons by blast
    have "(l @ [n]) @ t \<in> snd ` set (tree fs d (join p [n]) (l @ [n]))"
      using Suc.IH [OF deep_child [OF Suc.prems(1)], of n t] Suc.prems(2) n Cons by simp
    then obtain q where "(q, l @ s) \<in> set (tree fs d (join p [n]) (l @ [n]))" using Cons by auto
    then have "(q, l @ s) \<in> set (tree fs (Suc d) p l)" using child_name(3) [OF ok n] n by (auto simp: children_set)
    then show ?thesis by (rule image_eqI [rotated]) simp
  qed simp
qed

lemma distinct_concat_children:
  "distinct ns \<Longrightarrow> (\<And>n. distinct (f n)) \<Longrightarrow> (\<And>j n m. j \<in> set (f n) \<Longrightarrow> j \<in> set (f m) \<Longrightarrow> m = n) \<Longrightarrow>
   distinct (concat (map f ns))"
proof (induction ns)
  case (Cons n ns)
  have "set (f n) \<inter> set (concat (map f ns)) = {}" using Cons.prems(1,3) by fastforce
  with Cons show ?case by simp
qed simp

lemma distinct_tree: "tree_ok fs \<Longrightarrow> distinct (map snd (tree fs d p l))"
proof (induction d arbitrary: p l)
  case (Suc d)
  have sub: "set (map snd (tree fs d q (l @ [n]))) \<subseteq> {j. prefix (l @ [n]) j}" for q n by (auto dest: tree_prefix)
  have apart: "m = n" if "j \<in> set (map snd (tree fs d (join p [n]) (l @ [n])))" "j \<in> set (map snd (tree fs d (join p [m]) (l @ [m])))" for j m n
    using subsetD [OF sub that(1)] subsetD [OF sub that(2)] by (auto simp: prefix_def)
  have "distinct (concat (map (\<lambda>n. map snd (tree fs d (join p [n]) (l @ [n]))) (children fs l)))"
    by (rule distinct_concat_children [OF distinct_children [OF Suc.prems] Suc.IH [OF Suc.prems] apart])
  moreover have "l \<notin> set (concat (map (\<lambda>n. map snd (tree fs d (join p [n]) (l @ [n]))) (children fs l)))"
    using sub by (fastforce simp: prefix_def)
  ultimately show ?case by (auto simp: map_concat comp_def)
qed simp

section \<open>The functions of the source, told by the tree\<close>

lemma source_at: "destination fs src loc \<Longrightarrow> path_at fs src loc src loc"
  using home_exists by (auto simp: path_at_def destination_def intro: exI [of _ "[]"])

text \<open>A file that is read through \<open>File\<close> is pushed as its contents are.\<close>

lemma encode_loop_file:
  "encode_loop file_read n write_err read_err fuel t f write_all w
     = encode_loop slice_read n write_err read_err fuel t (drop (cur_pos f) (cur_data f)) write_all w"
proof (induction fuel arbitrary: t f w)
  case (Suc fuel)
  have "drop (cur_pos f + length (take n (drop (cur_pos f) (cur_data f)))) (cur_data f) = drop n (drop (cur_pos f) (cur_data f))"
    by (simp add: min_def add.commute)
  moreover have "file_read f n = Ok (take n (drop (cur_pos f) (cur_data f)),
      f\<lparr>cur_pos := cur_pos f + length (take n (drop (cur_pos f) (cur_data f)))\<rparr>)"
    by (simp add: file_read_def Let_def)
  moreover have "slice_read s n = Ok (take n s, drop n s)" for s by (simp add: slice_read_def)
  ultimately show ?case using Suc by (simp only: encode_loop.simps) simp
qed simp

lemma push_opened_file:
  "push_archive_entry E file_read fuel aw e (Some \<lparr>cur_data = d, cur_pos = 0\<rparr>) = push_archive_entry E slice_read fuel aw e (Some d)"
  by (simp add: push_archive_entry_def encode_loop_file [abs_def])

lemma path_at_facts:
  assumes p: "path_at fs src loc p k"
  shows "is_dir fs p = directory_at fs k" "is_file fs p = (\<not> directory_at fs k)"
    "read_dir fs p = (if directory_at fs k then Ok (children fs k) else Err not_a_directory)"
    "path_strip_prefix p src = Some (from_components False (drop (length loc) k))"
    "metadata fs p = Ok (the (node_at fs k))"
    "open_reader fs p = (case node_at fs k of None \<Rightarrow> Err is_a_directory | Some n \<Rightarrow>
       (case nd_contents n of None \<Rightarrow> Err is_a_directory | Some d \<Rightarrow> Ok \<lparr>cur_data = d, cur_pos = 0\<rparr>))"
proof -
  obtain n where n: "locate fs p = Ok k" "node_at fs k = Some n" using p by (auto simp: path_at_def)
  then show "is_dir fs p = directory_at fs k" "is_file fs p = (\<not> directory_at fs k)"
    "read_dir fs p = (if directory_at fs k then Ok (children fs k) else Err not_a_directory)" "metadata fs p = Ok (the (node_at fs k))"
    "open_reader fs p = (case node_at fs k of None \<Rightarrow> Err is_a_directory | Some n \<Rightarrow>
       (case nd_contents n of None \<Rightarrow> Err is_a_directory | Some d \<Rightarrow> Ok \<lparr>cur_data = d, cur_pos = 0\<rparr>))"
    by (auto simp: is_dir_def is_file_def read_dir_def metadata_def directory_at_def children_def open_reader_def open_file_def
        split: option.splits)
  obtain l where "k = loc @ l" "components p = components src @ l" "is_absolute p = is_absolute src"
    using p by (auto simp: path_at_def)
  then show "path_strip_prefix p src = Some (from_components False (drop (length loc) k))"
    by (simp add: path_strip_prefix_def)
qed

lemma path_string_relative: "path_string (from_components False l) = path_string l"
  by (cases l) (simp_all add: from_components_def)

text \<open>\<open>compress_path\<close> pushes the nodes of the tree, a directory before what is in it.\<close>

lemma and_then_return: "and_then r Ok = r"
  by (cases r) simp_all

definition push_node ::
    "('e, 'o) writer_env \<Rightarrow> nat \<Rightarrow> archive_entry \<times> bytes option \<Rightarrow> 'o archive_writer \<Rightarrow> 'o archive_writer result" where
  "push_node E fuel = (\<lambda>(e, contents) aw. push_archive_entry E slice_read fuel aw e contents)"

lemma compress_path_tree:
  assumes ok: "tree_ok fs"
  shows "deep fs d k \<Longrightarrow> path_at fs src loc p k \<Longrightarrow>
    compress_path E fs fuel d p src aw = for_each (\<lambda>x. push_node E fuel (tree_entry fs loc x)) (tree fs d p k) aw"
proof (induction d arbitrary: p k aw)
  case 0
  then show ?case by (auto simp: path_at_def dest: deepD)
next
  case (Suc d)
  note facts = path_at_facts [OF Suc.prems(2)]
  let ?push = "\<lambda>x. push_node E fuel (tree_entry fs loc x)"
  obtain n where n: "node_at fs k = Some n" using Suc.prems(2) by (auto simp: path_at_def)
  show ?case
  proof (cases "directory_at fs k")
    case False
    then obtain c where c: "nd_contents n = Some c" using n by (auto simp: directory_at_def)
    show ?thesis using False
      by (simp add: facts n c path_string_relative push_opened_file push_node_def tree_entry_def Let_def and_then_return)
  next
    case True
    then have c: "nd_contents n = None" using n by (simp add: directory_at_def)
    have child: "(let dir = join p [nm] in if is_dir fs dir \<or> is_file fs dir then compress_path E fs fuel d dir src aw else Ok aw)
        = for_each ?push (tree fs d (join p [nm]) (k @ [nm])) aw" if "nm \<in> set (children fs k)" for nm aw
    proof -
      have q: "path_at fs src loc (join p [nm]) (k @ [nm])"
        using path_at_child [OF ok Suc.prems(2) True] that by (simp add: children_set)
      show ?thesis using Suc.IH [OF deep_child [OF Suc.prems(1)] q] by (simp add: path_at_facts(1,2) [OF q] Let_def)
    qed
    have "for_each (\<lambda>nm aw. let dir = join p [nm] in
        if is_dir fs dir \<or> is_file fs dir then compress_path E fs fuel d dir src aw else Ok aw) (children fs k) aw
      = for_each ?push (concat (map (\<lambda>nm. tree fs d (join p [nm]) (k @ [nm])) (children fs k))) aw" for aw
      by (simp only: for_each_concat [symmetric]) (rule for_each_cong_set, rule child)
    then show ?thesis using True
      by (simp add: facts n c path_string_relative push_node_def tree_entry_def Let_def)
  qed
qed

lemma push_all_nodes: "push_all E fuel (map f xs) aw = for_each (\<lambda>x. push_node E fuel (f x)) xs aw"
  by (simp add: push_all_def push_node_def for_each_map)

lemma compress_tree:
  assumes "tree_ok fs" and src: "destination fs src loc" and "deep fs depth loc"
  shows "compress E fs fuel depth src dest =
    and_then (archive_writer_new E dest) (\<lambda>aw.
    and_then (push_all E fuel (map (tree_entry fs loc) (tree fs depth src loc)) aw) (\<lambda>aw. from_io (finish_archive E aw)))"
proof -
  note at = source_at [OF src]
  have "compress_root fs src = src"
    using path_at_facts(1) [OF at] src by (simp add: compress_root_def destination_def)
  then show ?thesis by (simp add: compress_def compress_path_tree [OF assms(1,3) at] push_all_nodes)
qed

text \<open>The files are collected in the order of the tree.\<close>

abbreviation tree_file :: "file_system \<Rightarrow> path \<times> location \<Rightarrow> bool" where
  "tree_file fs x \<equiv> \<not> directory_at fs (snd x)"

lemma for_each_collect:
  "(\<And>x s. x \<in> set xs \<Longrightarrow> f x s = Ok (s @ g x)) \<Longrightarrow> for_each f xs s = Ok (s @ concat (map g xs))"
  by (induction xs arbitrary: s) simp_all

lemma collect_tree:
  assumes ok: "tree_ok fs"
  shows "deep fs d k \<Longrightarrow> path_at fs src loc p k \<Longrightarrow>
    collect_file_paths fs (\<lambda>_. True) d p ps = Ok (ps @ map fst (filter (tree_file fs) (tree fs d p k)))"
proof (induction d arbitrary: p k ps)
  case 0
  then show ?case by (auto simp: path_at_def dest: deepD)
next
  case (Suc d)
  note facts = path_at_facts [OF Suc.prems(2)]
  show ?case
  proof (cases "directory_at fs k")
    case True
    let ?g = "\<lambda>nm. map fst (filter (tree_file fs) (tree fs d (join p [nm]) (k @ [nm])))"
    have child: "(let dir = join p [nm] in
        if is_file fs dir \<or> is_dir fs dir then collect_file_paths fs (\<lambda>_. True) d dir ps else Ok ps) = Ok (ps @ ?g nm)"
      if "nm \<in> set (children fs k)" for nm ps
    proof -
      have q: "path_at fs src loc (join p [nm]) (k @ [nm])"
        using path_at_child [OF ok Suc.prems(2) True] that by (simp add: children_set)
      show ?thesis using Suc.IH [OF deep_child [OF Suc.prems(1)] q] by (simp add: path_at_facts(1,2) [OF q] Let_def)
    qed
    then show ?thesis using True
      by (simp add: facts for_each_collect [where g = ?g, OF child] filter_concat map_concat comp_def)
  qed (simp add: facts)
qed

lemma push_file_node:
  assumes p: "path_at fs src loc p k" and f: "\<not> directory_at fs k"
  shows "push_file E fs fuel p (path_string (drop (length loc) k)) aw = push_node E fuel (tree_entry fs loc (p, k)) aw"
proof -
  obtain n c where "node_at fs k = Some n" "nd_contents n = Some c"
    using p f by (auto simp: path_at_def directory_at_def)
  then show ?thesis by (simp add: push_file_def path_at_facts(6) [OF p] push_opened_file push_node_def tree_entry_def)
qed

lemma extract_file_name_node:
  assumes "path_at fs src loc p k" and "k \<noteq> loc"
  shows "extract_file_name src p = Ok (path_string (drop (length loc) k))"
proof -
  obtain l where l: "k = loc @ l" "components p = components src @ l" "is_absolute p = is_absolute src"
    using assms(1) by (auto simp: path_at_def)
  with assms(2) have "\<not> same_path p src" by (simp add: same_path_def)
  then show ?thesis using path_at_facts(4) [OF assms(1)] by (simp add: extract_file_name_def path_string_relative)
qed

lemma push_source_path_tree:
  assumes ok: "tree_ok fs" and src: "destination fs src loc" and deep: "deep fs depth loc"
  shows "push_source_path_non_solid E fs fuel depth aw src (\<lambda>_. True) = push_all E fuel (file_entries fs depth src loc) aw"
proof -
  note at = source_at [OF src]
  let ?xs = "filter (tree_file fs) (tree fs depth src loc)"
  have "and_then (extract_file_name src (fst x)) (\<lambda>nm. push_file E fs fuel (fst x) nm aw) = push_node E fuel (tree_entry fs loc x) aw"
    if "x \<in> set ?xs" for x aw
  proof -
    have x: "path_at fs src loc (fst x) (snd x)" "\<not> directory_at fs (snd x)"
      using that tree_paths [OF ok at, of "fst x" "snd x" depth] by simp_all
    moreover have "snd x \<noteq> loc" using x(2) src by (auto simp: destination_def)
    ultimately show ?thesis using extract_file_name_node [OF x(1)] push_file_node [OF x] by simp
  qed
  then have "for_each (\<lambda>ele aw. and_then (extract_file_name src ele) (\<lambda>nm. push_file E fs fuel ele nm aw)) (map fst ?xs) aw
      = for_each (\<lambda>x. push_node E fuel (tree_entry fs loc x)) ?xs aw"
    by (simp only: for_each_map) (rule for_each_cong_set, simp)
  then show ?thesis
    by (simp add: push_source_path_non_solid_def encode_path_def collect_tree [OF ok deep at] file_entries_def push_all_nodes
        case_prod_unfold)
qed

end
