(* ===== verification/Compress_Properties.thy ===== *)
theory Compress_Properties
  imports Extract_Properties Compress_Tree
begin

text \<open>
  The properties of compression: what is pushed for a directory, and that a directory that is
  compressed and extracted is the same.
\<close>

section \<open>An example\<close>

text \<open>A disk with a directory \<open>s\<close> of one file, made before 1601, and an empty directory \<open>out\<close>.\<close>

definition demo_source :: file_system where
  "demo_source = (let old = - 20000000000000000000;
       node = (\<lambda>c. \<lparr>nd_contents = c, nd_modified = old, nd_accessed = old, nd_created = old\<rparr>) in
     \<lparr>fs_nodes = [([], node None), ([[115]], node None), ([[115], [97]], node (Some [1, 2, 3])), ([[111]], node None)],
      fs_cwd = [], fs_now = 5\<rparr>)"

lemma demo_source_facts:
  "tree_ok demo_source" "destination demo_source [[115]] [[115]]" "deep demo_source 2 [[115]]" "short_files demo_source 20"
  "destination demo_source [[111]] [[111]]" "strict_prefix [[111]] l \<Longrightarrow> node_at demo_source l = None"
  "node_at demo_source [[115], [97]] \<noteq> None"
  by (auto simp: tree_ok_def directory_at_def node_at_def demo_source_def Let_def destination_def locate_def is_absolute_def
      deep_def short_files_def strict_prefix_def)

lemma demo_tree: "tree demo_source 2 [[115]] [[115]] = [([[115]], [[115]]), ([[115], [97]], [[115], [97]])]"
  by (simp add: numeral_2_eq_2 directory_at_def node_at_def children_def demo_source_def Let_def join_def is_absolute_def)

lemma demo_file_entries: "file_entries demo_source 2 [[115]] [[115]] = demo_pushed"
  by (simp add: file_entries_def demo_tree)
    (simp add: tree_entry_def entry_from_path_def directory_at_def node_at_def demo_source_def Let_def metadata_def locate_def
      is_absolute_def is_file_def is_dir_def nt_time_exact epoch_nanos_def new_file_def)

section \<open>What is pushed\<close>

text \<open>C7: compress pushes what is in the source directory. For a source directory of a file system in
  which everything has a proper name and a parent, with fuel for its depth, \<open>compress\<close> is: make
  a writer, push one entry for each node of the tree below the source, itself with the empty
  name, and finish; no node is left out and none is pushed twice.\<close>

theorem compress_pushes_tree:
  assumes "tree_ok fs" and "destination fs src loc" and "deep fs depth loc"
  shows "compress E fs fuel depth src dest =
      and_then (archive_writer_new E dest) (\<lambda>aw.
      and_then (push_all E fuel (map (tree_entry fs loc) (tree fs depth src loc)) aw) (\<lambda>aw. from_io (finish_archive E aw)))
    \<and> distinct (map snd (tree fs depth src loc))
    \<and> snd ` set (tree fs depth src loc) = {k. node_at fs k \<noteq> None \<and> prefix loc k}"
proof (intro conjI)
  show "compress E fs fuel depth src dest =
      and_then (archive_writer_new E dest) (\<lambda>aw.
      and_then (push_all E fuel (map (tree_entry fs loc) (tree fs depth src loc)) aw) (\<lambda>aw. from_io (finish_archive E aw)))"
    by (rule compress_tree [OF assms])
  show "distinct (map snd (tree fs depth src loc))" by (rule distinct_tree [OF assms(1)])
  have at: "path_at fs src loc src loc" by (rule source_at [OF assms(2)])
  show "snd ` set (tree fs depth src loc) = {k. node_at fs k \<noteq> None \<and> prefix loc k}"
    using tree_complete [OF assms(1,3) _ home_exists [OF assms(2)]] tree_paths [OF assms(1) at] tree_prefix
    by (fastforce simp: path_at_def prefix_def)
qed

theorem compress_pushes_tree_witness:
  "snd ` set (tree demo_source 2 [[115]] [[115]]) = {k. node_at demo_source k \<noteq> None \<and> prefix [[115]] k}
     \<and> compress demo_env demo_source 20 2 [[115]] \<lparr>cur_data = [], cur_pos = 0\<rparr> =
      and_then (archive_writer_new demo_env \<lparr>cur_data = [], cur_pos = 0\<rparr>) (\<lambda>aw.
      and_then (push_all demo_env 20 (map (tree_entry demo_source [[115]]) [([[115]], [[115]]), ([[115], [97]], [[115], [97]])]) aw)
        (\<lambda>aw. from_io (finish_archive demo_env aw)))"
  using compress_pushes_tree [OF demo_source_facts(1-3), of demo_env 20 "\<lparr>cur_data = [], cur_pos = 0\<rparr>"] by (simp only: demo_tree simp_thms)

section \<open>What is extracted again\<close>

lemma path_of_part: "slash \<notin> set p \<Longrightarrow> path_of p = [p]" "slash \<notin> set p \<Longrightarrow> path_of (p @ slash # s) = p # path_of s"
  by (induction p) auto

lemma path_of_string: "l \<noteq> [] \<Longrightarrow> \<forall>c\<in>set l. slash \<notin> set c \<Longrightarrow> path_of (path_string l) = l"
  by (induction l rule: path_string.induct) (simp_all add: path_of_part)

lemma entry_from_path_fields:
  "name (entry_from_path fs p nm) = nm" "has_stream (entry_from_path fs p nm) = is_file fs p"
  "is_directory (entry_from_path fs p nm) = is_dir fs p"
  by (simp_all add: entry_from_path_def Let_def split: outcome.split)

lemma names_below:
  assumes ok: "tree_ok fs" and "node_at fs (loc @ l) \<noteq> None"
  shows "\<forall>c\<in>set l. normal c \<and> slash \<notin> set c"
  using assms(2)
proof (induction l rule: rev_induct)
  case (snoc c l)
  have c: "node_at fs ((loc @ l) @ [c]) \<noteq> None" using snoc.prems by simp
  note nm = child_name [OF ok c]
  then have "node_at fs (loc @ l) \<noteq> None" by (auto simp: directory_at_def split: option.splits)
  with snoc.IH nm show ?case by simp
qed simp

lemma node_above: "tree_ok fs \<Longrightarrow> node_at fs (loc @ l @ r) \<noteq> None \<Longrightarrow> node_at fs (loc @ l) \<noteq> None"
proof (induction r rule: rev_induct)
  case (snoc c r)
  have "directory_at fs (loc @ l @ r)" using child_name(3) [OF snoc.prems(1), of "loc @ l @ r" c] snoc.prems(2) by simp
  then show ?case using snoc.IH [OF snoc.prems(1)] by (auto simp: directory_at_def split: option.splits)
qed simp

lemma string_of_names:
  assumes "\<forall>c\<in>set l. normal c \<and> slash \<notin> set c" and "\<forall>c\<in>set m. normal c \<and> slash \<notin> set c"
    and "path_string l = path_string m"
  shows "l = m"
proof -
  have of_string: "path_of (path_string k) = (if k = [] then [[]] else k)" if "\<forall>c\<in>set k. normal c \<and> slash \<notin> set c" for k
    using path_of_string [of k] that by simp
  have eq: "(if l = [] then [[]] else l) = (if m = [] then [[]] else m)"
    using arg_cong [OF assms(3), of path_of] by (simp only: of_string [OF assms(1)] of_string [OF assms(2)])
  have "l \<noteq> [[]]" "m \<noteq> [[]]" using assms(1,2) by fastforce+
  with eq show ?thesis by (cases "l = []"; cases "m = []") simp_all
qed

text \<open>The entries of all nodes.\<close>

definition node_entries :: "file_system \<Rightarrow> nat \<Rightarrow> path \<Rightarrow> location \<Rightarrow> (archive_entry \<times> bytes option) list" where
  "node_entries fs d src loc = map (tree_entry fs loc) (tree fs d src loc)"

lemma node_entry:
  assumes ok: "tree_ok fs" and src: "destination fs src loc" and x: "x \<in> set (tree fs depth src loc)"
  obtains l n where "snd x = loc @ l" "node_at fs (loc @ l) = Some n" "snd (tree_entry fs loc x) = nd_contents n"
    "name (fst (tree_entry fs loc x)) = path_string l" "is_directory (fst (tree_entry fs loc x)) = (nd_contents n = None)"
    "\<forall>c\<in>set l. normal c \<and> slash \<notin> set c" "l = [] \<longrightarrow> root_entry (fst (tree_entry fs loc x))"
proof -
  obtain p k where k: "(p, k) \<in> set (tree fs depth src loc)" "x = (p, k)" using x by (metis surj_pair)
  note at = tree_paths [OF ok source_at [OF src] k(1)]
  obtain l where l: "k = loc @ l" using tree_prefix [OF k(1)] by (auto simp: prefix_def)
  obtain n where n: "node_at fs k = Some n" using at by (auto simp: path_at_def)
  have nms: "\<forall>c\<in>set l. normal c \<and> slash \<notin> set c" using names_below [OF ok, of loc l] n l by simp
  show ?thesis
  proof (rule that [of l n])
    show dir: "is_directory (fst (tree_entry fs loc x)) = (nd_contents n = None)"
      using path_at_facts(1) [OF at] n by (simp add: k(2) tree_entry_def entry_from_path_fields directory_at_def)
    show "l = [] \<longrightarrow> root_entry (fst (tree_entry fs loc x))"
      using dir src n by (auto simp: root_entry_def k(2) tree_entry_def l entry_from_path_fields destination_def directory_at_def)
  qed (use n l nms in \<open>simp_all add: k(2) tree_entry_def entry_from_path_fields\<close>)
qed

lemma node_entries_fit:
  assumes ok: "tree_ok fs" and src: "destination fs src loc"
  shows "entries_fit {e \<in> fst ` set (node_entries fs depth src loc). \<not> root_entry e}"
proof -
  have *: "\<exists>l n. node_at fs (loc @ l) = Some n \<and> path_of (name e) = l \<and> list_all normal l \<and> is_directory e = (nd_contents n = None)"
    if e: "e \<in> fst ` set (node_entries fs depth src loc)" "\<not> root_entry e" for e
  proof -
    obtain x where x: "x \<in> set (tree fs depth src loc)" "e = fst (tree_entry fs loc x)" using e(1) by (auto simp: node_entries_def)
    obtain l n where l: "node_at fs (loc @ l) = Some n" "name e = path_string l" "is_directory e = (nd_contents n = None)"
      "\<forall>c\<in>set l. normal c \<and> slash \<notin> set c" "l = [] \<longrightarrow> root_entry e"
      unfolding x(2) by (rule node_entry [OF ok src x(1)])
    then have "l \<noteq> []" using e(2) by blast
    then show ?thesis using l path_of_string [of l] by (auto simp: list_all_iff)
  qed
  have up: "directory_at fs (loc @ l)" if "strict_prefix l m" "node_at fs (loc @ m) \<noteq> None" for l m
    using that
  proof (induction m rule: rev_induct)
    case (snoc a m)
    have "directory_at fs (loc @ m)" using child_name(3) [OF ok, of "loc @ m" a] snoc.prems(2) by simp
    moreover have "l = m \<or> strict_prefix l m" using snoc.prems(1) by (auto simp: strict_prefix_def)
    ultimately show ?case using snoc.IH by (auto simp: directory_at_def split: option.splits)
  qed simp
  show ?thesis unfolding entries_fit_def
  proof (intro conjI ballI impI)
    fix e assume "e \<in> {e \<in> fst ` set (node_entries fs depth src loc). \<not> root_entry e}"
    then have "list_all normal (path_of (name e))" using * [of e] by (metis (mono_tags, lifting) mem_Collect_eq)
    then show "plain_name (name e)" by (simp add: plain_name_def)
  next
    fix e f assume e: "e \<in> {e \<in> fst ` set (node_entries fs depth src loc). \<not> root_entry e}"
      and f: "f \<in> {e \<in> fst ` set (node_entries fs depth src loc). \<not> root_entry e}"
      and pre: "strict_prefix (path_of (name e)) (path_of (name f))"
    obtain n where n: "node_at fs (loc @ path_of (name e)) = Some n" "is_directory e = (nd_contents n = None)"
      using * [of e] e by (metis (mono_tags, lifting) mem_Collect_eq)
    have "node_at fs (loc @ path_of (name f)) \<noteq> None"
      using * [of f] f by (metis (mono_tags, lifting) mem_Collect_eq option.distinct(1))
    then have "directory_at fs (loc @ path_of (name e))" by (rule up [OF pre])
    then show "is_directory e" unfolding directory_at_def n by simp
  qed
qed

lemma tree_names_distinct:
  assumes ok: "tree_ok fs" and src: "destination fs src loc"
  shows "distinct (map (\<lambda>x. name (fst (tree_entry fs loc x))) (filter P (tree fs depth src loc)))"
proof -
  have same: "x = y" if x: "x \<in> set (tree fs depth src loc)" and y: "y \<in> set (tree fs depth src loc)"
    and eq: "name (fst (tree_entry fs loc x)) = name (fst (tree_entry fs loc y))" for x y
  proof -
    obtain l n where l: "snd x = loc @ l" "name (fst (tree_entry fs loc x)) = path_string l" "\<forall>c\<in>set l. normal c \<and> slash \<notin> set c"
      by (rule node_entry [OF ok src x])
    obtain m n' where m: "snd y = loc @ m" "name (fst (tree_entry fs loc y)) = path_string m" "\<forall>c\<in>set m. normal c \<and> slash \<notin> set c"
      by (rule node_entry [OF ok src y])
    have "path_string l = path_string m" using eq by (simp only: l(2) m(2))
    from string_of_names [OF l(3) m(3) this] have "snd x = snd y" by (simp only: l(1) m(1))
    moreover have "inj_on snd (set (tree fs depth src loc))" using distinct_tree [OF ok, of depth src loc] by (simp only: distinct_map)
    ultimately show ?thesis using x y by (simp only: inj_on_eq_iff)
  qed
  have "inj_on (\<lambda>x. name (fst (tree_entry fs loc x))) (set (tree fs depth src loc))" by (rule inj_onI) (rule same)
  moreover have "distinct (tree fs depth src loc)" using distinct_tree [OF ok, of depth src loc] by (simp only: distinct_map)
  ultimately have "distinct (map (\<lambda>x. name (fst (tree_entry fs loc x))) (tree fs depth src loc))" by (simp only: distinct_map)
  then show ?thesis by (rule distinct_map_filter)
qed

lemma node_entries_pushable:
  assumes "tree_ok fs" and "destination fs src loc" and "short_files fs fuel"
  shows "list_all (can_be_pushed fuel) (node_entries fs depth src loc)"
proof -
  have "can_be_pushed fuel (tree_entry fs loc x)" if "x \<in> set (tree fs depth src loc)" for x
    by (rule node_entry [OF assms(1,2) that])
      (auto simp: can_be_pushed_def split_def short_filesD [OF assms(3)] split: option.splits)
  then show ?thesis by (auto simp: list_all_iff node_entries_def)
qed

text \<open>When some of the nodes are pushed, they are extracted, and nothing that was not there.\<close>

lemma pushed_nodes_extracted:
  assumes "valid_decoder D out fine" and "block_cipher (dc_cbc D)"
    and "\<And>t. methods_undone D L out fine t pw X methods ps"
    and "methods_undone D L out fine 1 pw X (header_methods encrypt methods) hps"
    and "methods_ok (memory_env L X crc32) methods ps" and "methods_ok (memory_env L X crc32) (header_methods encrypt methods) hps"
    and "list_all (codec_ok L) methods" and "list_all (codec_ok L) (header_methods encrypt methods)"
    and "length methods < fuel" and "length (header_methods encrypt methods) < fuel" and "fuel < 2 ^ 63" and "8 < fuel"
    and ok: "tree_ok fs" and src: "destination fs src loc" and "short_files fs fuel"
    and "new_writer (memory_env L X crc32) methods encrypt = Ok aw0"
    and push: "push_all (memory_env L X crc32) fuel (map (tree_entry fs loc) (filter P (tree fs depth src loc))) aw0 = Ok aw"
    and "files_ok (map plain_entry (map (tree_entry fs loc) (filter P (tree fs depth src loc))))"
    and "list_all (\<lambda>c. c \<noteq> 0) (pi_crcs (w_pack_info aw))"
    and "finish_fits L X crc32 hps (cur_pos (w_output aw) - 32) aw"
    and "destination disk dest home" and "\<forall>l. strict_prefix home l \<longrightarrow> node_at disk l = None"
  shows "\<exists>f disk'. finish_archive (memory_env L X crc32) aw = Ok f
     \<and> decompress_with_password crc32 D L B fuel parallelism f dest pw disk = Ok disk'
     \<and> (\<forall>p l n. (p, loc @ l) \<in> set (tree fs depth src loc) \<longrightarrow> P (p, loc @ l) \<longrightarrow> l \<noteq> [] \<longrightarrow> node_at fs (loc @ l) = Some n \<longrightarrow>
          (\<exists>n'. node_at disk' (home @ l) = Some n' \<and> nd_contents n' = nd_contents n))
     \<and> (\<forall>k. node_at disk' k \<noteq> node_at disk k \<longrightarrow> (\<exists>l. k = home @ l \<and> l \<noteq> [] \<and> node_at fs (loc @ l) \<noteq> None))"
proof -
  let ?pushed = "map (tree_entry fs loc) (filter P (tree fs depth src loc))"
  have sub: "set ?pushed \<subseteq> set (node_entries fs depth src loc)" by (auto simp: node_entries_def)
  have can: "list_all (can_be_pushed fuel) ?pushed"
    using node_entries_pushable [OF ok src assms(15), of depth] sub unfolding list_all_iff by blast
  have distinct: "distinct (map (\<lambda>p. name (fst p)) ?pushed)" using tree_names_distinct [OF ok src] by (simp add: comp_def)
  have fit: "entries_fit {e \<in> fst ` set ?pushed. \<not> root_entry e}"
    by (rule entries_fit_like [OF node_entries_fit [OF ok src]]) (use sub in blast)
  obtain f rd items where f: "finish_archive (memory_env L X crc32) aw = Ok f" and opens: "archive_reader_new crc32 D L fuel parallelism f pw = Ok rd"
    and rd: "reader_of X crc32 ps L aw0 ?pushed aw pw items rd" and aw0: "w_content_methods aw0 = methods"
    using written_archive_opens [OF assms(1-12,16) push can assms(18) distinct assms(19,20)] by blast
  have m: "methods \<noteq> []" "length ps = length methods" using assms(5) by (auto simp: methods_ok_def dest: list_all2_lengthD)
  obtain disk' where disk': "decompress_with_password crc32 D L B fuel parallelism f dest pw disk = Ok disk'"
    and all: "\<forall>(e, contents)\<in>set ?pushed. root_entry e \<or> (if is_directory e then directory_at disk' (home @ path_of (name e))
          else \<exists>n. node_at disk' (home @ path_of (name e)) = Some n
             \<and> nd_contents n = Some (case contents of None \<Rightarrow> [] | Some d \<Rightarrow> d))"
    and only: "\<forall>k. node_at disk' k \<noteq> node_at disk k \<longrightarrow> (\<exists>p\<in>set ?pushed. \<not> root_entry (fst p) \<and> strict_prefix home k \<and> prefix k (home @ path_of (name (fst p))))"
    using written_archive_extracted [OF assms(1,2) opens rd _ _ _ _ assms(11) can assms(21) assms(22) [rule_format] distinct fit, of B] assms(3,9) aw0 m by blast
  have "\<exists>n'. node_at disk' (home @ l) = Some n' \<and> nd_contents n' = nd_contents n"
    if p: "(p, loc @ l) \<in> set (tree fs depth src loc)" "P (p, loc @ l)" and l: "l \<noteq> []" "node_at fs (loc @ l) = Some n" for p l n
  proof -
    let ?x = "tree_entry fs loc (p, loc @ l)"
    have x: "snd ?x = nd_contents n" "path_of (name (fst ?x)) = l" "is_directory (fst ?x) = (nd_contents n = None)" "\<not> root_entry (fst ?x)"
      by (rule node_entry [OF ok src p(1)]; use l path_of_string [OF l(1)] in \<open>force simp: root_entry_def\<close>)+
    have mem: "(fst ?x, snd ?x) \<in> set ?pushed" using p by force
    show ?thesis
      using bspec [OF all mem, unfolded prod.case] x by (auto simp: directory_at_def split: option.splits if_split_asm)
  qed
  moreover have "\<exists>l. k = home @ l \<and> l \<noteq> [] \<and> node_at fs (loc @ l) \<noteq> None" if changed: "node_at disk' k \<noteq> node_at disk k" for k
  proof -
    obtain x where x: "x \<in> set (tree fs depth src loc)" "\<not> root_entry (fst (tree_entry fs loc x))"
      "strict_prefix home k" "prefix k (home @ path_of (name (fst (tree_entry fs loc x))))"
      using only changed by auto
    obtain m n where m: "node_at fs (loc @ m) = Some n" "name (fst (tree_entry fs loc x)) = path_string m" "\<forall>c\<in>set m. normal c \<and> slash \<notin> set c" "m \<noteq> []"
      by (rule node_entry [OF ok src x(1)]) (use x(2) in blast)
    obtain l where l: "k = home @ l" "l \<noteq> []" using x(3) by (auto simp: strict_prefix_def prefix_def)
    obtain r where "m = l @ r" using x(4) m(2-4) path_of_string [of m] l by (auto simp: prefix_def)
    with m(1) have "node_at fs (loc @ l @ r) \<noteq> None" by simp
    then have "node_at fs (loc @ l) \<noteq> None" by (rule node_above [OF ok])
    with l show ?thesis by blast
  qed
  ultimately show ?thesis using f disk' by blast
qed

lemma tree_has:
  "tree_ok fs \<Longrightarrow> destination fs src loc \<Longrightarrow> deep fs depth loc \<Longrightarrow> node_at fs (loc @ l) = Some n \<Longrightarrow>
   \<exists>p. (p, loc @ l) \<in> set (tree fs depth src loc)"
  using tree_complete [of fs depth loc l src] home_exists [of fs src loc] by auto

text \<open>C2: a directory that is compressed and extracted is the same. \<open>compress_path\<close> pushes a source
  directory to a new writer (\<open>compress\<close> is the case of the method LZMA2), the writer is finished,
  and the archive is extracted into an empty directory: then every file and directory below the
  source is in the destination, at the same place and with the same contents, and nothing else is
  new. The hypotheses on the codecs are those of \<open>archive_roundtrip\<close>; names can be written as
  UTF-16, and files fit the fuel.\<close>

theorem compressed_directory_is_extracted:
  assumes "valid_decoder D out fine" and "block_cipher (dc_cbc D)"
    and "\<And>t. methods_undone D L out fine t pw X methods ps"
    and "methods_undone D L out fine 1 pw X (header_methods encrypt methods) hps"
    and "methods_ok (memory_env L X crc32) methods ps" and "methods_ok (memory_env L X crc32) (header_methods encrypt methods) hps"
    and "list_all (codec_ok L) methods" and "list_all (codec_ok L) (header_methods encrypt methods)"
    and "length methods < fuel" and "length (header_methods encrypt methods) < fuel" and "fuel < 2 ^ 63" and "8 < fuel"
    and "tree_ok fs" and "destination fs src loc" and "deep fs depth loc" and "short_files fs fuel"
    and "new_writer (memory_env L X crc32) methods encrypt = Ok aw0"
    and "compress_path (memory_env L X crc32) fs fuel depth src (compress_root fs src) aw0 = Ok aw"
    and "files_ok (map plain_entry (map (tree_entry fs loc) (tree fs depth src loc)))"
    and "list_all (\<lambda>c. c \<noteq> 0) (pi_crcs (w_pack_info aw))"
    and "finish_fits L X crc32 hps (cur_pos (w_output aw) - 32) aw"
    and "destination disk dest home" and "\<And>l. strict_prefix home l \<Longrightarrow> node_at disk l = None"
  shows "\<exists>f disk'. finish_archive (memory_env L X crc32) aw = Ok f
     \<and> decompress_with_password crc32 D L B fuel parallelism f dest pw disk = Ok disk'
     \<and> (\<forall>l n. l \<noteq> [] \<longrightarrow> node_at fs (loc @ l) = Some n \<longrightarrow>
          (\<exists>n'. node_at disk' (home @ l) = Some n' \<and> nd_contents n' = nd_contents n))
     \<and> (\<forall>k. node_at disk' k \<noteq> node_at disk k \<longrightarrow> (\<exists>l. k = home @ l \<and> l \<noteq> [] \<and> node_at fs (loc @ l) \<noteq> None))"
proof -
  have empty: "\<forall>l. strict_prefix home l \<longrightarrow> node_at disk l = None" using assms(23) by blast
  have every: "filter (\<lambda>_. True) xs = xs" for xs :: "(path \<times> location) list" by simp
  have root: "compress_root fs src = src"
    using path_at_facts(1) [OF source_at [OF assms(14)]] assms(14) by (simp add: compress_root_def destination_def)
  have push: "push_all (memory_env L X crc32) fuel (map (tree_entry fs loc) (filter (\<lambda>_. True) (tree fs depth src loc))) aw0 = Ok aw"
    using assms(18) by (simp only: root compress_path_tree [OF assms(13,15) source_at [OF assms(14)]] push_all_nodes every)
  have files: "files_ok (map plain_entry (map (tree_entry fs loc) (filter (\<lambda>_. True) (tree fs depth src loc))))" using assms(19) by (simp only: every)
  obtain f disk' where f: "finish_archive (memory_env L X crc32) aw = Ok f"
    "decompress_with_password crc32 D L B fuel parallelism f dest pw disk = Ok disk'"
    and all: "\<forall>p l n. (p, loc @ l) \<in> set (tree fs depth src loc) \<longrightarrow> True \<longrightarrow> l \<noteq> [] \<longrightarrow> node_at fs (loc @ l) = Some n \<longrightarrow>
          (\<exists>n'. node_at disk' (home @ l) = Some n' \<and> nd_contents n' = nd_contents n)"
    and only: "\<forall>k. node_at disk' k \<noteq> node_at disk k \<longrightarrow> (\<exists>l. k = home @ l \<and> l \<noteq> [] \<and> node_at fs (loc @ l) \<noteq> None)"
    using pushed_nodes_extracted [OF assms(1-14,16,17) push files assms(20-22) empty, of B parallelism] by (elim exE conjE) (rule that; assumption)
  have "\<forall>l n. l \<noteq> [] \<longrightarrow> node_at fs (loc @ l) = Some n \<longrightarrow> (\<exists>n'. node_at disk' (home @ l) = Some n' \<and> nd_contents n' = nd_contents n)"
    using all tree_has [OF assms(13-15)] by blast
  with f only show ?thesis by blast
qed

text \<open>The same source: its directory is pushed before the file.\<close>

abbreviation demo_tree_pushed :: "(archive_entry \<times> bytes option) list" where
  "demo_tree_pushed \<equiv> (new_directory [], None) # demo_pushed"

lemma demo_tree_entries: "map (tree_entry demo_source [[115]]) (tree demo_source 2 [[115]] [[115]]) = demo_tree_pushed"
  by (simp add: demo_tree)
    (simp add: tree_entry_def entry_from_path_def directory_at_def node_at_def demo_source_def Let_def metadata_def locate_def
      is_absolute_def is_file_def is_dir_def nt_time_exact epoch_nanos_def new_file_def new_directory_def entry_default_def)

definition demo_tree_written :: "bytes \<Rightarrow> cursor archive_writer" where
  "demo_tree_written c = (demo_written [97] c)\<lparr>w_files := new_directory [] # w_files (demo_written [97] c)\<rparr>"

lemma demo_bits: "length (write_bit_set (snd (bs_insert (bs_with_capacity 2) 0))) = 1" "length (write_bit_set (snd (bs_insert bs_new 0))) = 1"
  by code_simp+

lemma demo_tree_header_length: "length (write_header demo_libs (demo_tree_written [2, 1, 3])) < 100"
  by (simp add: write_header_def demo_tree_written_def demo_written_def write_streams_info_def write_pack_info_def write_unpack_info_def write_block_def
     write_substreams_def add_stream_def unpack_add_def pack_info_default_def length_le_bytes demo_codec_bytes demo_crc_def crcs_of_block_def
     write_files_info_def write_file_empty_streams_def write_file_empty_files_def write_file_anti_items_def write_file_names_def
     write_file_ctimes_def write_file_atimes_def write_file_mtimes_def write_file_windows_attrs_def write_times_def new_file_def new_directory_def
     entry_default_def length_write_sized encode_utf16_def encode_char_def write_u64_small numeral_2_eq_2 [symmetric] demo_bits)

lemma push_after:
  "push_archive_entry E read fuel aw e (Some r) = Ok aw' \<Longrightarrow>
   push_archive_entry E read fuel (aw\<lparr>w_files := fs @ w_files aw\<rparr>) e (Some r) = Ok (aw'\<lparr>w_files := fs @ w_files aw'\<rparr>)"
  by (auto simp: push_archive_entry_def add_empty_def add_streamed_def Let_def and_then_Ok_iff split: if_split_asm)

lemma demo_tree_archive:
  "\<exists>aw0 aw. new_writer demo_env [stored, swapped] False = Ok aw0 \<and> push_all demo_env 20 demo_tree_pushed aw0 = Ok aw
     \<and> list_all (\<lambda>c. c \<noteq> 0) (pi_crcs (w_pack_info aw)) \<and> files_ok (map plain_entry demo_tree_pushed)
     \<and> finish_fits demo_libs demo_codecs demo_crc [((=), Lzma_encoder (Some ()))] (cur_pos (w_output aw) - 32) aw
     \<and> list_all (codec_ok demo_libs) [stored, swapped] \<and> list_all (codec_ok demo_libs) (header_methods False [stored, swapped])
     \<and> length (header_methods False [stored, swapped]) < 20"
proof -
  obtain aw0 aw1 where aw1: "new_writer demo_env [stored, swapped] False = Ok aw0" "push_all demo_env 20 demo_pushed aw0 = Ok aw1"
    "cur_pos (w_output aw1) = 35" "aw1\<lparr>w_output := w_output (demo_written [97] [2, 1, 3])\<rparr> = demo_written [97] [2, 1, 3]"
    using demo_push by blast
  obtain codecs: "list_all (codec_ok demo_libs) [stored, swapped]" "list_all (codec_ok demo_libs) (header_methods False [stored, swapped])"
      "length (header_methods False [stored, swapped]) < 20"
    using demo_archive [OF demo_names(1)] by blast
  let ?aw = "aw1\<lparr>w_files := [new_directory []] @ w_files aw1\<rparr>"
  have files0: "w_files aw0 = []" using aw1(1) demo_writer_new
    by (auto simp: new_writer_def and_then_Ok_iff set_encrypt_header_def demo_writer_def)
  have "push_archive_entry demo_env slice_read 20 aw0 (new_file [97]) (Some [1, 2, 3]) = Ok aw1"
    using aw1(2) by (simp add: push_all_def and_then_return)
  from push_after [OF this, of "[new_directory []]"]
  have push: "push_all demo_env 20 demo_tree_pushed aw0 = Ok ?aw"
    by (simp add: push_all_def push_archive_entry_def [where reader = None] add_empty_def files0 new_directory_def entry_default_def and_then_return)
  have "?aw\<lparr>w_output := w_output (demo_written [97] [2, 1, 3])\<rparr>
      = (aw1\<lparr>w_output := w_output (demo_written [97] [2, 1, 3])\<rparr>)\<lparr>w_files := [new_directory []] @ w_files (aw1\<lparr>w_output := w_output (demo_written [97] [2, 1, 3])\<rparr>)\<rparr>"
    by (cases aw1) simp
  then have written: "?aw\<lparr>w_output := w_output (demo_written [97] [2, 1, 3])\<rparr> = demo_tree_written [2, 1, 3]"
    by (simp only: aw1(4) demo_tree_written_def append_Cons append_Nil)
  define aw where "aw = ?aw"
  note written = written [folded aw_def] and push = push [folded aw_def]
  have R: "length (write_header demo_libs aw) < 100"
    using demo_tree_header_length write_header_output [where L = demo_libs and aw = aw and x = "w_output (demo_written [97] [2, 1, 3])"]
    by (simp only: written)
  have crcs: "list_all (\<lambda>c. c \<noteq> 0) (pi_crcs (w_pack_info aw))" and enc: "w_encrypt_header aw = False"
    using arg_cong [OF aw1(4), of w_pack_info] arg_cong [OF aw1(4), of w_encrypt_header]
    by (simp_all add: aw_def demo_written_def add_stream_def pack_info_default_def demo_crc_def)
  have pos: "cur_pos (w_output aw) = 35" using aw1(3) by (simp add: aw_def)
  have fits: "finish_fits demo_libs demo_codecs demo_crc [((=), Lzma_encoder (Some ()))] (cur_pos (w_output aw) - 32) aw"
    using R demo_encoded_length [of "write_header demo_libs aw" "write_header demo_libs aw" "w_content_methods aw" 3 aw]
    by (auto simp: finish_fits_def header_parts_def Let_def enc encoder_code_def pos)
  have files: "files_ok (map plain_entry demo_tree_pushed)"
    by (simp add: files_ok_def plain_entry_def name_ok_def names_bytes_def covered_def empties_def new_file_def new_directory_def entry_default_def
        valid_string_def is_scalar_def length_encode_name encode_utf16_def encode_char_def)
  show ?thesis by (intro exI [of _ aw0] exI [of _ aw] conjI) (fact aw1(1) push crcs files fits codecs)+
qed

theorem compressed_directory_is_extracted_witness:
  "\<exists>aw f disk n. and_then (new_writer demo_env [stored, swapped] False)
       (compress_path demo_env demo_source 20 2 [[115]] (compress_root demo_source [[115]])) = Ok aw
     \<and> finish_archive demo_env aw = Ok f
     \<and> decompress_with_password demo_crc demo_decoders demo_libs demo_bcj2 20 None f [[111]] [] demo_source = Ok disk
     \<and> node_at disk ([[111]] @ [[97]]) = Some n \<and> nd_contents n = Some [1, 2, 3]"
proof -
  obtain aw0 aw where aw: "new_writer demo_env [stored, swapped] False = Ok aw0" "push_all demo_env 20 demo_tree_pushed aw0 = Ok aw"
    and fit: "list_all (\<lambda>c. c \<noteq> 0) (pi_crcs (w_pack_info aw))" "files_ok (map plain_entry demo_tree_pushed)"
      "finish_fits demo_libs demo_codecs demo_crc [((=), Lzma_encoder (Some ()))] (cur_pos (w_output aw) - 32) aw"
      "list_all (codec_ok demo_libs) [stored, swapped]" "list_all (codec_ok demo_libs) (header_methods False [stored, swapped])"
      "length (header_methods False [stored, swapped]) < 20"
    using demo_tree_archive by (elim exE conjE) (rule that; assumption)
  have at: "path_at demo_source [[115]] [[115]] [[115]] [[115]]" by (rule source_at [OF demo_source_facts(2)])
  have root: "compress_root demo_source [[115]] = [[115]]"
    using path_at_facts(1) [OF at] demo_source_facts(2) by (simp add: compress_root_def destination_def)
  have "push_all demo_env 20 (map (tree_entry demo_source [[115]]) (tree demo_source 2 [[115]] [[115]])) aw0 = Ok aw"
    using aw(2) by (simp only: demo_tree_entries)
  then have push: "compress_path demo_env demo_source 20 2 [[115]] (compress_root demo_source [[115]]) aw0 = Ok aw"
    by (simp only: root compress_path_tree [OF demo_source_facts(1,3) at] push_all_nodes)
  have files: "files_ok (map plain_entry (map (tree_entry demo_source [[115]]) (tree demo_source 2 [[115]] [[115]])))"
    using fit(2) by (simp only: demo_tree_entries)
  obtain n where n: "node_at demo_source ([[115]] @ [[97]]) = Some n" "nd_contents n = Some [1, 2, 3]"
    by (simp add: demo_source_def node_at_def Let_def)
  from compressed_directory_is_extracted [where parallelism = None and B = demo_bcj2, OF demo_valid_decoder demo_cipher demo_swapped_undone' demo_lzma_undone demo_methods_ok demo_header_methods_ok
      fit(4,5) _ fit(6) _ _ demo_source_facts(1-4) aw(1) push files fit(1,3) demo_source_facts(5,6), where pw = "[]"]
  obtain f disk where "finish_archive demo_env aw = Ok f"
    "decompress_with_password demo_crc demo_decoders demo_libs demo_bcj2 20 None f [[111]] [] demo_source = Ok disk"
    and all: "\<forall>l n. l \<noteq> [] \<longrightarrow> node_at demo_source ([[115]] @ l) = Some n \<longrightarrow>
          (\<exists>n'. node_at disk ([[111]] @ l) = Some n' \<and> nd_contents n' = nd_contents n)" by auto
  moreover obtain n' where "node_at disk ([[111]] @ [[97]]) = Some n'" "nd_contents n' = Some [1, 2, 3]"
    using all n by (metis not_Cons_self2)
  moreover have "and_then (new_writer demo_env [stored, swapped] False)
       (compress_path demo_env demo_source 20 2 [[115]] (compress_root demo_source [[115]])) = Ok aw" using aw(1) push by simp
  ultimately show ?thesis by blast
qed

text \<open>C3: the same of \<open>push_source_path_non_solid\<close>, which pushes files only: every file below the source
  is extracted at its place with its contents, and what is new in the destination has a node of
  the source.\<close>

theorem pushed_directory_is_extracted:
  assumes "valid_decoder D out fine" and "block_cipher (dc_cbc D)"
    and "\<And>t. methods_undone D L out fine t pw X methods ps"
    and "methods_undone D L out fine 1 pw X (header_methods encrypt methods) hps"
    and "methods_ok (memory_env L X crc32) methods ps" and "methods_ok (memory_env L X crc32) (header_methods encrypt methods) hps"
    and "list_all (codec_ok L) methods" and "list_all (codec_ok L) (header_methods encrypt methods)"
    and "length methods < fuel" and "length (header_methods encrypt methods) < fuel" and "fuel < 2 ^ 63" and "8 < fuel"
    and "tree_ok fs" and "destination fs src loc" and "deep fs depth loc" and "short_files fs fuel"
    and "new_writer (memory_env L X crc32) methods encrypt = Ok aw0"
    and "push_source_path_non_solid (memory_env L X crc32) fs fuel depth aw0 src (\<lambda>_. True) = Ok aw"
    and "files_ok (map plain_entry (file_entries fs depth src loc))"
    and "list_all (\<lambda>c. c \<noteq> 0) (pi_crcs (w_pack_info aw))"
    and "finish_fits L X crc32 hps (cur_pos (w_output aw) - 32) aw"
    and "destination disk dest home" and "\<And>l. strict_prefix home l \<Longrightarrow> node_at disk l = None"
  shows "\<exists>f disk'. finish_archive (memory_env L X crc32) aw = Ok f
     \<and> decompress_with_password crc32 D L B fuel parallelism f dest pw disk = Ok disk'
     \<and> (\<forall>l n c. node_at fs (loc @ l) = Some n \<longrightarrow> nd_contents n = Some c \<longrightarrow>
          (\<exists>n'. node_at disk' (home @ l) = Some n' \<and> nd_contents n' = Some c))
     \<and> (\<forall>k. node_at disk' k \<noteq> node_at disk k \<longrightarrow> (\<exists>l. k = home @ l \<and> l \<noteq> [] \<and> node_at fs (loc @ l) \<noteq> None))"
proof -
  let ?P = "\<lambda>(p, k). \<not> directory_at fs k"
  have empty: "\<forall>l. strict_prefix home l \<longrightarrow> node_at disk l = None" using assms(23) by blast
  have push: "push_all (memory_env L X crc32) fuel (map (tree_entry fs loc) (filter ?P (tree fs depth src loc))) aw0 = Ok aw"
    using assms(18) by (simp only: push_source_path_tree [OF assms(13-15)] file_entries_def)
  note files = assms(19) [unfolded file_entries_def]
  obtain f disk' where f: "finish_archive (memory_env L X crc32) aw = Ok f"
    "decompress_with_password crc32 D L B fuel parallelism f dest pw disk = Ok disk'"
    and all: "\<forall>p l n. (p, loc @ l) \<in> set (tree fs depth src loc) \<longrightarrow> ?P (p, loc @ l) \<longrightarrow> l \<noteq> [] \<longrightarrow> node_at fs (loc @ l) = Some n \<longrightarrow>
          (\<exists>n'. node_at disk' (home @ l) = Some n' \<and> nd_contents n' = nd_contents n)"
    and only: "\<forall>k. node_at disk' k \<noteq> node_at disk k \<longrightarrow> (\<exists>l. k = home @ l \<and> l \<noteq> [] \<and> node_at fs (loc @ l) \<noteq> None)"
    using pushed_nodes_extracted [OF assms(1-14,16,17) push files assms(20-22) empty, of B parallelism] by (elim exE conjE) (rule that; assumption)
  have "\<exists>n'. node_at disk' (home @ l) = Some n' \<and> nd_contents n' = Some c"
    if l: "node_at fs (loc @ l) = Some n" "nd_contents n = Some c" for l n c
  proof -
    have k: "\<not> directory_at fs (loc @ l)" using l by (simp add: directory_at_def)
    then have "l \<noteq> []" using assms(14) by (auto simp: destination_def)
    moreover obtain p where "(p, loc @ l) \<in> set (tree fs depth src loc)" using tree_has [OF assms(13-15) l(1)] by blast
    ultimately show ?thesis using all k l by fastforce
  qed
  with f only show ?thesis by blast
qed

theorem pushed_directory_is_extracted_witness:
  "\<exists>aw f disk n. and_then (new_writer demo_env [stored, swapped] False)
       (\<lambda>aw. push_source_path_non_solid demo_env demo_source 20 2 aw [[115]] (\<lambda>_. True)) = Ok aw
     \<and> finish_archive demo_env aw = Ok f
     \<and> decompress_with_password demo_crc demo_decoders demo_libs demo_bcj2 20 None f [[111]] [] demo_source = Ok disk
     \<and> node_at disk ([[111]] @ [[97]]) = Some n \<and> nd_contents n = Some [1, 2, 3]"
proof -
  obtain aw0 aw where aw: "new_writer demo_env [stored, swapped] False = Ok aw0" "push_all demo_env 20 demo_pushed aw0 = Ok aw"
    and fit: "list_all (\<lambda>c. c \<noteq> 0) (pi_crcs (w_pack_info aw))" "files_ok (map plain_entry demo_pushed)"
      "finish_fits demo_libs demo_codecs demo_crc [((=), Lzma_encoder (Some ()))] (cur_pos (w_output aw) - 32) aw"
      "list_all (codec_ok demo_libs) [stored, swapped]" "list_all (codec_ok demo_libs) (header_methods False [stored, swapped])"
      "length (header_methods False [stored, swapped]) < 20" "list_all (can_be_pushed 20) demo_pushed"
    using demo_archive [OF demo_names(1)] by (elim exE conjE) (rule that; assumption)
  have push: "push_source_path_non_solid demo_env demo_source 20 2 aw0 [[115]] (\<lambda>_. True) = Ok aw"
    by (simp only: push_source_path_tree [OF demo_source_facts(1-3)] demo_file_entries aw(2))
  have files: "files_ok (map plain_entry (file_entries demo_source 2 [[115]] [[115]]))" using fit(2) by (simp only: demo_file_entries)
  obtain n where n: "node_at demo_source ([[115]] @ [[97]]) = Some n" "nd_contents n = Some [1, 2, 3]"
    by (simp add: demo_source_def node_at_def Let_def)
  from pushed_directory_is_extracted [where parallelism = None and B = demo_bcj2, OF demo_valid_decoder demo_cipher demo_swapped_undone' demo_lzma_undone demo_methods_ok demo_header_methods_ok
      fit(4,5) _ fit(6) _ _ demo_source_facts(1-4) aw(1) push files fit(1,3) demo_source_facts(5,6), where pw = "[]"]
  obtain f disk where "finish_archive demo_env aw = Ok f"
    "decompress_with_password demo_crc demo_decoders demo_libs demo_bcj2 20 None f [[111]] [] demo_source = Ok disk"
    and all: "\<forall>l n c. node_at demo_source ([[115]] @ l) = Some n \<longrightarrow> nd_contents n = Some c \<longrightarrow>
          (\<exists>n'. node_at disk ([[111]] @ l) = Some n' \<and> nd_contents n' = Some c)" by auto
  moreover obtain n' where "node_at disk ([[111]] @ [[97]]) = Some n'" "nd_contents n' = Some [1, 2, 3]" using all n by blast
  moreover have "and_then (new_writer demo_env [stored, swapped] False)
       (\<lambda>aw. push_source_path_non_solid demo_env demo_source 20 2 aw [[115]] (\<lambda>_. True)) = Ok aw" using aw(1) push by simp
  ultimately show ?thesis by blast
qed

end
