(* ===== verification/Pack_Crcs.thy ===== *)
theory Pack_Crcs
  imports Header_Roundtrip
begin

text \<open>
  What the reader makes of a pack info section in which some CRCs of the packed streams are 0 and
  others are not: \<open>write_to\<close> says then which CRCs are known, but does not write them.
\<close>

text \<open>The values go to the places of the CRCs that are not 0.\<close>

fun at_known :: "'b \<Rightarrow> (u32 \<Rightarrow> 'b) \<Rightarrow> u32 list \<Rightarrow> u32 list \<Rightarrow> 'b list" where
  "at_known z f [] vs = []"
| "at_known z f (c # cs) vs = (if c = 0 then z # at_known z f cs vs else f (hd vs) # at_known z f cs (tl vs))"

abbreviation known_crcs :: "u32 list \<Rightarrow> nat" where
  "known_crcs cs \<equiv> length (filter (\<lambda>c. c \<noteq> 0) cs)"

lemma length_at_known [simp]: "length (at_known z f cs vs) = length cs"
  by (induction cs arbitrary: vs) simp_all

lemma concat_at_known:
  "length vs = known_crcs cs \<Longrightarrow> concat (at_known [] f cs vs) = concat (map f vs)"
proof (induction cs arbitrary: vs)
  case (Cons c cs)
  then show ?case by (cases vs) (auto split: if_splits)
qed simp

lemma at_known_nth:
  "length vs = known_crcs cs \<Longrightarrow> k < length cs \<Longrightarrow>
   at_known z f cs vs ! k = (if cs ! k = 0 then z else f (vs ! known_crcs (take k cs)))"
proof (induction cs arbitrary: vs k)
  case (Cons c cs)
  then show ?case by (cases k; cases vs) (auto split: if_splits)
qed simp

lemma parses_at_known:
  assumes "length vs = known_crcs cs" and "n = length cs"
  shows "parses (read_defined_crcs (flag_set (\<lambda>c. c \<noteq> 0) cs) n) (concat (map write_u32_le vs)) (at_known 0 ucast cs vs)"
proof -
  have "parses (read_enumerate
       (\<lambda>i x. if bs_contains (flag_set (\<lambda>c. c \<noteq> 0) cs) i then and_read (lift_io read_u32) (\<lambda>c. ret (ucast c)) else ret x)
       0 (replicate n 0)) (concat (at_known [] write_u32_le cs vs)) (at_known 0 ucast cs vs)"
    using assms(2) by (intro parses_read_enumerate)
      (auto simp: at_known_nth [OF assms(1)] intro!: parses_ret parses_and_read_eq [OF parses_lift_io [OF parses_read_u32] parses_ret])
  then show ?thesis by (simp add: read_defined_crcs_def concat_at_known [OF assms(1)])
qed

lemma words_of_bytes: "4 * m \<le> length bs \<Longrightarrow> \<exists>vs. length vs = m \<and> concat (map write_u32_le vs) = take (4 * m) bs"
proof (induction m arbitrary: bs)
  case (Suc m)
  have "4 * m \<le> length (drop 4 bs)" using Suc.prems by simp
  from Suc.IH [OF this] obtain vs where vs: "length vs = m" "concat (map write_u32_le vs) = take (4 * m) (drop 4 bs)" by blast
  have "write_u32_le (from_le_bytes (take 4 bs)) = take 4 bs"
    unfolding write_u32_le_def by (rule to_le_from_le) (use Suc.prems in simp_all)
  moreover have "take (4 * Suc m) bs = take 4 bs @ take (4 * m) (drop 4 bs)"
    by (simp add: take_add)
  ultimately show ?case using vs by (intro exI [of _ "from_le_bytes (take 4 bs) # vs"]) simp
qed simp

lemma mixed_pack_info_run:
  assumes n: "length (pi_crcs p) = length (pi_sizes p)" "length (pi_sizes p) < 2 ^ 64"
    and mixed: "\<not> list_all (\<lambda>c. c \<noteq> 0) (pi_crcs p)"
    and bytes: "k_end # following = concat (map write_u32_le vs) @ x # rest" "length vs = known_crcs (pi_crcs p)"
  shows "read_pack_info a (cursor_at pre (tl (write_pack_info p) @ following))
    = (if x = k_end
       then Ok (a\<lparr>pack_pos := pi_pos p, pack_sizes := pi_sizes p,
           pack_crcs_defined := flag_set (\<lambda>c. c \<noteq> 0) (pi_crcs p), pack_crcs := at_known 0 ucast (pi_crcs p) vs\<rparr>,
         cursor_at (pre @ butlast (tl (write_pack_info p)) @ concat (map write_u32_le vs) @ [x]) rest)
       else Err (BadTerminatedPackInfo x))"
proof -
  define W where "W = write_u64 (pi_pos p) @ write_u64 (of_nat (length (pi_sizes p)))
     @ k_size # concat (map write_u64 (pi_sizes p)) @ k_crc # flag_bytes (\<lambda>c. c \<noteq> 0) (pi_crcs p)"
  have W: "tl (write_pack_info p) = W @ [k_end]" using mixed by (simp only: write_pack_info_eq W_def) simp
  have "read_pack_info a (cursor_at pre (W @ concat (map write_u32_le vs) @ x # rest))
    = (if x = k_end
       then Ok (a\<lparr>pack_pos := pi_pos p, pack_sizes := pi_sizes p,
           pack_crcs_defined := flag_set (\<lambda>c. c \<noteq> 0) (pi_crcs p), pack_crcs := at_known 0 ucast (pi_crcs p) vs\<rparr>,
         cursor_at (pre @ W @ concat (map write_u32_le vs) @ [x]) rest)
       else Err (BadTerminatedPackInfo x))"
    using n by (simp add: W_def read_pack_info_def run_parser Let_def and_read_assoc
        and_read_run [OF parses_at_known [OF bytes(2)]] fail_def)
  then show ?thesis unfolding W by (simp add: bytes(1))
qed

text \<open>C16: when some but not all CRCs of the packed streams are 0, \<open>write_to\<close> of the pack info
  writes which CRCs are known but not their values. Whatever bytes follow the section, if they are
  as many as the missing values, the reader takes the mark of the end of the section and
  these bytes for the CRCs, and the byte behind them for the end of the section: it goes on there if
  that byte happens to be 0, and fails otherwise.\<close>

theorem mixed_pack_crcs_are_misread:
  assumes "length (pi_crcs p) = length (pi_sizes p)" and "length (pi_sizes p) < 2 ^ 64"
    and "m = length (filter (\<lambda>c. c \<noteq> 0) (pi_crcs p))" and "0 < m" and "m < length (pi_crcs p)"
    and "4 * m \<le> length following"
  shows "\<exists>vs b. length vs = m \<and> concat (map write_u32_le vs) = k_end # take (4 * m - 1) following
     \<and> pack_crcs b = at_known 0 ucast (pi_crcs p) vs
     \<and> read_pack_info a (cursor_at pre (tl (write_pack_info p) @ following))
       = (if following ! (4 * m - 1) = k_end
          then Ok (b, cursor_at (pre @ tl (write_pack_info p) @ take (4 * m) following) (drop (4 * m) following))
          else Err (BadTerminatedPackInfo (following ! (4 * m - 1))))"
proof -
  let ?all = "k_end # following" and ?x = "following ! (4 * m - 1)"
  have mixed: "\<not> list_all (\<lambda>c. c \<noteq> 0) (pi_crcs p)"
  proof
    assume "list_all (\<lambda>c. c \<noteq> 0) (pi_crcs p)"
    then have "filter (\<lambda>c. c \<noteq> 0) (pi_crcs p) = pi_crcs p" by (intro filter_True) (simp add: list_all_iff)
    with assms(3,5) show False by simp
  qed
  obtain vs where vs: "length vs = m" "concat (map write_u32_le vs) = take (4 * m) ?all"
    using words_of_bytes [of m ?all] assms(6) by auto
  have take: "take (4 * m) ?all = k_end # take (4 * m - 1) following" using assms(4) by (cases "4 * m") simp_all
  have x: "take (4 * m) following = take (4 * m - 1) following @ [?x]"
    using take_Suc_conv_app_nth [of "4 * m - 1" following] assms(4,6) by simp
  then have split: "?all = concat (map write_u32_le vs) @ ?x # drop (4 * m) following"
    unfolding vs(2) take by (metis append.assoc append_Cons append_Nil append_take_drop_id)
  note run = mixed_pack_info_run [OF assms(1,2) mixed split vs(1) [unfolded assms(3)], of a pre]
  have pos: "butlast (tl (write_pack_info p)) @ concat (map write_u32_le vs) @ [?x] = tl (write_pack_info p) @ take (4 * m) following"
    using mixed unfolding x vs(2) take by (simp add: write_pack_info_eq butlast_append)
  show ?thesis using run [unfolded pos] vs(1) vs(2) [unfolded take]
    by (intro exI [of _ vs] exI [of _ "a\<lparr>pack_pos := pi_pos p, pack_sizes := pi_sizes p,
           pack_crcs_defined := flag_set (\<lambda>c. c \<noteq> 0) (pi_crcs p), pack_crcs := at_known 0 ucast (pi_crcs p) vs\<rparr>"]) simp
qed

theorem mixed_pack_crcs_are_misread_witness:
  "\<exists>vs b. concat (map write_u32_le vs) = [0, 7, 11, 1] \<and> pack_crcs b = at_known 0 ucast [7, 0] vs
     \<and> read_pack_info archive_default
        (cursor_at [] (tl (write_pack_info (add_stream (add_stream pack_info_default 10 7) 20 0)) @ [7, 11, 1, 0, 5]))
       = Ok (b, cursor_at (tl (write_pack_info (add_stream (add_stream pack_info_default 10 7) 20 0)) @ [7, 11, 1, 0]) [5])"
proof -
  let ?p = "add_stream (add_stream pack_info_default 10 7) 20 0"
  have p: "pi_crcs ?p = [7, 0]" "pi_sizes ?p = [10, 20]" by (simp_all add: add_stream_def pack_info_default_def)
  obtain vs b where "concat (map write_u32_le vs) = [0, 7, 11, 1]" "pack_crcs b = at_known 0 ucast [7, 0] vs"
    "read_pack_info archive_default (cursor_at [] (tl (write_pack_info ?p) @ [7, 11, 1, 0, 5]))
       = Ok (b, cursor_at ([] @ tl (write_pack_info ?p) @ [7, 11, 1, 0]) [5])"
    using mixed_pack_crcs_are_misread [of ?p 1 "[7, 11, 1, 0, 5]" archive_default "[]"] by (auto simp: p)
  then show ?thesis by auto
qed

end
