(* ===== verification/Spec2Isabelle.thy ===== *)
theory Spec2Isabelle
  imports Writer_Properties Lifecycle_Properties Volume_Properties Streaming_Properties Perf_Properties Background_Reader
    Compress_Properties Pack_Crcs
begin

text \<open>
  A model of \<^verbatim>\<open>sevenz-rust2\<close>, a reader and writer of 7z archives in Rust, and the properties
  that make it correct. File names are those of the repository, under \<^verbatim>\<open>src/src\<close>.

  \<^bold>\<open>The program.\<close> An \<open>ArchiveWriter\<close> (\<^verbatim>\<open>writer.rs\<close>) takes entries one by one or many for one solid
  block, sends their contents through a stack of encoders (\<^verbatim>\<open>encoder.rs\<close>, \<^verbatim>\<open>codec/\<close>,
  \<^verbatim>\<open>encryption/\<close>) to its output behind 32 free bytes, and notes sizes and CRCs in its tables
  (\<^verbatim>\<open>writer/pack_info.rs\<close>, \<^verbatim>\<open>writer/unpack_info.rs\<close>). \<open>finish\<close> writes the header made of the tables,
  compressed when that is shorter and encrypted when asked for, and then the start header. An
  \<open>Archive\<close> is read (\<^verbatim>\<open>reader.rs\<close>) from the start header, the perhaps encoded header, and a map
  from files to blocks; an \<open>ArchiveReader\<close> builds the decoders of a block (\<^verbatim>\<open>decoder.rs\<close>) and gives
  every file its part of what they deliver.

  \<^bold>\<open>Conventions.\<close> Machine integers are words and wrap (release profile, 64 bits), \<open>usize\<close> is a
  natural number below \<open>2 ^ 64\<close>. A function that can fail returns an \<open>outcome\<close>: \<open>Ok\<close>, an \<open>Err\<close> with
  the program's error, \<open>Panic\<close>, or \<open>OutOfFuel\<close> when a loop did not end within its fuel. State is passed
  and returned. A reader or writer is its state with its functions, and the contract of the trait is
  a locale: \<open>byte_source\<close> and \<open>block_source\<close> of \<open>Read\<close>, \<open>byte_file\<close> of \<open>Read + Seek\<close>, \<open>byte_sink\<close>
  and \<open>finishing_sink\<close> of \<open>Write\<close>, \<open>stream_provider\<close> and \<open>solid_source\<close> of the providers of streams,
  \<open>copying\<close> of a reader with a writer, \<open>index_set\<close> of \<open>BitSet\<close>, \<open>visitor\<close> of the closures that are
  called for the entries of an archive. All are interpreted on the model.
  Code of other crates is a parameter: \<open>libs\<close> (constants), \<open>codecs\<close> (compressors, block cipher,
  SHA-256), \<open>decoder_libs\<close> and \<open>bcj2_lib\<close> (decoders, which ask for input and answer), and the CRC.

  \<^bold>\<open>Theories and sources.\<close>
  \<^item> \<open>Rust_Base\<close>, \<open>Byte_Cursor\<close>: \<^verbatim>\<open>error.rs\<close>, the readers and writers of \<^verbatim>\<open>lib.rs\<close>; parsers and
    the rules \<open>parse_intros\<close> that compose "the parser recovers what was printed".
  \<^item> \<open>Var_Int\<close>, \<open>Bit_Set\<close>, \<open>Utf16\<close>: \<open>write_u64\<close> and \<open>read_variable_u64\<close>, \<^verbatim>\<open>bitset.rs\<close>, names and
    passwords.
  \<^item> \<open>Archive_Model\<close>, \<open>Encoder_Options\<close>: \<^verbatim>\<open>archive.rs\<close>, \<^verbatim>\<open>block.rs\<close>, \<^verbatim>\<open>encoder_options.rs\<close>.
  \<^item> \<open>Header_Writer\<close>, \<open>Header_Reader\<close>, \<open>Stream_Map\<close>: \<open>write_header\<close>, \<open>read_header\<close> and
    \<open>calculate_stream_map\<close>; \<open>Header_Roundtrip\<close>, \<open>Substreams_Roundtrip\<close>, \<open>Files_Roundtrip\<close>,
    \<open>Header_Kept\<close> prove section by section that they are inverse, \<open>Pack_Crcs\<close> where the pack info is not.
  \<^item> \<open>Readers\<close>, \<open>Sinks\<close>: the readers of \<^verbatim>\<open>reader.rs\<close> and \<^verbatim>\<open>writer/*_reader.rs\<close>, \<open>CountingWriter\<close>.
  \<^item> \<open>Swap_Filter\<close>, \<open>Aes_Codec\<close>, \<open>Frame_Encoders\<close>, \<open>Encoder_Chain\<close>, \<open>Decoder_Chain\<close>: \<^verbatim>\<open>codec/\<close>,
    \<^verbatim>\<open>encryption/aes.rs\<close>, \<open>add_encoder\<close>, \<open>create_writer\<close>, \<open>add_decoder\<close>.
  \<^item> \<open>Encoder_Stack\<close>, \<open>Decoder_Stack\<close>, \<open>Decoder_Build\<close>, \<open>Block_Decoding\<close>, \<open>Codec_Inverse\<close>: what a stack of
    encoders does to a stream (\<open>stack_code\<close>), what decoders deliver, and that they are inverse.
  \<^item> \<open>Archive_Writer\<close>, \<open>Providers\<close>: the push functions and \<open>finish\<close>, \<^verbatim>\<open>writer/progress.rs\<close>,
    \<^verbatim>\<open>writer/parallel_provider.rs\<close>; \<open>Archive_Push\<close>, \<open>Archive_Solid\<close>, \<open>Progress_Push\<close>, \<open>Memory_File\<close>,
    \<open>Finish_Layout\<close>: what they leave in the tables and in the file, and when a callback stops them.
  \<^item> \<open>Archive_Opener\<close>, \<open>Block_Stack\<close>, \<open>Archive_Reader\<close>: \<open>Archive::read\<close>, \<open>build_decode_stack\<close> with BCJ2,
    \<open>ArchiveReader\<close> and \<open>BlockDecoder\<close>; \<open>Header_Decoding\<close>, \<open>Archive_Roundtrip\<close>, \<open>Archive_Lifecycle\<close>,
    \<open>Entry_Reading\<close>, \<open>File_Reading\<close>, \<open>Files_Lifecycle\<close>: from a finished file to the contents of a file.
  \<^item> \<open>Map_Wellformed\<close>, \<open>Archive_Visit\<close>: the tables of every archive that opens, and the visit of all its
    entries by \<open>for_each_entries\<close>, on which \<open>test_integrity\<close> and the extraction rest.
  \<^item> \<open>File_System\<close>, \<open>Decompress\<close>, \<open>Archive_Extraction\<close>: \<open>Path\<close> and \<open>std::fs\<close> on a tree of files,
    \<^verbatim>\<open>util/decompress.rs\<close>, and what an extraction leaves on the disk. \<open>Compress\<close>, \<open>Compress_Tree\<close>:
    \<^verbatim>\<open>util/compress.rs\<close> and \<open>ArchiveEntry::from_path\<close>, and the tree of nodes that is pushed.
  \<^item> \<open>Segmented_Writer\<close>, \<open>Streaming_Writer\<close>: \<^verbatim>\<open>writer/segmented_writer.rs\<close> with the two functions of
    \<^verbatim>\<open>writer.rs\<close> that use it, \<^verbatim>\<open>writer/streaming.rs\<close>.
  \<^item> \<open>Perf\<close>, \<open>Nt_Time\<close>, \<open>Background_Reader\<close>: \<^verbatim>\<open>perf.rs\<close>, \<^verbatim>\<open>time.rs\<close>, \<^verbatim>\<open>writer/parallel_reader.rs\<close>, whose
    thread and channel are a step relation.
  \<^item> \<open>Demo_Environment\<close>: concrete parameters for the examples that apply the theorems.

  \<^bold>\<open>What is shown.\<close> Of the formats: every section of the header, integers, bit sets and names are read
  back, and the stream map places every file. Of the codecs: a stack of encoders makes one code
  of the data however it is portioned, and the decoders give the data back; AES, SWAP2 and SWAP4
  are proved in full, the others from the contracts of their crates. Of the writer: each push
  function adds its entry, the tables stay consistent, \<open>finish\<close> lays out the file. Of the whole: what
  is pushed, finished and opened is read back by name (\<open>archive_roundtrip\<close>), passes the test, unless
  a recorded CRC is wrong, and is extracted into a directory; a directory that is compressed and extracted is the same; an
  extraction stays in its destination when the names of the entries do, and only then. Every
  archive that opens has well-formed tables. The properties are in this theory, in the theories
  \<open>*_Properties\<close>, in \<open>Pack_Crcs\<close> and in \<open>Background_Reader\<close>, numbered C1, C2 and so on.
  Some state what the code does where that is not what it means to do.

  \<^bold>\<open>Fuel.\<close> Loops over a reader take as fuel a bound on the number of reads; the length of the contents
  and one more is enough. The loop over the coders of a block needs the number of coders, reading a
  header's properties the number of property kinds (\<open>8 < fuel\<close>), the recursive \<open>write\<close> of a segmented
  writer two, the recursion into directories the depth of the tree. Theorems with fuel say that the result is \<open>Ok\<close>.

  \<^bold>\<open>Not modelled.\<close> The thread pool of \<^verbatim>\<open>async_support\<close>, memory maps (\<^verbatim>\<open>mmap.rs\<close>),
  \<open>compress_to_path\<close> (the archive is in the file system that is read), the bindings of \<^verbatim>\<open>util/wasm.rs\<close>, \<open>Display\<close> and \<open>Debug\<close>, the ratios
  that \<^verbatim>\<open>perf.rs\<close> computes in floating point, and failures of memory allocation.
\<close>

section \<open>Headers\<close>

text \<open>C10: the reader understands every header that the writer makes of well-formed parts. It
  consumes exactly the header, and finds the pack sizes, the blocks with their coders and
  sizes, the comment, and the entries in order: names, times, attributes and kinds are those
  that were written, a streamed entry has the size and CRC of its substream, and it is placed
  in the block that owns this substream. (Of an entry without a stream, \<open>is_anti_item\<close> comes
  back negated: see \<open>anti_items_inverted\<close>.)\<close>

theorem written_header_is_read:
  assumes "header_ok L w" and "8 < fuel"
  shows "\<exists>a. read_header fuel archive_default (cursor_at pre (tl (write_header L w) @ post))
        = Ok (a, cursor_at (pre @ tl (write_header L w)) post)
     \<and> ar_blocks a = map (read_back L) (w_unpack_info w)
     \<and> pack_sizes a = pi_sizes (w_pack_info w) \<and> comment a = w_comment w
     \<and> length (ar_files a) = length (w_files w)
     \<and> (\<forall>i<length (w_files w). entry_kept (w_files w ! i) (ar_files a ! i)
          \<and> (if has_stream (w_files w ! i)
             then let k = streams_before (w_files w) i in
               entry_size (ar_files a ! i) = concat (map sub_sizes (w_unpack_info w)) ! k
               \<and> crc (ar_files a ! i) = map ucast (all_crcs (w_unpack_info w)) ! k
               \<and> file_block_index (ar_stream_map a) ! i = Some (owners (ar_blocks a) ! k)
             else is_anti_item (ar_files a ! i) = (\<not> is_anti_item (w_files w ! i))))"
proof -
  obtain a where a: "calculate_stream_map (archive_read L w) = Ok a"
    by (rule stream_map_correct [OF streams_fit_read [OF assms(1)]])
  from stream_map_kept [OF assms(1) a] parsesD [OF run_header [OF assms a]] show ?thesis
    unfolding header_kept_def by blast
qed

text \<open>A small archive: a stored file of five bytes, a directory and a second file of the same
  block.\<close>

definition demo_header :: archive_header where
  "demo_header =
     \<lparr>w_files = [new_file [97], new_directory [98], (new_file [0x1F600])\<lparr>has_access_date := True, access_date := 7\<rparr>],
      w_content_methods = [],
      w_pack_info = add_stream pack_info_default 5 0xDEADBEEF,
      w_unpack_info = unpack_add_multiple [] [config_new (EncoderMethod ''COPY'' [0])] [5] 0 2 [3, 2] [11, 12],
      w_encrypt_header = False, w_comment = Some [104, 105]\<rparr>"

lemma demo_header_ok: "header_ok demo_libs demo_header"
proof -
  have "codec_props demo_libs (config_new (EncoderMethod ''COPY'' [0])) = []"
    by (simp add: codec_props_def get_options_as_properties_def config_new_def id_delta_def id_lzma2_def
        id_lzma_def id_ppmd_def id_brotli_def id_lz4_def id_zstd_def id_aes256_sha256_def)
  moreover have "method_id (config_method (config_new (EncoderMethod ''COPY'' [0]))) = [0]"
    by (simp add: config_new_def)
  ultimately show ?thesis
    by (simp add: header_ok_def streams_info_ok_def subs_info_ok_def unpack_info_ok_def block_ok_def
        codec_ok_def subs_ok_def num_subs_def pack_info_ok_def files_ok_def name_ok_def names_bytes_def
        comment_ok_def covered_def empties_def demo_header_def add_stream_def pack_info_default_def
        unpack_add_multiple_def new_file_def new_directory_def entry_default_def
        valid_string_def is_scalar_def length_encode_name encode_utf16_def encode_char_def)
qed

theorem written_header_is_read_witness:
  "\<exists>a. read_header 9 archive_default (cursor_at [] (tl (write_header demo_libs demo_header) @ []))
        = Ok (a, cursor_at ([] @ tl (write_header demo_libs demo_header)) [])
     \<and> map name (ar_files a) = [[97], [98], [0x1F600]]"
proof -
  obtain a where a: "read_header 9 archive_default (cursor_at [] (tl (write_header demo_libs demo_header) @ []))
        = Ok (a, cursor_at ([] @ tl (write_header demo_libs demo_header)) [])"
    "length (ar_files a) = length (w_files demo_header)"
    "\<forall>i<length (w_files demo_header). name (ar_files a ! i) = name (w_files demo_header ! i)"
    using written_header_is_read [OF demo_header_ok, of 9 "[]" "[]"] by (auto simp: entry_kept_def)
  have "map name (ar_files a) = map name (w_files demo_header)"
    by (rule nth_equalityI) (use a in simp_all)
  then show ?thesis using a(1) by (auto simp: demo_header_def new_file_def new_directory_def entry_default_def)
qed

text \<open>C11: the stream map of an archive agrees with the reference: a file with a stream is in the
  block that owns its substream, and the first file of a block is the one its first substream
  belongs to. Nothing else of the files changes but the compressed sizes.\<close>

theorem stream_map_places_files:
  assumes "streams_fit a"
  shows "\<exists>a'. calculate_stream_map a = Ok a' \<and> ar_blocks a' = ar_blocks a
     \<and> map (\<lambda>f. f\<lparr>compressed_size := 0\<rparr>) (ar_files a') = map (\<lambda>f. f\<lparr>compressed_size := 0\<rparr>) (ar_files a)
     \<and> (\<forall>i<length (ar_files a). has_stream (ar_files a ! i) \<longrightarrow>
          file_block_index (ar_stream_map a') ! i
            = Some (owners (ar_blocks a) ! length (filter has_stream (take i (ar_files a))))
          \<and> (\<forall>b<length (ar_blocks a). 0 < num_unpack_sub_streams (ar_blocks a ! b) \<longrightarrow>
               length (filter has_stream (take i (ar_files a)))
                 = sum_list (map num_unpack_sub_streams (take b (ar_blocks a))) \<longrightarrow>
               block_first_file_index (ar_stream_map a') ! b = i))"
proof -
  obtain a' where "calculate_stream_map a = Ok a'" "same_files (ar_files a) (ar_files a')" "ar_blocks a' = ar_blocks a"
    and place: "\<And>i. i < length (ar_files a) \<Longrightarrow> has_stream (ar_files a ! i) \<Longrightarrow>
       file_block_index (ar_stream_map a') ! i = Some (owners (ar_blocks a) ! streams_before (ar_files a) i)"
    and first: "\<And>i b. i < length (ar_files a) \<Longrightarrow> has_stream (ar_files a ! i) \<Longrightarrow>
       b < length (ar_blocks a) \<Longrightarrow> 0 < num_unpack_sub_streams (ar_blocks a ! b) \<Longrightarrow>
       streams_before (ar_files a) i = base (ar_blocks a) b \<Longrightarrow>
       block_first_file_index (ar_stream_map a') ! b = i"
    by (rule stream_map_correct [OF assms]) (rule that; assumption)
  then show ?thesis
    by (intro exI [of _ a'] conjI allI impI)
      (simp_all add: same_files_def streams_before_def base_def)
qed

definition demo_archive :: archive where
  "demo_archive = archive_default\<lparr>pack_sizes := [10, 20],
     ar_blocks := [block_default\<lparr>packed_streams := [0], num_unpack_sub_streams := 2\<rparr>,
                   block_default\<lparr>packed_streams := [0], num_unpack_sub_streams := 1\<rparr>],
     ar_files := [new_file [97], new_directory [98], new_file [99], new_file [100]]\<rparr>"

lemma demo_archive_fits: "streams_fit demo_archive"
  by (simp add: streams_fit_def demo_archive_def archive_default_def block_default_def streams_before_def
      base_def new_file_def new_directory_def entry_default_def)

theorem stream_map_places_files_witness:
  "\<exists>a'. calculate_stream_map demo_archive = Ok a' \<and> file_block_index (ar_stream_map a') ! 3 = Some 1
     \<and> block_first_file_index (ar_stream_map a') ! 1 = 3"
proof -
  have files: "ar_files demo_archive = [new_file [97], new_directory [98], new_file [99], new_file [100]]"
    "\<And>n. has_stream (new_file n)" "\<And>n. \<not> has_stream (new_directory n)"
    "map num_unpack_sub_streams (ar_blocks demo_archive) = [2, 1]" "length (ar_blocks demo_archive) = 2"
    "owners (ar_blocks demo_archive) = [0, 0, 1]"
    by (simp_all add: demo_archive_def new_file_def new_directory_def entry_default_def block_default_def
        owners_def numeral_2_eq_2)
  then have block: "num_unpack_sub_streams (ar_blocks demo_archive ! 1) = 1"
    "sum_list (map num_unpack_sub_streams (take 1 (ar_blocks demo_archive))) = 2"
    by (simp_all add: demo_archive_def block_default_def)
  obtain a' where "calculate_stream_map demo_archive = Ok a'"
    and all: "\<forall>i<length (ar_files demo_archive). has_stream (ar_files demo_archive ! i) \<longrightarrow>
          file_block_index (ar_stream_map a') ! i
            = Some (owners (ar_blocks demo_archive) ! length (filter has_stream (take i (ar_files demo_archive))))
          \<and> (\<forall>b<length (ar_blocks demo_archive). 0 < num_unpack_sub_streams (ar_blocks demo_archive ! b) \<longrightarrow>
               length (filter has_stream (take i (ar_files demo_archive)))
                 = sum_list (map num_unpack_sub_streams (take b (ar_blocks demo_archive))) \<longrightarrow>
               block_first_file_index (ar_stream_map a') ! b = i)"
    using stream_map_places_files [OF demo_archive_fits] by blast
  moreover have "file_block_index (ar_stream_map a') ! 3 = Some 1 \<and> block_first_file_index (ar_stream_map a') ! 1 = 3"
    using all [rule_format, of 3] files block by (simp add: eval_nat_numeral)
  ultimately show ?thesis by blast
qed

text \<open>C12: the variable-length integers: the reader recovers every 64-bit value from what the
  writer wrote, whatever surrounds it, and an encoding has between one and nine bytes.\<close>

theorem variable_integer_roundtrip:
  "read_variable_u64 (cursor_at pre (write_u64 v @ post)) = Ok (v, cursor_at (pre @ write_u64 v) post)
   \<and> 1 \<le> length (write_u64 v) \<and> length (write_u64 v) \<le> 9"
  using length_write_u64 [of v] parsesD [OF parses_read_variable_u64] by simp

text \<open>C13: a block of the writer is read back as a chain of its codecs: one packed stream, the
  method ids and the properties in the order they were written, and the iteration over its
  coders ends and visits each once, from the one that reads the packed stream.\<close>

theorem written_block_is_a_chain:
  assumes "block_ok L b" and "length (bi_methods b) < fuel"
  shows "\<exists>r. read_block (cursor_at pre (write_block L b @ post)) = Ok (r, cursor_at (pre @ write_block L b) post)
     \<and> packed_streams r = [0]
     \<and> map encoder_method_id (coders r) = map (\<lambda>m. method_id (config_method m)) (bi_methods b)
     \<and> map properties (coders r)
         = map (\<lambda>m. get_options_as_properties L (config_method m) (config_options m)) (bi_methods b)
     \<and> (ordered_coders fuel r :: (usize \<times> coder) list result) = Ok (enumerate 0 (coders r))"
proof (intro exI conjI)
  let ?r = "(written_block L b)\<lparr>unpack_sizes := []\<rparr>"
  show "read_block (cursor_at pre (write_block L b @ post)) = Ok (?r, cursor_at (pre @ write_block L b) post)"
    by (rule parsesD [OF parses_block [OF assms(1)]])
  have "is_chain ?r" using is_chain_written [OF assms(1)] by (simp add: is_chain_def)
  then show "(ordered_coders fuel ?r :: (usize \<times> coder) list result) = Ok (enumerate 0 (coders ?r))"
    by (rule ordered_coders_chain) (use assms(2) in \<open>simp add: written_block_def Let_def\<close>)
qed (simp_all add: written_block_def Let_def written_coder_def encoder_method_id_def codec_props_def)

definition demo_block :: block_info where
  "demo_block = \<lparr>bi_methods = [config_new (EncoderMethod ''COPY'' [0]), config_new (EncoderMethod ''BCJ_X86'' [3, 3, 1, 3])],
     bi_sizes = [5, 5], bi_crc = 9, bi_num_sub_unpack_streams = 1, bi_sub_stream_sizes = [], bi_sub_stream_crcs = []\<rparr>"

lemma demo_block_ok: "block_ok demo_libs demo_block"
  by (simp add: block_ok_def demo_block_def codec_ok_def codec_props_def config_new_def
      get_options_as_properties_def id_delta_def id_lzma2_def
        id_lzma_def id_ppmd_def id_brotli_def id_lz4_def id_zstd_def id_aes256_sha256_def)

theorem written_block_is_a_chain_witness:
  "\<exists>r. read_block (cursor_at [7] (write_block demo_libs demo_block @ []))
        = Ok (r, cursor_at ([7] @ write_block demo_libs demo_block) [])
     \<and> map encoder_method_id (coders r) = [[0], [3, 3, 1, 3]]"
  using written_block_is_a_chain [OF demo_block_ok, of 3 "[7]" "[]"]
  by (auto simp: demo_block_def config_new_def)

text \<open>C14: the substreams section gives every block its number of substreams and every substream
  its size, CRC and the flag that the CRC is known, in order. The size of the last substream of
  a block is not written: the reader gets it from the block's size.\<close>

theorem written_substreams_are_read:
  assumes "subs_info_ok L us" and "ar_blocks a = map (written_block L) us"
  shows "\<exists>si. read_sub_streams_info a (cursor_at pre (tl (write_substreams us) @ post))
      = Ok (a\<lparr>ar_blocks := map (\<lambda>b. (written_block L b)\<lparr>num_unpack_sub_streams := num_subs b\<rparr>) us,
              sub_streams := Some si\<rparr>, cursor_at (pre @ tl (write_substreams us)) post)
     \<and> ss_unpack_sizes si = concat (map sub_sizes us)
     \<and> ss_crcs si = map ucast (concat (map crcs_of_block us))
     \<and> (\<forall>i. bs_contains (ss_has_crc si) i \<longleftrightarrow> i < sum_list (map num_subs us))"
proof (intro exI conjI)
  have subs: "list_all subs_ok us" using assms(1) by (simp add: subs_info_ok_def)
  show "read_sub_streams_info a (cursor_at pre (tl (write_substreams us) @ post))
      = Ok (a\<lparr>ar_blocks := map (\<lambda>b. (written_block L b)\<lparr>num_unpack_sub_streams := num_subs b\<rparr>) us,
              sub_streams := Some (read_sub_streams us)\<rparr>, cursor_at (pre @ tl (write_substreams us)) post)"
    using parsesD [OF parses_substreams [OF assms], of pre post] unfolding read_back_def .
  show "\<forall>i. bs_contains (ss_has_crc (read_sub_streams us)) i \<longleftrightarrow> i < sum_list (map num_subs us)"
    by (simp add: read_sub_streams_def length_all_crcs [OF subs])
qed (simp_all add: read_sub_streams_def all_crcs_def)

theorem written_substreams_are_read_witness:
  "\<exists>si. read_sub_streams_info (archive_default\<lparr>ar_blocks := map (written_block demo_libs) (w_unpack_info demo_header)\<rparr>)
        (cursor_at [] (tl (write_substreams (w_unpack_info demo_header)) @ [1]))
      = Ok (archive_default\<lparr>ar_blocks := map (\<lambda>b. (written_block demo_libs b)\<lparr>num_unpack_sub_streams := num_subs b\<rparr>)
              (w_unpack_info demo_header), sub_streams := Some si\<rparr>,
            cursor_at ([] @ tl (write_substreams (w_unpack_info demo_header))) [1])
     \<and> ss_unpack_sizes si = [3, 2] \<and> ss_crcs si = [11, 12]"
proof -
  have ok: "subs_info_ok demo_libs (w_unpack_info demo_header)"
    using demo_header_ok by (simp add: header_ok_def streams_info_ok_def)
  show ?thesis
    using written_substreams_are_read [OF ok, of "archive_default\<lparr>ar_blocks := map (written_block demo_libs) (w_unpack_info demo_header)\<rparr>"
        "[]" "[1]"]
    by (auto simp: demo_header_def unpack_add_multiple_def sub_sizes_def num_subs_def crcs_of_block_def)
qed

text \<open>C15: the pack info section, when all CRCs of the packed streams are known or none is.\<close>

theorem written_pack_info_is_read:
  assumes "length (pi_crcs p) = length (pi_sizes p)" and "length (pi_sizes p) < 2 ^ 64"
    and "list_all (\<lambda>c. c \<noteq> 0) (pi_crcs p) \<or> list_all (\<lambda>c. c = 0) (pi_crcs p)"
  shows "\<exists>b. read_pack_info a (cursor_at pre (tl (write_pack_info p) @ post))
        = Ok (b, cursor_at (pre @ tl (write_pack_info p)) post)
     \<and> pack_pos b = pi_pos p \<and> pack_sizes b = pi_sizes p \<and> pack_crcs b = map ucast (pi_crcs p)
     \<and> (\<forall>i. bs_contains (pack_crcs_defined b) i \<longleftrightarrow> i < length (pi_crcs p) \<and> pi_crcs p ! i \<noteq> 0)"
proof (intro exI conjI)
  have "pack_info_ok p" using assms by (simp add: pack_info_ok_def)
  then show "read_pack_info a (cursor_at pre (tl (write_pack_info p) @ post))
        = Ok (with_pack_info p a, cursor_at (pre @ tl (write_pack_info p)) post)"
    by (rule parsesD [OF parses_pack_info])
qed (simp_all add: with_pack_info_def)

theorem written_pack_info_is_read_witness:
  "\<exists>b. read_pack_info archive_default
         (cursor_at [] (tl (write_pack_info (add_stream (add_stream pack_info_default 10 7) 300 8)) @ []))
       = Ok (b, cursor_at ([] @ tl (write_pack_info (add_stream (add_stream pack_info_default 10 7) 300 8))) [])
     \<and> pack_sizes b = [10, 300]"
  using written_pack_info_is_read [of "add_stream (add_stream pack_info_default 10 7) 300 8" archive_default "[]" "[]"]
  by (auto simp: add_stream_def pack_info_default_def)

text \<open>C17: a \<open>BitSet\<close> behaves as a set of indices: \<open>insert\<close> and \<open>remove\<close> keep its
  representation well-formed, change exactly the one member, report what they changed, and
  \<open>len\<close> is the number of members. (Indices are below \<open>usize::MAX\<close>: see \<open>bs_insert\<close>.)\<close>

lemma bs_insert_reports: "bs_ok s \<Longrightarrow> fst (bs_insert s i) = (\<not> bs_contains s i)"
proof -
  assume ok: "bs_ok s"
  let ?t = "if bit_count s \<le> i then bs_grow s (i + 1) else s"
  have t: "bs_ok ?t" "i < bit_count ?t" "raw_bit ?t i = raw_bit s i"
    using ok by (simp_all add: bs_grow_ok bs_grow_count bs_grow_raw)
  then have "i div 64 < length (blocks ?t)"
    using blocks_for_bits_less [of i "bit_count ?t"] by (simp add: bs_ok_def)
  then have "bit (blocks ?t ! (i div 64)) (i mod 64) = raw_bit ?t i" by (simp add: raw_bit_def)
  with t ok show ?thesis by (simp add: bs_insert_eq Let_def bs_contains_ok)
qed

lemma bs_remove_reports: "bs_ok s \<Longrightarrow> fst (bs_remove s i) = bs_contains s i"
  using blocks_for_bits_less [of i "bit_count s"]
  by (auto simp: bs_remove_eq bs_contains_raw raw_bit_def bs_ok_def)

theorem bit_set_is_a_set:
  assumes "bs_ok s"
  shows "bs_ok (snd (bs_insert s i)) \<and> bs_ok (snd (bs_remove s i))
     \<and> fst (bs_insert s i) = (\<not> bs_contains s i) \<and> fst (bs_remove s i) = bs_contains s i
     \<and> {j. bs_contains (snd (bs_insert s i)) j} = insert i {j. bs_contains s j}
     \<and> {j. bs_contains (snd (bs_remove s i)) j} = {j. bs_contains s j} - {i}
     \<and> bs_len s = card {j. bs_contains s j}"
  using assms bits.ok_add [OF assms, of i] bits.member_add [OF assms, of i]
  by (auto simp: bs_add_def bs_ok_remove contains_remove bs_insert_reports bs_remove_reports bs_len_card)

theorem bit_set_is_a_set_witness:
  "{j. bs_contains (snd (bs_insert (bs_with_capacity 3) 100)) j} = {100}"
  using bit_set_is_a_set [of "bs_with_capacity 3" 100] by (simp add: bs_ok_with_capacity bits.member_empty)

text \<open>C18: \<open>write_bit_set\<close> packs the flags of the indices below the capacity eight to a byte, the
  first in the most significant bit, and \<open>read_bits\<close> of that many bits gives the set again.\<close>

theorem bit_set_roundtrip:
  assumes "bs_ok s"
  shows "write_bit_set s = pack_bits (map (bs_contains s) [0..<bit_count s])
     \<and> length (write_bit_set s) = (bit_count s + 7) div 8
     \<and> read_bits (bit_count s) (cursor_at pre (write_bit_set s @ post)) = Ok (s, cursor_at (pre @ write_bit_set s) post)"
  using parsesD [OF parses_read_bits_write [OF assms refl]]
  by (simp add: write_bit_set_eq flags_def length_pack_bits)

theorem bit_set_roundtrip_witness:
  "read_bits 10 (cursor_at [] (write_bit_set (bs_set_all (bs_with_capacity 10) 10) @ [1]))
     = Ok (bs_set_all (bs_with_capacity 10) 10, cursor_at ([] @ write_bit_set (bs_set_all (bs_with_capacity 10) 10)) [1])"
  using bit_set_roundtrip [OF bs_ok_set_all [of 10], of "[]" "[1]"] by (metis bit_count_set_all)

text \<open>C19: the conversions of names: \<open>from_utf16\<close> gives back every string of scalar values, also
  those outside the basic plane, and the names reader finds a zero-terminated name and what
  remains of the region.\<close>

theorem name_roundtrip:
  assumes "valid_string s"
  shows "from_utf16 (encode_utf16 s) = Some s
     \<and> (0 \<notin> set s \<longrightarrow> read_bytes + length (encode_name s) \<le> max_bytes \<longrightarrow>
        names_next max_bytes read_bytes (cursor_at pre (encode_name s @ post))
          = Ok (Some (s, read_bytes + length (encode_name s)), cursor_at (pre @ encode_name s) post))"
  using from_utf16_encode [OF assms] parsesD [OF parses_names_next [OF assms]] by simp

theorem name_roundtrip_witness:
  "from_utf16 (encode_utf16 [0x1F600, 97]) = Some [0x1F600, 97]"
  using name_roundtrip [of "[0x1F600, 97]"] by (simp add: valid_string_def is_scalar_def)

text \<open>C20: \<open>read_archive_properties\<close> does not end on every input. A record of an unknown kind
  whose size is \<open>2 ^ 64 - 10\<close> moves the cursor back to its own start.\<close>

definition looping_record :: bytes where
  "looping_record = [0x19, 0xFF, 0xF6, 0xFF, 0xFF, 0xFF, 0xFF, 0xFF, 0xFF, 0xFF]"

lemma looping_size: "write_u64 (- 10) = [0xFF, 0xF6, 0xFF, 0xFF, 0xFF, 0xFF, 0xFF, 0xFF, 0xFF]"
  by code_simp

lemma run_negative_size:
  "and_read (read_variable_usize field) f (cursor_at pre (write_u64 (- 10) @ post))
     = f (2 ^ 64 - 10) (cursor_at (pre @ write_u64 (- 10)) post)"
proof -
  have neg: "(of_nat (2 ^ 64 - 10) :: u64) = - 10" by (subst of_nat_diff) simp_all
  show ?thesis by (rule run_usize [of "2 ^ 64 - 10", unfolded neg]) simp
qed

theorem archive_properties_can_loop:
  assumes "length pre < 2 ^ 64"
  shows "read_archive_properties fuel a (cursor_at pre (looping_record @ post)) = OutOfFuel"
proof (induction fuel)
  case (Suc fuel)
  have bytes: "looping_record = 0x19 # write_u64 (- 10)" unfolding looping_size by (simp add: looping_record_def)
  have "lift_io (seek_current (of_nat (2 ^ 64 - 10))) (cursor_at ((pre @ [0x19]) @ write_u64 (- 10)) post)
      = Ok ((), cursor_at pre (looping_record @ post))"
    unfolding bytes looping_size using assms by (simp add: lift_io_def seek_current_def cursor_at_def)
  with Suc show ?case
    unfolding bytes by (simp add: run_parser run_negative_size) (simp add: and_read_def)
qed simp

theorem archive_properties_can_loop_witness:
  "read_archive_properties 1000 archive_default (cursor_at [] (looping_record @ [0])) = OutOfFuel"
  by (rule archive_properties_can_loop) simp

end
